(* ===== verification/Prelude.thy ===== *)
theory Prelude
  imports Main "HOL-Library.List_Lexorder" "HOL-Library.Char_ord" "HOL-Library.Multiset"
    "HOL-Library.Sublist"
begin

text \<open>
  Shared vocabulary of the development.  Go results are values of a sum type whose left
  side is the error; validators return an optional error (None is Go's nil).  The loops of the Go
  code that share a shape are given once: a range loop with an early error return, a range loop
  threading a state that may stop with an error, first-occurrence de-duplication through a seen
  set, and sorting of a slice by a key.
\<close>

named_theorems res_simps \<open>rewriting of result and optional error combinators\<close>

type_synonym 'e error = "'e option"

subsection \<open>Optional errors\<close>

definition err_if :: "bool \<Rightarrow> 'e \<Rightarrow> 'e error" where
  "err_if b e = (if b then Some e else None)"

fun err_seq :: "'e error \<Rightarrow> 'e error \<Rightarrow> 'e error" where
  "err_seq None k = k"
| "err_seq (Some e) k = Some e"

fun first_err :: "('a \<Rightarrow> 'e error) \<Rightarrow> 'a list \<Rightarrow> 'e error" where
  "first_err f [] = None"
| "first_err f (x # xs) = (case f x of Some e \<Rightarrow> Some e | None \<Rightarrow> first_err f xs)"

lemma err_if_None [res_simps, simp]: "err_if b e = None \<longleftrightarrow> \<not> b"
  by (simp add: err_if_def)

lemma err_if_Some [res_simps, simp]: "err_if b e = Some e' \<longleftrightarrow> b \<and> e = e'"
  by (simp add: err_if_def)

lemma err_seq_None [res_simps, simp]: "err_seq a b = None \<longleftrightarrow> a = None \<and> b = None"
  by (cases a) auto

lemma err_seq_Some [res_simps]:
  "err_seq a b = Some e \<longleftrightarrow> a = Some e \<or> (a = None \<and> b = Some e)"
  by (cases a) auto

lemma first_err_None [res_simps, simp]: "first_err f xs = None \<longleftrightarrow> (\<forall>x\<in>set xs. f x = None)"
  by (induction xs) (auto split: option.splits)

lemma first_err_SomeD: "first_err f xs = Some e \<Longrightarrow> \<exists>x\<in>set xs. f x = Some e"
  by (induction xs) (auto split: option.splits)

lemma first_err_append: "first_err f (xs @ ys) = err_seq (first_err f xs) (first_err f ys)"
  by (induction xs) (auto split: option.splits)

lemma case_error_Inr [res_simps, simp]:
  "(case e of None \<Rightarrow> r | Some d \<Rightarrow> Inl (g d)) = Inr y \<longleftrightarrow> e = None \<and> r = Inr y"
  by (cases e) auto

lemma case_error_None [res_simps, simp]:
  "(case e of None \<Rightarrow> r | Some d \<Rightarrow> Some (g d)) = None \<longleftrightarrow> e = None \<and> r = None"
  by (cases e) auto

subsection \<open>Results\<close>

fun res_bind :: "'e + 'a \<Rightarrow> ('a \<Rightarrow> 'e + 'b) \<Rightarrow> 'e + 'b" where
  "res_bind (Inl e) k = Inl e"
| "res_bind (Inr x) k = k x"

fun res_map :: "('a \<Rightarrow> 'b) \<Rightarrow> 'e + 'a \<Rightarrow> 'e + 'b" where
  "res_map f (Inl e) = Inl e"
| "res_map f (Inr x) = Inr (f x)"

fun res_map_err :: "('e \<Rightarrow> 'f) \<Rightarrow> 'e + 'a \<Rightarrow> 'f + 'a" where
  "res_map_err g (Inl e) = Inl (g e)"
| "res_map_err g (Inr x) = Inr x"

definition res_of_err :: "'e error \<Rightarrow> 'a \<Rightarrow> 'e + 'a" where
  "res_of_err e x = (case e of Some err \<Rightarrow> Inl err | None \<Rightarrow> Inr x)"

fun is_ok :: "'e + 'a \<Rightarrow> bool" where
  "is_ok (Inl _) = False"
| "is_ok (Inr _) = True"

lemma is_ok_iff: "is_ok r \<longleftrightarrow> (\<exists>x. r = Inr x)"
  by (cases r) auto

lemma res_bind_Inr [res_simps]: "res_bind m k = Inr y \<longleftrightarrow> (\<exists>x. m = Inr x \<and> k x = Inr y)"
  by (cases m) auto

lemma res_bind_Inl [res_simps]:
  "res_bind m k = Inl e \<longleftrightarrow> m = Inl e \<or> (\<exists>x. m = Inr x \<and> k x = Inl e)"
  by (cases m) auto

lemma res_map_Inr [res_simps]: "res_map f m = Inr y \<longleftrightarrow> (\<exists>x. m = Inr x \<and> y = f x)"
  by (cases m) auto

lemma res_map_err_Inr [res_simps, simp]: "res_map_err g m = Inr y \<longleftrightarrow> m = Inr y"
  by (cases m) auto

lemma res_of_err_Inr [res_simps, simp]: "res_of_err e x = Inr y \<longleftrightarrow> e = None \<and> x = y"
  by (auto simp: res_of_err_def split: option.splits)

lemma res_of_err_Inl [res_simps, simp]: "res_of_err e x = Inl d \<longleftrightarrow> e = Some d"
  by (auto simp: res_of_err_def split: option.splits)

fun fold_res :: "('a \<Rightarrow> 's \<Rightarrow> 'e + 's) \<Rightarrow> 'a list \<Rightarrow> 's \<Rightarrow> 'e + 's" where
  "fold_res f [] s = Inr s"
| "fold_res f (x # xs) s = (case f x s of Inl e \<Rightarrow> Inl e | Inr s' \<Rightarrow> fold_res f xs s')"

lemma fold_res_append:
  "fold_res f (xs @ ys) s = res_bind (fold_res f xs s) (fold_res f ys)"
  by (induction xs arbitrary: s) (auto split: sum.splits)

lemma fold_res_invariant:
  assumes "fold_res f xs s = Inr s'" and "I s"
    and "\<And>x s s'. x \<in> set xs \<Longrightarrow> I s \<Longrightarrow> f x s = Inr s' \<Longrightarrow> I s'"
  shows "I s'"
  using assms
proof (induction xs arbitrary: s)
  case Nil
  then show ?case by simp
next
  case (Cons x xs)
  then obtain t where t: "f x s = Inr t" "fold_res f xs t = Inr s'"
    by (auto split: sum.splits)
  then have "I t" using Cons.prems(2,3) by (metis list.set_intros(1))
  then show ?case using Cons.IH[OF t(2)] Cons.prems(3) by (metis list.set_intros(2))
qed

lemma fold_res_snoc_inv:
  assumes "fold_res f xs s = Inr s'" and "I [] s"
    and "\<And>ys x zs t t'. xs = ys @ x # zs \<Longrightarrow> I ys t \<Longrightarrow> f x t = Inr t' \<Longrightarrow> I (ys @ [x]) t'"
  shows "I xs s'"
proof -
  have "fold_res f zs t = Inr s' \<Longrightarrow> I ys t \<Longrightarrow> xs = ys @ zs \<Longrightarrow> I xs s'" for ys zs t
  proof (induction zs arbitrary: ys t)
    case Nil
    then show ?case by simp
  next
    case (Cons x zs)
    then obtain t' where "f x t = Inr t'" "fold_res f zs t' = Inr s'"
      by (auto split: sum.splits)
    with Cons assms(3) show ?case
      by (metis append.assoc append_Cons append_Nil)
  qed
  from this[of xs s "[]"] show ?thesis using assms(1,2) by simp
qed

subsection \<open>First occurrence through a seen set\<close>

fun dedup_aux :: "'a list \<Rightarrow> 'a list \<Rightarrow> 'a list" where
  "dedup_aux seen [] = []"
| "dedup_aux seen (x # xs) =
    (if x \<in> set seen then dedup_aux seen xs else x # dedup_aux (x # seen) xs)"

definition dedup :: "'a list \<Rightarrow> 'a list" where
  "dedup xs = dedup_aux [] xs"

lemma set_dedup_aux: "set (dedup_aux seen xs) = set xs - set seen"
  by (induction seen xs rule: dedup_aux.induct) auto

lemma distinct_dedup_aux: "distinct (dedup_aux seen xs)"
  by (induction seen xs rule: dedup_aux.induct) (auto simp: set_dedup_aux)

lemma set_dedup [simp]: "set (dedup xs) = set xs"
  by (simp add: dedup_def set_dedup_aux)

lemma distinct_dedup [simp, intro]: "distinct (dedup xs)"
  by (simp add: dedup_def distinct_dedup_aux)

lemma dedup_Nil [simp]: "dedup [] = []"
  by (simp add: dedup_def)

lemma dedup_aux_distinct: "distinct xs \<Longrightarrow> set xs \<inter> set seen = {} \<Longrightarrow> dedup_aux seen xs = xs"
  by (induction seen xs rule: dedup_aux.induct) auto

lemma dedup_distinct [simp]: "distinct xs \<Longrightarrow> dedup xs = xs"
  by (simp add: dedup_def dedup_aux_distinct)

lemma length_dedup_le: "length (dedup xs) \<le> length xs"
  by (metis card_length distinct_card distinct_dedup set_dedup)

lemma subseq_dedup_aux: "subseq (dedup_aux seen xs) xs"
  by (induction seen xs rule: dedup_aux.induct) auto

subsection \<open>Maps built by a loop over keyed items\<close>

definition keyed_map :: "('a \<Rightarrow> 'k) \<Rightarrow> ('a \<Rightarrow> 'v) \<Rightarrow> 'a list \<Rightarrow> 'k \<rightharpoonup> 'v" where
  "keyed_map k v xs = map_of (map (\<lambda>x. (k x, v x)) xs)"

lemma dom_keyed_map [simp]: "dom (keyed_map k v xs) = k ` set xs"
  by (auto simp: keyed_map_def dom_map_of_conv_image_fst image_image)

lemma keyed_map_Nil [simp]: "keyed_map k v [] = Map.empty"
  by (simp add: keyed_map_def)

lemma keyed_map_upd_add:
  "k x \<notin> k ` set xs \<Longrightarrow> m(k x \<mapsto> v x) ++ keyed_map k v xs = m ++ keyed_map k v (x # xs)"
  by (subst map_add_upd_left) (auto simp: keyed_map_def dom_map_of_conv_image_fst image_image)

lemma keyed_map_Some:
  "distinct (map k xs) \<Longrightarrow> keyed_map k v xs i = Some y \<longleftrightarrow> (\<exists>x\<in>set xs. k x = i \<and> v x = y)"
  by (auto simp: keyed_map_def o_def map_of_eq_Some_iff)

lemma keyed_map_SomeD: "keyed_map k v xs i = Some y \<Longrightarrow> \<exists>x\<in>set xs. k x = i \<and> v x = y"
  by (auto simp: keyed_map_def dest!: map_of_SomeD)

subsection \<open>Sorted slices\<close>

definition uniqueSortedStrings :: "string list \<Rightarrow> string list" where
  "uniqueSortedStrings xs = sort (dedup xs)"

lemma set_uniqueSorted [simp]: "set (uniqueSortedStrings xs) = set xs"
  by (simp add: uniqueSortedStrings_def)

lemma distinct_uniqueSorted [simp]: "distinct (uniqueSortedStrings xs)"
  by (simp add: uniqueSortedStrings_def)

lemma sorted_uniqueSorted [simp]: "sorted (uniqueSortedStrings xs)"
  by (simp add: uniqueSortedStrings_def)

lemma uniqueSorted_cong: "set xs = set ys \<Longrightarrow> uniqueSortedStrings xs = uniqueSortedStrings ys"
  by (intro sorted_distinct_set_unique) simp_all

lemma uniqueSorted_idem [simp]: "uniqueSortedStrings (uniqueSortedStrings xs) = uniqueSortedStrings xs"
  by (rule uniqueSorted_cong) simp

lemma length_uniqueSorted_le: "length (uniqueSortedStrings xs) \<le> length xs"
  by (simp add: uniqueSortedStrings_def length_dedup_le)

text \<open>A loop that appends one result per element and returns at the first error.\<close>

fun mapRes :: "('a \<Rightarrow> 'e + 'b) \<Rightarrow> 'a list \<Rightarrow> 'e + 'b list" where
  "mapRes f [] = Inr []"
| "mapRes f (x # xs) = res_bind (f x) (\<lambda>y. res_map (\<lambda>ys. y # ys) (mapRes f xs))"

lemma mapRes_filter:
  assumes "mapRes f xs = Inr ys" "\<And>x y. f x = Inr y \<Longrightarrow> Q y \<longleftrightarrow> P x"
  shows "mapRes f (filter P xs) = Inr (filter Q ys)"
  using assms(1)
proof (induction xs arbitrary: ys)
  case (Cons x xs)
  then obtain y zs where "f x = Inr y" "mapRes f xs = Inr zs" "ys = y # zs" by (auto simp: res_simps)
  with Cons.IH[of zs] assms(2)[of x y] show ?case by simp
qed simp

lemma mapRes_Inr: "mapRes f xs = Inr ys \<longleftrightarrow> list_all2 (\<lambda>x y. f x = Inr y) xs ys"
proof (induction xs arbitrary: ys)
  case (Cons x xs)
  then show ?case by (cases ys) (auto simp: res_simps)
qed auto

end
