(* ===== verification/GoStrings.thy ===== *)
theory GoStrings
  imports Prelude
begin

text \<open>
  The parts of Go's strings, unicode/utf8, unicode and path packages the repository uses, over
  byte strings.  Ranging over a string yields its UTF-8 segments: the bytes of one rune, or a
  single byte where the encoding is invalid.  The Unicode tables beyond ASCII are a parameter; the
  white space property is the fixed set of unicode.IsSpace.
\<close>

type_synonym rune = nat

definition RuneError :: rune where "RuneError = 65533"

subsection \<open>UTF-8\<close>

definition byte :: "char \<Rightarrow> nat" where "byte c = of_char c"

definition cont_byte :: "nat \<Rightarrow> bool" where "cont_byte b \<longleftrightarrow> 128 \<le> b \<and> b \<le> 191"

text \<open>The admissible range of the second byte depends on the first one.\<close>

definition second_ok :: "nat \<Rightarrow> nat \<Rightarrow> bool" where
  "second_ok b0 b1 \<longleftrightarrow> (if b0 = 224 then 160 \<le> b1 \<and> b1 \<le> 191 else if b0 = 237 then 128 \<le> b1 \<and> b1 \<le> 159
     else if b0 = 240 then 144 \<le> b1 \<and> b1 \<le> 191 else if b0 = 244 then 128 \<le> b1 \<and> b1 \<le> 143
     else cont_byte b1)"

fun decodeRune :: "string \<Rightarrow> rune \<times> nat" where
  "decodeRune [] = (RuneError, 0)"
| "decodeRune (c # cs) = (let b0 = byte c in
     if b0 < 128 then (b0, 1)
     else if 194 \<le> b0 \<and> b0 \<le> 223 then
       (case cs of c1 # _ \<Rightarrow> if second_ok b0 (byte c1) then ((b0 - 192) * 64 + (byte c1 - 128), 2) else (RuneError, 1)
        | _ \<Rightarrow> (RuneError, 1))
     else if 224 \<le> b0 \<and> b0 \<le> 239 then
       (case cs of c1 # c2 # _ \<Rightarrow> if second_ok b0 (byte c1) \<and> cont_byte (byte c2)
            then ((b0 - 224) * 4096 + (byte c1 - 128) * 64 + (byte c2 - 128), 3) else (RuneError, 1)
        | _ \<Rightarrow> (RuneError, 1))
     else if 240 \<le> b0 \<and> b0 \<le> 244 then
       (case cs of c1 # c2 # c3 # _ \<Rightarrow> if second_ok b0 (byte c1) \<and> cont_byte (byte c2) \<and> cont_byte (byte c3)
            then ((b0 - 240) * 262144 + (byte c1 - 128) * 4096 + (byte c2 - 128) * 64 + (byte c3 - 128), 4)
            else (RuneError, 1)
        | _ \<Rightarrow> (RuneError, 1))
     else (RuneError, 1))"

lemma decodeRune_width: "s \<noteq> [] \<Longrightarrow> 1 \<le> snd (decodeRune s) \<and> snd (decodeRune s) \<le> length s"
  by (cases s) (auto simp: Let_def split: list.splits)

definition encodeRune :: "rune \<Rightarrow> string" where
  "encodeRune r =
    (if r < 128 then [char_of r]
     else if r < 2048 then [char_of (192 + r div 64), char_of (128 + r mod 64)]
     else if r > 1114111 \<or> (55296 \<le> r \<and> r \<le> 57343) then [char_of (239 :: nat), char_of (191 :: nat), char_of (189 :: nat)]
     else if r < 65536 then [char_of (224 + r div 4096), char_of (128 + r div 64 mod 64), char_of (128 + r mod 64)]
     else [char_of (240 + r div 262144), char_of (128 + r div 4096 mod 64), char_of (128 + r div 64 mod 64),
           char_of (128 + r mod 64)])"

definition valid_rune :: "rune \<Rightarrow> bool" where
  "valid_rune r \<longleftrightarrow> r \<le> 1114111 \<and> \<not> (55296 \<le> r \<and> r \<le> 57343)"

function segments :: "string \<Rightarrow> string list" where
  "segments s = (if s = [] then [] else take (snd (decodeRune s)) s # segments (drop (snd (decodeRune s)) s))"
  by auto
termination
  by (relation "measure length") (use decodeRune_width in force)+

declare segments.simps [simp del]

lemma segments_Nil [simp]: "segments [] = []"
  by (simp add: segments.simps)

lemma concat_segments [simp]: "concat (segments s) = s"
proof (induction s rule: segments.induct)
  case (1 s)
  then show ?case by (cases "s = []") (simp_all add: segments.simps[of s])
qed

definition runeOf :: "string \<Rightarrow> rune" where
  "runeOf seg = fst (decodeRune seg)"

definition runes :: "string \<Rightarrow> rune list" where
  "runes s = map runeOf (segments s)"

definition encodeRunes :: "rune list \<Rightarrow> string" where
  "encodeRunes rs = concat (map encodeRune rs)"

lemma byte_char_of [simp]: "n < 256 \<Longrightarrow> byte (char_of n) = n"
  by (simp add: byte_def)

lemma decode2:
  "194 \<le> x \<Longrightarrow> x \<le> 223 \<Longrightarrow> 128 \<le> y \<Longrightarrow> y \<le> 191 \<Longrightarrow>
     decodeRune (char_of x # char_of y # s) = ((x - 192) * 64 + (y - 128), 2)"
  by (simp add: Let_def second_ok_def cont_byte_def)

lemma decode3:
  "224 \<le> x \<Longrightarrow> x \<le> 239 \<Longrightarrow> 128 \<le> y \<Longrightarrow> y \<le> 191 \<Longrightarrow> x = 224 \<longrightarrow> 160 \<le> y \<Longrightarrow> x = 237 \<longrightarrow> y \<le> 159 \<Longrightarrow>
     128 \<le> z \<Longrightarrow> z \<le> 191 \<Longrightarrow>
     decodeRune (char_of x # char_of y # char_of z # s) = ((x - 224) * 4096 + (y - 128) * 64 + (z - 128), 3)"
  by (simp add: Let_def second_ok_def cont_byte_def)

lemma decode4:
  "240 \<le> x \<Longrightarrow> x \<le> 244 \<Longrightarrow> 128 \<le> y \<Longrightarrow> y \<le> 191 \<Longrightarrow> x = 240 \<longrightarrow> 144 \<le> y \<Longrightarrow> x = 244 \<longrightarrow> y \<le> 143 \<Longrightarrow>
     128 \<le> z \<Longrightarrow> z \<le> 191 \<Longrightarrow> 128 \<le> w \<Longrightarrow> w \<le> 191 \<Longrightarrow>
     decodeRune (char_of x # char_of y # char_of z # char_of w # s)
       = ((x - 240) * 262144 + (y - 128) * 4096 + (z - 128) * 64 + (w - 128), 4)"
  by (simp add: Let_def second_ok_def cont_byte_def)

lemma decode_encodeRune:
  assumes "valid_rune r"
  shows "decodeRune (encodeRune r @ s) = (r, length (encodeRune r))"
proof -
  consider "r < 128" | "128 \<le> r" "r < 2048" | "2048 \<le> r" "r < 65536" | "65536 \<le> r"
    by linarith
  then show ?thesis
  proof cases
    case 1
    then show ?thesis by (simp add: encodeRune_def)
  next
    case 2
    then have "194 \<le> 192 + r div 64" "192 + r div 64 \<le> 223" "128 \<le> 128 + r mod 64" "128 + r mod 64 \<le> 191"
      by linarith+
    from decode2[OF this] show ?thesis using 2 by (simp add: encodeRune_def)
  next
    case 3
    let ?a = "r div 4096" and ?b = "r div 64 mod 64" and ?c = "r mod 64"
    have "?a = r div 64 div 64" by (simp add: div_mult2_eq[symmetric])
    then have b: "?a < 16" "?b < 64" "?c < 64" "r = ?a * 4096 + ?b * 64 + ?c"
      using 3 mult_div_mod_eq[of 64 r] mult_div_mod_eq[of 64 "r div 64"] by linarith+
    have "?a = 0 \<longrightarrow> 32 \<le> ?b" "?a = 13 \<longrightarrow> ?b \<le> 31"
      using b 3 assms unfolding valid_rune_def by linarith+
    then have "decodeRune (char_of (224 + ?a) # char_of (128 + ?b) # char_of (128 + ?c) # s)
        = ((224 + ?a - 224) * 4096 + (128 + ?b - 128) * 64 + (128 + ?c - 128), 3)"
      using b by (intro decode3) auto
    then show ?thesis
      using 3 b(4) assms by (simp add: encodeRune_def valid_rune_def)
  next
    case 4
    let ?a = "r div 262144" and ?b = "r div 4096 mod 64" and ?c = "r div 64 mod 64" and ?d = "r mod 64"
    have "?a = r div 4096 div 64" "r div 4096 = r div 64 div 64" by (simp_all add: div_mult2_eq[symmetric])
    then have "r = 64 * (r div 64) + ?d" "r div 64 = 64 * (r div 4096) + ?c" "r div 4096 = 64 * ?a + ?b"
      by simp_all
    then have b5: "r = ?a * 262144 + ?b * 4096 + ?c * 64 + ?d" by linarith
    have "?a \<le> 1114111 div 262144"
      using assms unfolding valid_rune_def by (intro div_le_mono) simp
    then have b: "?a \<le> 4" "?b < 64" "?c < 64" "?d < 64" by simp_all
    have "?a = 0 \<longrightarrow> 16 \<le> ?b" "?a = 4 \<longrightarrow> ?b \<le> 15"
      using b b5 4 assms unfolding valid_rune_def by linarith+
    then have "decodeRune (char_of (240 + ?a) # char_of (128 + ?b) # char_of (128 + ?c) # char_of (128 + ?d) # s)
        = ((240 + ?a - 240) * 262144 + (128 + ?b - 128) * 4096 + (128 + ?c - 128) * 64 + (128 + ?d - 128), 4)"
      using b by (intro decode4) auto
    then show ?thesis
      using 4 b5 assms by (simp add: encodeRune_def valid_rune_def)
  qed
qed

lemma encodeRune_ne [simp]: "encodeRune r \<noteq> []"
  by (simp add: encodeRune_def)

lemma runes_encodeRune_append:
  "valid_rune r \<Longrightarrow> runes (encodeRune r @ s) = r # runes s"
  using decode_encodeRune[of r s] decode_encodeRune[of r "[]"]
  by (simp add: runes_def segments.simps[of "encodeRune r @ s"] runeOf_def)

text \<open>Encoding a list of runes and ranging over the bytes gives the runes back.\<close>

lemma runes_encodeRunes: "list_all valid_rune rs \<Longrightarrow> runes (encodeRunes rs) = rs"
proof (induction rs)
  case Nil
  then show ?case by (simp add: encodeRunes_def runes_def)
next
  case (Cons r rs)
  then show ?case by (simp add: encodeRunes_def runes_encodeRune_append)
qed

subsection \<open>Unicode classes and case\<close>

text \<open>
  The tables of package unicode above ASCII are the record below; ASCII is written out.  The white
  space runes are those of unicode.IsSpace.
\<close>

record UnicodeTables =
  tab_toLower :: "rune \<Rightarrow> rune"
  tab_isLetter :: "rune \<Rightarrow> bool"
  tab_isDigit :: "rune \<Rightarrow> bool"
  tab_isUpper :: "rune \<Rightarrow> bool"
  tab_isLower :: "rune \<Rightarrow> bool"

definition asciiTables :: UnicodeTables where
  "asciiTables = \<lparr>tab_toLower = (\<lambda>r. r), tab_isLetter = (\<lambda>_. False), tab_isDigit = (\<lambda>_. False),
     tab_isUpper = (\<lambda>_. False), tab_isLower = (\<lambda>_. False)\<rparr>"

definition asciiUpper :: "rune \<Rightarrow> bool" where "asciiUpper r \<longleftrightarrow> 65 \<le> r \<and> r \<le> 90"
definition asciiLower :: "rune \<Rightarrow> bool" where "asciiLower r \<longleftrightarrow> 97 \<le> r \<and> r \<le> 122"
definition asciiDigit :: "rune \<Rightarrow> bool" where "asciiDigit r \<longleftrightarrow> 48 \<le> r \<and> r \<le> 57"

definition toLowerRune :: "UnicodeTables \<Rightarrow> rune \<Rightarrow> rune" where
  "toLowerRune u r = (if r < 128 then (if asciiUpper r then r + 32 else r) else tab_toLower u r)"

definition isLetter :: "UnicodeTables \<Rightarrow> rune \<Rightarrow> bool" where
  "isLetter u r \<longleftrightarrow> (if r < 128 then asciiUpper r \<or> asciiLower r else tab_isLetter u r)"

definition isDigit :: "UnicodeTables \<Rightarrow> rune \<Rightarrow> bool" where
  "isDigit u r \<longleftrightarrow> (if r < 128 then asciiDigit r else tab_isDigit u r)"

definition isUpper :: "UnicodeTables \<Rightarrow> rune \<Rightarrow> bool" where
  "isUpper u r \<longleftrightarrow> (if r < 128 then asciiUpper r else tab_isUpper u r)"

definition isLower :: "UnicodeTables \<Rightarrow> rune \<Rightarrow> bool" where
  "isLower u r \<longleftrightarrow> (if r < 128 then asciiLower r else tab_isLower u r)"

definition isSpace :: "rune \<Rightarrow> bool" where
  "isSpace r \<longleftrightarrow> (9 \<le> r \<and> r \<le> 13) \<or> r = 32 \<or> r = 133 \<or> r = 160 \<or> r = 5760 \<or> (8192 \<le> r \<and> r \<le> 8202)
     \<or> r = 8232 \<or> r = 8233 \<or> r = 8239 \<or> r = 8287 \<or> r = 12288"

definition trimSeg :: "(rune \<Rightarrow> bool) \<Rightarrow> string list \<Rightarrow> string list" where
  "trimSeg P = dropWhile (\<lambda>seg. P (runeOf seg))"

definition TrimFunc :: "(rune \<Rightarrow> bool) \<Rightarrow> string \<Rightarrow> string" where
  "TrimFunc P s = concat (rev (trimSeg P (rev (trimSeg P (segments s)))))"

definition TrimSpace :: "string \<Rightarrow> string" where
  "TrimSpace = TrimFunc isSpace"

definition ToLower :: "UnicodeTables \<Rightarrow> string \<Rightarrow> string" where
  "ToLower u s = encodeRunes (map (toLowerRune u) (runes s))"

lemma TrimSpace_Nil [simp]: "TrimSpace [] = []"
  by (simp add: TrimSpace_def TrimFunc_def trimSeg_def)

lemma ToLower_Nil [simp]: "ToLower u [] = []"
  by (simp add: ToLower_def runes_def encodeRunes_def)

definition hasPrefix :: "string \<Rightarrow> string \<Rightarrow> bool" where "hasPrefix s p \<longleftrightarrow> prefix p s"
definition hasSuffix :: "string \<Rightarrow> string \<Rightarrow> bool" where "hasSuffix s p \<longleftrightarrow> suffix p s"

text \<open>strings.Split on one byte, and strings.Join.\<close>

fun splitOn :: "char \<Rightarrow> string \<Rightarrow> string list" where
  "splitOn d [] = [[]]"
| "splitOn d (c # cs) = (if c = d then [] # splitOn d cs
     else (case splitOn d cs of w # ws \<Rightarrow> (c # w) # ws | [] \<Rightarrow> [[c]]))"

fun join :: "string \<Rightarrow> string list \<Rightarrow> string" where
  "join sep [] = []"
| "join sep [w] = w"
| "join sep (w # ws) = w @ sep @ join sep ws"

lemma splitOn_ne [simp]: "splitOn d s \<noteq> []"
  by (induction s) (auto split: list.splits)

lemma splitOn_no_sep: "w \<in> set (splitOn d s) \<Longrightarrow> d \<notin> set w"
  by (induction s arbitrary: w) (auto split: list.splits if_splits)

lemma join_splitOn: "join [d] (splitOn d s) = s"
proof (induction s)
  case (Cons c s)
  then show ?case by (cases "splitOn d s"; cases "tl (splitOn d s)") auto
qed simp

lemma splitOn_append: "d \<notin> set w \<Longrightarrow> splitOn d (w @ d # s) = w # splitOn d s"
  by (induction w) auto

lemma splitOn_single: "d \<notin> set w \<Longrightarrow> splitOn d w = [w]"
  by (induction w) auto

lemma splitOn_join:
  "ws \<noteq> [] \<Longrightarrow> \<forall>w\<in>set ws. d \<notin> set w \<Longrightarrow> splitOn d (join [d] ws) = ws"
proof (induction "[d]" ws rule: join.induct)
  case (3 w v vs)
  then show ?case by (simp add: splitOn_append)
qed (auto simp: splitOn_single)

text \<open>strconv.Itoa of a positive number.\<close>

function Itoa :: "nat \<Rightarrow> string" where
  "Itoa n = (if n < 10 then [char_of (48 + n)] else Itoa (n div 10) @ [char_of (48 + n mod 10)])"
  by auto
termination by (relation "measure id") auto

declare Itoa.simps [simp del]

subsection \<open>Slash-separated paths\<close>

abbreviation slash :: char where "slash \<equiv> CHR ''/''"

definition isAbs :: "string \<Rightarrow> bool" where
  "isAbs p \<longleftrightarrow> (case p of c # _ \<Rightarrow> c = slash | [] \<Rightarrow> False)"

text \<open>path.Clean on the elements of the path: the stack holds the kept elements, last first.\<close>

fun cleanElems :: "bool \<Rightarrow> string list \<Rightarrow> string list \<Rightarrow> string list" where
  "cleanElems rooted stack [] = rev stack"
| "cleanElems rooted stack (e # es) =
    (if e = '''' \<or> e = ''.'' then cleanElems rooted stack es
     else if e = ''..'' then
       (if stack \<noteq> [] \<and> hd stack \<noteq> ''..'' then cleanElems rooted (tl stack) es
        else if rooted then cleanElems rooted stack es
        else cleanElems rooted (''..'' # stack) es)
     else cleanElems rooted (e # stack) es)"

definition Clean :: "string \<Rightarrow> string" where
  "Clean p =
    (let es = cleanElems (isAbs p) [] (splitOn slash p) in
     if isAbs p then slash # join [slash] es
     else if es = [] then ''.'' else join [slash] es)"

definition lastElem :: "string \<Rightarrow> string" where
  "lastElem p = last (splitOn slash p)"

text \<open>filepath.Ext: the suffix from the final dot of the final element.\<close>

definition Ext :: "string \<Rightarrow> string" where
  "Ext p = (let parts = splitOn (CHR ''.'') (lastElem p)
            in if length parts < 2 then [] else CHR ''.'' # last parts)"

text \<open>Elements of a cleaned path: parents only at the front of a relative path, none elsewhere.\<close>

definition normal_elem :: "string \<Rightarrow> bool" where
  "normal_elem e \<longleftrightarrow> e \<noteq> '''' \<and> e \<noteq> ''.'' \<and> e \<noteq> ''..'' \<and> slash \<notin> set e"

definition clean_elems :: "bool \<Rightarrow> string list \<Rightarrow> bool" where
  "clean_elems rooted es \<longleftrightarrow> (\<exists>n ns. es = replicate n ''..'' @ ns \<and> list_all normal_elem ns \<and> (rooted \<longrightarrow> n = 0))"

lemma cleanElems_shape:
  assumes "\<forall>e\<in>set es. slash \<notin> set e" "clean_elems rooted (rev stack)"
  shows "clean_elems rooted (cleanElems rooted stack es)"
  using assms
proof (induction rooted stack es rule: cleanElems.induct)
  case (1 rooted stack)
  then show ?case by simp
next
  case (2 rooted stack e es)
  from 2(7) obtain n ns where st: "rev stack = replicate n ''..'' @ ns" "list_all normal_elem ns" "rooted \<longrightarrow> n = 0"
    by (auto simp: clean_elems_def)
  consider (skip) "e = '''' \<or> e = ''.''" | (up) "e = ''..''" | (down) "normal_elem e"
    using 2(6) by (auto simp: normal_elem_def)
  then show ?case
  proof cases
    case skip
    then show ?thesis using 2 by auto
  next
    case up
    show ?thesis
    proof (cases "stack \<noteq> [] \<and> hd stack \<noteq> ''..''")
      case True
      have "ns \<noteq> []"
      proof
        assume "ns = []"
        then have "stack = replicate n ''..''" using st(1) by (metis append_Nil2 rev_replicate rev_swap)
        then show False using True by (cases n) auto
      qed
      then have "rev (tl stack) = replicate n ''..'' @ butlast ns"
        using st(1) by (metis butlast_append butlast_rev rev_rev_ident)
      moreover have "list_all normal_elem (butlast ns)"
        using st(2) by (auto simp: list_all_iff dest: in_set_butlastD)
      ultimately have "clean_elems rooted (rev (tl stack))"
        using st(3) unfolding clean_elems_def by blast
      then show ?thesis using 2 up True by auto
    next
      case False
      show ?thesis
      proof (cases rooted)
        case True
        then show ?thesis using 2 up False by auto
      next
        case nr: False
        have "ns = []"
        proof (rule ccontr)
          assume "ns \<noteq> []"
          then have "hd stack = last ns" "stack \<noteq> []" using st(1) by (metis hd_rev last_appendR rev_rev_ident, auto)
          then show False using False st(2) \<open>ns \<noteq> []\<close> by (auto simp: list_all_iff normal_elem_def)
        qed
        then have "rev (''..'' # stack) = replicate (Suc n) ''..'' @ []"
          using st(1) by (simp add: replicate_append_same)
        then have "clean_elems rooted (rev (''..'' # stack))"
          unfolding clean_elems_def using nr by (intro exI[of _ "Suc n"] exI[of _ "[]"]) simp
        then show ?thesis using 2 up False nr by auto
      qed
    qed
  next
    case down
    then have "clean_elems rooted (rev (e # stack))"
      using st unfolding clean_elems_def by (auto intro!: exI[of _ n])
    then show ?thesis using 2 down by (auto simp: normal_elem_def)
  qed
qed

lemma cleanElems_normal:
  "list_all normal_elem ns \<Longrightarrow> cleanElems r stack ns = rev stack @ ns"
  by (induction ns arbitrary: stack) (auto simp: normal_elem_def)

lemma cleanElems_parents:
  "cleanElems False (replicate k ''..'') (replicate n ''..'' @ es) = cleanElems False (replicate (n + k) ''..'') es"
proof (induction n arbitrary: k)
  case (Suc n)
  then show ?case using Suc[of "Suc k"] by (cases k) auto
qed simp

lemma cleanElems_id:
  assumes "clean_elems r es" shows "cleanElems r [] es = es"
proof -
  from assms obtain n ns where e: "es = replicate n ''..'' @ ns" "list_all normal_elem ns" "r \<longrightarrow> n = 0"
    by (auto simp: clean_elems_def)
  show ?thesis
  proof (cases r)
    case True
    then show ?thesis using e cleanElems_normal by simp
  next
    case False
    then show ?thesis using cleanElems_parents[of 0 n ns] e(1,2) by (simp add: cleanElems_normal)
  qed
qed

lemma clean_elems_no_slash: "clean_elems r es \<Longrightarrow> e \<in> set es \<Longrightarrow> slash \<notin> set e \<and> e \<noteq> ''''"
proof -
  assume c: "clean_elems r es" and e: "e \<in> set es"
  then obtain n ns where es: "es = replicate n ''..'' @ ns" "list_all normal_elem ns"
    unfolding clean_elems_def by blast
  have "e = ''..'' \<or> normal_elem e" using es e by (auto simp: list_all_iff split: if_splits)
  then show "slash \<notin> set e \<and> e \<noteq> ''''" unfolding normal_elem_def by auto
qed

lemma join_Cons: "\<exists>rest. join sep (w # ws) = w @ rest"
  by (cases ws) auto

lemma isAbs_join:
  assumes "clean_elems r es" "es \<noteq> []" shows "\<not> isAbs (join [slash] es)"
proof -
  obtain e es' where es: "es = e # es'" using assms(2) by (cases es) auto
  have "slash \<notin> set e \<and> e \<noteq> ''''" using clean_elems_no_slash[OF assms(1)] es by simp
  then obtain c cs where e: "e = c # cs" "c \<noteq> slash" by (cases e) auto
  obtain rest where "join [slash] es = e @ rest" using join_Cons es by blast
  then show ?thesis using e by (simp add: isAbs_def)
qed

lemma cleanElems_Clean: "clean_elems (isAbs p) (cleanElems (isAbs p) [] (splitOn slash p))"
proof (rule cleanElems_shape)
  show "clean_elems (isAbs p) (rev [])"
    unfolding clean_elems_def by (intro exI[of _ 0] exI[of _ "[]"]) simp
qed (use splitOn_no_sep in blast)

lemma isAbs_Clean [simp]: "isAbs (Clean p) = isAbs p"
proof (cases "isAbs p")
  case True
  then show ?thesis by (simp add: Clean_def isAbs_def)
next
  case False
  then show ?thesis
    using cleanElems_Clean[of p] isAbs_join[of False "cleanElems False [] (splitOn slash p)"]
    by (cases "cleanElems False [] (splitOn slash p) = []") (simp_all add: Clean_def Let_def isAbs_def)
qed

text \<open>path.Clean is idempotent, and its elements are in normal form.\<close>

lemma Clean_elems:
  "\<exists>es. clean_elems (isAbs p) es \<and> Clean p = (if isAbs p then slash # join [slash] es
      else if es = [] then ''.'' else join [slash] es)"
  using cleanElems_Clean[of p] unfolding Clean_def Let_def by blast

lemma Clean_idem: "Clean (Clean p) = Clean p"
proof -
  define es where "es = cleanElems (isAbs p) [] (splitOn slash p)"
  have c: "clean_elems (isAbs p) es" unfolding es_def by (rule cleanElems_Clean)
  have Cp: "Clean p = (if isAbs p then slash # join [slash] es else if es = [] then ''.'' else join [slash] es)"
    by (simp add: Clean_def es_def Let_def)
  have sp: "splitOn slash (join [slash] es) = es" if "es \<noteq> []"
    using that clean_elems_no_slash[OF c] by (intro splitOn_join) auto
  have ce: "cleanElems (isAbs p) [] (splitOn slash (Clean p)) = es"
    using cleanElems_id[OF c] sp Cp by (cases "es = []"; cases "isAbs p") auto
  have "Clean (Clean p) = (let es = cleanElems (isAbs p) [] (splitOn slash (Clean p)) in
     if isAbs p then slash # join [slash] es else if es = [] then ''.'' else join [slash] es)"
    unfolding Clean_def[of "Clean p"] isAbs_Clean ..
  also have "\<dots> = Clean p" unfolding ce Let_def by (rule Cp[symmetric])
  finally show ?thesis .
qed

end
