(* ===== verification/Indexer.thy ===== *)
theory Indexer
  imports GoStrings Prelude
begin

text \<open>
  The workspace indexer (indexer/lifecycle.go and queue.go): a manager of one worker per workspace
  whose file events are coalesced and published in batches by timers, retried with back-off after a
  failure, and drained on stop.  Every step that holds the manager's mutex is one function; a
  publication is two steps, since the publisher runs without the mutex.  A timer is the delay it
  was started with; durations are integers and do not overflow.  Acquiring and releasing the lock
  file is a parameter.
\<close>

subsection \<open>Paths of events\<close>

definition elems :: "string \<Rightarrow> string list" where
  "elems p = filter (\<lambda>e. e \<noteq> '''') (splitOn slash p)"

text \<open>filepath.Rel on two clean absolute paths.\<close>

fun relElems :: "string list \<Rightarrow> string list \<Rightarrow> string list" where
  "relElems (b # bs) (t # ts) = (if b = t then relElems bs ts else replicate (length (b # bs)) ''..'' @ t # ts)"
| "relElems bs ts = replicate (length bs) ''..'' @ ts"

definition Rel :: "string \<Rightarrow> string \<Rightarrow> string" where
  "Rel base target = (if base = target then ''.'' else join ''/'' (relElems (elems base) (elems target)))"

definition isParentPath :: "string \<Rightarrow> bool" where
  "isParentPath p \<longleftrightarrow> length p > 3 \<and> take 3 p = ''../''"

datatype EventError = EventPathRequired | EventOutsideWorkspace | IndexerNotRunning | AcquireFailed string | CloseFailed string

definition normalizeEventPath :: "string \<Rightarrow> string \<Rightarrow> EventError + string" where
  "normalizeEventPath workspace p =
    (if p = '''' then Inl EventPathRequired
     else let absolute = Clean (if \<not> isAbs p then Clean (workspace @ ''/'' @ p) else p);
              relative = Rel workspace absolute
       in if relative = ''.'' \<or> relative = ''..'' \<or> isAbs relative \<or> isParentPath relative then Inl EventOutsideWorkspace
          else Inr relative)"

definition uniquePaths :: "string list \<Rightarrow> string list" where
  "uniquePaths paths = dedup paths"

subsection \<open>State\<close>

record Status =
  st_Workspace :: string
  st_Running :: bool
  st_Activity :: int
  st_QueuedPaths :: "string list"
  st_Error :: string
  st_IdleDeadline :: int

record Worker =
  w_status :: Status
  w_pending :: "string list"
  w_pendingSet :: "string set"
  w_timer :: "int option"
  w_publishing :: bool
  w_stopping :: bool
  w_retryDelay :: int
  w_reconcileTimer :: "int option"

record Manager =
  m_workers :: "string \<rightharpoonup> Worker"
  m_throttle :: int
  m_idle :: int
  m_retryBase :: int
  m_retryMax :: int
  m_hasReconciler :: bool
  m_reconcile :: int

text \<open>Durations in nanoseconds.\<close>

definition second :: int where "second = 1000000000"

datatype ManagerOption = WithPublishThrottle int | WithIdleTimeout int | WithRetryBackoff int int
  | WithReconciler bool | WithReconciliationInterval int

fun applyOption :: "ManagerOption \<Rightarrow> Manager \<Rightarrow> Manager" where
  "applyOption (WithPublishThrottle throttle) m = (if throttle > 0 then m\<lparr>m_throttle := throttle\<rparr> else m)"
| "applyOption (WithIdleTimeout timeout) m = (if timeout > 0 then m\<lparr>m_idle := timeout\<rparr> else m)"
| "applyOption (WithRetryBackoff base maximum) m =
    (let m1 = (if base > 0 then m\<lparr>m_retryBase := base\<rparr> else m)
     in if maximum \<ge> m_retryBase m1 then m1\<lparr>m_retryMax := maximum\<rparr> else m1)"
| "applyOption (WithReconciler present) m = m\<lparr>m_hasReconciler := present\<rparr>"
| "applyOption (WithReconciliationInterval interval) m = (if interval > 0 then m\<lparr>m_reconcile := interval\<rparr> else m)"

definition NewManager :: "ManagerOption list \<Rightarrow> Manager" where
  "NewManager options = fold applyOption options
     \<lparr>m_workers = Map.empty, m_throttle = 250000000, m_idle = 300 * second, m_retryBase = second, m_retryMax = 60 * second,
      m_hasReconciler = False, m_reconcile = 300 * second\<rparr>"

definition setWorker :: "string \<Rightarrow> Worker \<Rightarrow> Manager \<Rightarrow> Manager" where
  "setWorker ws w m = m\<lparr>m_workers := (m_workers m)(ws \<mapsto> w)\<rparr>"

subsection \<open>Lifecycle\<close>

text \<open>The workspace argument is the absolute path the code computes from its root first.\<close>

definition touched :: "Manager \<Rightarrow> int \<Rightarrow> Worker \<Rightarrow> Worker" where
  "touched m now w = w\<lparr>w_status := (w_status w)\<lparr>st_Activity := now, st_IdleDeadline := now + m_idle m\<rparr>\<rparr>"

definition Start :: "EventError error \<Rightarrow> int \<Rightarrow> string \<Rightarrow> Manager \<Rightarrow> EventError + Status \<times> Manager" where
  "Start acquire now ws m =
    (case m_workers m ws of
       Some existing \<Rightarrow> (let w = touched m now existing in Inr (w_status w, setWorker ws w m))
     | None \<Rightarrow> (case acquire of
           Some e \<Rightarrow> Inl e
         | None \<Rightarrow>
             let status = \<lparr>st_Workspace = ws, st_Running = True, st_Activity = now, st_QueuedPaths = [], st_Error = '''',
                   st_IdleDeadline = now + m_idle m\<rparr>;
                 w = \<lparr>w_status = status, w_pending = [], w_pendingSet = {}, w_timer = None, w_publishing = False, w_stopping = False,
                   w_retryDelay = 0, w_reconcileTimer = (if m_hasReconciler m then Some (m_reconcile m) else None)\<rparr>
             in Inr (status, setWorker ws w m)))"

definition statusOf :: "string \<Rightarrow> Manager \<Rightarrow> Status \<times> bool" where
  "statusOf ws m = (case m_workers m ws of
     None \<Rightarrow> (\<lparr>st_Workspace = ws, st_Running = False, st_Activity = 0, st_QueuedPaths = [], st_Error = '''', st_IdleDeadline = 0\<rparr>, False)
   | Some w \<Rightarrow> (w_status w, True))"

definition Touch :: "int \<Rightarrow> string \<Rightarrow> Manager \<Rightarrow> (Status \<times> bool) \<times> Manager" where
  "Touch now ws m = (case m_workers m ws of
     None \<Rightarrow> (statusOf ws m, m)
   | Some w \<Rightarrow> ((w_status (touched m now w), True), setWorker ws (touched m now w) m))"

text \<open>One turn of the loop of Stop: it waits when a publication is running.\<close>

datatype StopTurn = Stopped | Waits | StopFails EventError

definition stopTurn :: "EventError error \<Rightarrow> string \<Rightarrow> Manager \<Rightarrow> StopTurn \<times> Manager" where
  "stopTurn close ws m =
    (case m_workers m ws of
       None \<Rightarrow> (Stopped, m)
     | Some worker \<Rightarrow>
         let w = worker\<lparr>w_stopping := True, w_timer := None, w_reconcileTimer := None\<rparr> in
         if w_publishing w then (Waits, setWorker ws w m)
         else (case close of
             Some e \<Rightarrow> (StopFails e, setWorker ws (w\<lparr>w_stopping := False\<rparr>) m)
           | None \<Rightarrow> (Stopped, m\<lparr>m_workers := (m_workers m)(ws := None)\<rparr>)))"

subsection \<open>Queue and publication\<close>

definition addPending :: "string \<Rightarrow> Worker \<Rightarrow> Worker" where
  "addPending p w = (if p \<in> w_pendingSet w then w
     else w\<lparr>w_pendingSet := insert p (w_pendingSet w), w_pending := w_pending w @ [p]\<rparr>)"

text \<open>An event whose path is refused ends the loop: the events before it stay queued.\<close>

fun enqueueEvents :: "string \<Rightarrow> string list \<Rightarrow> Worker \<Rightarrow> EventError error \<times> Worker" where
  "enqueueEvents ws [] w = (None, w)"
| "enqueueEvents ws (event # events) w =
    (case normalizeEventPath ws event of
       Inl e \<Rightarrow> (Some e, w)
     | Inr p \<Rightarrow> enqueueEvents ws events (addPending p w))"

definition scheduleAfter :: "int \<Rightarrow> Worker \<Rightarrow> Worker" where
  "scheduleAfter delay w = w\<lparr>w_timer := Some delay\<rparr>"

definition setQueued :: "Worker \<Rightarrow> Worker" where
  "setQueued w = w\<lparr>w_status := (w_status w)\<lparr>st_QueuedPaths := w_pending w\<rparr>\<rparr>"

definition Enqueue :: "string \<Rightarrow> string list \<Rightarrow> Manager \<Rightarrow> EventError error \<times> Manager" where
  "Enqueue ws events m =
    (case m_workers m ws of
       None \<Rightarrow> (Some IndexerNotRunning, m)
     | Some worker \<Rightarrow>
         if w_stopping worker then (Some IndexerNotRunning, m)
         else (case enqueueEvents ws events worker of
             (Some e, w) \<Rightarrow> (Some e, setWorker ws w m)
           | (None, w) \<Rightarrow>
               let w1 = setQueued w;
                   w2 = (if w_pending w1 \<noteq> [] \<and> \<not> w_publishing w1 \<and> w_timer w1 = None then scheduleAfter (m_throttle m) w1 else w1)
               in (None, setWorker ws w2 m)))"

text \<open>The first half of publish, up to the call of the publisher: the paths of the batch.\<close>

definition publishBegin :: "string \<Rightarrow> Manager \<Rightarrow> (string list \<times> Manager) option" where
  "publishBegin ws m =
    (case m_workers m ws of
       None \<Rightarrow> None
     | Some w \<Rightarrow>
         if w_stopping w \<or> w_publishing w \<or> w_pending w = [] then None
         else Some (w_pending w, setWorker ws (w\<lparr>w_pending := [], w_pendingSet := {},
             w_status := (w_status w)\<lparr>st_QueuedPaths := []\<rparr>, w_timer := None, w_publishing := True\<rparr>) m))"

definition nextRetryDelay :: "Manager \<Rightarrow> int \<Rightarrow> int" where
  "nextRetryDelay m retryDelay = (if retryDelay = 0 then m_retryBase m
     else if retryDelay * 2 > m_retryMax m then m_retryMax m else retryDelay * 2)"

text \<open>The second half: the publisher returned nil or an error (a panic is an error too).\<close>

definition publishEnd :: "string \<Rightarrow> string list \<Rightarrow> string option \<Rightarrow> Manager \<Rightarrow> Manager" where
  "publishEnd ws paths err m =
    (case m_workers m ws of
       None \<Rightarrow> m
     | Some worker \<Rightarrow>
         let w0 = worker\<lparr>w_publishing := False\<rparr>;
             w1 = (case err of
               Some text \<Rightarrow> let pending = uniquePaths (paths @ w_pending w0) in
                   setQueued (w0\<lparr>w_status := (w_status w0)\<lparr>st_Error := text\<rparr>, w_pending := pending, w_pendingSet := set pending,
                     w_retryDelay := nextRetryDelay m (w_retryDelay w0)\<rparr>)
             | None \<Rightarrow> w0\<lparr>w_status := (w_status w0)\<lparr>st_Error := ''''\<rparr>, w_retryDelay := 0\<rparr>);
             w2 = (if w_pending w1 \<noteq> [] \<and> \<not> w_stopping w1 \<and> w_timer w1 = None
               then scheduleAfter (if err = None then m_throttle m else w_retryDelay w1) w1 else w1)
         in setWorker ws w2 m)"

text \<open>Reconciliation: the timer fires, the reconciler runs without the mutex, then its events are queued.\<close>

definition reconcileBegin :: "string \<Rightarrow> Manager \<Rightarrow> Manager option" where
  "reconcileBegin ws m =
    (case m_workers m ws of
       None \<Rightarrow> None
     | Some w \<Rightarrow> if w_stopping w \<or> \<not> m_hasReconciler m then None else Some (setWorker ws (w\<lparr>w_reconcileTimer := None\<rparr>) m))"

definition reconcileEnd :: "string \<Rightarrow> string + string list \<Rightarrow> Manager \<Rightarrow> Manager" where
  "reconcileEnd ws result m =
    (let (err, m1) = (case result of
           Inl text \<Rightarrow> (Some text, m)
         | Inr events \<Rightarrow> if events = [] then (None, m)
             else (case Enqueue ws events m of (None, m') \<Rightarrow> (None, m') | (Some e, m') \<Rightarrow> (Some ''enqueue workspace events'', m')))
     in case m_workers m1 ws of
          None \<Rightarrow> m1
        | Some w \<Rightarrow> if w_stopping w then m1
            else let w1 = (case err of Some text \<Rightarrow> w\<lparr>w_status := (w_status w)\<lparr>st_Error := ''reconcile workspace: '' @ text\<rparr>\<rparr> | None \<Rightarrow> w)
              in setWorker ws (w1\<lparr>w_reconcileTimer := Some (m_reconcile m1)\<rparr>) m1)"

subsection \<open>Event paths stay inside the workspace\<close>

lemma elems_rooted:
  assumes "list_all normal_elem es"
  shows "elems (slash # join [slash] es) = es"
proof (cases "es = []")
  case True
  then show ?thesis by (simp add: elems_def)
next
  case False
  have "\<forall>e\<in>set es. slash \<notin> set e" using assms by (auto simp: list_all_iff normal_elem_def)
  then have "splitOn slash (join [slash] es) = es" using False by (intro splitOn_join) auto
  moreover have "filter (\<lambda>e. e \<noteq> '''') es = es" using assms by (auto simp: list_all_iff normal_elem_def filter_id_conv)
  ultimately show ?thesis by (simp add: elems_def)
qed

lemma Clean_rooted:
  assumes "isAbs p"
  obtains es where "list_all normal_elem es" "Clean p = slash # join [slash] es" "elems (Clean p) = es"
proof -
  obtain es where es: "clean_elems True es" "Clean p = slash # join [slash] es" using Clean_elems[of p] assms by auto
  then have "list_all normal_elem es" by (auto simp: clean_elems_def)
  with es(2) elems_rooted show ?thesis by (intro that[of es]) auto
qed

lemma relElems_cases:
  "(\<exists>ts. es = bs @ ts \<and> relElems bs es = ts) \<or> (\<exists>k ts. relElems bs es = replicate (Suc k) ''..'' @ ts \<and> set ts \<subseteq> set es \<and> \<not> prefix bs es)"
proof (induction bs es rule: relElems.induct[case_names both target base])
  case (both b bs t ts)
  show ?case
  proof (cases "b = t")
    case True
    then show ?thesis using both[OF True] by auto
  next
    case False
    then have "relElems (b # bs) (t # ts) = replicate (Suc (length bs)) ''..'' @ t # ts" by simp
    moreover have "\<not> prefix (b # bs) (t # ts)" using False by simp
    ultimately show ?thesis by (metis order_refl)
  qed
next
  case (base bs)
  show ?case
  proof (cases bs)
    case (Cons b bs')
    then have "relElems bs [] = replicate (Suc (length bs')) ''..'' @ []" "\<not> prefix bs []" by simp_all
    then show ?thesis by (metis empty_subsetI list.set(1))
  qed simp
qed auto

lemma parent_rejected:
  assumes "\<forall>e\<in>set ts. e \<noteq> ''''"
  shows "join ''/'' (replicate (Suc k) ''..'' @ ts) = ''..'' \<or> isParentPath (join ''/'' (replicate (Suc k) ''..'' @ ts))"
proof -
  have ne: "join ''/'' (w # ws) \<noteq> []" if "w \<noteq> ''''" for w ws
    using that by (cases ws) simp_all
  show ?thesis
  proof (cases "replicate k ''..'' @ ts")
    case Nil
    then show ?thesis by simp
  next
    case (Cons w ws)
    then have "w \<in> set (replicate k ''..'' @ ts)" by simp
    then have "w \<noteq> ''''" using assms by (auto split: if_splits)
    from ne[OF this, of ws] Cons show ?thesis by (simp add: isParentPath_def)
  qed
qed

lemma inside_accepted:
  assumes "list_all normal_elem ts" "ts \<noteq> []"
  shows "join ''/'' ts \<noteq> ''.'' \<and> join ''/'' ts \<noteq> ''..'' \<and> \<not> isAbs (join ''/'' ts) \<and> \<not> isParentPath (join ''/'' ts)"
proof -
  have split: "splitOn slash (join [slash] ts) = ts"
    using assms by (intro splitOn_join) (auto simp: list_all_iff normal_elem_def)
  have hd: "hd (splitOn slash s) = ''..''" if "take 3 s = ''../''" for s
  proof -
    have "s = ''../'' @ drop 3 s" using append_take_drop_id[of 3 s] that by simp
    then have "s = ''..'' @ slash # drop 3 s" by simp
    then have "splitOn slash s = ''..'' # splitOn slash (drop 3 s)" using splitOn_append[of slash "''..''" "drop 3 s"] by simp
    then show ?thesis by simp
  qed
  have h: "normal_elem (hd ts)" using assms by (cases ts) auto
  have 1: "join [slash] ts \<noteq> ''.''" "join [slash] ts \<noteq> ''..''"
    using split h by (auto simp: normal_elem_def)
  have "\<not> isParentPath (join [slash] ts)"
    using hd[of "join [slash] ts"] split h by (auto simp: isParentPath_def normal_elem_def)
  moreover have "clean_elems False ts"
    unfolding clean_elems_def using assms(1) by (intro exI[of _ 0] exI[of _ ts]) simp
  from isAbs_join[OF this assms(2)] have "\<not> isAbs (join [slash] ts)" .
  ultimately show ?thesis using 1 by simp
qed

text \<open>The path of a file event is accepted exactly when it denotes something strictly inside the
  workspace, and is then the clean relative path below the workspace: without empty, current or
  parent elements.\<close>

theorem event_path_exact:
  assumes "isAbs ws" "Clean ws = ws" "p \<noteq> ''''"
  shows "let target = Clean (if isAbs p then p else ws @ ''/'' @ p) in
    (case normalizeEventPath ws p of
       Inr r \<Rightarrow> \<exists>es. es \<noteq> [] \<and> list_all normal_elem es \<and> elems target = elems ws @ es \<and> r = join ''/'' es
     | Inl e \<Rightarrow> e = EventOutsideWorkspace \<and> (\<forall>es. es \<noteq> [] \<longrightarrow> elems target \<noteq> elems ws @ es))"
proof -
  define target where "target = Clean (if isAbs p then p else ws @ ''/'' @ p)"
  have abs: "isAbs (if isAbs p then p else ws @ ''/'' @ p)" using assms(1) by (auto simp: isAbs_def split: list.splits)
  obtain es where es: "list_all normal_elem es" "target = slash # join [slash] es" "elems target = es"
    using Clean_rooted[OF abs] unfolding target_def by blast
  obtain bs where bs: "list_all normal_elem bs" "ws = slash # join [slash] bs" "elems ws = bs"
    using Clean_rooted[OF assms(1)] assms(2) by metis
  have same: "ws = target \<longleftrightarrow> bs = es" using es(2,3) bs(2,3) by auto
  have n: "normalizeEventPath ws p = (let r = Rel ws target in
      if r = ''.'' \<or> r = ''..'' \<or> isAbs r \<or> isParentPath r then Inl EventOutsideWorkspace else Inr r)"
    using assms(3) by (simp add: normalizeEventPath_def target_def Clean_idem Let_def)
  have "case normalizeEventPath ws p of
       Inr r \<Rightarrow> \<exists>ts. ts \<noteq> [] \<and> list_all normal_elem ts \<and> es = bs @ ts \<and> r = join ''/'' ts
     | Inl e \<Rightarrow> e = EventOutsideWorkspace \<and> (\<forall>ts. ts \<noteq> [] \<longrightarrow> es \<noteq> bs @ ts)"
  proof (cases "bs = es")
    case True
    then have "Rel ws target = ''.''" using same by (simp add: Rel_def)
    then show ?thesis using True by (simp add: n)
  next
    case False
    then have r: "Rel ws target = join ''/'' (relElems bs es)" using same by (simp add: Rel_def es(3) bs(3))
    from relElems_cases[of es bs] show ?thesis
    proof
      assume "\<exists>ts. es = bs @ ts \<and> relElems bs es = ts"
      then obtain ts where ts: "es = bs @ ts" "relElems bs es = ts" by blast
      then have "ts \<noteq> []" "list_all normal_elem ts" using False es(1) by auto
      from inside_accepted[OF this(2,1)] this ts r show ?thesis by (simp add: n Let_def)
    next
      assume "\<exists>k ts. relElems bs es = replicate (Suc k) ''..'' @ ts \<and> set ts \<subseteq> set es \<and> \<not> prefix bs es"
      then obtain k ts where ts: "relElems bs es = replicate (Suc k) ''..'' @ ts" "set ts \<subseteq> set es" "\<not> prefix bs es" by blast
      then have "\<forall>e\<in>set ts. e \<noteq> ''''" using es(1) by (auto simp: list_all_iff normal_elem_def)
      from parent_rejected[OF this, of k] ts r show ?thesis by (auto simp: n Let_def)
    qed
  qed
  then show ?thesis unfolding Let_def target_def[symmetric] es(3) bs(3) by (auto split: sum.splits)
qed

theorem event_path_exact_witness:
  "normalizeEventPath ''/work'' ''a/./b/../c.go'' = Inr ''a/c.go'' \<and> normalizeEventPath ''/work'' ''../other'' = Inl EventOutsideWorkspace
   \<and> (\<exists>es. es \<noteq> [] \<and> list_all normal_elem es \<and> ''a/c.go'' = join ''/'' es)"
proof -
  have 1: "normalizeEventPath ''/work'' ''a/./b/../c.go'' = Inr ''a/c.go''" by code_simp
  have 2: "normalizeEventPath ''/work'' ''../other'' = Inl EventOutsideWorkspace" by code_simp
  have "isAbs ''/work''" "Clean ''/work'' = ''/work''" by code_simp+
  from event_path_exact[OF this, of "''a/./b/../c.go''"] 1 2 show ?thesis by (auto simp: Let_def)
qed

subsection \<open>The system and its steps\<close>

text \<open>
  The manager with the publications in flight, and four observations of a workspace since its worker
  was started: the paths an Enqueue call accepted, the paths of batches the publisher accepted, the
  queue of the worker that Stop deleted, and whether a call failed half-way (a batch of events or a
  reconciliation with a refused event, or a Stop that could not release the lock).
\<close>

record System =
  sys_manager :: Manager
  sys_inflight :: "string \<Rightarrow> string list"
  sys_accepted :: "string \<Rightarrow> string set"
  sys_published :: "string \<Rightarrow> string set"
  sys_discarded :: "string \<Rightarrow> string set"
  sys_failed :: "string \<Rightarrow> bool"

definition eventPaths :: "string \<Rightarrow> string list \<Rightarrow> string set" where
  "eventPaths ws events = {p. \<exists>e\<in>set events. normalizeEventPath ws e = Inr p}"

definition initialSystem :: "ManagerOption list \<Rightarrow> System" where
  "initialSystem options = \<lparr>sys_manager = NewManager options, sys_inflight = (\<lambda>_. []), sys_accepted = (\<lambda>_. {}),
     sys_published = (\<lambda>_. {}), sys_discarded = (\<lambda>_. {}), sys_failed = (\<lambda>_. False)\<rparr>"

inductive indexer_step :: "System \<Rightarrow> System \<Rightarrow> bool" where
  start_new: "\<lbrakk>m_workers (sys_manager s) ws = None; Start None now ws (sys_manager s) = Inr (status, m)\<rbrakk> \<Longrightarrow>
    indexer_step s (s\<lparr>sys_manager := m, sys_accepted := (sys_accepted s)(ws := {}), sys_published := (sys_published s)(ws := {}),
      sys_discarded := (sys_discarded s)(ws := {}), sys_failed := (sys_failed s)(ws := False)\<rparr>)"
| start_again: "\<lbrakk>m_workers (sys_manager s) ws = Some w; Start e now ws (sys_manager s) = Inr (status, m)\<rbrakk> \<Longrightarrow>
    indexer_step s (s\<lparr>sys_manager := m\<rparr>)"
| touch: "indexer_step s (s\<lparr>sys_manager := snd (Touch now ws (sys_manager s))\<rparr>)"
| enqueue: "Enqueue ws events (sys_manager s) = (None, m) \<Longrightarrow>
    indexer_step s (s\<lparr>sys_manager := m, sys_accepted := (sys_accepted s)(ws := sys_accepted s ws \<union> eventPaths ws events)\<rparr>)"
| enqueue_refused: "Enqueue ws events (sys_manager s) = (Some e, m) \<Longrightarrow>
    indexer_step s (s\<lparr>sys_manager := m, sys_failed := (sys_failed s)(ws := True)\<rparr>)"
| publish_begin: "publishBegin ws (sys_manager s) = Some (paths, m) \<Longrightarrow>
    indexer_step s (s\<lparr>sys_manager := m, sys_inflight := (sys_inflight s)(ws := paths)\<rparr>)"
| publish_ok: "sys_inflight s ws \<noteq> [] \<Longrightarrow>
    indexer_step s (s\<lparr>sys_manager := publishEnd ws (sys_inflight s ws) None (sys_manager s), sys_inflight := (sys_inflight s)(ws := []),
      sys_published := (sys_published s)(ws := sys_published s ws \<union> set (sys_inflight s ws))\<rparr>)"
| publish_failed: "sys_inflight s ws \<noteq> [] \<Longrightarrow>
    indexer_step s (s\<lparr>sys_manager := publishEnd ws (sys_inflight s ws) (Some text) (sys_manager s), sys_inflight := (sys_inflight s)(ws := [])\<rparr>)"
| reconcile_begin: "reconcileBegin ws (sys_manager s) = Some m \<Longrightarrow> indexer_step s (s\<lparr>sys_manager := m\<rparr>)"
| reconcile_failed: "indexer_step s (s\<lparr>sys_manager := reconcileEnd ws (Inl text) (sys_manager s)\<rparr>)"
| reconcile_done: "fst (Enqueue ws events (sys_manager s)) = None \<or> events = [] \<Longrightarrow>
    indexer_step s (s\<lparr>sys_manager := reconcileEnd ws (Inr events) (sys_manager s),
      sys_accepted := (sys_accepted s)(ws := sys_accepted s ws \<union> eventPaths ws events)\<rparr>)"
| reconcile_refused: "\<lbrakk>fst (Enqueue ws events (sys_manager s)) \<noteq> None; events \<noteq> []\<rbrakk> \<Longrightarrow>
    indexer_step s (s\<lparr>sys_manager := reconcileEnd ws (Inr events) (sys_manager s), sys_failed := (sys_failed s)(ws := True)\<rparr>)"
| stop_turn: "\<lbrakk>m_workers (sys_manager s) ws = Some w; stopTurn e ws (sys_manager s) = (Stopped, m)\<rbrakk> \<Longrightarrow>
    indexer_step s (s\<lparr>sys_manager := m, sys_discarded := (sys_discarded s)(ws := set (w_pending w))\<rparr>)"
| stop_waits: "stopTurn e ws (sys_manager s) = (Waits, m) \<Longrightarrow> indexer_step s (s\<lparr>sys_manager := m\<rparr>)"
| stop_failed: "stopTurn e ws (sys_manager s) = (StopFails d, m) \<Longrightarrow>
    indexer_step s (s\<lparr>sys_manager := m, sys_failed := (sys_failed s)(ws := True)\<rparr>)"

inductive indexer_reach :: "ManagerOption list \<Rightarrow> System \<Rightarrow> bool" for options where
  init: "indexer_reach options (initialSystem options)"
| step: "indexer_reach options s \<Longrightarrow> indexer_step s s' \<Longrightarrow> indexer_reach options s'"

subsection \<open>The invariant of one worker\<close>

definition worker_inv :: "Manager \<Rightarrow> string list \<Rightarrow> string set \<Rightarrow> string set \<Rightarrow> bool \<Rightarrow> Worker \<Rightarrow> bool" where
  "worker_inv m inflight accepted published failed w \<longleftrightarrow>
     distinct (w_pending w) \<and> w_pendingSet w = set (w_pending w)
     \<and> (w_publishing w \<longleftrightarrow> inflight \<noteq> []) \<and> (w_timer w \<noteq> None \<longrightarrow> \<not> w_publishing w)
     \<and> 0 \<le> w_retryDelay w \<and> w_retryDelay w \<le> max (m_retryBase m) (m_retryMax m)
     \<and> accepted \<subseteq> set (w_pending w) \<union> set inflight \<union> published
     \<and> (\<not> failed \<longrightarrow> st_QueuedPaths (w_status w) = w_pending w
          \<and> (w_pending w \<noteq> [] \<and> \<not> w_stopping w \<longrightarrow> w_timer w \<noteq> None \<or> w_publishing w))"

definition manager_ok :: "Manager \<Rightarrow> bool" where
  "manager_ok m \<longleftrightarrow> m_throttle m > 0 \<and> m_idle m > 0 \<and> m_retryBase m > 0 \<and> m_retryMax m > 0 \<and> m_reconcile m > 0"

definition sameConfig :: "Manager \<Rightarrow> Manager \<Rightarrow> bool" where
  "sameConfig m m' \<longleftrightarrow> m' = m\<lparr>m_workers := m_workers m'\<rparr>"

lemma applyOption_ok: "manager_ok m \<Longrightarrow> manager_ok (applyOption opt m)"
  by (cases opt) (auto simp: manager_ok_def Let_def)

lemma NewManager_ok: "manager_ok (NewManager options)"
proof -
  have "manager_ok m \<Longrightarrow> manager_ok (fold applyOption opts m)" for opts m
    by (induction opts arbitrary: m) (simp_all add: applyOption_ok)
  then show ?thesis by (simp add: NewManager_def manager_ok_def second_def)
qed

lemma NewManager_workers: "m_workers (NewManager options) = Map.empty"
proof -
  have keep: "m_workers (applyOption opt m) = m_workers m" for opt m by (cases opt) (simp_all add: Let_def)
  have "m_workers (fold applyOption opts m) = m_workers m" for opts m
    by (induction opts arbitrary: m) (simp_all add: keep)
  then show ?thesis by (simp add: NewManager_def)
qed

lemma setWorker_sel [simp]:
  "m_workers (setWorker ws w m) = (m_workers m)(ws \<mapsto> w)" "m_throttle (setWorker ws w m) = m_throttle m"
  "m_retryBase (setWorker ws w m) = m_retryBase m" "m_retryMax (setWorker ws w m) = m_retryMax m"
  "m_idle (setWorker ws w m) = m_idle m" "m_reconcile (setWorker ws w m) = m_reconcile m"
  by (simp_all add: setWorker_def)

lemma worker_inv_config: "worker_inv (setWorker ws w m) = worker_inv m"
  by (simp add: worker_inv_def fun_eq_iff)

lemma addPending_props:
  assumes "distinct (w_pending w)" "w_pendingSet w = set (w_pending w)"
  shows "distinct (w_pending (addPending p w)) \<and> w_pendingSet (addPending p w) = set (w_pending (addPending p w))
    \<and> set (w_pending (addPending p w)) = insert p (set (w_pending w))
    \<and> addPending p w = w\<lparr>w_pending := w_pending (addPending p w), w_pendingSet := w_pendingSet (addPending p w)\<rparr>"
  using assms by (auto simp: addPending_def)

lemma enqueueEvents_props:
  assumes "distinct (w_pending w)" "w_pendingSet w = set (w_pending w)" "enqueueEvents ws events w = (r, w')"
  shows "distinct (w_pending w') \<and> w_pendingSet w' = set (w_pending w') \<and> set (w_pending w) \<subseteq> set (w_pending w')
    \<and> (r = None \<longrightarrow> set (w_pending w') = set (w_pending w) \<union> eventPaths ws events)
    \<and> w' = w\<lparr>w_pending := w_pending w', w_pendingSet := w_pendingSet w'\<rparr>"
  using assms
proof (induction ws events w rule: enqueueEvents.induct)
  case (2 ws event events w)
  show ?case
  proof (cases "normalizeEventPath ws event")
    case (Inl e)
    then show ?thesis using 2 by auto
  next
    case (Inr p)
    note a = addPending_props[OF 2(2,3), of p]
    from 2(4) have "enqueueEvents ws events (addPending p w) = (r, w')" by (simp add: Inr)
    with 2(1)[OF Inr] a have ih: "distinct (w_pending w') \<and> w_pendingSet w' = set (w_pending w')
      \<and> set (w_pending (addPending p w)) \<subseteq> set (w_pending w')
      \<and> (r = None \<longrightarrow> set (w_pending w') = set (w_pending (addPending p w)) \<union> eventPaths ws events)
      \<and> w' = (addPending p w)\<lparr>w_pending := w_pending w', w_pendingSet := w_pendingSet w'\<rparr>" by blast
    have "eventPaths ws (event # events) = insert p (eventPaths ws events)" using Inr by (auto simp: eventPaths_def)
    moreover have "(addPending p w)\<lparr>w_pending := x, w_pendingSet := y\<rparr> = w\<lparr>w_pending := x, w_pendingSet := y\<rparr>" for x y
      by (simp add: addPending_def)
    ultimately show ?thesis using ih a by auto
  qed
qed (auto simp: eventPaths_def)

lemma setWorker_same: "m_workers m ws = Some w \<Longrightarrow> setWorker ws w m = m"
  by (simp add: setWorker_def map_upd_triv)

lemma worker_inv_weaken: "worker_inv m fl acc pub failed w \<Longrightarrow> worker_inv m fl acc pub True w"
  unfolding worker_inv_def by blast

lemma worker_inv_reconcile [simp]: "worker_inv m fl acc pub failed (w\<lparr>w_reconcileTimer := t\<rparr>) = worker_inv m fl acc pub failed w"
  by (simp add: worker_inv_def)

lemma worker_inv_status [simp]: "st_QueuedPaths st = st_QueuedPaths (w_status w) \<Longrightarrow>
    worker_inv m fl acc pub failed (w\<lparr>w_status := st\<rparr>) = worker_inv m fl acc pub failed w"
  by (simp add: worker_inv_def)

lemma worker_inv_touched [simp]: "worker_inv m fl acc pub failed (touched m' now w) = worker_inv m fl acc pub failed w"
  by (simp add: touched_def)

lemma enqueue_inv:
  assumes inv: "worker_inv m fl acc pub failed w" and w: "m_workers m ws = Some w" and enq: "Enqueue ws events m = (r, m')"
  shows "\<exists>w'. m' = setWorker ws w' m \<and> worker_inv m fl acc pub True w'
    \<and> (r = None \<longrightarrow> worker_inv m fl (acc \<union> eventPaths ws events) pub failed w')"
proof (cases "w_stopping w")
  case True
  then show ?thesis using enq w inv setWorker_same[OF w] by (auto simp: Enqueue_def worker_inv_def intro!: exI[of _ w])
next
  case False
  obtain e w1 where ev: "enqueueEvents ws events w = (e, w1)" by (cases "enqueueEvents ws events w")
  have d: "distinct (w_pending w)" "w_pendingSet w = set (w_pending w)" using inv unfolding worker_inv_def by blast+
  note p = enqueueEvents_props[OF d ev]
  have p: "distinct (w_pending w1)" "w_pendingSet w1 = set (w_pending w1)" "set (w_pending w) \<subseteq> set (w_pending w1)"
    "e = None \<longrightarrow> set (w_pending w1) = set (w_pending w) \<union> eventPaths ws events"
    "w_publishing w1 = w_publishing w" "w_timer w1 = w_timer w" "w_retryDelay w1 = w_retryDelay w" "w_stopping w1 = w_stopping w"
  proof -
    have *: "w1 = w\<lparr>w_pending := w_pending w1, w_pendingSet := w_pendingSet w1\<rparr>" using p by blast
    have "w_publishing w1 = w_publishing w \<and> w_timer w1 = w_timer w \<and> w_retryDelay w1 = w_retryDelay w \<and> w_stopping w1 = w_stopping w"
      by (subst *, subst (2) *, subst (3) *, subst (4) *) simp
    then show "w_publishing w1 = w_publishing w" "w_timer w1 = w_timer w" "w_retryDelay w1 = w_retryDelay w" "w_stopping w1 = w_stopping w"
      by blast+
  qed (use p in blast)+
  have base: "worker_inv m fl acc pub True w1" using inv p unfolding worker_inv_def by auto
  show ?thesis
  proof (cases e)
    case (Some e')
    then show ?thesis using enq w False ev base by (auto simp: Enqueue_def)
  next
    case None
    define w2 where "w2 = setQueued w1"
    define w3 where "w3 = (if w_pending w2 \<noteq> [] \<and> \<not> w_publishing w2 \<and> w_timer w2 = None then scheduleAfter (m_throttle m) w2 else w2)"
    have m': "m' = setWorker ws w3 m" "r = None" using enq w False ev None by (auto simp: Enqueue_def w2_def w3_def Let_def)
    have "worker_inv m fl (acc \<union> eventPaths ws events) pub False w3"
      using inv p None unfolding worker_inv_def w3_def w2_def setQueued_def scheduleAfter_def by auto
    moreover from this have "worker_inv m fl acc pub True w3" by (auto simp: worker_inv_def)
    ultimately show ?thesis using m' by (auto simp: worker_inv_def)
  qed
qed

lemma enqueue_absent: "m_workers m ws = None \<Longrightarrow> Enqueue ws events m = (Some IndexerNotRunning, m)"
  by (simp add: Enqueue_def)

lemma publishBegin_inv:
  assumes inv: "worker_inv m fl acc pub failed w" and w: "m_workers m ws = Some w" and b: "publishBegin ws m = Some (paths, m')"
  shows "\<exists>w'. m' = setWorker ws w' m \<and> worker_inv m paths acc pub failed w'"
  using assms unfolding publishBegin_def worker_inv_def
  by (auto split: if_splits intro!: exI)

lemma nextRetryDelay_bounds:
  assumes "manager_ok m" "0 \<le> d" "d \<le> max (m_retryBase m) (m_retryMax m)"
  shows "0 \<le> nextRetryDelay m d \<and> nextRetryDelay m d \<le> max (m_retryBase m) (m_retryMax m)"
  using assms by (auto simp: nextRetryDelay_def manager_ok_def)

lemma publishEnd_inv:
  assumes ok: "manager_ok m" and inv: "worker_inv m fl acc pub failed w" and w: "m_workers m ws = Some w" and fl: "fl \<noteq> []"
  shows "\<exists>w'. publishEnd ws fl err m = setWorker ws w' m
    \<and> worker_inv m [] acc (if err = None then pub \<union> set fl else pub) failed w'"
proof (cases err)
  case None
  define w1 where "w1 = w\<lparr>w_publishing := False, w_status := (w_status w)\<lparr>st_Error := ''''\<rparr>, w_retryDelay := 0\<rparr>"
  define w2 where "w2 = (if w_pending w1 \<noteq> [] \<and> \<not> w_stopping w1 \<and> w_timer w1 = None then scheduleAfter (m_throttle m) w1 else w1)"
  have "publishEnd ws fl err m = setWorker ws w2 m" using None w by (simp add: publishEnd_def w1_def w2_def Let_def)
  moreover have "worker_inv m [] acc (pub \<union> set fl) failed w2"
    using inv ok unfolding worker_inv_def manager_ok_def w2_def w1_def scheduleAfter_def by auto
  ultimately show ?thesis using None by auto
next
  case (Some msg)
  define p where "p = uniquePaths (fl @ w_pending w)"
  define w1 where "w1 = setQueued (w\<lparr>w_publishing := False, w_status := (w_status w)\<lparr>st_Error := msg\<rparr>, w_pending := p, w_pendingSet := set p,
      w_retryDelay := nextRetryDelay m (w_retryDelay w)\<rparr>)"
  define w2 where "w2 = (if w_pending w1 \<noteq> [] \<and> \<not> w_stopping w1 \<and> w_timer w1 = None then scheduleAfter (w_retryDelay w1) w1 else w1)"
  have "publishEnd ws fl err m = setWorker ws w2 m" using Some w by (simp add: publishEnd_def w1_def w2_def p_def Let_def)
  moreover have "distinct p" "set p = set fl \<union> set (w_pending w)" by (simp_all add: p_def uniquePaths_def)
  then have "worker_inv m [] acc pub failed w2"
    using inv nextRetryDelay_bounds[OF ok, of "w_retryDelay w"]
    unfolding worker_inv_def w2_def w1_def scheduleAfter_def setQueued_def by auto
  ultimately show ?thesis using Some by auto
qed

lemma reconcileEnd_inv:
  assumes inv: "worker_inv m fl acc pub failed w" and w: "m_workers m ws = Some w"
  shows "\<exists>w'. reconcileEnd ws (Inl text) m = setWorker ws w' m \<and> worker_inv m fl acc pub failed w'"
    and "\<exists>w'. reconcileEnd ws (Inr events) m = setWorker ws w' m \<and> worker_inv m fl acc pub True w'
      \<and> (fst (Enqueue ws events m) = None \<or> events = [] \<longrightarrow> worker_inv m fl (acc \<union> eventPaths ws events) pub failed w')"
proof -
  have tail: "\<exists>w'. (case m_workers (setWorker ws w1 m) ws of None \<Rightarrow> setWorker ws w1 m | Some w \<Rightarrow> if w_stopping w then setWorker ws w1 m
      else let w1' = (case err of Some text \<Rightarrow> w\<lparr>w_status := (w_status w)\<lparr>st_Error := ''reconcile workspace: '' @ text\<rparr>\<rparr> | None \<Rightarrow> w)
        in setWorker ws (w1'\<lparr>w_reconcileTimer := Some (m_reconcile m)\<rparr>) (setWorker ws w1 m)) = setWorker ws w' m
      \<and> (\<forall>fl acc pub failed. worker_inv m fl acc pub failed w1 \<longrightarrow> worker_inv m fl acc pub failed w')" for w1 err
  proof (cases "w_stopping w1")
    case False
    then show ?thesis by (intro exI[of _ "(case err of Some text \<Rightarrow> w1\<lparr>w_status := (w_status w1)\<lparr>st_Error := ''reconcile workspace: '' @ text\<rparr>\<rparr>
        | None \<Rightarrow> w1)\<lparr>w_reconcileTimer := Some (m_reconcile m)\<rparr>"]) (auto simp: setWorker_def split: option.splits)
  qed (auto intro!: exI[of _ w1])
  show "\<exists>w'. reconcileEnd ws (Inl text) m = setWorker ws w' m \<and> worker_inv m fl acc pub failed w'"
    using tail[of w "Some text"] inv unfolding setWorker_same[OF w] by (auto simp: reconcileEnd_def)
  show "\<exists>w'. reconcileEnd ws (Inr events) m = setWorker ws w' m \<and> worker_inv m fl acc pub True w'
      \<and> (fst (Enqueue ws events m) = None \<or> events = [] \<longrightarrow> worker_inv m fl (acc \<union> eventPaths ws events) pub failed w')"
  proof (cases "events = []")
    case True
    then have "eventPaths ws events = {}" by (simp add: eventPaths_def)
    then show ?thesis
      using True tail[of w None] inv worker_inv_weaken[OF inv] unfolding setWorker_same[OF w] by (auto simp: reconcileEnd_def)
  next
    case False
    obtain r m1 where e: "Enqueue ws events m = (r, m1)" by (cases "Enqueue ws events m")
    from enqueue_inv[OF inv w e] obtain w1 where w1: "m1 = setWorker ws w1 m" "worker_inv m fl acc pub True w1"
      "r = None \<longrightarrow> worker_inv m fl (acc \<union> eventPaths ws events) pub failed w1" by blast
    show ?thesis
    proof (cases r)
      case None
      then show ?thesis using False e w1 tail[of w1 None] by (fastforce simp: reconcileEnd_def)
    next
      case (Some d)
      then show ?thesis using False e w1 tail[of w1 "Some ''enqueue workspace events''"] by (fastforce simp: reconcileEnd_def)
    qed
  qed
qed

lemma reconcileEnd_absent: "m_workers m ws = None \<Longrightarrow> reconcileEnd ws result m = m"
  by (auto simp: reconcileEnd_def enqueue_absent split: sum.splits)

subsection \<open>The invariant of the system\<close>

definition system_inv :: "System \<Rightarrow> bool" where
  "system_inv s \<longleftrightarrow> manager_ok (sys_manager s) \<and>
     (\<forall>ws. case m_workers (sys_manager s) ws of
        None \<Rightarrow> sys_inflight s ws = [] \<and> sys_accepted s ws \<subseteq> sys_published s ws \<union> sys_discarded s ws
      | Some w \<Rightarrow> worker_inv (sys_manager s) (sys_inflight s ws) (sys_accepted s ws) (sys_published s ws) (sys_failed s ws) w)"

lemma manager_ok_setWorker [simp]: "manager_ok (setWorker ws w m) = manager_ok m"
  by (simp add: manager_ok_def)

lemma system_inv_worker:
  "system_inv s \<Longrightarrow> m_workers (sys_manager s) ws = Some w \<Longrightarrow>
    worker_inv (sys_manager s) (sys_inflight s ws) (sys_accepted s ws) (sys_published s ws) (sys_failed s ws) w"
  unfolding system_inv_def by (metis option.simps(5))

lemma system_inv_absent: "system_inv s \<Longrightarrow> m_workers (sys_manager s) ws = None \<Longrightarrow>
    sys_inflight s ws = [] \<and> sys_accepted s ws \<subseteq> sys_published s ws \<union> sys_discarded s ws"
  unfolding system_inv_def by (metis option.simps(4))

text \<open>A step that replaces one worker keeps the invariant when the worker keeps its own.\<close>

lemma system_inv_update:
  assumes "system_inv s" "sys_manager s' = setWorker ws w' (sys_manager s)"
    and "worker_inv (sys_manager s) (sys_inflight s' ws) (sys_accepted s' ws) (sys_published s' ws) (sys_failed s' ws) w'"
    and "\<And>v. v \<noteq> ws \<Longrightarrow> sys_inflight s' v = sys_inflight s v \<and> sys_accepted s' v = sys_accepted s v
      \<and> sys_published s' v = sys_published s v \<and> sys_discarded s' v = sys_discarded s v \<and> sys_failed s' v = sys_failed s v"
  shows "system_inv s'"
  unfolding system_inv_def
proof (intro conjI allI)
  show "manager_ok (sys_manager s')" using assms(1,2) by (simp add: system_inv_def)
  show "case m_workers (sys_manager s') v of None \<Rightarrow> sys_inflight s' v = [] \<and> sys_accepted s' v \<subseteq> sys_published s' v \<union> sys_discarded s' v
      | Some w \<Rightarrow> worker_inv (sys_manager s') (sys_inflight s' v) (sys_accepted s' v) (sys_published s' v) (sys_failed s' v) w" for v
  proof (cases "v = ws")
    case True
    then show ?thesis using assms(2,3) by (simp add: worker_inv_config)
  next
    case False
    then show ?thesis using assms(2) assms(4)[OF False] system_inv_worker[OF assms(1), of v] system_inv_absent[OF assms(1), of v]
      by (cases "m_workers (sys_manager s) v") (simp_all add: worker_inv_config)
  qed
qed

text \<open>A step on a workspace without a worker changes nothing the invariant sees.\<close>

lemma system_inv_other:
  assumes "system_inv s" "m_workers (sys_manager s) ws = None" "sys_manager s' = sys_manager s" "sys_inflight s' = sys_inflight s"
    and "sys_accepted s' = sys_accepted s" "sys_published s' = sys_published s" "sys_discarded s' = sys_discarded s"
    and "\<And>v. v \<noteq> ws \<Longrightarrow> sys_failed s' v = sys_failed s v"
  shows "system_inv s'"
  unfolding system_inv_def
proof (intro conjI allI)
  show "manager_ok (sys_manager s')" using assms(1,3) by (simp add: system_inv_def)
  show "case m_workers (sys_manager s') v of None \<Rightarrow> sys_inflight s' v = [] \<and> sys_accepted s' v \<subseteq> sys_published s' v \<union> sys_discarded s' v
      | Some w \<Rightarrow> worker_inv (sys_manager s') (sys_inflight s' v) (sys_accepted s' v) (sys_published s' v) (sys_failed s' v) w" for v
    using assms(2-8) system_inv_absent[OF assms(1)] system_inv_worker[OF assms(1), of v]
    by (cases "v = ws"; cases "m_workers (sys_manager s) v") simp_all
qed

lemma system_inv_removed:
  assumes "system_inv s" "sys_manager s' = (sys_manager s)\<lparr>m_workers := (m_workers (sys_manager s))(ws := None)\<rparr>"
    and "sys_inflight s ws = []" "sys_inflight s' = sys_inflight s" "sys_accepted s' = sys_accepted s"
      "sys_published s' = sys_published s" "sys_failed s' = sys_failed s"
    and "m_workers (sys_manager s) ws = Some w" "sys_discarded s' = (sys_discarded s)(ws := set (w_pending w))"
  shows "system_inv s'"
proof -
  have "worker_inv (sys_manager s') = worker_inv (sys_manager s)" using assms(2) by (simp add: worker_inv_def fun_eq_iff)
  then have "case m_workers (sys_manager s') v of None \<Rightarrow> sys_inflight s' v = [] \<and> sys_accepted s' v \<subseteq> sys_published s' v \<union> sys_discarded s' v
      | Some w \<Rightarrow> worker_inv (sys_manager s') (sys_inflight s' v) (sys_accepted s' v) (sys_published s' v) (sys_failed s' v) w" for v
    using assms(2-9) system_inv_absent[OF assms(1), of v] system_inv_worker[OF assms(1), of v]
    by (cases "m_workers (sys_manager s) v"; cases "v = ws") (auto simp: worker_inv_def)
  then show ?thesis using assms(1,2) by (simp add: system_inv_def manager_ok_def)
qed

lemma start_again_eq:
  assumes "m_workers m ws = Some w" "Start e now ws m = Inr (status, m')"
  shows "m' = setWorker ws (touched m now w) m"
  using assms by (auto simp: Start_def Let_def)

lemma start_new_inv:
  assumes "m_workers m ws = None" "Start None now ws m = Inr (status, m')" "manager_ok m"
  shows "\<exists>w. m' = setWorker ws w m \<and> worker_inv m [] {} {} False w"
  using assms by (auto simp: Start_def Let_def worker_inv_def manager_ok_def)

lemma stopTurn_inv:
  assumes inv: "worker_inv m fl acc pub failed w" and w: "m_workers m ws = Some w" and t: "stopTurn e ws m = (r, m')"
  shows "case r of Stopped \<Rightarrow> fl = [] \<and> m' = m\<lparr>m_workers := (m_workers m)(ws := None)\<rparr>
    | Waits \<Rightarrow> \<exists>w'. m' = setWorker ws w' m \<and> worker_inv m fl acc pub failed w'
    | StopFails d \<Rightarrow> \<exists>w'. m' = setWorker ws w' m \<and> worker_inv m fl acc pub True w'"
proof -
  define w1 where "w1 = w\<lparr>w_stopping := True, w_timer := None, w_reconcileTimer := None\<rparr>"
  define w2 where "w2 = w1\<lparr>w_stopping := False\<rparr>"
  have 1: "worker_inv m fl acc pub failed w1" using inv unfolding worker_inv_def w1_def by auto
  have 2: "worker_inv m fl acc pub True w2" using inv unfolding worker_inv_def w2_def w1_def by auto
  show ?thesis
  proof (cases "w_publishing w")
    case True
    then have "r = Waits" "m' = setWorker ws w1 m" using t w by (simp_all add: stopTurn_def Let_def w1_def)
    with 1 show ?thesis by auto
  next
    case False
    then have fl: "fl = []" using inv unfolding worker_inv_def by blast
    show ?thesis
    proof (cases e)
      case None
      then have "r = Stopped" "m' = m\<lparr>m_workers := (m_workers m)(ws := None)\<rparr>" using t w False by (simp_all add: stopTurn_def Let_def)
      with fl show ?thesis by simp
    next
      case (Some d)
      then have "r = StopFails d" "m' = setWorker ws w2 m" using t w False by (simp_all add: stopTurn_def Let_def w1_def w2_def)
      with 2 show ?thesis by auto
    qed
  qed
qed

lemma stopTurn_absent: "m_workers m ws = None \<Longrightarrow> stopTurn e ws m = (Stopped, m)"
  by (simp add: stopTurn_def)

lemma indexer_step_inv:
  assumes "indexer_step s s'" "system_inv s"
  shows "system_inv s'"
  using assms
proof (induction rule: indexer_step.induct)
  case (start_new s ws now status m)
  then have "manager_ok (sys_manager s)" by (simp add: system_inv_def)
  from start_new_inv[OF start_new(1,2) this] obtain w where
    "m = setWorker ws w (sys_manager s)" "worker_inv (sys_manager s) [] {} {} False w" by blast
  then show ?case
    using system_inv_absent[OF start_new(3,1)] by (intro system_inv_update[OF start_new(3), of _ ws w]) simp_all
next
  case (start_again s ws w e now status m)
  from start_again_eq[OF start_again(1,2)] system_inv_worker[OF start_again(3,1)] show ?case
    by (intro system_inv_update[OF start_again(3), of _ ws "touched (sys_manager s) now w"]) simp_all
next
  case (touch s now ws)
  show ?case
  proof (cases "m_workers (sys_manager s) ws")
    case None
    then show ?thesis using touch by (simp add: Touch_def)
  next
    case (Some w)
    with system_inv_worker[OF touch(1) Some] show ?thesis
      by (intro system_inv_update[OF touch(1), of _ ws "touched (sys_manager s) now w"]) (simp_all add: Touch_def)
  qed
next
  case (enqueue ws events s m)
  then obtain w where w: "m_workers (sys_manager s) ws = Some w" by (cases "m_workers (sys_manager s) ws") (simp_all add: enqueue_absent)
  from enqueue_inv[OF system_inv_worker[OF enqueue(2) w] w enqueue(1)] obtain w' where "m = setWorker ws w' (sys_manager s)"
    "worker_inv (sys_manager s) (sys_inflight s ws) (sys_accepted s ws \<union> eventPaths ws events) (sys_published s ws) (sys_failed s ws) w'"
    by blast
  then show ?case by (intro system_inv_update[OF enqueue(2), of _ ws w']) simp_all
next
  case (enqueue_refused ws events s e m)
  show ?case
  proof (cases "m_workers (sys_manager s) ws")
    case None
    with enqueue_refused show ?thesis by (intro system_inv_other[OF enqueue_refused(2) None]) (simp_all add: enqueue_absent)
  next
    case (Some w)
    from enqueue_inv[OF system_inv_worker[OF enqueue_refused(2) Some] Some enqueue_refused(1)] obtain w' where
      "m = setWorker ws w' (sys_manager s)"
      "worker_inv (sys_manager s) (sys_inflight s ws) (sys_accepted s ws) (sys_published s ws) True w'" by blast
    then show ?thesis by (intro system_inv_update[OF enqueue_refused(2), of _ ws w']) simp_all
  qed
next
  case (publish_begin ws s paths m)
  then obtain w where w: "m_workers (sys_manager s) ws = Some w" by (cases "m_workers (sys_manager s) ws") (simp_all add: publishBegin_def)
  from publishBegin_inv[OF system_inv_worker[OF publish_begin(2) w] w publish_begin(1)] obtain w' where
    "m = setWorker ws w' (sys_manager s)"
    "worker_inv (sys_manager s) paths (sys_accepted s ws) (sys_published s ws) (sys_failed s ws) w'" by blast
  then show ?case by (intro system_inv_update[OF publish_begin(2), of _ ws w']) simp_all
next
  case (publish_ok s ws)
  then obtain w where w: "m_workers (sys_manager s) ws = Some w"
    using system_inv_absent by (cases "m_workers (sys_manager s) ws") blast+
  have "manager_ok (sys_manager s)" using publish_ok by (simp add: system_inv_def)
  from publishEnd_inv[OF this system_inv_worker[OF publish_ok(2) w] w publish_ok(1), of None] obtain w' where
    "publishEnd ws (sys_inflight s ws) None (sys_manager s) = setWorker ws w' (sys_manager s)"
    "worker_inv (sys_manager s) [] (sys_accepted s ws) (sys_published s ws \<union> set (sys_inflight s ws)) (sys_failed s ws) w'" by auto
  then show ?case by (intro system_inv_update[OF publish_ok(2), of _ ws w']) simp_all
next
  case (publish_failed s ws msg)
  then obtain w where w: "m_workers (sys_manager s) ws = Some w"
    using system_inv_absent by (cases "m_workers (sys_manager s) ws") blast+
  have "manager_ok (sys_manager s)" using publish_failed by (simp add: system_inv_def)
  from publishEnd_inv[OF this system_inv_worker[OF publish_failed(2) w] w publish_failed(1), of "Some msg"] obtain w' where
    "publishEnd ws (sys_inflight s ws) (Some msg) (sys_manager s) = setWorker ws w' (sys_manager s)"
    "worker_inv (sys_manager s) [] (sys_accepted s ws) (sys_published s ws) (sys_failed s ws) w'" by auto
  then show ?case by (intro system_inv_update[OF publish_failed(2), of _ ws w']) simp_all
next
  case (reconcile_begin ws s m)
  then obtain w where w: "m_workers (sys_manager s) ws = Some w" by (cases "m_workers (sys_manager s) ws") (simp_all add: reconcileBegin_def)
  then have "m = setWorker ws (w\<lparr>w_reconcileTimer := None\<rparr>) (sys_manager s)"
    using reconcile_begin(1) by (simp add: reconcileBegin_def split: if_splits)
  then show ?case using system_inv_worker[OF reconcile_begin(2) w]
    by (intro system_inv_update[OF reconcile_begin(2), of _ ws "w\<lparr>w_reconcileTimer := None\<rparr>"]) simp_all
next
  case (reconcile_failed s ws msg)
  show ?case
  proof (cases "m_workers (sys_manager s) ws")
    case None
    then show ?thesis using reconcile_failed by (simp add: reconcileEnd_absent)
  next
    case (Some w)
    from reconcileEnd_inv(1)[OF system_inv_worker[OF reconcile_failed(1) Some] Some, of msg] obtain w' where
      "reconcileEnd ws (Inl msg) (sys_manager s) = setWorker ws w' (sys_manager s)"
      "worker_inv (sys_manager s) (sys_inflight s ws) (sys_accepted s ws) (sys_published s ws) (sys_failed s ws) w'" by blast
    then show ?thesis by (intro system_inv_update[OF reconcile_failed(1), of _ ws w']) simp_all
  qed
next
  case (reconcile_done ws events s)
  show ?case
  proof (cases "m_workers (sys_manager s) ws")
    case None
    then have "events = []" using reconcile_done(1) by (simp add: enqueue_absent)
    with None show ?thesis
      by (intro system_inv_other[OF reconcile_done(2) None]) (simp_all add: reconcileEnd_absent eventPaths_def fun_upd_idem)
  next
    case (Some w)
    from reconcileEnd_inv(2)[OF system_inv_worker[OF reconcile_done(2) Some] Some, of events] reconcile_done(1) obtain w' where
      "reconcileEnd ws (Inr events) (sys_manager s) = setWorker ws w' (sys_manager s)"
      "worker_inv (sys_manager s) (sys_inflight s ws) (sys_accepted s ws \<union> eventPaths ws events) (sys_published s ws) (sys_failed s ws) w'"
      by blast
    then show ?thesis by (intro system_inv_update[OF reconcile_done(2), of _ ws w']) simp_all
  qed
next
  case (reconcile_refused ws events s)
  show ?case
  proof (cases "m_workers (sys_manager s) ws")
    case None
    with reconcile_refused show ?thesis by (intro system_inv_other[OF reconcile_refused(3) None]) (simp_all add: reconcileEnd_absent)
  next
    case (Some w)
    from reconcileEnd_inv(2)[OF system_inv_worker[OF reconcile_refused(3) Some] Some, of events] obtain w' where
      "reconcileEnd ws (Inr events) (sys_manager s) = setWorker ws w' (sys_manager s)"
      "worker_inv (sys_manager s) (sys_inflight s ws) (sys_accepted s ws) (sys_published s ws) True w'" by blast
    then show ?thesis by (intro system_inv_update[OF reconcile_refused(3), of _ ws w']) simp_all
  qed
next
  case (stop_turn s ws w e m)
  from stopTurn_inv[OF system_inv_worker[OF stop_turn(3,1)] stop_turn(1,2)] show ?case
    by (intro system_inv_removed[OF stop_turn(3) _ _ _ _ _ _ stop_turn(1)]) simp_all
next
  case (stop_waits e ws s m)
  then obtain w where w: "m_workers (sys_manager s) ws = Some w"
    by (cases "m_workers (sys_manager s) ws") (simp_all add: stopTurn_absent)
  from stopTurn_inv[OF system_inv_worker[OF stop_waits(2) w] w stop_waits(1)] obtain w' where "m = setWorker ws w' (sys_manager s)"
    "worker_inv (sys_manager s) (sys_inflight s ws) (sys_accepted s ws) (sys_published s ws) (sys_failed s ws) w'" by auto
  then show ?case by (intro system_inv_update[OF stop_waits(2), of _ ws w']) simp_all
next
  case (stop_failed e ws s d m)
  show ?case
  proof (cases "m_workers (sys_manager s) ws")
    case None
    then show ?thesis using stop_failed by (simp add: stopTurn_absent)
  next
    case (Some w)
    from stopTurn_inv[OF system_inv_worker[OF stop_failed(2) Some] Some stop_failed(1)] obtain w' where
      "m = setWorker ws w' (sys_manager s)"
      "worker_inv (sys_manager s) (sys_inflight s ws) (sys_accepted s ws) (sys_published s ws) True w'" by auto
    then show ?thesis by (intro system_inv_update[OF stop_failed(2), of _ ws w']) simp_all
  qed
qed

lemma indexer_reach_inv: "indexer_reach options s \<Longrightarrow> system_inv s"
proof (induction rule: indexer_reach.induct)
  case init
  then show ?case by (simp add: system_inv_def initialSystem_def NewManager_ok NewManager_workers)
qed (rule indexer_step_inv)

text \<open>C8: No accepted event is lost but by Stop: in every state the indexer can reach, whatever the order of
  starts, events, publications, retries, reconciliations and stops, a path of an accepted batch of
  events is still queued, or in the publication in flight, or in a batch the publisher accepted, while
  the workspace has a worker; its queue has no duplicates, it publishes exactly when a batch is in
  flight, and as long as no call failed half-way its status reports exactly its queue.  Once Stop has
  deleted the worker, the path was in a batch the publisher accepted or in the queue Stop discarded.\<close>

theorem no_event_is_lost:
  assumes "indexer_reach options s"
  shows "case m_workers (sys_manager s) ws of
      Some w \<Rightarrow> sys_accepted s ws \<subseteq> set (w_pending w) \<union> set (sys_inflight s ws) \<union> sys_published s ws
        \<and> distinct (w_pending w) \<and> w_pendingSet w = set (w_pending w) \<and> (w_publishing w \<longleftrightarrow> sys_inflight s ws \<noteq> [])
        \<and> (\<not> sys_failed s ws \<longrightarrow> st_QueuedPaths (w_status w) = w_pending w)
    | None \<Rightarrow> sys_inflight s ws = [] \<and> sys_accepted s ws \<subseteq> sys_published s ws \<union> sys_discarded s ws"
  using system_inv_worker[OF indexer_reach_inv[OF assms], of ws] system_inv_absent[OF indexer_reach_inv[OF assms], of ws]
  unfolding worker_inv_def by (simp split: option.split)

text \<open>C37: Queued work is not stuck, unless a call on the worker failed half-way since it was started (a batch of
  events or a reconciliation with a refused event, or a Stop that could not release the lock): a worker
  that is not stopping and whose queue is not empty has a publication running or a timer armed, and when
  the timer fires the publication takes the whole queue.\<close>

theorem queued_work_is_scheduled:
  assumes "indexer_reach options s" "m_workers (sys_manager s) ws = Some w"
    and "\<not> sys_failed s ws" "\<not> w_stopping w" "w_pending w \<noteq> []"
  shows "if w_publishing w then sys_inflight s ws \<noteq> [] \<and> w_timer w = None
    else w_timer w \<noteq> None \<and> (\<exists>m. publishBegin ws (sys_manager s) = Some (w_pending w, m)
      \<and> (\<exists>w'. m_workers m ws = Some w' \<and> w_publishing w' \<and> w_pending w' = [] \<and> w_timer w' = None))"
proof -
  note inv = system_inv_worker[OF indexer_reach_inv[OF assms(1)] assms(2), unfolded worker_inv_def]
  show ?thesis
  proof (cases "w_publishing w")
    case True
    then show ?thesis using inv by auto
  next
    case False
    then have "w_timer w \<noteq> None" using inv assms(3-5) by blast
    with False show ?thesis using assms by (simp add: publishBegin_def)
  qed
qed

definition sample_event :: string where "sample_event = ''a.go''"

lemma sample_normalized: "normalizeEventPath ''/w'' sample_event = Inr ''a.go''"
  by code_simp

lemma start_fresh:
  assumes "m_workers m ws = None" "Start None now ws m = Inr (status, m')"
  shows "\<exists>w. m_workers m' ws = Some w \<and> w_pending w = [] \<and> w_pendingSet w = {} \<and> \<not> w_stopping w \<and> \<not> w_publishing w"
  using assms by (auto simp: Start_def Let_def)

lemma enqueue_one:
  assumes "m_workers m ws = Some w" "w_pending w = []" "w_pendingSet w = {}" "\<not> w_stopping w" "\<not> w_publishing w"
    and "normalizeEventPath ws p = Inr r"
  shows "\<exists>m' w'. Enqueue ws [p] m = (None, m') \<and> m_workers m' ws = Some w' \<and> \<not> w_stopping w' \<and> \<not> w_publishing w' \<and> w_pending w' = [r]"
  using assms by (simp add: Enqueue_def Let_def addPending_def setQueued_def scheduleAfter_def)

lemma sample_reach:
  "\<exists>s w. indexer_reach [] s \<and> m_workers (sys_manager s) ''/w'' = Some w \<and> \<not> sys_failed s ''/w'' \<and> \<not> w_stopping w \<and> \<not> w_publishing w
    \<and> w_pending w = [''a.go''] \<and> sys_accepted s ''/w'' = {''a.go''}"
proof -
  define ws where "ws = ''/w''"
  define s0 where "s0 = initialSystem []"
  have n: "m_workers (sys_manager s0) ws = None" by (simp add: s0_def initialSystem_def NewManager_workers)
  obtain status m1 where m1: "Start None 0 ws (sys_manager s0) = Inr (status, m1)"
    using n by (simp add: Start_def Let_def)
  from start_fresh[OF n m1] obtain w1 where w1: "m_workers m1 ws = Some w1" "w_pending w1 = []" "w_pendingSet w1 = {}"
    "\<not> w_stopping w1" "\<not> w_publishing w1" by blast
  have norm: "normalizeEventPath ws sample_event = Inr ''a.go''" using sample_normalized by (simp add: ws_def)
  from enqueue_one[OF w1 norm] obtain m2 w2 where e: "Enqueue ws [sample_event] m1 = (None, m2)" "m_workers m2 ws = Some w2"
    "\<not> w_stopping w2" "\<not> w_publishing w2" "w_pending w2 = [''a.go'']" by blast
  define s1 where "s1 = s0\<lparr>sys_manager := m1, sys_accepted := (sys_accepted s0)(ws := {}), sys_published := (sys_published s0)(ws := {}),
      sys_discarded := (sys_discarded s0)(ws := {}), sys_failed := (sys_failed s0)(ws := False)\<rparr>"
  define s2 where "s2 = s1\<lparr>sys_manager := m2, sys_accepted := (sys_accepted s1)(ws := sys_accepted s1 ws \<union> eventPaths ws [sample_event])\<rparr>"
  have "indexer_reach [] s0" unfolding s0_def by (rule indexer_reach.init)
  moreover have "indexer_step s0 s1" unfolding s1_def by (rule indexer_step.start_new[OF n m1])
  ultimately have "indexer_reach [] s1" by (rule indexer_reach.step)
  moreover have "indexer_step s1 s2" unfolding s2_def by (rule indexer_step.enqueue) (simp add: e s1_def)
  ultimately have "indexer_reach [] s2" by (rule indexer_reach.step)
  moreover have "eventPaths ws [sample_event] = {''a.go''}" using norm by (auto simp: eventPaths_def)
  then have "sys_accepted s2 ws = {''a.go''}" "\<not> sys_failed s2 ws" "sys_manager s2 = m2" by (simp_all add: s2_def s1_def)
  ultimately show ?thesis using e unfolding ws_def by metis
qed

theorem no_event_is_lost_witness:
  "\<exists>s w. indexer_reach [] s \<and> m_workers (sys_manager s) ''/w'' = Some w \<and> sys_accepted s ''/w'' = {''a.go''}
    \<and> sys_accepted s ''/w'' \<subseteq> set (w_pending w) \<union> set (sys_inflight s ''/w'') \<union> sys_published s ''/w''"
proof -
  obtain s w where s: "indexer_reach [] s" "m_workers (sys_manager s) ''/w'' = Some w" "sys_accepted s ''/w'' = {''a.go''}"
    using sample_reach by (elim exE conjE) (rule that)
  have "sys_accepted s ''/w'' \<subseteq> set (w_pending w) \<union> set (sys_inflight s ''/w'') \<union> sys_published s ''/w''"
    using no_event_is_lost[OF s(1), of "''/w''"] unfolding s(2) option.case by (rule conjunct1)
  with s show ?thesis by (intro exI[of _ s] exI[of _ w] conjI)
qed

theorem queued_work_is_scheduled_witness:
  "\<exists>s w. indexer_reach [] s \<and> m_workers (sys_manager s) ''/w'' = Some w \<and> w_pending w = [''a.go''] \<and> w_timer w \<noteq> None"
proof -
  obtain s w where s: "indexer_reach [] s" "m_workers (sys_manager s) ''/w'' = Some w" "\<not> sys_failed s ''/w''" "\<not> w_stopping w"
    "\<not> w_publishing w" "w_pending w = [''a.go'']"
    using sample_reach by (elim exE conjE) (rule that)
  have "w_timer w \<noteq> None" using queued_work_is_scheduled[OF s(1-4)] s(5,6) by simp
  with s show ?thesis by (intro exI[of _ s] exI[of _ w] conjI)
qed

subsection \<open>Back-off\<close>

text \<open>One round in which the timer fires and the publisher fails.\<close>

definition failedRound :: "string \<Rightarrow> string \<Rightarrow> Manager \<Rightarrow> Manager" where
  "failedRound ws msg m = (case publishBegin ws m of None \<Rightarrow> m | Some (paths, m1) \<Rightarrow> publishEnd ws paths (Some msg) m1)"

definition backoff :: "Manager \<Rightarrow> nat \<Rightarrow> int" where
  "backoff m k = (if k = 0 then m_retryBase m else min (m_retryBase m * 2 ^ k) (m_retryMax m))"

lemma backoff_Suc: "manager_ok m \<Longrightarrow> nextRetryDelay m (backoff m k) = backoff m (Suc k)"
proof -
  assume ok: "manager_ok m"
  have p: "m_retryBase m * 2 ^ k > 0" using ok by (simp add: manager_ok_def)
  have "m_retryBase m * 2 ^ Suc k = 2 * (m_retryBase m * 2 ^ k)" by simp
  then show ?thesis using ok p by (cases k) (simp_all add: nextRetryDelay_def backoff_def manager_ok_def min_def)
qed

lemma failedRound_worker:
  assumes "m_workers m ws = Some w" "\<not> w_stopping w" "\<not> w_publishing w" "w_pending w \<noteq> []" "distinct (w_pending w)"
  shows "\<exists>w'. failedRound ws msg m = setWorker ws w' m \<and> \<not> w_stopping w' \<and> \<not> w_publishing w' \<and> w_pending w' = w_pending w
    \<and> w_timer w' = Some (nextRetryDelay m (w_retryDelay w)) \<and> w_retryDelay w' = nextRetryDelay m (w_retryDelay w)
    \<and> st_Error (w_status w') = msg"
proof -
  have config: "nextRetryDelay (setWorker ws v m) = nextRetryDelay m" for v by (simp add: nextRetryDelay_def fun_eq_iff)
  let ?d = "nextRetryDelay m (w_retryDelay w)"
  let ?w1 = "w\<lparr>w_pending := [], w_pendingSet := {}, w_status := (w_status w)\<lparr>st_QueuedPaths := []\<rparr>, w_timer := None, w_publishing := True\<rparr>"
  let ?w2 = "w\<lparr>w_publishing := False, w_pendingSet := set (w_pending w), w_retryDelay := ?d,
      w_status := (w_status w)\<lparr>st_Error := msg, st_QueuedPaths := w_pending w\<rparr>, w_timer := Some ?d\<rparr>"
  have "publishBegin ws m = Some (w_pending w, setWorker ws ?w1 m)" using assms by (simp add: publishBegin_def)
  moreover have "publishEnd ws (w_pending w) (Some msg) (setWorker ws ?w1 m) = setWorker ws ?w2 m"
    using assms by (simp add: publishEnd_def setQueued_def scheduleAfter_def uniquePaths_def dedup_distinct config Let_def)
      (simp add: setWorker_def)
  ultimately have "failedRound ws msg m = setWorker ws ?w2 m" by (simp add: failedRound_def)
  then show ?thesis using assms by (intro exI[of _ ?w2]) simp
qed

text \<open>Back-off of retries: after k + 1 publications in a row have failed, the whole queue is still
  there in its order and the next publication waits for the base delay when k is 0, and otherwise for the
  base delay doubled k times, capped at the maximum delay.\<close>

theorem retry_backoff_exact:
  assumes "manager_ok m" "m_workers m ws = Some w" "\<not> w_stopping w" "\<not> w_publishing w" "w_pending w \<noteq> []" "distinct (w_pending w)"
    and "w_retryDelay w = 0"
  shows "\<exists>w'. m_workers ((failedRound ws msg ^^ Suc k) m) ws = Some w' \<and> w_pending w' = w_pending w
    \<and> w_timer w' = Some (if k = 0 then m_retryBase m else min (m_retryBase m * 2 ^ k) (m_retryMax m))"
proof -
  have "\<exists>w'. (failedRound ws msg ^^ Suc k) m = setWorker ws w' m \<and> \<not> w_stopping w' \<and> \<not> w_publishing w' \<and> w_pending w' = w_pending w
    \<and> w_timer w' = Some (backoff m k) \<and> w_retryDelay w' = backoff m k"
  proof (induction k)
    case 0
    from failedRound_worker[OF assms(2-6), of msg] show ?case using assms(7) by (auto simp: nextRetryDelay_def backoff_def)
  next
    case (Suc k)
    then obtain w1 where w1: "(failedRound ws msg ^^ Suc k) m = setWorker ws w1 m" "\<not> w_stopping w1" "\<not> w_publishing w1"
      "w_pending w1 = w_pending w" "w_retryDelay w1 = backoff m k" by blast
    have "m_workers (setWorker ws w1 m) ws = Some w1" by simp
    from failedRound_worker[OF this w1(2,3), of msg] w1 assms(5,6) obtain w' where
      "failedRound ws msg (setWorker ws w1 m) = setWorker ws w' (setWorker ws w1 m)" "\<not> w_stopping w'" "\<not> w_publishing w'"
      "w_pending w' = w_pending w" "w_timer w' = Some (nextRetryDelay (setWorker ws w1 m) (backoff m k))"
      "w_retryDelay w' = nextRetryDelay (setWorker ws w1 m) (backoff m k)" by auto
    moreover have "nextRetryDelay (setWorker ws w1 m) = nextRetryDelay m" by (simp add: nextRetryDelay_def fun_eq_iff)
    moreover have "setWorker ws w' (setWorker ws w1 m) = setWorker ws w' m" by (simp add: setWorker_def)
    ultimately show ?case using w1(1) backoff_Suc[OF assms(1)] by (intro exI[of _ w']) simp
  qed
  then show ?thesis by (auto simp: backoff_def)
qed

theorem retry_backoff_exact_witness:
  "\<exists>m w w'. m_workers m ''/w'' = Some w \<and> w_pending w = [''a.go''] \<and> m_retryBase m = second \<and> m_retryMax m = 60 * second
    \<and> m_workers ((failedRound ''/w'' ''busy'' ^^ Suc 7) m) ''/w'' = Some w' \<and> w_timer w' = Some (60 * second)"
proof -
  let ?w = "\<lparr>w_status = \<lparr>st_Workspace = ''/w'', st_Running = True, st_Activity = 0, st_QueuedPaths = [''a.go''], st_Error = '''', st_IdleDeadline = 0\<rparr>,
    w_pending = [''a.go''], w_pendingSet = {''a.go''}, w_timer = Some 1, w_publishing = False, w_stopping = False, w_retryDelay = 0,
    w_reconcileTimer = None\<rparr>"
  let ?m = "setWorker ''/w'' ?w (NewManager [])"
  have "manager_ok ?m" by (simp add: NewManager_ok)
  from retry_backoff_exact[OF this, of "''/w''" ?w 7 "''busy''"] obtain w' where
    "m_workers ((failedRound ''/w'' ''busy'' ^^ Suc 7) ?m) ''/w'' = Some w'"
    "w_timer w' = Some (min (m_retryBase ?m * 2 ^ 7) (m_retryMax ?m))" by auto
  moreover have "m_retryBase ?m = second" "m_retryMax ?m = 60 * second" by (simp_all add: NewManager_def)
  ultimately show ?thesis by (intro exI[of _ ?m] exI[of _ ?w] exI[of _ w']) (simp add: second_def)
qed

subsection \<open>Calls that fail half-way\<close>

lemma enqueueEvents_split:
  assumes "\<forall>e\<in>set good. \<exists>p. normalizeEventPath ws e = Inr p" "normalizeEventPath ws bad = Inl d"
  shows "enqueueEvents ws (good @ bad # rest) w = (Some d, snd (enqueueEvents ws good w)) \<and> fst (enqueueEvents ws good w) = None"
  using assms(1)
proof (induction good arbitrary: w)
  case Nil
  then show ?case using assms(2) by simp
next
  case (Cons e good)
  then obtain p where "normalizeEventPath ws e = Inr p" by auto
  with Cons show ?case by simp
qed

text \<open>A refused event: when an event of a batch is refused, the call fails with that event's error, yet
  the paths of the events before it stay queued, while neither the timer nor the reported queue of the
  worker changes; so on an idle worker they wait, unreported, until another batch is accepted.\<close>

theorem refused_event_strands_earlier_ones:
  assumes "m_workers m ws = Some w" "\<not> w_stopping w" "distinct (w_pending w)" "w_pendingSet w = set (w_pending w)"
    and "\<forall>e\<in>set good. \<exists>p. normalizeEventPath ws e = Inr p" "normalizeEventPath ws bad = Inl d"
  shows "\<exists>m' w'. Enqueue ws (good @ bad # rest) m = (Some d, m') \<and> m_workers m' ws = Some w'
    \<and> set (w_pending w') = set (w_pending w) \<union> eventPaths ws good \<and> w_timer w' = w_timer w \<and> w_status w' = w_status w"
proof -
  obtain w1 where w1: "enqueueEvents ws good w = (None, w1)" "enqueueEvents ws (good @ bad # rest) w = (Some d, w1)"
    using enqueueEvents_split[OF assms(5,6), of rest w] by (cases "enqueueEvents ws good w") auto
  from enqueueEvents_props[OF assms(3,4) w1(1)] have p: "set (w_pending w1) = set (w_pending w) \<union> eventPaths ws good"
    and u: "w1 = w\<lparr>w_pending := w_pending w1, w_pendingSet := w_pendingSet w1\<rparr>" by blast+
  have "w_timer w1 = w_timer w \<and> w_status w1 = w_status w" by (subst (1 2) u) simp
  with p w1(2) assms(1,2) show ?thesis by (simp add: Enqueue_def)
qed

theorem refused_event_strands_earlier_ones_witness:
  "\<exists>m m' w'. m_workers m ''/w'' \<noteq> None \<and> Enqueue ''/w'' [sample_event, ''''] m = (Some EventPathRequired, m')
    \<and> m_workers m' ''/w'' = Some w' \<and> set (w_pending w') = {''a.go''} \<and> w_timer w' = None \<and> st_QueuedPaths (w_status w') = []"
proof -
  define m where "m = snd (projr (Start None 0 ''/w'' (NewManager [])))"
  obtain w where w: "m_workers m ''/w'' = Some w" "\<not> w_stopping w" "w_pending w = []" "w_pendingSet w = {}" "w_timer w = None"
    "st_QueuedPaths (w_status w) = []"
    by (simp add: m_def Start_def NewManager_workers Let_def)
  have good: "\<forall>e\<in>set [sample_event]. \<exists>p. normalizeEventPath ''/w'' e = Inr p" using sample_normalized by simp
  have bad: "normalizeEventPath ''/w'' '''' = Inl EventPathRequired" by (simp add: normalizeEventPath_def)
  have "eventPaths ''/w'' [sample_event] = {''a.go''}" using sample_normalized by (auto simp: eventPaths_def)
  with refused_event_strands_earlier_ones[OF w(1,2) _ _ good bad, of "[]"] w(3,4) obtain m' w' where
    "Enqueue ''/w'' [sample_event, ''''] m = (Some EventPathRequired, m')" "m_workers m' ''/w'' = Some w'"
    "set (w_pending w') = {''a.go''}" "w_timer w' = w_timer w" "w_status w' = w_status w" by auto
  with w(1,5,6) show ?thesis by (intro exI[of _ m] exI[of _ m'] exI[of _ w']) simp
qed

end
