(* ===== verification/Sha256.thy ===== *)
theory Sha256
  imports Prelude "HOL-Library.Word"
begin

unbundle bit_operations_syntax

text \<open>
  The digest the repository takes from Go's crypto/sha256 and the hexadecimal rendering from
  encoding/hex, over byte strings (lists of characters).  The compression function follows FIPS
  180-4 on 32-bit words; only that it is a function of the written bytes matters to the proofs.
\<close>

definition word_bytes :: "nat \<Rightarrow> nat \<Rightarrow> string" where
  "word_bytes n v = map (\<lambda>i. char_of (v div 256 ^ i)) (rev [0..<n])"

definition bytes_nat :: "string \<Rightarrow> nat" where
  "bytes_nat = foldl (\<lambda>a c. a * 256 + of_char c) 0"

lemma length_word_bytes [simp]: "length (word_bytes n v) = n"
  by (simp add: word_bytes_def)

lemma word_bytes_Suc: "word_bytes (Suc n) v = word_bytes n (v div 256) @ [char_of v]"
proof -
  have r: "rev [0..<Suc n] = map Suc (rev [0..<n]) @ [0]"
    by (metis map_Suc_upt map_append rev_map rev.simps(2) upt_conv_Cons zero_less_Suc)
  show ?thesis
    unfolding word_bytes_def r by (simp add: div_mult2_eq)
qed

lemma bytes_nat_snoc [simp]: "bytes_nat (xs @ [c]) = bytes_nat xs * 256 + of_char c"
  by (simp add: bytes_nat_def)

lemma bytes_nat_word_bytes: "bytes_nat (word_bytes n v) = v mod 256 ^ n"
proof (induction n arbitrary: v)
  case 0
  then show ?case by (simp add: word_bytes_def bytes_nat_def)
next
  case (Suc n)
  then show ?case
    by (simp add: word_bytes_Suc mod_mult2_eq ac_simps)
qed

lemma word_bytes_inj:
  "word_bytes n v = word_bytes n w \<Longrightarrow> v < 256 ^ n \<Longrightarrow> w < 256 ^ n \<Longrightarrow> v = w"
  by (metis bytes_nat_word_bytes mod_less)

text \<open>
  The round constants are the first 32 bits of the fractional parts of the cube roots of the first
  64 primes, the initial state those of the square roots of the first 8: integer roots of scaled
  primes, found bit by bit.
\<close>

fun integer_root :: "nat \<Rightarrow> nat \<Rightarrow> nat \<Rightarrow> nat \<Rightarrow> nat" where
  "integer_root k n 0 acc = acc"
| "integer_root k n (Suc b) acc =
    (if (acc + 2 ^ b) ^ k \<le> n then integer_root k n b (acc + 2 ^ b) else integer_root k n b acc)"

definition small_primes :: "nat list" where
  "small_primes = filter (\<lambda>n. list_all (\<lambda>d. n mod d \<noteq> 0) [2..<n]) [2..<312]"

definition sha_k :: "32 word list" where
  "sha_k = map (\<lambda>p. of_nat (integer_root 3 (p * 2 ^ 96) 36 0)) small_primes"

definition sha_initial :: "32 word list" where
  "sha_initial = map (\<lambda>p. of_nat (integer_root 2 (p * 2 ^ 64) 36 0)) (take 8 small_primes)"

definition rotr :: "nat \<Rightarrow> 32 word \<Rightarrow> 32 word" where
  "rotr n x = (drop_bit n x) OR (push_bit (32 - n) x)"

fun sha_schedule :: "nat \<Rightarrow> 32 word list \<Rightarrow> 32 word list" where
  "sha_schedule 0 ws = ws"
| "sha_schedule (Suc n) ws =
    (let t = length ws; a = ws ! (t - 15); b = ws ! (t - 2);
         s0 = rotr 7 a XOR rotr 18 a XOR drop_bit 3 a;
         s1 = rotr 17 b XOR rotr 19 b XOR drop_bit 10 b
     in sha_schedule n (ws @ [ws ! (t - 16) + s0 + ws ! (t - 7) + s1]))"

definition sha_round :: "32 word \<times> 32 word \<Rightarrow> 32 word list \<Rightarrow> 32 word list" where
  "sha_round kw st = (case st of
     [a, b, c, d, e, f, g, h] \<Rightarrow>
       let s1 = rotr 6 e XOR rotr 11 e XOR rotr 25 e;
           ch = (e AND f) XOR (NOT e AND g);
           t1 = h + s1 + ch + fst kw + snd kw;
           s0 = rotr 2 a XOR rotr 13 a XOR rotr 22 a;
           maj = (a AND b) XOR (a AND c) XOR (b AND c)
       in [t1 + s0 + maj, a, b, c, d + t1, e, f, g]
   | _ \<Rightarrow> st)"

definition sha_block :: "32 word list \<Rightarrow> 32 word list \<Rightarrow> 32 word list" where
  "sha_block st block = map2 (+) st (fold sha_round (zip sha_k (sha_schedule 48 block)) st)"

definition sha_pad :: "string \<Rightarrow> string" where
  "sha_pad m = m @ [char_of (128 :: nat)] @ replicate ((119 - length m mod 64) mod 64) (char_of (0 :: nat))
    @ word_bytes 8 (8 * length m)"

fun chunks :: "nat \<Rightarrow> 'a list \<Rightarrow> 'a list list" where
  "chunks n xs = (if n = 0 \<or> xs = [] then [] else take n xs # chunks n (drop n xs))"

declare chunks.simps [simp del]

definition sha256 :: "string \<Rightarrow> string" where
  "sha256 m = concat (map (word_bytes 4 \<circ> unat)
     (fold (\<lambda>block st. sha_block st (map (of_nat \<circ> bytes_nat) (chunks 4 block)))
       (chunks 64 (sha_pad m))
       sha_initial))"

definition hex_encode :: "string \<Rightarrow> string" where
  "hex_encode s = concat (map (\<lambda>c. [''0123456789abcdef'' ! (of_char c div 16), ''0123456789abcdef'' ! (of_char c mod 16)]) s)"

lemma length_hex_encode [simp]: "length (hex_encode s) = 2 * length s"
  by (induction s) (simp_all add: hex_encode_def)

end
