(* ===== verification/GraphFacts.thy ===== *)
theory GraphFacts
  imports Sha256
begin

text \<open>
  graph/facts.go: the fact model (spans, evidence, nodes, edges), node identities, and the
  vocabulary that validates a set of facts.  Node and relation kinds and confidences are strings,
  as in the code.  The declarative specification of accepted vocabularies and facts is proved
  equivalent to the early-return loops.
\<close>

type_synonym NodeKind = string
type_synonym RelationKind = string
type_synonym Confidence = string

record SourceSpan =
  span_Path :: string
  span_StartLine :: int
  span_StartColumn :: int
  span_EndLine :: int
  span_EndColumn :: int

definition ConfidenceExtracted :: Confidence where "ConfidenceExtracted = ''extracted''"
definition ConfidenceInferred :: Confidence where "ConfidenceInferred = ''inferred''"
definition ConfidenceAmbiguous :: Confidence where "ConfidenceAmbiguous = ''ambiguous''"

record FactEvidence =
  ev_Span :: SourceSpan
  ev_FileHash :: string
  ev_Extractor :: string
  ev_Provenance :: string
  ev_Confidence :: Confidence

record Node =
  node_ID :: string
  node_Kind :: NodeKind
  node_Label :: string
  node_QualifiedName :: string
  node_Evidence :: FactEvidence

record Edge =
  edge_SourceID :: string
  edge_TargetID :: string
  edge_Relation :: RelationKind
  edge_Evidence :: FactEvidence

record Facts =
  facts_Nodes :: "Node list"
  facts_Edges :: "Edge list"

record EndpointRule =
  rule_Source :: NodeKind
  rule_Target :: NodeKind

record RelationDefinition =
  rel_Kind :: RelationKind
  rel_Endpoints :: "EndpointRule list"

record VocabularyDefinition =
  def_NodeKinds :: "NodeKind list"
  def_Relations :: "RelationDefinition list"

datatype ValidationCode =
    UnknownNodeKind | UnknownRelationKind | InvalidRelationEndpoint | MissingSourceNode
  | MissingTargetNode | DuplicateNodeID | EmptyNodeID | EmptyNodeKind | DuplicateNodeKind
  | EmptyRelationKind | DuplicateRelationKind | EmptyRelationEndpoints | MissingFactEvidence
  | InvalidFactConfidence | InvalidSourceSpan

text \<open>The detail of an error is the list of values its format string interpolates.\<close>

datatype ValidationError = ValidationError (err_Code: ValidationCode) (err_Detail: "string list")

record Vocabulary =
  voc_nodeKinds :: "NodeKind set"
  voc_relations :: "RelationKind \<rightharpoonup> RelationDefinition"

subsection \<open>Node identities\<close>

definition writeIdentityString :: "string \<Rightarrow> string" where
  "writeIdentityString value = word_bytes 4 (unat (of_nat (length value) :: 32 word)) @ value"

definition writeIdentityInt :: "int \<Rightarrow> string" where
  "writeIdentityInt value = word_bytes 8 (unat (of_int value :: 64 word))"

definition identityBytes :: "NodeKind \<Rightarrow> SourceSpan \<Rightarrow> string" where
  "identityBytes kind span =
     writeIdentityString kind @ writeIdentityString (span_Path span)
     @ writeIdentityInt (span_StartLine span) @ writeIdentityInt (span_StartColumn span)
     @ writeIdentityInt (span_EndLine span) @ writeIdentityInt (span_EndColumn span)"

definition NewNodeID :: "NodeKind \<Rightarrow> SourceSpan \<Rightarrow> string" where
  "NewNodeID kind span = kind @ '':'' @ hex_encode (sha256 (identityBytes kind span))"

definition int64 :: "int \<Rightarrow> bool" where
  "int64 i \<longleftrightarrow> - (2 ^ 63) \<le> i \<and> i < 2 ^ 63"

definition span_int64 :: "SourceSpan \<Rightarrow> bool" where
  "span_int64 s \<longleftrightarrow> int64 (span_StartLine s) \<and> int64 (span_StartColumn s)
     \<and> int64 (span_EndLine s) \<and> int64 (span_EndColumn s)"

lemma writeIdentityString_append_inj:
  assumes "writeIdentityString a @ xs = writeIdentityString b @ ys"
    and "length a < 2 ^ 32" "length b < 2 ^ 32"
  shows "a = b \<and> xs = ys"
proof -
  have l: "unat (of_nat (length c) :: 32 word) = length c" if "length c < 2 ^ 32" for c :: string
    using that by (simp add: unat_of_nat)
  from assms have h: "word_bytes 4 (length a) = word_bytes 4 (length b)" "a @ xs = b @ ys"
    by (simp_all add: writeIdentityString_def l)
  from h(1) assms(2,3) have "length a = length b"
    by (intro word_bytes_inj[of 4]) simp_all
  with h(2) show ?thesis by simp
qed

lemma writeIdentityInt_append_inj:
  assumes "writeIdentityInt i @ xs = writeIdentityInt j @ ys" and "int64 i" "int64 j"
  shows "i = j \<and> xs = ys"
proof -
  from assms(1) have h: "writeIdentityInt i = writeIdentityInt j" "xs = ys"
    by (simp_all add: writeIdentityInt_def)
  from h(1) have u: "unat (of_int i :: 64 word) = unat (of_int j :: 64 word)"
    unfolding writeIdentityInt_def
    by (rule word_bytes_inj) (use unsigned_less[of "of_int i :: 64 word"]
        unsigned_less[of "of_int j :: 64 word"] in simp_all)
  then have w: "(of_int i :: 64 word) = of_int j"
    by (rule unsigned_word_eqI)
  have "i mod 2 ^ 64 = j mod 2 ^ 64"
    using arg_cong[OF w, of uint] by (simp add: uint_word_of_int)
  then have "2 ^ 64 dvd i - j" by (simp add: mod_eq_dvd_iff)
  then obtain k where "i - j = 2 ^ 64 * k" by blast
  moreover from this assms(2,3) have "k = 0" unfolding int64_def by simp
  ultimately have "i = j" by simp
  with h(2) show ?thesis by simp
qed

lemma identityBytes_inj:
  assumes "identityBytes k s = identityBytes k' s'"
    and "length k < 2 ^ 32" "length k' < 2 ^ 32"
    and "length (span_Path s) < 2 ^ 32" "length (span_Path s') < 2 ^ 32"
    and "span_int64 s" "span_int64 s'"
  shows "k = k' \<and> s = s'"
proof -
  note i = assms(6,7)[unfolded span_int64_def]
  from assms(1) have 1: "k = k'" and r1: "writeIdentityString (span_Path s)
      @ writeIdentityInt (span_StartLine s) @ writeIdentityInt (span_StartColumn s)
      @ writeIdentityInt (span_EndLine s) @ writeIdentityInt (span_EndColumn s)
    = writeIdentityString (span_Path s')
      @ writeIdentityInt (span_StartLine s') @ writeIdentityInt (span_StartColumn s')
      @ writeIdentityInt (span_EndLine s') @ writeIdentityInt (span_EndColumn s')"
    unfolding identityBytes_def using writeIdentityString_append_inj assms(2,3) by blast+
  from writeIdentityString_append_inj[OF r1] assms(4,5)
  have 2: "span_Path s = span_Path s'" and r2: "writeIdentityInt (span_StartLine s)
      @ writeIdentityInt (span_StartColumn s)
      @ writeIdentityInt (span_EndLine s) @ writeIdentityInt (span_EndColumn s)
    = writeIdentityInt (span_StartLine s') @ writeIdentityInt (span_StartColumn s')
      @ writeIdentityInt (span_EndLine s') @ writeIdentityInt (span_EndColumn s')"
    by auto
  from writeIdentityInt_append_inj[OF r2] i
  have 3: "span_StartLine s = span_StartLine s'" and r3: "writeIdentityInt (span_StartColumn s)
      @ writeIdentityInt (span_EndLine s) @ writeIdentityInt (span_EndColumn s)
    = writeIdentityInt (span_StartColumn s')
      @ writeIdentityInt (span_EndLine s') @ writeIdentityInt (span_EndColumn s')" by auto
  from writeIdentityInt_append_inj[OF r3] i
  have 4: "span_StartColumn s = span_StartColumn s'" and r4: "writeIdentityInt (span_EndLine s)
      @ writeIdentityInt (span_EndColumn s)
    = writeIdentityInt (span_EndLine s') @ writeIdentityInt (span_EndColumn s')" by auto
  from writeIdentityInt_append_inj[OF r4] i
  have 5: "span_EndLine s = span_EndLine s'"
    and r5: "writeIdentityInt (span_EndColumn s) @ [] = writeIdentityInt (span_EndColumn s') @ []"
    by auto
  from writeIdentityInt_append_inj[OF r5] i have 6: "span_EndColumn s = span_EndColumn s'" by auto
  from 1 2 3 4 5 6 show ?thesis by (cases s; cases s') simp
qed

subsection \<open>Vocabularies\<close>

definition addNodeKind :: "NodeKind \<Rightarrow> NodeKind set \<Rightarrow> ValidationError + NodeKind set" where
  "addNodeKind kind nodeKinds =
    (if kind = '''' then Inl (ValidationError EmptyNodeKind [])
     else if kind \<in> nodeKinds then Inl (ValidationError DuplicateNodeKind [kind])
     else Inr (insert kind nodeKinds))"

definition checkEndpoint :: "NodeKind set \<Rightarrow> RelationKind \<Rightarrow> EndpointRule \<Rightarrow> ValidationError error" where
  "checkEndpoint nodeKinds relation endpoint =
    (if rule_Source endpoint \<notin> nodeKinds
     then Some (ValidationError UnknownNodeKind [relation, rule_Source endpoint])
     else if rule_Target endpoint \<notin> nodeKinds
     then Some (ValidationError UnknownNodeKind [relation, rule_Target endpoint])
     else None)"

definition addRelation :: "NodeKind set \<Rightarrow> RelationDefinition
    \<Rightarrow> (RelationKind \<rightharpoonup> RelationDefinition) \<Rightarrow> ValidationError + (RelationKind \<rightharpoonup> RelationDefinition)" where
  "addRelation nodeKinds relation relations =
    (if rel_Kind relation = '''' then Inl (ValidationError EmptyRelationKind [])
     else if relations (rel_Kind relation) \<noteq> None
     then Inl (ValidationError DuplicateRelationKind [rel_Kind relation])
     else if rel_Endpoints relation = []
     then Inl (ValidationError EmptyRelationEndpoints [rel_Kind relation])
     else (case first_err (checkEndpoint nodeKinds (rel_Kind relation)) (rel_Endpoints relation) of
             Some e \<Rightarrow> Inl e
           | None \<Rightarrow> Inr (relations(rel_Kind relation \<mapsto> relation))))"

definition NewVocabulary :: "VocabularyDefinition \<Rightarrow> ValidationError + Vocabulary" where
  "NewVocabulary def =
     res_bind (fold_res addNodeKind (def_NodeKinds def) {}) (\<lambda>nodeKinds.
     res_bind (fold_res (addRelation nodeKinds) (def_Relations def) Map.empty) (\<lambda>relations.
     Inr \<lparr>voc_nodeKinds = nodeKinds, voc_relations = relations\<rparr>))"

text \<open>Specification: which definitions are accepted and what vocabulary they yield.\<close>

definition endpoint_registered :: "NodeKind set \<Rightarrow> EndpointRule \<Rightarrow> bool" where
  "endpoint_registered K e \<longleftrightarrow> rule_Source e \<in> K \<and> rule_Target e \<in> K"

definition definition_wf :: "VocabularyDefinition \<Rightarrow> bool" where
  "definition_wf d \<longleftrightarrow>
     distinct (def_NodeKinds d) \<and> '''' \<notin> set (def_NodeKinds d)
     \<and> distinct (map rel_Kind (def_Relations d)) \<and> '''' \<notin> rel_Kind ` set (def_Relations d)
     \<and> (\<forall>r\<in>set (def_Relations d). rel_Endpoints r \<noteq> []
          \<and> (\<forall>e\<in>set (rel_Endpoints r). endpoint_registered (set (def_NodeKinds d)) e))"

lemma fold_addNodeKind:
  "fold_res addNodeKind ks K = Inr K' \<longleftrightarrow>
     distinct ks \<and> '''' \<notin> set ks \<and> set ks \<inter> K = {} \<and> K' = set ks \<union> K"
proof (induction ks arbitrary: K)
  case Nil
  then show ?case by auto
next
  case (Cons k ks)
  then show ?case by (auto simp: addNodeKind_def)
qed

lemma checkEndpoint_None [simp]: "checkEndpoint K r e = None \<longleftrightarrow> endpoint_registered K e"
  by (simp add: checkEndpoint_def endpoint_registered_def)

definition relation_map :: "RelationDefinition list \<Rightarrow> RelationKind \<rightharpoonup> RelationDefinition" where
  "relation_map = keyed_map rel_Kind (\<lambda>r. r)"

lemma addRelation_Inr:
  "addRelation K r m = Inr m' \<longleftrightarrow> rel_Kind r \<noteq> '''' \<and> rel_Kind r \<notin> dom m \<and> rel_Endpoints r \<noteq> []
     \<and> (\<forall>e\<in>set (rel_Endpoints r). endpoint_registered K e) \<and> m' = m(rel_Kind r \<mapsto> r)"
  by (auto simp: addRelation_def)

lemma fold_addRelation:
  "fold_res (addRelation K) rs m = Inr m' \<longleftrightarrow>
     distinct (map rel_Kind rs) \<and> '''' \<notin> rel_Kind ` set rs \<and> rel_Kind ` set rs \<inter> dom m = {}
     \<and> (\<forall>r\<in>set rs. rel_Endpoints r \<noteq> [] \<and> (\<forall>e\<in>set (rel_Endpoints r). endpoint_registered K e))
     \<and> m' = m ++ relation_map rs"
proof (induction rs arbitrary: m)
  case Nil
  then show ?case by (auto simp: relation_map_def)
next
  case (Cons r rs)
  have step: "fold_res (addRelation K) (r # rs) m = Inr m' \<longleftrightarrow>
      (\<exists>m1. addRelation K r m = Inr m1 \<and> fold_res (addRelation K) rs m1 = Inr m')"
    by (auto split: sum.splits)
  have upd: "m(rel_Kind r \<mapsto> r) ++ relation_map rs = m ++ relation_map (r # rs)"
    if "rel_Kind r \<notin> rel_Kind ` set rs"
    using that keyed_map_upd_add[of rel_Kind r rs m "\<lambda>r. r"] by (simp add: relation_map_def)
  show ?case
    unfolding step addRelation_Inr using upd by (auto simp: Cons.IH)
qed

lemma NewVocabulary_Inr:
  "NewVocabulary d = Inr v \<longleftrightarrow> definition_wf d
     \<and> v = \<lparr>voc_nodeKinds = set (def_NodeKinds d), voc_relations = relation_map (def_Relations d)\<rparr>"
  by (auto simp: NewVocabulary_def res_bind_Inr fold_addNodeKind fold_addRelation definition_wf_def)

subsection \<open>Validation of facts\<close>

definition validateEvidence :: "FactEvidence \<Rightarrow> ValidationError error" where
  "validateEvidence evidence = (let s = ev_Span evidence in
    if span_Path s = '''' \<or> span_StartLine s < 1 \<or> span_StartColumn s < 1 \<or> span_EndLine s < 1
       \<or> span_EndColumn s < 1 \<or> ev_FileHash evidence = '''' \<or> ev_Extractor evidence = ''''
       \<or> ev_Provenance evidence = ''''
    then Some (ValidationError MissingFactEvidence [])
    else if span_StartLine s > span_EndLine s
       \<or> (span_StartLine s = span_EndLine s \<and> span_StartColumn s > span_EndColumn s)
    then Some (ValidationError InvalidSourceSpan [])
    else if ev_Confidence evidence \<noteq> ConfidenceExtracted \<and> ev_Confidence evidence \<noteq> ConfidenceInferred
       \<and> ev_Confidence evidence \<noteq> ConfidenceAmbiguous
    then Some (ValidationError InvalidFactConfidence [ev_Confidence evidence])
    else None)"

definition validateNode :: "Vocabulary \<Rightarrow> Node \<Rightarrow> (string \<rightharpoonup> NodeKind)
    \<Rightarrow> ValidationError + (string \<rightharpoonup> NodeKind)" where
  "validateNode v node nodeKindsByID =
    (if node_ID node = '''' then Inl (ValidationError EmptyNodeID [])
     else if node_Kind node \<notin> voc_nodeKinds v
     then Inl (ValidationError UnknownNodeKind [node_ID node, node_Kind node])
     else (case validateEvidence (node_Evidence node) of Some e \<Rightarrow> Inl e
       | None \<Rightarrow> if nodeKindsByID (node_ID node) \<noteq> None
           then Inl (ValidationError DuplicateNodeID [node_ID node])
           else Inr (nodeKindsByID(node_ID node \<mapsto> node_Kind node))))"

definition validateEdge :: "Vocabulary \<Rightarrow> (string \<rightharpoonup> NodeKind) \<Rightarrow> Edge \<Rightarrow> ValidationError error" where
  "validateEdge v nodeKindsByID edge =
    (case voc_relations v (edge_Relation edge) of
       None \<Rightarrow> Some (ValidationError UnknownRelationKind
                  [edge_SourceID edge, edge_TargetID edge, edge_Relation edge])
     | Some relation \<Rightarrow>
         (case validateEvidence (edge_Evidence edge) of Some e \<Rightarrow> Some e
          | None \<Rightarrow>
            (case nodeKindsByID (edge_SourceID edge) of
               None \<Rightarrow> Some (ValidationError MissingSourceNode [edge_SourceID edge])
             | Some sourceKind \<Rightarrow>
               (case nodeKindsByID (edge_TargetID edge) of
                  None \<Rightarrow> Some (ValidationError MissingTargetNode [edge_TargetID edge])
                | Some targetKind \<Rightarrow>
                    if list_ex (\<lambda>endpoint. rule_Source endpoint = sourceKind
                          \<and> rule_Target endpoint = targetKind) (rel_Endpoints relation)
                    then None
                    else Some (ValidationError InvalidRelationEndpoint
                           [edge_Relation edge, sourceKind, targetKind])))))"

definition Validate :: "Vocabulary \<Rightarrow> Facts \<Rightarrow> ValidationError error" where
  "Validate v facts =
    (case fold_res (validateNode v) (facts_Nodes facts) Map.empty of
       Inl e \<Rightarrow> Some e
     | Inr nodeKindsByID \<Rightarrow> first_err (validateEdge v nodeKindsByID) (facts_Edges facts))"

text \<open>Specification: accepted facts.\<close>

definition evidence_ok :: "FactEvidence \<Rightarrow> bool" where
  "evidence_ok e \<longleftrightarrow> validateEvidence e = None"

definition node_ok :: "Vocabulary \<Rightarrow> Node \<Rightarrow> bool" where
  "node_ok v n \<longleftrightarrow> node_ID n \<noteq> '''' \<and> node_Kind n \<in> voc_nodeKinds v \<and> evidence_ok (node_Evidence n)"

definition edge_ok :: "Vocabulary \<Rightarrow> Node list \<Rightarrow> Edge \<Rightarrow> bool" where
  "edge_ok v ns e \<longleftrightarrow> evidence_ok (edge_Evidence e)
     \<and> (\<exists>r s t. voc_relations v (edge_Relation e) = Some r \<and> s \<in> set ns \<and> t \<in> set ns
          \<and> node_ID s = edge_SourceID e \<and> node_ID t = edge_TargetID e
          \<and> \<lparr>rule_Source = node_Kind s, rule_Target = node_Kind t\<rparr> \<in> set (rel_Endpoints r))"

definition facts_valid :: "Vocabulary \<Rightarrow> Facts \<Rightarrow> bool" where
  "facts_valid v F \<longleftrightarrow> distinct (map node_ID (facts_Nodes F)) \<and> (\<forall>n\<in>set (facts_Nodes F). node_ok v n)
     \<and> (\<forall>e\<in>set (facts_Edges F). edge_ok v (facts_Nodes F) e)"

definition node_kind_map :: "Node list \<Rightarrow> string \<rightharpoonup> NodeKind" where
  "node_kind_map = keyed_map node_ID node_Kind"

lemma validateNode_Inr:
  "validateNode v n m = Inr m' \<longleftrightarrow> node_ok v n \<and> node_ID n \<notin> dom m
     \<and> m' = m(node_ID n \<mapsto> node_Kind n)"
  by (auto simp: validateNode_def node_ok_def evidence_ok_def split: option.splits)

lemma fold_validateNode:
  "fold_res (validateNode v) ns m = Inr m' \<longleftrightarrow> (\<forall>n\<in>set ns. node_ok v n) \<and> distinct (map node_ID ns)
     \<and> node_ID ` set ns \<inter> dom m = {} \<and> m' = m ++ node_kind_map ns"
proof (induction ns arbitrary: m)
  case Nil
  then show ?case by (auto simp: node_kind_map_def)
next
  case (Cons n ns)
  have step: "fold_res (validateNode v) (n # ns) m = Inr m' \<longleftrightarrow>
      (\<exists>m1. validateNode v n m = Inr m1 \<and> fold_res (validateNode v) ns m1 = Inr m')"
    by (auto split: sum.splits)
  have upd: "m(node_ID n \<mapsto> node_Kind n) ++ node_kind_map ns = m ++ node_kind_map (n # ns)"
    if "node_ID n \<notin> node_ID ` set ns"
    using that keyed_map_upd_add[of node_ID n ns m node_Kind] by (simp add: node_kind_map_def)
  show ?case
    unfolding step validateNode_Inr using upd by (auto simp: Cons.IH)
qed

lemma node_kind_map_Some:
  "distinct (map node_ID ns) \<Longrightarrow> node_kind_map ns i = Some k \<longleftrightarrow>
     (\<exists>n\<in>set ns. node_ID n = i \<and> node_Kind n = k)"
  by (simp add: node_kind_map_def keyed_map_Some)

lemma validateEdge_None:
  assumes "distinct (map node_ID ns)"
  shows "validateEdge v (node_kind_map ns) e = None \<longleftrightarrow> edge_ok v ns e"
proof -
  have r: "(\<exists>x\<in>set xs. rule_Source x = a \<and> rule_Target x = b)
      \<longleftrightarrow> \<lparr>rule_Source = a, rule_Target = b\<rparr> \<in> set xs" for xs :: "EndpointRule list" and a b
    by (metis EndpointRule.cases EndpointRule.select_convs)
  have "validateEdge v (node_kind_map ns) e = None \<longleftrightarrow> evidence_ok (edge_Evidence e)
     \<and> (\<exists>r a b. voc_relations v (edge_Relation e) = Some r
          \<and> node_kind_map ns (edge_SourceID e) = Some a \<and> node_kind_map ns (edge_TargetID e) = Some b
          \<and> \<lparr>rule_Source = a, rule_Target = b\<rparr> \<in> set (rel_Endpoints r))"
    unfolding validateEdge_def evidence_ok_def
    by (auto simp: list_ex_iff r split: option.splits)
  then show ?thesis
    unfolding edge_ok_def node_kind_map_Some[OF assms] by blast
qed

lemma Validate_None: "Validate v F = None \<longleftrightarrow> facts_valid v F"
proof (cases "fold_res (validateNode v) (facts_Nodes F) Map.empty")
  case (Inl e)
  then have "\<not> ((\<forall>n\<in>set (facts_Nodes F). node_ok v n) \<and> distinct (map node_ID (facts_Nodes F)))"
    using fold_validateNode[of v "facts_Nodes F" Map.empty] by auto
  then show ?thesis using Inl by (auto simp: Validate_def facts_valid_def)
next
  case (Inr m)
  then show ?thesis
    using fold_validateNode[of v "facts_Nodes F" Map.empty m]
    by (auto simp: Validate_def facts_valid_def validateEdge_None)
qed

subsection \<open>Sample facts\<close>

definition sample_span :: SourceSpan where
  "sample_span = \<lparr>span_Path = ''a.go'', span_StartLine = 1, span_StartColumn = 1, span_EndLine = 2, span_EndColumn = 3\<rparr>"

definition sample_evidence :: FactEvidence where
  "sample_evidence = \<lparr>ev_Span = sample_span, ev_FileHash = ''h'', ev_Extractor = ''go'', ev_Provenance = ''p'',
     ev_Confidence = ''extracted''\<rparr>"

definition sample_node :: "string \<Rightarrow> NodeKind \<Rightarrow> Node" where
  "sample_node i k = \<lparr>node_ID = i, node_Kind = k, node_Label = i, node_QualifiedName = i, node_Evidence = sample_evidence\<rparr>"

definition sample_edge :: "string \<Rightarrow> string \<Rightarrow> RelationKind \<Rightarrow> Edge" where
  "sample_edge s t r = \<lparr>edge_SourceID = s, edge_TargetID = t, edge_Relation = r, edge_Evidence = sample_evidence\<rparr>"

definition sample_facts :: Facts where
  "sample_facts = \<lparr>facts_Nodes = [sample_node ''a'' ''file'', sample_node ''b'' ''go:function'', sample_node ''c'' ''go:function''],
     facts_Edges = [sample_edge ''a'' ''b'' ''defines'', sample_edge ''b'' ''c'' ''go:calls'', sample_edge ''a'' ''c'' ''defines'']\<rparr>"

lemmas sample_defs = sample_span_def sample_evidence_def sample_node_def sample_edge_def sample_facts_def

subsection \<open>Properties\<close>

text \<open>NewVocabulary accepts exactly the well-formed definitions (distinct, non-empty node and
  relation kinds, every relation with endpoint rules over registered kinds), and the vocabulary it
  returns holds exactly the declared kinds and relations.\<close>

theorem vocabulary_accepts_exactly_wellformed:
  "NewVocabulary d = Inr v \<longleftrightarrow> definition_wf d
     \<and> v = \<lparr>voc_nodeKinds = set (def_NodeKinds d), voc_relations = keyed_map rel_Kind (\<lambda>r. r) (def_Relations d)\<rparr>"
  using NewVocabulary_Inr[of d v] unfolding relation_map_def .

text \<open>C36: Validate reports no error exactly for facts with distinct, registered and evidenced nodes
  whose edges use a registered relation, join two of those nodes and match one of the relation's
  endpoint rules.\<close>

theorem validation_accepts_exactly_valid_facts:
  "Validate v F = None \<longleftrightarrow> facts_valid v F"
  by (rule Validate_None)

text \<open>The bytes hashed into a node identity determine the kind and the whole span, as long as
  the strings are shorter than 4 GiB and the positions are 64-bit integers; two different facts
  share an identity only through a digest collision.\<close>

theorem node_identity_injective:
  assumes "identityBytes k s = identityBytes k' s'"
    and "length k < 2 ^ 32" "length k' < 2 ^ 32"
    and "length (span_Path s) < 2 ^ 32" "length (span_Path s') < 2 ^ 32"
    and "span_int64 s" "span_int64 s'"
  shows "k = k' \<and> s = s'"
  using assms by (rule identityBytes_inj)

lemma node_identity_injective_witness:
  "\<exists>s'. identityBytes ''file'' sample_span = identityBytes ''file'' s' \<and> ''file'' = ''file'' \<and> sample_span = s'"
proof (intro exI[of _ sample_span] conjI)
  show "sample_span = sample_span"
    using node_identity_injective[of "''file''" sample_span "''file''" sample_span]
    by (simp add: sample_span_def span_int64_def int64_def)
qed simp_all

end
