(* ===== verification/Storage.thy ===== *)
theory Storage
  imports GraphFacts Complex_Main
begin

text \<open>
  storage/storage.go: the requests, results and errors exchanged between the query layer and the
  store.  Contexts are not modelled (no cancellation).  A graph version counts
  publications from 1 and is a natural number.  Store errors are the exported sentinel errors, plus an error of the underlying
  database carrying its text.
\<close>

type_synonym GraphVersion = nat

text \<open>The finite values of a float64; where its rounding matters the arithmetic is a parameter.\<close>

type_synonym float64 = rat

datatype StoreError =
    ErrWorkspaceNotFound | ErrGraphVersionNotFound | ErrGraphVersionPruned | ErrInvalidRequest
  | ErrSpendLimitExceeded | ErrNodeNotFound string | ErrDatabase string

record Snapshot =
  snap_Workspace :: string
  snap_Version :: GraphVersion
  snap_PublishedAt :: int

record NodeLookupRequest =
  look_Text :: string
  look_Kinds :: "NodeKind list"
  look_ProjectIDs :: "string list"
  look_Limit :: int

record NodeMatch =
  match_Node :: Node
  match_Score :: float64

type_synonym TraversalDirection = string

definition TraverseIncoming :: TraversalDirection where "TraverseIncoming = ''incoming''"
definition TraverseOutgoing :: TraversalDirection where "TraverseOutgoing = ''outgoing''"
definition TraverseBoth :: TraversalDirection where "TraverseBoth = ''both''"

record TraversalRequest =
  trav_StartNodeIDs :: "string list"
  trav_ProjectIDs :: "string list"
  trav_Direction :: TraversalDirection
  trav_Relations :: "RelationKind list"
  trav_MaxDepth :: int
  trav_MaxNodes :: int

datatype TruncationReason = TruncatedByDepthLimit | TruncatedByNodeLimit

record TraversalResult =
  tres_Facts :: Facts
  tres_TruncationReasons :: "TruncationReason list"
  tres_ScopeBoundary :: "Node option"

definition Truncated :: "TraversalResult \<Rightarrow> bool" where
  "Truncated result \<longleftrightarrow> length (tres_TruncationReasons result) > 0"

record Explanation =
  expl_Node :: Node
  expl_SupportingFacts :: Facts

record FactCounts =
  count_Nodes :: int
  count_Edges :: int

text \<open>The zero values of Go, read from a map under a missing key.\<close>

definition zero_Evidence :: FactEvidence where
  "zero_Evidence = \<lparr>ev_Span = \<lparr>span_Path = '''', span_StartLine = 0, span_StartColumn = 0,
     span_EndLine = 0, span_EndColumn = 0\<rparr>, ev_FileHash = '''', ev_Extractor = '''',
     ev_Provenance = '''', ev_Confidence = ''''\<rparr>"

definition zero_Node :: Node where
  "zero_Node = \<lparr>node_ID = '''', node_Kind = '''', node_Label = '''', node_QualifiedName = '''',
     node_Evidence = zero_Evidence\<rparr>"

definition zero_Edge :: Edge where
  "zero_Edge = \<lparr>edge_SourceID = '''', edge_TargetID = '''', edge_Relation = '''',
     edge_Evidence = zero_Evidence\<rparr>"

end
