(* ===== verification/Contribution.thy ===== *)
theory Contribution
  imports GraphFacts GoStrings
begin

text \<open>
  extractor/contracts.go, extractor/vocabulary.go and extractor/page_resolver_index.go: the
  contribution of one source file and its validation, extractor metadata, the resolver file view,
  language vocabularies, and the memoising resolver index.  Defensive slice copies are identities
  on values and are written out as such.
\<close>

subsection \<open>Data\<close>

record Metadata =
  md_Name :: string
  md_Version :: string
  md_Extensions :: "string list"

record CatalogUnit =
  cu_NodeID :: string
  cu_Name :: string
  cu_Kind :: NodeKind
  cu_Owner :: string
  cu_Signature :: string
  cu_DeclarationSource :: string
  cu_Comments :: "string list"
  cu_IdentifierTokens :: "string list"

record ModuleBinding =
  mb_ImportedName :: string
  mb_ExportedName :: string
  mb_LocalName :: string

definition ModuleReferenceImport :: string where "ModuleReferenceImport = ''import''"
definition ModuleReferenceReExport :: string where "ModuleReferenceReExport = ''re_export''"
definition ModuleReferenceRequire :: string where "ModuleReferenceRequire = ''require''"

record UnresolvedReference =
  ur_SourceID :: string
  ur_Target :: string
  ur_Kind :: string
  ur_Ambiguous :: bool
  ur_Bindings :: "ModuleBinding list"

record SymbolReference =
  sr_SourceID :: string
  sr_Target :: string
  sr_ReceiverType :: string
  sr_Relation :: RelationKind
  sr_Evidence :: FactEvidence

record ExportedSurface =
  es_NodeID :: string
  es_Name :: string

record Dependency =
  dep_SourcePath :: string
  dep_TargetPath :: string

definition DiagnosticError :: string where "DiagnosticError = ''error''"
definition DiagnosticWarning :: string where "DiagnosticWarning = ''warning''"
definition DiagnosticInfo :: string where "DiagnosticInfo = ''info''"

record Diagnostic =
  dg_Severity :: string
  dg_Message :: string

record ContributionInput =
  ci_ProjectID :: string
  ci_SourcePath :: string
  ci_Metadata :: Metadata
  ci_Facts :: Facts
  ci_CatalogUnits :: "CatalogUnit list"
  ci_UnresolvedReferences :: "UnresolvedReference list"
  ci_SymbolReferences :: "SymbolReference list"
  ci_ExportedSurfaces :: "ExportedSurface list"
  ci_Dependencies :: "Dependency list"
  ci_Diagnostics :: "Diagnostic list"

record Contribution =
  c_projectID :: string
  c_sourcePath :: string
  c_metadata :: Metadata
  c_facts :: Facts
  c_catalogUnits :: "CatalogUnit list"
  c_unresolvedReferences :: "UnresolvedReference list"
  c_symbolReferences :: "SymbolReference list"
  c_exportedSurfaces :: "ExportedSurface list"
  c_dependencies :: "Dependency list"
  c_diagnostics :: "Diagnostic list"

record GraphUpdate =
  gu_contributions :: "Contribution list"

datatype ContributionError =
    UpdateEmpty | SourcePathEmpty
  | ExtractorNameEmpty | ExtractorVersionEmpty string | ExtractorNoExtensions string
  | ExtractorEmptyExtension string | ExtractorDuplicateExtension string string
  | FactsInvalid ValidationError
  | CatalogUnitIncomplete | CatalogUnitNotLocal string | CatalogUnitTokenEmpty
  | UnresolvedIncomplete | UnresolvedNotLocal string | UnresolvedKindUnsupported string | BindingNameEmpty
  | SymbolIncomplete | SymbolNotLocal string | SymbolEvidence string
  | SurfaceIncomplete | SurfaceNotLocal string
  | DependencyIncomplete | DependencyWrongSource string
  | DiagnosticMessageEmpty | DiagnosticSeverityUnsupported string
  | DeclarationKindPrefix string string | PathOutsideProject

subsection \<open>Extractor metadata\<close>

definition normalizeExtension :: "UnicodeTables \<Rightarrow> string \<Rightarrow> string" where
  "normalizeExtension u extension =
    (let normalized = ToLower u (TrimSpace extension) in
     if normalized = '''' then ''''
     else if \<not> hasPrefix normalized ''.'' then ''.'' @ normalized
     else normalized)"

definition Extension :: "UnicodeTables \<Rightarrow> string \<Rightarrow> string" where
  "Extension u path = normalizeExtension u (Ext path)"

definition addExtension :: "UnicodeTables \<Rightarrow> string \<Rightarrow> string \<Rightarrow> string set \<Rightarrow> ContributionError + string set" where
  "addExtension u name extension extensions =
    (let normalized = normalizeExtension u extension in
     if normalized = '''' then Inl (ExtractorEmptyExtension name)
     else if normalized \<in> extensions then Inl (ExtractorDuplicateExtension name normalized)
     else Inr (insert normalized extensions))"

definition validateMetadata :: "UnicodeTables \<Rightarrow> Metadata \<Rightarrow> ContributionError error" where
  "validateMetadata u metadata =
    (if md_Name metadata = '''' then Some ExtractorNameEmpty
     else if md_Version metadata = '''' then Some (ExtractorVersionEmpty (md_Name metadata))
     else if md_Extensions metadata = [] then Some (ExtractorNoExtensions (md_Name metadata))
     else (case fold_res (addExtension u (md_Name metadata)) (md_Extensions metadata) {} of
             Inl e \<Rightarrow> Some e | Inr _ \<Rightarrow> None))"

definition metadata_ok :: "UnicodeTables \<Rightarrow> Metadata \<Rightarrow> bool" where
  "metadata_ok u m \<longleftrightarrow> md_Name m \<noteq> '''' \<and> md_Version m \<noteq> '''' \<and> md_Extensions m \<noteq> []
     \<and> '''' \<notin> normalizeExtension u ` set (md_Extensions m) \<and> distinct (map (normalizeExtension u) (md_Extensions m))"

lemma fold_addExtension:
  "fold_res (addExtension u n) es X = Inr Y \<longleftrightarrow> '''' \<notin> normalizeExtension u ` set es
     \<and> distinct (map (normalizeExtension u) es) \<and> normalizeExtension u ` set es \<inter> X = {}
     \<and> Y = normalizeExtension u ` set es \<union> X"
proof (induction es arbitrary: X)
  case (Cons e es)
  then show ?case by (auto simp: addExtension_def Let_def)
qed auto

lemma validateMetadata_None: "validateMetadata u m = None \<longleftrightarrow> metadata_ok u m"
proof -
  have "(\<exists>Y. fold_res (addExtension u (md_Name m)) (md_Extensions m) {} = Inr Y)
      \<longleftrightarrow> '''' \<notin> normalizeExtension u ` set (md_Extensions m)
        \<and> distinct (map (normalizeExtension u) (md_Extensions m))"
    by (simp add: fold_addExtension)
  then show ?thesis
    by (cases "fold_res (addExtension u (md_Name m)) (md_Extensions m) {}")
      (auto simp: validateMetadata_def metadata_ok_def)
qed

subsection \<open>Contributions\<close>

definition checkCatalogUnit :: "string set \<Rightarrow> CatalogUnit \<Rightarrow> ContributionError error" where
  "checkCatalogUnit nodeIDs unit =
    (if cu_NodeID unit = '''' \<or> cu_Name unit = '''' \<or> cu_Kind unit = '''' \<or> cu_Signature unit = ''''
     then Some CatalogUnitIncomplete
     else if cu_NodeID unit \<notin> nodeIDs then Some (CatalogUnitNotLocal (cu_NodeID unit))
     else first_err (\<lambda>token. err_if (token = '''') CatalogUnitTokenEmpty) (cu_IdentifierTokens unit))"

definition checkUnresolved :: "string set \<Rightarrow> UnresolvedReference \<Rightarrow> ContributionError error" where
  "checkUnresolved nodeIDs r =
    (if ur_SourceID r = '''' \<or> ur_Target r = '''' \<or> ur_Kind r = '''' then Some UnresolvedIncomplete
     else if ur_SourceID r \<notin> nodeIDs then Some (UnresolvedNotLocal (ur_SourceID r))
     else if ur_Kind r \<noteq> ModuleReferenceImport \<and> ur_Kind r \<noteq> ModuleReferenceReExport
          \<and> ur_Kind r \<noteq> ModuleReferenceRequire then Some (UnresolvedKindUnsupported (ur_Kind r))
     else first_err (\<lambda>b. err_if (mb_ImportedName b = '''') BindingNameEmpty) (ur_Bindings r))"

definition validateReferenceEvidence :: "FactEvidence \<Rightarrow> string error" where
  "validateReferenceEvidence evidence = (let s = ev_Span evidence in
    if span_Path s = '''' \<or> span_StartLine s < 1 \<or> span_StartColumn s < 1 \<or> span_EndLine s < 1
       \<or> span_EndColumn s < 1 \<or> ev_FileHash evidence = '''' \<or> ev_Extractor evidence = ''''
       \<or> ev_Provenance evidence = ''''
    then Some ''is incomplete''
    else if span_StartLine s > span_EndLine s
       \<or> (span_StartLine s = span_EndLine s \<and> span_StartColumn s > span_EndColumn s)
    then Some ''has an invalid span''
    else if ev_Confidence evidence \<noteq> ConfidenceExtracted \<and> ev_Confidence evidence \<noteq> ConfidenceInferred
       \<and> ev_Confidence evidence \<noteq> ConfidenceAmbiguous
    then Some ''has unsupported confidence''
    else None)"

definition checkSymbol :: "string set \<Rightarrow> SymbolReference \<Rightarrow> ContributionError error" where
  "checkSymbol nodeIDs r =
    (if sr_SourceID r = '''' \<or> sr_Target r = '''' \<or> sr_Relation r = '''' then Some SymbolIncomplete
     else if sr_SourceID r \<notin> nodeIDs then Some (SymbolNotLocal (sr_SourceID r))
     else map_option SymbolEvidence (validateReferenceEvidence (sr_Evidence r)))"

definition checkSurface :: "string set \<Rightarrow> ExportedSurface \<Rightarrow> ContributionError error" where
  "checkSurface nodeIDs s =
    (if es_NodeID s = '''' \<or> es_Name s = '''' then Some SurfaceIncomplete
     else err_if (es_NodeID s \<notin> nodeIDs) (SurfaceNotLocal (es_NodeID s)))"

definition checkDependency :: "Dependency \<Rightarrow> ContributionError error" where
  "checkDependency d = err_if (dep_SourcePath d = '''' \<or> dep_TargetPath d = '''') DependencyIncomplete"

definition checkDiagnostic :: "Diagnostic \<Rightarrow> ContributionError error" where
  "checkDiagnostic d =
    (if dg_Message d = '''' then Some DiagnosticMessageEmpty
     else err_if (dg_Severity d \<noteq> DiagnosticError \<and> dg_Severity d \<noteq> DiagnosticWarning
          \<and> dg_Severity d \<noteq> DiagnosticInfo) (DiagnosticSeverityUnsupported (dg_Severity d)))"

definition NewContribution :: "UnicodeTables \<Rightarrow> Vocabulary \<Rightarrow> ContributionInput \<Rightarrow> ContributionError + Contribution" where
  "NewContribution u vocabulary input =
    (let nodeIDs = set (map node_ID (facts_Nodes (ci_Facts input))) in
     res_of_err
       (err_seq (err_if (ci_SourcePath input = '''') SourcePathEmpty)
       (err_seq (validateMetadata u (ci_Metadata input))
       (err_seq (map_option FactsInvalid (Validate vocabulary (ci_Facts input)))
       (err_seq (first_err (checkCatalogUnit nodeIDs) (ci_CatalogUnits input))
       (err_seq (first_err (checkUnresolved nodeIDs) (ci_UnresolvedReferences input))
       (err_seq (first_err (checkSymbol nodeIDs) (ci_SymbolReferences input))
       (err_seq (first_err (checkSurface nodeIDs) (ci_ExportedSurfaces input))
       (err_seq (first_err checkDependency (ci_Dependencies input))
                (first_err checkDiagnostic (ci_Diagnostics input))))))))))
       \<lparr>c_projectID = ci_ProjectID input, c_sourcePath = ci_SourcePath input,
        c_metadata = ci_Metadata input, c_facts = ci_Facts input,
        c_catalogUnits = ci_CatalogUnits input,
        c_unresolvedReferences = ci_UnresolvedReferences input,
        c_symbolReferences = ci_SymbolReferences input,
        c_exportedSurfaces = ci_ExportedSurfaces input,
        c_dependencies = ci_Dependencies input, c_diagnostics = ci_Diagnostics input\<rparr>)"

definition NewGraphUpdate :: "Contribution list \<Rightarrow> ContributionError + GraphUpdate" where
  "NewGraphUpdate contributions =
    (if contributions = [] then Inl UpdateEmpty else Inr \<lparr>gu_contributions = contributions\<rparr>)"

definition WithDependencies :: "Contribution \<Rightarrow> Dependency list \<Rightarrow> ContributionError + Contribution" where
  "WithDependencies contribution dependencies =
    res_of_err (first_err (\<lambda>d. err_if (dep_SourcePath d \<noteq> c_sourcePath contribution \<or> dep_TargetPath d = '''')
                  (DependencyWrongSource (c_sourcePath contribution))) dependencies)
      (contribution\<lparr>c_dependencies := dependencies\<rparr>)"

text \<open>
  Specification.  A contribution is well formed when everything it mentions locally is one of its
  own nodes, and its facts satisfy the vocabulary it was built with.
\<close>

definition local_nodes :: "Contribution \<Rightarrow> string set" where
  "local_nodes c = node_ID ` set (facts_Nodes (c_facts c))"

definition contribution_wf :: "UnicodeTables \<Rightarrow> Vocabulary \<Rightarrow> Contribution \<Rightarrow> bool" where
  "contribution_wf u v c \<longleftrightarrow> c_sourcePath c \<noteq> '''' \<and> metadata_ok u (c_metadata c) \<and> facts_valid v (c_facts c)
     \<and> (\<forall>x\<in>set (c_catalogUnits c). cu_NodeID x \<in> local_nodes c \<and> cu_NodeID x \<noteq> '''' \<and> cu_Name x \<noteq> '''' \<and> cu_Kind x \<noteq> ''''
          \<and> cu_Signature x \<noteq> '''' \<and> '''' \<notin> set (cu_IdentifierTokens x))
     \<and> (\<forall>r\<in>set (c_unresolvedReferences c). ur_SourceID r \<in> local_nodes c \<and> ur_SourceID r \<noteq> '''' \<and> ur_Target r \<noteq> ''''
          \<and> ur_Kind r \<in> {ModuleReferenceImport, ModuleReferenceReExport, ModuleReferenceRequire}
          \<and> (\<forall>b\<in>set (ur_Bindings r). mb_ImportedName b \<noteq> ''''))
     \<and> (\<forall>r\<in>set (c_symbolReferences c). sr_SourceID r \<in> local_nodes c \<and> sr_SourceID r \<noteq> '''' \<and> sr_Target r \<noteq> ''''
          \<and> sr_Relation r \<noteq> '''' \<and> evidence_ok (sr_Evidence r))
     \<and> (\<forall>s\<in>set (c_exportedSurfaces c). es_NodeID s \<in> local_nodes c \<and> es_NodeID s \<noteq> '''' \<and> es_Name s \<noteq> '''')
     \<and> (\<forall>d\<in>set (c_dependencies c). dep_SourcePath d \<noteq> '''' \<and> dep_TargetPath d \<noteq> '''')
     \<and> (\<forall>d\<in>set (c_diagnostics c). dg_Message d \<noteq> '''' \<and> dg_Severity d \<in> {DiagnosticError, DiagnosticWarning, DiagnosticInfo})"

lemma validateReferenceEvidence_None: "validateReferenceEvidence e = None \<longleftrightarrow> evidence_ok e"
  by (simp add: validateReferenceEvidence_def evidence_ok_def validateEvidence_def Let_def)

definition contribution_of :: "ContributionInput \<Rightarrow> Contribution" where
  "contribution_of i = \<lparr>c_projectID = ci_ProjectID i, c_sourcePath = ci_SourcePath i,
     c_metadata = ci_Metadata i, c_facts = ci_Facts i, c_catalogUnits = ci_CatalogUnits i,
     c_unresolvedReferences = ci_UnresolvedReferences i, c_symbolReferences = ci_SymbolReferences i,
     c_exportedSurfaces = ci_ExportedSurfaces i, c_dependencies = ci_Dependencies i,
     c_diagnostics = ci_Diagnostics i\<rparr>"

lemma reference_kinds_ne: "ModuleReferenceImport \<noteq> ''''" "ModuleReferenceReExport \<noteq> ''''"
  "ModuleReferenceRequire \<noteq> ''''"
  by (simp_all add: ModuleReferenceImport_def ModuleReferenceReExport_def ModuleReferenceRequire_def)

lemma checkUnit_None: "checkCatalogUnit N x = None \<longleftrightarrow> cu_NodeID x \<in> N \<and> cu_NodeID x \<noteq> '''' \<and> cu_Name x \<noteq> ''''
    \<and> cu_Kind x \<noteq> '''' \<and> cu_Signature x \<noteq> '''' \<and> '''' \<notin> set (cu_IdentifierTokens x)"
  by (auto simp: checkCatalogUnit_def)

lemma checkUnresolved_None: "checkUnresolved N r = None \<longleftrightarrow> ur_SourceID r \<in> N \<and> ur_SourceID r \<noteq> '''' \<and> ur_Target r \<noteq> ''''
    \<and> ur_Kind r \<in> {ModuleReferenceImport, ModuleReferenceReExport, ModuleReferenceRequire}
    \<and> (\<forall>b\<in>set (ur_Bindings r). mb_ImportedName b \<noteq> '''')"
  using reference_kinds_ne by (auto simp: checkUnresolved_def)

lemma checkSymbol_None: "checkSymbol N r = None \<longleftrightarrow> sr_SourceID r \<in> N \<and> sr_SourceID r \<noteq> '''' \<and> sr_Target r \<noteq> ''''
    \<and> sr_Relation r \<noteq> '''' \<and> evidence_ok (sr_Evidence r)"
  by (auto simp: checkSymbol_def validateReferenceEvidence_None)

lemma checkSurface_None: "checkSurface N s = None \<longleftrightarrow> es_NodeID s \<in> N \<and> es_NodeID s \<noteq> '''' \<and> es_Name s \<noteq> ''''"
  by (auto simp: checkSurface_def)

lemma checkDiagnostic_None: "checkDiagnostic d = None \<longleftrightarrow> dg_Message d \<noteq> ''''
    \<and> dg_Severity d \<in> {DiagnosticError, DiagnosticWarning, DiagnosticInfo}"
  by (auto simp: checkDiagnostic_def)

lemmas contribution_checks = checkUnit_None checkUnresolved_None checkSymbol_None checkSurface_None
  checkDiagnostic_None validateMetadata_None Validate_None

lemma NewContribution_Inr:
  "NewContribution u v i = Inr c \<longleftrightarrow> c = contribution_of i \<and> contribution_wf u v c"
proof -
  have "NewContribution u v i = Inr c \<longleftrightarrow> contribution_wf u v (contribution_of i) \<and> contribution_of i = c"
    unfolding NewContribution_def contribution_wf_def Let_def res_of_err_Inr err_seq_None first_err_None
      contribution_checks err_if_None
    by (simp add: contribution_of_def local_nodes_def checkDependency_def Validate_None)
  then show ?thesis by blast
qed

lemma WithDependencies_Inr:
  "WithDependencies c ds = Inr c' \<longleftrightarrow> (\<forall>d\<in>set ds. dep_SourcePath d = c_sourcePath c \<and> dep_TargetPath d \<noteq> '''')
     \<and> c' = c\<lparr>c_dependencies := ds\<rparr>"
  by (auto simp: WithDependencies_def)

lemma WithDependencies_wf:
  "contribution_wf u v c \<Longrightarrow> WithDependencies c ds = Inr c' \<Longrightarrow> contribution_wf u v c'"
  unfolding WithDependencies_Inr by (auto simp: contribution_wf_def local_nodes_def)

subsection \<open>Language vocabularies\<close>

definition pairEndpoints :: "NodeKind list \<Rightarrow> EndpointRule list" where
  "pairEndpoints kinds = concat (map (\<lambda>source. map (\<lambda>target. \<lparr>rule_Source = source, rule_Target = target\<rparr>) kinds) kinds)"

definition NewLanguageVocabulary :: "string \<Rightarrow> NodeKind list \<Rightarrow> (ContributionError + Vocabulary)" where
  "NewLanguageVocabulary name declarationKinds =
    (if name = '''' then Inl ExtractorNameEmpty
     else case first_err (\<lambda>kind. err_if (\<not> hasPrefix kind (name @ '':'')) (DeclarationKindPrefix name kind)) declarationKinds of
       Some e \<Rightarrow> Inl e
     | None \<Rightarrow>
        let nodeKinds = [''project'', ''file'', ''symbol''] @ declarationKinds;
            declarationEndpoints = map (\<lambda>kind. \<lparr>rule_Source = ''file'', rule_Target = kind\<rparr>) declarationKinds
              @ pairEndpoints declarationKinds
        in res_map_err FactsInvalid (NewVocabulary
          \<lparr>def_NodeKinds = nodeKinds,
           def_Relations =
            [\<lparr>rel_Kind = ''contains'', rel_Endpoints = [\<lparr>rule_Source = ''project'', rule_Target = ''file''\<rparr>]\<rparr>,
             \<lparr>rel_Kind = ''defines'', rel_Endpoints = declarationEndpoints\<rparr>,
             \<lparr>rel_Kind = ''references'', rel_Endpoints = declarationEndpoints\<rparr>,
             \<lparr>rel_Kind = name @ '':calls'', rel_Endpoints = declarationEndpoints\<rparr>]\<rparr>))"

lemma set_pairEndpoints: "e \<in> set (pairEndpoints ks) \<longleftrightarrow> rule_Source e \<in> set ks \<and> rule_Target e \<in> set ks"
  by (cases e) (auto simp: pairEndpoints_def)

lemma relation_names_distinct:
  "name \<noteq> '''' \<Longrightarrow> name @ '':calls'' \<noteq> '''' \<and> name @ '':calls'' \<noteq> ''contains'' \<and> name @ '':calls'' \<noteq> ''defines''
     \<and> name @ '':calls'' \<noteq> ''references''"
proof (intro conjI notI)
  assume "name @ '':calls'' = ''contains''"
  from arg_cong[OF this, of "\<lambda>s. last (butlast s)"] show False by (simp add: butlast_append)
next
  assume "name @ '':calls'' = ''defines''"
  from arg_cong[OF this, of "\<lambda>s. last (butlast s)"] show False by (simp add: butlast_append)
next
  assume "name @ '':calls'' = ''references''"
  from arg_cong[OF this, of "\<lambda>s. last (butlast s)"] show False by (simp add: butlast_append)
qed simp

text \<open>
  A language vocabulary exists exactly for a named language whose declaration kinds are distinct and
  carry the language prefix; the base kinds never collide, because they contain no colon.
\<close>

lemma prefixed_not_base:
  "hasPrefix kind (name @ '':'') \<Longrightarrow> kind \<noteq> ''project'' \<and> kind \<noteq> ''file'' \<and> kind \<noteq> ''symbol'' \<and> kind \<noteq> ''''"
proof -
  assume "hasPrefix kind (name @ '':'')"
  then have "CHR '':'' \<in> set kind" by (auto simp: hasPrefix_def prefix_def)
  then show ?thesis by auto
qed

lemma NewLanguageVocabulary_ok:
  "(\<exists>v. NewLanguageVocabulary name kinds = Inr v) \<longleftrightarrow> name \<noteq> '''' \<and> kinds \<noteq> [] \<and> distinct kinds
     \<and> (\<forall>k\<in>set kinds. hasPrefix k (name @ '':''))"
proof (cases "name \<noteq> '''' \<and> (\<forall>k\<in>set kinds. hasPrefix k (name @ '':''))")
  case False
  then show ?thesis by (auto simp: NewLanguageVocabulary_def)
next
  case True
  note base = prefixed_not_base[of _ name]
  let ?ends = "map (\<lambda>kind. \<lparr>rule_Source = ''file'', rule_Target = kind\<rparr>) kinds @ pairEndpoints kinds"
  let ?K = "[''project'', ''file'', ''symbol''] @ kinds"
  have reg: "\<forall>e\<in>set ?ends. endpoint_registered (set ?K) e"
    by (auto simp: endpoint_registered_def set_pairEndpoints)
  have ends: "?ends = [] \<longleftrightarrow> kinds = []" by (auto simp: pairEndpoints_def)
  have kd: "distinct ?K \<longleftrightarrow> distinct kinds" "'''' \<notin> set ?K"
    using True base by auto
  have "definition_wf \<lparr>def_NodeKinds = ?K, def_Relations =
            [\<lparr>rel_Kind = ''contains'', rel_Endpoints = [\<lparr>rule_Source = ''project'', rule_Target = ''file''\<rparr>]\<rparr>,
             \<lparr>rel_Kind = ''defines'', rel_Endpoints = ?ends\<rparr>, \<lparr>rel_Kind = ''references'', rel_Endpoints = ?ends\<rparr>,
             \<lparr>rel_Kind = name @ '':calls'', rel_Endpoints = ?ends\<rparr>]\<rparr> \<longleftrightarrow> distinct kinds \<and> kinds \<noteq> []"
    using relation_names_distinct[of name] True reg ends kd
    by (simp add: definition_wf_def endpoint_registered_def) blast?
  then show ?thesis
    using True unfolding NewLanguageVocabulary_def Let_def by (auto simp: NewVocabulary_Inr)
qed

subsection \<open>Resolver file view\<close>

definition normalizeResolverPath :: "string \<Rightarrow> ContributionError + string" where
  "normalizeResolverPath value =
    (let trimmed = TrimSpace value in
     if trimmed = '''' then Inl PathOutsideProject
     else let normalized = Clean trimmed in
       if isAbs normalized \<or> normalized = ''..'' \<or> hasPrefix normalized ''../'' then Inl PathOutsideProject
       else Inr normalized)"

record ResolverFileView =
  rv_projectRoot :: string
  rv_files :: "string \<rightharpoonup> string"

text \<open>The files map is given as its entries in the order the range loop visits them.\<close>

definition addViewFile :: "string \<times> string \<Rightarrow> (string \<rightharpoonup> string) \<Rightarrow> ContributionError + (string \<rightharpoonup> string)" where
  "addViewFile entry files =
    (case entry of (filePath, contents) \<Rightarrow>
       res_bind (normalizeResolverPath filePath) (\<lambda>normalizedPath. Inr (files(normalizedPath \<mapsto> contents))))"

definition NewResolverFileView :: "string \<Rightarrow> (string \<times> string) list \<Rightarrow> ContributionError + ResolverFileView" where
  "NewResolverFileView projectRoot files =
    res_bind (normalizeResolverPath projectRoot) (\<lambda>normalizedRoot.
    res_bind (fold_res addViewFile files Map.empty) (\<lambda>view.
    Inr \<lparr>rv_projectRoot = normalizedRoot, rv_files = view\<rparr>))"

definition viewFile :: "ResolverFileView \<Rightarrow> string \<Rightarrow> string option" where
  "viewFile view filePath =
    (case normalizeResolverPath filePath of Inl _ \<Rightarrow> None | Inr normalizedPath \<Rightarrow> rv_files view normalizedPath)"

lemma normalizeResolverPath_inside:
  assumes "normalizeResolverPath p = Inr q"
  shows "q \<noteq> '''' \<and> \<not> isAbs q \<and> Clean q = q \<and> ''..'' \<notin> set (splitOn slash q)"
proof -
  let ?t = "TrimSpace p"
  from assms have q: "q = Clean ?t" "\<not> isAbs q" "q \<noteq> ''..''" "\<not> hasPrefix q ''../''"
    by (auto simp: normalizeResolverPath_def Let_def split: if_splits)
  then have "\<not> isAbs ?t" by simp
  then obtain es where es: "clean_elems False es" "q = (if es = [] then ''.'' else join [slash] es)"
    using Clean_elems[of ?t] q(1) by auto
  from es(1) obtain n ns where e: "es = replicate n ''..'' @ ns" "list_all normal_elem ns"
    unfolding clean_elems_def by blast
  have "n = 0"
  proof (rule ccontr)
    assume "n \<noteq> 0"
    then obtain m where m: "es = ''..'' # replicate m ''..'' @ ns" using e(1) by (cases n) auto
    then show False
    proof (cases "replicate m ''..'' @ ns")
      case Nil
      then show ?thesis using m es(2) q(3) by simp
    next
      case (Cons x xs)
      then have "q = ''../'' @ join [slash] (x # xs)" using m es(2) by simp
      then show ?thesis using q(4) by (auto simp: hasPrefix_def)
    qed
  qed
  then have ns: "es = ns" using e(1) by simp
  have "''..'' \<notin> set (splitOn slash q)"
  proof (cases "es = []")
    case True
    then show ?thesis using es(2) by simp
  next
    case False
    have "splitOn slash q = es"
      using False es(2) clean_elems_no_slash[OF es(1)] by (simp add: splitOn_join)
    then show ?thesis using e(2) ns by (auto simp: list_all_iff normal_elem_def)
  qed
  moreover have "q \<noteq> ''''"
  proof (cases es)
    case (Cons x xs)
    then show ?thesis using es(2) clean_elems_no_slash[OF es(1), of x] join_Cons[of "[slash]" x xs] by auto
  qed (use es(2) in simp)
  ultimately show ?thesis using q Clean_idem by simp
qed

lemma fold_addViewFile:
  assumes "fold_res addViewFile files m = Inr m'"
  shows "dom m' \<subseteq> dom m \<union> {q. \<exists>p. normalizeResolverPath p = Inr q}"
  using assms
proof (induction files arbitrary: m)
  case (Cons f files)
  then obtain m1 where m1: "addViewFile f m = Inr m1" "fold_res addViewFile files m1 = Inr m'"
    by (auto split: sum.splits)
  have "dom m1 \<subseteq> dom m \<union> {q. \<exists>p. normalizeResolverPath p = Inr q}"
    using m1(1) by (auto simp: addViewFile_def res_bind_Inr split: prod.splits if_splits)
  then show ?case using Cons.IH[OF m1(2)] by blast
qed simp

subsection \<open>The memoising resolver index\<close>

record ResolverTargetRequest =
  rtr_ProjectID :: string
  rtr_Language :: string
  rtr_SourcePath :: string

record ResolverPackagePageRequest =
  rpp_ProjectID :: string
  rpp_Language :: string
  rpp_PackagePath :: string
  rpp_AfterSourcePath :: string
  rpp_Limit :: int

record ResolverTarget =
  rt_ProjectID :: string
  rt_SourcePath :: string
  rt_Metadata :: Metadata
  rt_Nodes :: "Node list"
  rt_UnresolvedReferences :: "UnresolvedReference list"
  rt_SymbolReferences :: "SymbolReference list"
  rt_ExportedSurfaces :: "ExportedSurface list"
  rt_Diagnostics :: "Diagnostic list"

text \<open>
  The wrapped index is an interface; each call yields a target with a found flag and an error, or a
  page of targets and an error.
\<close>

type_synonym TargetAnswer = "ResolverTarget \<times> bool \<times> string error"
type_synonym PackageAnswer = "ResolverTarget list \<times> string error"

record pageResolverIndex =
  pri_targets :: "ResolverTargetRequest \<rightharpoonup> TargetAnswer"
  pri_packages :: "ResolverPackagePageRequest \<rightharpoonup> PackageAnswer"

definition NewPageResolverIndex :: pageResolverIndex where
  "NewPageResolverIndex = \<lparr>pri_targets = Map.empty, pri_packages = Map.empty\<rparr>"

definition memoResolverTarget :: "(ResolverTargetRequest \<Rightarrow> TargetAnswer) \<Rightarrow> ResolverTargetRequest
    \<Rightarrow> pageResolverIndex \<Rightarrow> TargetAnswer \<times> pageResolverIndex" where
  "memoResolverTarget inner request index =
    (case pri_targets index request of
       Some result \<Rightarrow> (result, index)
     | None \<Rightarrow> (let result = inner request
               in (result, index\<lparr>pri_targets := (pri_targets index)(request \<mapsto> result)\<rparr>)))"

definition memoResolverPackagePage :: "(ResolverPackagePageRequest \<Rightarrow> PackageAnswer) \<Rightarrow> ResolverPackagePageRequest
    \<Rightarrow> pageResolverIndex \<Rightarrow> PackageAnswer \<times> pageResolverIndex" where
  "memoResolverPackagePage inner request index =
    (case pri_packages index request of
       Some result \<Rightarrow> (result, index)
     | None \<Rightarrow> (let result = inner request
               in (result, index\<lparr>pri_packages := (pri_packages index)(request \<mapsto> result)\<rparr>)))"

definition memo_consistent :: "(ResolverTargetRequest \<Rightarrow> TargetAnswer) \<Rightarrow> (ResolverPackagePageRequest \<Rightarrow> PackageAnswer)
    \<Rightarrow> pageResolverIndex \<Rightarrow> bool" where
  "memo_consistent tgt pkg index \<longleftrightarrow> (\<forall>q a. pri_targets index q = Some a \<longrightarrow> a = tgt q)
     \<and> (\<forall>q a. pri_packages index q = Some a \<longrightarrow> a = pkg q)"

lemma memo_steps:
  assumes "memo_consistent tgt pkg index"
  shows "fst (memoResolverTarget tgt q index) = tgt q" "memo_consistent tgt pkg (snd (memoResolverTarget tgt q index))"
    "fst (memoResolverPackagePage pkg p index) = pkg p" "memo_consistent tgt pkg (snd (memoResolverPackagePage pkg p index))"
  using assms
  by (auto simp: memo_consistent_def memoResolverTarget_def memoResolverPackagePage_def Let_def split: option.splits)

subsection \<open>Properties\<close>

text \<open>NewContribution succeeds exactly when the contribution made of its input is well formed
  (a non-empty source path, valid metadata, facts valid in the vocabulary, and every catalog unit,
  reference, surface, dependency and diagnostic complete and local), and it returns that
  contribution.\<close>

theorem new_contribution_exact:
  "NewContribution u v i = Inr c \<longleftrightarrow> c = contribution_of i \<and> contribution_wf u v c"
  by (rule NewContribution_Inr)

text \<open>Replacing the dependencies of a well-formed contribution keeps it well formed, and every
  new dependency starts at the contribution's own source path.\<close>

theorem with_dependencies_keeps_wellformed:
  assumes "contribution_wf u v c" and "WithDependencies c ds = Inr c'"
  shows "contribution_wf u v c' \<and> c_sourcePath c' = c_sourcePath c \<and> c_facts c' = c_facts c
    \<and> (\<forall>d\<in>set (c_dependencies c'). dep_SourcePath d = c_sourcePath c)"
  using WithDependencies_wf[OF assms] assms(2) unfolding WithDependencies_Inr by auto

definition sample_metadata :: Metadata where
  "sample_metadata = \<lparr>md_Name = ''go'', md_Version = ''1'', md_Extensions = [''.go'']\<rparr>"

definition sample_vocabulary :: Vocabulary where
  "sample_vocabulary = \<lparr>voc_nodeKinds = {''file''}, voc_relations = Map.empty\<rparr>"

definition sample_input :: ContributionInput where
  "sample_input = \<lparr>ci_ProjectID = ''p'', ci_SourcePath = ''a.go'', ci_Metadata = sample_metadata,
     ci_Facts = \<lparr>facts_Nodes = [sample_node ''a'' ''file''], facts_Edges = []\<rparr>, ci_CatalogUnits = [],
     ci_UnresolvedReferences = [], ci_SymbolReferences = [],
     ci_ExportedSurfaces = [\<lparr>es_NodeID = ''a'', es_Name = ''x''\<rparr>], ci_Dependencies = [], ci_Diagnostics = []\<rparr>"

lemma sample_input_ok: "is_ok (NewContribution asciiTables sample_vocabulary sample_input)"
  by code_simp

lemma sample_contribution_wf: "contribution_wf asciiTables sample_vocabulary (contribution_of sample_input)"
  using sample_input_ok by (auto simp: is_ok_iff NewContribution_Inr)

lemma with_dependencies_keeps_wellformed_witness:
  "\<exists>c'. WithDependencies (contribution_of sample_input) [\<lparr>dep_SourcePath = ''a.go'', dep_TargetPath = ''b.go''\<rparr>] = Inr c'
     \<and> contribution_wf asciiTables sample_vocabulary c'"
proof -
  have "WithDependencies (contribution_of sample_input) [\<lparr>dep_SourcePath = ''a.go'', dep_TargetPath = ''b.go''\<rparr>]
      = Inr ((contribution_of sample_input)\<lparr>c_dependencies := [\<lparr>dep_SourcePath = ''a.go'', dep_TargetPath = ''b.go''\<rparr>]\<rparr>)"
    by (simp add: WithDependencies_Inr contribution_of_def sample_input_def)
  from with_dependencies_keeps_wellformed[OF sample_contribution_wf this] this show ?thesis by blast
qed

text \<open>A language vocabulary exists exactly for a named language with at least one declaration
  kind, all distinct and prefixed with the language name.\<close>

theorem language_vocabulary_exists_iff:
  "(\<exists>v. NewLanguageVocabulary name kinds = Inr v) \<longleftrightarrow> name \<noteq> '''' \<and> kinds \<noteq> [] \<and> distinct kinds
     \<and> list_all (\<lambda>k. hasPrefix k (name @ '':'')) kinds"
  unfolding NewLanguageVocabulary_ok list_all_iff ..

text \<open>A path accepted by the resolver file view stays inside the project: it is a non-empty,
  relative, cleaned path none of whose elements is a parent reference.\<close>

theorem resolver_path_stays_inside:
  assumes "normalizeResolverPath p = Inr q"
  shows "q \<noteq> '''' \<and> \<not> isAbs q \<and> Clean q = q \<and> ''..'' \<notin> set (splitOn (CHR ''/'') q)"
  by (rule normalizeResolverPath_inside[OF assms])

lemma resolver_path_stays_inside_witness:
  "normalizeResolverPath '' a/../b/./c '' = Inr ''b/c'' \<and> Clean ''b/c'' = ''b/c''"
proof -
  have n: "normalizeResolverPath '' a/../b/./c '' = Inr ''b/c''" by code_simp
  from resolver_path_stays_inside[OF n] n show ?thesis by blast
qed

text \<open>The memoising resolver index answers every request as the wrapped index would, whatever
  was asked before, and stays consistent with it.\<close>

theorem resolver_memo_is_transparent:
  assumes "memo_consistent tgt pkg index"
  shows "fst (memoResolverTarget tgt q index) = tgt q \<and> fst (memoResolverPackagePage pkg p index) = pkg p
    \<and> memo_consistent tgt pkg (snd (memoResolverTarget tgt q index))
    \<and> memo_consistent tgt pkg (snd (memoResolverPackagePage pkg p index))"
  using memo_steps[OF assms] by blast

definition sample_target :: ResolverTarget where
  "sample_target = \<lparr>rt_ProjectID = ''p'', rt_SourcePath = ''a.go'', rt_Metadata = sample_metadata, rt_Nodes = [],
     rt_UnresolvedReferences = [], rt_SymbolReferences = [], rt_ExportedSurfaces = [], rt_Diagnostics = []\<rparr>"

definition sample_target_request :: ResolverTargetRequest where
  "sample_target_request = \<lparr>rtr_ProjectID = ''p'', rtr_Language = ''go'', rtr_SourcePath = ''a.go''\<rparr>"

lemma resolver_memo_is_transparent_witness:
  "memo_consistent (\<lambda>_. (sample_target, True, None)) (\<lambda>_. ([], None))
     (snd (memoResolverTarget (\<lambda>_. (sample_target, True, None)) sample_target_request NewPageResolverIndex))"
proof -
  have "memo_consistent (\<lambda>_. (sample_target, True, None)) (\<lambda>_. ([], None)) NewPageResolverIndex"
    by (simp add: memo_consistent_def NewPageResolverIndex_def)
  from resolver_memo_is_transparent[OF this] show ?thesis by blast
qed

end
