(* ===== verification/Tables.thy ===== *)
theory Tables
  imports Storage Contribution
begin

text \<open>
  The SQLite tables of storage/sqlite/sqlite.go as lists of rows, and the row level statements the
  store runs on them.  The twelve contribution tables share the columns workspace, source path,
  valid_from_version and valid_to_version (NULL is None) and differ in their data; a statement the
  code runs for every table of contributionTables is a fold over that list.  Statements do not
  fail: database errors are not modelled, except the primary key conflict of a plain INSERT.
\<close>

datatype RowData =
    FileContributionRow string string string
  | ExtensionRow string
  | NodeRow Node
  | EdgeRow Edge
  | CatalogUnitRow CatalogUnit
  | CoverageRow
  | DependencyRow string
  | SurfaceRow string string
  | DiagnosticRow string string
  | UnresolvedRow string string string bool
  | BindingRow string string string string string string
  | SymbolRow string string RelationKind FactEvidence

record Row =
  row_workspace :: string
  row_source :: string
  row_from :: GraphVersion
  row_to :: "GraphVersion option"
  row_data :: RowData

datatype ContributionTable =
    file_contributions | contribution_extensions | contribution_nodes | contribution_edges
  | contribution_catalog_units | contribution_catalog_unit_coverage | contribution_dependencies
  | contribution_exported_surfaces | contribution_diagnostics | contribution_unresolved_references
  | contribution_module_bindings | contribution_symbol_references

definition contributionTables :: "ContributionTable list" where
  "contributionTables = [file_contributions, contribution_extensions, contribution_nodes, contribution_edges,
     contribution_catalog_units, contribution_catalog_unit_coverage, contribution_dependencies,
     contribution_exported_surfaces, contribution_diagnostics, contribution_unresolved_references,
     contribution_module_bindings, contribution_symbol_references]"

lemma set_contributionTables [simp]: "set contributionTables = UNIV"
proof (intro equalityI subset_UNIV subsetI)
  fix t :: ContributionTable
  show "t \<in> set contributionTables" by (cases t) (simp_all add: contributionTables_def)
qed

lemma distinct_contributionTables [simp]: "distinct contributionTables"
  by (simp add: contributionTables_def)

record WorkspaceNodeRow =
  wn_workspace :: string
  wn_version :: GraphVersion
  wn_node :: Node

record WorkspaceEdgeRow =
  we_workspace :: string
  we_version :: GraphVersion
  we_edge :: Edge
  we_owner :: string

record VersionRow =
  gv_workspace :: string
  gv_version :: GraphVersion
  gv_publishedAt :: int

text \<open>
  The tables derived from one version of a workspace (the lexical index and the catalog) keep
  their other columns as a list of texts.
\<close>

datatype DerivedTable = node_search | catalog_entries | catalog_search | catalog_embeddings

record DerivedRow =
  dr_workspace :: string
  dr_version :: GraphVersion
  dr_columns :: "string list"

record Database =
  db_rows :: "ContributionTable \<Rightarrow> Row list"
  db_workspace_nodes :: "WorkspaceNodeRow list"
  db_workspace_edges :: "WorkspaceEdgeRow list"
  db_graph_versions :: "VersionRow list"
  db_derived :: "DerivedTable \<Rightarrow> DerivedRow list"

definition emptyDatabase :: Database where
  "emptyDatabase = \<lparr>db_rows = (\<lambda>_. []), db_workspace_nodes = [], db_workspace_edges = [],
     db_graph_versions = [], db_derived = (\<lambda>_. [])\<rparr>"

subsection \<open>Visibility of a version\<close>

definition visibleRow :: "string \<Rightarrow> GraphVersion \<Rightarrow> Row \<Rightarrow> bool" where
  "visibleRow ws v r \<longleftrightarrow> row_workspace r = ws \<and> row_from r \<le> v
     \<and> (case row_to r of None \<Rightarrow> True | Some t \<Rightarrow> t \<ge> v)"

definition visibleRows :: "Database \<Rightarrow> string \<Rightarrow> GraphVersion \<Rightarrow> ContributionTable \<Rightarrow> Row list" where
  "visibleRows db ws v t = filter (visibleRow ws v) (db_rows db t)"

definition visibleNodes :: "Database \<Rightarrow> string \<Rightarrow> GraphVersion \<Rightarrow> Node list" where
  "visibleNodes db ws v =
     concat (map (\<lambda>r. case row_data r of NodeRow n \<Rightarrow> [n] | _ \<Rightarrow> []) (visibleRows db ws v contribution_nodes))
     @ map wn_node (filter (\<lambda>r. wn_workspace r = ws \<and> wn_version r = v) (db_workspace_nodes db))"

definition visibleEdges :: "Database \<Rightarrow> string \<Rightarrow> GraphVersion \<Rightarrow> Edge list" where
  "visibleEdges db ws v =
     concat (map (\<lambda>r. case row_data r of EdgeRow e \<Rightarrow> [e] | _ \<Rightarrow> []) (visibleRows db ws v contribution_edges))
     @ map we_edge (filter (\<lambda>r. we_workspace r = ws \<and> we_version r = v) (db_workspace_edges db))"

subsection \<open>Reads of one snapshot\<close>

definition readNode :: "Database \<Rightarrow> Snapshot \<Rightarrow> string \<Rightarrow> Node option" where
  "readNode db snapshot nodeID =
     find (\<lambda>n. node_ID n = nodeID) (visibleNodes db (snap_Workspace snapshot) (snap_Version snapshot))"

definition edgeColumns :: "Edge \<Rightarrow> string list" where
  "edgeColumns e = [edge_SourceID e, edge_TargetID e, edge_Relation e]"

definition readIncidentEdges :: "Database \<Rightarrow> Snapshot \<Rightarrow> string \<Rightarrow> Edge list" where
  "readIncidentEdges db snapshot nodeID =
     sort_key edgeColumns (filter (\<lambda>e. edge_SourceID e = nodeID \<or> edge_TargetID e = nodeID)
       (visibleEdges db (snap_Workspace snapshot) (snap_Version snapshot)))"

text \<open>
  The recursive common table expression of readScopedNodeIDs: the seeds, then the targets of
  visible contains edges of rows already produced, each row once.
\<close>

definition containsTargets :: "Edge list \<Rightarrow> string \<Rightarrow> string list" where
  "containsTargets edges nodeID =
     map edge_TargetID (filter (\<lambda>e. edge_SourceID e = nodeID \<and> edge_Relation e = ''contains'') edges)"

definition cteAdd :: "string list \<Rightarrow> string list \<Rightarrow> string list" where
  "cteAdd produced new = dedup_aux produced new"

lemma cteAdd_new: "set (cteAdd p xs) = set xs - set p" "distinct (cteAdd p xs)"
  by (simp_all add: cteAdd_def set_dedup_aux distinct_dedup_aux)

lemma containsTargets_sub: "set (containsTargets es x) \<subseteq> edge_TargetID ` set es"
  by (auto simp: containsTargets_def)

function cteScoped :: "Edge list \<Rightarrow> string list \<Rightarrow> string list \<Rightarrow> string list" where
  "cteScoped edges [] produced = produced"
| "cteScoped edges (nodeID # queue) produced =
    (let new = cteAdd produced (containsTargets edges nodeID)
     in cteScoped edges (queue @ new) (produced @ new))"
  by pat_completeness auto

termination
proof (relation "measures [\<lambda>(es, q, p). card (edge_TargetID ` set es - set p), \<lambda>(es, q, p). length q]", simp)
  fix es :: "Edge list" and x :: string and q p new :: "string list"
  assume new: "new = cteAdd p (containsTargets es x)"
  let ?T = "edge_TargetID ` set es"
  show "((es, q @ new, p @ new), es, x # q, p) \<in> measures
      [\<lambda>(es, q, p). card (edge_TargetID ` set es - set p), \<lambda>(es, q, p). length q]"
  proof (cases "new = []")
    case False
    then obtain y where y: "y \<in> set new" by (cases new) auto
    then have "y \<in> ?T - set p" using containsTargets_sub[of es x] by (auto simp: new cteAdd_new)
    with y have "?T - set (p @ new) \<subset> ?T - set p" by auto
    then have "card (?T - set (p @ new)) < card (?T - set p)" by (intro psubset_card_mono) auto
    then show ?thesis by simp
  qed simp
qed

definition readScopedNodeIDs :: "Database \<Rightarrow> Snapshot \<Rightarrow> string list \<Rightarrow> string list" where
  "readScopedNodeIDs db snapshot projectIDs =
    (if projectIDs = [] then []
     else let seeds = dedup projectIDs
          in cteScoped (visibleEdges db (snap_Workspace snapshot) (snap_Version snapshot)) seeds seeds)"

text \<open>The in-memory counterpart, scopedNodeIDs, works on sorted children and a seen set.\<close>

definition scopeChildren :: "Edge list \<Rightarrow> string \<Rightarrow> string list" where
  "scopeChildren edges nodeID = sort (containsTargets edges nodeID)"

function scopeLoop :: "Edge list \<Rightarrow> string list \<Rightarrow> string list \<Rightarrow> string list" where
  "scopeLoop edges [] scoped = scoped"
| "scopeLoop edges (nodeID # frontier) scoped =
    (if nodeID \<in> set scoped then scopeLoop edges frontier scoped
     else scopeLoop edges (frontier @ scopeChildren edges nodeID) (scoped @ [nodeID]))"
  by pat_completeness auto
termination
proof (relation "measures [\<lambda>(es, fr, sc). card ((set fr \<union> edge_TargetID ` set es) - set sc), \<lambda>(es, fr, sc). length fr]", simp)
  fix es :: "Edge list" and x :: string and fr sc :: "string list"
  let ?m = "measures [\<lambda>(es, fr, sc). card ((set fr \<union> edge_TargetID ` set es) - set sc), \<lambda>(es, fr, sc). length fr]"
  let ?T = "edge_TargetID ` set es"
  {
    assume "x \<in> set sc"
    then have "(set fr \<union> ?T) - set sc = (set (x # fr) \<union> ?T) - set sc" by auto
    then show "((es, fr, sc), es, x # fr, sc) \<in> ?m" by (simp add: insert_Diff_if \<open>x \<in> set sc\<close>)
  next
    assume x: "x \<notin> set sc"
    have "set (scopeChildren es x) \<subseteq> ?T" using containsTargets_sub[of es x] by (simp add: scopeChildren_def)
    then have "(set (fr @ scopeChildren es x) \<union> ?T) - set (sc @ [x]) \<subset> (set (x # fr) \<union> ?T) - set sc"
      using x by auto
    then have "card ((set (fr @ scopeChildren es x) \<union> ?T) - set (sc @ [x])) < card ((set (x # fr) \<union> ?T) - set sc)"
      by (intro psubset_card_mono) auto
    then show "((es, fr @ scopeChildren es x, sc @ [x]), es, x # fr, sc) \<in> ?m" by simp
  }
qed

definition scopedNodeIDs :: "string list \<Rightarrow> Edge list \<Rightarrow> string list" where
  "scopedNodeIDs projectIDs edges =
    (if projectIDs = [] then [] else scopeLoop edges (sort projectIDs) [])"

text \<open>Specification: the nodes reachable from the projects over contains edges.\<close>

definition contains_rel :: "Edge list \<Rightarrow> (string \<times> string) set" where
  "contains_rel es = {(edge_SourceID e, edge_TargetID e) | e. e \<in> set es \<and> edge_Relation e = ''contains''}"

lemma containsTargets_rel: "y \<in> set (containsTargets es x) \<longleftrightarrow> (x, y) \<in> contains_rel es"
  by (auto simp: containsTargets_def contains_rel_def)

lemma closure_absorb: "A \<subseteq> r\<^sup>* `` B \<Longrightarrow> r\<^sup>* `` (A \<union> B) = r\<^sup>* `` B"
proof -
  assume "A \<subseteq> r\<^sup>* `` B"
  then have "r\<^sup>* `` A \<subseteq> r\<^sup>* `` (r\<^sup>* `` B)" by blast
  also have "\<dots> = r\<^sup>* `` B" by (simp add: relcomp_Image[symmetric])
  finally show ?thesis by blast
qed

lemma targets_in_closure: "x \<in> B \<Longrightarrow> set (containsTargets es x) \<subseteq> (contains_rel es)\<^sup>* `` B"
proof
  fix y assume "x \<in> B" "y \<in> set (containsTargets es x)"
  then have "(x, y) \<in> (contains_rel es)\<^sup>*" by (simp add: containsTargets_rel r_into_rtrancl)
  with \<open>x \<in> B\<close> show "y \<in> (contains_rel es)\<^sup>* `` B" by blast
qed

lemma cteScoped_closure:
  assumes "set q \<subseteq> set p" and "\<forall>x\<in>set p - set q. \<forall>y. (x, y) \<in> contains_rel es \<longrightarrow> y \<in> set p"
  shows "set (cteScoped es q p) = (contains_rel es)\<^sup>* `` set p"
  using assms
proof (induction es q p rule: cteScoped.induct)
  case (1 es p)
  have "(contains_rel es)\<^sup>* `` set p \<subseteq> set p"
    using 1 by (intro Image_closed_trancl[THEN equalityD1]) auto
  then show ?case by auto
next
  case (2 es x q p)
  let ?new = "cteAdd p (containsTargets es x)"
  have IH: "set (cteScoped es (q @ ?new) (p @ ?new)) = (contains_rel es)\<^sup>* `` set (p @ ?new)"
  proof (rule 2(1)[OF refl])
    show "set (q @ ?new) \<subseteq> set (p @ ?new)" using 2(2) by auto
    show "\<forall>z\<in>set (p @ ?new) - set (q @ ?new). \<forall>y. (z, y) \<in> contains_rel es \<longrightarrow> y \<in> set (p @ ?new)"
    proof (intro ballI allI impI)
      fix z y assume z: "z \<in> set (p @ ?new) - set (q @ ?new)" and zy: "(z, y) \<in> contains_rel es"
      then have zp: "z \<in> set p" "z \<notin> set q" by auto
      show "y \<in> set (p @ ?new)"
      proof (cases "z = x")
        case True
        then have "y \<in> set (containsTargets es x)" using zy by (simp add: containsTargets_rel)
        then show ?thesis by (simp add: cteAdd_new)
      next
        case False
        then have "z \<in> set p - set (x # q)" using zp by simp
        then show ?thesis using 2(3) zy by (simp del: set_simps)
      qed
    qed
  qed
  have "x \<in> set p" using 2(2) by simp
  then have "set ?new \<subseteq> (contains_rel es)\<^sup>* `` set p"
    using targets_in_closure[of x "set p" es] unfolding cteAdd_new by blast
  from closure_absorb[OF this]
  have "(contains_rel es)\<^sup>* `` set (p @ ?new) = (contains_rel es)\<^sup>* `` set p"
    by (simp add: Un_commute)
  then show ?case using IH by (simp add: Let_def)
qed

lemma scopeLoop_closure:
  assumes "\<forall>x\<in>set sc. \<forall>y. (x, y) \<in> contains_rel es \<longrightarrow> y \<in> set sc \<union> set fr"
  shows "set (scopeLoop es fr sc) = (contains_rel es)\<^sup>* `` (set sc \<union> set fr)"
  using assms
proof (induction es fr sc rule: scopeLoop.induct)
  case (1 es sc)
  have "(contains_rel es)\<^sup>* `` set sc \<subseteq> set sc"
    using 1 by (intro Image_closed_trancl[THEN equalityD1]) auto
  then show ?case by auto
next
  case (2 es x fr sc)
  show ?case
  proof (cases "x \<in> set sc")
    case True
    then have "set (scopeLoop es fr sc) = (contains_rel es)\<^sup>* `` (set sc \<union> set fr)"
      using 2(1)[OF True] 2(3) by auto
    then show ?thesis using True by (simp add: insert_absorb)
  next
    case False
    have "set (scopeLoop es (fr @ scopeChildren es x) (sc @ [x]))
        = (contains_rel es)\<^sup>* `` (set (sc @ [x]) \<union> set (fr @ scopeChildren es x))"
      using 2(3) by (intro 2(2)[OF False]) (auto simp: scopeChildren_def containsTargets_rel)
    also have "set (sc @ [x]) \<union> set (fr @ scopeChildren es x)
        = set (scopeChildren es x) \<union> (set sc \<union> set (x # fr))" by auto
    also have "(contains_rel es)\<^sup>* `` \<dots> = (contains_rel es)\<^sup>* `` (set sc \<union> set (x # fr))"
      using targets_in_closure[of x "set sc \<union> set (x # fr)" es]
      by (intro closure_absorb) (simp add: scopeChildren_def)
    finally show ?thesis using False by simp
  qed
qed

lemma set_scopedNodeIDs: "set (scopedNodeIDs ps es) = (contains_rel es)\<^sup>* `` set ps"
  using scopeLoop_closure[of "[]" es "sort ps"] by (simp add: scopedNodeIDs_def)

lemma set_readScopedNodeIDs:
  "set (readScopedNodeIDs db sn ps)
     = (contains_rel (visibleEdges db (snap_Workspace sn) (snap_Version sn)))\<^sup>* `` set ps"
  using cteScoped_closure[of "dedup ps" "dedup ps"] by (simp add: readScopedNodeIDs_def Let_def)

lemma readNode_Some: "readNode db sn i = Some n \<Longrightarrow> node_ID n = i
    \<and> n \<in> set (visibleNodes db (snap_Workspace sn) (snap_Version sn))"
  by (auto simp: readNode_def find_Some_iff)

lemma readNode_None: "readNode db sn i = None \<longleftrightarrow>
    i \<notin> node_ID ` set (visibleNodes db (snap_Workspace sn) (snap_Version sn))"
  by (auto simp: readNode_def find_None_iff)

lemma set_readIncidentEdges: "e \<in> set (readIncidentEdges db sn i) \<longleftrightarrow>
    e \<in> set (visibleEdges db (snap_Workspace sn) (snap_Version sn)) \<and> (edge_SourceID e = i \<or> edge_TargetID e = i)"
  by (simp add: readIncidentEdges_def)

subsection \<open>A sample database\<close>

definition sample_snapshot :: Snapshot where
  "sample_snapshot = \<lparr>snap_Workspace = ''w'', snap_Version = 1, snap_PublishedAt = 0\<rparr>"

definition sample_row :: "string \<Rightarrow> GraphVersion \<Rightarrow> RowData \<Rightarrow> Row" where
  "sample_row src v d = \<lparr>row_workspace = ''w'', row_source = src, row_from = v, row_to = None, row_data = d\<rparr>"

definition sample_db :: Database where
  "sample_db = emptyDatabase\<lparr>
     db_rows := (\<lambda>t. if t = contribution_nodes
        then [sample_row ''a.go'' 1 (NodeRow (sample_node ''a'' ''file'')), sample_row ''a.go'' 1 (NodeRow (sample_node ''b'' ''go:function''))]
        else if t = contribution_edges
        then [sample_row ''a.go'' 1 (EdgeRow (sample_edge ''a'' ''b'' ''defines'')),
              sample_row ''a.go'' 1 (EdgeRow (sample_edge ''b'' ''c'' ''go:calls''))]
        else []),
     db_workspace_nodes := [\<lparr>wn_workspace = ''w'', wn_version = 1, wn_node = sample_node ''c'' ''go:function''\<rparr>],
     db_workspace_edges := [\<lparr>we_workspace = ''w'', we_version = 1, we_edge = sample_edge ''p'' ''a'' ''contains'', we_owner = ''a.go''\<rparr>],
     db_graph_versions := [\<lparr>gv_workspace = ''w'', gv_version = 1, gv_publishedAt = 0\<rparr>]\<rparr>"

text \<open>The project scope of a snapshot is the closure of the projects under visible contains
  edges: the recursive query of readScopedNodeIDs and the in-memory worklist of scopedNodeIDs
  compute the same set.\<close>

theorem scope_is_contains_closure:
  "set (readScopedNodeIDs db sn ps)
      = (contains_rel (visibleEdges db (snap_Workspace sn) (snap_Version sn)))\<^sup>* `` set ps
   \<and> set (scopedNodeIDs ps (visibleEdges db (snap_Workspace sn) (snap_Version sn)))
      = set (readScopedNodeIDs db sn ps)"
  by (simp add: set_readScopedNodeIDs set_scopedNodeIDs)

end
