(* ===== verification/Lexical.thy ===== *)
theory Lexical
  imports GoStrings
begin

text \<open>
  The tokens of the lexical index (storage/sqlite/sqlite.go, identifierTokens and the functions
  around it): identifiers split at camel case boundaries and at every rune that is no letter or
  digit, lower case, and the full text expressions built from them.
\<close>

text \<open>strings.Fields.\<close>

fun fieldsFrom :: "string \<Rightarrow> string list \<Rightarrow> string list" where
  "fieldsFrom word [] = (if word = [] then [] else [word])"
| "fieldsFrom word (seg # segs) =
    (if isSpace (runeOf seg) then (if word = [] then fieldsFrom [] segs else word # fieldsFrom [] segs)
     else fieldsFrom (word @ seg) segs)"

definition Fields :: "string \<Rightarrow> string list" where
  "Fields s = fieldsFrom [] (segments s)"

fun tokenLoop :: "UnicodeTables \<Rightarrow> nat \<Rightarrow> rune \<Rightarrow> rune list \<Rightarrow> string \<Rightarrow> string" where
  "tokenLoop u index prior [] builder = builder"
| "tokenLoop u index prior (character # rest) builder =
    tokenLoop u (index + 1) character rest
      (if isLetter u character \<or> isDigit u character
       then builder
         @ (if index > 0 \<and> isUpper u character \<and> (isLower u prior \<or> isDigit u prior) then '' '' else '''')
         @ encodeRune (toLowerRune u character)
       else if length builder > 0 then builder @ '' '' else builder)"

definition identifierTokens :: "UnicodeTables \<Rightarrow> string \<Rightarrow> string" where
  "identifierTokens u value = join '' '' (Fields (tokenLoop u 0 0 (runes value) ''''))"

definition lexicalTerms :: "UnicodeTables \<Rightarrow> string \<Rightarrow> string list" where
  "lexicalTerms u value = Fields (identifierTokens u value)"

definition quoteFTS :: "string \<Rightarrow> string" where
  "quoteFTS value = [CHR 0x22] @ concat (map (\<lambda>c. if c = CHR 0x22 then [c, c] else [c]) value) @ [CHR 0x22]"

definition quotedLexicalTerms :: "string list \<Rightarrow> bool \<Rightarrow> string list" where
  "quotedLexicalTerms terms isPrefix = map (\<lambda>term. quoteFTS term @ (if isPrefix then ''*'' else '''')) terms"

record LexicalSearchRequest =
  lex_Text :: string
  lex_Phrases :: "string list"
  lex_TokenGroups :: "string list list"
  lex_Kinds :: "string list"
  lex_ProjectIDs :: "string list"
  lex_SourcePath :: string
  lex_Limit :: int

definition lexicalMatchExpression :: "UnicodeTables \<Rightarrow> LexicalSearchRequest \<Rightarrow> string" where
  "lexicalMatchExpression u request =
    (let tokenGroups = concat (map (\<lambda>group. let terms = lexicalTerms u (join '' '' group) in
            if length terms > 0 then [''('' @ join '' AND '' (quotedLexicalTerms terms True) @ '')''] else []) (lex_TokenGroups request));
         phrases = concat (map (\<lambda>phrase. let terms = lexicalTerms u phrase in
            if length terms > 0 then [quoteFTS (join '' '' terms)] else []) (lex_Phrases request));
         groups = tokenGroups @ phrases
     in join '' OR '' (if groups = [] then quotedLexicalTerms (lexicalTerms u (lex_Text request)) True else groups))"

definition stringContains :: "string \<Rightarrow> string \<Rightarrow> bool" where
  "stringContains s sub \<longleftrightarrow> sublist sub s"

definition lexicalMatchedFields :: "UnicodeTables \<Rightarrow> LexicalSearchRequest \<Rightarrow> string \<Rightarrow> string \<Rightarrow> string \<Rightarrow> string \<Rightarrow> string \<Rightarrow> string list" where
  "lexicalMatchedFields u request label qualifiedName spanPath kind tokens =
    (let terms = lexicalTerms u (lex_Text request)
           @ concat (map (lexicalTerms u) (lex_Phrases request))
           @ concat (map (\<lambda>group. lexicalTerms u (join '' '' group)) (lex_TokenGroups request));
         fields = [(''label'', label), (''qualifiedName'', qualifiedName), (''path'', spanPath), (''kind'', kind),
           (''identifierTokens'', tokens)]
     in map fst (filter (\<lambda>(name, value).
          let fieldValue = (if name \<noteq> ''identifierTokens'' then identifierTokens u value else value);
              fieldTokens = '' '' @ fieldValue @ '' ''
          in list_ex (\<lambda>term. stringContains fieldTokens ('' '' @ term @ '' '')) terms) fields))"

end
