(* ===== verification/Publication.thy ===== *)
theory Publication
  imports Tables Lexical
begin

text \<open>
  Writing contributions into the tables (storage/sqlite/sqlite.go and batch.go): the rows of one
  contribution, closing the prior rows of its source, INSERT statements chunked by the SQLite
  variable limit, and the publicationBatch that groups rows by table and flushes on its limits.
  The refinement: adding contributions of distinct sources to a batch and flushing it writes
  exactly what writing each contribution directly would.
\<close>

subsection \<open>Rows of a contribution\<close>

text \<open>encoding/json on a slice of strings; a nil slice is null, and copies of empty slices are nil.\<close>

definition hexDigit :: "nat \<Rightarrow> char" where "hexDigit n = ''0123456789abcdef'' ! (n mod 16)"

definition jsonRune :: "string \<Rightarrow> string" where
  "jsonRune seg = (let r = runeOf seg in
     if seg = [CHR 0x22] then [CHR 0x5C, CHR 0x22]
     else if r = 92 then [CHR 0x5C, CHR 0x5C]
     else if r = 8 then [CHR 0x5C, CHR ''b''] else if r = 12 then [CHR 0x5C, CHR ''f'']
     else if r = 10 then [CHR 0x5C, CHR ''n''] else if r = 13 then [CHR 0x5C, CHR ''r'']
     else if r = 9 then [CHR 0x5C, CHR ''t'']
     else if r < 32 \<or> r = 60 \<or> r = 62 \<or> r = 38
       then [CHR 0x5C, CHR ''u'', CHR ''0'', CHR ''0'', hexDigit (r div 16), hexDigit r]
     else if r = RuneError \<and> length seg = 1 then CHR 0x5C # ''ufffd''
     else if r = 8232 then CHR 0x5C # ''u2028'' else if r = 8233 then CHR 0x5C # ''u2029''
     else seg)"

definition jsonString :: "string \<Rightarrow> string" where
  "jsonString s = [CHR 0x22] @ concat (map jsonRune (segments s)) @ [CHR 0x22]"

definition jsonStrings :: "string list \<Rightarrow> string" where
  "jsonStrings xs = (if xs = [] then ''null'' else ''['' @ join '','' (map jsonString xs) @ '']'')"

record encodedContribution =
  enc_projectID :: string
  enc_sourcePath :: string
  enc_metadata :: Metadata
  enc_graphFacts :: Facts
  enc_catalogUnits :: "CatalogUnit list"
  enc_unresolvedReferences :: "UnresolvedReference list"
  enc_symbolReferences :: "SymbolReference list"
  enc_exportedSurfaces :: "ExportedSurface list"
  enc_dependencies :: "Dependency list"
  enc_diagnostics :: "Diagnostic list"

definition encodeContribution :: "Contribution \<Rightarrow> encodedContribution" where
  "encodeContribution c = \<lparr>enc_projectID = c_projectID c, enc_sourcePath = c_sourcePath c,
     enc_metadata = c_metadata c, enc_graphFacts = c_facts c, enc_catalogUnits = c_catalogUnits c,
     enc_unresolvedReferences = c_unresolvedReferences c, enc_symbolReferences = c_symbolReferences c,
     enc_exportedSurfaces = c_exportedSurfaces c, enc_dependencies = c_dependencies c,
     enc_diagnostics = c_diagnostics c\<rparr>"

fun encodeLoop :: "Contribution list \<Rightarrow> string set \<Rightarrow> StoreError + encodedContribution list" where
  "encodeLoop [] sourcePaths = Inr []"
| "encodeLoop (c # cs) sourcePaths =
    (if c_sourcePath c \<in> sourcePaths then Inl ErrInvalidRequest
     else res_map (\<lambda>rest. encodeContribution c # rest) (encodeLoop cs (insert (c_sourcePath c) sourcePaths)))"

definition encodeContributions :: "GraphUpdate \<Rightarrow> StoreError + encodedContribution list" where
  "encodeContributions update = encodeLoop (gu_contributions update) {}"

definition contributionData :: "encodedContribution \<Rightarrow> ContributionTable \<Rightarrow> RowData list" where
  "contributionData c t = (case t of
     file_contributions \<Rightarrow> [FileContributionRow (enc_projectID c) (md_Name (enc_metadata c)) (md_Version (enc_metadata c))]
   | contribution_extensions \<Rightarrow> map ExtensionRow (md_Extensions (enc_metadata c))
   | contribution_nodes \<Rightarrow> map NodeRow (facts_Nodes (enc_graphFacts c))
   | contribution_edges \<Rightarrow> map EdgeRow (facts_Edges (enc_graphFacts c))
   | contribution_catalog_units \<Rightarrow>
       map (\<lambda>unit. CatalogUnitRow (unit\<lparr>cu_DeclarationSource := ''''\<rparr>)) (enc_catalogUnits c)
   | contribution_catalog_unit_coverage \<Rightarrow> [CoverageRow]
   | contribution_dependencies \<Rightarrow> map (\<lambda>d. DependencyRow (dep_TargetPath d)) (enc_dependencies c)
   | contribution_exported_surfaces \<Rightarrow> map (\<lambda>s. SurfaceRow (es_NodeID s) (es_Name s)) (enc_exportedSurfaces c)
   | contribution_diagnostics \<Rightarrow> map (\<lambda>d. DiagnosticRow (dg_Severity d) (dg_Message d)) (enc_diagnostics c)
   | contribution_unresolved_references \<Rightarrow>
       map (\<lambda>r. UnresolvedRow (ur_SourceID r) (ur_Target r) (ur_Kind r) (ur_Ambiguous r)) (enc_unresolvedReferences c)
   | contribution_module_bindings \<Rightarrow>
       concat (map (\<lambda>r. map (\<lambda>b. BindingRow (ur_SourceID r) (ur_Target r) (ur_Kind r) (mb_ImportedName b)
           (mb_ExportedName b) (mb_LocalName b)) (ur_Bindings r)) (enc_unresolvedReferences c))
   | contribution_symbol_references \<Rightarrow>
       map (\<lambda>r. SymbolRow (sr_SourceID r) (sr_Target r) (sr_Relation r) (sr_Evidence r)) (enc_symbolReferences c))"

definition prepareContribution :: "string \<Rightarrow> GraphVersion \<Rightarrow> encodedContribution \<Rightarrow> ContributionTable \<Rightarrow> Row list" where
  "prepareContribution workspace version c t =
     map (\<lambda>d. \<lparr>row_workspace = workspace, row_source = enc_sourcePath c, row_from = version, row_to = None, row_data = d\<rparr>)
       (contributionData c t)"

text \<open>
  The values bound to one inserted row.  The size estimate counts the length of values whose Go
  type is string; integers, booleans and the named string types (kinds, relations, severities,
  confidences) fall into its default case.
\<close>

datatype Cell = StringCell string | OtherCell

definition evidenceCells :: "FactEvidence \<Rightarrow> Cell list" where
  "evidenceCells e = [StringCell (span_Path (ev_Span e)), OtherCell, OtherCell, OtherCell, OtherCell,
     StringCell (ev_FileHash e), StringCell (ev_Extractor e), StringCell (ev_Provenance e), OtherCell]"

definition dataCells :: "RowData \<Rightarrow> Cell list" where
  "dataCells d = (case d of
     FileContributionRow p n v \<Rightarrow> [StringCell p, StringCell n, StringCell v]
   | ExtensionRow e \<Rightarrow> [StringCell e]
   | NodeRow n \<Rightarrow> [StringCell (node_ID n), OtherCell, StringCell (node_Label n), StringCell (node_QualifiedName n)]
       @ evidenceCells (node_Evidence n)
   | EdgeRow e \<Rightarrow> [StringCell (edge_SourceID e), StringCell (edge_TargetID e), OtherCell] @ evidenceCells (edge_Evidence e)
   | CatalogUnitRow u \<Rightarrow> [StringCell (cu_NodeID u), StringCell (cu_Name u), OtherCell, StringCell (cu_Owner u),
       StringCell (cu_Signature u), StringCell (jsonStrings (cu_Comments u)), StringCell (jsonStrings (cu_IdentifierTokens u))]
   | CoverageRow \<Rightarrow> []
   | DependencyRow p \<Rightarrow> [StringCell p]
   | SurfaceRow i n \<Rightarrow> [StringCell i, StringCell n]
   | DiagnosticRow s m \<Rightarrow> [OtherCell, StringCell m]
   | UnresolvedRow s t k a \<Rightarrow> [StringCell s, StringCell t, OtherCell, OtherCell]
   | BindingRow s t k i x l \<Rightarrow> [StringCell s, StringCell t, OtherCell, StringCell i, StringCell x, StringCell l]
   | SymbolRow s t r e \<Rightarrow> [StringCell s, StringCell t, OtherCell] @ evidenceCells e)"

definition rowCells :: "Row \<Rightarrow> Cell list" where
  "rowCells r = [StringCell (row_workspace r), StringCell (row_source r), OtherCell] @ dataCells (row_data r)"

fun cellBytes :: "Cell \<Rightarrow> nat" where
  "cellBytes (StringCell s) = length s"
| "cellBytes OtherCell = 8"

definition estimateRowBytes :: "Row \<Rightarrow> nat" where
  "estimateRowBytes r = 8 + sum_list (map cellBytes (rowCells r))"

definition estimateContributionRowsBytes :: "Row list list \<Rightarrow> nat" where
  "estimateContributionRowsBytes groups = sum_list (map (\<lambda>rows. sum_list (map estimateRowBytes rows)) groups)"

subsection \<open>Statements on one table\<close>

definition rowKey :: "RowData \<Rightarrow> string list" where
  "rowKey d = (case d of
     FileContributionRow p n v \<Rightarrow> []
   | ExtensionRow e \<Rightarrow> [e]
   | NodeRow n \<Rightarrow> [node_ID n]
   | EdgeRow e \<Rightarrow> [edge_SourceID e, edge_TargetID e, edge_Relation e]
   | CatalogUnitRow u \<Rightarrow> [cu_NodeID u]
   | CoverageRow \<Rightarrow> []
   | DependencyRow p \<Rightarrow> [p]
   | SurfaceRow i n \<Rightarrow> [i, n]
   | DiagnosticRow s m \<Rightarrow> [s, m]
   | UnresolvedRow s t k a \<Rightarrow> [s, t, k]
   | BindingRow s t k i x l \<Rightarrow> [s, t, k, i, x, l]
   | SymbolRow s t r e \<Rightarrow> [s, t, r])"

definition sameKey :: "Row \<Rightarrow> Row \<Rightarrow> bool" where
  "sameKey a b \<longleftrightarrow> row_workspace a = row_workspace b \<and> row_source a = row_source b \<and> row_from a = row_from b
     \<and> rowKey (row_data a) = rowKey (row_data b)"

text \<open>INSERT OR IGNORE row by row, and the primary key conflict of a plain INSERT.\<close>

fun ignoreInsert :: "Row list \<Rightarrow> Row list \<Rightarrow> Row list" where
  "ignoreInsert rows [] = rows"
| "ignoreInsert rows (r # rs) = ignoreInsert (if list_ex (sameKey r) rows then rows else rows @ [r]) rs"

fun hasConflict :: "Row list \<Rightarrow> Row list \<Rightarrow> bool" where
  "hasConflict rows [] = False"
| "hasConflict rows (r # rs) = (list_ex (sameKey r) rows \<or> hasConflict (rows @ [r]) rs)"

definition setTable :: "ContributionTable \<Rightarrow> Row list \<Rightarrow> Database \<Rightarrow> Database" where
  "setTable t rows db = db\<lparr>db_rows := (db_rows db)(t := rows)\<rparr>"

definition execInsert :: "ContributionTable \<Rightarrow> Row list \<Rightarrow> Database \<Rightarrow> StoreError + Database" where
  "execInsert t rs db =
    (if t = file_contributions \<and> hasConflict (db_rows db t) rs then Inl (ErrDatabase ''UNIQUE constraint failed'')
     else Inr (setTable t (ignoreInsert (db_rows db t) rs) db))"

text \<open>
  insertRows of batch.go: at most rowsPerBatch rows per statement.  The prefix of the statement is
  the function that executes it on a chunk; cells gives the values bound for one row.
\<close>

function insertChunks :: "nat \<Rightarrow> ('r \<Rightarrow> Cell list) \<Rightarrow> ('r list \<Rightarrow> Database \<Rightarrow> StoreError + Database)
    \<Rightarrow> nat \<Rightarrow> 'r list \<Rightarrow> Database \<Rightarrow> StoreError + Database" where
  "insertChunks rowsPerBatch cells exec columnCount rows db =
    (if rows = [] \<or> rowsPerBatch = 0 then Inr db
     else let chunk = take rowsPerBatch rows in
       if list_ex (\<lambda>r. length (cells r) \<noteq> columnCount) chunk then Inl (ErrDatabase ''insert rows: row width'')
       else (case exec chunk db of
               Inl e \<Rightarrow> Inl e
             | Inr db' \<Rightarrow> insertChunks rowsPerBatch cells exec columnCount (drop rowsPerBatch rows) db'))"
  by auto
termination
  by (relation "measure (\<lambda>(k, f, x, c, rows, db). length rows)") auto

declare insertChunks.simps [simp del]

definition insertRows :: "nat \<Rightarrow> nat \<Rightarrow> ('r \<Rightarrow> Cell list) \<Rightarrow> ('r list \<Rightarrow> Database \<Rightarrow> StoreError + Database)
    \<Rightarrow> 'r list \<Rightarrow> Database \<Rightarrow> StoreError + Database" where
  "insertRows variableLimit maximumRows cells exec rows db =
    (if rows = [] then Inr db
     else let columnCount = length (cells (hd rows)) in
       if columnCount = 0 then Inl (ErrDatabase ''insert rows: row has no values'')
       else let rowsPerBatch = min (variableLimit div columnCount) maximumRows in
         if rowsPerBatch < 1 then Inl (ErrDatabase ''insert rows: SQLite variable limit'')
         else insertChunks rowsPerBatch cells exec columnCount rows db)"

text \<open>
  The contract of an INSERT statement: executing it on a concatenation of rows is executing it on
  the parts in turn, and on no row changes nothing.  Chunking is then invisible.
\<close>

locale insert_statement =
  fixes cells :: "'r \<Rightarrow> Cell list" and exec :: "'r list \<Rightarrow> Database \<Rightarrow> StoreError + Database" and width :: nat
  assumes exec_Nil: "exec [] db = Inr db"
    and exec_append: "exec (xs @ ys) db = res_bind (exec xs db) (exec ys)"
    and width_pos: "0 < width"
begin

lemma insertChunks_exec:
  assumes "0 < k" "\<forall>r\<in>set rows. length (cells r) = width"
  shows "insertChunks k cells exec width rows db = exec rows db"
  using assms
proof (induction rows arbitrary: db rule: length_induct)
  case (1 rows)
  show ?case
  proof (cases "rows = []")
    case True
    then show ?thesis by (simp add: insertChunks.simps exec_Nil)
  next
    case False
    have w: "\<not> list_ex (\<lambda>r. length (cells r) \<noteq> width) (take k rows)"
      using 1(3) by (auto simp: list_ex_iff dest: in_set_takeD)
    have "length (drop k rows) < length rows" using False 1(2) by simp
    moreover have "\<forall>r\<in>set (drop k rows). length (cells r) = width" using 1(3) by (auto dest: in_set_dropD)
    ultimately have IH: "insertChunks k cells exec width (drop k rows) db' = exec (drop k rows) db'" for db'
      using 1(1,2) by blast
    have "exec rows db = res_bind (exec (take k rows) db) (exec (drop k rows))"
      using exec_append[of "take k rows" "drop k rows"] by simp
    then show ?thesis
      using False 1(2) w IH by (subst insertChunks.simps) (auto split: sum.splits)
  qed
qed

lemma insertRows_exec:
  assumes "width \<le> variableLimit" "0 < maximumRows" "\<forall>r\<in>set rows. length (cells r) = width"
  shows "insertRows variableLimit maximumRows cells exec rows db = exec rows db"
proof (cases "rows = []")
  case True
  then show ?thesis by (simp add: insertRows_def exec_Nil)
next
  case False
  then have w: "length (cells (hd rows)) = width" using assms(3) by simp
  have "0 < variableLimit div width" using assms(1) width_pos by (simp add: div_greater_zero_iff)
  then show ?thesis
    using False w width_pos assms(2) insertChunks_exec[OF _ assms(3), of "min (variableLimit div width) maximumRows" db]
    by (simp add: insertRows_def Let_def min_def)
qed

end

definition closeRow :: "string \<Rightarrow> string \<Rightarrow> GraphVersion \<Rightarrow> Row \<Rightarrow> Row" where
  "closeRow ws source version r =
    (if row_workspace r = ws \<and> row_source r = source \<and> row_to r = None then r\<lparr>row_to := Some version\<rparr> else r)"

definition closeContributionRecords :: "string \<Rightarrow> string \<Rightarrow> GraphVersion \<Rightarrow> Database \<Rightarrow> Database" where
  "closeContributionRecords ws source version db =
     fold (\<lambda>t db. setTable t (map (closeRow ws source version) (db_rows db t)) db) contributionTables db"

subsection \<open>The publication batch\<close>

record contributionBatchLimits =
  lim_maximumRows :: nat
  lim_maximumBytes :: nat
  lim_maximumSources :: nat

record publicationBatch =
  pb_variableLimit :: nat
  pb_insertions :: "ContributionTable \<Rightarrow> Row list"
  pb_limits :: contributionBatchLimits
  pb_rowCount :: nat
  pb_estimatedBytes :: nat
  pb_sourceCount :: nat

definition maximumBatchRows :: nat where "maximumBatchRows = 500"

text \<open>The order in which newPublicationBatch lists its insertions.\<close>

definition insertionTables :: "ContributionTable list" where
  "insertionTables = [file_contributions, contribution_nodes, contribution_edges, contribution_catalog_units,
     contribution_catalog_unit_coverage, contribution_extensions, contribution_dependencies,
     contribution_exported_surfaces, contribution_diagnostics, contribution_unresolved_references,
     contribution_module_bindings, contribution_symbol_references]"

definition newPublicationBatch :: "nat \<Rightarrow> contributionBatchLimits \<Rightarrow> publicationBatch" where
  "newPublicationBatch variableLimit limits = \<lparr>pb_variableLimit = variableLimit, pb_insertions = (\<lambda>_. []),
     pb_limits = limits, pb_rowCount = 0, pb_estimatedBytes = 0, pb_sourceCount = 0\<rparr>"

definition flushInsertion :: "ContributionTable \<Rightarrow> publicationBatch \<times> Database \<Rightarrow> StoreError + publicationBatch \<times> Database" where
  "flushInsertion t st =
    (case st of (batch, db) \<Rightarrow>
       if pb_insertions batch t = [] then Inr (batch, db)
       else let maximumRows = (if lim_maximumRows (pb_limits batch) = 0 then maximumBatchRows else lim_maximumRows (pb_limits batch))
            in res_map (\<lambda>db'. (batch\<lparr>pb_insertions := (pb_insertions batch)(t := [])\<rparr>, db'))
                 (insertRows (pb_variableLimit batch) maximumRows rowCells (execInsert t) (pb_insertions batch t) db))"

definition flushBatch :: "publicationBatch \<times> Database \<Rightarrow> StoreError + publicationBatch \<times> Database" where
  "flushBatch st = res_map (\<lambda>(batch, db). (batch\<lparr>pb_rowCount := 0, pb_estimatedBytes := 0, pb_sourceCount := 0\<rparr>, db))
     (fold_res flushInsertion insertionTables st)"

definition overLimit :: "nat \<Rightarrow> nat \<Rightarrow> bool" where
  "overLimit limit used \<longleftrightarrow> limit > 0 \<and> used > limit"

definition atLimit :: "nat \<Rightarrow> nat \<Rightarrow> bool" where
  "atLimit limit used \<longleftrightarrow> limit > 0 \<and> used \<ge> limit"

text \<open>Appending the rows of one table, flushing it at once when no limits are set.\<close>

definition appendRows :: "bool \<Rightarrow> (ContributionTable \<Rightarrow> Row list) \<Rightarrow> ContributionTable
    \<Rightarrow> publicationBatch \<times> Database \<Rightarrow> StoreError + publicationBatch \<times> Database" where
  "appendRows legacyBatch prepared t st =
    (case st of (batch, db) \<Rightarrow>
       let batch' = batch\<lparr>pb_insertions := (pb_insertions batch)(t := pb_insertions batch t @ prepared t)\<rparr> in
       if legacyBatch \<and> length (pb_insertions batch' t) \<ge> maximumBatchRows then flushInsertion t (batch', db)
       else Inr (batch', db))"

definition addToBatch :: "string \<Rightarrow> GraphVersion \<Rightarrow> encodedContribution
    \<Rightarrow> publicationBatch \<times> Database \<Rightarrow> StoreError + publicationBatch \<times> Database" where
  "addToBatch workspace version contribution st =
    (let prepared = prepareContribution workspace version contribution;
         groups = map prepared insertionTables;
         preparedRowCount = sum_list (map length groups);
         preparedBytes = estimateContributionRowsBytes groups;
         limits = pb_limits (fst st)
     in res_bind
          (if pb_sourceCount (fst st) > 0
              \<and> (overLimit (lim_maximumRows limits) (pb_rowCount (fst st) + preparedRowCount)
                 \<or> overLimit (lim_maximumBytes limits) (pb_estimatedBytes (fst st) + preparedBytes))
           then flushBatch st else Inr st) (\<lambda>(batch1, db1).
        let db2 = (if version > 1
                   then closeContributionRecords workspace (enc_sourcePath contribution) (version - 1) db1 else db1);
            legacyBatch = (lim_maximumRows limits = 0 \<and> lim_maximumBytes limits = 0 \<and> lim_maximumSources limits = 0)
        in res_bind (fold_res (appendRows legacyBatch prepared) insertionTables (batch1, db2)) (\<lambda>(batch2, db3).
             let batch3 = batch2\<lparr>pb_rowCount := pb_rowCount batch2 + preparedRowCount,
                    pb_estimatedBytes := pb_estimatedBytes batch2 + preparedBytes,
                    pb_sourceCount := pb_sourceCount batch2 + 1\<rparr>
             in if atLimit (lim_maximumRows limits) (pb_rowCount batch3)
                   \<or> atLimit (lim_maximumBytes limits) (pb_estimatedBytes batch3)
                   \<or> atLimit (lim_maximumSources limits) (pb_sourceCount batch3)
                then flushBatch (batch3, db3) else Inr (batch3, db3))))"

definition writeBatched :: "nat \<Rightarrow> contributionBatchLimits \<Rightarrow> string \<Rightarrow> GraphVersion \<Rightarrow> encodedContribution list
    \<Rightarrow> Database \<Rightarrow> StoreError + Database" where
  "writeBatched variableLimit limits workspace version contributions db =
     res_bind (fold_res (addToBatch workspace version) contributions (newPublicationBatch variableLimit limits, db)) (\<lambda>st.
     res_map snd (flushBatch st))"

subsection \<open>Insertion as a function of rows\<close>

lemma sameKey_refl [simp]: "sameKey r r"
  by (simp add: sameKey_def)

lemma sameKey_sym: "sameKey a b = sameKey b a"
  by (auto simp: sameKey_def)

lemma sameKey_trans: "sameKey a b \<Longrightarrow> sameKey b c \<Longrightarrow> sameKey a c"
  by (simp add: sameKey_def)

lemma ignoreInsert_append: "ignoreInsert rows (xs @ ys) = ignoreInsert (ignoreInsert rows xs) ys"
  by (induction xs arbitrary: rows) auto

lemma hasConflict_append: "hasConflict rows (xs @ ys) \<longleftrightarrow> hasConflict rows xs \<or> hasConflict (rows @ xs) ys"
  by (induction xs arbitrary: rows) auto

lemma ignoreInsert_no_conflict: "\<not> hasConflict rows xs \<Longrightarrow> ignoreInsert rows xs = rows @ xs"
  by (induction xs arbitrary: rows) auto

lemma ignoreInsert_Nil [simp]: "ignoreInsert rows [] = rows"
  by simp

lemma map_key_stable:
  assumes "\<And>a b. sameKey a (f b) = sameKey a b"
  shows "list_ex (sameKey r) (map f rows) = list_ex (sameKey r) rows"
  using assms by (induction rows) auto

lemma ignoreInsert_map:
  assumes key: "\<And>a b. sameKey a (f b) = sameKey a b" and fixed: "\<forall>r\<in>set rs. f r = r"
  shows "ignoreInsert (map f rows) rs = map f (ignoreInsert rows rs)"
  using fixed
proof (induction rs arbitrary: rows)
  case (Cons r rs)
  have "list_ex (sameKey r) (map f rows) = list_ex (sameKey r) rows" using key by (rule map_key_stable)
  then show ?case using Cons Cons.IH[of "rows @ [r]"] by simp
qed simp

lemma hasConflict_map:
  assumes key: "\<And>a b. sameKey a (f b) = sameKey a b"
  shows "hasConflict (map f rows @ qs) rs = hasConflict (rows @ qs) rs"
proof (induction rs arbitrary: qs)
  case (Cons r rs)
  have "list_ex (sameKey r) (map f rows) = list_ex (sameKey r) rows" using key by (rule map_key_stable)
  then show ?case using Cons[of "qs @ [r]"] by simp
qed simp

lemma ignoreInsert_prefix:
  "\<forall>r\<in>set rs. \<not> list_ex (sameKey r) pre \<Longrightarrow> ignoreInsert (pre @ rows) rs = pre @ ignoreInsert rows rs"
  by (induction rs arbitrary: rows) auto

lemma ignoreInsert_fresh:
  "\<forall>r\<in>set rs. \<not> list_ex (sameKey r) rows \<Longrightarrow> ignoreInsert rows rs = rows @ ignoreInsert [] rs"
  using ignoreInsert_prefix[of rs rows "[]"] by simp

lemma set_ignoreInsert: "set rows \<subseteq> set (ignoreInsert rows rs) \<and> set (ignoreInsert rows rs) \<subseteq> set rows \<union> set rs"
proof (induction rs arbitrary: rows)
  case (Cons r rs)
  from Cons[of "if list_ex (sameKey r) rows then rows else rows @ [r]"] show ?case by (auto split: if_splits)
qed simp

lemma ignoreInsert_covers: "r \<in> set rs \<Longrightarrow> \<exists>x\<in>set (ignoreInsert rows rs). sameKey r x"
proof (induction rs arbitrary: rows)
  case (Cons a rs)
  show ?case
  proof (cases "r = a")
    case True
    let ?R = "if list_ex (sameKey a) rows then rows else rows @ [a]"
    have "\<exists>x\<in>set ?R. sameKey a x" by (auto simp: list_ex_iff)
    then obtain x where x: "x \<in> set ?R" "sameKey a x" by blast
    then have "x \<in> set (ignoreInsert ?R rs)" using set_ignoreInsert[of ?R rs] by blast
    then show ?thesis using x(2) True unfolding ignoreInsert.simps(2) by blast
  next
    case False
    then show ?thesis using Cons by simp
  qed
qed simp

lemma sameKey_closeRow [simp]: "sameKey a (closeRow ws src v b) = sameKey a b"
  by (simp add: sameKey_def closeRow_def)

lemma closeRow_other [simp]: "row_source r \<noteq> src \<Longrightarrow> closeRow ws src v r = r"
  by (simp add: closeRow_def)

subsection \<open>Tables as functions\<close>

lemma db_rows_setTable [simp]: "db_rows (setTable t rows db) = (db_rows db)(t := rows)"
  by (simp add: setTable_def)

lemma setTable_other [simp]:
  "db_workspace_nodes (setTable t rows db) = db_workspace_nodes db"
  "db_workspace_edges (setTable t rows db) = db_workspace_edges db"
  "db_graph_versions (setTable t rows db) = db_graph_versions db"
  "db_derived (setTable t rows db) = db_derived db"
  by (simp_all add: setTable_def)

text \<open>Running a statement on every contribution table updates them pointwise.\<close>

definition mapTables :: "(ContributionTable \<Rightarrow> Row list \<Rightarrow> Row list) \<Rightarrow> Database \<Rightarrow> Database" where
  "mapTables f db = db\<lparr>db_rows := (\<lambda>t. f t (db_rows db t))\<rparr>"

lemma fold_setTable:
  "distinct ts \<Longrightarrow> fold (\<lambda>t db. setTable t (f t (db_rows db t)) db) ts db
     = db\<lparr>db_rows := (\<lambda>t. if t \<in> set ts then f t (db_rows db t) else db_rows db t)\<rparr>"
proof (induction ts arbitrary: db)
  case (Cons t ts)
  then show ?case by (auto simp: setTable_def fun_eq_iff)
qed simp

lemma fold_all_tables:
  "distinct ts \<Longrightarrow> set ts = UNIV \<Longrightarrow> fold (\<lambda>t db. setTable t (f t (db_rows db t)) db) ts db = mapTables f db"
  by (simp add: fold_setTable mapTables_def)

lemma closeContributionRecords_map:
  "closeContributionRecords ws src v db = mapTables (\<lambda>_. map (closeRow ws src v)) db"
  unfolding closeContributionRecords_def by (rule fold_all_tables) simp_all

lemma db_rows_mapTables [simp]: "db_rows (mapTables f db) t = f t (db_rows db t)"
  by (simp add: mapTables_def)

lemma mapTables_other [simp]:
  "db_workspace_nodes (mapTables f db) = db_workspace_nodes db"
  "db_workspace_edges (mapTables f db) = db_workspace_edges db"
  "db_graph_versions (mapTables f db) = db_graph_versions db"
  "db_derived (mapTables f db) = db_derived db"
  by (simp_all add: mapTables_def)

lemma mapTables_mapTables: "mapTables f (mapTables g db) = mapTables (\<lambda>t. f t \<circ> g t) db"
  by (simp add: mapTables_def)

lemma mapTables_setTable:
  "mapTables f (setTable t rows db) = setTable t (f t rows) (mapTables f db)"
  by (auto simp: mapTables_def setTable_def fun_eq_iff)

lemma insertionTables_all [simp]: "distinct insertionTables" "set insertionTables = UNIV"
proof -
  show "distinct insertionTables" by (simp add: insertionTables_def)
  show "set insertionTables = UNIV"
  proof (intro equalityI subset_UNIV subsetI)
    fix t :: ContributionTable
    show "t \<in> set insertionTables" by (cases t) (simp_all add: insertionTables_def)
  qed
qed

subsection \<open>Chunked insertion writes every row\<close>

definition tableWidth :: "ContributionTable \<Rightarrow> nat" where
  "tableWidth t = (case t of file_contributions \<Rightarrow> 6 | contribution_extensions \<Rightarrow> 4 | contribution_nodes \<Rightarrow> 16
     | contribution_edges \<Rightarrow> 15 | contribution_catalog_units \<Rightarrow> 10 | contribution_catalog_unit_coverage \<Rightarrow> 3
     | contribution_dependencies \<Rightarrow> 4 | contribution_exported_surfaces \<Rightarrow> 5 | contribution_diagnostics \<Rightarrow> 5
     | contribution_unresolved_references \<Rightarrow> 7 | contribution_module_bindings \<Rightarrow> 9
     | contribution_symbol_references \<Rightarrow> 15)"

definition typedRows :: "ContributionTable \<Rightarrow> Row list \<Rightarrow> bool" where
  "typedRows t rs \<longleftrightarrow> (\<forall>r\<in>set rs. length (rowCells r) = tableWidth t)"

lemma tableWidth_bounds: "0 < tableWidth t" "tableWidth t \<le> 16"
  by (cases t; simp add: tableWidth_def)+

lemma prepared_typed: "typedRows t (prepareContribution ws v c t)"
  by (cases t) (auto simp: typedRows_def prepareContribution_def contributionData_def rowCells_def dataCells_def
      evidenceCells_def tableWidth_def)

lemma execInsert_append: "execInsert t (xs @ ys) db = res_bind (execInsert t xs db) (execInsert t ys)"
  by (auto simp: execInsert_def hasConflict_append ignoreInsert_append ignoreInsert_no_conflict setTable_def)

interpretation contribution_insert: insert_statement rowCells "execInsert t" "tableWidth t" for t
  by unfold_locales (simp_all add: execInsert_append tableWidth_bounds(1), simp add: execInsert_def setTable_def)

lemma insertRows_writes:
  assumes "16 \<le> variableLimit" "0 < maximumRows" "typedRows t rows"
    "t = file_contributions \<longrightarrow> \<not> hasConflict (db_rows db t) rows"
  shows "insertRows variableLimit maximumRows rowCells (execInsert t) rows db
    = Inr (setTable t (ignoreInsert (db_rows db t) rows) db)"
proof -
  have "insertRows variableLimit maximumRows rowCells (execInsert t) rows db = execInsert t rows db"
    using assms tableWidth_bounds(2)[of t] by (intro contribution_insert.insertRows_exec) (auto simp: typedRows_def)
  then show ?thesis using assms(4) by (auto simp: execInsert_def)
qed

subsection \<open>The batch refines direct writing\<close>

text \<open>The database once everything pending in the batch is inserted.\<close>

definition commitPending :: "publicationBatch \<times> Database \<Rightarrow> Database" where
  "commitPending st = mapTables (\<lambda>t rows. ignoreInsert rows (pb_insertions (fst st) t)) (snd st)"

definition batch_ok :: "publicationBatch \<times> Database \<Rightarrow> Row list \<Rightarrow> bool" where
  "batch_ok st future \<longleftrightarrow> 16 \<le> pb_variableLimit (fst st)
     \<and> (\<forall>t. typedRows t (pb_insertions (fst st) t))
     \<and> \<not> hasConflict (db_rows (snd st) file_contributions) (pb_insertions (fst st) file_contributions @ future)"

definition writeDirect :: "string \<Rightarrow> GraphVersion \<Rightarrow> encodedContribution \<Rightarrow> Database \<Rightarrow> Database" where
  "writeDirect workspace version c db =
     mapTables (\<lambda>t rows. ignoreInsert rows (prepareContribution workspace version c t))
       (if version > 1 then closeContributionRecords workspace (enc_sourcePath c) (version - 1) db else db)"

lemma flushInsertion_ok:
  assumes "batch_ok st future"
  shows "\<exists>st'. flushInsertion t st = Inr st' \<and> batch_ok st' future \<and> commitPending st' = commitPending st
    \<and> pb_insertions (fst st') = (pb_insertions (fst st))(t := []) \<and> pb_limits (fst st') = pb_limits (fst st)
    \<and> pb_sourceCount (fst st') = pb_sourceCount (fst st)"
proof (cases "pb_insertions (fst st) t = []")
  case True
  then have "(pb_insertions (fst st))(t := []) = pb_insertions (fst st)" by (simp add: fun_upd_idem)
  then show ?thesis using True assms by (auto simp: flushInsertion_def split: prod.splits)
next
  case False
  obtain b db where st: "st = (b, db)" by (cases st)
  let ?m = "if lim_maximumRows (pb_limits b) = 0 then maximumBatchRows else lim_maximumRows (pb_limits b)"
  let ?p = "pb_insertions b t"
  let ?db = "setTable t (ignoreInsert (db_rows db t) ?p) db"
  have ok: "16 \<le> pb_variableLimit b" "\<forall>t. typedRows t (pb_insertions b t)"
    "\<not> hasConflict (db_rows db file_contributions) (pb_insertions b file_contributions @ future)"
    using assms by (simp_all add: batch_ok_def st)
  have "insertRows (pb_variableLimit b) ?m rowCells (execInsert t) ?p db = Inr ?db"
    using ok by (intro insertRows_writes) (auto simp: maximumBatchRows_def hasConflict_append)
  then have fl: "flushInsertion t st = Inr (b\<lparr>pb_insertions := (pb_insertions b)(t := [])\<rparr>, ?db)"
    using False by (simp add: flushInsertion_def st Let_def)
  have "\<not> hasConflict (db_rows ?db file_contributions) (((pb_insertions b)(t := [])) file_contributions @ future)"
    using ok(3) by (cases "t = file_contributions") (auto simp: hasConflict_append ignoreInsert_no_conflict)
  moreover have "commitPending (b\<lparr>pb_insertions := (pb_insertions b)(t := [])\<rparr>, ?db) = commitPending st"
    by (auto simp: commitPending_def st mapTables_def setTable_def fun_eq_iff)
  moreover have "\<forall>x. typedRows x (((pb_insertions b)(t := [])) x)" using ok(2) by (simp add: typedRows_def)
  ultimately show ?thesis using fl ok by (simp add: batch_ok_def st)
qed

lemma flush_tables:
  assumes "batch_ok st future"
  shows "\<exists>st'. fold_res flushInsertion ts st = Inr st' \<and> batch_ok st' future \<and> commitPending st' = commitPending st
    \<and> pb_insertions (fst st') = (\<lambda>t. if t \<in> set ts then [] else pb_insertions (fst st) t)
    \<and> pb_limits (fst st') = pb_limits (fst st)"
  using assms
proof (induction ts arbitrary: st)
  case (Cons t ts)
  from flushInsertion_ok[OF Cons.prems, of t] obtain st1 where 1: "flushInsertion t st = Inr st1"
    "batch_ok st1 future" "commitPending st1 = commitPending st"
    "pb_insertions (fst st1) = (pb_insertions (fst st))(t := [])" "pb_limits (fst st1) = pb_limits (fst st)" by blast
  from Cons.IH[OF 1(2)] 1 show ?case by (auto simp: fun_eq_iff)
qed auto

lemma flushBatch_ok:
  assumes "batch_ok st future"
  shows "\<exists>st'. flushBatch st = Inr st' \<and> batch_ok st' future \<and> snd st' = commitPending st
    \<and> commitPending st' = commitPending st
    \<and> pb_insertions (fst st') = (\<lambda>_. []) \<and> pb_limits (fst st') = pb_limits (fst st)"
proof -
  from flush_tables[OF assms, of insertionTables] obtain b db where
    1: "fold_res flushInsertion insertionTables st = Inr (b, db)" "batch_ok (b, db) future"
      "commitPending (b, db) = commitPending st" "pb_insertions b = (\<lambda>_. [])" "pb_limits b = pb_limits (fst st)"
    by auto
  have "db = commitPending st"
    using 1(3) unfolding 1(3)[symmetric] by (simp add: commitPending_def 1(4) mapTables_def)
  then show ?thesis using 1 by (simp add: flushBatch_def batch_ok_def commitPending_def)
qed

lemma appendRows_ok:
  assumes ok: "batch_ok st (if t = file_contributions then prepared t @ future else future)"
    and typed: "typedRows t (prepared t)"
  shows "\<exists>st'. appendRows legacy prepared t st = Inr st' \<and> batch_ok st' future
    \<and> commitPending st' = mapTables (\<lambda>x rows. if x = t then ignoreInsert rows (prepared t) else rows) (commitPending st)
    \<and> (\<forall>x. set (pb_insertions (fst st') x) \<subseteq> set (pb_insertions (fst st) x) \<union> set (prepared x))
    \<and> pb_limits (fst st') = pb_limits (fst st)"
proof -
  obtain b db where st: "st = (b, db)" by (cases st)
  let ?b = "b\<lparr>pb_insertions := (pb_insertions b)(t := pb_insertions b t @ prepared t)\<rparr>"
  have ok': "batch_ok (?b, db) future"
    using ok typed by (auto simp: batch_ok_def st typedRows_def split: if_splits)
  have cp: "commitPending (?b, db) = mapTables (\<lambda>x rows. if x = t then ignoreInsert rows (prepared t) else rows) (commitPending st)"
    by (auto simp: commitPending_def st mapTables_def fun_eq_iff ignoreInsert_append)
  show ?thesis
  proof (cases "legacy \<and> length (pb_insertions ?b t) \<ge> maximumBatchRows")
    case True
    from flushInsertion_ok[OF ok', of t] cp True show ?thesis
      by (auto simp: appendRows_def st Let_def)
  next
    case False
    then have "appendRows legacy prepared t st = Inr (?b, db)" by (auto simp: appendRows_def st Let_def)
    then show ?thesis using ok' cp by (auto simp: st)
  qed
qed

lemma append_tables:
  assumes "distinct ts" "batch_ok st (if file_contributions \<in> set ts then prepared file_contributions @ future else future)"
    and typed: "\<And>t. typedRows t (prepared t)"
  shows "\<exists>st'. fold_res (appendRows legacy prepared) ts st = Inr st' \<and> batch_ok st' future
    \<and> commitPending st' = mapTables (\<lambda>x rows. if x \<in> set ts then ignoreInsert rows (prepared x) else rows) (commitPending st)
    \<and> (\<forall>x. set (pb_insertions (fst st') x) \<subseteq> set (pb_insertions (fst st) x) \<union> set (prepared x))
    \<and> pb_limits (fst st') = pb_limits (fst st)"
  using assms(1,2)
proof (induction ts arbitrary: st)
  case Nil
  then show ?case by (simp add: mapTables_def)
next
  case (Cons t ts)
  let ?fut = "if file_contributions \<in> set ts then prepared file_contributions @ future else future"
  have "batch_ok st (if t = file_contributions then prepared t @ ?fut else ?fut)"
    using Cons.prems by (auto split: if_splits)
  from appendRows_ok[where prepared = prepared and t = t and future = ?fut and legacy = legacy, OF this typed]
  obtain st1 where
    1: "appendRows legacy prepared t st = Inr st1" "batch_ok st1 ?fut"
      "commitPending st1 = mapTables (\<lambda>x rows. if x = t then ignoreInsert rows (prepared t) else rows) (commitPending st)"
      "\<forall>x. set (pb_insertions (fst st1) x) \<subseteq> set (pb_insertions (fst st) x) \<union> set (prepared x)"
      "pb_limits (fst st1) = pb_limits (fst st)" by blast
  from Cons.IH[OF _ 1(2)] Cons.prems(1) obtain st2 where
    2: "fold_res (appendRows legacy prepared) ts st1 = Inr st2" "batch_ok st2 future"
      "commitPending st2 = mapTables (\<lambda>x rows. if x \<in> set ts then ignoreInsert rows (prepared x) else rows) (commitPending st1)"
      "\<forall>x. set (pb_insertions (fst st2) x) \<subseteq> set (pb_insertions (fst st1) x) \<union> set (prepared x)"
      "pb_limits (fst st2) = pb_limits (fst st1)" by auto
  have "commitPending st2 = mapTables (\<lambda>x rows. if x \<in> set (t # ts) then ignoreInsert rows (prepared x) else rows) (commitPending st)"
    unfolding 2(3) 1(3) mapTables_mapTables using Cons.prems(1) by (auto simp: mapTables_def fun_eq_iff)
  then show ?case using 1 2 by (auto; blast)
qed

definition pendingSources :: "publicationBatch \<Rightarrow> string set" where
  "pendingSources b = (\<Union>t. row_source ` set (pb_insertions b t))"

lemma commit_close:
  assumes "src \<notin> pendingSources b"
  shows "commitPending (b, closeContributionRecords ws src v db) = closeContributionRecords ws src v (commitPending (b, db))"
proof -
  have "ignoreInsert (map (closeRow ws src v) rows) (pb_insertions b t) = map (closeRow ws src v) (ignoreInsert rows (pb_insertions b t))" for t rows
    using assms by (intro ignoreInsert_map ballI closeRow_other) (auto simp: pendingSources_def)
  then show ?thesis
    by (simp add: closeContributionRecords_map commitPending_def mapTables_mapTables o_def)
qed

lemma batch_ok_close: "batch_ok (b, closeContributionRecords ws src v db) future = batch_ok (b, db) future"
  using hasConflict_map[of "closeRow ws src v" "db_rows db file_contributions" "[]"]
  by (simp add: batch_ok_def closeContributionRecords_map)

lemma prepared_source: "r \<in> set (prepareContribution ws v c t) \<Longrightarrow> row_source r = enc_sourcePath c \<and> row_from r = v
    \<and> row_workspace r = ws \<and> row_to r = None"
  by (auto simp: prepareContribution_def)

lemma addToBatch_ok:
  assumes ok: "batch_ok st (prepareContribution ws v c file_contributions @ future)"
    and src: "enc_sourcePath c \<notin> pendingSources (fst st)"
  shows "\<exists>st'. addToBatch ws v c st = Inr st' \<and> batch_ok st' future \<and> commitPending st' = writeDirect ws v c (commitPending st)
    \<and> pendingSources (fst st') \<subseteq> insert (enc_sourcePath c) (pendingSources (fst st)) \<and> pb_limits (fst st') = pb_limits (fst st)"
proof -
  let ?p = "prepareContribution ws v c"
  define pre where "pre = (let limits = pb_limits (fst st);
      n = sum_list (map length (map ?p insertionTables)); bytes = estimateContributionRowsBytes (map ?p insertionTables)
      in pb_sourceCount (fst st) > 0 \<and> (overLimit (lim_maximumRows limits) (pb_rowCount (fst st) + n)
          \<or> overLimit (lim_maximumBytes limits) (pb_estimatedBytes (fst st) + bytes)))"
  obtain b1 db1 where 1: "(if pre then flushBatch st else Inr st) = Inr (b1, db1)"
    "batch_ok (b1, db1) (?p file_contributions @ future)" "commitPending (b1, db1) = commitPending st"
    "enc_sourcePath c \<notin> pendingSources b1" "pendingSources b1 \<subseteq> pendingSources (fst st)" "pb_limits b1 = pb_limits (fst st)"
  proof (cases pre)
    case True
    from flushBatch_ok[OF ok] obtain st1 where s: "flushBatch st = Inr st1" "batch_ok st1 (?p file_contributions @ future)"
      "commitPending st1 = commitPending st" "pb_insertions (fst st1) = (\<lambda>_. [])" "pb_limits (fst st1) = pb_limits (fst st)"
      by blast
    then show ?thesis using True that[of "fst st1" "snd st1"] by (simp add: pendingSources_def)
  next
    case False
    then show ?thesis using that[of "fst st" "snd st"] ok src by simp
  qed
  define db2 where "db2 = (if v > 1 then closeContributionRecords ws (enc_sourcePath c) (v - 1) db1 else db1)"
  have 2: "batch_ok (b1, db2) (?p file_contributions @ future)"
    "commitPending (b1, db2) = (if v > 1 then closeContributionRecords ws (enc_sourcePath c) (v - 1) (commitPending st) else commitPending st)"
    using 1 by (simp_all add: db2_def batch_ok_close commit_close)
  define legacy where "legacy = (lim_maximumRows (pb_limits (fst st)) = 0 \<and> lim_maximumBytes (pb_limits (fst st)) = 0
      \<and> lim_maximumSources (pb_limits (fst st)) = 0)"
  from append_tables[of insertionTables "(b1, db2)" ?p future legacy] 2(1) prepared_typed obtain b3 db3 where
    3: "fold_res (appendRows legacy ?p) insertionTables (b1, db2) = Inr (b3, db3)" "batch_ok (b3, db3) future"
      "commitPending (b3, db3) = mapTables (\<lambda>t rows. ignoreInsert rows (?p t)) (commitPending (b1, db2))"
      "\<forall>x. set (pb_insertions b3 x) \<subseteq> set (pb_insertions b1 x) \<union> set (?p x)" "pb_limits b3 = pb_limits b1" by auto
  have cp: "commitPending (b3, db3) = writeDirect ws v c (commitPending st)"
    unfolding 3(3) 2(2) writeDirect_def ..
  have ps: "pendingSources b3 \<subseteq> insert (enc_sourcePath c) (pendingSources (fst st))"
  proof
    fix s assume "s \<in> pendingSources b3"
    then obtain t r where r: "r \<in> set (pb_insertions b3 t)" "s = row_source r"
      by (auto simp: pendingSources_def)
    then consider "r \<in> set (pb_insertions b1 t)" | "r \<in> set (?p t)" using 3(4) by blast
    then show "s \<in> insert (enc_sourcePath c) (pendingSources (fst st))"
    proof cases
      case 1
      then have "s \<in> pendingSources b1" using r(2) by (auto simp: pendingSources_def)
      then show ?thesis using \<open>pendingSources b1 \<subseteq> pendingSources (fst st)\<close> by blast
    next
      case 2
      then show ?thesis using prepared_source r(2) by blast
    qed
  qed
  let ?n = "sum_list (map length (map ?p insertionTables))" and ?y = "estimateContributionRowsBytes (map ?p insertionTables)"
  define b4 where "b4 = b3\<lparr>pb_rowCount := pb_rowCount b3 + ?n, pb_estimatedBytes := pb_estimatedBytes b3 + ?y,
      pb_sourceCount := pb_sourceCount b3 + 1\<rparr>"
  define post where "post = (let limits = pb_limits (fst st) in atLimit (lim_maximumRows limits) (pb_rowCount b4)
      \<or> atLimit (lim_maximumBytes limits) (pb_estimatedBytes b4) \<or> atLimit (lim_maximumSources limits) (pb_sourceCount b4))"
  have add: "addToBatch ws v c st = (if post then flushBatch (b4, db3) else Inr (b4, db3))"
    using 1(1) 3(1) unfolding addToBatch_def Let_def
    by (simp only: pre_def[unfolded Let_def, symmetric] res_bind.simps prod.case db2_def[symmetric]
        legacy_def[symmetric] b4_def[symmetric] post_def[unfolded Let_def, symmetric])
  have 4: "batch_ok (b4, db3) future" "commitPending (b4, db3) = commitPending (b3, db3)"
    "pendingSources b4 = pendingSources b3" "pb_limits b4 = pb_limits (fst st)"
    using 3 1(6) by (simp_all add: b4_def batch_ok_def commitPending_def pendingSources_def)
  show ?thesis
  proof (cases post)
    case True
    from flushBatch_ok[OF 4(1)] obtain st' where "flushBatch (b4, db3) = Inr st'" "batch_ok st' future"
      "commitPending st' = commitPending (b4, db3)" "pb_insertions (fst st') = (\<lambda>_. [])" "pb_limits (fst st') = pb_limits b4"
      by auto
    then show ?thesis using True add 4 cp by (auto simp: pendingSources_def)
  next
    case False
    then show ?thesis using add 4 cp ps by auto
  qed
qed

definition writeAll :: "string \<Rightarrow> GraphVersion \<Rightarrow> encodedContribution list \<Rightarrow> Database \<Rightarrow> Database" where
  "writeAll ws v cs db = fold (writeDirect ws v) cs db"

definition headerRows :: "string \<Rightarrow> GraphVersion \<Rightarrow> encodedContribution list \<Rightarrow> Row list" where
  "headerRows ws v cs = concat (map (\<lambda>c. prepareContribution ws v c file_contributions) cs)"

lemma addAll_ok:
  assumes "batch_ok st (headerRows ws v cs)" "distinct (map enc_sourcePath cs)"
    "set (map enc_sourcePath cs) \<inter> pendingSources (fst st) = {}"
  shows "\<exists>st'. fold_res (addToBatch ws v) cs st = Inr st' \<and> batch_ok st' [] \<and> commitPending st' = writeAll ws v cs (commitPending st)"
  using assms
proof (induction cs arbitrary: st)
  case Nil
  then show ?case by (simp add: writeAll_def headerRows_def)
next
  case (Cons c cs)
  from addToBatch_ok[of st ws v c "headerRows ws v cs"] Cons.prems obtain st1 where
    1: "addToBatch ws v c st = Inr st1" "batch_ok st1 (headerRows ws v cs)" "commitPending st1 = writeDirect ws v c (commitPending st)"
      "pendingSources (fst st1) \<subseteq> insert (enc_sourcePath c) (pendingSources (fst st))"
    by (auto simp: headerRows_def)
  have "enc_sourcePath c \<notin> set (map enc_sourcePath cs)"
    "set (map enc_sourcePath cs) \<inter> pendingSources (fst st) = {}" using Cons.prems(2,3) by auto
  then have "set (map enc_sourcePath cs) \<inter> pendingSources (fst st1) = {}" using 1(4) by blast
  from Cons.IH[OF 1(2) _ this] Cons.prems(2) 1 show ?case by (auto simp: writeAll_def)
qed

lemma writeBatched_ok:
  assumes "16 \<le> variableLimit" "distinct (map enc_sourcePath cs)"
    "\<not> hasConflict (db_rows db file_contributions) (headerRows ws v cs)"
  shows "writeBatched variableLimit limits ws v cs db = Inr (writeAll ws v cs db)"
proof -
  let ?st = "(newPublicationBatch variableLimit limits, db)"
  have "batch_ok ?st (headerRows ws v cs)" "pendingSources (fst ?st) = {}"
    using assms by (simp_all add: batch_ok_def newPublicationBatch_def typedRows_def pendingSources_def)
  from addAll_ok[OF this(1) assms(2)] this(2) obtain st1 where
    1: "fold_res (addToBatch ws v) cs ?st = Inr st1" "batch_ok st1 []" "commitPending st1 = writeAll ws v cs (commitPending ?st)"
    by auto
  have "commitPending ?st = db" by (simp add: commitPending_def newPublicationBatch_def mapTables_def)
  with flushBatch_ok[OF 1(2)] 1 show ?thesis by (auto simp: writeBatched_def)
qed

text \<open>C13: Batching is invisible: adding contributions of distinct sources to a publication batch with
  any limits, flushing it whenever a limit is reached and at the end, in INSERT statements of any
  chunk size the variable limit allows, leaves exactly the tables that closing the source's prior
  rows and inserting its rows at once, contribution by contribution, would leave.\<close>

theorem batching_is_invisible:
  assumes "16 \<le> variableLimit" "distinct (map enc_sourcePath cs)"
    "\<not> hasConflict (db_rows db file_contributions) (headerRows ws v cs)"
  shows "writeBatched variableLimit limits ws v cs db = Inr (writeAll ws v cs db)"
  using assms by (rule writeBatched_ok)

definition sample_encoded :: "string \<Rightarrow> encodedContribution" where
  "sample_encoded source = \<lparr>enc_projectID = ''p'', enc_sourcePath = source,
     enc_metadata = \<lparr>md_Name = ''go'', md_Version = ''1'', md_Extensions = [''.go'']\<rparr>,
     enc_graphFacts = \<lparr>facts_Nodes = [sample_node source ''file''], facts_Edges = []\<rparr>, enc_catalogUnits = [],
     enc_unresolvedReferences = [], enc_symbolReferences = [], enc_exportedSurfaces = [], enc_dependencies = [], enc_diagnostics = []\<rparr>"

theorem batching_is_invisible_witness:
  "writeBatched 16 \<lparr>lim_maximumRows = 2, lim_maximumBytes = 0, lim_maximumSources = 1\<rparr> ''w'' 2
      [sample_encoded ''a.go'', sample_encoded ''b.go''] sample_db
    = Inr (writeAll ''w'' 2 [sample_encoded ''a.go'', sample_encoded ''b.go''] sample_db)"
  by (rule batching_is_invisible)
    (simp_all add: sample_encoded_def sample_db_def headerRows_def prepareContribution_def contributionData_def sameKey_def)

end
