(* ===== verification/Versions.thy ===== *)
theory Versions
  imports Publication
begin

text \<open>
  Versions of a workspace (storage/sqlite/sqlite.go): opening a snapshot, rolling back to an older
  version and pruning old versions, as transactions on the tables; the well-formedness of the
  stored version intervals; and the refinement of the tables to the abstract store, a map from
  recorded versions to what is visible in them.
\<close>

subsection \<open>Versions and snapshots\<close>

definition workspaceVersions :: "Database \<Rightarrow> string \<Rightarrow> VersionRow list" where
  "workspaceVersions db ws = filter (\<lambda>r. gv_workspace r = ws) (db_graph_versions db)"

definition currentVersion :: "Database \<Rightarrow> string \<Rightarrow> GraphVersion" where
  "currentVersion db ws = fold max (map gv_version (workspaceVersions db ws)) 0"

definition findVersion :: "Database \<Rightarrow> string \<Rightarrow> GraphVersion \<Rightarrow> VersionRow option" where
  "findVersion db ws version = find (\<lambda>r. gv_workspace r = ws \<and> gv_version r = version) (db_graph_versions db)"

record OpenSnapshotRequest =
  open_Workspace :: string
  open_Version :: "GraphVersion option"

definition earliestRetained :: "Database \<Rightarrow> string \<Rightarrow> GraphVersion option" where
  "earliestRetained db ws = (case map gv_version (workspaceVersions db ws) of [] \<Rightarrow> None | v # vs \<Rightarrow> Some (fold min vs v))"

definition graphVersionWasPruned :: "Database \<Rightarrow> string \<Rightarrow> GraphVersion \<Rightarrow> bool" where
  "graphVersionWasPruned db ws version =
    (case earliestRetained db ws of None \<Rightarrow> False | Some earliest \<Rightarrow> version > 0 \<and> version < earliest)"

definition OpenSnapshot :: "Database \<Rightarrow> OpenSnapshotRequest \<Rightarrow> StoreError + Snapshot" where
  "OpenSnapshot db request =
    (if open_Workspace request = '''' then Inl ErrInvalidRequest
     else let row = (case open_Version request of
              None \<Rightarrow> findVersion db (open_Workspace request) (currentVersion db (open_Workspace request))
            | Some version \<Rightarrow> findVersion db (open_Workspace request) version)
       in case row of
            Some r \<Rightarrow> Inr \<lparr>snap_Workspace = open_Workspace request, snap_Version = gv_version r, snap_PublishedAt = gv_publishedAt r\<rparr>
          | None \<Rightarrow> (case open_Version request of
                None \<Rightarrow> Inl ErrWorkspaceNotFound
              | Some version \<Rightarrow> if graphVersionWasPruned db (open_Workspace request) version then Inl ErrGraphVersionPruned
                  else Inl ErrGraphVersionNotFound))"

subsection \<open>Statements on every contribution table\<close>

definition deleteContributionRecords :: "string \<Rightarrow> (GraphVersion \<Rightarrow> bool) \<Rightarrow> Database \<Rightarrow> Database" where
  "deleteContributionRecords ws condition db =
     fold (\<lambda>t db. setTable t (filter (\<lambda>r. \<not> (row_workspace r = ws \<and> condition (row_from r))) (db_rows db t)) db)
       contributionTables db"

definition reopenRow :: "string \<Rightarrow> GraphVersion \<Rightarrow> Row \<Rightarrow> Row" where
  "reopenRow ws version r =
    (if row_workspace r = ws \<and> (case row_to r of None \<Rightarrow> False | Some t \<Rightarrow> t \<ge> version) then r\<lparr>row_to := None\<rparr> else r)"

definition reopenContributionRecords :: "string \<Rightarrow> GraphVersion \<Rightarrow> Database \<Rightarrow> Database" where
  "reopenContributionRecords ws version db =
     fold (\<lambda>t db. setTable t (map (reopenRow ws version) (db_rows db t)) db) contributionTables db"

definition rebaseRow :: "string \<Rightarrow> GraphVersion \<Rightarrow> Row \<Rightarrow> Row" where
  "rebaseRow ws retained r =
    (if row_workspace r = ws \<and> row_from r < retained \<and> (case row_to r of None \<Rightarrow> True | Some t \<Rightarrow> t \<ge> retained)
     then r\<lparr>row_from := retained\<rparr> else r)"

text \<open>The primary key of a contribution table contains valid_from_version, so this UPDATE may fail.\<close>

definition rebaseContributions :: "string \<Rightarrow> GraphVersion \<Rightarrow> Database \<Rightarrow> StoreError + Database" where
  "rebaseContributions ws retained db =
     fold_res (\<lambda>t db. let rows = map (rebaseRow ws retained) (db_rows db t) in
         if hasConflict [] rows then Inl (ErrDatabase ''UNIQUE constraint failed'') else Inr (setTable t rows db))
       contributionTables db"

definition deleteWorkspaceNodes :: "string \<Rightarrow> (GraphVersion \<Rightarrow> bool) \<Rightarrow> Database \<Rightarrow> Database" where
  "deleteWorkspaceNodes ws condition db =
     db\<lparr>db_workspace_nodes := filter (\<lambda>r. \<not> (wn_workspace r = ws \<and> condition (wn_version r))) (db_workspace_nodes db)\<rparr>"

definition deleteWorkspaceEdges :: "string \<Rightarrow> (GraphVersion \<Rightarrow> bool) \<Rightarrow> Database \<Rightarrow> Database" where
  "deleteWorkspaceEdges ws condition db =
     db\<lparr>db_workspace_edges := filter (\<lambda>r. \<not> (we_workspace r = ws \<and> condition (we_version r))) (db_workspace_edges db)\<rparr>"

definition deleteDerived :: "DerivedTable \<Rightarrow> string \<Rightarrow> (GraphVersion \<Rightarrow> bool) \<Rightarrow> Database \<Rightarrow> Database" where
  "deleteDerived t ws condition db =
     db\<lparr>db_derived := (db_derived db)(t := filter (\<lambda>r. \<not> (dr_workspace r = ws \<and> condition (dr_version r))) (db_derived db t))\<rparr>"

definition deleteVersions :: "string \<Rightarrow> (GraphVersion \<Rightarrow> bool) \<Rightarrow> Database \<Rightarrow> Database" where
  "deleteVersions ws condition db =
     db\<lparr>db_graph_versions := filter (\<lambda>r. \<not> (gv_workspace r = ws \<and> condition (gv_version r))) (db_graph_versions db)\<rparr>"

text \<open>The statements Rollback and pruneVersions share: every table keyed by a version.\<close>

definition deleteVersionTables :: "string \<Rightarrow> (GraphVersion \<Rightarrow> bool) \<Rightarrow> Database \<Rightarrow> Database" where
  "deleteVersionTables ws condition db =
     fold (\<lambda>t. deleteDerived t ws condition) [node_search, catalog_entries, catalog_search, catalog_embeddings]
       (deleteWorkspaceEdges ws condition (deleteWorkspaceNodes ws condition db))"

subsection \<open>Rollback\<close>

record RollbackRequest =
  rb_Workspace :: string
  rb_Version :: GraphVersion

definition Rollback :: "RollbackRequest \<Rightarrow> Database \<Rightarrow> StoreError + Snapshot \<times> Database" where
  "Rollback request db =
    (let ws = rb_Workspace request; version = rb_Version request in
     if ws = '''' then Inl ErrInvalidRequest
     else (case findVersion db ws version of
         None \<Rightarrow> Inl ErrGraphVersionNotFound
       | Some row \<Rightarrow>
           let db1 = deleteContributionRecords ws (\<lambda>v. v > version) db;
               db2 = deleteVersionTables ws (\<lambda>v. v > version) db1;
               db3 = reopenContributionRecords ws version db2;
               db4 = deleteVersions ws (\<lambda>v. v > version) db3
           in Inr (\<lparr>snap_Workspace = ws, snap_Version = version, snap_PublishedAt = gv_publishedAt row\<rparr>, db4)))"

subsection \<open>Prune\<close>

record PruneRequest =
  prune_Workspace :: string
  prune_BeforeVersion :: GraphVersion

definition pruneVersions :: "string \<Rightarrow> GraphVersion \<Rightarrow> Database \<Rightarrow> StoreError + nat \<times> Database" where
  "pruneVersions ws retainedVersion db =
    (case findVersion db ws retainedVersion of
       None \<Rightarrow> Inl ErrGraphVersionNotFound
     | Some _ \<Rightarrow>
         let prunedVersions = length (filter (\<lambda>r. gv_version r < retainedVersion) (workspaceVersions db ws)) in
         res_map (\<lambda>db1.
             let db2 = deleteContributionRecords ws (\<lambda>v. v < retainedVersion) db1;
                 db3 = deleteVersionTables ws (\<lambda>v. v < retainedVersion) db2
             in (prunedVersions, deleteVersions ws (\<lambda>v. v < retainedVersion) db3))
           (rebaseContributions ws retainedVersion db))"

definition Prune :: "PruneRequest \<Rightarrow> Database \<Rightarrow> StoreError + nat \<times> Database" where
  "Prune request db =
    (if prune_Workspace request = '''' \<or> prune_BeforeVersion request = 0 then Inl ErrInvalidRequest
     else pruneVersions (prune_Workspace request) (prune_BeforeVersion request) db)"

subsection \<open>Statements as pointwise updates\<close>

named_theorems db_simps \<open>the tables after a statement\<close>

lemma deleteContributionRecords_map:
  "deleteContributionRecords ws c db = mapTables (\<lambda>_. filter (\<lambda>r. \<not> (row_workspace r = ws \<and> c (row_from r)))) db"
  unfolding deleteContributionRecords_def by (rule fold_all_tables) simp_all

lemma reopenContributionRecords_map:
  "reopenContributionRecords ws v db = mapTables (\<lambda>_. map (reopenRow ws v)) db"
  unfolding reopenContributionRecords_def by (rule fold_all_tables) simp_all

lemma fold_res_setTable:
  assumes "distinct ts" "\<forall>t\<in>set ts. \<not> bad (f t (db_rows db t))"
  shows "fold_res (\<lambda>t db. let rows = f t (db_rows db t) in if bad rows then Inl e else Inr (setTable t rows db)) ts db
     = Inr (fold (\<lambda>t db. setTable t (f t (db_rows db t)) db) ts db)"
  using assms
proof (induction ts arbitrary: db)
  case (Cons t ts)
  have "fold_res (\<lambda>t db. let rows = f t (db_rows db t) in if bad rows then Inl e else Inr (setTable t rows db)) ts
      (setTable t (f t (db_rows db t)) db)
    = Inr (fold (\<lambda>t db. setTable t (f t (db_rows db t)) db) ts (setTable t (f t (db_rows db t)) db))"
    by (rule Cons.IH) (use Cons.prems in auto)
  then show ?case using Cons.prems by (simp add: Let_def)
qed simp

lemma rebaseContributions_map:
  assumes "\<forall>t. \<not> hasConflict [] (map (rebaseRow ws v) (db_rows db t))"
  shows "rebaseContributions ws v db = Inr (mapTables (\<lambda>_. map (rebaseRow ws v)) db)"
  unfolding rebaseContributions_def using assms
  by (subst fold_res_setTable[where f = "\<lambda>_. map (rebaseRow ws v)"]) (simp_all add: fold_all_tables[where f = "\<lambda>_. map (rebaseRow ws v)"])

lemmas [db_simps] = deleteContributionRecords_map reopenContributionRecords_map deleteVersionTables_def
  deleteWorkspaceNodes_def deleteWorkspaceEdges_def deleteDerived_def deleteVersions_def

subsection \<open>Versions of a workspace\<close>

lemma fold_max_ge: "a \<le> fold max xs (a::nat) \<and> (\<forall>x\<in>set xs. x \<le> fold max xs a)"
  by (induction xs arbitrary: a) (fastforce simp: max_def split: if_splits)+

lemma fold_max_in: "fold max xs (a::nat) = a \<or> fold max xs a \<in> set xs"
  by (induction xs arbitrary: a) (auto simp: max_def split: if_splits)

lemma fold_max_eqI: "\<lbrakk>\<forall>x\<in>set xs. x \<le> m; m \<in> set xs\<rbrakk> \<Longrightarrow> fold max xs 0 = (m::nat)"
  using fold_max_ge[of 0 xs] fold_max_in[of xs 0] by (metis le_0_eq le_antisym)

definition recorded :: "Database \<Rightarrow> string \<Rightarrow> GraphVersion \<Rightarrow> bool" where
  "recorded db ws v \<longleftrightarrow> findVersion db ws v \<noteq> None"

lemma recorded_iff: "recorded db ws v \<longleftrightarrow> v \<in> gv_version ` set (workspaceVersions db ws)"
  by (auto simp: recorded_def findVersion_def find_None_iff workspaceVersions_def)

lemma recorded_le: "recorded db ws v \<Longrightarrow> v \<le> currentVersion db ws"
  using fold_max_ge[of 0 "map gv_version (workspaceVersions db ws)"] by (auto simp: recorded_iff currentVersion_def)

lemma current_recorded: "0 < currentVersion db ws \<Longrightarrow> recorded db ws (currentVersion db ws)"
  using fold_max_in[of "map gv_version (workspaceVersions db ws)" 0] by (auto simp: recorded_iff currentVersion_def)

lemma currentVersion_eqI:
  "\<lbrakk>\<And>w. recorded db ws w \<Longrightarrow> w \<le> v; recorded db ws v\<rbrakk> \<Longrightarrow> currentVersion db ws = v"
  using recorded_le[of db ws v] current_recorded[of db ws] by (metis le_antisym le_zero_eq not_gr_zero)

subsection \<open>Well-formed stores\<close>

definition rowPK :: "Row \<Rightarrow> string \<times> string \<times> GraphVersion \<times> string list" where
  "rowPK r = (row_workspace r, row_source r, row_from r, rowKey (row_data r))"

lemma sameKey_rowPK: "sameKey a b \<longleftrightarrow> rowPK a = rowPK b"
  by (auto simp: sameKey_def rowPK_def)

lemma hasConflict_iff: "distinct (map rowPK rows) \<Longrightarrow> hasConflict rows rs \<longleftrightarrow> \<not> distinct (map rowPK (rows @ rs))"
proof (induction rs arbitrary: rows)
  case (Cons r rs)
  show ?case
  proof (cases "list_ex (sameKey r) rows")
    case True
    then show ?thesis by (auto simp: list_ex_iff sameKey_rowPK)
  next
    case False
    then have "rowPK r \<notin> rowPK ` set rows" by (auto simp: list_ex_iff sameKey_rowPK)
    then show ?thesis using Cons.IH[of "rows @ [r]"] Cons.prems False by auto
  qed
qed simp

definition nodeKey :: "WorkspaceNodeRow \<Rightarrow> string \<times> GraphVersion \<times> string" where
  "nodeKey r = (wn_workspace r, wn_version r, node_ID (wn_node r))"

definition edgeRowKey :: "WorkspaceEdgeRow \<Rightarrow> string \<times> GraphVersion \<times> string list" where
  "edgeRowKey r = (we_workspace r, we_version r, edgeColumns (we_edge r))"

text \<open>The intervals of the rows of one source never overlap, and no interval ends at the current version.\<close>

definition wf_rows :: "(string \<Rightarrow> GraphVersion) \<Rightarrow> Row list \<Rightarrow> bool" where
  "wf_rows cur rows \<longleftrightarrow>
     (\<forall>r\<in>set rows. 1 \<le> row_from r \<and> row_from r \<le> cur (row_workspace r)
        \<and> (\<forall>k. row_to r = Some k \<longrightarrow> k < cur (row_workspace r)))
     \<and> (\<forall>a\<in>set rows. \<forall>b\<in>set rows. row_workspace a = row_workspace b \<and> row_source a = row_source b \<and> row_from a < row_from b
        \<longrightarrow> (\<exists>k. row_to a = Some k \<and> k < row_from b))
     \<and> distinct (map rowPK rows)"

definition wf_versions :: "Database \<Rightarrow> bool" where
  "wf_versions db \<longleftrightarrow> distinct (map (\<lambda>r. (gv_workspace r, gv_version r)) (db_graph_versions db))
     \<and> (\<forall>r\<in>set (db_graph_versions db). 1 \<le> gv_version r)"

definition wf_store :: "Database \<Rightarrow> bool" where
  "wf_store db \<longleftrightarrow> (\<forall>t. wf_rows (currentVersion db) (db_rows db t))
     \<and> (\<forall>r\<in>set (db_workspace_nodes db). 1 \<le> wn_version r \<and> wn_version r \<le> currentVersion db (wn_workspace r))
     \<and> distinct (map nodeKey (db_workspace_nodes db))
     \<and> (\<forall>r\<in>set (db_workspace_edges db). 1 \<le> we_version r \<and> we_version r \<le> currentVersion db (we_workspace r))
     \<and> distinct (map edgeRowKey (db_workspace_edges db))
     \<and> (\<forall>t. \<forall>r\<in>set (db_derived db t). 1 \<le> dr_version r \<and> dr_version r \<le> currentVersion db (dr_workspace r))
     \<and> wf_versions db"

lemma wf_storeD:
  assumes "wf_store db"
  shows "wf_rows (currentVersion db) (db_rows db t)"
    "r \<in> set (db_workspace_nodes db) \<Longrightarrow> 1 \<le> wn_version r \<and> wn_version r \<le> currentVersion db (wn_workspace r)"
    "distinct (map nodeKey (db_workspace_nodes db))"
    "e \<in> set (db_workspace_edges db) \<Longrightarrow> 1 \<le> we_version e \<and> we_version e \<le> currentVersion db (we_workspace e)"
    "distinct (map edgeRowKey (db_workspace_edges db))"
    "d \<in> set (db_derived db s) \<Longrightarrow> 1 \<le> dr_version d \<and> dr_version d \<le> currentVersion db (dr_workspace d)"
    "wf_versions db"
  using assms unfolding wf_store_def by blast+

lemma wf_rowsD:
  assumes "wf_rows cur rows" "a \<in> set rows"
  shows "1 \<le> row_from a" "row_from a \<le> cur (row_workspace a)"
    "row_to a = Some k \<Longrightarrow> k < cur (row_workspace a)"
    "\<lbrakk>b \<in> set rows; row_workspace a = row_workspace b; row_source a = row_source b; row_from a < row_from b\<rbrakk>
      \<Longrightarrow> \<exists>k. row_to a = Some k \<and> k < row_from b"
    "distinct (map rowPK rows)"
  using assms unfolding wf_rows_def by blast+

lemma wf_empty: "wf_store emptyDatabase"
  by (simp add: wf_store_def emptyDatabase_def wf_rows_def wf_versions_def)

subsection \<open>What a version shows\<close>

record VersionView =
  view_rows :: "ContributionTable \<Rightarrow> (string \<times> RowData) list"
  view_nodes :: "Node list"
  view_edges :: "(Edge \<times> string) list"
  view_derived :: "DerivedTable \<Rightarrow> string list list"

definition shown :: "Row \<Rightarrow> string \<times> RowData" where
  "shown r = (row_source r, row_data r)"

definition versionView :: "Database \<Rightarrow> string \<Rightarrow> GraphVersion \<Rightarrow> VersionView" where
  "versionView db ws v = \<lparr>view_rows = (\<lambda>t. map shown (visibleRows db ws v t)),
     view_nodes = map wn_node (filter (\<lambda>r. wn_workspace r = ws \<and> wn_version r = v) (db_workspace_nodes db)),
     view_edges = map (\<lambda>r. (we_edge r, we_owner r)) (filter (\<lambda>r. we_workspace r = ws \<and> we_version r = v) (db_workspace_edges db)),
     view_derived = (\<lambda>t. map dr_columns (filter (\<lambda>r. dr_workspace r = ws \<and> dr_version r = v) (db_derived db t)))\<rparr>"

text \<open>The abstract store: what each recorded version of a workspace shows.\<close>

definition storeView :: "Database \<Rightarrow> string \<times> GraphVersion \<Rightarrow> VersionView option" where
  "storeView db = (\<lambda>(ws, v). if recorded db ws v then Some (versionView db ws v) else None)"

definition viewNodes :: "VersionView \<Rightarrow> Node list" where
  "viewNodes w = concat (map (\<lambda>(_, d). case d of NodeRow n \<Rightarrow> [n] | _ \<Rightarrow> []) (view_rows w contribution_nodes)) @ view_nodes w"

definition viewEdges :: "VersionView \<Rightarrow> Edge list" where
  "viewEdges w = concat (map (\<lambda>(_, d). case d of EdgeRow e \<Rightarrow> [e] | _ \<Rightarrow> []) (view_rows w contribution_edges))
     @ map fst (view_edges w)"

lemma visibleNodes_view: "visibleNodes db ws v = viewNodes (versionView db ws v)"
  by (simp add: visibleNodes_def viewNodes_def versionView_def shown_def o_def)

lemma visibleEdges_view: "visibleEdges db ws v = viewEdges (versionView db ws v)"
  by (simp add: visibleEdges_def viewEdges_def versionView_def shown_def o_def)

lemma shown_visible_cong:
  assumes "\<And>r. r \<in> set rows \<Longrightarrow> (P (f r) \<and> visibleRow ws v (f r)) = visibleRow ws v r"
    and "\<And>r. shown (f r) = shown r"
  shows "map shown (filter (visibleRow ws v) (filter P (map f rows))) = map shown (filter (visibleRow ws v) rows)"
  using assms by (induction rows) auto

lemma filter_absorb: "(\<And>x. x \<in> set xs \<Longrightarrow> Q x \<Longrightarrow> P x) \<Longrightarrow> filter Q (filter P xs) = filter Q xs"
  by (auto simp: filter_filter intro!: filter_cong)

lemma deleteDerived_all: "fold (\<lambda>t. deleteDerived t ws c) [node_search, catalog_entries, catalog_search, catalog_embeddings] db
   = db\<lparr>db_derived := (\<lambda>t. filter (\<lambda>r. \<not> (dr_workspace r = ws \<and> c (dr_version r))) (db_derived db t))\<rparr>"
proof -
  have all: "g(node_search := F node_search, catalog_entries := F catalog_entries, catalog_search := F catalog_search,
      catalog_embeddings := F catalog_embeddings) = F" for g F :: "DerivedTable \<Rightarrow> DerivedRow list"
  proof
    fix t
    show "(g(node_search := F node_search, catalog_entries := F catalog_entries, catalog_search := F catalog_search,
      catalog_embeddings := F catalog_embeddings)) t = F t" by (cases t) simp_all
  qed
  show ?thesis
    using all[of "db_derived db" "\<lambda>t. filter (\<lambda>r. \<not> (dr_workspace r = ws \<and> c (dr_version r))) (db_derived db t)"]
    by (simp add: deleteDerived_def del: de_Morgan_conj)
qed

text \<open>What deleting by version leaves of the version tables.\<close>

definition keeps :: "string \<Rightarrow> (GraphVersion \<Rightarrow> bool) \<Rightarrow> string \<Rightarrow> GraphVersion \<Rightarrow> bool" where
  "keeps ws c w v \<longleftrightarrow> \<not> (w = ws \<and> c v)"

text \<open>
  A transaction that removes some versions of a workspace and rewrites the intervals of the rows:
  the rows are filtered and mapped by the given functions, everything else keyed by a removed
  version goes.  Rollback and pruneVersions are both of this form.
\<close>

definition dropVersions :: "string \<Rightarrow> (GraphVersion \<Rightarrow> bool) \<Rightarrow> (Row list \<Rightarrow> Row list) \<Rightarrow> Database \<Rightarrow> Database" where
  "dropVersions ws c f db = \<lparr>db_rows = (\<lambda>t. f (db_rows db t)),
     db_workspace_nodes = filter (\<lambda>r. keeps ws c (wn_workspace r) (wn_version r)) (db_workspace_nodes db),
     db_workspace_edges = filter (\<lambda>r. keeps ws c (we_workspace r) (we_version r)) (db_workspace_edges db),
     db_graph_versions = filter (\<lambda>r. keeps ws c (gv_workspace r) (gv_version r)) (db_graph_versions db),
     db_derived = (\<lambda>t. filter (\<lambda>r. keeps ws c (dr_workspace r) (dr_version r)) (db_derived db t))\<rparr>"

definition rollbackRows :: "string \<Rightarrow> GraphVersion \<Rightarrow> Row list \<Rightarrow> Row list" where
  "rollbackRows ws u rows = map (reopenRow ws u) (filter (\<lambda>r. keeps ws (\<lambda>v. v > u) (row_workspace r) (row_from r)) rows)"

definition pruneRows :: "string \<Rightarrow> GraphVersion \<Rightarrow> Row list \<Rightarrow> Row list" where
  "pruneRows ws p rows = filter (\<lambda>r. keeps ws (\<lambda>v. v < p) (row_workspace r) (row_from r)) (map (rebaseRow ws p) rows)"

lemma Rollback_shape:
  "Rollback \<lparr>rb_Workspace = ws, rb_Version = u\<rparr> db = Inr (sn, db') \<longleftrightarrow>
    ws \<noteq> '''' \<and> (\<exists>row. findVersion db ws u = Some row
      \<and> sn = \<lparr>snap_Workspace = ws, snap_Version = u, snap_PublishedAt = gv_publishedAt row\<rparr>)
    \<and> db' = dropVersions ws (\<lambda>v. v > u) (rollbackRows ws u) db"
proof -
  have "deleteVersions ws (\<lambda>v. v > u) (reopenContributionRecords ws u (deleteVersionTables ws (\<lambda>v. v > u)
      (deleteContributionRecords ws (\<lambda>v. v > u) db))) = dropVersions ws (\<lambda>v. v > u) (rollbackRows ws u) db"
    unfolding deleteVersionTables_def deleteDerived_all
    by (simp add: db_simps dropVersions_def rollbackRows_def keeps_def mapTables_def)
  then show ?thesis by (auto simp: Rollback_def Let_def split: option.splits)
qed

lemma pruneVersions_shape:
  assumes "\<forall>t. \<not> hasConflict [] (map (rebaseRow ws p) (db_rows db t))"
  shows "pruneVersions ws p db = Inr (n, db') \<longleftrightarrow> recorded db ws p
    \<and> n = length (filter (\<lambda>r. gv_version r < p) (workspaceVersions db ws)) \<and> db' = dropVersions ws (\<lambda>v. v < p) (pruneRows ws p) db"
proof -
  have "deleteVersions ws (\<lambda>v. v < p) (deleteVersionTables ws (\<lambda>v. v < p)
      (deleteContributionRecords ws (\<lambda>v. v < p) (mapTables (\<lambda>_. map (rebaseRow ws p)) db)))
      = dropVersions ws (\<lambda>v. v < p) (pruneRows ws p) db"
    unfolding deleteVersionTables_def deleteDerived_all
    by (simp add: db_simps dropVersions_def pruneRows_def keeps_def mapTables_def)
  then show ?thesis
    by (auto simp: pruneVersions_def Let_def rebaseContributions_map[OF assms] recorded_def split: option.splits)
qed

lemma dropVersions_sel [simp]:
  "db_rows (dropVersions ws c f db) t = f (db_rows db t)"
  "db_workspace_nodes (dropVersions ws c f db) = filter (\<lambda>r. keeps ws c (wn_workspace r) (wn_version r)) (db_workspace_nodes db)"
  "db_workspace_edges (dropVersions ws c f db) = filter (\<lambda>r. keeps ws c (we_workspace r) (we_version r)) (db_workspace_edges db)"
  "db_graph_versions (dropVersions ws c f db) = filter (\<lambda>r. keeps ws c (gv_workspace r) (gv_version r)) (db_graph_versions db)"
  "db_derived (dropVersions ws c f db) s = filter (\<lambda>r. keeps ws c (dr_workspace r) (dr_version r)) (db_derived db s)"
  by (simp_all add: dropVersions_def)

lemma recorded_drop [simp]: "recorded (dropVersions ws c f db) w v \<longleftrightarrow> recorded db w v \<and> keeps ws c w v"
  by (auto simp: recorded_iff workspaceVersions_def keeps_def image_iff)

lemma filter_keeps:
  "keeps ws c w v \<Longrightarrow> filter (\<lambda>x. keeps ws c (a x) (b x) \<and> a x = w \<and> b x = v) xs = filter (\<lambda>x. a x = w \<and> b x = v) xs"
  by (auto intro: filter_cong)

lemma storeView_drop:
  assumes "\<And>t w v. keeps ws c w v \<Longrightarrow>
    map shown (filter (visibleRow w v) (f (db_rows db t))) = map shown (filter (visibleRow w v) (db_rows db t))"
  shows "storeView (dropVersions ws c f db) = (\<lambda>(w, v). if keeps ws c w v then storeView db (w, v) else None)"
proof -
  have "versionView (dropVersions ws c f db) w v = versionView db w v" if "keeps ws c w v" for w v
    using assms[OF that] by (simp add: versionView_def visibleRows_def filter_keeps[OF that])
  then show ?thesis by (auto simp: storeView_def fun_eq_iff)
qed

text \<open>Well-formedness survives when the rows stay well formed and no kept row mentions a dropped version.\<close>

lemma wf_store_drop:
  assumes wf: "wf_store db"
    and rows: "\<And>t. wf_rows (currentVersion (dropVersions ws c f db)) (f (db_rows db t))"
    and cur: "\<And>w v. keeps ws c w v \<Longrightarrow> v \<le> currentVersion db w \<Longrightarrow> v \<le> currentVersion (dropVersions ws c f db) w"
  shows "wf_store (dropVersions ws c f db)"
proof -
  have d: "distinct (map k (filter P xs))" if "distinct (map k xs)" for k :: "'x \<Rightarrow> 'y" and P xs
    using that by (rule distinct_map_filter)
  show ?thesis
    unfolding wf_store_def wf_versions_def
    using rows wf_storeD[OF wf] cur
    by (auto simp: distinct_map_filter wf_versions_def)
qed

subsection \<open>Rollback and pruning of the rows of one table\<close>

lemma reopenRow_sel [simp]:
  "row_workspace (reopenRow ws u r) = row_workspace r" "row_source (reopenRow ws u r) = row_source r"
  "row_from (reopenRow ws u r) = row_from r" "row_data (reopenRow ws u r) = row_data r"
  "shown (reopenRow ws u r) = shown r" "rowPK (reopenRow ws u r) = rowPK r"
  by (simp_all add: reopenRow_def shown_def rowPK_def)

lemma reopenRow_to: "row_to (reopenRow ws u r) = Some k \<longleftrightarrow> row_to r = Some k \<and> (row_workspace r = ws \<longrightarrow> k < u)"
  by (auto simp: reopenRow_def split: option.splits)

lemma rebaseRow_sel [simp]:
  "row_workspace (rebaseRow ws p r) = row_workspace r" "row_source (rebaseRow ws p r) = row_source r"
  "row_to (rebaseRow ws p r) = row_to r" "row_data (rebaseRow ws p r) = row_data r"
  "shown (rebaseRow ws p r) = shown r"
  by (simp_all add: rebaseRow_def shown_def)

lemma rebaseRow_from: "row_from (rebaseRow ws p r) =
    (if row_workspace r = ws \<and> row_from r < p \<and> (\<forall>k. row_to r = Some k \<longrightarrow> p \<le> k) then p else row_from r)"
  by (auto simp: rebaseRow_def split: option.splits)

lemma rollbackRows_shown:
  assumes "w = ws \<longrightarrow> v \<le> u"
  shows "map shown (filter (visibleRow w v) (rollbackRows ws u rows)) = map shown (filter (visibleRow w v) rows)"
proof -
  have "visibleRow w v (reopenRow ws u r) \<and> keeps ws (\<lambda>v. v > u) (row_workspace r) (row_from r) \<longleftrightarrow> visibleRow w v r" for r
    using assms by (auto simp: visibleRow_def keeps_def reopenRow_def split: option.splits)
  then show ?thesis unfolding rollbackRows_def
    by (induction rows) auto
qed

lemma rollbackRows_wf:
  assumes wf: "wf_rows cur rows" and cur: "cur' ws = u" "\<And>w. w \<noteq> ws \<Longrightarrow> cur' w = cur w"
  shows "wf_rows cur' (rollbackRows ws u rows)"
proof -
  have in_rows: "\<exists>x\<in>set rows. r = reopenRow ws u x \<and> (row_workspace x = ws \<longrightarrow> row_from x \<le> u)"
    if "r \<in> set (rollbackRows ws u rows)" for r
    using that by (auto simp: rollbackRows_def keeps_def)
  have "1 \<le> row_from r \<and> row_from r \<le> cur' (row_workspace r) \<and> (\<forall>k. row_to r = Some k \<longrightarrow> k < cur' (row_workspace r))"
    if "r \<in> set (rollbackRows ws u rows)" for r
  proof -
    obtain x where x: "x \<in> set rows" "r = reopenRow ws u x" "row_workspace x = ws \<longrightarrow> row_from x \<le> u"
      using in_rows[OF \<open>r \<in> set (rollbackRows ws u rows)\<close>] by blast
    show ?thesis using wf_rowsD(1-3)[OF wf x(1)] x(3) cur
      by (cases "row_workspace x = ws") (auto simp: x(2) reopenRow_to)
  qed
  moreover have "\<exists>k. row_to a = Some k \<and> k < row_from b"
    if ab: "a \<in> set (rollbackRows ws u rows)" "b \<in> set (rollbackRows ws u rows)" "row_workspace a = row_workspace b"
      "row_source a = row_source b" "row_from a < row_from b" for a b
  proof -
    obtain x y where xy: "x \<in> set rows" "a = reopenRow ws u x" "y \<in> set rows" "b = reopenRow ws u y"
      "row_workspace y = ws \<longrightarrow> row_from y \<le> u"
      using in_rows[OF ab(1)] in_rows[OF ab(2)] by blast
    with ab obtain k where "row_to x = Some k" "k < row_from y"
      using wf_rowsD(4)[OF wf xy(1,3)] by auto
    then show ?thesis using xy ab(3) by (auto simp: reopenRow_to)
  qed
  moreover have "distinct (map rowPK (rollbackRows ws u rows))"
  proof (cases rows)
    case Nil
    then show ?thesis by (simp add: rollbackRows_def)
  next
    case (Cons a list)
    then have "distinct (map rowPK rows)" using wf_rowsD(5)[OF wf, of a] by simp
    then show ?thesis by (simp add: rollbackRows_def o_def distinct_map_filter)
  qed
  ultimately show ?thesis unfolding wf_rows_def by blast
qed

lemma wf_rows_distinct: "wf_rows cur rows \<Longrightarrow> distinct (map rowPK rows)"
  by (simp add: wf_rows_def)

lemma rebased_PK:
  assumes wf: "wf_rows cur rows"
  shows "distinct (map rowPK (map (rebaseRow ws p) rows))"
proof -
  have "rowPK a = rowPK b" if ab: "a \<in> set rows" "b \<in> set rows" "rowPK (rebaseRow ws p a) = rowPK (rebaseRow ws p b)" for a b
  proof -
    from ab(3) have eq: "row_workspace a = row_workspace b" "row_source a = row_source b"
      "row_from (rebaseRow ws p a) = row_from (rebaseRow ws p b)" "rowKey (row_data a) = rowKey (row_data b)"
      by (simp_all add: rowPK_def)
    have no: False if xy: "x \<in> set rows" "y \<in> set rows" "row_workspace x = row_workspace y" "row_source x = row_source y"
      "row_from (rebaseRow ws p x) = row_from (rebaseRow ws p y)" "row_from x < row_from y" for x y
    proof -
      obtain k where "row_to x = Some k" "k < row_from y" using wf_rowsD(4)[OF wf xy(1,2,3,4,6)] by blast
      then show False using xy(3,5,6) by (auto simp: rebaseRow_from split: if_splits)
    qed
    have "row_from a = row_from b"
      using no[OF ab(1,2) eq(1,2,3)] no[OF ab(2,1) eq(1)[symmetric] eq(2)[symmetric] eq(3)[symmetric]]
      by (meson linorder_neqE_nat)
    then show ?thesis using eq by (simp add: rowPK_def)
  qed
  then have "distinct (map (\<lambda>r. rowPK (rebaseRow ws p r)) rows)"
    using wf_rows_distinct[OF wf] unfolding distinct_map inj_on_def by blast
  then show ?thesis by (simp add: o_def)
qed

lemma rebase_no_conflict: "wf_rows cur rows \<Longrightarrow> \<not> hasConflict [] (map (rebaseRow ws p) rows)"
  using hasConflict_iff[of "[]"] rebased_PK[of cur rows ws p] by simp

lemma pruneRows_shown:
  assumes "w = ws \<longrightarrow> p \<le> v"
  shows "map shown (filter (visibleRow w v) (pruneRows ws p rows)) = map shown (filter (visibleRow w v) rows)"
  unfolding pruneRows_def using assms
  by (intro shown_visible_cong) (auto simp: visibleRow_def keeps_def rebaseRow_from split: option.splits)

lemma pruneRows_wf:
  assumes wf: "wf_rows cur rows" and p: "p \<le> cur ws" "1 \<le> p" and cur: "cur' = cur"
  shows "wf_rows cur' (pruneRows ws p rows)"
proof -
  have in_rows: "\<exists>x\<in>set rows. r = rebaseRow ws p x \<and> (row_workspace x = ws \<longrightarrow> p \<le> row_from r)"
    if "r \<in> set (pruneRows ws p rows)" for r
    using that by (auto simp: pruneRows_def keeps_def)
  have "1 \<le> row_from r \<and> row_from r \<le> cur (row_workspace r) \<and> (\<forall>k. row_to r = Some k \<longrightarrow> k < cur (row_workspace r))"
    if "r \<in> set (pruneRows ws p rows)" for r
    using in_rows[OF that] p wf_rowsD(1-3)[OF wf] by (auto simp: rebaseRow_from)
  moreover have "\<exists>k. row_to a = Some k \<and> k < row_from b"
    if ab: "a \<in> set (pruneRows ws p rows)" "b \<in> set (pruneRows ws p rows)" "row_workspace a = row_workspace b"
      "row_source a = row_source b" "row_from a < row_from b" for a b
  proof -
    obtain x y where xy: "x \<in> set rows" "a = rebaseRow ws p x" "row_workspace x = ws \<longrightarrow> p \<le> row_from a"
      "y \<in> set rows" "b = rebaseRow ws p y"
      using in_rows[OF ab(1)] in_rows[OF ab(2)] by blast
    have "row_from y = row_from b" using xy ab(3,5) by (auto simp: rebaseRow_from split: if_splits)
    moreover have "row_from x \<le> row_from a" using xy(2) by (auto simp: rebaseRow_from)
    ultimately show ?thesis using wf_rowsD(4)[OF wf xy(1,4)] ab xy by auto
  qed
  moreover have "distinct (map rowPK (pruneRows ws p rows))"
    unfolding pruneRows_def using rebased_PK[OF wf] by (rule distinct_map_filter)
  ultimately show ?thesis unfolding wf_rows_def cur by blast
qed

lemma currentVersion_drop_same:
  "keeps ws c w (currentVersion db w) \<Longrightarrow> currentVersion (dropVersions ws c f db) w = currentVersion db w"
proof (cases "currentVersion db w = 0")
  case True
  then show ?thesis using current_recorded[of "dropVersions ws c f db" w] recorded_le[of db w] by fastforce
next
  case False
  assume k: "keeps ws c w (currentVersion db w)"
  show ?thesis
    by (rule currentVersion_eqI) (use k False recorded_le current_recorded[of db w] in auto)
qed

lemma dropped_refines:
  assumes wf: "wf_store db" and shape: "db' = dropVersions ws c f db"
    and rows: "\<And>rows cur. wf_rows cur rows \<Longrightarrow> cur = currentVersion db \<Longrightarrow> wf_rows (currentVersion db') (f rows)"
    and cur: "\<And>w v. keeps ws c w v \<Longrightarrow> v \<le> currentVersion db w \<Longrightarrow> v \<le> currentVersion db' w"
    and shown: "\<And>rows w v. keeps ws c w v \<Longrightarrow> map shown (filter (visibleRow w v) (f rows)) = map shown (filter (visibleRow w v) rows)"
  shows "wf_store db' \<and> storeView db' = (\<lambda>(w, v). if keeps ws c w v then storeView db (w, v) else None)"
  unfolding shape using wf rows[unfolded shape] cur[unfolded shape] shown
  by (intro conjI wf_store_drop storeView_drop) (auto intro: wf_storeD)

lemma rollback_keeps:
  assumes wf: "wf_store db" and u: "recorded db ws u"
  shows "currentVersion (dropVersions ws (\<lambda>v. v > u) (rollbackRows ws u) db) ws = u"
    "wf_store (dropVersions ws (\<lambda>v. v > u) (rollbackRows ws u) db)"
    "storeView (dropVersions ws (\<lambda>v. v > u) (rollbackRows ws u) db)
      = (\<lambda>(w, v). if keeps ws (\<lambda>v. v > u) w v then storeView db (w, v) else None)"
proof -
  let ?db = "dropVersions ws (\<lambda>v. v > u) (rollbackRows ws u) db"
  show cur: "currentVersion ?db ws = u"
    by (rule currentVersion_eqI) (use u in \<open>auto simp: keeps_def\<close>)
  have other: "currentVersion ?db w = currentVersion db w" if "w \<noteq> ws" for w
    using that by (intro currentVersion_drop_same) (simp add: keeps_def)
  have "wf_store ?db \<and> storeView ?db = (\<lambda>(w, v). if keeps ws (\<lambda>v. v > u) w v then storeView db (w, v) else None)"
  proof (rule dropped_refines[OF wf refl])
    show "wf_rows (currentVersion ?db) (rollbackRows ws u rows)" if "wf_rows cur rows" "cur = currentVersion db" for rows and cur :: "string \<Rightarrow> GraphVersion"
      using rollbackRows_wf[OF that(1) cur other[folded that(2)]] .
    show "v \<le> currentVersion ?db w" if "keeps ws (\<lambda>v. v > u) w v" "v \<le> currentVersion db w" for w v
      using that cur other[of w] by (cases "w = ws") (auto simp: keeps_def)
    show "map shown (filter (visibleRow w v) (rollbackRows ws u rows)) = map shown (filter (visibleRow w v) rows)"
      if "keeps ws (\<lambda>v. v > u) w v" for rows w v
      using that by (intro rollbackRows_shown) (auto simp: keeps_def)
  qed
  then show "wf_store ?db" "storeView ?db = (\<lambda>(w, v). if keeps ws (\<lambda>v. v > u) w v then storeView db (w, v) else None)"
    by blast+
qed

lemma prune_keeps:
  assumes wf: "wf_store db" and p: "recorded db ws p"
  shows "currentVersion (dropVersions ws (\<lambda>v. v < p) (pruneRows ws p) db) = currentVersion db"
    "wf_store (dropVersions ws (\<lambda>v. v < p) (pruneRows ws p) db)"
    "storeView (dropVersions ws (\<lambda>v. v < p) (pruneRows ws p) db)
      = (\<lambda>(w, v). if keeps ws (\<lambda>v. v < p) w v then storeView db (w, v) else None)"
proof -
  let ?db = "dropVersions ws (\<lambda>v. v < p) (pruneRows ws p) db"
  have le: "p \<le> currentVersion db ws" using p by (rule recorded_le)
  have pos: "1 \<le> p" using p wf_storeD(7)[OF wf] by (auto simp: recorded_iff workspaceVersions_def wf_versions_def)
  show cur: "currentVersion ?db = currentVersion db"
    by (rule ext, rule currentVersion_drop_same) (use le in \<open>auto simp: keeps_def\<close>)
  have "wf_store ?db \<and> storeView ?db = (\<lambda>(w, v). if keeps ws (\<lambda>v. v < p) w v then storeView db (w, v) else None)"
  proof (rule dropped_refines[OF wf refl])
    show "wf_rows (currentVersion ?db) (pruneRows ws p rows)" if "wf_rows cur rows" "cur = currentVersion db" for rows and cur :: "string \<Rightarrow> GraphVersion"
      using that le pos cur by (intro pruneRows_wf[OF that(1)]) auto
    show "v \<le> currentVersion ?db w" if "keeps ws (\<lambda>v. v < p) w v" "v \<le> currentVersion db w" for w v
      using that cur by simp
    show "map shown (filter (visibleRow w v) (pruneRows ws p rows)) = map shown (filter (visibleRow w v) rows)"
      if "keeps ws (\<lambda>v. v < p) w v" for rows w v
      using that by (intro pruneRows_shown) (auto simp: keeps_def)
  qed
  then show "wf_store ?db" "storeView ?db = (\<lambda>(w, v). if keeps ws (\<lambda>v. v < p) w v then storeView db (w, v) else None)"
    by blast+
qed

lemma wf_store_rebase: "wf_store db \<Longrightarrow> \<forall>t. \<not> hasConflict [] (map (rebaseRow ws p) (db_rows db t))"
  using rebase_no_conflict wf_storeD(1) by blast

subsection \<open>Properties\<close>

text \<open>C3: Rollback succeeds exactly for a recorded version of a named workspace, and is then the
  abstract rollback: the version becomes current, exactly the later versions of that workspace are
  gone, and every remaining version of every workspace shows what it showed before; the store
  stays well formed.\<close>

theorem rollback_restores_version:
  assumes "wf_store db"
  shows "((\<exists>sn db'. Rollback \<lparr>rb_Workspace = ws, rb_Version = u\<rparr> db = Inr (sn, db')) \<longleftrightarrow> ws \<noteq> '''' \<and> recorded db ws u)
    \<and> (\<forall>sn db'. Rollback \<lparr>rb_Workspace = ws, rb_Version = u\<rparr> db = Inr (sn, db') \<longrightarrow>
      wf_store db' \<and> currentVersion db' ws = u \<and> snap_Version sn = u
      \<and> storeView db' = (\<lambda>(w, v). if w = ws \<and> v > u then None else storeView db (w, v)))"
  using rollback_keeps[OF assms]
  by (auto simp: Rollback_shape recorded_def keeps_def fun_eq_iff)

text \<open>C4: Pruning before a recorded version succeeds - rewriting the start of the rows that span the
  boundary never violates a primary key - and is the abstract prune: exactly the earlier versions
  of the workspace are gone, their number is reported, and every retained version of every
  workspace shows what it showed before.\<close>

theorem prune_preserves_retained_versions:
  assumes "wf_store db"
  shows "((\<exists>n db'. Prune \<lparr>prune_Workspace = ws, prune_BeforeVersion = p\<rparr> db = Inr (n, db')) \<longleftrightarrow> ws \<noteq> '''' \<and> recorded db ws p)
    \<and> (\<forall>n db'. Prune \<lparr>prune_Workspace = ws, prune_BeforeVersion = p\<rparr> db = Inr (n, db') \<longrightarrow>
      wf_store db' \<and> currentVersion db' = currentVersion db
      \<and> n = card {v. v < p \<and> recorded db ws v}
      \<and> storeView db' = (\<lambda>(w, v). if w = ws \<and> v < p then None else storeView db (w, v)))"
proof -
  have pos: "recorded db ws p \<Longrightarrow> p \<noteq> 0"
    using wf_storeD(7)[OF assms] by (auto simp: recorded_iff workspaceVersions_def wf_versions_def)
  note shape = pruneVersions_shape[OF wf_store_rebase[OF assms]]
  have Prune_iff: "Prune \<lparr>prune_Workspace = ws, prune_BeforeVersion = p\<rparr> db = Inr (n, db')
    \<longleftrightarrow> ws \<noteq> '''' \<and> pruneVersions ws p db = Inr (n, db')" for n db'
    using pos by (auto simp: Prune_def shape)
  have ok: "(\<exists>n db'. Prune \<lparr>prune_Workspace = ws, prune_BeforeVersion = p\<rparr> db = Inr (n, db')) \<longleftrightarrow> ws \<noteq> '''' \<and> recorded db ws p"
    by (simp add: Prune_iff shape)
  have "wf_store db' \<and> currentVersion db' = currentVersion db \<and> n = card {v. v < p \<and> recorded db ws v}
      \<and> storeView db' = (\<lambda>(w, v). if w = ws \<and> v < p then None else storeView db (w, v))"
    if "Prune \<lparr>prune_Workspace = ws, prune_BeforeVersion = p\<rparr> db = Inr (n, db')" for n db'
  proof -
  from that have r: "recorded db ws p" and n: "n = length (filter (\<lambda>r. gv_version r < p) (workspaceVersions db ws))"
    and db': "db' = dropVersions ws (\<lambda>v. v < p) (pruneRows ws p) db" by (simp_all add: Prune_iff shape)
  have "distinct (map gv_version (workspaceVersions db ws))"
    using wf_storeD(7)[OF assms]
    by (auto simp: wf_versions_def workspaceVersions_def distinct_map inj_on_def)
  then have "distinct (map gv_version (filter (\<lambda>r. gv_version r < p) (workspaceVersions db ws)))"
    by (rule distinct_map_filter)
  then have "n = card (set (map gv_version (filter (\<lambda>r. gv_version r < p) (workspaceVersions db ws))))"
    unfolding n by (metis distinct_card length_map)
  also have "set (map gv_version (filter (\<lambda>r. gv_version r < p) (workspaceVersions db ws))) = {v. v < p \<and> recorded db ws v}"
    by (auto simp: recorded_iff)
  finally show ?thesis
    using prune_keeps[OF assms r] unfolding db' by (simp add: keeps_def fun_eq_iff)
  qed
  with ok show ?thesis by blast
qed

text \<open>Opening a snapshot without a version gives the current version of the workspace, with a
  version it gives exactly that version; a missing version is reported as pruned exactly when it
  lies below every recorded version of a workspace that has some, as not found otherwise, and a
  workspace without versions as not found.\<close>

theorem open_snapshot_exact:
  assumes "wf_store db" "ws \<noteq> ''''"
  shows "(case OpenSnapshot db \<lparr>open_Workspace = ws, open_Version = None\<rparr> of
        Inr sn \<Rightarrow> snap_Workspace sn = ws \<and> recorded db ws (snap_Version sn) \<and> (\<forall>v. recorded db ws v \<longrightarrow> v \<le> snap_Version sn)
      | Inl e \<Rightarrow> e = ErrWorkspaceNotFound \<and> (\<forall>v. \<not> recorded db ws v))
    \<and> (case OpenSnapshot db \<lparr>open_Workspace = ws, open_Version = Some v\<rparr> of
        Inr sn \<Rightarrow> snap_Workspace sn = ws \<and> snap_Version sn = v \<and> recorded db ws v
      | Inl e \<Rightarrow> \<not> recorded db ws v
          \<and> e = (if 0 < v \<and> (\<exists>w. recorded db ws w) \<and> (\<forall>w. recorded db ws w \<longrightarrow> v < w)
                 then ErrGraphVersionPruned else ErrGraphVersionNotFound))"
proof -
  have zero: "\<not> recorded db ws 0"
    using wf_storeD(7)[OF assms(1)] by (auto simp: recorded_iff workspaceVersions_def wf_versions_def)
  have found: "\<exists>r. findVersion db ws v = Some r \<and> gv_version r = v" if "recorded db ws v" for v
    using that by (auto simp: recorded_def findVersion_def find_Some_iff)
  have min: "fold min vs (v::nat) \<le> v \<and> (\<forall>x\<in>set vs. fold min vs v \<le> x) \<and> fold min vs v \<in> set (v # vs)" for v vs
  proof (induction vs arbitrary: v)
    case (Cons a vs)
    from Cons[of "min a v"] show ?case by (auto simp: min_def split: if_splits)
  qed simp
  have pruned: "graphVersionWasPruned db ws v \<longleftrightarrow> 0 < v \<and> (\<exists>w. recorded db ws w) \<and> (\<forall>w. recorded db ws w \<longrightarrow> v < w)" for v
  proof (cases "map gv_version (workspaceVersions db ws)")
    case Nil
    then show ?thesis by (simp add: graphVersionWasPruned_def earliestRetained_def recorded_iff)
  next
    case (Cons a vs)
    have rec: "recorded db ws w \<longleftrightarrow> w \<in> set (a # vs)" for w
      unfolding recorded_iff Cons[symmetric] by simp
    show ?thesis using min[of vs a] unfolding graphVersionWasPruned_def earliestRetained_def Cons rec
      by (auto intro: less_le_trans)
  qed
  show ?thesis
  proof (intro conjI)
    show "case OpenSnapshot db \<lparr>open_Workspace = ws, open_Version = None\<rparr> of
        Inr sn \<Rightarrow> snap_Workspace sn = ws \<and> recorded db ws (snap_Version sn) \<and> (\<forall>v. recorded db ws v \<longrightarrow> v \<le> snap_Version sn)
      | Inl e \<Rightarrow> e = ErrWorkspaceNotFound \<and> (\<forall>v. \<not> recorded db ws v)"
    proof (cases "recorded db ws (currentVersion db ws)")
      case True
      then show ?thesis using found[OF True] assms(2) recorded_le by (auto simp: OpenSnapshot_def)
    next
      case False
      then have "findVersion db ws (currentVersion db ws) = None" "currentVersion db ws = 0"
        using current_recorded[of db ws] by (auto simp: recorded_def)
      moreover have "\<not> recorded db ws v" for v using recorded_le[of db ws v] zero calculation(2) by auto
      ultimately show ?thesis using assms(2) by (simp add: OpenSnapshot_def)
    qed
    show "case OpenSnapshot db \<lparr>open_Workspace = ws, open_Version = Some v\<rparr> of
        Inr sn \<Rightarrow> snap_Workspace sn = ws \<and> snap_Version sn = v \<and> recorded db ws v
      | Inl e \<Rightarrow> \<not> recorded db ws v
          \<and> e = (if 0 < v \<and> (\<exists>w. recorded db ws w) \<and> (\<forall>w. recorded db ws w \<longrightarrow> v < w)
                 then ErrGraphVersionPruned else ErrGraphVersionNotFound)"
    proof (cases "recorded db ws v")
      case True
      then show ?thesis using found[OF True] assms(2) by (auto simp: OpenSnapshot_def)
    next
      case False
      then have "findVersion db ws v = None" by (simp add: recorded_def)
      then show ?thesis using assms(2) False by (simp add: OpenSnapshot_def pruned)
    qed
  qed
qed

subsection \<open>A sample store with two versions\<close>

definition sample_store :: Database where
  "sample_store = emptyDatabase\<lparr>
     db_rows := (\<lambda>t. if t = contribution_nodes
        then [(sample_row ''a.go'' 1 (NodeRow (sample_node ''a'' ''file'')))\<lparr>row_to := Some 1\<rparr>,
              sample_row ''b.go'' 1 (NodeRow (sample_node ''b'' ''file'')),
              sample_row ''a.go'' 2 (NodeRow (sample_node ''a2'' ''file''))] else []),
     db_graph_versions := [\<lparr>gv_workspace = ''w'', gv_version = 1, gv_publishedAt = 10\<rparr>,
       \<lparr>gv_workspace = ''w'', gv_version = 2, gv_publishedAt = 20\<rparr>]\<rparr>"

lemma sample_store_wf: "wf_store sample_store"
proof -
  have cur: "currentVersion sample_store ''w'' = 2" by (simp add: currentVersion_def workspaceVersions_def sample_store_def)
  have "c ''w'' = 2 \<Longrightarrow> wf_rows c (db_rows sample_store t)" for c t
    by (auto simp: wf_rows_def sample_store_def emptyDatabase_def sample_row_def rowPK_def rowKey_def)
  from this[of "currentVersion sample_store"] cur
  have "wf_rows (currentVersion sample_store) (db_rows sample_store t)" for t by simp
  then show ?thesis by (simp add: wf_store_def wf_versions_def) (simp add: sample_store_def emptyDatabase_def)
qed

lemma sample_store_recorded: "recorded sample_store ''w'' v \<longleftrightarrow> v = 1 \<or> v = 2"
  by (auto simp: recorded_iff workspaceVersions_def sample_store_def)

theorem rollback_restores_version_witness:
  "\<exists>sn db'. Rollback \<lparr>rb_Workspace = ''w'', rb_Version = 1\<rparr> sample_store = Inr (sn, db')
     \<and> storeView db' (''w'', 2) = None \<and> storeView db' (''w'', 1) = storeView sample_store (''w'', 1)"
  using rollback_restores_version[OF sample_store_wf, of "''w''" 1] sample_store_recorded[of 1] by auto

theorem prune_preserves_retained_versions_witness:
  "\<exists>n db'. Prune \<lparr>prune_Workspace = ''w'', prune_BeforeVersion = 2\<rparr> sample_store = Inr (n, db')
     \<and> storeView db' (''w'', 1) = None \<and> storeView db' (''w'', 2) = storeView sample_store (''w'', 2)"
  using prune_preserves_retained_versions[OF sample_store_wf, of "''w''" 2] sample_store_recorded[of 2] by auto

theorem open_snapshot_exact_witness:
  "OpenSnapshot sample_store \<lparr>open_Workspace = ''w'', open_Version = Some 7\<rparr> = Inl ErrGraphVersionNotFound"
  using open_snapshot_exact[OF sample_store_wf, of "''w''" 7] sample_store_recorded[of 7] sample_store_recorded[of 1]
  by (auto split: sum.splits)

end
