(* ===== verification/Publishing.thy ===== *)
theory Publishing
  imports Versions
begin

text \<open>
  Publishing one graph version (storage/sqlite/sqlite.go, publish and the functions it calls): the
  workspace facts, the contributions prepared by concurrent workers and written in their order,
  retention, the lexical index and the size budget, in one transaction.  The refinement: a
  successful publication adds exactly one version to the abstract store.
\<close>

subsection \<open>Workspace facts\<close>

fun insertOrIgnore :: "('r \<Rightarrow> 'k) \<Rightarrow> 'r list \<Rightarrow> 'r list \<Rightarrow> 'r list" where
  "insertOrIgnore key rows [] = rows"
| "insertOrIgnore key rows (r # rs) = insertOrIgnore key (if key r \<in> key ` set rows then rows else rows @ [r]) rs"

definition nodeCells :: "WorkspaceNodeRow \<Rightarrow> Cell list" where
  "nodeCells r = [StringCell (wn_workspace r), OtherCell, StringCell (node_ID (wn_node r)), OtherCell,
     StringCell (node_Label (wn_node r)), StringCell (node_QualifiedName (wn_node r))] @ evidenceCells (node_Evidence (wn_node r))"

definition edgeCells :: "WorkspaceEdgeRow \<Rightarrow> Cell list" where
  "edgeCells r = [StringCell (we_workspace r), OtherCell, StringCell (edge_SourceID (we_edge r)),
     StringCell (edge_TargetID (we_edge r)), OtherCell] @ evidenceCells (edge_Evidence (we_edge r)) @ [StringCell (we_owner r)]"

definition execNodes :: "WorkspaceNodeRow list \<Rightarrow> Database \<Rightarrow> StoreError + Database" where
  "execNodes rows db = Inr (db\<lparr>db_workspace_nodes := insertOrIgnore nodeKey (db_workspace_nodes db) rows\<rparr>)"

definition execEdges :: "WorkspaceEdgeRow list \<Rightarrow> Database \<Rightarrow> StoreError + Database" where
  "execEdges rows db = Inr (db\<lparr>db_workspace_edges := insertOrIgnore edgeRowKey (db_workspace_edges db) rows\<rparr>)"

record factBatchLimits =
  fact_maximumRows :: nat
  fact_maximumBytes :: nat

definition estimateRowsBytes :: "Cell list list \<Rightarrow> nat" where
  "estimateRowsBytes rows = sum_list (map (\<lambda>cells. 8 + sum_list (map cellBytes cells)) rows)"

text \<open>The loops over nodes and over edges of storeWorkspaceFacts, which differ only in the statement.\<close>

fun factLoop :: "nat \<Rightarrow> factBatchLimits \<Rightarrow> ('r \<Rightarrow> Cell list) \<Rightarrow> ('r list \<Rightarrow> Database \<Rightarrow> StoreError + Database)
    \<Rightarrow> 'r list \<Rightarrow> 'r list \<Rightarrow> nat \<Rightarrow> Database \<Rightarrow> StoreError + Database" where
  "factLoop variableLimit limits cells exec [] pending bytes db =
    (if pending = [] then Inr db else insertRows variableLimit maximumBatchRows cells exec pending db)"
| "factLoop variableLimit limits cells exec (row # rows) pending bytes db =
    (let rowBytes = estimateRowsBytes [cells row] in
     if overLimit (fact_maximumBytes limits) rowBytes then Inl (ErrDatabase ''workspace fact exceeds byte limit'')
     else if pending \<noteq> [] \<and> (atLimit (fact_maximumRows limits) (length pending)
         \<or> overLimit (fact_maximumBytes limits) (bytes + rowBytes))
       then (case insertRows variableLimit maximumBatchRows cells exec pending db of
           Inl e \<Rightarrow> Inl e
         | Inr db' \<Rightarrow> factLoop variableLimit limits cells exec rows [row] rowBytes db')
     else factLoop variableLimit limits cells exec rows (pending @ [row]) (bytes + rowBytes) db)"

definition workspaceNodeRows :: "string \<Rightarrow> GraphVersion \<Rightarrow> Facts \<Rightarrow> WorkspaceNodeRow list" where
  "workspaceNodeRows ws version facts = map (\<lambda>n. \<lparr>wn_workspace = ws, wn_version = version, wn_node = n\<rparr>) (facts_Nodes facts)"

definition workspaceEdgeRows :: "string \<Rightarrow> GraphVersion \<Rightarrow> Facts \<Rightarrow> WorkspaceEdgeRow list" where
  "workspaceEdgeRows ws version facts = map (\<lambda>e. \<lparr>we_workspace = ws, we_version = version, we_edge = e,
      we_owner = span_Path (ev_Span (edge_Evidence e))\<rparr>) (facts_Edges facts)"

definition storeWorkspaceFacts :: "nat \<Rightarrow> factBatchLimits \<Rightarrow> string \<Rightarrow> GraphVersion \<Rightarrow> Facts \<Rightarrow> Database \<Rightarrow> StoreError + Database" where
  "storeWorkspaceFacts variableLimit limits ws version facts db =
     res_bind (factLoop variableLimit limits nodeCells execNodes (workspaceNodeRows ws version facts) [] 0 db)
       (factLoop variableLimit limits edgeCells execEdges (workspaceEdgeRows ws version facts) [] 0)"

text \<open>The primary key violation of a plain INSERT.\<close>

definition uniqueViolation :: "('r \<Rightarrow> 'k) \<Rightarrow> 'r list \<Rightarrow> 'r list \<Rightarrow> bool" where
  "uniqueViolation key rows rs \<longleftrightarrow> list_ex (\<lambda>r. key r \<in> key ` set rows) rs \<or> \<not> distinct (map key rs)"

text \<open>The one statement of retainWorkspaceFacts binds every replaced owner and three more values: SQLite refuses it above its
  variable limit.\<close>

definition retainWorkspaceFacts :: "nat \<Rightarrow> string \<Rightarrow> GraphVersion \<Rightarrow> string list \<Rightarrow> Database \<Rightarrow> StoreError + Database" where
  "retainWorkspaceFacts variableLimit ws version replacedOwners db =
    (if replacedOwners = [] \<or> version \<le> 1 then Inr db
     else if length replacedOwners + 3 > variableLimit then Inl (ErrDatabase ''too many SQL variables'')
     else let rows = map (\<lambda>r. r\<lparr>we_version := version\<rparr>)
            (filter (\<lambda>r. we_workspace r = ws \<and> we_version r = version - 1 \<and> we_owner r \<notin> set replacedOwners) (db_workspace_edges db))
       in if uniqueViolation edgeRowKey (db_workspace_edges db) rows
          then Inl (ErrDatabase ''UNIQUE constraint failed'')
          else Inr (db\<lparr>db_workspace_edges := db_workspace_edges db @ rows\<rparr>))"

subsection \<open>Concurrent preparation, ordered writing\<close>

text \<open>
  Workers deliver the prepared contributions in any order; the writer keeps those ahead of the
  next index pending and releases them in order.
\<close>

function releaseReady :: "('a \<Rightarrow> 's \<Rightarrow> 'e + 's) \<Rightarrow> (nat \<times> 'a) list \<Rightarrow> nat \<Rightarrow> 's \<Rightarrow> 'e + (nat \<times> 'a) list \<times> nat \<times> 's" where
  "releaseReady add pending nextIndex st =
    (case map_of pending nextIndex of
       None \<Rightarrow> Inr (pending, nextIndex, st)
     | Some contribution \<Rightarrow> (case add contribution st of
           Inl e \<Rightarrow> Inl e
         | Inr st' \<Rightarrow> releaseReady add (filter (\<lambda>p. fst p \<noteq> nextIndex) pending) (nextIndex + 1) st'))"
  by auto
termination
proof (relation "measure (\<lambda>(add, pending, n, st). length pending)", simp)
  fix add :: "'a \<Rightarrow> 's \<Rightarrow> 'e + 's" and pending :: "(nat \<times> 'a) list" and n st c st'
  assume "map_of pending n = Some c"
  then have "(n, c) \<in> set pending" by (rule map_of_SomeD)
  then have "length (filter (\<lambda>p. fst p \<noteq> n) pending) < length pending"
    by (intro length_filter_less[of "(n, c)"]) auto
  then show "((add, filter (\<lambda>p. fst p \<noteq> n) pending, n + 1, st'), add, pending, n, st)
    \<in> measure (\<lambda>(add, pending, n, st). length pending)" by simp
qed

declare releaseReady.simps [simp del]

definition receivePrepared :: "('a \<Rightarrow> 's \<Rightarrow> 'e + 's) \<Rightarrow> nat \<times> 'a \<Rightarrow> (nat \<times> 'a) list \<times> nat \<times> 's \<Rightarrow> 'e + (nat \<times> 'a) list \<times> nat \<times> 's" where
  "receivePrepared add result writer =
    (case writer of (pending, nextIndex, st) \<Rightarrow>
       releaseReady add (result # filter (\<lambda>p. fst p \<noteq> fst result) pending) nextIndex st)"

definition noLimits :: contributionBatchLimits where
  "noLimits = \<lparr>lim_maximumRows = 0, lim_maximumBytes = 0, lim_maximumSources = 0\<rparr>"

text \<open>The schedule is the order in which the workers deliver the indices of the contributions.\<close>

definition storePreparedPublication :: "nat list \<Rightarrow> nat \<Rightarrow> factBatchLimits \<Rightarrow> string \<Rightarrow> GraphVersion \<Rightarrow> Facts \<Rightarrow> string list
    \<Rightarrow> encodedContribution list \<Rightarrow> Database \<Rightarrow> StoreError + Database" where
  "storePreparedPublication schedule variableLimit factLimits ws version workspaceFacts replacedOwners contributions db =
     res_bind (retainWorkspaceFacts variableLimit ws version replacedOwners db) (\<lambda>db1.
     res_bind (storeWorkspaceFacts variableLimit factLimits ws version workspaceFacts db1) (\<lambda>db2.
     res_bind (fold_res (receivePrepared (addToBatch ws version)) (map (\<lambda>i. (i, contributions ! i)) schedule)
         ([], 0, (newPublicationBatch variableLimit noLimits, db2))) (\<lambda>(pending, nextIndex, st).
       if nextIndex \<noteq> length contributions then Inl (ErrDatabase ''prepare publication contributions'')
       else res_map snd (flushBatch st))))"

subsection \<open>Publishing\<close>

definition lexicalColumns :: "Node \<Rightarrow> string list" where
  "lexicalColumns n = [node_ID n, node_Label n, node_QualifiedName n, span_Path (ev_Span (node_Evidence n)), node_Kind n]"

text \<open>A compound SELECT with UNION removes duplicate rows and is sorted by all its columns here.\<close>

definition rebuildLexicalSnapshot :: "UnicodeTables \<Rightarrow> string \<Rightarrow> GraphVersion \<Rightarrow> Database \<Rightarrow> Database" where
  "rebuildLexicalSnapshot u ws version db =
    (let cleared = deleteDerived node_search ws (\<lambda>v. v = version) db;
         indexed = sort (dedup (map lexicalColumns (visibleNodes cleared ws version)));
         rows = map (\<lambda>columns. \<lparr>dr_workspace = ws, dr_version = version,
             dr_columns = columns @ [identifierTokens u (join '' '' columns)]\<rparr>) indexed
     in cleared\<lparr>db_derived := (db_derived cleared)(node_search := db_derived cleared node_search @ rows)\<rparr>)"

text \<open>The store's configuration; the page count and page size of a database are SQLite's.\<close>

record StoreConfig =
  cfg_variableLimit :: nat
  cfg_maxDatabaseBytes :: nat
  cfg_contributionBatchLimits :: contributionBatchLimits
  cfg_workspaceFactBatchLimits :: factBatchLimits
  cfg_unicode :: UnicodeTables
  cfg_pages :: "Database \<Rightarrow> nat \<times> nat"

definition ensureDatabaseBudget :: "StoreConfig \<Rightarrow> Database \<Rightarrow> StoreError error" where
  "ensureDatabaseBudget store db = (case cfg_pages store db of (pageCount, pageSize) \<Rightarrow>
     err_if (pageCount > cfg_maxDatabaseBytes store div pageSize) (ErrDatabase ''SQLite database exceeds byte budget''))"

definition retainedGraphVersions :: nat where "retainedGraphVersions = 25"

definition execVersions :: "VersionRow list \<Rightarrow> Database \<Rightarrow> StoreError + Database" where
  "execVersions rows db =
    (if uniqueViolation (\<lambda>r. (gv_workspace r, gv_version r)) (db_graph_versions db) rows
     then Inl (ErrDatabase ''UNIQUE constraint failed'')
     else Inr (db\<lparr>db_graph_versions := db_graph_versions db @ rows\<rparr>))"

definition versionCells :: "VersionRow \<Rightarrow> Cell list" where
  "versionCells r = [StringCell (gv_workspace r), OtherCell, OtherCell]"

definition insertVersion :: "StoreConfig \<Rightarrow> string \<Rightarrow> GraphVersion \<Rightarrow> int \<Rightarrow> Database \<Rightarrow> StoreError + Database" where
  "insertVersion store ws version publishedAt db =
     insertRows (cfg_variableLimit store) maximumBatchRows versionCells execVersions
       [\<lparr>gv_workspace = ws, gv_version = version, gv_publishedAt = publishedAt\<rparr>] db"

text \<open>The tail that publish and Commit share: retention, the lexical index and the budget.\<close>

definition finishPublication :: "StoreConfig \<Rightarrow> string \<Rightarrow> GraphVersion \<Rightarrow> Database \<Rightarrow> StoreError + Database" where
  "finishPublication store ws version db =
     res_bind (if version > retainedGraphVersions
               then res_map snd (pruneVersions ws (version - retainedGraphVersions + 1) db) else Inr db) (\<lambda>db1.
     let db2 = rebuildLexicalSnapshot (cfg_unicode store) ws version db1
     in res_of_err (ensureDatabaseBudget store db2) db2)"

record PublishRequest =
  pub_Workspace :: string
  pub_Update :: GraphUpdate
  pub_WorkspaceFacts :: Facts
  pub_ReplacedWorkspaceFactOwners :: "string list"

definition publish :: "StoreConfig \<Rightarrow> nat list \<Rightarrow> int \<Rightarrow> PublishRequest \<Rightarrow> Database \<Rightarrow> StoreError + Snapshot \<times> Database" where
  "publish store schedule now request db =
    (let ws = pub_Workspace request in
     if ws = '''' then Inl ErrInvalidRequest
     else res_bind (encodeContributions (pub_Update request)) (\<lambda>contributions.
       let version = currentVersion db ws + 1 in
       res_bind (insertVersion store ws version now db) (\<lambda>db1.
       res_bind (storePreparedPublication schedule (cfg_variableLimit store)
           \<lparr>fact_maximumRows = maximumBatchRows, fact_maximumBytes = 0\<rparr> ws version (pub_WorkspaceFacts request)
           (pub_ReplacedWorkspaceFactOwners request) contributions db1) (\<lambda>db2.
       res_map (\<lambda>db3. (\<lparr>snap_Workspace = ws, snap_Version = version, snap_PublishedAt = now\<rparr>, db3))
         (finishPublication store ws version db2)))))"

subsection \<open>The order of delivery does not matter\<close>

definition writer_ok :: "('a \<Rightarrow> 's \<Rightarrow> 'e + 's) \<Rightarrow> 'a list \<Rightarrow> 's \<Rightarrow> nat set \<Rightarrow> (nat \<times> 'a) list \<times> nat \<times> 's \<Rightarrow> bool" where
  "writer_ok add cs st0 R w = (case w of (pending, nextIndex, st) \<Rightarrow> {..<nextIndex} \<subseteq> R
     \<and> (\<forall>i. map_of pending i = (if i \<in> R \<and> nextIndex \<le> i then Some (cs ! i) else None))
     \<and> fold_res add (take nextIndex cs) st0 = Inr st)"

lemma map_of_filter_key: "map_of (filter (\<lambda>p. fst p \<noteq> k) xs) = (map_of xs)(k := None)"
  by (induction xs) (auto simp: fun_eq_iff)

lemma releaseReady_ok:
  assumes "R \<subseteq> {..<length cs}" "writer_ok add cs st0 R (pending, nextIndex, st)"
  shows "case releaseReady add pending nextIndex st of Inl e \<Rightarrow> fold_res add cs st0 = Inl e
    | Inr w \<Rightarrow> writer_ok add cs st0 R w \<and> fst (snd w) \<notin> R"
  using assms(2)
proof (induction add pending nextIndex st rule: releaseReady.induct)
  case (1 add pending n st)
  show ?case
  proof (cases "map_of pending n")
    case None
    then show ?thesis using 1(2) unfolding releaseReady.simps[of add pending]
      by (auto simp: writer_ok_def split: if_splits)
  next
    case (Some c)
    then have n: "n \<in> R" "c = cs ! n" using 1(2) by (auto simp: writer_ok_def split: if_splits)
    then have len: "n < length cs" using assms(1) by auto
    have pre: "fold_res add (take n cs) st0 = Inr st" using 1(2) by (simp add: writer_ok_def)
    have split: "cs = take n cs @ cs ! n # drop (Suc n) cs" using len by (rule id_take_nth_drop)
    show ?thesis
    proof (cases "add c st")
      case (Inl e)
      have "fold_res add (take n cs @ cs ! n # drop (Suc n) cs) st0 = Inl e"
        unfolding fold_res_append pre using Inl n(2) by simp
      then have "fold_res add cs st0 = Inl e" using split by simp
      then show ?thesis using Some Inl by (simp add: releaseReady.simps[of add pending])
    next
      case (Inr st')
      have "fold_res add (take (Suc n) cs) st0 = Inr st'"
        using len pre Inr n(2) by (simp add: take_Suc_conv_app_nth fold_res_append)
      then have "writer_ok add cs st0 R (filter (\<lambda>p. fst p \<noteq> n) pending, n + 1, st')"
        using 1(2) n(1) by (auto simp: writer_ok_def map_of_filter_key lessThan_Suc split: if_splits)
      from 1(1)[OF Some Inr this] show ?thesis using Some Inr by (simp add: releaseReady.simps[of add pending])
    qed
  qed
qed

lemma receivePrepared_ok:
  assumes "R \<subseteq> {..<length cs}" "i < length cs" "i \<notin> R" "writer_ok add cs st0 R w"
  shows "case receivePrepared add (i, cs ! i) w of Inl e \<Rightarrow> fold_res add cs st0 = Inl e
    | Inr w' \<Rightarrow> writer_ok add cs st0 (insert i R) w' \<and> fst (snd w') \<notin> insert i R"
proof -
  obtain pending n st where w: "w = (pending, n, st)" by (cases w)
  have "n \<le> i" using assms(3,4) by (auto simp: writer_ok_def w not_less[symmetric])
  then have "writer_ok add cs st0 (insert i R) ((i, cs ! i) # filter (\<lambda>p. fst p \<noteq> i) pending, n, st)"
    using assms(4) by (auto simp: writer_ok_def w map_of_filter_key)
  then show ?thesis using releaseReady_ok[of "insert i R" cs add st0 "(i, cs ! i) # filter (\<lambda>p. fst p \<noteq> i) pending" n st] assms(1,2)
    by (simp add: receivePrepared_def w)
qed

lemma receive_all:
  assumes "R \<subseteq> {..<length cs}" "distinct is" "set is \<inter> R = {}" "R \<union> set is = {..<length cs}"
    "writer_ok add cs st0 R w" "fst (snd w) \<notin> R"
  shows "fold_res (receivePrepared add) (map (\<lambda>i. (i, cs ! i)) is) w = res_map (\<lambda>st. ([], length cs, st)) (fold_res add cs st0)"
  using assms
proof (induction "is" arbitrary: R w)
  case Nil
  obtain pending n st where w: "w = (pending, n, st)" by (cases w)
  have "n = length cs" using Nil(4-6) by (auto simp: writer_ok_def w lessThan_subset_iff)
  moreover from this have "map_of pending i = None" for i using Nil(4,5) by (auto simp: writer_ok_def w)
  then have "map_of pending = Map.empty" by (intro ext)
  then have "pending = []" by (rule map_of_eq_empty_iff[THEN iffD1])
  ultimately show ?case using Nil(5) by (simp add: writer_ok_def w)
next
  case (Cons i "is")
  have "i < length cs" "i \<notin> R" using Cons.prems by auto
  from receivePrepared_ok[OF Cons.prems(1) this Cons.prems(5)]
  show ?case
  proof (cases "receivePrepared add (i, cs ! i) w")
    case (Inr w')
    have "fold_res (receivePrepared add) (map (\<lambda>i. (i, cs ! i)) is) w' = res_map (\<lambda>st. ([], length cs, st)) (fold_res add cs st0)"
      using receivePrepared_ok[OF Cons.prems(1) \<open>i < length cs\<close> \<open>i \<notin> R\<close> Cons.prems(5)] Inr Cons.prems
      by (intro Cons.IH[of "insert i R"]) auto
    then show ?thesis by (simp add: Inr)
  qed simp
qed

lemma receive_schedule:
  assumes "distinct schedule" "set schedule = {..<length cs}"
  shows "fold_res (receivePrepared add) (map (\<lambda>i. (i, cs ! i)) schedule) ([], 0, st0)
    = res_map (\<lambda>st. ([], length cs, st)) (fold_res add cs st0)"
  using assms by (intro receive_all[of "{}"]) (auto simp: writer_ok_def)

lemma res_bind_received:
  "res_bind (res_map (\<lambda>st. ([], n, st)) r) (\<lambda>(pending, nextIndex, st). if nextIndex \<noteq> n then Inl e else f st) = res_bind r f"
  by (cases r) simp_all

lemma storePrepared_sequential:
  assumes "distinct schedule" "set schedule = {..<length contributions}"
  shows "storePreparedPublication schedule variableLimit factLimits ws version facts owners contributions db
    = res_bind (retainWorkspaceFacts variableLimit ws version owners db) (\<lambda>db1.
      res_bind (storeWorkspaceFacts variableLimit factLimits ws version facts db1) (\<lambda>db2.
      writeBatched variableLimit noLimits ws version contributions db2))"
  unfolding storePreparedPublication_def receive_schedule[OF assms] writeBatched_def res_bind_received ..

text \<open>C9: However the workers interleave, the writer stores the contributions in their own order:
  for every order of delivery the publication equals the sequential one, errors included.\<close>

theorem delivery_order_is_invisible:
  assumes "distinct schedule" "set schedule = {..<length contributions}"
  shows "storePreparedPublication schedule variableLimit factLimits ws version facts owners contributions db
    = res_bind (retainWorkspaceFacts variableLimit ws version owners db) (\<lambda>db1.
      res_bind (storeWorkspaceFacts variableLimit factLimits ws version facts db1) (\<lambda>db2.
      writeBatched variableLimit noLimits ws version contributions db2))"
  using assms by (rule storePrepared_sequential)

subsection \<open>Statements of the workspace tables\<close>

lemma insertOrIgnore_append: "insertOrIgnore key rows (xs @ ys) = insertOrIgnore key (insertOrIgnore key rows xs) ys"
  by (induction xs arbitrary: rows) auto

lemma insertOrIgnore_fresh:
  "key ` set rs \<inter> key ` set pre = {} \<Longrightarrow> insertOrIgnore key (pre @ rows) rs = pre @ insertOrIgnore key rows rs"
  by (induction rs arbitrary: rows) auto

lemma insertOrIgnore_distinct: "distinct (map key rows) \<Longrightarrow> distinct (map key (insertOrIgnore key rows rs))"
  by (induction rs arbitrary: rows) auto

lemma set_insertOrIgnore: "set (insertOrIgnore key rows rs) \<subseteq> set rows \<union> set rs"
proof (induction rs arbitrary: rows)
  case (Cons r rs)
  from Cons[of "if key r \<in> key ` set rows then rows else rows @ [r]"] show ?case by (auto split: if_splits)
qed simp

lemma uniqueViolation_set:
  "uniqueViolation key rows rs \<longleftrightarrow> key ` set rs \<inter> key ` set rows \<noteq> {} \<or> \<not> distinct (map key rs)"
proof -
  have "list_ex (\<lambda>r. key r \<in> key ` set rows) rs \<longleftrightarrow> key ` set rs \<inter> key ` set rows \<noteq> {}"
    unfolding list_ex_iff by blast
  then show ?thesis by (simp add: uniqueViolation_def)
qed

lemma uniqueViolation_fresh:
  assumes "\<And>r. r \<in> set rs \<Longrightarrow> key r \<notin> key ` set rows" "distinct (map key rs)"
  shows "\<not> uniqueViolation key rows rs"
  using assms by (auto simp: uniqueViolation_def list_ex_iff)

lemma uniqueViolation_append:
  "uniqueViolation key rows (xs @ ys) \<longleftrightarrow> uniqueViolation key rows xs \<or> uniqueViolation key (rows @ xs) ys"
  by (simp add: uniqueViolation_set image_Un Int_Un_distrib Int_Un_distrib2 Int_commute) argo

interpretation node_insert: insert_statement nodeCells execNodes 15
  by unfold_locales (simp_all add: execNodes_def insertOrIgnore_append)

interpretation edge_insert: insert_statement edgeCells execEdges 15
  by unfold_locales (simp_all add: execEdges_def insertOrIgnore_append)

interpretation version_insert: insert_statement versionCells execVersions 3
proof
  show "execVersions (xs @ ys) db = res_bind (execVersions xs db) (execVersions ys)" for xs ys db
    by (simp add: execVersions_def uniqueViolation_append)
qed (simp_all add: execVersions_def uniqueViolation_def)

context insert_statement
begin

lemma factLoop_exec:
  assumes "width \<le> variableLimit" "\<forall>r\<in>set (pending @ rows). length (cells r) = width"
    "\<forall>r\<in>set rows. \<not> overLimit (fact_maximumBytes limits) (estimateRowsBytes [cells r])"
  shows "factLoop variableLimit limits cells exec rows pending bytes db = exec (pending @ rows) db"
  using assms(2,3)
proof (induction rows arbitrary: pending bytes db)
  case Nil
  then show ?case using insertRows_exec[OF assms(1), of maximumBatchRows pending db]
    by (simp add: maximumBatchRows_def exec_Nil)
next
  case (Cons r rows)
  have flush: "insertRows variableLimit maximumBatchRows cells exec pending db = exec pending db"
    using Cons.prems by (intro insertRows_exec[OF assms(1)]) (auto simp: maximumBatchRows_def)
  have "factLoop variableLimit limits cells exec rows [r] b db' = exec (r # rows) db'" for b db'
    using Cons.IH[of "[r]" b db'] Cons.prems by simp
  moreover have "factLoop variableLimit limits cells exec rows (pending @ [r]) b db = exec (pending @ r # rows) db" for b
    using Cons.IH[of "pending @ [r]" b db] Cons.prems by simp
  ultimately show ?case using Cons.prems flush exec_append[of pending "r # rows" db]
    by (auto simp: Let_def split: sum.splits)
qed

lemma factLoop_limits:
  "factLoop variableLimit limits cells exec rows pending bytes db = Inr db'
    \<Longrightarrow> \<forall>r\<in>set rows. \<not> overLimit (fact_maximumBytes limits) (estimateRowsBytes [cells r])"
  by (induction rows arbitrary: pending bytes db) (fastforce simp: Let_def split: if_splits sum.splits)+

end

lemma cells_width:
  "length (nodeCells n) = 15" "length (edgeCells e) = 15" "length (versionCells v) = 3"
  by (simp_all add: nodeCells_def edgeCells_def versionCells_def evidenceCells_def)

lemma storeWorkspaceFacts_exec:
  assumes "16 \<le> variableLimit" "fact_maximumBytes limits = 0"
  shows "storeWorkspaceFacts variableLimit limits ws version facts db
    = Inr (db\<lparr>db_workspace_nodes := insertOrIgnore nodeKey (db_workspace_nodes db) (workspaceNodeRows ws version facts),
        db_workspace_edges := insertOrIgnore edgeRowKey (db_workspace_edges db) (workspaceEdgeRows ws version facts)\<rparr>)"
  using assms
  by (simp add: storeWorkspaceFacts_def node_insert.factLoop_exec edge_insert.factLoop_exec cells_width overLimit_def
      execNodes_def execEdges_def)

subsection \<open>The rows of a publication\<close>

definition closedRow :: "string \<Rightarrow> GraphVersion \<Rightarrow> string set \<Rightarrow> Row \<Rightarrow> Row" where
  "closedRow ws v sources r =
    (if row_workspace r = ws \<and> row_source r \<in> sources \<and> row_to r = None then r\<lparr>row_to := Some (v - 1)\<rparr> else r)"

definition newRows :: "string \<Rightarrow> GraphVersion \<Rightarrow> encodedContribution list \<Rightarrow> ContributionTable \<Rightarrow> Row list" where
  "newRows ws v cs t = concat (map (\<lambda>c. ignoreInsert [] (prepareContribution ws v c t)) cs)"

lemma closedRow_empty [simp]: "closedRow ws v {} = (\<lambda>r. r)"
  by (simp add: closedRow_def fun_eq_iff)

lemma closedRow_sel [simp]:
  "row_workspace (closedRow ws v S r) = row_workspace r" "row_source (closedRow ws v S r) = row_source r"
  "row_from (closedRow ws v S r) = row_from r" "row_data (closedRow ws v S r) = row_data r"
  "shown (closedRow ws v S r) = shown r" "rowPK (closedRow ws v S r) = rowPK r"
  by (simp_all add: closedRow_def shown_def rowPK_def)

lemma closedRow_to: "row_to (closedRow ws v S r) =
    (if row_workspace r = ws \<and> row_source r \<in> S \<and> row_to r = None then Some (v - 1) else row_to r)"
  by (simp add: closedRow_def)

lemma closeRow_closedRow: "closeRow ws s (v - 1) (closedRow ws v S r) = closedRow ws v (insert s S) r"
  by (auto simp: closeRow_def closedRow_def)

lemma newRows_in: "r \<in> set (newRows ws v cs t) \<Longrightarrow> \<exists>c\<in>set cs. r \<in> set (prepareContribution ws v c t)"
  using set_ignoreInsert[of "[]"] by (fastforce simp: newRows_def)

lemma newRows_sel:
  "r \<in> set (newRows ws v cs t) \<Longrightarrow> row_workspace r = ws \<and> row_from r = v \<and> row_to r = None
    \<and> row_source r \<in> enc_sourcePath ` set cs"
  using newRows_in prepared_source by (metis imageI)

definition writeRows :: "string \<Rightarrow> GraphVersion \<Rightarrow> ContributionTable \<Rightarrow> encodedContribution \<Rightarrow> Row list \<Rightarrow> Row list" where
  "writeRows ws v t c rows = ignoreInsert (if v > 1 then map (closeRow ws (enc_sourcePath c) (v - 1)) rows else rows)
     (prepareContribution ws v c t)"

lemma writeAll_rows: "db_rows (writeAll ws v cs db) t = fold (writeRows ws v t) cs (db_rows db t)"
  by (induction cs arbitrary: db)
    (simp_all add: writeAll_def writeDirect_def writeRows_def closeContributionRecords_map)

lemma writeAll_other:
  "db_workspace_nodes (writeAll ws v cs db) = db_workspace_nodes db"
  "db_workspace_edges (writeAll ws v cs db) = db_workspace_edges db"
  "db_graph_versions (writeAll ws v cs db) = db_graph_versions db"
  "db_derived (writeAll ws v cs db) = db_derived db"
  by (induction cs arbitrary: db) (simp_all add: writeAll_def writeDirect_def closeContributionRecords_map)

text \<open>Rows of a new version: they start at it, are open and belong to the given sources.\<close>

definition freshRows :: "string \<Rightarrow> GraphVersion \<Rightarrow> string set \<Rightarrow> Row list \<Rightarrow> bool" where
  "freshRows ws v S rows \<longleftrightarrow>
     (\<forall>r\<in>set rows. row_workspace r = ws \<and> row_from r = v \<and> row_to r = None \<and> row_source r \<in> S)"

lemma freshRowsD: "freshRows ws v S rows \<Longrightarrow> r \<in> set rows \<Longrightarrow>
    row_workspace r = ws \<and> row_from r = v \<and> row_to r = None \<and> row_source r \<in> S"
  unfolding freshRows_def by blast

lemma newRows_fresh: "freshRows ws v (enc_sourcePath ` set cs) (newRows ws v cs t)"
  unfolding freshRows_def using newRows_sel by blast

lemma writeRows_step:
  assumes rows: "\<forall>r\<in>set rows. row_workspace r = ws \<longrightarrow> 1 \<le> row_from r \<and> row_from r < v"
    and new: "freshRows ws v S new" and src: "enc_sourcePath c \<notin> S"
  shows "writeRows ws v t c (map (closedRow ws v S) rows @ new)
    = map (closedRow ws v (insert (enc_sourcePath c) S)) rows @ new @ ignoreInsert [] (prepareContribution ws v c t)"
proof -
  let ?s = "enc_sourcePath c"
  have same: "map (closeRow ws ?s (v - 1)) new = new"
  proof (intro map_idI closeRow_other)
    fix r assume "r \<in> set new"
    then have "row_source r \<in> S" using freshRowsD[OF new] by blast
    then show "row_source r \<noteq> ?s" using src by metis
  qed
  have old: "(if v > 1 then map (closeRow ws ?s (v - 1)) (map (closedRow ws v S) rows) else map (closedRow ws v S) rows)
      = map (closedRow ws v (insert ?s S)) rows"
  proof (cases "v > 1")
    case True
    then show ?thesis by (simp add: closeRow_closedRow[simplified])
  next
    case False
    then have "closedRow ws v T r = r" if "r \<in> set rows" for r T
      using rows that by (fastforce simp: closedRow_def)
    then show ?thesis using False by simp
  qed
  have fresh: "\<forall>r\<in>set (prepareContribution ws v c t). \<not> list_ex (sameKey r) (map (closedRow ws v (insert ?s S)) rows @ new)"
  proof
    fix r assume r: "r \<in> set (prepareContribution ws v c t)"
    have "\<not> sameKey r (closedRow ws v (insert ?s S) x)" if "x \<in> set rows" for x
      using prepared_source[OF r] rows that by (auto simp: sameKey_def)
    moreover have "\<not> sameKey r x" if "x \<in> set new" for x
      using prepared_source[OF r] freshRowsD[OF new that] src by (auto simp: sameKey_def)
    ultimately show "\<not> list_ex (sameKey r) (map (closedRow ws v (insert ?s S)) rows @ new)"
      by (auto simp: list_ex_iff)
  qed
  have app: "(if v > 1 then map (closeRow ws ?s (v - 1)) (xs @ new) else xs @ new)
      = (if v > 1 then map (closeRow ws ?s (v - 1)) xs else xs) @ new" for xs
    unfolding map_append same by simp
  have "writeRows ws v t c (map (closedRow ws v S) rows @ new)
      = ignoreInsert (map (closedRow ws v (insert ?s S)) rows @ new) (prepareContribution ws v c t)"
    unfolding writeRows_def app old ..
  then show ?thesis using ignoreInsert_fresh[OF fresh] by simp
qed

lemma writeAll_new_rows:
  assumes "\<forall>r\<in>set (db_rows db t). row_workspace r = ws \<longrightarrow> 1 \<le> row_from r \<and> row_from r < v"
    and "distinct (map enc_sourcePath cs)"
  shows "db_rows (writeAll ws v cs db) t
    = map (closedRow ws v (enc_sourcePath ` set cs)) (db_rows db t) @ newRows ws v cs t"
  unfolding writeAll_rows using assms(2)
proof (induction cs rule: rev_induct)
  case Nil
  then show ?case by (simp add: newRows_def)
next
  case (snoc c cs)
  then show ?case using writeRows_step[OF assms(1) newRows_fresh, of c cs t] by (simp add: newRows_def)
qed

lemma newRows_distinct: "distinct (map enc_sourcePath cs) \<Longrightarrow> distinct (map rowPK (newRows ws v cs t))"
proof (induction cs)
  case (Cons c cs)
  have "distinct (map rowPK (ignoreInsert rows rs))" if "distinct (map rowPK rows)" for rows rs
    using that
  proof (induction rs arbitrary: rows)
    case (Cons r rs)
    from Cons.prems have "distinct (map rowPK (if list_ex (sameKey r) rows then rows else rows @ [r]))"
      by (auto simp: list_ex_iff sameKey_rowPK)
    from Cons.IH[OF this] show ?case by simp
  qed simp
  from this[of "[]"] have 1: "distinct (map rowPK (ignoreInsert [] (prepareContribution ws v c t)))" by simp
  have "rowPK a \<noteq> rowPK b" if "a \<in> set (ignoreInsert [] (prepareContribution ws v c t))" "b \<in> set (newRows ws v cs t)" for a b
  proof -
    have "row_source a = enc_sourcePath c" using that(1) set_ignoreInsert[of "[]"] prepared_source by fastforce
    then show ?thesis using newRows_sel[OF that(2)] Cons.prems by (auto simp: rowPK_def)
  qed
  then have "rowPK ` set (ignoreInsert [] (prepareContribution ws v c t)) \<inter> rowPK ` set (newRows ws v cs t) = {}" by blast
  moreover have "newRows ws v (c # cs) t = ignoreInsert [] (prepareContribution ws v c t) @ newRows ws v cs t"
    by (simp add: newRows_def)
  ultimately show ?case using 1 Cons by simp
qed (simp add: newRows_def)

subsection \<open>What a publication shows\<close>

lemma extended_shown:
  assumes wf: "wf_rows cur rows" and v: "v = cur ws + 1" and new: "freshRows ws v S new"
  shows "map shown (filter (visibleRow w u) (map (closedRow ws v S) rows @ new))
    = (if w = ws \<and> u = v
       then filter (\<lambda>(source, d). source \<notin> S) (map shown (filter (visibleRow ws (cur ws)) rows))
         @ map shown new
       else if w = ws \<and> u > v then map shown (filter (visibleRow w u) (map (closedRow ws v S) rows @ new))
       else map shown (filter (visibleRow w u) rows))"
proof -
  have to: "row_workspace r = ws \<Longrightarrow> row_to r = Some k \<Longrightarrow> k < cur ws" if "r \<in> set rows" for r k
    using wf_rowsD(3)[OF wf that] by auto
  consider "w = ws" "u = v" | "w = ws" "u > v" | "w \<noteq> ws \<or> u < v" by linarith
  then show ?thesis
  proof cases
    case 1
    have "visibleRow ws v (closedRow ws v S r) \<longleftrightarrow> visibleRow ws (cur ws) r \<and> row_source r \<notin> S" if "r \<in> set rows" for r
      using wf_rowsD(2)[OF wf that] to[OF that] v
      by (fastforce simp: visibleRow_def closedRow_to split: option.splits if_splits)
    then have "map shown (filter (visibleRow ws v) (map (closedRow ws v S) rows))
        = map shown (filter (\<lambda>r. visibleRow ws (cur ws) r \<and> row_source r \<notin> S) rows)"
      by (simp add: filter_map o_def cong: filter_cong)
    also have "\<dots> = filter (\<lambda>(source, d). source \<notin> S) (map shown (filter (visibleRow ws (cur ws)) rows))"
      by (simp add: filter_map shown_def o_def conj_commute)
    finally have old: "map shown (filter (visibleRow ws v) (map (closedRow ws v S) rows)) = \<dots>" .
    have "visibleRow ws v r" if "r \<in> set new" for r
      using freshRowsD[OF new that] by (simp add: visibleRow_def)
    then have "filter (visibleRow ws v) new = new" by (intro filter_True) blast
    then show ?thesis using 1 old by simp
  next
    case 2
    then show ?thesis by simp
  next
    case 3
    have "visibleRow w u (closedRow ws v S r) \<longleftrightarrow> visibleRow w u r" if "r \<in> set rows" for r
      using 3 v by (auto simp: visibleRow_def closedRow_to split: option.splits)
    then have "map shown (filter (visibleRow w u) (map (closedRow ws v S) rows)) = map shown (filter (visibleRow w u) rows)"
      by (simp add: filter_map o_def cong: filter_cong)
    moreover have "filter (visibleRow w u) new = []"
      using 3 freshRowsD[OF new] by (fastforce simp: visibleRow_def filter_empty_conv)
    ultimately show ?thesis using 3 by auto
  qed
qed

lemma extended_wf:
  assumes wf: "wf_rows cur rows" and v: "v = cur ws + 1" and cur: "cur' = cur(ws := v)" and new: "freshRows ws v S new" and d: "distinct (map rowPK new)"
  shows "wf_rows cur' (map (closedRow ws v S) rows @ new)"
proof -
  let ?all = "map (closedRow ws v S) rows @ new"
  have kind: "(\<exists>x\<in>set rows. r = closedRow ws v S x) \<or> r \<in> set new" if "r \<in> set ?all" for r
    using that by auto
  have 1: "1 \<le> row_from r \<and> row_from r \<le> cur' (row_workspace r) \<and> (\<forall>k. row_to r = Some k \<longrightarrow> k < cur' (row_workspace r))"
    if "r \<in> set ?all" for r
    using kind[OF that]
  proof
    assume "\<exists>x\<in>set rows. r = closedRow ws v S x"
    then obtain x where x: "x \<in> set rows" "r = closedRow ws v S x" by blast
    show ?thesis using wf_rowsD(1-3)[OF wf x(1)] v unfolding x(2) cur
      by (cases "row_workspace x = ws") (auto simp: closedRow_to)
  next
    assume "r \<in> set new"
    from freshRowsD[OF new this] show ?thesis using v by (simp add: cur)
  qed
  have 2: "\<exists>k. row_to a = Some k \<and> k < row_from b"
    if ab: "a \<in> set ?all" "b \<in> set ?all" "row_workspace a = row_workspace b" "row_source a = row_source b" "row_from a < row_from b" for a b
  proof -
    have "a \<notin> set new"
    proof
      assume "a \<in> set new"
      from freshRowsD[OF new this] have a: "row_workspace a = ws" "row_from a = v" by auto
      then have "row_from b \<le> v" using 1[OF ab(2)] ab(3) by (simp add: cur)
      then show False using ab(5) a by simp
    qed
    then obtain x where x: "x \<in> set rows" "a = closedRow ws v S x" using kind[OF ab(1)] by blast
    from kind[OF ab(2)] show ?thesis
    proof
      assume "\<exists>y\<in>set rows. b = closedRow ws v S y"
      then obtain y where y: "y \<in> set rows" "b = closedRow ws v S y" by blast
      with wf_rowsD(4)[OF wf x(1) y(1)] ab obtain k where "row_to x = Some k" "k < row_from y" by (auto simp: x(2))
      then show ?thesis by (simp add: x(2) y(2) closedRow_to)
    next
      assume "b \<in> set new"
      from freshRowsD[OF new this] have b: "row_workspace x = ws" "row_from b = v" "row_source x \<in> S"
        using ab(3,4) by (auto simp: x(2))
      then show ?thesis using wf_rowsD(3)[OF wf x(1)] v
        by (cases "row_to x") (fastforce simp: x(2) closedRow_to)+
    qed
  qed
  have "rowPK (closedRow ws v S x) \<noteq> rowPK y" if "x \<in> set rows" "y \<in> set new" for x y
    using wf_rowsD(2)[OF wf that(1)] freshRowsD[OF new that(2)] v by (auto simp: rowPK_def)
  then have "rowPK ` set (map (closedRow ws v S) rows) \<inter> rowPK ` set new = {}" by auto metis
  then have 3: "distinct (map rowPK ?all)"
    using d wf_rows_distinct[OF wf] by (simp add: o_def image_image)
  show ?thesis unfolding wf_rows_def using 1 2 3 by blast
qed

lemma ignoreInsert_mapped:
  assumes "\<And>a b. sameKey (mk a) (mk b) \<longleftrightarrow> key a = key b"
  shows "ignoreInsert (map mk xs) (map mk ys) = map mk (insertOrIgnore key xs ys)"
proof (induction ys arbitrary: xs)
  case (Cons y ys)
  have "list_ex (sameKey (mk y)) (map mk xs) \<longleftrightarrow> key y \<in> key ` set xs" using assms by (auto simp: list_ex_iff)
  then show ?case using Cons[of xs] Cons[of "xs @ [y]"] by simp
qed simp

lemma insertOrIgnore_mapped:
  assumes "\<And>a b. key (mk a) = key (mk b) \<longleftrightarrow> key' a = key' b"
  shows "insertOrIgnore key (map mk xs) (map mk ys) = map mk (insertOrIgnore key' xs ys)"
proof (induction ys arbitrary: xs)
  case (Cons y ys)
  have "key (mk y) \<in> key ` set (map mk xs) \<longleftrightarrow> key' y \<in> key' ` set xs" using assms by (auto simp: image_iff)
  then show ?case using Cons[of xs] Cons[of "xs @ [y]"] by simp
qed simp

text \<open>What the new version shows: the previous version without the sources that are replaced, the
  new contributions with the first row of every key, the request's workspace facts after the
  retained edges, and the lexical index of exactly these nodes.\<close>

definition publishedRows :: "encodedContribution list \<Rightarrow> ContributionTable \<Rightarrow> (string \<times> RowData) list" where
  "publishedRows cs t = concat (map (\<lambda>c. map (\<lambda>d. (enc_sourcePath c, d)) (insertOrIgnore rowKey [] (contributionData c t))) cs)"

definition lexicalRows :: "UnicodeTables \<Rightarrow> Node list \<Rightarrow> string list list" where
  "lexicalRows u nodes = map (\<lambda>columns. columns @ [identifierTokens u (join '' '' columns)])
     (sort (dedup (map lexicalColumns nodes)))"

definition writtenView :: "Facts \<Rightarrow> string list \<Rightarrow> encodedContribution list \<Rightarrow> VersionView \<Rightarrow> VersionView" where
  "writtenView facts owners cs prev = \<lparr>
     view_rows = (\<lambda>t. filter (\<lambda>(source, d). source \<notin> enc_sourcePath ` set cs) (view_rows prev t) @ publishedRows cs t),
     view_nodes = insertOrIgnore node_ID [] (facts_Nodes facts),
     view_edges = insertOrIgnore (\<lambda>(e, owner). edgeColumns e)
       (if owners = [] then [] else filter (\<lambda>(e, owner). owner \<notin> set owners) (view_edges prev))
       (map (\<lambda>e. (e, span_Path (ev_Span (edge_Evidence e)))) (facts_Edges facts)),
     view_derived = (\<lambda>_. [])\<rparr>"

definition nextView :: "UnicodeTables \<Rightarrow> Facts \<Rightarrow> string list \<Rightarrow> encodedContribution list \<Rightarrow> VersionView \<Rightarrow> VersionView" where
  "nextView u facts owners cs prev =
    (let written = writtenView facts owners cs prev
     in written\<lparr>view_derived := (\<lambda>_. [])(node_search := lexicalRows u (viewNodes written))\<rparr>)"

lemma newRows_shown: "map shown (newRows ws v cs t) = publishedRows cs t"
proof -
  have "map shown (ignoreInsert [] (prepareContribution ws v c t))
      = map (\<lambda>d. (enc_sourcePath c, d)) (insertOrIgnore rowKey [] (contributionData c t))" for c
    unfolding prepareContribution_def
    by (subst ignoreInsert_mapped[where key = rowKey and xs = "[]", simplified])
      (simp_all add: sameKey_def shown_def)
  then show ?thesis by (simp add: newRows_def publishedRows_def map_concat o_def)
qed

subsection \<open>One publication\<close>

lemma encodeLoop_ok:
  "encodeLoop cs seen = (if distinct (map c_sourcePath cs) \<and> c_sourcePath ` set cs \<inter> seen = {}
     then Inr (map encodeContribution cs) else Inl ErrInvalidRequest)"
  by (induction cs arbitrary: seen) auto

lemma encodeContributions_ok:
  "encodeContributions update = (if distinct (map c_sourcePath (gu_contributions update))
     then Inr (map encodeContribution (gu_contributions update)) else Inl ErrInvalidRequest)"
  by (simp add: encodeContributions_def encodeLoop_ok)

lemma enc_source [simp]: "enc_sourcePath (encodeContribution c) = c_sourcePath c"
  by (simp add: encodeContribution_def)

definition retainedEdges :: "string \<Rightarrow> GraphVersion \<Rightarrow> string list \<Rightarrow> Database \<Rightarrow> WorkspaceEdgeRow list" where
  "retainedEdges ws v owners db = (if owners = [] then []
     else map (\<lambda>r. r\<lparr>we_version := v\<rparr>)
       (filter (\<lambda>r. we_workspace r = ws \<and> we_version r = v - 1 \<and> we_owner r \<notin> set owners) (db_workspace_edges db)))"

text \<open>The tables after the version's facts are written, before retention.\<close>

definition writtenStore :: "string \<Rightarrow> GraphVersion \<Rightarrow> int \<Rightarrow> Facts \<Rightarrow> string list \<Rightarrow> encodedContribution list \<Rightarrow> Database \<Rightarrow> Database" where
  "writtenStore ws v now facts owners cs db = \<lparr>
     db_rows = (\<lambda>t. map (closedRow ws v (enc_sourcePath ` set cs)) (db_rows db t) @ newRows ws v cs t),
     db_workspace_nodes = db_workspace_nodes db @ insertOrIgnore nodeKey [] (workspaceNodeRows ws v facts),
     db_workspace_edges = db_workspace_edges db
       @ insertOrIgnore edgeRowKey (retainedEdges ws v owners db) (workspaceEdgeRows ws v facts),
     db_graph_versions = db_graph_versions db @ [\<lparr>gv_workspace = ws, gv_version = v, gv_publishedAt = now\<rparr>],
     db_derived = db_derived db\<rparr>"

lemma version_fresh: "v = currentVersion db ws + 1 \<Longrightarrow> v \<le> u \<Longrightarrow> \<not> recorded db ws u"
  using recorded_le[of db ws u] by auto

lemma insertVersion_ok:
  assumes v: "v = currentVersion db ws + 1" and "16 \<le> cfg_variableLimit store"
  shows "insertVersion store ws v now db
    = Inr (db\<lparr>db_graph_versions := db_graph_versions db @ [\<lparr>gv_workspace = ws, gv_version = v, gv_publishedAt = now\<rparr>]\<rparr>)"
proof -
  have "(ws, v) \<notin> (\<lambda>r. (gv_workspace r, gv_version r)) ` set (db_graph_versions db)"
    using version_fresh[OF v, of v] by (auto simp: recorded_iff workspaceVersions_def)
  then show ?thesis using assms
    by (simp add: insertVersion_def version_insert.insertRows_exec cells_width maximumBatchRows_def execVersions_def
        uniqueViolation_set)
qed

lemma edges_fresh:
  assumes "wf_store db" "v = currentVersion db ws + 1" "we_workspace r = ws" "we_version r = v"
  shows "edgeRowKey r \<notin> edgeRowKey ` set (db_workspace_edges db)"
  using wf_storeD(4)[OF assms(1)] assms(2-) by (fastforce simp: edgeRowKey_def)

lemma nodes_fresh:
  assumes "wf_store db" "v = currentVersion db ws + 1" "wn_workspace r = ws" "wn_version r = v"
  shows "nodeKey r \<notin> nodeKey ` set (db_workspace_nodes db)"
  using wf_storeD(2)[OF assms(1)] assms(2-) by (fastforce simp: nodeKey_def)

lemma retainedEdges_sel: "r \<in> set (retainedEdges ws v owners db) \<Longrightarrow> we_workspace r = ws \<and> we_version r = v"
  by (auto simp: retainedEdges_def split: if_splits)

lemma retainedEdges_distinct:
  assumes wf: "wf_store db"
  shows "distinct (map edgeRowKey (retainedEdges ws v owners db))"
proof -
  let ?P = "\<lambda>r. we_workspace r = ws \<and> we_version r = v - 1 \<and> we_owner r \<notin> set owners"
  have "distinct (map edgeRowKey (filter ?P (db_workspace_edges db)))"
    using wf_storeD(5)[OF wf] by (rule distinct_map_filter)
  then have "distinct (map (\<lambda>r. edgeRowKey (r\<lparr>we_version := v\<rparr>)) (filter ?P (db_workspace_edges db)))"
    by (auto simp: distinct_map inj_on_def edgeRowKey_def)
  then show ?thesis by (simp add: retainedEdges_def o_def)
qed

definition tooManyOwners :: "nat \<Rightarrow> GraphVersion \<Rightarrow> string list \<Rightarrow> bool" where
  "tooManyOwners variableLimit v owners \<longleftrightarrow> owners \<noteq> [] \<and> v > 1 \<and> length owners + 3 > variableLimit"

lemma tooManyOwners_Nil [simp]: "\<not> tooManyOwners variableLimit v []"
  by (simp add: tooManyOwners_def)

lemma retain_tooMany: "tooManyOwners variableLimit v owners \<Longrightarrow>
    retainWorkspaceFacts variableLimit ws v owners db = Inl (ErrDatabase ''too many SQL variables'')"
  by (simp add: tooManyOwners_def retainWorkspaceFacts_def)

lemma retain_ok:
  assumes wf: "wf_store db" and v: "v = currentVersion db ws + 1" and that: "db_workspace_edges db' = db_workspace_edges db"
    and few: "\<not> tooManyOwners variableLimit v owners"
  shows "retainWorkspaceFacts variableLimit ws v owners db' = Inr (db'\<lparr>db_workspace_edges := db_workspace_edges db @ retainedEdges ws v owners db\<rparr>)"
proof (cases "owners = [] \<or> v \<le> 1")
  case True
  have "retainedEdges ws v owners db = []"
  proof (cases "owners = []")
    case False
    then have "v - 1 = 0" using True by simp
    then show ?thesis using wf_storeD(4)[OF wf] by (fastforce simp: retainedEdges_def filter_empty_conv)
  qed (simp add: retainedEdges_def)
  then show ?thesis using True that by (simp add: retainWorkspaceFacts_def)
next
  case False
  have "\<not> uniqueViolation edgeRowKey (db_workspace_edges db) (retainedEdges ws v owners db)"
  proof (rule uniqueViolation_fresh[OF _ retainedEdges_distinct[OF wf]])
    fix r assume "r \<in> set (retainedEdges ws v owners db)"
    from retainedEdges_sel[OF this] show "edgeRowKey r \<notin> edgeRowKey ` set (db_workspace_edges db)"
      using edges_fresh[OF wf v] by blast
  qed
  then show ?thesis using False that few by (simp add: retainWorkspaceFacts_def retainedEdges_def tooManyOwners_def)
qed

lemma rows_before:
  assumes wf: "wf_store db" and v: "v = currentVersion db ws + 1"
  shows "\<forall>r\<in>set (db_rows db t). row_workspace r = ws \<longrightarrow> 1 \<le> row_from r \<and> row_from r < v"
  using wf_rowsD(1,2)[OF wf_storeD(1)[OF wf]] v by fastforce

lemma header_conflict_free:
  assumes wf: "wf_store db" and v: "v = currentVersion db ws + 1" and d: "distinct (map enc_sourcePath cs)"
  shows "\<not> hasConflict (db_rows db file_contributions) (headerRows ws v cs)"
proof -
  let ?h = "headerRows ws v cs"
  have h: "row_workspace r = ws \<and> row_from r = v \<and> row_source r \<in> enc_sourcePath ` set cs" if "r \<in> set ?h" for r
    using that prepared_source by (fastforce simp: headerRows_def)
  have "rowPK a \<noteq> rowPK r" if "a \<in> set (db_rows db file_contributions)" "r \<in> set ?h" for a r
    using rows_before[OF wf v, of file_contributions] that h[OF that(2)] by (auto simp: rowPK_def)
  then have "rowPK ` set (db_rows db file_contributions) \<inter> rowPK ` set ?h = {}" by auto metis
  moreover have "map row_source ?h = map enc_sourcePath cs"
    by (induction cs) (simp_all add: headerRows_def prepareContribution_def contributionData_def)
  then have "distinct (map row_source ?h)" using d by simp
  then have "distinct (map rowPK ?h)" by (auto simp: distinct_map inj_on_def rowPK_def)
  ultimately show ?thesis
    using wf_rows_distinct[OF wf_storeD(1)[OF wf, of file_contributions]] by (simp add: hasConflict_iff)
qed

lemma fresh_disjoint: "(\<And>r. r \<in> set rs \<Longrightarrow> key r \<notin> key ` set pre) \<Longrightarrow> key ` set rs \<inter> key ` set pre = {}"
  by blast

lemma insertOrIgnore_new:
  "(\<And>r. r \<in> set rs \<Longrightarrow> key r \<notin> key ` set pre) \<Longrightarrow> insertOrIgnore key (pre @ rows) rs = pre @ insertOrIgnore key rows rs"
  by (intro insertOrIgnore_fresh fresh_disjoint)

lemma storePrepared_ok:
  assumes wf: "wf_store db" and v: "v = currentVersion db ws + 1" and d: "distinct (map enc_sourcePath cs)"
    and vl: "16 \<le> variableLimit" and sched: "distinct schedule" "set schedule = {..<length cs}"
    and few: "\<not> tooManyOwners variableLimit v owners"
  shows "storePreparedPublication schedule variableLimit \<lparr>fact_maximumRows = maximumBatchRows, fact_maximumBytes = 0\<rparr> ws v facts owners cs
      (db\<lparr>db_graph_versions := db_graph_versions db @ [\<lparr>gv_workspace = ws, gv_version = v, gv_publishedAt = now\<rparr>]\<rparr>)
    = Inr (writtenStore ws v now facts owners cs db)"
proof -
  let ?db = "db\<lparr>db_graph_versions := db_graph_versions db @ [\<lparr>gv_workspace = ws, gv_version = v, gv_publishedAt = now\<rparr>],
    db_workspace_nodes := insertOrIgnore nodeKey (db_workspace_nodes db) (workspaceNodeRows ws v facts),
    db_workspace_edges := insertOrIgnore edgeRowKey (db_workspace_edges db @ retainedEdges ws v owners db) (workspaceEdgeRows ws v facts)\<rparr>"
  have nodes: "insertOrIgnore nodeKey (db_workspace_nodes db) (workspaceNodeRows ws v facts)
      = db_workspace_nodes db @ insertOrIgnore nodeKey [] (workspaceNodeRows ws v facts)"
  proof (subst append_Nil2[of "db_workspace_nodes db", symmetric], rule insertOrIgnore_new)
    fix r assume "r \<in> set (workspaceNodeRows ws v facts)"
    then show "nodeKey r \<notin> nodeKey ` set (db_workspace_nodes db)"
      by (intro nodes_fresh[OF wf v]) (auto simp: workspaceNodeRows_def)
  qed
  have edges: "insertOrIgnore edgeRowKey (db_workspace_edges db @ retainedEdges ws v owners db) (workspaceEdgeRows ws v facts)
      = db_workspace_edges db @ insertOrIgnore edgeRowKey (retainedEdges ws v owners db) (workspaceEdgeRows ws v facts)"
  proof (rule insertOrIgnore_new)
    fix r assume "r \<in> set (workspaceEdgeRows ws v facts)"
    then show "edgeRowKey r \<notin> edgeRowKey ` set (db_workspace_edges db)"
      by (intro edges_fresh[OF wf v]) (auto simp: workspaceEdgeRows_def)
  qed
  have rows: "db_rows ?db = db_rows db" by simp
  have "writeBatched variableLimit noLimits ws v cs ?db = Inr (writeAll ws v cs ?db)"
    using header_conflict_free[OF wf v d] by (intro writeBatched_ok[OF vl d]) simp
  moreover have "writeAll ws v cs ?db = writtenStore ws v now facts owners cs db"
  proof (rule Database.equality)
    show "db_rows (writeAll ws v cs ?db) = db_rows (writtenStore ws v now facts owners cs db)"
    proof
      fix t
      show "db_rows (writeAll ws v cs ?db) t = db_rows (writtenStore ws v now facts owners cs db) t"
        using writeAll_new_rows[of ?db t ws v cs, unfolded rows, OF rows_before[OF wf v] d] by (simp add: writtenStore_def)
    qed
  qed (simp_all add: writeAll_other writtenStore_def nodes edges)
  ultimately show ?thesis
    unfolding storePrepared_sequential[OF sched]
    by (simp add: retain_ok[OF wf v _ few] storeWorkspaceFacts_exec[OF vl])
qed

subsection \<open>A store extended by one version\<close>

text \<open>The rows of the sources in S end at the previous version, new rows start at the new one.\<close>

definition extendedStore :: "string \<Rightarrow> GraphVersion \<Rightarrow> int \<Rightarrow> string set \<Rightarrow> (ContributionTable \<Rightarrow> Row list) \<Rightarrow> WorkspaceNodeRow list
    \<Rightarrow> WorkspaceEdgeRow list \<Rightarrow> Database \<Rightarrow> Database" where
  "extendedStore ws v now S new nodes edges db = \<lparr>
     db_rows = (\<lambda>t. map (closedRow ws v S) (db_rows db t) @ new t),
     db_workspace_nodes = db_workspace_nodes db @ nodes,
     db_workspace_edges = db_workspace_edges db @ edges,
     db_graph_versions = db_graph_versions db @ [\<lparr>gv_workspace = ws, gv_version = v, gv_publishedAt = now\<rparr>],
     db_derived = db_derived db\<rparr>"

definition extension_ok :: "string \<Rightarrow> GraphVersion \<Rightarrow> string set \<Rightarrow> (ContributionTable \<Rightarrow> Row list) \<Rightarrow> WorkspaceNodeRow list
    \<Rightarrow> WorkspaceEdgeRow list \<Rightarrow> bool" where
  "extension_ok ws v S new nodes edges \<longleftrightarrow>
     (\<forall>t. freshRows ws v S (new t) \<and> distinct (map rowPK (new t)))
     \<and> (\<forall>r\<in>set nodes. wn_workspace r = ws \<and> wn_version r = v) \<and> distinct (map nodeKey nodes)
     \<and> (\<forall>r\<in>set edges. we_workspace r = ws \<and> we_version r = v) \<and> distinct (map edgeRowKey edges)"

lemma extension_okD:
  assumes "extension_ok ws v S new nodes edges"
  shows "freshRows ws v S (new t)" "distinct (map rowPK (new t))"
    "r \<in> set nodes \<Longrightarrow> wn_workspace r = ws \<and> wn_version r = v" "distinct (map nodeKey nodes)"
    "e \<in> set edges \<Longrightarrow> we_workspace e = ws \<and> we_version e = v" "distinct (map edgeRowKey edges)"
  using assms unfolding extension_ok_def by blast+

lemma recorded_extended [simp]:
  "recorded (extendedStore ws v now S new nodes edges db) w u \<longleftrightarrow> recorded db w u \<or> w = ws \<and> u = v"
  by (auto simp: recorded_iff workspaceVersions_def extendedStore_def)

lemma current_extended:
  assumes "v = currentVersion db ws + 1"
  shows "currentVersion (extendedStore ws v now S new nodes edges db) = (currentVersion db)(ws := v)"
proof
  fix w
  let ?db = "extendedStore ws v now S new nodes edges db"
  show "currentVersion ?db w = ((currentVersion db)(ws := v)) w"
  proof (cases "w = ws")
    case True
    have "currentVersion ?db ws = v"
      by (rule currentVersion_eqI) (use recorded_le[of db ws] assms in \<open>auto dest: le_SucI\<close>)
    then show ?thesis using True by simp
  next
    case False
    then have "workspaceVersions ?db w = workspaceVersions db w" by (simp add: workspaceVersions_def extendedStore_def)
    then show ?thesis using False by (simp add: currentVersion_def)
  qed
qed

lemma distinct_fresh_append:
  assumes "distinct (map key xs)" "distinct (map key ys)" "\<And>y. y \<in> set ys \<Longrightarrow> key y \<notin> key ` set xs"
  shows "distinct (map key (xs @ ys))"
  using assms(1,2) fresh_disjoint[of ys key xs, OF assms(3)] by (simp add: Int_commute)

lemma extended_wf_store:
  assumes wf: "wf_store db" and v: "v = currentVersion db ws + 1" and ext: "extension_ok ws v S new nodes edges"
  shows "wf_store (extendedStore ws v now S new nodes edges db)"
proof -
  let ?db = "extendedStore ws v now S new nodes edges db"
  note cur = current_extended[OF v, of now S new nodes edges]
  have le: "u \<le> ((currentVersion db)(ws := v)) w" if "u \<le> currentVersion db w" for u w using that v by auto
  have rows: "wf_rows (currentVersion ?db) (db_rows ?db t)" for t
    using extended_wf[OF wf_storeD(1)[OF wf] v cur extension_okD(1,2)[OF ext], of t] by (simp add: extendedStore_def)
  have n: "\<forall>r\<in>set (db_workspace_nodes ?db). 1 \<le> wn_version r \<and> wn_version r \<le> currentVersion ?db (wn_workspace r)"
  proof
    fix r assume "r \<in> set (db_workspace_nodes ?db)"
    then have "r \<in> set (db_workspace_nodes db) \<or> r \<in> set nodes" by (auto simp: extendedStore_def)
    then show "1 \<le> wn_version r \<and> wn_version r \<le> currentVersion ?db (wn_workspace r)"
      using wf_storeD(2)[OF wf, of r] extension_okD(3)[OF ext, of r] le[of "wn_version r" "wn_workspace r"] v unfolding cur by auto
  qed
  have e: "\<forall>r\<in>set (db_workspace_edges ?db). 1 \<le> we_version r \<and> we_version r \<le> currentVersion ?db (we_workspace r)"
  proof
    fix r assume "r \<in> set (db_workspace_edges ?db)"
    then have "r \<in> set (db_workspace_edges db) \<or> r \<in> set edges" by (auto simp: extendedStore_def)
    then show "1 \<le> we_version r \<and> we_version r \<le> currentVersion ?db (we_workspace r)"
      using wf_storeD(4)[OF wf, of r] extension_okD(5)[OF ext, of r] le[of "we_version r" "we_workspace r"] v unfolding cur by auto
  qed
  have derived: "\<forall>t. \<forall>r\<in>set (db_derived ?db t). 1 \<le> dr_version r \<and> dr_version r \<le> currentVersion ?db (dr_workspace r)"
    using wf_storeD(6)[OF wf] le unfolding cur by (simp add: extendedStore_def)
  have dn: "distinct (map nodeKey (db_workspace_nodes ?db))"
    unfolding extendedStore_def Database.simps
    using nodes_fresh[OF wf v] extension_okD(3)[OF ext]
    by (intro distinct_fresh_append wf_storeD(3)[OF wf] extension_okD(4)[OF ext]) simp_all
  have de: "distinct (map edgeRowKey (db_workspace_edges ?db))"
    unfolding extendedStore_def Database.simps
    using edges_fresh[OF wf v] extension_okD(5)[OF ext]
    by (intro distinct_fresh_append wf_storeD(5)[OF wf] extension_okD(6)[OF ext]) simp_all
  have vers: "wf_versions ?db"
    using wf_storeD(7)[OF wf] version_fresh[OF v, of v] v
    by (auto simp: wf_versions_def extendedStore_def recorded_iff workspaceVersions_def)
  show ?thesis unfolding wf_store_def using rows n e derived dn de vers by blast
qed

lemma extended_view_old:
  assumes wf: "wf_store db" and v: "v = currentVersion db ws + 1" and ext: "extension_ok ws v S new nodes edges"
    and old: "w \<noteq> ws \<or> u < v"
  shows "versionView (extendedStore ws v now S new nodes edges db) w u = versionView db w u"
proof -
  let ?db = "extendedStore ws v now S new nodes edges db"
  have "map shown (visibleRows ?db w u t) = map shown (visibleRows db w u t)" for t
    using extended_shown[OF wf_storeD(1)[OF wf] v extension_okD(1)[OF ext], of w u t t] old v by (auto simp: visibleRows_def extendedStore_def)
  moreover have "filter (\<lambda>r. wn_workspace r = w \<and> wn_version r = u) nodes = []"
    using extension_okD(3)[OF ext] old by (auto simp: filter_empty_conv)
  moreover have "filter (\<lambda>r. we_workspace r = w \<and> we_version r = u) edges = []"
    using extension_okD(5)[OF ext] old by (auto simp: filter_empty_conv)
  ultimately show ?thesis by (simp add: versionView_def fun_eq_iff) (simp add: extendedStore_def)
qed

lemma extended_view_new:
  assumes wf: "wf_store db" and v: "v = currentVersion db ws + 1" and ext: "extension_ok ws v S new nodes edges"
  shows "versionView (extendedStore ws v now S new nodes edges db) ws v = \<lparr>
     view_rows = (\<lambda>t. filter (\<lambda>(source, d). source \<notin> S) (view_rows (versionView db ws (currentVersion db ws)) t) @ map shown (new t)),
     view_nodes = map wn_node nodes, view_edges = map (\<lambda>r. (we_edge r, we_owner r)) edges, view_derived = (\<lambda>_. [])\<rparr>"
proof -
  let ?db = "extendedStore ws v now S new nodes edges db" and ?c = "currentVersion db ws"
  have rows: "map shown (visibleRows ?db ws v t)
      = filter (\<lambda>(source, d). source \<notin> S) (map shown (visibleRows db ws ?c t)) @ map shown (new t)" for t
    using extended_shown[OF wf_storeD(1)[OF wf] v extension_okD(1)[OF ext], of ws v t t] by (simp add: visibleRows_def extendedStore_def)
  have "filter (\<lambda>r. wn_workspace r = ws \<and> wn_version r = v) (db_workspace_nodes db) = []"
    using wf_storeD(2)[OF wf] v by (fastforce simp: filter_empty_conv)
  moreover have "filter (\<lambda>r. wn_workspace r = ws \<and> wn_version r = v) nodes = nodes"
    using extension_okD(3)[OF ext] by (simp add: filter_id_conv)
  moreover have "filter (\<lambda>r. we_workspace r = ws \<and> we_version r = v) (db_workspace_edges db) = []"
    using wf_storeD(4)[OF wf] v by (fastforce simp: filter_empty_conv)
  moreover have "filter (\<lambda>r. we_workspace r = ws \<and> we_version r = v) edges = edges"
    using extension_okD(5)[OF ext] by (simp add: filter_id_conv)
  moreover have "filter (\<lambda>r. dr_workspace r = ws \<and> dr_version r = v) (db_derived ?db t) = []" for t
    using wf_storeD(6)[OF wf] v by (fastforce simp: filter_empty_conv extendedStore_def)
  ultimately show ?thesis by (simp add: versionView_def rows) (simp add: extendedStore_def)
qed

text \<open>A publication extends the store.\<close>

lemma written_extended: "writtenStore ws v now facts owners cs db = extendedStore ws v now (enc_sourcePath ` set cs) (newRows ws v cs)
    (insertOrIgnore nodeKey [] (workspaceNodeRows ws v facts))
    (insertOrIgnore edgeRowKey (retainedEdges ws v owners db) (workspaceEdgeRows ws v facts)) db"
  by (simp add: writtenStore_def extendedStore_def)

lemma written_nodes_in: "r \<in> set (insertOrIgnore nodeKey [] (workspaceNodeRows ws v facts)) \<Longrightarrow> wn_workspace r = ws \<and> wn_version r = v"
  using set_insertOrIgnore[of nodeKey "[]"] by (fastforce simp: workspaceNodeRows_def)

lemma written_edges_in:
  "r \<in> set (insertOrIgnore edgeRowKey (retainedEdges ws v owners db) (workspaceEdgeRows ws v facts)) \<Longrightarrow> we_workspace r = ws \<and> we_version r = v"
  using set_insertOrIgnore[of edgeRowKey "retainedEdges ws v owners db"] retainedEdges_sel
  by (fastforce simp: workspaceEdgeRows_def)

lemma written_ok:
  assumes wf: "wf_store db" and d: "distinct (map enc_sourcePath cs)"
  shows "extension_ok ws v (enc_sourcePath ` set cs) (newRows ws v cs) (insertOrIgnore nodeKey [] (workspaceNodeRows ws v facts))
    (insertOrIgnore edgeRowKey (retainedEdges ws v owners db) (workspaceEdgeRows ws v facts))"
  unfolding extension_ok_def using newRows_fresh newRows_distinct[OF d] written_nodes_in written_edges_in retainedEdges_distinct[OF wf]
  by (auto intro!: insertOrIgnore_distinct)

lemma recorded_written [simp]:
  "recorded (writtenStore ws v now facts owners cs db) w u \<longleftrightarrow> recorded db w u \<or> w = ws \<and> u = v"
  by (simp add: written_extended)

lemma current_written:
  "v = currentVersion db ws + 1 \<Longrightarrow> currentVersion (writtenStore ws v now facts owners cs db) = (currentVersion db)(ws := v)"
  unfolding written_extended by (rule current_extended)

lemma written_wf_store:
  "\<lbrakk>wf_store db; v = currentVersion db ws + 1; distinct (map enc_sourcePath cs)\<rbrakk> \<Longrightarrow> wf_store (writtenStore ws v now facts owners cs db)"
  unfolding written_extended by (intro extended_wf_store written_ok)

lemma written_view_old:
  "\<lbrakk>wf_store db; v = currentVersion db ws + 1; distinct (map enc_sourcePath cs); w \<noteq> ws \<or> u < v\<rbrakk>
    \<Longrightarrow> versionView (writtenStore ws v now facts owners cs db) w u = versionView db w u"
  unfolding written_extended by (intro extended_view_old written_ok)

lemma written_view_new:
  assumes wf: "wf_store db" and v: "v = currentVersion db ws + 1" and d: "distinct (map enc_sourcePath cs)"
  shows "versionView (writtenStore ws v now facts owners cs db) ws v
    = writtenView facts owners cs (versionView db ws (currentVersion db ws))"
proof -
  let ?c = "currentVersion db ws"
  have nodes: "map wn_node (insertOrIgnore nodeKey [] (workspaceNodeRows ws v facts)) = insertOrIgnore node_ID [] (facts_Nodes facts)"
    unfolding workspaceNodeRows_def
    using insertOrIgnore_mapped[of nodeKey "\<lambda>n. \<lparr>wn_workspace = ws, wn_version = v, wn_node = n\<rparr>" node_ID "[]" "facts_Nodes facts"]
    by (simp add: nodeKey_def o_def)
  let ?mk = "\<lambda>(e, owner). \<lparr>we_workspace = ws, we_version = v, we_edge = e, we_owner = owner\<rparr>"
  let ?old = "if owners = [] then [] else filter (\<lambda>(e, owner). owner \<notin> set owners)
      (map (\<lambda>r. (we_edge r, we_owner r)) (filter (\<lambda>r. we_workspace r = ws \<and> we_version r = ?c) (db_workspace_edges db)))"
  have ret: "retainedEdges ws v owners db = map ?mk ?old"
    using v by (auto simp: retainedEdges_def filter_map o_def conj_ac intro!: map_cong filter_cong)
  have edges: "insertOrIgnore edgeRowKey (retainedEdges ws v owners db) (workspaceEdgeRows ws v facts)
      = map ?mk (insertOrIgnore (\<lambda>(e, owner). edgeColumns e) ?old
          (map (\<lambda>e. (e, span_Path (ev_Span (edge_Evidence e)))) (facts_Edges facts)))"
    unfolding ret
    by (subst insertOrIgnore_mapped[where key = edgeRowKey and mk = ?mk, symmetric])
      (auto simp: edgeRowKey_def workspaceEdgeRows_def o_def)
  have "view_edges (versionView db ws ?c)
      = map (\<lambda>r. (we_edge r, we_owner r)) (filter (\<lambda>r. we_workspace r = ws \<and> we_version r = ?c) (db_workspace_edges db))"
    by (simp add: versionView_def)
  then show ?thesis unfolding written_extended
    by (subst extended_view_new[OF wf v written_ok[OF wf d]])
      (simp add: edges writtenView_def nodes newRows_shown case_prod_beta o_def)
qed

lemma rebuild_sel [simp]:
  "db_rows (rebuildLexicalSnapshot u ws v db) = db_rows db"
  "db_workspace_nodes (rebuildLexicalSnapshot u ws v db) = db_workspace_nodes db"
  "db_workspace_edges (rebuildLexicalSnapshot u ws v db) = db_workspace_edges db"
  "db_graph_versions (rebuildLexicalSnapshot u ws v db) = db_graph_versions db"
  by (simp_all add: rebuildLexicalSnapshot_def Let_def deleteDerived_def)

lemma rebuild_derived: "db_derived (rebuildLexicalSnapshot u ws v db) = (db_derived db)(node_search :=
    filter (\<lambda>r. \<not> (dr_workspace r = ws \<and> dr_version r = v)) (db_derived db node_search)
    @ map (\<lambda>columns. \<lparr>dr_workspace = ws, dr_version = v, dr_columns = columns\<rparr>) (lexicalRows u (visibleNodes db ws v)))"
  by (simp add: rebuildLexicalSnapshot_def Let_def deleteDerived_def lexicalRows_def o_def visibleNodes_def visibleRows_def)

lemma rebuild_recorded [simp]: "recorded (rebuildLexicalSnapshot u ws v db) = recorded db"
  by (simp add: recorded_def findVersion_def fun_eq_iff)

lemma rebuild_current [simp]: "currentVersion (rebuildLexicalSnapshot u ws v db) = currentVersion db"
  by (simp add: currentVersion_def workspaceVersions_def fun_eq_iff)

lemma rebuild_view: "versionView (rebuildLexicalSnapshot u ws v db) w x =
   (if w = ws \<and> x = v then (versionView db ws v)\<lparr>view_derived :=
        (view_derived (versionView db ws v))(node_search := lexicalRows u (viewNodes (versionView db ws v)))\<rparr>
    else versionView db w x)"
proof -
  have 1: "filter (\<lambda>r. dr_workspace r = ws \<and> dr_version r = v) (filter (\<lambda>r. \<not> (dr_workspace r = ws \<and> dr_version r = v)) xs) = []" for xs :: "DerivedRow list"
    by (simp add: filter_empty_conv)
  have 2: "filter (\<lambda>r. dr_workspace r = w \<and> dr_version r = x) (filter (\<lambda>r. \<not> (dr_workspace r = ws \<and> dr_version r = v)) xs)
      = filter (\<lambda>r. dr_workspace r = w \<and> dr_version r = x) xs" if "\<not> (w = ws \<and> x = v)" for xs :: "DerivedRow list"
    using that by (intro filter_absorb) auto
  show ?thesis
  proof (cases "w = ws \<and> x = v")
    case True
    then show ?thesis using 1 by (simp add: versionView_def visibleRows_def rebuild_derived visibleNodes_view fun_eq_iff filter_map o_def)
  next
    case False
    then have "filter (\<lambda>r. dr_workspace r = w \<and> dr_version r = x) (map (\<lambda>columns. \<lparr>dr_workspace = ws, dr_version = v, dr_columns = columns\<rparr>) cs) = []"
      for cs by (auto simp: filter_empty_conv)
    then show ?thesis using False 2[OF False]
      by (auto simp: versionView_def visibleRows_def rebuild_derived fun_eq_iff simp del: filter_filter)
  qed
qed

lemma rebuild_wf:
  assumes "wf_store db" "1 \<le> v" "v \<le> currentVersion db ws"
  shows "wf_store (rebuildLexicalSnapshot u ws v db)"
  using assms(1) assms(2,3) unfolding wf_store_def wf_versions_def
  by (auto simp: rebuild_derived wf_storeD)

text \<open>The outcome of the tail of a publication.\<close>

definition retentionBoundary :: "GraphVersion \<Rightarrow> GraphVersion" where
  "retentionBoundary v = (if v > retainedGraphVersions then v - retainedGraphVersions + 1 else 0)"

definition retainedStore :: "string \<Rightarrow> GraphVersion \<Rightarrow> Database \<Rightarrow> Database" where
  "retainedStore ws v db = (if v > retainedGraphVersions
     then dropVersions ws (\<lambda>x. x < retentionBoundary v) (pruneRows ws (retentionBoundary v)) db else db)"

lemma finishPublication_cases:
  assumes "wf_store db"
  shows "finishPublication store ws v db =
    (if v > retainedGraphVersions \<and> \<not> recorded db ws (retentionBoundary v) then Inl ErrGraphVersionNotFound
     else let db' = rebuildLexicalSnapshot (cfg_unicode store) ws v (retainedStore ws v db)
       in res_of_err (ensureDatabaseBudget store db') db')"
proof (cases "v > retainedGraphVersions")
  case True
  let ?p = "retentionBoundary v"
  have p: "?p = v - retainedGraphVersions + 1" using True by (simp add: retentionBoundary_def)
  show ?thesis
  proof (cases "recorded db ws ?p")
    case rec: True
    then have "pruneVersions ws ?p db = Inr (length (filter (\<lambda>r. gv_version r < ?p) (workspaceVersions db ws)), retainedStore ws v db)"
      using True by (simp add: pruneVersions_shape[OF wf_store_rebase[OF assms]] retainedStore_def)
    then show ?thesis unfolding finishPublication_def p[symmetric] using rec True by simp
  next
    case False
    then have "pruneVersions ws ?p db = Inl ErrGraphVersionNotFound" by (simp add: pruneVersions_def recorded_def)
    then show ?thesis unfolding finishPublication_def p[symmetric] using False True by simp
  qed
next
  case False
  then show ?thesis by (simp add: finishPublication_def retainedStore_def)
qed

lemma retained_props:
  assumes wf: "wf_store db" and ok: "v > retainedGraphVersions \<Longrightarrow> recorded db ws (retentionBoundary v)"
  shows "wf_store (retainedStore ws v db)" "currentVersion (retainedStore ws v db) = currentVersion db"
    "storeView (retainedStore ws v db) = (\<lambda>(w, u). if w = ws \<and> u < retentionBoundary v then None else storeView db (w, u))"
proof -
  have "wf_store (retainedStore ws v db) \<and> currentVersion (retainedStore ws v db) = currentVersion db
    \<and> storeView (retainedStore ws v db) = (\<lambda>(w, u). if w = ws \<and> u < retentionBoundary v then None else storeView db (w, u))"
  proof (cases "v > retainedGraphVersions")
    case True
    then show ?thesis using prune_keeps[OF wf ok[OF True]] by (auto simp: retainedStore_def keeps_def fun_eq_iff)
  next
    case False
    then show ?thesis using wf by (auto simp: retainedStore_def retentionBoundary_def fun_eq_iff)
  qed
  then show "wf_store (retainedStore ws v db)" "currentVersion (retainedStore ws v db) = currentVersion db"
    "storeView (retainedStore ws v db) = (\<lambda>(w, u). if w = ws \<and> u < retentionBoundary v then None else storeView db (w, u))"
    by blast+
qed

definition publishedStore :: "StoreConfig \<Rightarrow> GraphVersion \<Rightarrow> int \<Rightarrow> PublishRequest \<Rightarrow> Database \<Rightarrow> Database" where
  "publishedStore store v now request db =
     rebuildLexicalSnapshot (cfg_unicode store) (pub_Workspace request) v (retainedStore (pub_Workspace request) v
       (writtenStore (pub_Workspace request) v now (pub_WorkspaceFacts request) (pub_ReplacedWorkspaceFactOwners request)
         (map encodeContribution (gu_contributions (pub_Update request))) db))"

definition validRequest :: "PublishRequest \<Rightarrow> bool" where
  "validRequest request \<longleftrightarrow> pub_Workspace request \<noteq> '''' \<and> distinct (map c_sourcePath (gu_contributions (pub_Update request)))"

lemma publish_outcome:
  assumes wf: "wf_store db" and vl: "16 \<le> cfg_variableLimit store"
    and sched: "distinct schedule" "set schedule = {..<length (gu_contributions (pub_Update request))}"
    and v: "v = currentVersion db (pub_Workspace request) + 1"
  shows "publish store schedule now request db =
    (if \<not> validRequest request then Inl ErrInvalidRequest
     else if tooManyOwners (cfg_variableLimit store) v (pub_ReplacedWorkspaceFactOwners request)
     then Inl (ErrDatabase ''too many SQL variables'')
     else if v > retainedGraphVersions \<and> \<not> recorded db (pub_Workspace request) (retentionBoundary v) then Inl ErrGraphVersionNotFound
     else res_of_err (ensureDatabaseBudget store (publishedStore store v now request db))
       (\<lparr>snap_Workspace = pub_Workspace request, snap_Version = v, snap_PublishedAt = now\<rparr>, publishedStore store v now request db))"
proof (cases "validRequest request")
  case False
  then show ?thesis by (auto simp: publish_def validRequest_def encodeContributions_ok Let_def)
next
  case True
  let ?ws = "pub_Workspace request" and ?cs = "map encodeContribution (gu_contributions (pub_Update request))"
  have d: "distinct (map enc_sourcePath ?cs)" using True by (simp add: validRequest_def o_def)
  have "set schedule = {..<length ?cs}" using sched(2) by simp
  note order = this
  note written = storePrepared_ok[OF wf v d vl sched(1) order] and wf' = written_wf_store[OF wf v d]
  have enc: "encodeContributions (pub_Update request) = Inr ?cs" using True by (simp add: encodeContributions_ok validRequest_def)
  show ?thesis
  proof (cases "tooManyOwners (cfg_variableLimit store) v (pub_ReplacedWorkspaceFactOwners request)")
    case many: True
    then have "publish store schedule now request db = Inl (ErrDatabase ''too many SQL variables'')"
      using True unfolding publish_def Let_def enc v[symmetric]
      by (simp add: validRequest_def insertVersion_ok[OF v vl] storePrepared_sequential[OF sched(1) order] retain_tooMany)
    then show ?thesis using True many by simp
  next
    case few: False
    have other: "v > retainedGraphVersions \<Longrightarrow> retentionBoundary v \<noteq> v" by (simp add: retentionBoundary_def retainedGraphVersions_def)
    have "publish store schedule now request db = res_map (\<lambda>db3. (\<lparr>snap_Workspace = ?ws, snap_Version = v, snap_PublishedAt = now\<rparr>, db3))
        (finishPublication store ?ws v (writtenStore ?ws v now (pub_WorkspaceFacts request) (pub_ReplacedWorkspaceFactOwners request) ?cs db))"
      using True few unfolding publish_def Let_def enc v[symmetric]
      by (simp add: validRequest_def insertVersion_ok[OF v vl] written)
    then show ?thesis using True few other unfolding finishPublication_cases[OF wf'] publishedStore_def
      by (auto simp: Let_def res_of_err_def split: option.splits)
  qed
qed

lemma publishedStore_props:
  assumes wf: "wf_store db" and valid: "validRequest request" and v: "v = currentVersion db ws + 1" and ws: "ws = pub_Workspace request"
    and ok: "v > retainedGraphVersions \<Longrightarrow> recorded db ws (retentionBoundary v)"
  shows "wf_store (publishedStore store v now request db)"
    "currentVersion (publishedStore store v now request db) = (currentVersion db)(ws := v)"
    "storeView (publishedStore store v now request db) = (\<lambda>(w, u).
      if w = ws \<and> u = v then Some (nextView (cfg_unicode store) (pub_WorkspaceFacts request) (pub_ReplacedWorkspaceFactOwners request)
          (map encodeContribution (gu_contributions (pub_Update request))) (versionView db ws (currentVersion db ws)))
      else if w = ws \<and> u < retentionBoundary v then None else storeView db (w, u))"
proof -
  let ?cs = "map encodeContribution (gu_contributions (pub_Update request))"
  let ?W = "writtenStore ws v now (pub_WorkspaceFacts request) (pub_ReplacedWorkspaceFactOwners request) ?cs db"
  let ?R = "retainedStore ws v ?W" and ?P = "publishedStore store v now request db"
  have P: "?P = rebuildLexicalSnapshot (cfg_unicode store) ws v ?R" by (simp add: publishedStore_def ws)
  have d: "distinct (map enc_sourcePath ?cs)" using valid by (simp add: validRequest_def o_def)
  note wfW = written_wf_store[OF wf v d]
  have "v > retainedGraphVersions \<Longrightarrow> recorded ?W ws (retentionBoundary v)" using ok by simp
  note R = retained_props[OF wfW this]
  have cur: "currentVersion ?R = (currentVersion db)(ws := v)" using R(2) current_written[OF v] by simp
  show "wf_store ?P" unfolding P using R(1) v cur by (intro rebuild_wf) auto
  show "currentVersion ?P = (currentVersion db)(ws := v)" unfolding P using cur by simp
  have bound: "retentionBoundary v \<le> v" by (auto simp: retentionBoundary_def retainedGraphVersions_def)
  have recR: "recorded ?R w u \<longleftrightarrow> (recorded db w u \<or> w = ws \<and> u = v) \<and> \<not> (w = ws \<and> u < retentionBoundary v)" for w u
    using fun_cong[OF R(3), of "(w, u)"] by (simp add: storeView_def split: if_splits)
  have viewR: "versionView ?R w u = versionView ?W w u" if "recorded ?R w u" for w u
    using fun_cong[OF R(3), of "(w, u)"] that by (simp add: storeView_def split: if_splits)
  have "storeView ?P (w, u) = (if w = ws \<and> u = v then Some (nextView (cfg_unicode store) (pub_WorkspaceFacts request)
        (pub_ReplacedWorkspaceFactOwners request) ?cs (versionView db ws (currentVersion db ws)))
      else if w = ws \<and> u < retentionBoundary v then None else storeView db (w, u))" for w u
  proof (cases "w = ws \<and> u = v")
    case True
    have "recorded ?R ws v" using recR bound by simp
    then show ?thesis using True viewR[of ws v] written_view_new[OF wf v d]
      by (simp add: P storeView_def rebuild_view nextView_def Let_def writtenView_def)
  next
    case False
    then have "recorded ?R w u \<Longrightarrow> versionView ?R w u = versionView db w u"
      using viewR written_view_old[OF wf v d] recR version_fresh[OF v, of u] by (metis not_le)
    then show ?thesis using False recR[of w u] by (auto simp: P storeView_def rebuild_view)
  qed
  then show "storeView ?P = (\<lambda>(w, u).
      if w = ws \<and> u = v then Some (nextView (cfg_unicode store) (pub_WorkspaceFacts request) (pub_ReplacedWorkspaceFactOwners request)
          ?cs (versionView db ws (currentVersion db ws)))
      else if w = ws \<and> u < retentionBoundary v then None else storeView db (w, u))"
    by (simp add: fun_eq_iff)
qed

subsection \<open>Properties\<close>

text \<open>C1: A successful publication takes the next version of its workspace and, whatever the order in
  which the workers deliver, changes the abstract store in exactly two ways: the new version shows
  the previous one with the published sources replaced, and the versions below the retention
  boundary are gone.  Every other version of every workspace shows what it showed before.\<close>

theorem publish_adds_one_version:
  assumes "wf_store db" "16 \<le> cfg_variableLimit store"
    "distinct schedule" "set schedule = {..<length (gu_contributions (pub_Update request))}"
    "publish store schedule now request db = Inr (sn, db')"
  shows "let ws = pub_Workspace request; v = currentVersion db ws + 1 in
    sn = \<lparr>snap_Workspace = ws, snap_Version = v, snap_PublishedAt = now\<rparr> \<and> wf_store db' \<and> currentVersion db' ws = v
    \<and> storeView db' = (\<lambda>(w, u).
      if w = ws \<and> u = v then Some (nextView (cfg_unicode store) (pub_WorkspaceFacts request) (pub_ReplacedWorkspaceFactOwners request)
          (map encodeContribution (gu_contributions (pub_Update request))) (versionView db ws (currentVersion db ws)))
      else if w = ws \<and> u < retentionBoundary v then None else storeView db (w, u))"
proof -
  let ?v = "currentVersion db (pub_Workspace request) + 1"
  have "validRequest request" "?v > retainedGraphVersions \<Longrightarrow> recorded db (pub_Workspace request) (retentionBoundary ?v)"
    "db' = publishedStore store ?v now request db" "sn = \<lparr>snap_Workspace = pub_Workspace request, snap_Version = ?v, snap_PublishedAt = now\<rparr>"
    using assms(5) unfolding publish_outcome[OF assms(1-4) refl] by (auto split: if_splits)
  note res = this
  note props = publishedStore_props[OF assms(1) res(1) refl refl res(2), of store now]
  show ?thesis unfolding Let_def res(3,4) using props by (intro conjI refl) (simp_all only: fun_upd_same)
qed

text \<open>C40: A publication fails in exactly four ways: an empty workspace or a source with two
  contributions is an invalid request; more replaced owners than one statement can bind, with three
  other values, are refused by the database unless the version is the first; a retention boundary that
  is not a recorded version is reported as a version that was not found; and a database over its budget
  is refused.\<close>

theorem publish_fails_exactly:
  assumes "wf_store db" "16 \<le> cfg_variableLimit store"
    "distinct schedule" "set schedule = {..<length (gu_contributions (pub_Update request))}"
  shows "let ws = pub_Workspace request; v = currentVersion db ws + 1; owners = pub_ReplacedWorkspaceFactOwners request;
      many = (owners \<noteq> [] \<and> v > 1 \<and> length owners + 3 > cfg_variableLimit store);
      unrecorded = (v > 25 \<and> \<not> recorded db ws (v - 24)) in
    (publish store schedule now request db = Inl ErrInvalidRequest \<longleftrightarrow> \<not> validRequest request)
    \<and> (publish store schedule now request db = Inl ErrGraphVersionNotFound \<longleftrightarrow> validRequest request \<and> \<not> many \<and> unrecorded)
    \<and> ((\<exists>text. publish store schedule now request db = Inl (ErrDatabase text)) \<longleftrightarrow>
        validRequest request \<and> (many \<or> \<not> unrecorded
          \<and> ensureDatabaseBudget store (publishedStore store v now request db) \<noteq> None))"
proof -
  have budget: "ensureDatabaseBudget store d = None \<or> (\<exists>t. ensureDatabaseBudget store d = Some (ErrDatabase t))" for d
    by (auto simp: ensureDatabaseBudget_def err_if_def split: prod.splits)
  have bd: "v > 25 \<Longrightarrow> retentionBoundary v = v - 24" for v by (simp add: retentionBoundary_def retainedGraphVersions_def)
  have err: "\<exists>t. e = ErrDatabase t" if "ensureDatabaseBudget store d = Some e" for d e using budget[of d] that by auto
  show ?thesis unfolding Let_def publish_outcome[OF assms refl] tooManyOwners_def[symmetric]
    using bd err by (auto simp: retainedGraphVersions_def res_of_err_def split: option.splits)
qed

definition sample_config :: StoreConfig where
  "sample_config = \<lparr>cfg_variableLimit = 32, cfg_maxDatabaseBytes = 64,
     cfg_contributionBatchLimits = \<lparr>lim_maximumRows = 3, lim_maximumBytes = 200, lim_maximumSources = 2\<rparr>,
     cfg_workspaceFactBatchLimits = \<lparr>fact_maximumRows = 2, fact_maximumBytes = 150\<rparr>,
     cfg_unicode = asciiTables, cfg_pages = (\<lambda>_. (8, 4))\<rparr>"

definition emptyRequest :: PublishRequest where
  "emptyRequest = \<lparr>pub_Workspace = ''w'', pub_Update = \<lparr>gu_contributions = []\<rparr>, pub_WorkspaceFacts = \<lparr>facts_Nodes = [], facts_Edges = []\<rparr>,
     pub_ReplacedWorkspaceFactOwners = []\<rparr>"

fun publishTimes :: "nat \<Rightarrow> Database \<Rightarrow> StoreError + Database" where
  "publishTimes 0 db = Inr db"
| "publishTimes (Suc n) db = (case publish sample_config [] 0 emptyRequest db of Inl e \<Rightarrow> Inl e | Inr (_, db') \<Rightarrow> publishTimes n db')"

text \<open>The store that empty publications build: a range of versions and no rows.\<close>

definition versionsStore :: "nat \<Rightarrow> nat \<Rightarrow> Database" where
  "versionsStore a b = emptyDatabase\<lparr>db_graph_versions :=
     map (\<lambda>v. \<lparr>gv_workspace = ''w'', gv_version = v, gv_publishedAt = 0\<rparr>) [a..<Suc b]\<rparr>"

lemma versionsStore_recorded [simp]: "recorded (versionsStore a b) ws v \<longleftrightarrow> ws = ''w'' \<and> a \<le> v \<and> v \<le> b"
  by (force simp: recorded_iff workspaceVersions_def versionsStore_def simp del: upt_Suc)

lemma versionsStore_wf: "1 \<le> a \<Longrightarrow> wf_store (versionsStore a b)"
  by (auto simp: wf_store_def wf_versions_def wf_rows_def versionsStore_def emptyDatabase_def distinct_map inj_on_def)

lemma versionsStore_current: "a \<le> Suc b \<Longrightarrow> 1 \<le> a \<Longrightarrow> (a = Suc b \<Longrightarrow> b = 0) \<Longrightarrow> currentVersion (versionsStore a b) ''w'' = b"
proof (cases "a = Suc b")
  case False
  assume "a \<le> Suc b" "1 \<le> a"
  then show ?thesis using False by (intro currentVersion_eqI) auto
qed (simp add: currentVersion_def workspaceVersions_def versionsStore_def)

lemma versionsStore_drop: "dropVersions ''w'' (\<lambda>v. v < p) (pruneRows ''w'' p) (versionsStore a b) = versionsStore (max a p) b"
proof -
  have "filter (\<lambda>v. \<not> v < p) [a..<Suc b] = [max a p..<Suc b]"
    by (induction b) (auto simp: max_def)
  then show ?thesis
    by (simp add: dropVersions_def versionsStore_def emptyDatabase_def pruneRows_def filter_map o_def keeps_def del: upt_Suc)
qed

lemma emptyRequest_sel [simp]:
  "pub_Workspace emptyRequest = ''w''" "gu_contributions (pub_Update emptyRequest) = []"
  "pub_WorkspaceFacts emptyRequest = \<lparr>facts_Nodes = [], facts_Edges = []\<rparr>" "pub_ReplacedWorkspaceFactOwners emptyRequest = []"
  "validRequest emptyRequest"
  by (simp_all add: emptyRequest_def validRequest_def)

lemma emptyRequest_published:
  assumes "a \<le> Suc b"
  shows "publishedStore sample_config (Suc b) 0 emptyRequest (versionsStore a b) = versionsStore (max a (retentionBoundary (Suc b))) (Suc b)"
proof -
  have "writtenStore ''w'' (Suc b) 0 \<lparr>facts_Nodes = [], facts_Edges = []\<rparr> [] [] (versionsStore a b) = versionsStore a (Suc b)"
    using assms by (simp add: writtenStore_def versionsStore_def emptyDatabase_def newRows_def workspaceNodeRows_def
        workspaceEdgeRows_def retainedEdges_def)
  moreover have "retainedStore ''w'' (Suc b) (versionsStore a (Suc b)) = versionsStore (max a (retentionBoundary (Suc b))) (Suc b)"
    by (simp add: retainedStore_def versionsStore_drop retentionBoundary_def)
  moreover have "rebuildLexicalSnapshot u ''w'' v (versionsStore c d) = versionsStore c d" for u v c d
    by (intro Database.equality)
      (simp_all add: rebuild_derived versionsStore_def emptyDatabase_def visibleNodes_def visibleRows_def lexicalRows_def fun_eq_iff)
  ultimately show ?thesis by (simp add: publishedStore_def)
qed

lemma boundary_after: "retainedGraphVersions < Suc u \<longleftrightarrow> 25 \<le> u" "25 \<le> u \<Longrightarrow> retentionBoundary (Suc u) = u - 23"
  by (auto simp: retentionBoundary_def retainedGraphVersions_def)

lemma sample_limit: "16 \<le> cfg_variableLimit sample_config"
  by (simp add: sample_config_def)

lemma publish_empty:
  assumes "1 \<le> a" "a \<le> Suc b" "a = Suc b \<Longrightarrow> b = 0" "25 \<le> b \<Longrightarrow> a \<le> b - 23"
  shows "publish sample_config [] 0 emptyRequest (versionsStore a b)
    = Inr (\<lparr>snap_Workspace = ''w'', snap_Version = Suc b, snap_PublishedAt = 0\<rparr>, versionsStore (max a (retentionBoundary (Suc b))) (Suc b))"
proof -
  have cur: "currentVersion (versionsStore a b) (pub_Workspace emptyRequest) = b" using versionsStore_current[of a b] assms by simp
  have budget: "ensureDatabaseBudget sample_config db = None" for db by (simp add: ensureDatabaseBudget_def sample_config_def)
  have "publish sample_config [] 0 emptyRequest (versionsStore a b) =
    (if Suc b > retainedGraphVersions \<and> \<not> recorded (versionsStore a b) ''w'' (retentionBoundary (Suc b)) then Inl ErrGraphVersionNotFound
     else Inr (\<lparr>snap_Workspace = ''w'', snap_Version = Suc b, snap_PublishedAt = 0\<rparr>,
       publishedStore sample_config (Suc b) 0 emptyRequest (versionsStore a b)))"
    using publish_outcome[OF versionsStore_wf[OF assms(1)] sample_limit, of "[]" emptyRequest "Suc b" b 0] cur budget
    by (simp add: res_of_err_def)
  moreover have "Suc b > retainedGraphVersions \<Longrightarrow> recorded (versionsStore a b) ''w'' (retentionBoundary (Suc b))"
    using assms(4) by (simp add: boundary_after)
  ultimately show ?thesis unfolding emptyRequest_published[OF assms(2)] by simp
qed

lemma publishTimes_versions:
  "publishTimes n (versionsStore (max 1 (b - 24)) b) = Inr (versionsStore (max 1 (b + n - 24)) (b + n))"
proof (induction n arbitrary: b)
  case (Suc n)
  have "max (max 1 (b - 24)) (retentionBoundary (Suc b)) = max 1 (Suc b - 24)"
    by (auto simp: retentionBoundary_def retainedGraphVersions_def max_def)
  then have "publish sample_config [] 0 emptyRequest (versionsStore (max 1 (b - 24)) b)
      = Inr (\<lparr>snap_Workspace = ''w'', snap_Version = Suc b, snap_PublishedAt = 0\<rparr>, versionsStore (max 1 (Suc b - 24)) (Suc b))"
    using publish_empty[of "max 1 (b - 24)" b] by (simp add: max_def split: if_splits)
  then show ?case using Suc[of "Suc b"] by simp
qed simp

lemma publishTimes_empty: "publishTimes n emptyDatabase = Inr (versionsStore (max 1 (n - 24)) n)"
proof -
  have "versionsStore 1 0 = emptyDatabase" by (simp add: versionsStore_def emptyDatabase_def)
  then show ?thesis using publishTimes_versions[of n 0] by simp
qed

text \<open>Retention blocks publication after a rollback: when a workspace is rolled back to a version
  25 or later whose predecessor 23 versions earlier is no longer recorded, every later publication
  fails with the error of a version that was not found, because publish prunes at a boundary that
  does not exist any more.\<close>

theorem rollback_blocks_publication:
  assumes "wf_store db" "Rollback \<lparr>rb_Workspace = ws, rb_Version = u\<rparr> db = Inr (sn, db')"
    "25 \<le> u" "\<not> recorded db ws (u - 23)"
    "16 \<le> cfg_variableLimit store" "validRequest request" "pub_Workspace request = ws"
    "distinct schedule" "set schedule = {..<length (gu_contributions (pub_Update request))}"
    "length (pub_ReplacedWorkspaceFactOwners request) + 3 \<le> cfg_variableLimit store"
  shows "publish store schedule now request db' = Inl ErrGraphVersionNotFound"
proof -
  have db': "db' = dropVersions ws (\<lambda>v. v > u) (rollbackRows ws u) db" and u: "recorded db ws u"
    using assms(2) by (auto simp: Rollback_shape recorded_def)
  note k = rollback_keeps[OF assms(1) u]
  have "currentVersion db' (pub_Workspace request) = u" "wf_store db'" using k assms(7) db' by simp_all
  moreover have "\<not> recorded db' ws (retentionBoundary (Suc u))"
    using assms(3,4) by (simp add: db' boundary_after)
  ultimately show ?thesis
    using publish_outcome[of db' store schedule request "Suc u" now] assms(3,5-10)
    by (simp add: boundary_after tooManyOwners_def)
qed

text \<open>Twenty-seven publications into an empty store followed by a rollback to version 25 reach such a state.\<close>

theorem rollback_blocks_publication_witness:
  "\<exists>db sn db'. publishTimes 27 emptyDatabase = Inr db \<and> Rollback \<lparr>rb_Workspace = ''w'', rb_Version = 25\<rparr> db = Inr (sn, db')
     \<and> publish sample_config [] 0 emptyRequest db' = Inl ErrGraphVersionNotFound"
proof -
  let ?db = "versionsStore 3 27"
  have run: "publishTimes 27 emptyDatabase = Inr ?db" using publishTimes_empty[of 27] by simp
  have wf: "wf_store ?db" by (simp add: versionsStore_wf)
  have "findVersion ?db ''w'' 25 \<noteq> None" using versionsStore_recorded[of 3 27 "''w''" 25] by (simp add: recorded_def)
  then obtain sn db' where roll: "Rollback \<lparr>rb_Workspace = ''w'', rb_Version = 25\<rparr> ?db = Inr (sn, db')"
    by (auto simp: Rollback_shape)
  have "publish sample_config [] 0 emptyRequest db' = Inl ErrGraphVersionNotFound"
    by (rule rollback_blocks_publication[OF wf roll _ _ sample_limit]) (simp_all add: sample_config_def)
  with run roll show ?thesis by blast
qed

definition sample_contribution :: "string \<Rightarrow> Node list \<Rightarrow> Contribution" where
  "sample_contribution source nodes = \<lparr>c_projectID = ''p'', c_sourcePath = source,
     c_metadata = \<lparr>md_Name = ''go'', md_Version = ''1'', md_Extensions = [''.go'']\<rparr>,
     c_facts = \<lparr>facts_Nodes = nodes, facts_Edges = []\<rparr>, c_catalogUnits = [], c_unresolvedReferences = [],
     c_symbolReferences = [], c_exportedSurfaces = [], c_dependencies = [], c_diagnostics = []\<rparr>"

definition sample_request :: PublishRequest where
  "sample_request = \<lparr>pub_Workspace = ''w'', pub_Update = \<lparr>gu_contributions =
       [sample_contribution ''a.go'' [sample_node ''a3'' ''file''], sample_contribution ''c.go'' [sample_node ''c'' ''file'']]\<rparr>,
     pub_WorkspaceFacts = \<lparr>facts_Nodes = [sample_node ''p'' ''project''], facts_Edges = [sample_edge ''p'' ''c'' ''contains'']\<rparr>,
     pub_ReplacedWorkspaceFactOwners = []\<rparr>"

lemma sample_request_sel [simp]: "pub_Workspace sample_request = ''w''" "length (gu_contributions (pub_Update sample_request)) = 2"
  "validRequest sample_request" "pub_ReplacedWorkspaceFactOwners sample_request = []"
  by (simp_all add: sample_request_def sample_contribution_def validRequest_def)

lemma sample_schedule: "distinct [1, 0 :: nat]" "set [1, 0 :: nat] = {..<length (gu_contributions (pub_Update sample_request))}"
  by (auto simp: numeral_2_eq_2 less_Suc_eq)

lemma sample_store_current: "currentVersion sample_store ''w'' = 2"
  by (simp add: currentVersion_def workspaceVersions_def sample_store_def)

lemma sample_publish: "\<exists>sn db'. publish sample_config [1, 0] 30 sample_request sample_store = Inr (sn, db')"
  using publish_outcome[OF sample_store_wf sample_limit sample_schedule, of 3 30] sample_store_current
  by (simp add: retainedGraphVersions_def res_of_err_def ensureDatabaseBudget_def) (simp add: sample_config_def)

lemma viewNodes_nextView: "viewNodes (nextView u facts owners cs prev) = viewNodes (writtenView facts owners cs prev)"
  by (simp add: nextView_def viewNodes_def Let_def)

theorem publish_adds_one_version_witness:
  "\<exists>sn db'. publish sample_config [1, 0] 30 sample_request sample_store = Inr (sn, db') \<and> snap_Version sn = 3
     \<and> storeView db' (''w'', 2) = storeView sample_store (''w'', 2)
     \<and> map node_ID (visibleNodes db' ''w'' 3) = [''b'', ''a3'', ''c'', ''p'']"
proof -
  obtain sn db' where p: "publish sample_config [1, 0] 30 sample_request sample_store = Inr (sn, db')" using sample_publish by blast
  note t = publish_adds_one_version[OF sample_store_wf sample_limit sample_schedule p]
  have v: "storeView db' (''w'', 3) = Some (nextView asciiTables (pub_WorkspaceFacts sample_request) []
      (map encodeContribution (gu_contributions (pub_Update sample_request))) (versionView sample_store ''w'' 2))"
    and "snap_Version sn = 3" "storeView db' (''w'', 2) = storeView sample_store (''w'', 2)"
    using t sample_store_current
    by (simp_all add: Let_def retentionBoundary_def retainedGraphVersions_def) (simp_all add: sample_config_def sample_request_def)
  have "map node_ID (viewNodes (nextView asciiTables (pub_WorkspaceFacts sample_request) []
      (map encodeContribution (gu_contributions (pub_Update sample_request))) (versionView sample_store ''w'' 2))) = [''b'', ''a3'', ''c'', ''p'']"
    unfolding viewNodes_nextView by code_simp
  moreover have "visibleNodes db' ''w'' 3 = viewNodes (nextView asciiTables (pub_WorkspaceFacts sample_request) []
      (map encodeContribution (gu_contributions (pub_Update sample_request))) (versionView sample_store ''w'' 2))"
    using v by (simp add: visibleNodes_view storeView_def split: if_splits)
  ultimately show ?thesis using p \<open>snap_Version sn = 3\<close> \<open>storeView db' (''w'', 2) = storeView sample_store (''w'', 2)\<close> by simp
qed

theorem publish_fails_exactly_witness:
  "publish sample_config [1, 0] 30 sample_request sample_store \<noteq> Inl ErrInvalidRequest
   \<and> (\<exists>text. publish sample_config [1, 0] 30 (sample_request\<lparr>pub_ReplacedWorkspaceFactOwners := replicate 30 ''o''\<rparr>) sample_store
        = Inl (ErrDatabase text))"
proof -
  let ?many = "sample_request\<lparr>pub_ReplacedWorkspaceFactOwners := replicate 30 ''o''\<rparr>"
  have many: "validRequest ?many" "set [1, 0 :: nat] = {..<length (gu_contributions (pub_Update ?many))}"
    using sample_schedule(2) sample_request_sel(3) by (simp_all add: validRequest_def)
  have "publish sample_config [1, 0] 30 sample_request sample_store \<noteq> Inl ErrInvalidRequest"
    using publish_fails_exactly[OF sample_store_wf sample_limit sample_schedule, of 30] by (simp add: Let_def)
  moreover have "\<exists>text. publish sample_config [1, 0] 30 ?many sample_store = Inl (ErrDatabase text)"
    using publish_fails_exactly[OF sample_store_wf sample_limit sample_schedule(1) many(2), of 30] many(1) sample_store_current
    by (simp add: Let_def sample_config_def)
  ultimately show ?thesis by blast
qed

theorem delivery_order_is_invisible_witness:
  "storePreparedPublication [1, 0] 32 \<lparr>fact_maximumRows = 500, fact_maximumBytes = 0\<rparr> ''w'' 3 \<lparr>facts_Nodes = [], facts_Edges = []\<rparr> []
     [encodeContribution (sample_contribution ''a.go'' []), encodeContribution (sample_contribution ''b.go'' [])] sample_store
   = res_bind (retainWorkspaceFacts 32 ''w'' 3 [] sample_store) (\<lambda>db1.
     res_bind (storeWorkspaceFacts 32 \<lparr>fact_maximumRows = 500, fact_maximumBytes = 0\<rparr> ''w'' 3 \<lparr>facts_Nodes = [], facts_Edges = []\<rparr> db1) (\<lambda>db2.
     writeBatched 32 noLimits ''w'' 3 [encodeContribution (sample_contribution ''a.go'' []), encodeContribution (sample_contribution ''b.go'' [])] db2))"
  by (rule delivery_order_is_invisible) (auto simp: numeral_2_eq_2 less_Suc_eq)

end
