(* ===== verification/Session.thy ===== *)
theory Session
  imports Publishing
begin

text \<open>
  Contribution sessions (storage/sqlite/sqlite.go, contributionSession): sources are staged, their
  contributions written and sealed, dependencies replaced, workspace facts written in pages and
  sealed, and the whole committed as one graph version, all in one transaction.  The abstract
  session records what was staged and written; a commit refines it.  Contexts are not cancelled,
  and the temporary table of staged sources is the session's own.
\<close>

subsection \<open>The session\<close>

record Session =
  se_workspace :: string
  se_pendingVersion :: GraphVersion
  se_database :: Database
  se_staged :: "(string \<times> bool) list"
  se_batch :: publicationBatch
  se_sealed :: bool
  se_missingSourcesClosed :: bool
  se_workspaceFactsWritten :: bool
  se_workspaceFactsSealed :: bool
  se_closed :: bool

text \<open>The transaction reads and writes its own copy of the database.\<close>

definition BeginContributionSession :: "StoreConfig \<Rightarrow> string \<Rightarrow> Database \<Rightarrow> StoreError + Session" where
  "BeginContributionSession store ws db =
    (if ws = '''' then Inl ErrInvalidRequest
     else Inr \<lparr>se_workspace = ws, se_pendingVersion = currentVersion db ws + 1, se_database = db, se_staged = [],
       se_batch = newPublicationBatch (cfg_variableLimit store) (cfg_contributionBatchLimits store), se_sealed = False,
       se_missingSourcesClosed = False, se_workspaceFactsWritten = False, se_workspaceFactsSealed = False, se_closed = False\<rparr>)"

definition failSession :: "StoreError \<Rightarrow> Session \<Rightarrow> (StoreError + 'a) \<times> Session" where
  "failSession e s = (Inl e, if se_closed s then s else s\<lparr>se_closed := True\<rparr>)"

definition StageSource :: "string \<Rightarrow> Session \<Rightarrow> (StoreError + unit) \<times> Session" where
  "StageSource sourcePath s =
    (if se_closed s then (Inl ErrInvalidRequest, s)
     else if se_sealed s then (Inl ErrInvalidRequest, s)
     else if sourcePath = '''' then failSession ErrInvalidRequest s
     else if sourcePath \<in> fst ` set (se_staged s) then failSession (ErrDatabase ''UNIQUE constraint failed'') s
     else (Inr (), s\<lparr>se_staged := se_staged s @ [(sourcePath, False)]\<rparr>))"

text \<open>The UPDATE that marks a staged source as written.\<close>

definition markWritten :: "string \<Rightarrow> (string \<times> bool) list \<Rightarrow> (string \<times> bool) list" where
  "markWritten sourcePath staged = map (\<lambda>(p, written). (p, written \<or> p = sourcePath)) staged"

definition WriteContribution :: "Contribution \<Rightarrow> Session \<Rightarrow> (StoreError + unit) \<times> Session" where
  "WriteContribution contribution s =
    (if se_closed s then (Inl ErrInvalidRequest, s)
     else if se_sealed s then (Inl ErrInvalidRequest, s)
     else let sourcePath = c_sourcePath contribution in
       if (sourcePath, False) \<notin> set (se_staged s) then failSession ErrInvalidRequest s
       else let s1 = s\<lparr>se_staged := markWritten sourcePath (se_staged s)\<rparr> in
         (case NewGraphUpdate [contribution] of
            Inl e \<Rightarrow> failSession ErrInvalidRequest s1
          | Inr update \<Rightarrow> (case encodeContributions update of
              Inl e \<Rightarrow> failSession e s1
            | Inr encoded \<Rightarrow>
                (case addToBatch (se_workspace s) (se_pendingVersion s) (encoded ! 0) (se_batch s1, se_database s1) of
                   Inl e \<Rightarrow> failSession e s1
                 | Inr (batch, db) \<Rightarrow> (Inr (), s1\<lparr>se_batch := batch, se_database := db\<rparr>)))))"

definition SealContributions :: "Session \<Rightarrow> (StoreError + unit) \<times> Session" where
  "SealContributions s =
    (if se_closed s then (Inl ErrInvalidRequest, s)
     else if se_sealed s then (Inr (), s)
     else (case flushBatch (se_batch s, se_database s) of
         Inl e \<Rightarrow> failSession e s
       | Inr (batch, db) \<Rightarrow> (Inr (), s\<lparr>se_batch := batch, se_database := db, se_sealed := True\<rparr>)))"

subsection \<open>Dependencies\<close>

fun checkReplaced :: "(string \<times> bool) list \<Rightarrow> Contribution list \<Rightarrow> string set \<Rightarrow> StoreError error" where
  "checkReplaced staged [] updated = None"
| "checkReplaced staged (c # cs) updated =
    (case map_of staged (c_sourcePath c) of
       None \<Rightarrow> Some ErrInvalidRequest
     | Some written \<Rightarrow> if \<not> written then Some ErrInvalidRequest
         else if c_sourcePath c \<in> updated then Some ErrInvalidRequest
         else checkReplaced staged cs (insert (c_sourcePath c) updated))"

definition dependencyRows :: "string \<Rightarrow> GraphVersion \<Rightarrow> Contribution \<Rightarrow> Row list" where
  "dependencyRows ws version c = map (\<lambda>d. \<lparr>row_workspace = ws, row_source = c_sourcePath c, row_from = version, row_to = None,
     row_data = DependencyRow (dep_TargetPath d)\<rparr>) (c_dependencies c)"

definition ReplaceContributionDependencies :: "StoreConfig \<Rightarrow> Contribution list \<Rightarrow> Session \<Rightarrow> (StoreError + unit) \<times> Session" where
  "ReplaceContributionDependencies store contributions s =
    (if se_closed s then (Inl ErrInvalidRequest, s)
     else if \<not> se_sealed s then (Inl ErrInvalidRequest, s)
     else (case checkReplaced (se_staged s) contributions {} of
         Some e \<Rightarrow> failSession e s
       | None \<Rightarrow>
           let ws = se_workspace s; version = se_pendingVersion s; updated = c_sourcePath ` set contributions;
               cleared = setTable contribution_dependencies
                 (filter (\<lambda>r. \<not> (row_workspace r = ws \<and> row_source r \<in> updated \<and> row_from r = version))
                   (db_rows (se_database s) contribution_dependencies)) (se_database s);
               rows = concat (map (dependencyRows ws version) contributions)
           in (case insertRows (cfg_variableLimit store) maximumBatchRows rowCells (execInsert contribution_dependencies) rows cleared of
                 Inl e \<Rightarrow> failSession e s
               | Inr db \<Rightarrow> (Inr (), s\<lparr>se_database := db\<rparr>))))"

subsection \<open>Workspace facts\<close>

definition WriteWorkspaceFacts :: "StoreConfig \<Rightarrow> Facts \<Rightarrow> Session \<Rightarrow> (StoreError + unit) \<times> Session" where
  "WriteWorkspaceFacts store facts s =
    (if se_closed s then (Inl ErrInvalidRequest, s)
     else if \<not> se_sealed s then (Inl ErrInvalidRequest, s)
     else if se_workspaceFactsSealed s then (Inl ErrInvalidRequest, s)
     else (case storeWorkspaceFacts (cfg_variableLimit store) (cfg_workspaceFactBatchLimits store) (se_workspace s)
             (se_pendingVersion s) facts (se_database s) of
         Inl e \<Rightarrow> failSession e s
       | Inr db \<Rightarrow> (Inr (), s\<lparr>se_database := db, se_workspaceFactsWritten := True\<rparr>)))"

definition closeMissingRow :: "string \<Rightarrow> GraphVersion \<Rightarrow> (string \<times> bool) list \<Rightarrow> Row \<Rightarrow> Row" where
  "closeMissingRow ws version staged r =
    (if row_workspace r = ws \<and> row_to r = None \<and> row_source r \<notin> fst ` set staged then r\<lparr>row_to := Some (version - 1)\<rparr> else r)"

definition closeContributionsMissingFromStagedSources :: "string \<Rightarrow> GraphVersion \<Rightarrow> (string \<times> bool) list \<Rightarrow> Database \<Rightarrow> Database" where
  "closeContributionsMissingFromStagedSources ws version staged db =
     fold (\<lambda>t db. setTable t (map (closeMissingRow ws version staged) (db_rows db t)) db) contributionTables db"

definition closeMissingSources :: "Session \<Rightarrow> Session" where
  "closeMissingSources s =
    (if se_missingSourcesClosed s then s
     else if se_pendingVersion s = 1 then s\<lparr>se_missingSourcesClosed := True\<rparr>
     else s\<lparr>se_database := closeContributionsMissingFromStagedSources (se_workspace s) (se_pendingVersion s) (se_staged s) (se_database s),
        se_missingSourcesClosed := True\<rparr>)"

definition factCounts :: "string \<Rightarrow> GraphVersion \<Rightarrow> Database \<Rightarrow> FactCounts" where
  "factCounts ws version db = \<lparr>
     count_Nodes = int (length (filter (\<lambda>r. wn_workspace r = ws \<and> wn_version r = version) (db_workspace_nodes db))),
     count_Edges = int (length (filter (\<lambda>r. we_workspace r = ws \<and> we_version r = version) (db_workspace_edges db)))\<rparr>"

definition SealWorkspaceFacts :: "Session \<Rightarrow> (StoreError + FactCounts) \<times> Session" where
  "SealWorkspaceFacts s =
    (if se_closed s then (Inl ErrInvalidRequest, s)
     else if \<not> se_sealed s then (Inl ErrInvalidRequest, s)
     else let s1 = closeMissingSources s
       in (Inr (factCounts (se_workspace s1) (se_pendingVersion s1) (se_database s1)), s1\<lparr>se_workspaceFactsSealed := True\<rparr>))"

subsection \<open>The end of a session\<close>

definition Commit :: "StoreConfig \<Rightarrow> int \<Rightarrow> Session \<Rightarrow> (StoreError + Snapshot \<times> Database) \<times> Session" where
  "Commit store now s =
    (if se_closed s then (Inl ErrInvalidRequest, s)
     else if se_workspaceFactsWritten s \<and> \<not> se_workspaceFactsSealed s then (Inl ErrInvalidRequest, s)
     else (case flushBatch (se_batch s, se_database s) of
         Inl e \<Rightarrow> failSession e s
       | Inr (batch, db) \<Rightarrow>
           let s1 = closeMissingSources (s\<lparr>se_batch := batch, se_database := db\<rparr>) in
           (case res_bind (insertVersion store (se_workspace s1) (se_pendingVersion s1) now (se_database s1))
                  (finishPublication store (se_workspace s1) (se_pendingVersion s1)) of
              Inl e \<Rightarrow> failSession e s1
            | Inr db1 \<Rightarrow> (Inr (\<lparr>snap_Workspace = se_workspace s1, snap_Version = se_pendingVersion s1, snap_PublishedAt = now\<rparr>, db1),
                s1\<lparr>se_database := db1, se_staged := [], se_closed := True\<rparr>))))"

definition RollbackSession :: "Session \<Rightarrow> Session" where
  "RollbackSession s = (if se_closed s then s else s\<lparr>se_closed := True\<rparr>)"

subsection \<open>Calls\<close>

datatype SessionCall = CallStageSource string | CallWriteContribution Contribution | CallSealContributions
  | CallReplaceDependencies "Contribution list" | CallWriteWorkspaceFacts Facts | CallSealWorkspaceFacts | CallRollback

definition outcome :: "('e + 'a) \<times> 's \<Rightarrow> 'e error \<times> 's" where
  "outcome r = ((case fst r of Inl e \<Rightarrow> Some e | Inr _ \<Rightarrow> None), snd r)"

fun sessionCall :: "StoreConfig \<Rightarrow> SessionCall \<Rightarrow> Session \<Rightarrow> StoreError error \<times> Session" where
  "sessionCall store (CallStageSource p) s = outcome (StageSource p s)"
| "sessionCall store (CallWriteContribution c) s = outcome (WriteContribution c s)"
| "sessionCall store CallSealContributions s = outcome (SealContributions s)"
| "sessionCall store (CallReplaceDependencies cs) s = outcome (ReplaceContributionDependencies store cs s)"
| "sessionCall store (CallWriteWorkspaceFacts facts) s = outcome (WriteWorkspaceFacts store facts s)"
| "sessionCall store CallSealWorkspaceFacts s = outcome (SealWorkspaceFacts s)"
| "sessionCall store CallRollback s = (None, RollbackSession s)"

text \<open>The calls that are refused because they come too early or too late.\<close>

fun outOfOrder :: "SessionCall \<Rightarrow> Session \<Rightarrow> bool" where
  "outOfOrder (CallStageSource p) s \<longleftrightarrow> se_sealed s"
| "outOfOrder (CallWriteContribution c) s \<longleftrightarrow> se_sealed s"
| "outOfOrder CallSealContributions s \<longleftrightarrow> False"
| "outOfOrder (CallReplaceDependencies cs) s \<longleftrightarrow> \<not> se_sealed s"
| "outOfOrder (CallWriteWorkspaceFacts facts) s \<longleftrightarrow> \<not> se_sealed s \<or> se_workspaceFactsSealed s"
| "outOfOrder CallSealWorkspaceFacts s \<longleftrightarrow> \<not> se_sealed s"
| "outOfOrder CallRollback s \<longleftrightarrow> False"

lemma outcome_simps [simp]:
  "outcome (Inl e, s) = (Some e, s)" "outcome (Inr x, s) = (None, s)"
  by (simp_all add: outcome_def)

lemma outcome_fail [simp]: "outcome (failSession e s) = (Some e, if se_closed s then s else s\<lparr>se_closed := True\<rparr>)"
  by (simp add: failSession_def)

lemma failed_call:
  "sessionCall store c s = (Some e, s') \<Longrightarrow>
    (if se_closed s \<or> outOfOrder c s then e = ErrInvalidRequest \<and> s' = s else se_closed s')"
  by (cases c) (auto simp: StageSource_def WriteContribution_def SealContributions_def ReplaceContributionDependencies_def
      WriteWorkspaceFacts_def SealWorkspaceFacts_def Let_def split: if_splits sum.splits option.splits)

lemma refused_call:
  "se_closed s \<or> outOfOrder c s \<Longrightarrow> c \<noteq> CallRollback \<Longrightarrow> sessionCall store c s = (Some ErrInvalidRequest, s)"
  by (cases c) (auto simp: StageSource_def WriteContribution_def SealContributions_def ReplaceContributionDependencies_def
      WriteWorkspaceFacts_def SealWorkspaceFacts_def)

text \<open>Errors of a session: a call on a closed session or out of order is an invalid request that
  changes nothing, and every other call that fails closes the session; from a closed session no
  sequence of calls publishes anything: Commit is refused.\<close>

theorem failed_call_closes_session:
  assumes "sessionCall store c s = (Some e, s')" "\<not> outOfOrder c s"
  shows "(\<forall>d. outOfOrder d s \<longrightarrow> sessionCall store d s = (Some ErrInvalidRequest, s))
    \<and> se_closed s' \<and> (se_closed s \<longrightarrow> e = ErrInvalidRequest \<and> s' = s)
    \<and> (let final = fold (\<lambda>d t. snd (sessionCall store d t)) calls s' in final = s' \<and> Commit store now final = (Inl ErrInvalidRequest, s'))"
proof -
  have closed: "se_closed s'" using failed_call[OF assms(1)] assms(2) by (auto split: if_splits)
  have stay: "snd (sessionCall store d s') = s'" for d
    using refused_call[of s' d store] closed by (cases "d = CallRollback") (simp_all add: RollbackSession_def)
  have "fold (\<lambda>d t. snd (sessionCall store d t)) calls s' = s'" by (induction calls) (simp_all add: stay)
  moreover have "\<forall>d. outOfOrder d s \<longrightarrow> sessionCall store d s = (Some ErrInvalidRequest, s)"
    using refused_call[of s _ store] by (metis outOfOrder.simps(7))
  ultimately show ?thesis using closed failed_call[OF assms(1)] assms(2) by (auto simp: Commit_def Let_def)
qed

theorem failed_call_closes_session_witness:
  "\<exists>s s'. BeginContributionSession sample_config ''w'' sample_store = Inr s
    \<and> sessionCall sample_config (CallStageSource '''') s = (Some ErrInvalidRequest, s')
    \<and> Commit sample_config 7 (snd (sessionCall sample_config CallSealContributions s')) = (Inl ErrInvalidRequest, s')"
proof -
  obtain s where s: "BeginContributionSession sample_config ''w'' sample_store = Inr s" "\<not> se_closed s" "\<not> se_sealed s"
    by (simp add: BeginContributionSession_def)
  then obtain s' where s': "sessionCall sample_config (CallStageSource '''') s = (Some ErrInvalidRequest, s')"
    by (simp add: StageSource_def)
  from failed_call_closes_session[OF s', of "[CallSealContributions]" 7] s s' show ?thesis by (auto simp: Let_def)
qed

subsection \<open>The abstract session\<close>

text \<open>
  What a session has staged and written: for every written source its rows in each table, the first
  row of every key, and the workspace facts so far, the first of every key.
\<close>

record SessionSpec =
  spec_staged :: "string set"
  spec_written :: "string \<rightharpoonup> (ContributionTable \<Rightarrow> RowData set)"
  spec_nodes :: "Node list"
  spec_edges :: "(Edge \<times> string) list"

definition firstRows :: "RowData list \<Rightarrow> RowData set" where
  "firstRows rs = set (insertOrIgnore rowKey [] rs)"

definition dependencyData :: "Contribution \<Rightarrow> RowData set" where
  "dependencyData c = (\<lambda>d. DependencyRow (dep_TargetPath d)) ` set (c_dependencies c)"

definition replaceDependencies :: "Contribution \<Rightarrow> SessionSpec \<Rightarrow> SessionSpec" where
  "replaceDependencies c a = a\<lparr>spec_written := (spec_written a)(c_sourcePath c :=
     map_option (\<lambda>rows. rows(contribution_dependencies := dependencyData c)) (spec_written a (c_sourcePath c)))\<rparr>"

fun specCall :: "SessionCall \<Rightarrow> SessionSpec \<Rightarrow> SessionSpec" where
  "specCall (CallStageSource p) a = a\<lparr>spec_staged := insert p (spec_staged a)\<rparr>"
| "specCall (CallWriteContribution c) a = a\<lparr>spec_written := (spec_written a)
     (c_sourcePath c \<mapsto> (\<lambda>t. firstRows (contributionData (encodeContribution c) t)))\<rparr>"
| "specCall (CallReplaceDependencies cs) a = fold replaceDependencies cs a"
| "specCall (CallWriteWorkspaceFacts facts) a = a\<lparr>
     spec_nodes := insertOrIgnore node_ID (spec_nodes a) (facts_Nodes facts),
     spec_edges := insertOrIgnore (\<lambda>(e, owner). edgeColumns e) (spec_edges a)
       (map (\<lambda>e. (e, span_Path (ev_Span (edge_Evidence e)))) (facts_Edges facts))\<rparr>"
| "specCall CallSealContributions a = a"
| "specCall CallSealWorkspaceFacts a = a"
| "specCall CallRollback a = a"

definition emptySpec :: SessionSpec where
  "emptySpec = \<lparr>spec_staged = {}, spec_written = Map.empty, spec_nodes = [], spec_edges = []\<rparr>"

text \<open>The sessions begun on a database, with what they did so far.\<close>

inductive session_reach :: "StoreConfig \<Rightarrow> string \<Rightarrow> Database \<Rightarrow> Session \<Rightarrow> SessionSpec \<Rightarrow> bool" for store ws db where
  begin_session: "BeginContributionSession store ws db = Inr s \<Longrightarrow> session_reach store ws db s emptySpec"
| call: "session_reach store ws db s a \<Longrightarrow> sessionCall store c s = (None, s') \<Longrightarrow> session_reach store ws db s' (specCall c a)"
| failed: "session_reach store ws db s a \<Longrightarrow> sessionCall store c s = (Some e, s') \<Longrightarrow> session_reach store ws db s' a"

subsection \<open>The refinement relation\<close>

definition draftStore :: "string \<Rightarrow> GraphVersion \<Rightarrow> string set \<Rightarrow> (ContributionTable \<Rightarrow> Row list) \<Rightarrow> WorkspaceNodeRow list
    \<Rightarrow> WorkspaceEdgeRow list \<Rightarrow> Database \<Rightarrow> Database" where
  "draftStore ws v S new nodes edges db =
     (extendedStore ws v 0 S new nodes edges db)\<lparr>db_graph_versions := db_graph_versions db\<rparr>"

definition content_ok :: "SessionSpec \<Rightarrow> (ContributionTable \<Rightarrow> Row list) \<Rightarrow> WorkspaceNodeRow list \<Rightarrow> WorkspaceEdgeRow list \<Rightarrow> bool" where
  "content_ok a new nodes edges \<longleftrightarrow>
     (\<forall>t. shown ` set (new t) = {(source, d). \<exists>rows. spec_written a source = Some rows \<and> d \<in> rows t})
     \<and> map wn_node nodes = spec_nodes a \<and> map (\<lambda>r. (we_edge r, we_owner r)) edges = spec_edges a"

definition closedSources :: "SessionSpec \<Rightarrow> bool \<Rightarrow> string set" where
  "closedSources a missingClosed = dom (spec_written a) \<union> (if missingClosed then - spec_staged a else {})"

definition session_flags :: "Database \<Rightarrow> Session \<Rightarrow> SessionSpec \<Rightarrow> bool" where
  "session_flags db s a \<longleftrightarrow>
     se_pendingVersion s = currentVersion db (se_workspace s) + 1
     \<and> spec_staged a = fst ` set (se_staged s) \<and> distinct (map fst (se_staged s))
     \<and> dom (spec_written a) = {p. (p, True) \<in> set (se_staged s)}
     \<and> batch_ok (se_batch s, se_database s) [] \<and> pendingSources (se_batch s) \<subseteq> dom (spec_written a)
     \<and> (se_sealed s \<longrightarrow> pb_insertions (se_batch s) = (\<lambda>_. []))
     \<and> (se_missingSourcesClosed s \<longrightarrow> se_sealed s)"

definition session_draft :: "Database \<Rightarrow> Session \<Rightarrow> SessionSpec \<Rightarrow> Database \<Rightarrow> bool" where
  "session_draft db s a d \<longleftrightarrow> (\<exists>new nodes edges.
     extension_ok (se_workspace s) (se_pendingVersion s) (dom (spec_written a)) new nodes edges \<and> content_ok a new nodes edges
     \<and> d = draftStore (se_workspace s) (se_pendingVersion s) (closedSources a (se_missingSourcesClosed s)) new nodes edges db)"

definition session_rel :: "Database \<Rightarrow> Session \<Rightarrow> SessionSpec \<Rightarrow> bool" where
  "session_rel db s a \<longleftrightarrow> session_flags db s a \<and> session_draft db s a (commitPending (se_batch s, se_database s))"

lemma session_relD:
  assumes "session_rel db s a"
  obtains new nodes edges where "extension_ok (se_workspace s) (se_pendingVersion s) (dom (spec_written a)) new nodes edges"
    "content_ok a new nodes edges"
    "commitPending (se_batch s, se_database s)
      = draftStore (se_workspace s) (se_pendingVersion s) (closedSources a (se_missingSourcesClosed s)) new nodes edges db"
  using assms unfolding session_rel_def session_draft_def by blast

lemma session_draftI:
  "\<lbrakk>extension_ok (se_workspace s) (se_pendingVersion s) (dom (spec_written a)) new nodes edges; content_ok a new nodes edges;
    d = draftStore (se_workspace s) (se_pendingVersion s) (closedSources a (se_missingSourcesClosed s)) new nodes edges db\<rbrakk>
    \<Longrightarrow> session_draft db s a d"
  unfolding session_draft_def by blast

lemma draft_sel [simp]:
  "db_rows (draftStore ws v S new nodes edges db) t = map (closedRow ws v S) (db_rows db t) @ new t"
  "db_workspace_nodes (draftStore ws v S new nodes edges db) = db_workspace_nodes db @ nodes"
  "db_workspace_edges (draftStore ws v S new nodes edges db) = db_workspace_edges db @ edges"
  "db_graph_versions (draftStore ws v S new nodes edges db) = db_graph_versions db"
  "db_derived (draftStore ws v S new nodes edges db) = db_derived db"
  by (simp_all add: draftStore_def extendedStore_def)

lemma draft_eqI:
  assumes "\<And>t. db_rows x t = map (closedRow ws v S) (db_rows db t) @ new t" "db_workspace_nodes x = db_workspace_nodes db @ nodes"
    "db_workspace_edges x = db_workspace_edges db @ edges" "db_graph_versions x = db_graph_versions db" "db_derived x = db_derived db"
  shows "x = draftStore ws v S new nodes edges db"
  by (rule Database.equality) (simp_all add: assms fun_eq_iff)

lemma commitPending_other [simp]:
  "db_workspace_nodes (commitPending st) = db_workspace_nodes (snd st)"
  "db_workspace_edges (commitPending st) = db_workspace_edges (snd st)"
  "db_graph_versions (commitPending st) = db_graph_versions (snd st)" "db_derived (commitPending st) = db_derived (snd st)"
  by (simp_all add: commitPending_def)

lemma commitPending_rows: "db_rows (commitPending st) t = ignoreInsert (db_rows (snd st) t) (pb_insertions (fst st) t)"
  by (simp add: commitPending_def)

lemma commitPending_empty: "pb_insertions b = (\<lambda>_. []) \<Longrightarrow> commitPending (b, db) = db"
  by (simp add: commitPending_def mapTables_def)

text \<open>The tables of the transaction once nothing is pending.\<close>

lemma sealed_database:
  assumes "session_rel db s a" "se_sealed s"
  shows "commitPending (se_batch s, se_database s) = se_database s" "pb_insertions (se_batch s) = (\<lambda>_. [])"
  using assms by (simp_all add: session_rel_def session_flags_def commitPending_empty)

lemma begin_rel:
  assumes "BeginContributionSession store ws db = Inr s" "16 \<le> cfg_variableLimit store"
  shows "session_rel db s emptySpec \<and> \<not> se_closed s"
proof -
  let ?b = "newPublicationBatch (cfg_variableLimit store) (cfg_contributionBatchLimits store)"
  have s: "s = \<lparr>se_workspace = ws, se_pendingVersion = currentVersion db ws + 1, se_database = db, se_staged = [],
       se_batch = ?b, se_sealed = False, se_missingSourcesClosed = False, se_workspaceFactsWritten = False,
       se_workspaceFactsSealed = False, se_closed = False\<rparr>"
    using assms(1) by (auto simp: BeginContributionSession_def split: if_splits)
  have "commitPending (?b, db) = draftStore ws (currentVersion db ws + 1) {} (\<lambda>_. []) [] [] db"
    by (rule draft_eqI) (simp_all add: commitPending_rows newPublicationBatch_def)
  moreover have b: "batch_ok (?b, db) []" "pb_insertions ?b = (\<lambda>_. [])" "pendingSources ?b = {}"
    using assms(2) by (simp_all add: batch_ok_def newPublicationBatch_def typedRows_def pendingSources_def)
  moreover have "extension_ok ws (currentVersion db ws + 1) {} (\<lambda>_. []) [] []" by (simp add: extension_ok_def freshRows_def)
  moreover have "content_ok emptySpec (\<lambda>_. []) [] []" by (simp add: content_ok_def emptySpec_def)
  ultimately have "session_draft db s emptySpec (commitPending (?b, db))"
    by (intro session_draftI) (simp_all add: s emptySpec_def closedSources_def)
  moreover have "session_flags db s emptySpec" using b by (simp add: session_flags_def s emptySpec_def)
  ultimately show ?thesis by (simp add: session_rel_def s)
qed

lemma stage_rel:
  assumes rel: "session_rel db s a" and opened: "\<not> se_closed s" and c: "sessionCall store (CallStageSource p) s = (None, s')"
  shows "session_rel db s' (specCall (CallStageSource p) a)"
proof -
  have s': "s' = s\<lparr>se_staged := se_staged s @ [(p, False)]\<rparr>" and p: "p \<notin> fst ` set (se_staged s)" "\<not> se_sealed s"
    using c opened by (auto simp: StageSource_def split: if_splits)
  have unclosed: "\<not> se_missingSourcesClosed s" using rel p(2) by (simp add: session_rel_def session_flags_def)
  from rel obtain new nodes edges where x: "extension_ok (se_workspace s) (se_pendingVersion s) (dom (spec_written a)) new nodes edges"
    "content_ok a new nodes edges"
    "commitPending (se_batch s, se_database s)
      = draftStore (se_workspace s) (se_pendingVersion s) (closedSources a (se_missingSourcesClosed s)) new nodes edges db"
    by (rule session_relD)
  have "content_ok (specCall (CallStageSource p) a) new nodes edges" using x(2) by (simp add: content_ok_def)
  moreover have "closedSources (specCall (CallStageSource p) a) False = closedSources a False" by (simp add: closedSources_def)
  ultimately have "session_draft db s' (specCall (CallStageSource p) a) (commitPending (se_batch s, se_database s))"
    using x(1,3) unclosed by (intro session_draftI) (simp_all add: s')
  moreover have "session_flags db s' (specCall (CallStageSource p) a)"
    using rel p by (auto simp: session_rel_def session_flags_def s')
  ultimately show ?thesis by (simp add: session_rel_def s')
qed

lemma flush_rel:
  assumes rel: "session_rel db s a" and f: "flushBatch (se_batch s, se_database s) = Inr (b, d)"
  shows "session_rel db (s\<lparr>se_batch := b, se_database := d, se_sealed := True\<rparr>) a"
proof -
  have ok: "batch_ok (se_batch s, se_database s) []" using rel by (simp add: session_rel_def session_flags_def)
  from flushBatch_ok[OF this] f have fl: "batch_ok (b, d) []"
    "commitPending (b, d) = commitPending (se_batch s, se_database s)" "pb_insertions b = (\<lambda>_. [])" by auto
  let ?s = "s\<lparr>se_batch := b, se_database := d, se_sealed := True\<rparr>"
  have "pendingSources b = {}" using fl(3) by (simp add: pendingSources_def)
  then have "session_flags db ?s a" using rel fl(1,3) by (simp add: session_rel_def session_flags_def)
  moreover have "session_draft db ?s a (commitPending (b, d))"
    using rel unfolding session_rel_def session_draft_def fl(2) by simp
  ultimately show ?thesis by (simp add: session_rel_def)
qed

lemma seal_rel:
  assumes rel: "session_rel db s a" and opened: "\<not> se_closed s" and c: "sessionCall store CallSealContributions s = (None, s')"
  shows "session_rel db s' a"
  using c opened rel flush_rel[OF rel] by (auto simp: SealContributions_def split: if_splits sum.splits)

lemma markWritten_sel:
  "map fst (markWritten p staged) = map fst staged"
  "(q, True) \<in> set (markWritten p staged) \<longleftrightarrow> (q, True) \<in> set staged \<or> q = p \<and> p \<in> fst ` set staged"
  by (force simp: markWritten_def o_def split_def)+

lemma markWritten_fst: "fst ` set (markWritten p staged) = fst ` set staged"
  using markWritten_sel(1) by (metis image_set)

text \<open>No row of the new version conflicts with the base rows or with rows of other sources.\<close>

lemma header_fresh:
  assumes rows: "\<forall>r\<in>set rows. row_workspace r = ws \<longrightarrow> 1 \<le> row_from r \<and> row_from r < v"
    and new: "freshRows ws v S new" and src: "enc_sourcePath c \<notin> S"
    and r: "r \<in> set (prepareContribution ws v c t)" and x: "x \<in> set (map (closedRow ws v T) rows @ new)"
  shows "\<not> sameKey r x"
proof -
  have r': "row_source r = enc_sourcePath c \<and> row_from r = v \<and> row_workspace r = ws" using prepared_source[OF r] by blast
  from x consider y where "y \<in> set rows" "x = closedRow ws v T y" | "x \<in> set new" by auto
  then show ?thesis
  proof cases
    case 1
    then show ?thesis using r' rows by (auto simp: sameKey_def)
  next
    case 2
    then show ?thesis using r' freshRowsD[OF new 2] src by (auto simp: sameKey_def)
  qed
qed

lemma write_draft:
  assumes wf: "wf_store db" and v: "v = currentVersion db ws + 1"
    and ext: "extension_ok ws v S new nodes edges" and src: "enc_sourcePath c \<notin> S"
  shows "writeDirect ws v c (draftStore ws v S new nodes edges db)
      = draftStore ws v (insert (enc_sourcePath c) S) (\<lambda>t. new t @ ignoreInsert [] (prepareContribution ws v c t)) nodes edges db"
    and "extension_ok ws v (insert (enc_sourcePath c) S) (\<lambda>t. new t @ ignoreInsert [] (prepareContribution ws v c t)) nodes edges"
proof -
  let ?d = "draftStore ws v S new nodes edges db"
  have all: "writeAll ws v [c] ?d = writeDirect ws v c ?d" by (simp add: writeAll_def)
  have rows: "db_rows (writeDirect ws v c ?d) t = writeRows ws v t c (db_rows ?d t)" for t
    using writeAll_rows[of ws v "[c]" ?d t] unfolding all by simp
  show "writeDirect ws v c ?d = draftStore ws v (insert (enc_sourcePath c) S) (\<lambda>t. new t @ ignoreInsert [] (prepareContribution ws v c t)) nodes edges db"
    using writeAll_other[of ws v "[c]" ?d] unfolding all
    by (intro draft_eqI) (simp_all add: rows writeRows_step[OF rows_before[OF wf v] extension_okD(1)[OF ext] src])
  have "freshRows ws v (insert (enc_sourcePath c) S) (new t @ ignoreInsert [] (prepareContribution ws v c t))" for t
    using extension_okD(1)[OF ext, of t] newRows_fresh[of ws v "[c]" t] by (auto simp: freshRows_def newRows_def)
  moreover have "distinct (map rowPK (new t @ ignoreInsert [] (prepareContribution ws v c t)))" for t
  proof (rule distinct_fresh_append[OF extension_okD(2)[OF ext]])
    show "distinct (map rowPK (ignoreInsert [] (prepareContribution ws v c t)))"
      using newRows_distinct[of "[c]" ws v t] by (simp add: newRows_def)
    fix r assume "r \<in> set (ignoreInsert [] (prepareContribution ws v c t))"
    then have "r \<in> set (prepareContribution ws v c t)" using set_ignoreInsert[of "[]"] by fastforce
    from header_fresh[OF _ extension_okD(1)[OF ext] src this, of "[]"] show "rowPK r \<notin> rowPK ` set (new t)"
      by (auto simp: sameKey_rowPK)
  qed
  ultimately show "extension_ok ws v (insert (enc_sourcePath c) S) (\<lambda>t. new t @ ignoreInsert [] (prepareContribution ws v c t)) nodes edges"
    using ext unfolding extension_ok_def by blast
qed

lemma prepared_shown: "shown ` set (ignoreInsert [] (prepareContribution ws v c t)) = Pair (enc_sourcePath c) ` firstRows (contributionData c t)"
proof -
  have "map shown (ignoreInsert [] (prepareContribution ws v c t))
      = map (\<lambda>d. (enc_sourcePath c, d)) (insertOrIgnore rowKey [] (contributionData c t))"
    using newRows_shown[of ws v "[c]" t] by (simp add: newRows_def publishedRows_def)
  then have "set (map shown (ignoreInsert [] (prepareContribution ws v c t)))
      = set (map (\<lambda>d. (enc_sourcePath c, d)) (insertOrIgnore rowKey [] (contributionData c t)))" by (rule arg_cong)
  then show ?thesis by (simp add: firstRows_def)
qed

lemma write_rel:
  assumes wf: "wf_store db" and rel: "session_rel db s a" and opened: "\<not> se_closed s"
    and c: "sessionCall store (CallWriteContribution c) s = (None, s')"
  shows "session_rel db s' (specCall (CallWriteContribution c) a)"
proof -
  let ?ws = "se_workspace s" and ?v = "se_pendingVersion s" and ?p = "c_sourcePath c" and ?e = "encodeContribution c"
  let ?a = "specCall (CallWriteContribution c) a" and ?st = "(se_batch s, se_database s)"
  have enc: "encodeContributions \<lparr>gu_contributions = [c]\<rparr> = Inr [?e]" by (simp add: encodeContributions_ok)
  obtain b d where add: "addToBatch ?ws ?v ?e ?st = Inr (b, d)" and p: "(?p, False) \<in> set (se_staged s)" "\<not> se_sealed s"
    and s': "s' = s\<lparr>se_staged := markWritten ?p (se_staged s), se_batch := b, se_database := d\<rparr>"
    using c opened by (auto simp: WriteContribution_def NewGraphUpdate_def enc Let_def split: if_splits sum.splits)
  have fl: "?v = currentVersion db ?ws + 1" "spec_staged a = fst ` set (se_staged s)" "distinct (map fst (se_staged s))"
    "dom (spec_written a) = {p. (p, True) \<in> set (se_staged s)}" "batch_ok ?st []" "pendingSources (se_batch s) \<subseteq> dom (spec_written a)"
    "\<not> se_missingSourcesClosed s" using rel p(2) by (auto simp: session_rel_def session_flags_def)
  have new: "?p \<notin> dom (spec_written a)" using fl(3,4) p(1) by (auto dest: eq_key_imp_eq_value)
  from rel obtain new nodes edges where x: "extension_ok ?ws ?v (dom (spec_written a)) new nodes edges" "content_ok a new nodes edges"
    "commitPending ?st = draftStore ?ws ?v (dom (spec_written a)) new nodes edges db"
    by (rule session_relD) (simp add: fl(7) closedSources_def)
  have "\<not> hasConflict (db_rows (se_database s) file_contributions) (pb_insertions (se_batch s) file_contributions @ prepareContribution ?ws ?v ?e file_contributions)"
  proof -
    have nc: "\<not> hasConflict (db_rows (se_database s) file_contributions) (pb_insertions (se_batch s) file_contributions)"
      using fl(5) by (simp add: batch_ok_def)
    have pend: "db_rows (se_database s) file_contributions @ pb_insertions (se_batch s) file_contributions
        = map (closedRow ?ws ?v (dom (spec_written a))) (db_rows db file_contributions) @ new file_contributions"
      using arg_cong[OF x(3), of "\<lambda>d. db_rows d file_contributions"] by (simp add: commitPending_rows ignoreInsert_no_conflict[OF nc])
    obtain r where r: "prepareContribution ?ws ?v ?e file_contributions = [r]" by (simp add: prepareContribution_def contributionData_def)
    then have "\<not> list_ex (sameKey r) (map (closedRow ?ws ?v (dom (spec_written a))) (db_rows db file_contributions) @ new file_contributions)"
      using header_fresh[OF rows_before[OF wf fl(1)] extension_okD(1)[OF x(1)], of ?e r file_contributions _ "dom (spec_written a)"
          file_contributions file_contributions] new
      unfolding list_ex_iff by (metis enc_source list.set_intros(1))
    then show ?thesis using nc by (simp add: hasConflict_append r pend)
  qed
  then have "batch_ok ?st (prepareContribution ?ws ?v ?e file_contributions @ [])" using fl(5) by (simp add: batch_ok_def)
  moreover have "enc_sourcePath ?e \<notin> pendingSources (fst ?st)" using fl(6) new by auto
  ultimately have st: "batch_ok (b, d) []" "commitPending (b, d) = writeDirect ?ws ?v ?e (commitPending ?st)"
    "pendingSources b \<subseteq> insert ?p (pendingSources (se_batch s))" using addToBatch_ok[of ?st ?ws ?v ?e "[]"] add by auto
  have dom: "dom (spec_written ?a) = insert ?p (dom (spec_written a))" by simp
  let ?new = "\<lambda>t. new t @ ignoreInsert [] (prepareContribution ?ws ?v ?e t)"
  have "session_draft db s' ?a (commitPending (b, d))"
  proof (rule session_draftI)
    show "extension_ok (se_workspace s') (se_pendingVersion s') (dom (spec_written ?a)) ?new nodes edges"
      using write_draft(2)[OF wf fl(1) x(1), of ?e] new unfolding dom by (simp add: s')
    show "content_ok ?a ?new nodes edges"
      using x(2) new unfolding content_ok_def by (auto simp: prepared_shown image_Un domIff split: if_splits)
    show "commitPending (b, d) = draftStore (se_workspace s') (se_pendingVersion s') (closedSources ?a (se_missingSourcesClosed s')) ?new nodes edges db"
      using write_draft(1)[OF wf fl(1) x(1), of ?e] new fl(7) unfolding st(2) x(3) closedSources_def dom by (simp add: s')
  qed
  moreover have "session_flags db s' ?a"
  proof -
    have "?p \<in> fst ` set (se_staged s)" using p(1) by force
    then have "dom (spec_written ?a) = {q. (q, True) \<in> set (markWritten ?p (se_staged s))}"
      unfolding dom markWritten_sel fl(4) by blast
    moreover have "pendingSources b \<subseteq> dom (spec_written ?a)" using st(3) fl(6) unfolding dom by blast
    ultimately show ?thesis using fl(1-3,7) st(1) p(2) unfolding session_flags_def s'
      by (simp add: markWritten_sel(1) markWritten_fst)
  qed
  ultimately show ?thesis by (simp add: session_rel_def s')
qed

subsection \<open>Replacing dependencies\<close>

lemma checkReplaced_ok:
  "checkReplaced staged cs updated = None \<Longrightarrow> distinct (map c_sourcePath cs) \<and> c_sourcePath ` set cs \<inter> updated = {}
    \<and> (\<forall>c\<in>set cs. (c_sourcePath c, True) \<in> set staged)"
proof (induction cs arbitrary: updated)
  case (Cons c cs)
  then have c: "map_of staged (c_sourcePath c) = Some True" "c_sourcePath c \<notin> updated"
    "checkReplaced staged cs (insert (c_sourcePath c) updated) = None"
    by (auto split: option.splits if_splits)
  from Cons.IH[OF c(3)] c(2) map_of_SomeD[OF c(1)] show ?case by auto
qed simp

lemma replaced_written:
  assumes "distinct (map c_sourcePath cs)"
  shows "spec_written (fold replaceDependencies cs a) p =
    (case map_of (map (\<lambda>c. (c_sourcePath c, dependencyData c)) cs) p of
       None \<Rightarrow> spec_written a p
     | Some deps \<Rightarrow> map_option (\<lambda>rows. rows(contribution_dependencies := deps)) (spec_written a p))"
  using assms
proof (induction cs arbitrary: a)
  case (Cons c cs)
  have "map_of (map (\<lambda>c. (c_sourcePath c, dependencyData c)) cs) (c_sourcePath c) = None"
    using Cons.prems by (force simp: map_of_eq_None_iff)
  then show ?case using Cons by (auto simp: replaceDependencies_def split: option.splits)
qed simp

lemma replaced_other:
  "spec_staged (fold replaceDependencies cs a) = spec_staged a" "spec_nodes (fold replaceDependencies cs a) = spec_nodes a"
  "spec_edges (fold replaceDependencies cs a) = spec_edges a"
  by (induction cs arbitrary: a) (simp_all add: replaceDependencies_def)

lemma ignoreInsert_all:
  assumes "\<forall>x\<in>set rows \<union> set rs. \<forall>y\<in>set rows \<union> set rs. sameKey x y \<longrightarrow> x = y"
  shows "set (ignoreInsert rows rs) = set rows \<union> set rs"
  using assms
proof (induction rs arbitrary: rows)
  case (Cons r rs)
  show ?case
  proof (cases "list_ex (sameKey r) rows")
    case True
    then have "r \<in> set rows" using Cons.prems by (auto simp: list_ex_iff)
    then show ?thesis using True Cons by auto
  next
    case False
    then show ?thesis using Cons.IH[of "rows @ [r]"] Cons.prems by auto
  qed
qed simp

lemma dependencyRows_sel:
  "r \<in> set (concat (map (dependencyRows ws v) cs)) \<Longrightarrow> row_workspace r = ws \<and> row_from r = v \<and> row_to r = None
    \<and> row_source r \<in> c_sourcePath ` set cs \<and> (\<exists>p. row_data r = DependencyRow p)"
  by (auto simp: dependencyRows_def)

lemma dependencyRows_key:
  assumes "x \<in> set (concat (map (dependencyRows ws v) cs))" "y \<in> set (concat (map (dependencyRows ws v) cs))" "sameKey x y"
  shows "x = y"
proof (rule Row.equality)
  from dependencyRows_sel[OF assms(1)] dependencyRows_sel[OF assms(2)] assms(3) show "row_data x = row_data y"
    by (auto simp: sameKey_def rowKey_def)
qed (use dependencyRows_sel[OF assms(1)] dependencyRows_sel[OF assms(2)] assms(3) in \<open>auto simp: sameKey_def\<close>)

lemma dependencyRows_shown:
  "shown ` set (concat (map (dependencyRows ws v) cs)) = {(p, d). \<exists>c\<in>set cs. c_sourcePath c = p \<and> d \<in> dependencyData c}"
  by (force simp: dependencyRows_def shown_def dependencyData_def image_iff)

lemma dependencyRows_typed: "typedRows contribution_dependencies (concat (map (dependencyRows ws v) cs))"
  by (auto simp: typedRows_def dependencyRows_def rowCells_def dataCells_def tableWidth_def)

lemma ignoreInsert_PK: "distinct (map rowPK rows) \<Longrightarrow> distinct (map rowPK (ignoreInsert rows rs))"
proof (induction rs arbitrary: rows)
  case (Cons r rs)
  from Cons.prems have "distinct (map rowPK (if list_ex (sameKey r) rows then rows else rows @ [r]))"
    by (auto simp: list_ex_iff sameKey_rowPK)
  from Cons.IH[OF this] show ?case by simp
qed simp

lemma replace_draft:
  assumes wf: "wf_store db" and v: "v = currentVersion db ws + 1" and ext: "extension_ok ws v S new nodes edges"
    and U: "c_sourcePath ` set cs \<subseteq> S" and vl: "16 \<le> variableLimit"
  defines "drows \<equiv> concat (map (dependencyRows ws v) cs)" and "U \<equiv> c_sourcePath ` set cs"
  defines "new' \<equiv> new(contribution_dependencies :=
      filter (\<lambda>r. row_source r \<notin> U) (new contribution_dependencies) @ ignoreInsert [] drows)"
  shows "insertRows variableLimit maximumBatchRows rowCells (execInsert contribution_dependencies) drows
      (setTable contribution_dependencies (filter (\<lambda>r. \<not> (row_workspace r = ws \<and> row_source r \<in> U \<and> row_from r = v))
        (db_rows (draftStore ws v T new nodes edges db) contribution_dependencies)) (draftStore ws v T new nodes edges db))
    = Inr (draftStore ws v T new' nodes edges db)"
    and "extension_ok ws v S new' nodes edges"
proof -
  let ?D = contribution_dependencies and ?d = "draftStore ws v T new nodes edges db"
  let ?kept = "filter (\<lambda>r. row_source r \<notin> U) (new ?D)"
  have base: "filter (\<lambda>r. \<not> (row_workspace r = ws \<and> row_source r \<in> U \<and> row_from r = v)) (map (closedRow ws v T) (db_rows db ?D))
      = map (closedRow ws v T) (db_rows db ?D)"
    using rows_before[OF wf v, of ?D] by (intro filter_True) auto
  have "filter (\<lambda>r. \<not> (row_workspace r = ws \<and> row_source r \<in> U \<and> row_from r = v)) (new ?D) = ?kept"
    using freshRowsD[OF extension_okD(1)[OF ext, of ?D]] by (intro filter_cong) auto
  with base have cleared: "filter (\<lambda>r. \<not> (row_workspace r = ws \<and> row_source r \<in> U \<and> row_from r = v)) (db_rows ?d ?D)
      = map (closedRow ws v T) (db_rows db ?D) @ ?kept" by simp
  have kept: "freshRows ws v S ?kept" "distinct (map rowPK ?kept)"
    using extension_okD(1,2)[OF ext, of ?D] by (auto simp: freshRows_def distinct_map_filter)
  have fresh: "\<not> sameKey r x" if "r \<in> set drows" "x \<in> set (map (closedRow ws v T) (db_rows db ?D) @ ?kept)" for r x
  proof -
    have r: "row_workspace r = ws" "row_from r = v" "row_source r \<in> U"
      using dependencyRows_sel[OF that(1)[unfolded drows_def]] by (auto simp: U_def)
    from that(2) consider y where "y \<in> set (db_rows db ?D)" "x = closedRow ws v T y" | "x \<in> set ?kept" by auto
    then show ?thesis
    proof cases
      case 1
      then show ?thesis using rows_before[OF wf v, of ?D] r by (auto simp: sameKey_def)
    next
      case 2
      then show ?thesis using r(3) by (auto simp: sameKey_def)
    qed
  qed
  then have "\<forall>r\<in>set drows. \<not> list_ex (sameKey r) (map (closedRow ws v T) (db_rows db ?D) @ ?kept)"
    unfolding list_ex_iff by blast
  note ins = ignoreInsert_fresh[OF this]
  have "insertRows variableLimit maximumBatchRows rowCells (execInsert ?D) drows (setTable ?D (map (closedRow ws v T) (db_rows db ?D) @ ?kept) ?d)
      = Inr (setTable ?D (map (closedRow ws v T) (db_rows db ?D) @ ?kept @ ignoreInsert [] drows)
          (setTable ?D (map (closedRow ws v T) (db_rows db ?D) @ ?kept) ?d))"
    using insertRows_writes[OF vl, of maximumBatchRows ?D drows] dependencyRows_typed ins
    by (simp add: drows_def maximumBatchRows_def)
  moreover have "setTable ?D (map (closedRow ws v T) (db_rows db ?D) @ ?kept @ ignoreInsert [] drows)
          (setTable ?D (map (closedRow ws v T) (db_rows db ?D) @ ?kept) ?d) = draftStore ws v T new' nodes edges db"
    by (rule draft_eqI) (simp_all add: new'_def)
  ultimately show "insertRows variableLimit maximumBatchRows rowCells (execInsert ?D) drows
      (setTable ?D (filter (\<lambda>r. \<not> (row_workspace r = ws \<and> row_source r \<in> U \<and> row_from r = v)) (db_rows ?d ?D)) ?d)
    = Inr (draftStore ws v T new' nodes edges db)" unfolding cleared by simp
  have "freshRows ws v S (ignoreInsert [] drows)"
    using set_ignoreInsert[of "[]" drows] dependencyRows_sel U unfolding freshRows_def drows_def by fastforce
  then have "freshRows ws v S (new' ?D)" using kept(1) by (auto simp: new'_def freshRows_def)
  moreover have "distinct (map rowPK (new' ?D))"
    unfolding new'_def fun_upd_same
  proof (rule distinct_fresh_append[OF kept(2)])
    show "distinct (map rowPK (ignoreInsert [] drows))"
      by (rule ignoreInsert_PK) simp
    fix r assume "r \<in> set (ignoreInsert [] drows)"
    then have "r \<in> set drows" using set_ignoreInsert[of "[]"] by fastforce
    then show "rowPK r \<notin> rowPK ` set ?kept" using fresh by (auto simp: sameKey_rowPK)
  qed
  ultimately show "extension_ok ws v S new' nodes edges"
    using ext unfolding extension_ok_def by (metis fun_upd_other new'_def)
qed

lemma replace_content:
  fixes ws :: string and v :: GraphVersion
  assumes ok: "content_ok a new nodes edges" and d: "distinct (map c_sourcePath cs)" and U: "c_sourcePath ` set cs \<subseteq> dom (spec_written a)"
  defines "drows \<equiv> concat (map (dependencyRows ws v) cs)"
  shows "content_ok (fold replaceDependencies cs a) (new(contribution_dependencies :=
      filter (\<lambda>r. row_source r \<notin> c_sourcePath ` set cs) (new contribution_dependencies) @ ignoreInsert [] drows)) nodes edges"
    and "dom (spec_written (fold replaceDependencies cs a)) = dom (spec_written a)"
proof -
  let ?a = "fold replaceDependencies cs a" and ?D = contribution_dependencies and ?U = "c_sourcePath ` set cs"
  let ?m = "map_of (map (\<lambda>c. (c_sourcePath c, dependencyData c)) cs)"
  note w = replaced_written[OF d, of a]
  have m_None: "?m p = None \<longleftrightarrow> p \<notin> ?U" for p by (force simp: map_of_eq_None_iff)
  have m_Some: "?m (c_sourcePath c) = Some (dependencyData c)" if "c \<in> set cs" for c
    using d that by (intro map_of_is_SomeI) (auto simp: o_def)
  show "dom (spec_written ?a) = dom (spec_written a)" by (auto simp: w dom_def split: option.splits)
  have cont: "shown ` set (new t) = {(p, x). \<exists>rows. spec_written a p = Some rows \<and> x \<in> rows t}" for t
    using ok unfolding content_ok_def by blast
  have other: "(\<exists>rows. spec_written ?a p = Some rows \<and> x \<in> rows t) \<longleftrightarrow> (\<exists>rows. spec_written a p = Some rows \<and> x \<in> rows t)"
    if "t \<noteq> ?D" for t p x
    using that by (auto simp: w split: option.splits)
  have dep: "(\<exists>rows. spec_written ?a p = Some rows \<and> x \<in> rows ?D)
      \<longleftrightarrow> (if p \<in> ?U then \<exists>c\<in>set cs. c_sourcePath c = p \<and> x \<in> dependencyData c else (p, x) \<in> shown ` set (new ?D))" for p x
  proof (cases "p \<in> ?U")
    case True
    then obtain c where c: "c \<in> set cs" "p = c_sourcePath c" by blast
    then obtain rows where "spec_written a p = Some rows" using U by blast
    moreover have "e = c" if "e \<in> set cs" "c_sourcePath e = c_sourcePath c" for e
      using d c(1) that by (meson distinct_map inj_onD)
    ultimately show ?thesis using True c m_Some[OF c(1)] by (auto simp: w)
  next
    case False
    then show ?thesis using m_None[of p] by (auto simp: w cont)
  qed
  have "set (ignoreInsert [] drows) = set drows"
  proof -
    have "\<forall>x\<in>set drows. \<forall>y\<in>set drows. sameKey x y \<longrightarrow> x = y" unfolding drows_def using dependencyRows_key by blast
    then show ?thesis using ignoreInsert_all[of "[]" drows] by simp
  qed
  moreover have "shown ` set drows = {(p, d). \<exists>c\<in>set cs. c_sourcePath c = p \<and> d \<in> dependencyData c}"
    unfolding drows_def by (rule dependencyRows_shown)
  moreover have "shown ` set (filter (\<lambda>r. row_source r \<notin> ?U) (new ?D)) = {(p, x). p \<notin> ?U \<and> (p, x) \<in> shown ` set (new ?D)}"
    by (auto simp: shown_def)
  ultimately have "shown ` set (filter (\<lambda>r. row_source r \<notin> ?U) (new ?D) @ ignoreInsert [] drows)
      = {(p, x). if p \<in> ?U then \<exists>c\<in>set cs. c_sourcePath c = p \<and> x \<in> dependencyData c else (p, x) \<in> shown ` set (new ?D)}"
    unfolding set_append image_Un by auto
  then have "shown ` set ((new(?D := filter (\<lambda>r. row_source r \<notin> ?U) (new ?D) @ ignoreInsert [] drows)) t)
      = {(p, x). \<exists>rows. spec_written ?a p = Some rows \<and> x \<in> rows t}" for t
    by (cases "t = ?D") (simp_all add: dep cont other)
  then show "content_ok ?a (new(?D := filter (\<lambda>r. row_source r \<notin> ?U) (new ?D) @ ignoreInsert [] drows)) nodes edges"
    using ok by (simp add: content_ok_def replaced_other)
qed

lemma replace_rel:
  assumes wf: "wf_store db" and rel: "session_rel db s a" and opened: "\<not> se_closed s" and vl: "16 \<le> cfg_variableLimit store"
    and c: "sessionCall store (CallReplaceDependencies cs) s = (None, s')"
  shows "session_rel db s' (specCall (CallReplaceDependencies cs) a)"
proof -
  let ?ws = "se_workspace s" and ?v = "se_pendingVersion s" and ?a = "fold replaceDependencies cs a"
  let ?drows = "concat (map (dependencyRows ?ws ?v) cs)"
  have chk: "checkReplaced (se_staged s) cs {} = None" and sealed: "se_sealed s"
    using c opened by (auto simp: ReplaceContributionDependencies_def Let_def split: if_splits option.splits)
  from checkReplaced_ok[OF chk] have d: "distinct (map c_sourcePath cs)" and U: "c_sourcePath ` set cs \<subseteq> dom (spec_written a)"
    using rel by (auto simp: session_rel_def session_flags_def)
  have v: "?v = currentVersion db ?ws + 1" using rel by (simp add: session_rel_def session_flags_def)
  from rel obtain new nodes edges where x: "extension_ok ?ws ?v (dom (spec_written a)) new nodes edges" "content_ok a new nodes edges"
    "se_database s = draftStore ?ws ?v (closedSources a (se_missingSourcesClosed s)) new nodes edges db"
    by (rule session_relD) (simp add: sealed_database[OF rel sealed])
  let ?new = "new(contribution_dependencies :=
      filter (\<lambda>r. row_source r \<notin> c_sourcePath ` set cs) (new contribution_dependencies) @ ignoreInsert [] ?drows)"
  let ?d = "draftStore ?ws ?v (closedSources a (se_missingSourcesClosed s)) ?new nodes edges db"
  note r1 = replace_draft(1)[OF wf v x(1) U vl, where T = "closedSources a (se_missingSourcesClosed s)"]
  note r2 = replace_draft(2)[OF wf v x(1) U vl]
  note k = replace_content(1)[OF x(2) d U, of ?ws ?v] replace_content(2)[OF x(2) d U]
  have s': "s' = s\<lparr>se_database := ?d\<rparr>"
    using c opened sealed chk r1 x(3) by (simp add: ReplaceContributionDependencies_def Let_def)
  have closed: "closedSources ?a b = closedSources a b" for b by (simp add: closedSources_def k(2) replaced_other)
  have ins: "pb_insertions (se_batch s) = (\<lambda>_. [])" using sealed_database[OF rel sealed] by simp
  have "session_draft db s' ?a ?d"
    by (rule session_draftI[of _ _ ?new nodes edges]) (use r2 k in \<open>simp_all add: s' closed\<close>)
  moreover have "session_flags db s' ?a"
    using rel ins by (simp add: session_rel_def session_flags_def s' k(2) replaced_other batch_ok_def pendingSources_def)
  ultimately show ?thesis by (simp add: session_rel_def s' commitPending_empty[OF ins])
qed

subsection \<open>Workspace facts of a session\<close>

lemma storeWorkspaceFacts_Inr:
  assumes "16 \<le> variableLimit" "storeWorkspaceFacts variableLimit limits ws version facts db = Inr db'"
  shows "db' = db\<lparr>db_workspace_nodes := insertOrIgnore nodeKey (db_workspace_nodes db) (workspaceNodeRows ws version facts),
      db_workspace_edges := insertOrIgnore edgeRowKey (db_workspace_edges db) (workspaceEdgeRows ws version facts)\<rparr>"
proof -
  from assms(2) obtain db1 where
    n: "factLoop variableLimit limits nodeCells execNodes (workspaceNodeRows ws version facts) [] 0 db = Inr db1" and
    e: "factLoop variableLimit limits edgeCells execEdges (workspaceEdgeRows ws version facts) [] 0 db1 = Inr db'"
    by (auto simp: storeWorkspaceFacts_def res_simps)
  have "execNodes (workspaceNodeRows ws version facts) db = Inr db1"
    using n node_insert.factLoop_exec[OF _ _ node_insert.factLoop_limits[OF n]] assms(1) by (simp add: cells_width)
  moreover have "execEdges (workspaceEdgeRows ws version facts) db1 = Inr db'"
    using e edge_insert.factLoop_exec[OF _ _ edge_insert.factLoop_limits[OF e]] assms(1) by (simp add: cells_width)
  ultimately show ?thesis by (auto simp: execNodes_def execEdges_def)
qed

lemma facts_draft:
  fixes facts :: Facts
  assumes wf: "wf_store db" and v: "v = currentVersion db ws + 1" and ext: "extension_ok ws v S new nodes edges"
  defines "nodes' \<equiv> insertOrIgnore nodeKey nodes (workspaceNodeRows ws v facts)"
    and "edges' \<equiv> insertOrIgnore edgeRowKey edges (workspaceEdgeRows ws v facts)"
  shows "(draftStore ws v T new nodes edges db)\<lparr>
      db_workspace_nodes := insertOrIgnore nodeKey (db_workspace_nodes (draftStore ws v T new nodes edges db)) (workspaceNodeRows ws v facts),
      db_workspace_edges := insertOrIgnore edgeRowKey (db_workspace_edges (draftStore ws v T new nodes edges db)) (workspaceEdgeRows ws v facts)\<rparr>
    = draftStore ws v T new nodes' edges' db"
    and "extension_ok ws v S new nodes' edges'"
    and "map wn_node nodes' = insertOrIgnore node_ID (map wn_node nodes) (facts_Nodes facts)"
    and "map (\<lambda>r. (we_edge r, we_owner r)) edges' = insertOrIgnore (\<lambda>(e, owner). edgeColumns e) (map (\<lambda>r. (we_edge r, we_owner r)) edges)
      (map (\<lambda>e. (e, span_Path (ev_Span (edge_Evidence e)))) (facts_Edges facts))"
proof -
  have nrow: "wn_workspace r = ws \<and> wn_version r = v" if "r \<in> set (workspaceNodeRows ws v facts)" for r
    using that by (auto simp: workspaceNodeRows_def)
  have erow: "we_workspace r = ws \<and> we_version r = v" if "r \<in> set (workspaceEdgeRows ws v facts)" for r
    using that by (auto simp: workspaceEdgeRows_def)
  have "insertOrIgnore nodeKey (db_workspace_nodes db @ nodes) (workspaceNodeRows ws v facts) = db_workspace_nodes db @ nodes'"
    unfolding nodes'_def by (rule insertOrIgnore_new) (use nodes_fresh[OF wf v] nrow in blast)
  moreover have "insertOrIgnore edgeRowKey (db_workspace_edges db @ edges) (workspaceEdgeRows ws v facts) = db_workspace_edges db @ edges'"
    unfolding edges'_def by (rule insertOrIgnore_new) (use edges_fresh[OF wf v] erow in blast)
  ultimately show "(draftStore ws v T new nodes edges db)\<lparr>
      db_workspace_nodes := insertOrIgnore nodeKey (db_workspace_nodes (draftStore ws v T new nodes edges db)) (workspaceNodeRows ws v facts),
      db_workspace_edges := insertOrIgnore edgeRowKey (db_workspace_edges (draftStore ws v T new nodes edges db)) (workspaceEdgeRows ws v facts)\<rparr>
    = draftStore ws v T new nodes' edges' db"
    by (intro draft_eqI) simp_all
  have "\<forall>r\<in>set nodes'. wn_workspace r = ws \<and> wn_version r = v"
    using set_insertOrIgnore[of nodeKey nodes] extension_okD(3)[OF ext] nrow unfolding nodes'_def by blast
  moreover have "\<forall>r\<in>set edges'. we_workspace r = ws \<and> we_version r = v"
    using set_insertOrIgnore[of edgeRowKey edges] extension_okD(5)[OF ext] erow unfolding edges'_def by blast
  moreover have "distinct (map nodeKey nodes')" "distinct (map edgeRowKey edges')"
    unfolding nodes'_def edges'_def by (intro insertOrIgnore_distinct extension_okD(4,6)[OF ext])+
  ultimately show "extension_ok ws v S new nodes' edges'" using ext unfolding extension_ok_def by blast
  let ?mk = "\<lambda>n. \<lparr>wn_workspace = ws, wn_version = v, wn_node = n\<rparr>"
  have "nodes = map ?mk (map wn_node nodes)" using extension_okD(3)[OF ext] by (simp add: map_idI)
  then have "nodes' = map ?mk (insertOrIgnore node_ID (map wn_node nodes) (facts_Nodes facts))"
    using insertOrIgnore_mapped[of nodeKey ?mk node_ID "map wn_node nodes" "facts_Nodes facts"]
    unfolding nodes'_def workspaceNodeRows_def by (simp add: nodeKey_def)
  then show "map wn_node nodes' = insertOrIgnore node_ID (map wn_node nodes) (facts_Nodes facts)" by (simp add: o_def)
  let ?mke = "\<lambda>p. \<lparr>we_workspace = ws, we_version = v, we_edge = fst p, we_owner = snd p\<rparr>"
  let ?facts = "map (\<lambda>e. (e, span_Path (ev_Span (edge_Evidence e)))) (facts_Edges facts)"
  have "edges = map ?mke (map (\<lambda>r. (we_edge r, we_owner r)) edges)" using extension_okD(5)[OF ext] by (simp add: map_idI)
  moreover have "workspaceEdgeRows ws v facts = map ?mke ?facts" by (simp add: workspaceEdgeRows_def)
  ultimately have "edges' = map ?mke (insertOrIgnore (\<lambda>(e, owner). edgeColumns e) (map (\<lambda>r. (we_edge r, we_owner r)) edges) ?facts)"
    using insertOrIgnore_mapped[of edgeRowKey ?mke "\<lambda>(e, owner). edgeColumns e" "map (\<lambda>r. (we_edge r, we_owner r)) edges" ?facts]
    unfolding edges'_def by (simp add: edgeRowKey_def case_prod_beta)
  then show "map (\<lambda>r. (we_edge r, we_owner r)) edges' = insertOrIgnore (\<lambda>(e, owner). edgeColumns e)
      (map (\<lambda>r. (we_edge r, we_owner r)) edges) ?facts" by (simp add: o_def)
qed

lemma facts_rel:
  assumes wf: "wf_store db" and rel: "session_rel db s a" and opened: "\<not> se_closed s" and vl: "16 \<le> cfg_variableLimit store"
    and c: "sessionCall store (CallWriteWorkspaceFacts facts) s = (None, s')"
  shows "session_rel db s' (specCall (CallWriteWorkspaceFacts facts) a)"
proof -
  let ?ws = "se_workspace s" and ?v = "se_pendingVersion s" and ?a = "specCall (CallWriteWorkspaceFacts facts) a"
  let ?S = "closedSources a (se_missingSourcesClosed s)"
  have sealed: "se_sealed s" using c opened by (auto simp: WriteWorkspaceFacts_def split: if_splits)
  obtain d where store: "storeWorkspaceFacts (cfg_variableLimit store) (cfg_workspaceFactBatchLimits store) ?ws ?v facts (se_database s) = Inr d"
    and s': "s' = s\<lparr>se_database := d, se_workspaceFactsWritten := True\<rparr>"
    using c opened sealed by (auto simp: WriteWorkspaceFacts_def split: if_splits sum.splits)
  have v: "?v = currentVersion db ?ws + 1" using rel by (simp add: session_rel_def session_flags_def)
  from rel obtain new nodes edges where x: "extension_ok ?ws ?v (dom (spec_written a)) new nodes edges" "content_ok a new nodes edges"
    "se_database s = draftStore ?ws ?v ?S new nodes edges db"
    by (rule session_relD) (simp add: sealed_database[OF rel sealed])
  let ?nodes = "insertOrIgnore nodeKey nodes (workspaceNodeRows ?ws ?v facts)" and ?edges = "insertOrIgnore edgeRowKey edges (workspaceEdgeRows ?ws ?v facts)"
  note f = facts_draft(2-4)[OF wf v x(1), of facts]
  have d: "d = draftStore ?ws ?v ?S new ?nodes ?edges db"
    using storeWorkspaceFacts_Inr[OF vl store] facts_draft(1)[OF wf v x(1), where facts = facts and T = ?S] unfolding x(3) by simp
  have "content_ok ?a new ?nodes ?edges" using x(2) f(2,3) by (simp add: content_ok_def)
  moreover have "closedSources ?a b = closedSources a b" for b by (simp add: closedSources_def)
  ultimately have "session_draft db s' ?a d" using f(1) d by (intro session_draftI) (simp_all add: s')
  moreover have ins: "pb_insertions (se_batch s) = (\<lambda>_. [])" using sealed_database[OF rel sealed] by simp
  moreover have "session_flags db s' ?a"
    using rel ins by (simp add: session_rel_def session_flags_def s' batch_ok_def pendingSources_def)
  ultimately show ?thesis by (simp add: session_rel_def s' commitPending_empty[OF ins])
qed

lemma closeMissing_map:
  "closeContributionsMissingFromStagedSources ws v staged db = mapTables (\<lambda>_. map (closeMissingRow ws v staged)) db"
  unfolding closeContributionsMissingFromStagedSources_def by (rule fold_all_tables) simp_all

lemma closeMissing_draft:
  assumes ext: "extension_ok ws v W new nodes edges" and W: "W \<subseteq> fst ` set staged"
  shows "closeContributionsMissingFromStagedSources ws v staged (draftStore ws v W new nodes edges db)
    = draftStore ws v (W \<union> - (fst ` set staged)) new nodes edges db"
proof (rule draft_eqI)
  fix t
  have "closeMissingRow ws v staged r = r" if "r \<in> set (new t)" for r
    using freshRowsD[OF extension_okD(1)[OF ext] that] W by (auto simp: closeMissingRow_def)
  then have "map (closeMissingRow ws v staged) (new t) = new t" by (intro map_idI)
  moreover have "closeMissingRow ws v staged (closedRow ws v W r) = closedRow ws v (W \<union> - (fst ` set staged)) r" for r
    using W by (auto simp: closeMissingRow_def closedRow_def)
  ultimately show "db_rows (closeContributionsMissingFromStagedSources ws v staged (draftStore ws v W new nodes edges db)) t
      = map (closedRow ws v (W \<union> - (fst ` set staged))) (db_rows db t) @ new t"
    by (simp add: closeMissing_map)
qed (simp_all add: closeMissing_map)

lemma closeMissing_rel:
  assumes wf: "wf_store db" and rel: "session_rel db s a" and sealed: "se_sealed s"
  shows "session_rel db (closeMissingSources s) a"
proof (cases "se_missingSourcesClosed s")
  case True
  then show ?thesis using rel by (simp add: closeMissingSources_def)
next
  case False
  let ?ws = "se_workspace s" and ?v = "se_pendingVersion s" and ?W = "dom (spec_written a)"
  have ins: "pb_insertions (se_batch s) = (\<lambda>_. [])" using sealed_database[OF rel sealed] by simp
  have fl: "?v = currentVersion db ?ws + 1" "spec_staged a = fst ` set (se_staged s)" "?W \<subseteq> fst ` set (se_staged s)"
    using rel by (force simp: session_rel_def session_flags_def)+
  from rel obtain new nodes edges where x: "extension_ok ?ws ?v ?W new nodes edges" "content_ok a new nodes edges"
    "se_database s = draftStore ?ws ?v ?W new nodes edges db"
    by (rule session_relD) (simp add: sealed_database[OF rel sealed] False closedSources_def)
  let ?T = "closedSources a True"
  have T: "?T = ?W \<union> - (fst ` set (se_staged s))" by (simp add: closedSources_def fl(2))
  have "draftStore ?ws ?v ?W new nodes edges db = draftStore ?ws ?v ?T new nodes edges db" if "?v = 1"
  proof (rule draft_eqI)
    fix t
    have "closedRow ?ws ?v S r = r" if "r \<in> set (db_rows db t)" for r S
      using rows_before[OF wf fl(1), of t] that \<open>?v = 1\<close> by (fastforce simp: closedRow_def)
    then show "db_rows (draftStore ?ws ?v ?W new nodes edges db) t = map (closedRow ?ws ?v ?T) (db_rows db t) @ new t"
      by (simp cong: map_cong)
  qed simp_all
  then have d: "se_database (closeMissingSources s) = draftStore ?ws ?v ?T new nodes edges db"
    using x(3) closeMissing_draft[OF x(1) fl(3), of db] False by (simp add: closeMissingSources_def T)
  obtain d' where s': "closeMissingSources s = s\<lparr>se_database := d', se_missingSourcesClosed := True\<rparr>"
  proof (cases "?v = 1")
    case True
    then have "closeMissingSources s = s\<lparr>se_database := se_database s, se_missingSourcesClosed := True\<rparr>"
      using False by (simp add: closeMissingSources_def)
    then show ?thesis by (rule that)
  qed (use False that in \<open>simp add: closeMissingSources_def\<close>)
  have d': "d' = draftStore ?ws ?v ?T new nodes edges db" using d by (simp add: s')
  have "session_draft db (closeMissingSources s) a d'"
    by (rule session_draftI[of _ _ new nodes edges]) (use x d' in \<open>simp_all add: s'\<close>)
  moreover have "session_flags db (closeMissingSources s) a"
    using rel ins sealed by (simp add: s' session_rel_def session_flags_def batch_ok_def pendingSources_def)
  ultimately show ?thesis by (simp add: session_rel_def s' commitPending_empty[OF ins])
qed

lemma session_rel_factsSealed [simp]: "session_rel db (s\<lparr>se_workspaceFactsSealed := b\<rparr>) a = session_rel db s a"
  by (simp add: session_rel_def session_flags_def session_draft_def)

lemma seal_facts_rel:
  assumes "wf_store db" "session_rel db s a" "\<not> se_closed s" "sessionCall store CallSealWorkspaceFacts s = (None, s')"
  shows "session_rel db s' a"
  using assms closeMissing_rel[OF assms(1,2)] by (auto simp: SealWorkspaceFacts_def Let_def split: if_splits)

subsection \<open>Every reachable session\<close>

lemma sessionCall_workspace: "sessionCall store c s = (r, s') \<Longrightarrow> se_workspace s' = se_workspace s"
  by (cases c) (auto simp: StageSource_def WriteContribution_def SealContributions_def ReplaceContributionDependencies_def
      WriteWorkspaceFacts_def SealWorkspaceFacts_def RollbackSession_def closeMissingSources_def Let_def
      split: if_splits sum.splits option.splits)

lemma sessionCall_rel:
  assumes "wf_store db" "16 \<le> cfg_variableLimit store" "session_rel db s a" "\<not> se_closed s" "sessionCall store c s = (None, s')"
  shows "se_closed s' \<or> session_rel db s' (specCall c a)"
proof (cases c)
  case CallRollback
  then show ?thesis using assms(5) by (auto simp: RollbackSession_def)
next
  case (CallStageSource p)
  with stage_rel[OF assms(3,4)] assms(5) show ?thesis by blast
next
  case (CallWriteContribution d)
  with write_rel[OF assms(1,3,4)] assms(5) show ?thesis by blast
next
  case CallSealContributions
  with seal_rel[OF assms(3,4)] assms(5) show ?thesis by (simp del: sessionCall.simps)
next
  case (CallReplaceDependencies cs)
  with replace_rel[OF assms(1,3,4,2)] assms(5) show ?thesis by blast
next
  case (CallWriteWorkspaceFacts facts)
  with facts_rel[OF assms(1,3,4,2)] assms(5) show ?thesis by blast
next
  case CallSealWorkspaceFacts
  with seal_facts_rel[OF assms(1,3,4)] assms(5) show ?thesis by (simp del: sessionCall.simps)
qed

lemma session_reach_rel:
  assumes "session_reach store ws db s a" "wf_store db" "16 \<le> cfg_variableLimit store"
  shows "se_workspace s = ws \<and> (se_closed s \<or> session_rel db s a)"
  using assms(1)
proof induction
  case (begin_session s)
  then show ?case using begin_rel[OF begin_session assms(3)] by (auto simp: BeginContributionSession_def split: if_splits)
next
  case (call s a c s')
  show ?case
  proof (cases "se_closed s")
    case True
    then show ?thesis using call refused_call[of s c store] by (cases "c = CallRollback") (auto simp: RollbackSession_def)
  next
    case False
    then show ?thesis using call sessionCall_rel[OF assms(2,3)] sessionCall_workspace[OF call(2)] by blast
  qed
next
  case (failed s a c e s')
  then show ?case using failed_call[OF failed(2)] sessionCall_workspace[OF failed(2)] by (auto split: if_splits)
qed

subsection \<open>Commit\<close>

definition indexedView :: "UnicodeTables \<Rightarrow> VersionView \<Rightarrow> VersionView" where
  "indexedView u view = view\<lparr>view_derived := (\<lambda>_. [])(node_search := lexicalRows u (viewNodes view))\<rparr>"

lemma finished_extension:
  assumes wf: "wf_store db" and v: "v = currentVersion db ws + 1" and ext: "extension_ok ws v S new nodes edges"
    and fin: "finishPublication store ws v (extendedStore ws v now S new nodes edges db) = Inr db'"
  shows "wf_store db'" "currentVersion db' = (currentVersion db)(ws := v)"
    "storeView db' = (\<lambda>(w, u).
      if w = ws \<and> u = v then Some (indexedView (cfg_unicode store) (versionView (extendedStore ws v now S new nodes edges db) ws v))
      else if w = ws \<and> u < retentionBoundary v then None else storeView db (w, u))"
proof -
  let ?W = "extendedStore ws v now S new nodes edges db" and ?R = "retainedStore ws v (extendedStore ws v now S new nodes edges db)"
  note wfW = extended_wf_store[OF wf v ext]
  have db': "db' = rebuildLexicalSnapshot (cfg_unicode store) ws v ?R"
    and ok: "v > retainedGraphVersions \<Longrightarrow> recorded ?W ws (retentionBoundary v)"
    using fin unfolding finishPublication_cases[OF wfW] by (auto simp: Let_def split: if_splits)
  note R = retained_props[OF wfW ok]
  have cur: "currentVersion ?R = (currentVersion db)(ws := v)" using R(2) current_extended[OF v] by simp
  show "wf_store db'" unfolding db' using R(1) v cur by (intro rebuild_wf) auto
  show "currentVersion db' = (currentVersion db)(ws := v)" unfolding db' using cur by simp
  have bound: "retentionBoundary v \<le> v" by (auto simp: retentionBoundary_def retainedGraphVersions_def)
  have recR: "recorded ?R w u \<longleftrightarrow> (recorded db w u \<or> w = ws \<and> u = v) \<and> \<not> (w = ws \<and> u < retentionBoundary v)" for w u
    using fun_cong[OF R(3), of "(w, u)"] by (simp add: storeView_def split: if_splits)
  have viewR: "versionView ?R w u = versionView ?W w u" if "recorded ?R w u" for w u
    using fun_cong[OF R(3), of "(w, u)"] that by (simp add: storeView_def split: if_splits)
  have "storeView db' (w, u) = (if w = ws \<and> u = v then Some (indexedView (cfg_unicode store) (versionView ?W ws v))
      else if w = ws \<and> u < retentionBoundary v then None else storeView db (w, u))" for w u
  proof (cases "w = ws \<and> u = v")
    case True
    have "recorded ?R ws v" using recR bound by simp
    moreover have "view_derived (versionView ?W ws v) = (\<lambda>_. [])" by (simp add: extended_view_new[OF wf v ext])
    ultimately show ?thesis using True viewR[of ws v]
      by (simp add: db' storeView_def rebuild_view indexedView_def)
  next
    case False
    then have "recorded ?R w u \<Longrightarrow> versionView ?R w u = versionView db w u"
      using viewR extended_view_old[OF wf v ext] recR version_fresh[OF v, of u] by (metis not_le)
    then show ?thesis using False recR[of w u] by (auto simp: db' storeView_def rebuild_view)
  qed
  then show "storeView db' = (\<lambda>(w, u).
      if w = ws \<and> u = v then Some (indexedView (cfg_unicode store) (versionView ?W ws v))
      else if w = ws \<and> u < retentionBoundary v then None else storeView db (w, u))"
    by (simp add: fun_eq_iff)
qed

lemma extension_ok_mono: "extension_ok ws v S new nodes edges \<Longrightarrow> S \<subseteq> T \<Longrightarrow> extension_ok ws v T new nodes edges"
  unfolding extension_ok_def freshRows_def by blast

lemma commit_shape:
  assumes wf: "wf_store db" and vl: "16 \<le> cfg_variableLimit store" and rel: "session_rel db s a" and opened: "\<not> se_closed s"
    and sealed: "se_workspaceFactsWritten s \<longrightarrow> se_workspaceFactsSealed s"
  defines "ws \<equiv> se_workspace s"
  defines "v \<equiv> currentVersion db ws + 1"
  obtains new nodes edges where "extension_ok ws v (closedSources a True) new nodes edges" "content_ok a new nodes edges"
    "fst (Commit store now s) = res_map (\<lambda>db'. (\<lparr>snap_Workspace = ws, snap_Version = v, snap_PublishedAt = now\<rparr>, db'))
      (finishPublication store ws v (extendedStore ws v now (closedSources a True) new nodes edges db))"
proof -
  have pv: "se_pendingVersion s = v" using rel by (simp add: session_rel_def session_flags_def v_def ws_def)
  have "batch_ok (se_batch s, se_database s) []" using rel by (simp add: session_rel_def session_flags_def)
  from flushBatch_ok[OF this] obtain b d where f: "flushBatch (se_batch s, se_database s) = Inr (b, d)" by auto
  let ?s1 = "s\<lparr>se_batch := b, se_database := d\<rparr>" and ?s2 = "s\<lparr>se_batch := b, se_database := d, se_sealed := True\<rparr>"
  define D where "D = se_database (closeMissingSources ?s1)"
  have D: "se_database (closeMissingSources ?s2) = D" by (simp add: D_def closeMissingSources_def)
  have keep: "se_workspace (closeMissingSources ?s1) = ws" "se_pendingVersion (closeMissingSources ?s1) = v"
    by (simp_all add: closeMissingSources_def ws_def pv)
  have keep2: "se_workspace (closeMissingSources ?s2) = ws" "se_pendingVersion (closeMissingSources ?s2) = v"
    "se_missingSourcesClosed (closeMissingSources ?s2)" "se_sealed (closeMissingSources ?s2)"
    by (simp_all add: closeMissingSources_def ws_def pv)
  have rel2: "session_rel db (closeMissingSources ?s2) a" by (rule closeMissing_rel[OF wf flush_rel[OF rel f]]) simp
  obtain new nodes edges where x: "extension_ok ws v (dom (spec_written a)) new nodes edges" "content_ok a new nodes edges"
    "D = draftStore ws v (closedSources a True) new nodes edges db"
  proof (rule session_relD[OF rel2])
    have cp: "commitPending (se_batch (closeMissingSources ?s2), D) = D" using sealed_database(1)[OF rel2 keep2(4)] by (simp add: D)
    fix new nodes edges
    assume "extension_ok (se_workspace (closeMissingSources ?s2)) (se_pendingVersion (closeMissingSources ?s2)) (dom (spec_written a)) new nodes edges"
      "content_ok a new nodes edges" "commitPending (se_batch (closeMissingSources ?s2), se_database (closeMissingSources ?s2))
        = draftStore (se_workspace (closeMissingSources ?s2)) (se_pendingVersion (closeMissingSources ?s2))
            (closedSources a (se_missingSourcesClosed (closeMissingSources ?s2))) new nodes edges db"
    then show ?thesis unfolding keep2(1,2) D cp using keep2(3) by (intro that) simp_all
  qed
  have "findVersion D = findVersion db" "currentVersion D = currentVersion db"
    by (simp_all add: x(3) findVersion_def currentVersion_def workspaceVersions_def fun_eq_iff)
  then have "insertVersion store ws v now D = Inr (D\<lparr>db_graph_versions := db_graph_versions D @ [\<lparr>gv_workspace = ws, gv_version = v, gv_publishedAt = now\<rparr>]\<rparr>)"
    by (intro insertVersion_ok[OF _ vl]) (simp add: v_def)
  moreover have "D\<lparr>db_graph_versions := db_graph_versions D @ [\<lparr>gv_workspace = ws, gv_version = v, gv_publishedAt = now\<rparr>]\<rparr>
      = extendedStore ws v now (closedSources a True) new nodes edges db"
    by (simp add: x(3) draftStore_def extendedStore_def)
  ultimately have "fst (Commit store now s) = res_map (\<lambda>db'. (\<lparr>snap_Workspace = ws, snap_Version = v, snap_PublishedAt = now\<rparr>, db'))
      (finishPublication store ws v (extendedStore ws v now (closedSources a True) new nodes edges db))"
    using opened sealed f by (auto simp: Commit_def keep D_def[symmetric] Let_def failSession_def split: sum.splits)
  moreover have "extension_ok ws v (closedSources a True) new nodes edges"
    by (rule extension_ok_mono[OF x(1)]) (simp add: closedSources_def)
  ultimately show ?thesis using that x(2) by blast
qed

text \<open>C2: A committed session publishes exactly what it staged and wrote: whatever calls it made, in any
  order, some of them failing, and whatever the batch limits, the commit adds one version that shows
  for every table the rows of the written contributions with their latest dependencies, the previous
  rows of the sources that were staged but not written again, and nothing of sources that were not
  staged; the workspace facts are those of the written pages, the lexical index is that of the nodes
  shown, and every other version shows what it showed.\<close>

theorem commit_publishes_the_session:
  assumes "wf_store db" "16 \<le> cfg_variableLimit store" "session_reach store ws db s a" "fst (Commit store now s) = Inr (sn, db')"
  shows "let v = currentVersion db ws + 1; prev = versionView db ws (currentVersion db ws) in
    sn = \<lparr>snap_Workspace = ws, snap_Version = v, snap_PublishedAt = now\<rparr> \<and> wf_store db' \<and> currentVersion db' = (currentVersion db)(ws := v)
    \<and> (\<exists>view. storeView db' = (\<lambda>(w, u). if w = ws \<and> u = v then Some (indexedView (cfg_unicode store) view)
          else if w = ws \<and> u < retentionBoundary v then None else storeView db (w, u))
        \<and> (\<forall>t. set (view_rows view t) =
            {(source, d) \<in> set (view_rows prev t). source \<in> spec_staged a \<and> spec_written a source = None}
            \<union> {(source, d). \<exists>rows. spec_written a source = Some rows \<and> d \<in> rows t})
        \<and> view_nodes view = spec_nodes a \<and> view_edges view = spec_edges a)"
proof -
  let ?v = "currentVersion db ws + 1" and ?S = "closedSources a True"
  note reach = session_reach_rel[OF assms(3,1,2)]
  have opened: "\<not> se_closed s" and ready: "se_workspaceFactsWritten s \<longrightarrow> se_workspaceFactsSealed s"
    using assms(4) by (auto simp: Commit_def split: if_splits)
  have rel: "session_rel db s a" and ws: "se_workspace s = ws" using reach opened by auto
  from commit_shape[OF assms(1,2) rel opened ready, of now, unfolded ws] obtain new nodes edges where
    x: "extension_ok ws ?v ?S new nodes edges" "content_ok a new nodes edges"
    "fst (Commit store now s) = res_map (\<lambda>db'. (\<lparr>snap_Workspace = ws, snap_Version = ?v, snap_PublishedAt = now\<rparr>, db'))
      (finishPublication store ws ?v (extendedStore ws ?v now ?S new nodes edges db))" by blast
  then have "res_map (\<lambda>db'. (\<lparr>snap_Workspace = ws, snap_Version = ?v, snap_PublishedAt = now\<rparr>, db'))
      (finishPublication store ws ?v (extendedStore ws ?v now ?S new nodes edges db)) = Inr (sn, db')" using assms(4) by metis
  then have sn: "sn = \<lparr>snap_Workspace = ws, snap_Version = ?v, snap_PublishedAt = now\<rparr>"
    and fin: "finishPublication store ws ?v (extendedStore ws ?v now ?S new nodes edges db) = Inr db'"
    unfolding res_map_Inr by blast+
  let ?view = "versionView (extendedStore ws ?v now ?S new nodes edges db) ws ?v"
  note f = finished_extension[OF assms(1) refl x(1) fin]
  note view = extended_view_new[OF assms(1) refl x(1), of now]
  have "set (view_rows ?view t) = {(source, d) \<in> set (view_rows (versionView db ws (currentVersion db ws)) t).
          source \<in> spec_staged a \<and> spec_written a source = None}
      \<union> {(source, d). \<exists>rows. spec_written a source = Some rows \<and> d \<in> rows t}" for t
  proof -
    have "set (view_rows ?view t) = {(source, d) \<in> set (view_rows (versionView db ws (currentVersion db ws)) t). source \<notin> ?S}
        \<union> shown ` set (new t)" unfolding view by auto
    moreover have "shown ` set (new t) = {(source, d). \<exists>rows. spec_written a source = Some rows \<and> d \<in> rows t}"
      using x(2) unfolding content_ok_def by blast
    moreover have "source \<notin> ?S \<longleftrightarrow> source \<in> spec_staged a \<and> spec_written a source = None" for source
      by (auto simp: closedSources_def)
    ultimately show ?thesis by simp
  qed
  moreover have "view_nodes ?view = spec_nodes a" "view_edges ?view = spec_edges a"
    using x(2) unfolding view content_ok_def by simp_all
  ultimately show ?thesis unfolding Let_def using sn f by blast
qed

text \<open>A session fails to commit in exactly three ways: out of order, when it is closed or its workspace
  facts are written and not sealed, which changes nothing; when the retention boundary is not a
  recorded version; and when the database would exceed its budget.  The last two close the session.\<close>

theorem commit_fails_exactly:
  assumes "wf_store db" "16 \<le> cfg_variableLimit store" "session_reach store ws db s a"
  shows "let v = currentVersion db ws + 1; r = Commit store now s in
    (fst r = Inl ErrInvalidRequest \<longleftrightarrow> se_closed s \<or> se_workspaceFactsWritten s \<and> \<not> se_workspaceFactsSealed s)
    \<and> (fst r = Inl ErrInvalidRequest \<longrightarrow> snd r = s) \<and> (fst r \<noteq> Inl ErrInvalidRequest \<longrightarrow> se_closed (snd r))
    \<and> (fst r = Inl ErrGraphVersionNotFound \<longleftrightarrow> fst r \<noteq> Inl ErrInvalidRequest \<and> v > 25 \<and> \<not> recorded db ws (v - 24))
    \<and> (\<forall>e. fst r = Inl e \<longrightarrow> e \<noteq> ErrInvalidRequest \<longrightarrow> e \<noteq> ErrGraphVersionNotFound \<longrightarrow> (\<exists>text. e = ErrDatabase text))"
proof (cases "se_closed s \<or> se_workspaceFactsWritten s \<and> \<not> se_workspaceFactsSealed s")
  case True
  then have "Commit store now s = (Inl ErrInvalidRequest, s)" by (auto simp: Commit_def)
  then show ?thesis using True by (simp add: Let_def)
next
  case False
  let ?v = "currentVersion db ws + 1" and ?S = "closedSources a True"
  have rel: "session_rel db s a" and ws: "se_workspace s = ws" using session_reach_rel[OF assms(3,1,2)] False by auto
  have opened: "\<not> se_closed s" "se_workspaceFactsWritten s \<longrightarrow> se_workspaceFactsSealed s" using False by auto
  from commit_shape[OF assms(1,2) rel opened, of now, unfolded ws] obtain new nodes edges where
    x: "extension_ok ws ?v ?S new nodes edges"
    "fst (Commit store now s) = res_map (\<lambda>db'. (\<lparr>snap_Workspace = ws, snap_Version = ?v, snap_PublishedAt = now\<rparr>, db'))
      (finishPublication store ws ?v (extendedStore ws ?v now ?S new nodes edges db))" by blast
  let ?W = "extendedStore ws ?v now ?S new nodes edges db"
  note cases = finishPublication_cases[OF extended_wf_store[OF assms(1) refl x(1), of now], of store ws ?v]
  have b: "?v > retainedGraphVersions \<Longrightarrow> retentionBoundary ?v = ?v - 24 \<and> ?v - 24 \<noteq> ?v"
    by (simp add: retentionBoundary_def retainedGraphVersions_def) arith
  have rec: "?v > retainedGraphVersions \<Longrightarrow> recorded ?W ws (retentionBoundary ?v) \<longleftrightarrow> recorded db ws (?v - 24)"
    using b by (simp add: retainedGraphVersions_def)
  have budget: "ensureDatabaseBudget store d = None \<or> (\<exists>t. ensureDatabaseBudget store d = Some (ErrDatabase t))" for d
    by (auto simp: ensureDatabaseBudget_def err_if_def split: prod.splits)
  obtain r where r: "r = finishPublication store ws ?v ?W" by blast
  have kinds: "(r = Inl ErrGraphVersionNotFound \<longleftrightarrow> ?v > 25 \<and> \<not> recorded db ws (?v - 24))
      \<and> (\<forall>e. r = Inl e \<longrightarrow> e = ErrGraphVersionNotFound \<or> (\<exists>text. e = ErrDatabase text))"
    unfolding r cases using rec budget[of "rebuildLexicalSnapshot (cfg_unicode store) ws ?v (retainedStore ws ?v ?W)"]
    by (auto simp: Let_def res_of_err_def retainedGraphVersions_def)
  have f: "fst (Commit store now s) = res_map (\<lambda>db'. (\<lparr>snap_Workspace = ws, snap_Version = ?v, snap_PublishedAt = now\<rparr>, db')) r"
    using x(2) r by simp
  have closed: "se_closed (snd (Commit store now s))"
    using opened by (auto simp: Commit_def failSession_def closeMissingSources_def Let_def split: sum.splits)
  show ?thesis
  proof (cases r)
    case (Inl e)
    then have "fst (Commit store now s) = Inl e" using f by simp
    then show ?thesis using kinds Inl closed False by (auto simp: Let_def)
  next
    case (Inr d)
    then have "\<exists>y. fst (Commit store now s) = Inr y" using f by simp
    then show ?thesis using kinds Inr closed False by (auto simp: Let_def)
  qed
qed

subsection \<open>A sample session\<close>

lemma sample_session:
  obtains s where "session_reach sample_config ''w'' sample_store s (specCall (CallStageSource ''b.go'') emptySpec)"
    "\<not> se_closed s" "\<not> se_workspaceFactsWritten s"
proof -
  obtain s0 where s0: "BeginContributionSession sample_config ''w'' sample_store = Inr s0" "\<not> se_closed s0" "\<not> se_sealed s0"
    "se_staged s0 = []" "\<not> se_workspaceFactsWritten s0"
    by (simp add: BeginContributionSession_def)
  let ?s1 = "s0\<lparr>se_staged := [(''b.go'', False)]\<rparr>"
  have "sessionCall sample_config (CallStageSource ''b.go'') s0 = (None, ?s1)" using s0 by (simp add: StageSource_def)
  from session_reach.call[OF session_reach.begin_session[OF s0(1)] this] show ?thesis by (rule that) (simp_all add: s0)
qed

lemma sample_commit:
  assumes "session_reach sample_config ''w'' sample_store s a" "\<not> se_closed s" "\<not> se_workspaceFactsWritten s"
  shows "\<exists>sn db'. fst (Commit sample_config 30 s) = Inr (sn, db')"
proof -
  have rel: "session_rel sample_store s a" and ws: "se_workspace s = ''w''"
    using session_reach_rel[OF assms(1) sample_store_wf sample_limit] assms(2) by auto
  have cur: "currentVersion sample_store ''w'' = 2" by (rule sample_store_current)
  from commit_shape[OF sample_store_wf sample_limit rel assms(2), of 30, unfolded ws cur] assms(3) obtain new nodes edges where
    x: "extension_ok ''w'' (2 + 1) (closedSources a True) new nodes edges"
    "fst (Commit sample_config 30 s) = res_map (\<lambda>db'. (\<lparr>snap_Workspace = ''w'', snap_Version = 2 + 1, snap_PublishedAt = 30\<rparr>, db'))
      (finishPublication sample_config ''w'' (2 + 1) (extendedStore ''w'' (2 + 1) 30 (closedSources a True) new nodes edges sample_store))"
    by blast
  have budget: "ensureDatabaseBudget sample_config d = None" for d by (simp add: ensureDatabaseBudget_def sample_config_def)
  have "wf_store (extendedStore ''w'' (2 + 1) 30 (closedSources a True) new nodes edges sample_store)"
    by (rule extended_wf_store[OF sample_store_wf _ x(1)]) (simp only: cur)
  from finishPublication_cases[OF this, of sample_config "''w''" "2 + 1"] show ?thesis
    unfolding x(2) by (simp add: retainedGraphVersions_def Let_def res_of_err_def budget)
qed

theorem commit_publishes_the_session_witness:
  "\<exists>s sn db' view. fst (Commit sample_config 30 s) = Inr (sn, db') \<and> currentVersion db' ''w'' = 3
    \<and> storeView db' (''w'', 3) = Some view
    \<and> set (view_rows view contribution_nodes)
      = {(source, d) \<in> set (view_rows (versionView sample_store ''w'' 2) contribution_nodes). source = ''b.go''}"
proof -
  obtain s where s: "session_reach sample_config ''w'' sample_store s (specCall (CallStageSource ''b.go'') emptySpec)"
    "\<not> se_closed s" "\<not> se_workspaceFactsWritten s" by (rule sample_session)
  from sample_commit[OF this] obtain sn db' where c: "fst (Commit sample_config 30 s) = Inr (sn, db')" by blast
  have cur: "currentVersion sample_store ''w'' = 2" by (rule sample_store_current)
  define a where "a = specCall (CallStageSource ''b.go'') emptySpec"
  have a: "spec_staged a = {''b.go''}" "spec_written a = Map.empty" by (simp_all add: a_def emptySpec_def)
  from commit_publishes_the_session[OF sample_store_wf sample_limit s(1)[folded a_def] c, unfolded cur Let_def] obtain view where
    v: "currentVersion db' = (currentVersion sample_store)(''w'' := 2 + 1)"
    "storeView db' = (\<lambda>(w, u). if w = ''w'' \<and> u = 2 + 1 then Some (indexedView (cfg_unicode sample_config) view)
          else if w = ''w'' \<and> u < retentionBoundary (2 + 1) then None else storeView sample_store (w, u))"
    "set (view_rows view contribution_nodes) = {(source, d) \<in> set (view_rows (versionView sample_store ''w'' 2) contribution_nodes).
        source \<in> spec_staged a \<and> spec_written a source = None}
      \<union> {(source, d). \<exists>rows. spec_written a source = Some rows \<and> d \<in> rows contribution_nodes}"
    by blast
  have rows: "set (view_rows view contribution_nodes) = {(source, d) \<in> set (view_rows (versionView sample_store ''w'' 2) contribution_nodes).
      source = ''b.go''}" unfolding v(3) a by simp
  let ?view = "indexedView (cfg_unicode sample_config) view"
  have "view_rows ?view = view_rows view" by (simp add: indexedView_def)
  moreover have "currentVersion db' ''w'' = 3" "storeView db' (''w'', 3) = Some ?view" by (simp_all add: v(1,2))
  ultimately show ?thesis using c rows by (intro exI[of _ s] exI[of _ sn] exI[of _ db'] exI[of _ ?view]) simp
qed

theorem commit_fails_exactly_witness:
  "\<exists>s. session_reach sample_config ''w'' sample_store s (specCall (CallStageSource ''b.go'') emptySpec)
    \<and> fst (Commit sample_config 30 s) \<noteq> Inl ErrInvalidRequest \<and> se_closed (snd (Commit sample_config 30 s))"
proof -
  obtain s where s: "session_reach sample_config ''w'' sample_store s (specCall (CallStageSource ''b.go'') emptySpec)"
    "\<not> se_closed s" "\<not> se_workspaceFactsWritten s" by (rule sample_session)
  from commit_fails_exactly[OF sample_store_wf sample_limit s(1), of 30] s show ?thesis by (auto simp: Let_def)
qed

end
