(* ===== verification/Lifecycle.thy ===== *)
theory Lifecycle
  imports Session
begin

text \<open>
  The life of a store: the databases that publications, sessions, rollbacks and prunes of any
  workspaces, in any order, make out of an empty one.
\<close>

inductive store_reach :: "StoreConfig \<Rightarrow> Database \<Rightarrow> bool" for store where
  opened: "store_reach store emptyDatabase"
| published: "\<lbrakk>store_reach store db; distinct schedule; set schedule = {..<length (gu_contributions (pub_Update request))};
    publish store schedule now request db = Inr (sn, db')\<rbrakk> \<Longrightarrow> store_reach store db'"
| committed: "\<lbrakk>store_reach store db; session_reach store ws db s a; Commit store now s = (Inr (sn, db'), s')\<rbrakk> \<Longrightarrow> store_reach store db'"
| rolled_back: "\<lbrakk>store_reach store db; Rollback request db = Inr (sn, db')\<rbrakk> \<Longrightarrow> store_reach store db'"
| pruned: "\<lbrakk>store_reach store db; Prune request db = Inr (n, db')\<rbrakk> \<Longrightarrow> store_reach store db'"

lemma publish_wf:
  assumes "wf_store db" "16 \<le> cfg_variableLimit store" "distinct schedule"
    "set schedule = {..<length (gu_contributions (pub_Update request))}" "publish store schedule now request db = Inr (sn, db')"
  shows "wf_store db'"
proof -
  let ?v = "currentVersion db (pub_Workspace request) + 1"
  have "validRequest request" "?v > retainedGraphVersions \<Longrightarrow> recorded db (pub_Workspace request) (retentionBoundary ?v)"
    "db' = publishedStore store ?v now request db"
    using assms(5) unfolding publish_outcome[OF assms(1-4) refl] by (auto split: if_splits)
  then show ?thesis using publishedStore_props(1)[OF assms(1) _ refl refl] by simp
qed

lemma commit_finished:
  assumes "wf_store db" "16 \<le> cfg_variableLimit store" "session_reach store ws db s a" "Commit store now s = (Inr (sn, db'), s')"
  obtains new nodes edges where "extension_ok ws (currentVersion db ws + 1) (closedSources a True) new nodes edges"
    "finishPublication store ws (currentVersion db ws + 1)
      (extendedStore ws (currentVersion db ws + 1) now (closedSources a True) new nodes edges db) = Inr db'"
    "snap_Version sn = currentVersion db ws + 1"
proof -
  have open_session: "\<not> se_closed s" "se_workspaceFactsWritten s \<longrightarrow> se_workspaceFactsSealed s"
    using assms(4) by (auto simp: Commit_def split: if_splits)
  have rel: "session_rel db s a" and ws: "se_workspace s = ws" using session_reach_rel[OF assms(3,1,2)] open_session(1) by auto
  from commit_shape[OF assms(1,2) rel open_session, of now, unfolded ws] obtain new nodes edges where
    x: "extension_ok ws (currentVersion db ws + 1) (closedSources a True) new nodes edges"
    "fst (Commit store now s) = res_map (\<lambda>db'. (\<lparr>snap_Workspace = ws, snap_Version = currentVersion db ws + 1, snap_PublishedAt = now\<rparr>, db'))
      (finishPublication store ws (currentVersion db ws + 1)
        (extendedStore ws (currentVersion db ws + 1) now (closedSources a True) new nodes edges db))" by blast
  let ?snapshot = "\<lparr>snap_Workspace = ws, snap_Version = currentVersion db ws + 1, snap_PublishedAt = now\<rparr>"
  have "res_map (\<lambda>db'. (?snapshot, db')) (finishPublication store ws (currentVersion db ws + 1)
      (extendedStore ws (currentVersion db ws + 1) now (closedSources a True) new nodes edges db)) = Inr (sn, db')"
    using x(2) unfolding assms(4) fst_conv by (rule sym)
  then obtain d where d: "finishPublication store ws (currentVersion db ws + 1)
      (extendedStore ws (currentVersion db ws + 1) now (closedSources a True) new nodes edges db) = Inr d" "(sn, db') = (?snapshot, d)"
    unfolding res_map_Inr by (elim exE conjE)
  from d(2) have "d = db'" "snap_Version sn = currentVersion db ws + 1" by simp_all
  with x(1) d(1) show ?thesis using that by simp
qed

lemma commit_wf:
  assumes "wf_store db" "16 \<le> cfg_variableLimit store" "session_reach store ws db s a" "Commit store now s = (Inr (sn, db'), s')"
  shows "wf_store db'"
  by (rule commit_finished[OF assms]) (rule finished_extension(1)[OF assms(1) refl])

lemma rollback_wf:
  assumes "wf_store db" "Rollback request db = Inr (sn, db')"
  shows "wf_store db'"
  using rollback_keeps(2)[OF assms(1)] assms(2)
  by (cases request) (auto simp: Rollback_shape recorded_def split: if_splits option.splits)

lemma prune_wf:
  assumes "wf_store db" "Prune request db = Inr (n, db')"
  shows "wf_store db'"
  using prune_keeps(2)[OF assms(1)] assms(2)
  by (auto simp: Prune_def pruneVersions_shape[OF wf_store_rebase[OF assms(1)]] split: if_splits)

lemma store_reach_wf: "store_reach store db \<Longrightarrow> 16 \<le> cfg_variableLimit store \<Longrightarrow> wf_store db"
proof (induction rule: store_reach.induct)
  case opened
  then show ?case using wf_empty by blast
next
  case (published db schedule request now sn db')
  then show ?case using publish_wf by blast
next
  case (committed db ws s a now sn db' s')
  then show ?case using commit_wf by blast
next
  case (rolled_back db request sn db')
  then show ?case using rollback_wf by blast
next
  case (pruned db request n db')
  then show ?case using prune_wf by blast
qed

lemma visible_distinct:
  assumes wf: "wf_rows cur rows"
  shows "distinct (map (\<lambda>r. (row_source r, rowKey (row_data r))) (filter (visibleRow ws v) rows))"
proof -
  let ?vis = "filter (visibleRow ws v) rows"
  have "distinct (map rowPK ?vis)" using wf_rows_distinct[OF wf] by (rule distinct_map_filter)
  moreover have "row_from a = row_from b" if "a \<in> set ?vis" "b \<in> set ?vis" "row_source a = row_source b" for a b
  proof (rule ccontr)
    have not_less: "\<not> row_from x < row_from y" if "x \<in> set ?vis" "y \<in> set ?vis" "row_source x = row_source y" for x y
      using that wf_rowsD(4)[OF wf, of x y] by (auto simp: visibleRow_def)
    assume "row_from a \<noteq> row_from b"
    then show False using not_less[OF that] not_less[OF that(2,1) that(3)[symmetric]] by simp
  qed
  moreover have "row_workspace a = ws" if "a \<in> set ?vis" for a using that by (simp add: visibleRow_def)
  ultimately have "rowPK a = rowPK b" if "a \<in> set ?vis" "b \<in> set ?vis" "row_source a = row_source b" "rowKey (row_data a) = rowKey (row_data b)"
    for a b using that unfolding rowPK_def by metis
  then have "inj_on (\<lambda>r. (row_source r, rowKey (row_data r))) (set ?vis)"
    using \<open>distinct (map rowPK ?vis)\<close> unfolding distinct_map inj_on_def prod.inject by blast
  with \<open>distinct (map rowPK ?vis)\<close> show ?thesis unfolding distinct_map by blast
qed

text \<open>C5: The store stays consistent: whatever sequence of publications, sessions, rollbacks and prunes
  of any workspaces made it, the version intervals of a source never overlap and none reaches the
  current version, the primary keys hold, nothing is dated after the current version of its
  workspace, and no version shows two rows of one source with the same key in a table.\<close>

theorem store_stays_wellformed:
  assumes "store_reach store db" "16 \<le> cfg_variableLimit store"
  shows "wf_store db \<and> (\<forall>ws v t. distinct (map (\<lambda>(source, d). (source, rowKey d)) (view_rows (versionView db ws v) t)))"
proof -
  have wf: "wf_store db" using assms by (rule store_reach_wf)
  have "distinct (map (\<lambda>(source, d). (source, rowKey d)) (view_rows (versionView db ws v) t))" for ws v t
    using visible_distinct[OF wf_storeD(1)[OF wf], of ws v t] by (simp add: versionView_def visibleRows_def shown_def o_def)
  with wf show ?thesis by blast
qed

lemma sample_life: "store_reach sample_config (versionsStore 1 2)"
proof -
  have "publishTimes 2 emptyDatabase = Inr (versionsStore 1 2)" using publishTimes_empty[of 2] by simp
  have step: "store_reach sample_config db'" if "store_reach sample_config db" "publish sample_config [] now emptyRequest db = Inr (sn, db')" for db now sn db'
    using store_reach.published[OF that(1) _ _ that(2)] by simp
  have "store_reach sample_config db'" if "store_reach sample_config db" "publishTimes n db = Inr db'" for n db db'
    using that
  proof (induction n arbitrary: db)
    case (Suc n)
    then obtain sn d where "publish sample_config [] 0 emptyRequest db = Inr (sn, d)" "publishTimes n d = Inr db'"
      by (auto split: sum.splits)
    with Suc.IH step[OF Suc.prems(1)] show ?case by blast
  qed simp
  then show ?thesis using store_reach.opened \<open>publishTimes 2 emptyDatabase = Inr (versionsStore 1 2)\<close> by blast
qed

theorem store_stays_wellformed_witness:
  "store_reach sample_config (versionsStore 1 2) \<and> recorded (versionsStore 1 2) ''w'' 2 \<and> wf_store (versionsStore 1 2)"
  using store_stays_wellformed[OF sample_life sample_limit] sample_life by simp

end
