(* ===== verification/Resolution.thy ===== *)
theory Resolution
  imports Lifecycle
begin

text \<open>
  What resolvers read back from a snapshot (storage/sqlite/sqlite.go): the resolver projection of
  every source, the bounded cache of projections and its invalidation, and the sources affected by
  an update.  Reading is modelled on the tables; ORDER BY is a stable sort by the columns.  Sizes
  in bytes are integers.
\<close>

subsection \<open>Reading the rows of a source\<close>

definition sourceData :: "Database \<Rightarrow> Snapshot \<Rightarrow> ContributionTable \<Rightarrow> string \<Rightarrow> RowData list" where
  "sourceData db snapshot t sourcePath =
     map row_data (filter (\<lambda>r. row_source r = sourcePath) (visibleRows db (snap_Workspace snapshot) (snap_Version snapshot) t))"

record resolutionData =
  res_Extensions :: "string list"
  res_UnresolvedReferences :: "UnresolvedReference list"
  res_SymbolReferences :: "SymbolReference list"
  res_ExportedSurfaces :: "ExportedSurface list"
  res_Dependencies :: "Dependency list"
  res_Diagnostics :: "Diagnostic list"

definition readStrings :: "(RowData \<Rightarrow> string list) \<Rightarrow> RowData list \<Rightarrow> string list" where
  "readStrings column rows = sort (concat (map column rows))"

definition extensionColumn :: "RowData \<Rightarrow> string list" where
  "extensionColumn d = (case d of ExtensionRow e \<Rightarrow> [e] | _ \<Rightarrow> [])"

definition targetColumn :: "RowData \<Rightarrow> string list" where
  "targetColumn d = (case d of DependencyRow p \<Rightarrow> [p] | _ \<Rightarrow> [])"

definition readSurfaces :: "RowData list \<Rightarrow> ExportedSurface list" where
  "readSurfaces rows = sort_key (\<lambda>s. [es_NodeID s, es_Name s])
     (concat (map (\<lambda>d. case d of SurfaceRow i n \<Rightarrow> [\<lparr>es_NodeID = i, es_Name = n\<rparr>] | _ \<Rightarrow> []) rows))"

definition readContributionDiagnostics :: "RowData list \<Rightarrow> Diagnostic list" where
  "readContributionDiagnostics rows = sort_key (\<lambda>d. [dg_Severity d, dg_Message d])
     (concat (map (\<lambda>d. case d of DiagnosticRow s m \<Rightarrow> [\<lparr>dg_Severity = s, dg_Message = m\<rparr>] | _ \<Rightarrow> []) rows))"

definition readModuleBindings :: "RowData list \<Rightarrow> UnresolvedReference \<Rightarrow> ModuleBinding list" where
  "readModuleBindings rows reference = sort_key (\<lambda>b. [mb_ImportedName b, mb_ExportedName b, mb_LocalName b])
     (concat (map (\<lambda>d. case d of
         BindingRow s t k i x l \<Rightarrow> if s = ur_SourceID reference \<and> t = ur_Target reference \<and> k = ur_Kind reference
           then [\<lparr>mb_ImportedName = i, mb_ExportedName = x, mb_LocalName = l\<rparr>] else []
       | _ \<Rightarrow> []) rows))"

definition readUnresolvedReferences :: "RowData list \<Rightarrow> RowData list \<Rightarrow> UnresolvedReference list" where
  "readUnresolvedReferences rows bindingRows =
    (let references = sort_key (\<lambda>r. [ur_SourceID r, ur_Target r, ur_Kind r])
       (concat (map (\<lambda>d. case d of
           UnresolvedRow s t k a \<Rightarrow> [\<lparr>ur_SourceID = s, ur_Target = t, ur_Kind = k, ur_Ambiguous = a, ur_Bindings = []\<rparr>] | _ \<Rightarrow> []) rows))
     in map (\<lambda>r. r\<lparr>ur_Bindings := readModuleBindings bindingRows r\<rparr>) references)"

text \<open>The receiver type has no column: it is read as the empty string.\<close>

definition readSymbolReferences :: "RowData list \<Rightarrow> SymbolReference list" where
  "readSymbolReferences rows = sort_key (\<lambda>r. [sr_SourceID r, sr_Target r, sr_Relation r])
     (concat (map (\<lambda>d. case d of SymbolRow s t r e \<Rightarrow>
         [\<lparr>sr_SourceID = s, sr_Target = t, sr_ReceiverType = '''', sr_Relation = r, sr_Evidence = e\<rparr>] | _ \<Rightarrow> []) rows))"

definition storeResolutionDataForSource :: "Database \<Rightarrow> Snapshot \<Rightarrow> string \<Rightarrow> resolutionData" where
  "storeResolutionDataForSource db snapshot sourcePath =
    (let rows = (\<lambda>t. sourceData db snapshot t sourcePath) in
     \<lparr>res_Extensions = readStrings extensionColumn (rows contribution_extensions),
      res_UnresolvedReferences = readUnresolvedReferences (rows contribution_unresolved_references) (rows contribution_module_bindings),
      res_SymbolReferences = readSymbolReferences (rows contribution_symbol_references),
      res_ExportedSurfaces = readSurfaces (rows contribution_exported_surfaces),
      res_Dependencies = map (\<lambda>targetPath. \<lparr>dep_SourcePath = sourcePath, dep_TargetPath = targetPath\<rparr>)
        (readStrings targetColumn (rows contribution_dependencies)),
      res_Diagnostics = readContributionDiagnostics (rows contribution_diagnostics)\<rparr>)"

subsection \<open>Resolver projections\<close>

record ResolverProjection =
  rp_ProjectID :: string
  rp_SourcePath :: string
  rp_Metadata :: Metadata
  rp_Nodes :: "Node list"
  rp_Edges :: "Edge list"
  rp_UnresolvedReferences :: "UnresolvedReference list"
  rp_SymbolReferences :: "SymbolReference list"
  rp_ExportedSurfaces :: "ExportedSurface list"
  rp_Dependencies :: "Dependency list"
  rp_Diagnostics :: "Diagnostic list"

definition appendNodes :: "RowData list \<Rightarrow> Node list" where
  "appendNodes rows = sort_key node_ID (concat (map (\<lambda>d. case d of NodeRow n \<Rightarrow> [n] | _ \<Rightarrow> []) rows))"

definition appendEdges :: "RowData list \<Rightarrow> Edge list" where
  "appendEdges rows = sort_key (\<lambda>e. [edge_SourceID e, edge_TargetID e, edge_Relation e])
     (concat (map (\<lambda>d. case d of EdgeRow e \<Rightarrow> [e] | _ \<Rightarrow> []) rows))"

definition readProjection :: "UnicodeTables \<Rightarrow> Database \<Rightarrow> Snapshot \<Rightarrow> string \<times> string \<times> string \<times> string \<Rightarrow> StoreError + ResolverProjection" where
  "readProjection u db snapshot header =
    (case header of (sourcePath, projectID, name, version) \<Rightarrow>
       let data = storeResolutionDataForSource db snapshot sourcePath;
           metadata = \<lparr>md_Name = name, md_Version = version, md_Extensions = res_Extensions data\<rparr>
       in if validateMetadata u metadata \<noteq> None then Inl (ErrDatabase ''read resolver projection metadata'')
          else Inr \<lparr>rp_ProjectID = projectID, rp_SourcePath = sourcePath, rp_Metadata = metadata,
            rp_Nodes = appendNodes (sourceData db snapshot contribution_nodes sourcePath),
            rp_Edges = appendEdges (sourceData db snapshot contribution_edges sourcePath),
            rp_UnresolvedReferences = res_UnresolvedReferences data, rp_SymbolReferences = res_SymbolReferences data,
            rp_ExportedSurfaces = res_ExportedSurfaces data, rp_Dependencies = res_Dependencies data,
            rp_Diagnostics = res_Diagnostics data\<rparr>)"

definition projectionHeaders :: "Database \<Rightarrow> Snapshot \<Rightarrow> (string \<times> string \<times> string \<times> string) list" where
  "projectionHeaders db snapshot = sort_key fst (concat (map (\<lambda>r. case row_data r of
       FileContributionRow p n v \<Rightarrow> [(row_source r, p, n, v)] | _ \<Rightarrow> [])
     (visibleRows db (snap_Workspace snapshot) (snap_Version snapshot) file_contributions)))"

definition readProjections :: "UnicodeTables \<Rightarrow> Database \<Rightarrow> Snapshot \<Rightarrow> StoreError + ResolverProjection list" where
  "readProjections u db snapshot = mapRes (readProjection u db snapshot) (projectionHeaders db snapshot)"

subsection \<open>The cache\<close>

record cachedProjections =
  cp_values :: "ResolverProjection list"
  cp_bytes :: int
  cp_order :: nat

type_synonym projectionCacheKey = "string \<times> GraphVersion"

record ProjectionCache =
  pc_projections :: "(projectionCacheKey \<times> cachedProjections) list"
  pc_bytes :: int
  pc_order :: nat

definition emptyCache :: ProjectionCache where
  "emptyCache = \<lparr>pc_projections = [], pc_bytes = 0, pc_order = 0\<rparr>"

definition stringsBytes :: "string list \<Rightarrow> int" where
  "stringsBytes strings = int (sum_list (map length strings))"

definition evidenceBytes :: "FactEvidence \<Rightarrow> int" where
  "evidenceBytes e = stringsBytes [span_Path (ev_Span e), ev_FileHash e, ev_Extractor e, ev_Provenance e, ev_Confidence e]"

definition projectionBytes :: "ResolverProjection \<Rightarrow> int" where
  "projectionBytes p =
     stringsBytes [rp_ProjectID p, rp_SourcePath p, md_Name (rp_Metadata p), md_Version (rp_Metadata p)]
     + sum_list (map (\<lambda>n. stringsBytes [node_ID n, node_Kind n, node_Label n, node_QualifiedName n] + evidenceBytes (node_Evidence n)) (rp_Nodes p))
     + sum_list (map (\<lambda>e. stringsBytes [edge_SourceID e, edge_TargetID e, edge_Relation e] + evidenceBytes (edge_Evidence e)) (rp_Edges p))
     + stringsBytes (md_Extensions (rp_Metadata p))
     + sum_list (map (\<lambda>r. stringsBytes [ur_SourceID r, ur_Target r, ur_Kind r]
         + sum_list (map (\<lambda>b. stringsBytes [mb_ImportedName b, mb_ExportedName b, mb_LocalName b]) (ur_Bindings r))) (rp_UnresolvedReferences p))
     + sum_list (map (\<lambda>r. stringsBytes [sr_SourceID r, sr_Target r, sr_Relation r] + evidenceBytes (sr_Evidence r)) (rp_SymbolReferences p))
     + sum_list (map (\<lambda>s. stringsBytes [es_NodeID s, es_Name s]) (rp_ExportedSurfaces p))
     + sum_list (map (\<lambda>d. stringsBytes [dep_SourcePath d, dep_TargetPath d]) (rp_Dependencies p))
     + sum_list (map (\<lambda>d. stringsBytes [dg_Severity d, dg_Message d]) (rp_Diagnostics p))"

definition resolverProjectionBytes :: "ResolverProjection list \<Rightarrow> int" where
  "resolverProjectionBytes projections = sum_list (map projectionBytes projections)"

definition cachedResolverProjections :: "Snapshot \<Rightarrow> ProjectionCache \<Rightarrow> ResolverProjection list option" where
  "cachedResolverProjections snapshot cache =
     map_option cp_values (map_of (pc_projections cache) (snap_Workspace snapshot, snap_Version snapshot))"

fun oldestResolverProjection :: "(projectionCacheKey \<times> cachedProjections) list \<Rightarrow> (projectionCacheKey \<times> cachedProjections) option" where
  "oldestResolverProjection [] = None"
| "oldestResolverProjection (p # ps) = (case oldestResolverProjection ps of
     None \<Rightarrow> Some p
   | Some q \<Rightarrow> if cp_order (snd q) < cp_order (snd p) then Some q else Some p)"

definition deleteKey :: "'k \<Rightarrow> ('k \<times> 'v) list \<Rightarrow> ('k \<times> 'v) list" where
  "deleteKey k entries = filter (\<lambda>p. fst p \<noteq> k) entries"

lemma oldest_in: "oldestResolverProjection ps = Some p \<Longrightarrow> p \<in> set ps"
  by (induction ps arbitrary: p) (auto split: option.splits if_splits)

lemma deleteKey_less: "p \<in> set ps \<Longrightarrow> length (deleteKey (fst p) ps) < length ps"
  unfolding deleteKey_def by (rule length_filter_less) auto

function evictProjections :: "int \<Rightarrow> int \<Rightarrow> ProjectionCache \<Rightarrow> ProjectionCache" where
  "evictProjections maximum bytes cache =
    (if pc_bytes cache + bytes > maximum then
       (case oldestResolverProjection (pc_projections cache) of
          None \<Rightarrow> cache
        | Some (oldestKey, oldest) \<Rightarrow> evictProjections maximum bytes
            (cache\<lparr>pc_projections := deleteKey oldestKey (pc_projections cache), pc_bytes := pc_bytes cache - cp_bytes oldest\<rparr>))
     else cache)"
  by auto
termination
proof (relation "measure (\<lambda>(m, b, c). length (pc_projections c))", simp)
  fix maximum bytes :: int and cache :: ProjectionCache and p k e
  assume "oldestResolverProjection (pc_projections cache) = Some p" "(k, e) = p"
  then show "((maximum, bytes, cache\<lparr>pc_projections := deleteKey k (pc_projections cache), pc_bytes := pc_bytes cache - cp_bytes e\<rparr>),
      (maximum, bytes, cache)) \<in> measure (\<lambda>(m, b, c). length (pc_projections c))"
    using deleteKey_less[OF oldest_in[of "pc_projections cache" p]] by auto
qed

declare evictProjections.simps [simp del]

definition cacheResolverProjections :: "int \<Rightarrow> Snapshot \<Rightarrow> ResolverProjection list \<Rightarrow> ProjectionCache \<Rightarrow> ProjectionCache" where
  "cacheResolverProjections maximum snapshot projections cache =
    (let bytes = resolverProjectionBytes projections in
     if bytes > maximum then cache
     else let key = (snap_Workspace snapshot, snap_Version snapshot);
              cache1 = (case map_of (pc_projections cache) key of
                None \<Rightarrow> cache | Some existing \<Rightarrow> cache\<lparr>pc_bytes := pc_bytes cache - cp_bytes existing\<rparr>);
              cache2 = evictProjections maximum bytes cache1;
              order = pc_order cache2 + 1
       in \<lparr>pc_projections = (key, \<lparr>cp_values = projections, cp_bytes = bytes, cp_order = order\<rparr>) # deleteKey key (pc_projections cache2),
           pc_bytes = pc_bytes cache2 + bytes, pc_order = order\<rparr>)"

text \<open>The loop deletes while it iterates; deleting an entry does not affect another.\<close>

definition invalidateWorkspaceCaches :: "string \<Rightarrow> (GraphVersion \<Rightarrow> bool) \<Rightarrow> ProjectionCache \<Rightarrow> ProjectionCache" where
  "invalidateWorkspaceCaches ws remove cache =
     cache\<lparr>pc_projections := filter (\<lambda>((w, v), e). w \<noteq> ws \<or> \<not> remove v) (pc_projections cache),
       pc_bytes := pc_bytes cache - sum_list (map (\<lambda>(k, e). cp_bytes e) (filter (\<lambda>((w, v), e). \<not> (w \<noteq> ws \<or> \<not> remove v)) (pc_projections cache)))\<rparr>"

definition ResolverProjections :: "UnicodeTables \<Rightarrow> int \<Rightarrow> Database \<Rightarrow> Snapshot \<Rightarrow> ProjectionCache
    \<Rightarrow> (StoreError + ResolverProjection list) \<times> ProjectionCache" where
  "ResolverProjections u maximum db snapshot cache =
    (if snap_Workspace snapshot = '''' \<or> snap_Version snapshot = 0 then (Inl ErrInvalidRequest, cache)
     else (case cachedResolverProjections snapshot cache of
         Some projections \<Rightarrow> (Inr projections, cache)
       | None \<Rightarrow> (case readProjections u db snapshot of
             Inl e \<Rightarrow> (Inl e, cache)
           | Inr projections \<Rightarrow> (Inr projections, cacheResolverProjections maximum snapshot projections cache))))"

subsection \<open>Affected sources\<close>


definition surfaceKey :: "ExportedSurface \<Rightarrow> string" where
  "surfaceKey s = es_Name s @ [CHR 0x00] @ es_NodeID s"

definition sameSurfaces :: "ExportedSurface list \<Rightarrow> ExportedSurface list \<Rightarrow> bool" where
  "sameSurfaces left right \<longleftrightarrow> length left = length right
     \<and> list_all (\<lambda>surface. surfaceKey surface \<in> surfaceKey ` set left) right"






subsection \<open>Affected sources, exactly\<close>







lemma surfaceKey_inj:
  assumes "surfaceKey a = surfaceKey b" "CHR 0x00 \<notin> set (es_Name a)" "CHR 0x00 \<notin> set (es_Name b)"
  shows "a = b"
proof -
  have "takeWhile (\<lambda>c. c \<noteq> CHR 0x00) (surfaceKey s) = es_Name s \<and> dropWhile (\<lambda>c. c \<noteq> CHR 0x00) (surfaceKey s) = CHR 0x00 # es_NodeID s"
    if "CHR 0x00 \<notin> set (es_Name s)" for s
    using that by (auto simp: surfaceKey_def takeWhile_tail dropWhile_append3 takeWhile_eq_all_conv)
  then have "es_Name a = es_Name b \<and> es_NodeID a = es_NodeID b" using assms by (metis list.inject)
  then show ?thesis by (cases a, cases b) simp
qed

text \<open>Comparing surfaces: when no name contains a NUL and the new surfaces have no duplicates, a source
  counts as unchanged exactly when it exports the same set of surfaces as before.\<close>

theorem same_surfaces_exact:
  assumes "distinct left" "distinct right" "\<forall>s\<in>set left \<union> set right. CHR 0x00 \<notin> set (es_Name s)"
  shows "sameSurfaces left right \<longleftrightarrow> set left = set right"
proof -
  have mem: "surfaceKey s \<in> surfaceKey ` set left \<longleftrightarrow> s \<in> set left" if "s \<in> set right" for s
  proof
    assume "surfaceKey s \<in> surfaceKey ` set left"
    then obtain t where t: "surfaceKey s = surfaceKey t" "t \<in> set left" by (rule imageE)
    have "s = t" by (rule surfaceKey_inj[OF t(1)]) (use assms(3) that t(2) in simp_all)
    then show "s \<in> set left" using t(2) by simp
  qed (rule imageI)
  have "(\<forall>s\<in>set right. surfaceKey s \<in> surfaceKey ` set left) \<longleftrightarrow> set right \<subseteq> set left"
    unfolding subset_iff Ball_def using mem by blast
  then have "sameSurfaces left right \<longleftrightarrow> length left = length right \<and> set right \<subseteq> set left"
    unfolding sameSurfaces_def list_all_iff by simp
  also have "\<dots> \<longleftrightarrow> set left = set right"
    using assms(1,2) by (metis card_subset_eq distinct_card finite_set order_refl)
  finally show ?thesis .
qed

lemma same_surfaces_misses_removal:
  "let a = \<lparr>es_NodeID = ''n1'', es_Name = ''A''\<rparr>; b = \<lparr>es_NodeID = ''n2'', es_Name = ''B''\<rparr>
   in sameSurfaces [a, b] [a, a] \<and> set [a, b] \<noteq> set [a, a]"
  by (simp add: sameSurfaces_def Let_def)

theorem same_surfaces_exact_witness:
  "\<not> sameSurfaces [\<lparr>es_NodeID = ''n1'', es_Name = ''A''\<rparr>] [\<lparr>es_NodeID = ''n1'', es_Name = ''B''\<rparr>]"
  using same_surfaces_exact[of "[\<lparr>es_NodeID = ''n1'', es_Name = ''A''\<rparr>]" "[\<lparr>es_NodeID = ''n1'', es_Name = ''B''\<rparr>]"] by simp

subsection \<open>The cache is coherent\<close>

lemma sourceData_view: "sourceData db sn t p =
    map snd (filter (\<lambda>(source, d). source = p) (view_rows (versionView db (snap_Workspace sn) (snap_Version sn)) t))"
  by (simp add: sourceData_def versionView_def visibleRows_def shown_def filter_map o_def)


lemma projectionHeaders_view: "projectionHeaders db sn = sort_key fst (concat (map (\<lambda>(source, d). case d of
       FileContributionRow p n v \<Rightarrow> [(source, p, n, v)] | _ \<Rightarrow> [])
     (view_rows (versionView db (snap_Workspace sn) (snap_Version sn)) file_contributions)))"
  unfolding projectionHeaders_def versionView_def visibleRows_def shown_def VersionView.simps map_map o_def prod.case by (rule refl)

lemma readProjections_view:
  assumes "versionView db (snap_Workspace sn) (snap_Version sn) = versionView db' (snap_Workspace sn) (snap_Version sn)"
  shows "readProjections u db sn = readProjections u db' sn"
proof -
  have "sourceData db sn = sourceData db' sn" by (intro ext) (simp only: sourceData_view assms)
  then have "readProjection u db sn = readProjection u db' sn"
    by (intro ext) (simp only: readProjection_def storeResolutionDataForSource_def)
  moreover have "projectionHeaders db sn = projectionHeaders db' sn" by (simp only: projectionHeaders_view assms)
  ultimately show ?thesis by (simp only: readProjections_def)
qed

lemma readProjections_same:
  assumes "snap_Workspace a = snap_Workspace b" "snap_Version a = snap_Version b"
  shows "readProjections u db a = readProjections u db b"
proof -
  have "sourceData db a = sourceData db b" by (intro ext) (simp only: sourceData_def assms)
  then have "readProjection u db a = readProjection u db b"
    by (intro ext) (simp only: readProjection_def storeResolutionDataForSource_def)
  then show ?thesis by (simp only: readProjections_def projectionHeaders_def assms)
qed

definition atVersion :: "projectionCacheKey \<Rightarrow> Snapshot" where
  "atVersion key = \<lparr>snap_Workspace = fst key, snap_Version = snd key, snap_PublishedAt = 0\<rparr>"

definition cacheCoherent :: "UnicodeTables \<Rightarrow> Database \<Rightarrow> ProjectionCache \<Rightarrow> bool" where
  "cacheCoherent u db cache \<longleftrightarrow> (\<forall>(key, entry)\<in>set (pc_projections cache).
     recorded db (fst key) (snd key) \<longrightarrow> readProjections u db (atVersion key) = Inr (cp_values entry))"

definition cacheWithin :: "int \<Rightarrow> ProjectionCache \<Rightarrow> bool" where
  "cacheWithin maximum cache \<longleftrightarrow> distinct (map fst (pc_projections cache))
     \<and> (\<forall>(key, entry)\<in>set (pc_projections cache). cp_bytes entry = resolverProjectionBytes (cp_values entry))
     \<and> pc_bytes cache = sum_list (map (\<lambda>(k, e). cp_bytes e) (pc_projections cache)) \<and> pc_bytes cache \<le> maximum"

lemma stringsBytes_nonneg: "0 \<le> stringsBytes xs" by (simp add: stringsBytes_def)

lemma projectionBytes_nonneg: "0 \<le> projectionBytes p"
  unfolding projectionBytes_def evidenceBytes_def by (intro add_nonneg_nonneg sum_list_nonneg) (auto intro!: add_nonneg_nonneg sum_list_nonneg stringsBytes_nonneg)

lemma resolverProjectionBytes_nonneg: "0 \<le> resolverProjectionBytes ps"
  unfolding resolverProjectionBytes_def by (rule sum_list_nonneg) (auto intro: projectionBytes_nonneg)

lemma sum_deleteKey:
  assumes "distinct (map fst ps)" "(k, e) \<in> set ps"
  shows "sum_list (map (\<lambda>(k, e). f e) (deleteKey k ps)) = sum_list (map (\<lambda>(k, e). f e) ps) - (f e :: int)"
  using assms
proof (induction ps)
  case (Cons p ps)
  have "deleteKey k ps = ps" if "k \<notin> fst ` set ps" using that by (auto simp: deleteKey_def filter_id_conv)
  then show ?case using Cons by (cases p) (auto simp: deleteKey_def image_iff)
qed simp

lemma deleteKey_distinct: "distinct (map fst ps) \<Longrightarrow> distinct (map fst (deleteKey k ps))"
  unfolding deleteKey_def by (rule distinct_map_filter)

lemma oldest_None: "oldestResolverProjection ps = None \<longleftrightarrow> ps = []"
  by (cases ps) (auto split: option.splits)

lemma cacheWithin_delete:
  assumes "cacheWithin maximum cache" "(k, e) \<in> set (pc_projections cache)"
  shows "cacheWithin maximum (cache\<lparr>pc_projections := deleteKey k (pc_projections cache), pc_bytes := pc_bytes cache - cp_bytes e\<rparr>)"
proof -
  have "0 \<le> cp_bytes e" using assms resolverProjectionBytes_nonneg by (auto simp: cacheWithin_def)
  moreover have "sum_list (map (\<lambda>(k, e). cp_bytes e) (deleteKey k (pc_projections cache))) = pc_bytes cache - cp_bytes e"
    using sum_deleteKey[of "pc_projections cache" k e cp_bytes] assms by (simp add: cacheWithin_def)
  moreover have "set (deleteKey k (pc_projections cache)) \<subseteq> set (pc_projections cache)" by (auto simp: deleteKey_def)
  ultimately show ?thesis using assms(1) deleteKey_distinct by (auto simp: cacheWithin_def)
qed

lemma evict_within:
  assumes "cacheWithin maximum cache" "bytes \<le> maximum"
  shows "cacheWithin maximum (evictProjections maximum bytes cache) \<and> pc_bytes (evictProjections maximum bytes cache) + bytes \<le> maximum
    \<and> set (pc_projections (evictProjections maximum bytes cache)) \<subseteq> set (pc_projections cache)"
  using assms
proof (induction maximum bytes cache rule: evictProjections.induct)
  case (1 maximum bytes cache)
  let ?next = "\<lambda>p. cache\<lparr>pc_projections := deleteKey (fst p) (pc_projections cache), pc_bytes := pc_bytes cache - cp_bytes (snd p)\<rparr>"
  show ?case
  proof (cases "pc_bytes cache + bytes > maximum")
    case False
    then have "evictProjections maximum bytes cache = cache" by (subst evictProjections.simps) simp
    with False 1(2) show ?thesis by simp
  next
    case True
    show ?thesis
    proof (cases "oldestResolverProjection (pc_projections cache)")
      case None
      then have "pc_bytes cache = 0" using 1(2) by (simp add: oldest_None cacheWithin_def)
      with True 1(3) show ?thesis by simp
    next
      case (Some p)
      have step: "evictProjections maximum bytes cache = evictProjections maximum bytes (?next p)"
        using True Some by (subst evictProjections.simps) (simp add: case_prod_unfold)
      have "(fst p, snd p) \<in> set (pc_projections cache)" using oldest_in[OF Some] by simp
      then have "cacheWithin maximum (?next p)" by (rule cacheWithin_delete[OF 1(2)])
      with 1(1)[OF True Some prod.collapse _ 1(3)] show ?thesis unfolding step by (auto simp: deleteKey_def)
    qed
  qed
qed

lemma cacheResolverProjections_fresh:
  assumes "cacheWithin maximum cache" "map_of (pc_projections cache) (snap_Workspace sn, snap_Version sn) = None"
  shows "cacheWithin maximum (cacheResolverProjections maximum sn ps cache)
    \<and> (\<forall>(key, entry)\<in>set (pc_projections (cacheResolverProjections maximum sn ps cache)).
         (key, entry) \<in> set (pc_projections cache) \<or> key = (snap_Workspace sn, snap_Version sn) \<and> cp_values entry = ps)"
proof (cases "resolverProjectionBytes ps > maximum")
  case True
  then show ?thesis using assms(1) by (auto simp: cacheResolverProjections_def Let_def)
next
  case False
  let ?bytes = "resolverProjectionBytes ps" and ?key = "(snap_Workspace sn, snap_Version sn)"
  define evicted where "evicted = evictProjections maximum ?bytes cache"
  have "?bytes \<le> maximum" using False by simp
  from evict_within[OF assms(1) this] have within: "cacheWithin maximum evicted" "pc_bytes evicted + ?bytes \<le> maximum"
    "set (pc_projections evicted) \<subseteq> set (pc_projections cache)" by (simp_all add: evicted_def)
  have "?key \<notin> fst ` set (pc_projections evicted)" using within(3) assms(2) by (auto simp: map_of_eq_None_iff)
  then have fresh: "deleteKey ?key (pc_projections evicted) = pc_projections evicted"
    unfolding deleteKey_def by (intro filter_True) (force intro: rev_image_eqI)
  have result: "cacheResolverProjections maximum sn ps cache =
      \<lparr>pc_projections = (?key, \<lparr>cp_values = ps, cp_bytes = ?bytes, cp_order = pc_order evicted + 1\<rparr>) # pc_projections evicted,
       pc_bytes = pc_bytes evicted + ?bytes, pc_order = pc_order evicted + 1\<rparr>"
    using False fresh assms(2) by (simp add: cacheResolverProjections_def Let_def evicted_def)
  show ?thesis unfolding result using within \<open>?key \<notin> fst ` set (pc_projections evicted)\<close> by (auto simp: cacheWithin_def)
qed

lemma sum_filter_split: "sum_list (map f (filter P xs)) = sum_list (map f xs) - (sum_list (map f (filter (\<lambda>x. \<not> P x) xs)) :: int)"
  by (induction xs) simp_all

lemma invalidate_within:
  assumes "cacheWithin maximum cache"
  shows "cacheWithin maximum (invalidateWorkspaceCaches ws remove cache)"
proof -
  let ?keep = "\<lambda>((w, v), e). w \<noteq> ws \<or> \<not> remove v" and ?drop = "\<lambda>((w, v), e). \<not> (w \<noteq> ws \<or> \<not> remove v)" and ?f = "\<lambda>(k, e). cp_bytes e"
  have drop: "?drop = (\<lambda>p. \<not> ?keep p)" by (auto simp: fun_eq_iff)
  have "0 \<le> sum_list (map ?f (filter ?drop (pc_projections cache)))"
    using assms resolverProjectionBytes_nonneg by (intro sum_list_nonneg) (auto simp: cacheWithin_def)
  moreover have "sum_list (map ?f (filter ?keep (pc_projections cache)))
      = sum_list (map ?f (pc_projections cache)) - sum_list (map ?f (filter ?drop (pc_projections cache)))"
    unfolding drop by (rule sum_filter_split)
  moreover have "distinct (map fst (filter ?keep (pc_projections cache)))" using assms by (intro distinct_map_filter) (simp add: cacheWithin_def)
  ultimately show ?thesis using assms by (auto simp: cacheWithin_def invalidateWorkspaceCaches_def)
qed

lemma invalidate_entry: "(key, e) \<in> set (pc_projections (invalidateWorkspaceCaches ws remove cache))
    \<longleftrightarrow> (key, e) \<in> set (pc_projections cache) \<and> (fst key \<noteq> ws \<or> \<not> remove (snd key))"
  by (cases key) (auto simp: invalidateWorkspaceCaches_def)

text \<open>The store and its cache: every operation that changes the versions of a workspace invalidates the
  cache afterwards, and every read goes through it.\<close>

inductive cached_reach :: "StoreConfig \<Rightarrow> int \<Rightarrow> Database \<Rightarrow> ProjectionCache \<Rightarrow> bool" for store maximum where
  opened: "cached_reach store maximum emptyDatabase emptyCache"
| published: "\<lbrakk>cached_reach store maximum db cache; distinct schedule; set schedule = {..<length (gu_contributions (pub_Update request))};
    publish store schedule now request db = Inr (sn, db')\<rbrakk>
    \<Longrightarrow> cached_reach store maximum db' (invalidateWorkspaceCaches (pub_Workspace request) (\<lambda>v. v = snap_Version sn) cache)"
| committed: "\<lbrakk>cached_reach store maximum db cache; session_reach store ws db s a; Commit store now s = (Inr (sn, db'), s')\<rbrakk>
    \<Longrightarrow> cached_reach store maximum db' (invalidateWorkspaceCaches ws (\<lambda>v. v = snap_Version sn) cache)"
| rolled_back: "\<lbrakk>cached_reach store maximum db cache; Rollback request db = Inr (sn, db')\<rbrakk>
    \<Longrightarrow> cached_reach store maximum db' (invalidateWorkspaceCaches (rb_Workspace request) (\<lambda>v. v > rb_Version request) cache)"
| pruned: "\<lbrakk>cached_reach store maximum db cache; Prune request db = Inr (n, db')\<rbrakk>
    \<Longrightarrow> cached_reach store maximum db' (invalidateWorkspaceCaches (prune_Workspace request) (\<lambda>v. v < prune_BeforeVersion request) cache)"
| read: "cached_reach store maximum db cache
    \<Longrightarrow> cached_reach store maximum db (snd (ResolverProjections (cfg_unicode store) maximum db sn cache))"

lemma cached_reach_store: "cached_reach store maximum db cache \<Longrightarrow> store_reach store db"
proof (induction rule: cached_reach.induct)
  case opened
  then show ?case by (rule store_reach.opened)
next
  case published
  then show ?case by (blast intro: store_reach.published)
next
  case committed
  then show ?case by (blast intro: store_reach.committed)
next
  case rolled_back
  then show ?case by (blast intro: store_reach.rolled_back)
next
  case pruned
  then show ?case by (blast intro: store_reach.pruned)
qed

text \<open>An operation after which every kept version that is recorded shows what it showed keeps coherence.\<close>

lemma coherent_step:
  assumes "cacheCoherent u db cache"
    "\<And>w v. w \<noteq> ws \<or> \<not> remove v \<Longrightarrow> storeView db' (w, v) = None \<or> storeView db' (w, v) = storeView db (w, v)"
  shows "cacheCoherent u db' (invalidateWorkspaceCaches ws remove cache)"
  unfolding cacheCoherent_def
proof (rule ballI, clarify)
  fix w v e
  assume entry: "((w, v), e) \<in> set (pc_projections (invalidateWorkspaceCaches ws remove cache))"
    and rec: "recorded db' (fst (w, v)) (snd (w, v))"
  then have old: "((w, v), e) \<in> set (pc_projections cache)" and keep: "w \<noteq> ws \<or> \<not> remove v" by (auto simp: invalidate_entry)
  have now: "storeView db' (w, v) = Some (versionView db' w v)" using rec by (simp add: storeView_def)
  with assms(2)[OF keep] have "storeView db' (w, v) = storeView db (w, v)" by simp
  with now have same: "recorded db w v" "versionView db w v = versionView db' w v" by (auto simp: storeView_def split: if_splits)
  have "readProjections u db (atVersion (w, v)) = Inr (cp_values e)" using assms(1) old same(1) by (auto simp: cacheCoherent_def)
  then show "readProjections u db' (atVersion (w, v)) = Inr (cp_values e)"
    using readProjections_view[of db "atVersion (w, v)" db' u] same(2) by (simp add: atVersion_def)
qed

lemma committed_coherent:
  assumes "wf_store db" "16 \<le> cfg_variableLimit store" "session_reach store ws db s a" "Commit store now s = (Inr (sn, db'), s')"
    "cacheCoherent u db cache"
  shows "cacheCoherent u db' (invalidateWorkspaceCaches ws (\<lambda>v. v = snap_Version sn) cache)"
proof -
  obtain new nodes edges where x: "extension_ok ws (currentVersion db ws + 1) (closedSources a True) new nodes edges"
    "finishPublication store ws (currentVersion db ws + 1)
      (extendedStore ws (currentVersion db ws + 1) now (closedSources a True) new nodes edges db) = Inr db'"
    "snap_Version sn = currentVersion db ws + 1" by (rule commit_finished[OF assms(1-4)])
  show ?thesis
    unfolding x(3) by (rule coherent_step[OF assms(5)]) (unfold finished_extension(3)[OF assms(1) refl x(1,2)], auto)
qed

lemma published_coherent:
  assumes "wf_store db" "16 \<le> cfg_variableLimit store" "distinct schedule"
    "set schedule = {..<length (gu_contributions (pub_Update request))}" "publish store schedule now request db = Inr (sn, db')"
    "cacheCoherent u db cache"
  shows "cacheCoherent u db' (invalidateWorkspaceCaches (pub_Workspace request) (\<lambda>v. v = snap_Version sn) cache)"
proof -
  let ?v = "currentVersion db (pub_Workspace request) + 1"
  have res: "validRequest request" "?v > retainedGraphVersions \<Longrightarrow> recorded db (pub_Workspace request) (retentionBoundary ?v)"
    "db' = publishedStore store ?v now request db" "snap_Version sn = ?v"
    using assms(5) unfolding publish_outcome[OF assms(1-4) refl] by (auto split: if_splits)
  show ?thesis unfolding res(3,4)
    by (rule coherent_step[OF assms(6)], subst (1 2) publishedStore_props(3)[OF assms(1) res(1) refl refl]) (erule res(2), auto)
qed

lemma rolled_back_coherent:
  assumes "wf_store db" "Rollback request db = Inr (sn, db')" "cacheCoherent u db cache"
  shows "cacheCoherent u db' (invalidateWorkspaceCaches (rb_Workspace request) (\<lambda>v. v > rb_Version request) cache)"
proof (rule coherent_step[OF assms(3)])
  fix w v
  assume "w \<noteq> rb_Workspace request \<or> \<not> v > rb_Version request"
  then show "storeView db' (w, v) = None \<or> storeView db' (w, v) = storeView db (w, v)"
    using rollback_keeps[OF assms(1)] assms(2)
    by (cases request) (auto simp: Rollback_shape recorded_def keeps_def split: if_splits option.splits)
qed

lemma pruned_coherent:
  assumes "wf_store db" "Prune request db = Inr (n, db')" "cacheCoherent u db cache"
  shows "cacheCoherent u db' (invalidateWorkspaceCaches (prune_Workspace request) (\<lambda>v. v < prune_BeforeVersion request) cache)"
proof (rule coherent_step[OF assms(3)])
  fix w v
  assume "w \<noteq> prune_Workspace request \<or> \<not> v < prune_BeforeVersion request"
  then show "storeView db' (w, v) = None \<or> storeView db' (w, v) = storeView db (w, v)"
    using prune_keeps[OF assms(1)] assms(2)
    by (auto simp: Prune_def pruneVersions_shape[OF wf_store_rebase[OF assms(1)]] keeps_def split: if_splits)
qed

lemma cached_reach_invariant:
  assumes "cached_reach store maximum db cache" "16 \<le> cfg_variableLimit store" "0 \<le> maximum"
  shows "cacheCoherent (cfg_unicode store) db cache \<and> cacheWithin maximum cache"
  using assms(1)
proof (induction rule: cached_reach.induct)
  case opened
  then show ?case using assms(3) by (simp add: cacheCoherent_def cacheWithin_def emptyCache_def)
next
  case (published db cache schedule request now sn db')
  then show ?case using published_coherent[OF store_reach_wf[OF cached_reach_store assms(2)] assms(2)] invalidate_within by blast
next
  case (committed db cache ws s a now sn db' s')
  then show ?case using committed_coherent[OF store_reach_wf[OF cached_reach_store assms(2)] assms(2)] invalidate_within by blast
next
  case (rolled_back db cache request sn db')
  then show ?case using rolled_back_coherent[OF store_reach_wf[OF cached_reach_store assms(2)]] invalidate_within by blast
next
  case (pruned db cache request n db')
  then show ?case using pruned_coherent[OF store_reach_wf[OF cached_reach_store assms(2)]] invalidate_within by blast
next
  case (read db cache sn)
  show ?case
  proof (cases "snd (ResolverProjections (cfg_unicode store) maximum db sn cache) = cache")
    case True
    then show ?thesis using read.IH by simp
  next
    case False
    then obtain ps where ps: "readProjections (cfg_unicode store) db sn = Inr ps"
      "map_of (pc_projections cache) (snap_Workspace sn, snap_Version sn) = None"
      "snd (ResolverProjections (cfg_unicode store) maximum db sn cache) = cacheResolverProjections maximum sn ps cache"
      by (auto simp: ResolverProjections_def cachedResolverProjections_def split: option.splits sum.splits if_splits)
    have fresh: "cacheWithin maximum (cacheResolverProjections maximum sn ps cache)"
      "\<And>key entry. (key, entry) \<in> set (pc_projections (cacheResolverProjections maximum sn ps cache))
        \<Longrightarrow> (key, entry) \<in> set (pc_projections cache) \<or> key = (snap_Workspace sn, snap_Version sn) \<and> cp_values entry = ps"
      using cacheResolverProjections_fresh[of maximum cache sn ps] read.IH ps(2) by blast+
    have "readProjections (cfg_unicode store) db (atVersion (snap_Workspace sn, snap_Version sn)) = Inr ps"
      using ps(1) readProjections_same[of "atVersion (snap_Workspace sn, snap_Version sn)" sn] by (simp add: atVersion_def)
    then have "cacheCoherent (cfg_unicode store) db (cacheResolverProjections maximum sn ps cache)"
      using fresh(2) read.IH unfolding cacheCoherent_def by fast
    with fresh(1) ps(3) show ?thesis by simp
  qed
qed

text \<open>C11: Reading resolver projections through the cache is reading them from the database: after any
  sequence of publications, sessions, rollbacks, prunes and reads, with the invalidation each of
  them performs, a recorded version is answered as the database would answer, and the projections
  kept never exceed the byte budget.\<close>

theorem projection_cache_is_transparent:
  assumes "cached_reach store maximum db cache" "16 \<le> cfg_variableLimit store" "0 \<le> maximum"
    "snap_Workspace sn \<noteq> ''''" "recorded db (snap_Workspace sn) (snap_Version sn)"
  shows "fst (ResolverProjections (cfg_unicode store) maximum db sn cache) = readProjections (cfg_unicode store) db sn
    \<and> sum_list (map (\<lambda>(key, e). resolverProjectionBytes (cp_values e)) (pc_projections cache)) \<le> maximum"
proof -
  note inv = cached_reach_invariant[OF assms(1-3)]
  have "snap_Version sn \<noteq> 0"
    using wf_storeD(7)[OF store_reach_wf[OF cached_reach_store[OF assms(1)] assms(2)]] assms(5)
    by (auto simp: recorded_iff workspaceVersions_def wf_versions_def)
  moreover have "readProjections (cfg_unicode store) db sn = Inr (cp_values e)"
    if "map_of (pc_projections cache) (snap_Workspace sn, snap_Version sn) = Some e" for e
    using map_of_SomeD[OF that] inv assms(5) readProjections_same[of "atVersion (snap_Workspace sn, snap_Version sn)" sn]
    by (fastforce simp: cacheCoherent_def atVersion_def)
  ultimately have "fst (ResolverProjections (cfg_unicode store) maximum db sn cache) = readProjections (cfg_unicode store) db sn"
    using assms(4) by (auto simp: ResolverProjections_def cachedResolverProjections_def split: option.splits sum.splits)
  moreover have "map (\<lambda>(key, e). resolverProjectionBytes (cp_values e)) (pc_projections cache) = map (\<lambda>(k, e). cp_bytes e) (pc_projections cache)"
    using inv by (intro map_cong refl) (auto simp: cacheWithin_def)
  ultimately show ?thesis using inv by (simp only: cacheWithin_def) simp
qed

subsection \<open>What is published is what is read back\<close>

abbreviation firstOf :: "('a \<Rightarrow> 'k) \<Rightarrow> 'a list \<Rightarrow> 'a list" where
  "firstOf key xs \<equiv> insertOrIgnore key [] xs"

lemma firstOf_map:
  assumes "\<And>x. key (f x) = key' x"
  shows "firstOf key (map f xs) = map f (firstOf key' xs)"
  using insertOrIgnore_mapped[of key f key' "[]" xs] assms by simp

lemma firstOf_filter:
  assumes "\<And>x y. key x = key y \<Longrightarrow> P x = P y"
  shows "filter P (firstOf key xs) = firstOf key (filter P xs)"
proof -
  have "filter P (insertOrIgnore key rows xs) = insertOrIgnore key (filter P rows) (filter P xs)" for rows
  proof (induction xs arbitrary: rows)
    case (Cons x xs)
    show ?case
    proof (cases "P x")
      case True
      have "key x \<in> key ` set rows \<longleftrightarrow> key x \<in> key ` set (filter P rows)"
      proof
        assume "key x \<in> key ` set rows"
        then obtain y where y: "key x = key y" "y \<in> set rows" by (rule imageE)
        then have "y \<in> set (filter P rows)" using assms[OF y(1)] True by simp
        with y(1) show "key x \<in> key ` set (filter P rows)" by (rule image_eqI)
      qed auto
      then show ?thesis using True Cons.IH[of rows] Cons.IH[of "rows @ [x]"] by simp
    next
      case False
      then show ?thesis using Cons.IH[of rows] Cons.IH[of "rows @ [x]"] by simp
    qed
  qed simp
  from this[of "[]"] show ?thesis by simp
qed

definition bindingKey :: "ModuleBinding \<Rightarrow> string list" where
  "bindingKey b = [mb_ImportedName b, mb_ExportedName b, mb_LocalName b]"

definition referenceKey :: "UnresolvedReference \<Rightarrow> string list" where
  "referenceKey r = [ur_SourceID r, ur_Target r, ur_Kind r]"

text \<open>The projection a contribution should have: sorted lists without duplicates, the first row of every
  key, the bindings of all references with the same key, and no receiver types.\<close>

definition projectionOf :: "Contribution \<Rightarrow> ResolverProjection" where
  "projectionOf c = \<lparr>rp_ProjectID = c_projectID c, rp_SourcePath = c_sourcePath c,
     rp_Metadata = (c_metadata c)\<lparr>md_Extensions := sort (firstOf (\<lambda>e. e) (md_Extensions (c_metadata c)))\<rparr>,
     rp_Nodes = sort_key node_ID (firstOf node_ID (facts_Nodes (c_facts c))),
     rp_Edges = sort_key edgeColumns (firstOf edgeColumns (facts_Edges (c_facts c))),
     rp_UnresolvedReferences = map (\<lambda>r. r\<lparr>ur_Bindings := sort_key bindingKey (firstOf bindingKey
         (concat (map ur_Bindings (filter (\<lambda>x. referenceKey x = referenceKey r) (c_unresolvedReferences c)))))\<rparr>)
       (sort_key referenceKey (firstOf referenceKey (c_unresolvedReferences c))),
     rp_SymbolReferences = map (\<lambda>r. r\<lparr>sr_ReceiverType := ''''\<rparr>)
       (sort_key (\<lambda>r. [sr_SourceID r, sr_Target r, sr_Relation r]) (firstOf (\<lambda>r. [sr_SourceID r, sr_Target r, sr_Relation r]) (c_symbolReferences c))),
     rp_ExportedSurfaces = sort_key (\<lambda>s. [es_NodeID s, es_Name s]) (firstOf (\<lambda>s. [es_NodeID s, es_Name s]) (c_exportedSurfaces c)),
     rp_Dependencies = map (\<lambda>p. \<lparr>dep_SourcePath = c_sourcePath c, dep_TargetPath = p\<rparr>)
       (sort (firstOf (\<lambda>p. p) (map dep_TargetPath (c_dependencies c)))),
     rp_Diagnostics = sort_key (\<lambda>d. [dg_Severity d, dg_Message d]) (firstOf (\<lambda>d. [dg_Severity d, dg_Message d]) (c_diagnostics c))\<rparr>"

abbreviation storedRows :: "Contribution \<Rightarrow> ContributionTable \<Rightarrow> RowData list" where
  "storedRows c t \<equiv> firstOf rowKey (contributionData (encodeContribution c) t)"

lemma concat_single: "concat (map (\<lambda>x. [f x]) xs) = map f xs"
  by (induction xs) simp_all

lemma stored_map:
  assumes "contributionData (encodeContribution c) t = map mk xs" "\<And>a b. rowKey (mk a) = rowKey (mk b) \<longleftrightarrow> key a = key b"
  shows "storedRows c t = map mk (firstOf key xs)"
  unfolding assms(1) using assms(2) by (rule insertOrIgnore_mapped[where xs = "[]", simplified])

named_theorems stored_simps

lemma stored_nodes [stored_simps]:
  "appendNodes (storedRows c contribution_nodes) = sort_key node_ID (firstOf node_ID (facts_Nodes (c_facts c)))"
proof -
  have "storedRows c contribution_nodes = map NodeRow (firstOf node_ID (facts_Nodes (c_facts c)))"
    by (rule stored_map) (simp_all add: contributionData_def encodeContribution_def rowKey_def)
  then show ?thesis by (simp add: appendNodes_def o_def concat_single)
qed

lemma stored_edges [stored_simps]:
  "appendEdges (storedRows c contribution_edges) = sort_key edgeColumns (firstOf edgeColumns (facts_Edges (c_facts c)))"
proof -
  have "storedRows c contribution_edges = map EdgeRow (firstOf edgeColumns (facts_Edges (c_facts c)))"
    by (rule stored_map) (simp_all add: contributionData_def encodeContribution_def rowKey_def edgeColumns_def)
  then show ?thesis by (simp add: appendEdges_def edgeColumns_def[abs_def] o_def concat_single)
qed

lemma stored_extensions [stored_simps]:
  "readStrings extensionColumn (storedRows c contribution_extensions) = sort (firstOf (\<lambda>e. e) (md_Extensions (c_metadata c)))"
proof -
  have "storedRows c contribution_extensions = map ExtensionRow (firstOf (\<lambda>e. e) (md_Extensions (c_metadata c)))"
    by (rule stored_map) (simp_all add: contributionData_def encodeContribution_def rowKey_def)
  then show ?thesis by (simp add: readStrings_def extensionColumn_def o_def concat_single)
qed

lemma stored_dependencies [stored_simps]:
  "readStrings targetColumn (storedRows c contribution_dependencies) = sort (firstOf (\<lambda>p. p) (map dep_TargetPath (c_dependencies c)))"
proof -
  have "storedRows c contribution_dependencies = map DependencyRow (firstOf (\<lambda>p. p) (map dep_TargetPath (c_dependencies c)))"
    by (rule stored_map) (simp_all add: contributionData_def encodeContribution_def rowKey_def)
  then show ?thesis by (simp add: readStrings_def targetColumn_def o_def concat_single)
qed

lemma stored_surfaces [stored_simps]:
  "readSurfaces (storedRows c contribution_exported_surfaces)
    = sort_key (\<lambda>s. [es_NodeID s, es_Name s]) (firstOf (\<lambda>s. [es_NodeID s, es_Name s]) (c_exportedSurfaces c))"
proof -
  have "storedRows c contribution_exported_surfaces = map (\<lambda>s. SurfaceRow (es_NodeID s) (es_Name s))
      (firstOf (\<lambda>s. [es_NodeID s, es_Name s]) (c_exportedSurfaces c))"
    by (rule stored_map) (simp_all add: contributionData_def encodeContribution_def rowKey_def)
  moreover have "\<lparr>es_NodeID = es_NodeID s, es_Name = es_Name s\<rparr> = s" for s :: ExportedSurface by simp
  ultimately show ?thesis by (simp only: readSurfaces_def map_map o_def RowData.case concat_single list.map_ident)
qed

lemma stored_diagnostics [stored_simps]:
  "readContributionDiagnostics (storedRows c contribution_diagnostics)
    = sort_key (\<lambda>d. [dg_Severity d, dg_Message d]) (firstOf (\<lambda>d. [dg_Severity d, dg_Message d]) (c_diagnostics c))"
proof -
  have "storedRows c contribution_diagnostics = map (\<lambda>d. DiagnosticRow (dg_Severity d) (dg_Message d))
      (firstOf (\<lambda>d. [dg_Severity d, dg_Message d]) (c_diagnostics c))"
    by (rule stored_map) (simp_all add: contributionData_def encodeContribution_def rowKey_def)
  moreover have "\<lparr>dg_Severity = dg_Severity d, dg_Message = dg_Message d\<rparr> = d" for d :: Diagnostic by simp
  ultimately show ?thesis by (simp only: readContributionDiagnostics_def map_map o_def RowData.case concat_single list.map_ident)
qed

lemma sort_key_map:
  assumes "\<And>x. key (f x) = key' x"
  shows "sort_key key (map f xs) = map f (sort_key key' xs)"
proof -
  have "insort_key key (f x) (map f ys) = map f (insort_key key' x ys)" for x ys using assms by (induction ys) simp_all
  then show ?thesis by (induction xs) simp_all
qed

abbreviation symbolKey :: "SymbolReference \<Rightarrow> string list" where
  "symbolKey r \<equiv> [sr_SourceID r, sr_Target r, sr_Relation r]"

lemma stored_symbols [stored_simps]:
  "readSymbolReferences (storedRows c contribution_symbol_references)
    = map (\<lambda>r. r\<lparr>sr_ReceiverType := ''''\<rparr>) (sort_key symbolKey (firstOf symbolKey (c_symbolReferences c)))"
proof -
  have rows: "storedRows c contribution_symbol_references
      = map (\<lambda>r. SymbolRow (sr_SourceID r) (sr_Target r) (sr_Relation r) (sr_Evidence r)) (firstOf symbolKey (c_symbolReferences c))"
    by (rule stored_map) (simp_all add: contributionData_def encodeContribution_def rowKey_def)
  have untyped: "\<lparr>sr_SourceID = sr_SourceID r, sr_Target = sr_Target r, sr_ReceiverType = '''', sr_Relation = sr_Relation r, sr_Evidence = sr_Evidence r\<rparr>
      = r\<lparr>sr_ReceiverType := ''''\<rparr>" for r :: SymbolReference by simp
  have sorted: "sort_key symbolKey (map (\<lambda>r. r\<lparr>sr_ReceiverType := ''''\<rparr>) xs) = map (\<lambda>r. r\<lparr>sr_ReceiverType := ''''\<rparr>) (sort_key symbolKey xs)" for xs
    by (rule sort_key_map) simp
  show ?thesis unfolding rows readSymbolReferences_def map_map o_def RowData.case untyped concat_single sorted by (rule refl)
qed

lemma firstOf_map_on:
  assumes "\<And>a b. a \<in> S \<Longrightarrow> b \<in> S \<Longrightarrow> key a = key b \<longleftrightarrow> key' (f a) = key' (f b)" "set xs \<subseteq> S"
  shows "map f (firstOf key xs) = firstOf key' (map f xs)"
proof -
  have "map f (insertOrIgnore key rows xs) = insertOrIgnore key' (map f rows) (map f xs)" if "set rows \<subseteq> S" for rows
    using assms(2) that
  proof (induction xs arbitrary: rows)
    case (Cons x xs)
    have "key x \<in> key ` set rows \<longleftrightarrow> key' (f x) \<in> key' ` set (map f rows)"
      using assms(1)[of x] Cons.prems by (simp add: image_iff) blast
    then show ?case using Cons.IH[of rows] Cons.IH[of "rows @ [x]"] Cons.prems by simp
  qed simp
  from this[of "[]"] show ?thesis by simp
qed

definition boundPairs :: "UnresolvedReference list \<Rightarrow> (UnresolvedReference \<times> ModuleBinding) list" where
  "boundPairs references = concat (map (\<lambda>r. map (Pair r) (ur_Bindings r)) references)"

definition pairRow :: "UnresolvedReference \<times> ModuleBinding \<Rightarrow> RowData" where
  "pairRow p = BindingRow (ur_SourceID (fst p)) (ur_Target (fst p)) (ur_Kind (fst p))
     (mb_ImportedName (snd p)) (mb_ExportedName (snd p)) (mb_LocalName (snd p))"

definition pairKey :: "UnresolvedReference \<times> ModuleBinding \<Rightarrow> string list \<times> string list" where
  "pairKey p = (referenceKey (fst p), bindingKey (snd p))"

lemma readModuleBindings_pairs: "readModuleBindings (map pairRow pairs) reference
    = sort_key bindingKey (map snd (filter (\<lambda>p. referenceKey (fst p) = referenceKey reference) pairs))"
proof -
  have same: "\<lparr>mb_ImportedName = mb_ImportedName b, mb_ExportedName = mb_ExportedName b, mb_LocalName = mb_LocalName b\<rparr> = b"
    for b :: ModuleBinding by simp
  have "concat (map (\<lambda>d. case d of
         BindingRow s t k i x l \<Rightarrow> if s = ur_SourceID reference \<and> t = ur_Target reference \<and> k = ur_Kind reference
           then [\<lparr>mb_ImportedName = i, mb_ExportedName = x, mb_LocalName = l\<rparr>] else []
       | _ \<Rightarrow> []) (map pairRow pairs)) = map snd (filter (\<lambda>p. referenceKey (fst p) = referenceKey reference) pairs)"
    by (induction pairs) (simp_all add: pairRow_def referenceKey_def same)
  then show ?thesis by (simp only: readModuleBindings_def bindingKey_def[abs_def])
qed

lemma filter_boundPairs: "filter (\<lambda>p. P (fst p)) (boundPairs references) = boundPairs (filter P references)"
  unfolding boundPairs_def by (induction references) (auto simp: filter_map o_def filter_empty_conv)

lemma snd_boundPairs: "map snd (boundPairs references) = concat (map ur_Bindings references)"
  unfolding boundPairs_def by (induction references) (simp_all add: o_def)

lemma fst_boundPairs: "p \<in> set (boundPairs references) \<Longrightarrow> fst p \<in> set references"
  by (auto simp: boundPairs_def)

lemma stored_bindings:
  "readModuleBindings (storedRows c contribution_module_bindings) reference = sort_key bindingKey (firstOf bindingKey
     (concat (map ur_Bindings (filter (\<lambda>x. referenceKey x = referenceKey reference) (c_unresolvedReferences c)))))"
proof -
  let ?refs = "c_unresolvedReferences c" and ?P = "\<lambda>x. referenceKey x = referenceKey reference"
  have "contributionData (encodeContribution c) contribution_module_bindings = map pairRow (boundPairs ?refs)"
    by (simp add: contributionData_def encodeContribution_def boundPairs_def map_concat o_def pairRow_def)
  then have "storedRows c contribution_module_bindings = map pairRow (firstOf pairKey (boundPairs ?refs))"
    by (rule stored_map) (simp add: pairRow_def pairKey_def referenceKey_def bindingKey_def rowKey_def)
  moreover have "filter (\<lambda>p. ?P (fst p)) (firstOf pairKey (boundPairs ?refs)) = firstOf pairKey (boundPairs (filter ?P ?refs))"
    by (subst firstOf_filter) (simp_all add: pairKey_def filter_boundPairs[where P = ?P])
  moreover have "map snd (firstOf pairKey (boundPairs (filter ?P ?refs))) = firstOf bindingKey (map snd (boundPairs (filter ?P ?refs)))"
    by (rule firstOf_map_on[where S = "{p. ?P (fst p)}"]) (auto simp: pairKey_def dest: fst_boundPairs)
  ultimately show ?thesis by (simp only: readModuleBindings_pairs snd_boundPairs)
qed

lemma stored_references [stored_simps]:
  "readUnresolvedReferences (storedRows c contribution_unresolved_references) (storedRows c contribution_module_bindings)
    = map (\<lambda>r. r\<lparr>ur_Bindings := sort_key bindingKey (firstOf bindingKey
         (concat (map ur_Bindings (filter (\<lambda>x. referenceKey x = referenceKey r) (c_unresolvedReferences c)))))\<rparr>)
       (sort_key referenceKey (firstOf referenceKey (c_unresolvedReferences c)))"
proof -
  have rows: "storedRows c contribution_unresolved_references
      = map (\<lambda>r. UnresolvedRow (ur_SourceID r) (ur_Target r) (ur_Kind r) (ur_Ambiguous r)) (firstOf referenceKey (c_unresolvedReferences c))"
    by (rule stored_map) (simp_all add: contributionData_def encodeContribution_def rowKey_def referenceKey_def)
  have bare: "\<lparr>ur_SourceID = ur_SourceID r, ur_Target = ur_Target r, ur_Kind = ur_Kind r, ur_Ambiguous = ur_Ambiguous r, ur_Bindings = []\<rparr>
      = r\<lparr>ur_Bindings := []\<rparr>" for r :: UnresolvedReference by simp
  have key: "referenceKey (r\<lparr>ur_Bindings := bs\<rparr>) = referenceKey r" for r bs by (simp add: referenceKey_def)
  have sorted: "sort_key referenceKey (map (\<lambda>r. r\<lparr>ur_Bindings := []\<rparr>) xs) = map (\<lambda>r. r\<lparr>ur_Bindings := []\<rparr>) (sort_key referenceKey xs)" for xs
    by (rule sort_key_map) (rule key)
  have keyed: "(\<lambda>r. [ur_SourceID r, ur_Target r, ur_Kind r]) = referenceKey" by (simp add: fun_eq_iff referenceKey_def)
  show ?thesis unfolding rows readUnresolvedReferences_def keyed stored_bindings Let_def map_map o_def RowData.case bare concat_single sorted key
    by simp
qed

lemma published_source:
  assumes "view_rows view t = filter (\<lambda>(source, d). source \<notin> enc_sourcePath ` set (map encodeContribution cs)) old
      @ publishedRows (map encodeContribution cs) t"
    "c \<in> set cs" "distinct (map c_sourcePath cs)"
  shows "filter (\<lambda>(source, d). source = c_sourcePath c) (view_rows view t) = map (Pair (c_sourcePath c)) (storedRows c t)"
proof -
  have path: "enc_sourcePath (encodeContribution x) = c_sourcePath x" for x by (simp add: encodeContribution_def)
  have "filter (\<lambda>(source, d). source = c_sourcePath c) (filter (\<lambda>(source, d). source \<notin> enc_sourcePath ` set (map encodeContribution cs)) old) = []"
    using assms(2) by (auto simp: filter_empty_conv path image_iff)
  moreover have "filter (\<lambda>(source, d). source = c_sourcePath c) (publishedRows (map encodeContribution cs) t) = map (Pair (c_sourcePath c)) (storedRows c t)"
    using assms(2,3)
  proof (induction cs)
    case (Cons x xs)
    have step: "publishedRows (map encodeContribution (x # xs)) t = map (Pair (c_sourcePath x)) (storedRows x t) @ publishedRows (map encodeContribution xs) t"
      by (simp add: publishedRows_def path)
    show ?case
    proof (cases "x = c")
      case True
      have "filter (\<lambda>(source, d). source = c_sourcePath c) (publishedRows (map encodeContribution xs) t) = []"
        using Cons.prems(2) True by (auto simp: publishedRows_def path filter_empty_conv image_iff)
      then show ?thesis unfolding step using True by (simp add: filter_map o_def)
    next
      case False
      then have "c \<in> set xs" "c_sourcePath x \<noteq> c_sourcePath c" using Cons.prems by auto
      then show ?thesis unfolding step using Cons by (simp add: filter_map o_def)
    qed
  qed simp
  ultimately show ?thesis unfolding assms(1) by simp
qed

lemma readProjection_stored:
  assumes "\<And>t. sourceData db sn t (c_sourcePath c) = storedRows c t"
    "readProjection u db sn (c_sourcePath c, c_projectID c, md_Name (c_metadata c), md_Version (c_metadata c)) = Inr p"
  shows "p = projectionOf c"
proof -
  have meta: "(c_metadata c)\<lparr>md_Extensions := x\<rparr> = \<lparr>md_Name = md_Name (c_metadata c), md_Version = md_Version (c_metadata c), md_Extensions = x\<rparr>" for x
    by simp
  from assms(2) show ?thesis
    unfolding readProjection_def storeResolutionDataForSource_def assms(1) Let_def prod.case resolutionData.simps stored_simps
    by (simp add: projectionOf_def meta split: if_splits)
qed

lemma filter_headers:
  "filter (\<lambda>h. fst h = p) (concat (map (\<lambda>(source, d). case d of FileContributionRow i n v \<Rightarrow> [(source, i, n, v)] | _ \<Rightarrow> []) rows))
    = concat (map (\<lambda>(source, d). case d of FileContributionRow i n v \<Rightarrow> [(source, i, n, v)] | _ \<Rightarrow> []) (filter (\<lambda>(source, d). source = p) rows))"
proof (induction rows)
  case (Cons r rows)
  then show ?case by (cases r, cases "snd r") simp_all
qed simp

lemma published_rows:
  assumes "wf_store db" "16 \<le> cfg_variableLimit store"
    "distinct schedule" "set schedule = {..<length (gu_contributions (pub_Update request))}"
    "publish store schedule now request db = Inr (sn, db')"
  shows "distinct (map c_sourcePath (gu_contributions (pub_Update request)))"
    "view_rows (versionView db' (snap_Workspace sn) (snap_Version sn)) t
      = filter (\<lambda>(source, d). source \<notin> enc_sourcePath ` set (map encodeContribution (gu_contributions (pub_Update request))))
          (view_rows (versionView db (pub_Workspace request) (currentVersion db (pub_Workspace request))) t)
        @ publishedRows (map encodeContribution (gu_contributions (pub_Update request))) t"
proof -
  let ?cs = "gu_contributions (pub_Update request)" and ?v = "currentVersion db (pub_Workspace request) + 1"
  have res: "validRequest request" "?v > retainedGraphVersions \<Longrightarrow> recorded db (pub_Workspace request) (retentionBoundary ?v)"
    "db' = publishedStore store ?v now request db" "sn = \<lparr>snap_Workspace = pub_Workspace request, snap_Version = ?v, snap_PublishedAt = now\<rparr>"
    using assms(5) unfolding publish_outcome[OF assms(1-4) refl] by (auto split: if_splits)
  show "distinct (map c_sourcePath ?cs)" using res(1) by (simp add: validRequest_def)
  let ?prev = "versionView db (pub_Workspace request) (currentVersion db (pub_Workspace request))"
  have "storeView db' (pub_Workspace request, ?v) = Some (nextView (cfg_unicode store) (pub_WorkspaceFacts request)
      (pub_ReplacedWorkspaceFactOwners request) (map encodeContribution ?cs) ?prev)"
    unfolding res(3) using res(2) by (subst publishedStore_props(3)[OF assms(1) res(1) refl refl]) auto
  then have "versionView db' (pub_Workspace request) ?v = nextView (cfg_unicode store) (pub_WorkspaceFacts request)
      (pub_ReplacedWorkspaceFactOwners request) (map encodeContribution ?cs) ?prev" by (simp add: storeView_def split: if_splits)
  then show "view_rows (versionView db' (snap_Workspace sn) (snap_Version sn)) t
      = filter (\<lambda>(source, d). source \<notin> enc_sourcePath ` set (map encodeContribution ?cs)) (view_rows ?prev t)
        @ publishedRows (map encodeContribution ?cs) t"
    by (simp add: res(4) nextView_def writtenView_def Let_def)
qed

text \<open>C12: What a resolver reads back is what was published: after a publication, the projections of the
  new version contain exactly one for each published source, and it holds the nodes, edges,
  references with their bindings, surfaces, dependencies and diagnostics of the contribution, each
  sorted and with the first of every key kept - except the receiver types of symbol references,
  which are empty.\<close>

theorem resolver_projection_roundtrip:
  assumes "wf_store db" "16 \<le> cfg_variableLimit store"
    "distinct schedule" "set schedule = {..<length (gu_contributions (pub_Update request))}"
    "publish store schedule now request db = Inr (sn, db')"
    "readProjections u db' sn = Inr ps" "c \<in> set (gu_contributions (pub_Update request))"
  shows "filter (\<lambda>p. rp_SourcePath p = c_sourcePath c) ps = [projectionOf c]"
proof -
  let ?p = "c_sourcePath c"
  note stored = published_source[OF published_rows(2)[OF assms(1-5)] assms(7) published_rows(1)[OF assms(1-5)]]
  have data: "sourceData db' sn t ?p = storedRows c t" for t unfolding sourceData_view stored by (simp add: o_def)
  let ?header = "(?p, c_projectID c, md_Name (c_metadata c), md_Version (c_metadata c))"
  have "storedRows c file_contributions = [FileContributionRow (c_projectID c) (md_Name (c_metadata c)) (md_Version (c_metadata c))]"
    by (simp add: contributionData_def encodeContribution_def)
  with stored[of file_contributions] have "filter (\<lambda>h. fst h = ?p) (projectionHeaders db' sn) = [?header]"
    unfolding projectionHeaders_view filter_sort filter_headers by simp
  moreover have "rp_SourcePath p = ?p \<longleftrightarrow> fst h = ?p" if "readProjection u db' sn h = Inr p" for h p
    using that by (cases h) (auto simp: readProjection_def Let_def split: if_splits)
  ultimately have "mapRes (readProjection u db' sn) [?header] = Inr (filter (\<lambda>p. rp_SourcePath p = ?p) ps)"
    using mapRes_filter[of "readProjection u db' sn" "projectionHeaders db' sn" ps "\<lambda>p. rp_SourcePath p = ?p" "\<lambda>h. fst h = ?p"] assms(6)
    by (simp add: readProjections_def)
  then show ?thesis using readProjection_stored[OF data] by (auto simp: res_simps)
qed

text \<open>A publication of one contribution as the first version of a workspace.\<close>

definition requestOf :: "Contribution \<Rightarrow> PublishRequest" where
  "requestOf c = \<lparr>pub_Workspace = ''w'', pub_Update = \<lparr>gu_contributions = [c]\<rparr>,
     pub_WorkspaceFacts = \<lparr>facts_Nodes = [], facts_Edges = []\<rparr>, pub_ReplacedWorkspaceFactOwners = []\<rparr>"

definition roundtrip_request :: PublishRequest where
  "roundtrip_request = requestOf (sample_contribution ''a'' [sample_node ''n'' ''file''])"

lemma requestOf_sel [simp]: "pub_Workspace (requestOf c) = ''w''" "gu_contributions (pub_Update (requestOf c)) = [c]"
  "pub_WorkspaceFacts (requestOf c) = \<lparr>facts_Nodes = [], facts_Edges = []\<rparr>" "pub_ReplacedWorkspaceFactOwners (requestOf c) = []"
  by (simp_all add: requestOf_def)

lemma requestOf_schedule: "distinct [0 :: nat]" "set [0] = {..<length (gu_contributions (pub_Update (requestOf c)))}"
  by auto

lemma normalized_go: "validateMetadata asciiTables \<lparr>md_Name = ''go'', md_Version = ''1'', md_Extensions = [''.go'']\<rparr> = None"
proof -
  have trimmed: "TrimSpace ''.go'' = ''.go''"
    by (simp add: TrimSpace_def TrimFunc_def trimSeg_def segments.simps runeOf_def isSpace_def byte_def Let_def)
  have "ToLower asciiTables ''.go'' \<noteq> ''''"
    by (simp add: ToLower_def runes_def segments.simps encodeRunes_def)
  then have "normalizeExtension asciiTables ''.go'' \<noteq> ''''" unfolding normalizeExtension_def trimmed Let_def by simp
  then show ?thesis unfolding validateMetadata_None metadata_ok_def by simp
qed

lemma single_read:
  assumes "publish sample_config [0] 30 (requestOf c) emptyDatabase = Inr (sn, db')"
    "c_metadata c = \<lparr>md_Name = ''go'', md_Version = ''1'', md_Extensions = [''.go'']\<rparr>"
  shows "readProjections asciiTables db' sn = Inr [projectionOf c]"
proof -
  note rows = published_rows(2)[OF wf_empty sample_limit requestOf_schedule assms(1)]
  have path: "enc_sourcePath (encodeContribution c) = c_sourcePath c" by (simp add: encodeContribution_def)
  have "view_rows (versionView db' (snap_Workspace sn) (snap_Version sn)) t = map (Pair (c_sourcePath c)) (storedRows c t)" for t
    unfolding rows by (simp add: versionView_def visibleRows_def publishedRows_def emptyDatabase_def path)
  then have data: "sourceData db' sn t (c_sourcePath c) = storedRows c t" for t by (simp add: sourceData_view o_def)
  let ?header = "(c_sourcePath c, c_projectID c, md_Name (c_metadata c), md_Version (c_metadata c))"
  have "projectionHeaders db' sn = [?header]"
    using \<open>\<And>t. view_rows (versionView db' (snap_Workspace sn) (snap_Version sn)) t = map (Pair (c_sourcePath c)) (storedRows c t)\<close>
    by (simp add: projectionHeaders_view o_def contributionData_def encodeContribution_def)
  moreover have "res_Extensions (storeResolutionDataForSource db' sn (c_sourcePath c)) = [''.go'']"
    unfolding storeResolutionDataForSource_def Let_def resolutionData.simps data stored_simps by (simp add: assms(2))
  then have "readProjection asciiTables db' sn ?header \<noteq> Inl e" for e
    using normalized_go unfolding readProjection_def by (simp add: Let_def assms(2))
  then obtain p where "readProjection asciiTables db' sn ?header = Inr p" by (cases "readProjection asciiTables db' sn ?header") auto
  moreover from this have "p = projectionOf c" by (rule readProjection_stored[OF data])
  ultimately show ?thesis by (simp add: readProjections_def)
qed

lemma roundtrip_read:
  assumes "publish sample_config [0] 30 roundtrip_request emptyDatabase = Inr (sn, db')"
  shows "\<exists>p. readProjections asciiTables db' sn = Inr [p]"
  using single_read[OF assms[unfolded roundtrip_request_def]] by (simp add: sample_contribution_def)

lemma single_publish:
  assumes "validRequest (requestOf c)"
  shows "\<exists>sn db'. publish sample_config [0] 30 (requestOf c) emptyDatabase = Inr (sn, db')"
proof -
  have cur: "currentVersion emptyDatabase (pub_Workspace (requestOf c)) = 0" by (simp add: currentVersion_def workspaceVersions_def emptyDatabase_def)
  show ?thesis
    using publish_outcome[OF wf_empty sample_limit requestOf_schedule refl, of 30 c] assms cur
    by (simp add: retainedGraphVersions_def res_of_err_def ensureDatabaseBudget_def tooManyOwners_def) (simp add: sample_config_def)
qed

lemma roundtrip_publish: "\<exists>sn db'. publish sample_config [0] 30 roundtrip_request emptyDatabase = Inr (sn, db')"
  unfolding roundtrip_request_def by (rule single_publish) (simp add: validRequest_def sample_contribution_def)

theorem resolver_projection_roundtrip_witness:
  "\<exists>sn db' ps. publish sample_config [0] 30 roundtrip_request emptyDatabase = Inr (sn, db')
    \<and> readProjections asciiTables db' sn = Inr ps
    \<and> filter (\<lambda>p. rp_SourcePath p = ''a'') ps = [projectionOf (sample_contribution ''a'' [sample_node ''n'' ''file''])]"
proof -
  have sched: "distinct [0 :: nat]" "set [0] = {..<length (gu_contributions (pub_Update roundtrip_request))}"
    by (auto simp: roundtrip_request_def)
  obtain sn db' where p: "publish sample_config [0] 30 roundtrip_request emptyDatabase = Inr (sn, db')" using roundtrip_publish by blast
  obtain ps where ps: "readProjections asciiTables db' sn = Inr ps" using roundtrip_read[OF p] by blast
  have uni: "cfg_unicode sample_config = asciiTables" by (simp add: sample_config_def)
  have "filter (\<lambda>p. rp_SourcePath p = c_sourcePath (sample_contribution ''a'' [sample_node ''n'' ''file''])) ps
      = [projectionOf (sample_contribution ''a'' [sample_node ''n'' ''file''])]"
    by (rule resolver_projection_roundtrip[OF wf_empty sample_limit sched p ps]) (simp add: roundtrip_request_def)
  moreover have "c_sourcePath (sample_contribution ''a'' [sample_node ''n'' ''file'']) = ''a''" by (simp add: sample_contribution_def)
  ultimately show ?thesis using p ps by (intro exI conjI) simp_all
qed

lemma cached_life: "cached_reach sample_config maximum (versionsStore 1 2) emptyCache"
proof -
  have inv: "invalidateWorkspaceCaches ws remove emptyCache = emptyCache" for ws remove by (simp add: invalidateWorkspaceCaches_def emptyCache_def)
  have "publishTimes 2 emptyDatabase = Inr (versionsStore 1 2)" using publishTimes_empty[of 2] by simp
  have step: "cached_reach sample_config maximum db' emptyCache"
    if "cached_reach sample_config maximum db emptyCache" "publish sample_config [] now emptyRequest db = Inr (sn, db')" for db now sn db'
    using cached_reach.published[OF that(1) _ _ that(2)] by (simp add: inv)
  have "cached_reach sample_config maximum db' emptyCache" if "cached_reach sample_config maximum db emptyCache" "publishTimes n db = Inr db'" for n db db'
    using that
  proof (induction n arbitrary: db)
    case (Suc n)
    then obtain sn d where "publish sample_config [] 0 emptyRequest db = Inr (sn, d)" "publishTimes n d = Inr db'"
      by (auto split: sum.splits)
    with Suc.IH step[OF Suc.prems(1)] show ?case by blast
  qed simp
  then show ?thesis using cached_reach.opened \<open>publishTimes 2 emptyDatabase = Inr (versionsStore 1 2)\<close> by blast
qed

theorem projection_cache_is_transparent_witness:
  "\<exists>cache. cached_reach sample_config 1000 (versionsStore 1 2) cache \<and> cache \<noteq> emptyCache
    \<and> fst (ResolverProjections asciiTables 1000 (versionsStore 1 2) (atVersion (''w'', 2)) cache)
      = readProjections asciiTables (versionsStore 1 2) (atVersion (''w'', 2))"
proof -
  let ?cache = "snd (ResolverProjections (cfg_unicode sample_config) 1000 (versionsStore 1 2) (atVersion (''w'', 2)) emptyCache)"
  have reach: "cached_reach sample_config 1000 (versionsStore 1 2) ?cache" by (rule cached_reach.read[OF cached_life])
  have "readProjections (cfg_unicode sample_config) (versionsStore 1 2) (atVersion (''w'', 2)) = Inr []"
    by (simp add: readProjections_def projectionHeaders_def visibleRows_def versionsStore_def emptyDatabase_def)
  then have "?cache \<noteq> emptyCache"
    by (simp add: ResolverProjections_def atVersion_def cachedResolverProjections_def emptyCache_def cacheResolverProjections_def
        resolverProjectionBytes_def Let_def)
  moreover have "cfg_unicode sample_config = asciiTables" by (simp add: sample_config_def)
  ultimately show ?thesis using reach projection_cache_is_transparent[OF reach sample_limit, of "atVersion (''w'', 2)"]
    by (intro exI[of _ ?cache]) (simp add: atVersion_def)
qed

end
