(* ===== verification/PathFinding.thy ===== *)
theory PathFinding
  imports Storage
begin

text \<open>
  query/path.go: endpoint resolution and the shortest path over the facts of a bounded traversal.
  The breadth-first loop keeps the code's frontier, seen set and predecessor map; the walk back
  through the predecessors may in principle not end, so it is a partial function and its ending
  is a theorem.  Walks of the fact graph are the specification.
\<close>

subsection \<open>The breadth-first search\<close>

definition pathEdgeKey :: "Edge \<Rightarrow> string" where
  "pathEdgeKey edge = edge_SourceID edge @ [CHR 0x00] @ edge_TargetID edge @ [CHR 0x00] @ edge_Relation edge"

definition nodeMap :: "Node list \<Rightarrow> string \<rightharpoonup> Node" where
  "nodeMap ns = fold (\<lambda>n m. m(node_ID n \<mapsto> n)) ns Map.empty"

definition addEdgeBySource :: "bool \<Rightarrow> Edge \<Rightarrow> (string \<Rightarrow> Edge list) \<Rightarrow> string \<Rightarrow> Edge list" where
  "addEdgeBySource undirected edge m =
    (let m1 = m(edge_SourceID edge := m (edge_SourceID edge) @ [edge])
     in if undirected then m1(edge_TargetID edge := m1 (edge_TargetID edge) @ [edge]) else m1)"

definition edgesBySource :: "bool \<Rightarrow> Edge list \<Rightarrow> string \<Rightarrow> Edge list" where
  "edgesBySource undirected edges =
     (let m = fold (addEdgeBySource undirected) edges (\<lambda>_. [])
      in (\<lambda>source. sort_key pathEdgeKey (m source)))"

definition pathNeighbor :: "bool \<Rightarrow> string \<Rightarrow> Edge \<Rightarrow> string" where
  "pathNeighbor undirected nodeID edge =
     (if undirected \<and> edge_TargetID edge = nodeID then edge_SourceID edge else edge_TargetID edge)"

type_synonym predecessors = "string \<rightharpoonup> string \<times> Edge"

fun expandEdges :: "bool \<Rightarrow> string set \<Rightarrow> string \<Rightarrow> Edge list
    \<Rightarrow> string list \<times> string set \<times> predecessors \<Rightarrow> string list \<times> string set \<times> predecessors" where
  "expandEdges undirected ids nodeID [] st = st"
| "expandEdges undirected ids nodeID (edge # edges) (frontier, seen, preds) =
    (let neighborID = pathNeighbor undirected nodeID edge in
     if neighborID \<notin> ids then expandEdges undirected ids nodeID edges (frontier, seen, preds)
     else if neighborID \<in> seen then expandEdges undirected ids nodeID edges (frontier, seen, preds)
     else expandEdges undirected ids nodeID edges
            (frontier @ [neighborID], insert neighborID seen, preds(neighborID \<mapsto> (nodeID, edge))))"

lemma expandEdges_shape:
  "expandEdges und ids x es (fr, seen, pr) = (fr', seen', pr') \<Longrightarrow>
     \<exists>new. fr' = fr @ new \<and> seen' = seen \<union> set new \<and> distinct new \<and> set new \<inter> seen = {} \<and> set new \<subseteq> ids
       \<and> (\<forall>y. y \<notin> set new \<longrightarrow> pr' y = pr y)
       \<and> (\<forall>y\<in>set new. \<exists>e\<in>set es. pr' y = Some (x, e) \<and> pathNeighbor und x e = y)
       \<and> (\<forall>e\<in>set es. pathNeighbor und x e \<in> ids \<longrightarrow> pathNeighbor und x e \<in> seen')"
proof (induction es arbitrary: fr seen pr)
  case Nil
  then show ?case by (intro exI[of _ "[]"]) simp
next
  case (Cons e es)
  let ?y = "pathNeighbor und x e"
  show ?case
  proof (cases "?y \<in> ids \<and> ?y \<notin> seen")
    case True
    with Cons.prems have "expandEdges und ids x es (fr @ [?y], insert ?y seen, pr(?y \<mapsto> (x, e)))
        = (fr', seen', pr')" by (simp add: Let_def)
    from Cons.IH[OF this] obtain new where
      n: "fr' = (fr @ [?y]) @ new" "seen' = insert ?y seen \<union> set new" "distinct new"
        "set new \<inter> insert ?y seen = {}" "set new \<subseteq> ids"
        "\<forall>y. y \<notin> set new \<longrightarrow> pr' y = (pr(?y \<mapsto> (x, e))) y"
        "\<forall>y\<in>set new. \<exists>e\<in>set es. pr' y = Some (x, e) \<and> pathNeighbor und x e = y"
        "\<forall>e\<in>set es. pathNeighbor und x e \<in> ids \<longrightarrow> pathNeighbor und x e \<in> seen'"
      by blast
    then show ?thesis using True by (intro exI[of _ "?y # new"]) auto
  next
    case False
    then have "expandEdges und ids x es (fr, seen, pr) = (fr', seen', pr')"
      using Cons.prems by (auto simp: Let_def split: if_splits)
    from Cons.IH[OF this] obtain new where "fr' = fr @ new" "seen' = seen \<union> set new" "distinct new"
        "set new \<inter> seen = {}" "set new \<subseteq> ids" "\<forall>y. y \<notin> set new \<longrightarrow> pr' y = pr y"
        "\<forall>y\<in>set new. \<exists>e\<in>set es. pr' y = Some (x, e) \<and> pathNeighbor und x e = y"
        "\<forall>e\<in>set es. pathNeighbor und x e \<in> ids \<longrightarrow> pathNeighbor und x e \<in> seen'"
      by blast
    then show ?thesis using False by (intro exI[of _ new]) auto
  qed
qed

function bfsLoop :: "bool \<Rightarrow> Node list \<Rightarrow> (string \<Rightarrow> Edge list) \<Rightarrow> string
    \<Rightarrow> string list \<times> string set \<times> predecessors \<Rightarrow> string list \<times> string set \<times> predecessors" where
  "bfsLoop undirected nodes adj targetID ([], seen, preds) = ([], seen, preds)"
| "bfsLoop undirected nodes adj targetID (nodeID # frontier, seen, preds) =
    (if nodeID = targetID then (nodeID # frontier, seen, preds)
     else bfsLoop undirected nodes adj targetID
            (expandEdges undirected (set (map node_ID nodes)) nodeID (adj nodeID) (frontier, seen, preds)))"
  by pat_completeness auto

termination
proof (relation "measures [\<lambda>(und, ns, adj, t, fr, seen, pr). card (set (map node_ID ns) - seen),
    \<lambda>(und, ns, adj, t, fr, seen, pr). length fr]", simp)
  fix und ns and adj :: "string \<Rightarrow> Edge list" and t x fr seen pr
  let ?ids = "set (map node_ID ns)"
  obtain fr' seen' pr' where e: "expandEdges und ?ids x (adj x) (fr, seen, pr) = (fr', seen', pr')"
    by (cases "expandEdges und ?ids x (adj x) (fr, seen, pr)") auto
  note e' = e[simplified]
  from expandEdges_shape[OF e] obtain new where
    n: "fr' = fr @ new" "seen' = seen \<union> set new" "set new \<inter> seen = {}" "set new \<subseteq> ?ids"
    by blast
  show "((und, ns, adj, t, expandEdges und ?ids x (adj x) (fr, seen, pr)), und, ns, adj, t, x # fr, seen, pr)
    \<in> measures [\<lambda>(und, ns, adj, t, fr, seen, pr). card (set (map node_ID ns) - seen),
        \<lambda>(und, ns, adj, t, fr, seen, pr). length fr]"
  proof (cases "new = []")
    case True
    then show ?thesis using n by (simp add: e')
  next
    case False
    then have "?ids - seen' \<subset> ?ids - seen" using n by (cases new) auto
    then have "card (?ids - seen') < card (?ids - seen)" by (intro psubset_card_mono) auto
    then show ?thesis by (simp add: e')
  qed
qed

definition predecessorOf :: "predecessors \<Rightarrow> string \<Rightarrow> string \<times> Edge" where
  "predecessorOf preds nodeID = (case preds nodeID of Some p \<Rightarrow> p | None \<Rightarrow> ('''', zero_Edge))"

definition nodeOf :: "(string \<rightharpoonup> Node) \<Rightarrow> string \<Rightarrow> Node" where
  "nodeOf m nodeID = (case m nodeID of Some n \<Rightarrow> n | None \<Rightarrow> zero_Node)"

partial_function (option) walkBack :: "(string \<rightharpoonup> Node) \<Rightarrow> predecessors \<Rightarrow> string \<Rightarrow> string
    \<Rightarrow> Node list \<times> Edge list \<Rightarrow> (Node list \<times> Edge list) option" where
  "walkBack nodes preds sourceID nodeID acc =
    (if nodeID = sourceID then Some acc
     else walkBack nodes preds sourceID (fst (predecessorOf preds nodeID))
            (fst acc @ [nodeOf nodes (fst (predecessorOf preds nodeID))],
             snd acc @ [snd (predecessorOf preds nodeID)]))"

declare walkBack.simps [code]

record ScopeBoundary =
  boundary_Node :: Node

record PathResult =
  path_SourceCandidates :: "Node list"
  path_SourceRemainderCount :: int
  path_TargetCandidates :: "Node list"
  path_TargetRemainderCount :: int
  path_Nodes :: "Node list"
  path_Edges :: "Edge list"
  path_ScopeBoundary :: "ScopeBoundary option"
  path_UsedUndirectedFallback :: bool
  path_UndirectedFallbackAttempted :: bool

definition empty_PathResult :: PathResult where
  "empty_PathResult = \<lparr>path_SourceCandidates = [], path_SourceRemainderCount = 0,
     path_TargetCandidates = [], path_TargetRemainderCount = 0, path_Nodes = [], path_Edges = [],
     path_ScopeBoundary = None, path_UsedUndirectedFallback = False,
     path_UndirectedFallbackAttempted = False\<rparr>"

definition shortestPath :: "Facts \<Rightarrow> string \<Rightarrow> string \<Rightarrow> bool \<Rightarrow> PathResult option" where
  "shortestPath facts sourceID targetID undirected =
    (let nodes = nodeMap (facts_Nodes facts) in
     if nodes sourceID = None then Some empty_PathResult
     else if nodes targetID = None then Some empty_PathResult
     else case bfsLoop undirected (facts_Nodes facts) (edgesBySource undirected (facts_Edges facts)) targetID
                 ([sourceID], {sourceID}, Map.empty) of
       (frontier, seen, preds) \<Rightarrow>
         if targetID \<notin> seen then Some empty_PathResult
         else map_option (\<lambda>(pathNodes, pathEdges).
                empty_PathResult\<lparr>path_Nodes := rev pathNodes, path_Edges := rev pathEdges\<rparr>)
              (walkBack nodes preds sourceID targetID ([nodeOf nodes targetID], [])))"

definition directedPath :: "Facts \<Rightarrow> string \<Rightarrow> string \<Rightarrow> PathResult option" where
  "directedPath facts sourceID targetID = shortestPath facts sourceID targetID False"

definition undirectedPath :: "Facts \<Rightarrow> string \<Rightarrow> string \<Rightarrow> PathResult option" where
  "undirectedPath facts sourceID targetID = shortestPath facts sourceID targetID True"

subsection \<open>Specification: walks of the fact graph\<close>

text \<open>
  A walk from x to y is a list of facts edges, each leaving the current node (or, for an undirected
  walk, entering it), all of whose visited nodes are nodes of the facts.
\<close>

definition edge_step :: "bool \<Rightarrow> Edge \<Rightarrow> string \<Rightarrow> string \<Rightarrow> bool" where
  "edge_step und e x y \<longleftrightarrow> (edge_SourceID e = x \<and> edge_TargetID e = y)
     \<or> (und \<and> edge_TargetID e = x \<and> edge_SourceID e = y)"

fun walk :: "bool \<Rightarrow> Facts \<Rightarrow> string \<Rightarrow> (Edge \<times> string) list \<Rightarrow> string \<Rightarrow> bool" where
  "walk und F x [] y \<longleftrightarrow> x = y"
| "walk und F x ((e, z) # steps) y \<longleftrightarrow> e \<in> set (facts_Edges F) \<and> edge_step und e x z
     \<and> z \<in> node_ID ` set (facts_Nodes F) \<and> walk und F z steps y"

lemma walk_append [simp]: "walk und F x (p @ q) y \<longleftrightarrow> (\<exists>z. walk und F x p z \<and> walk und F z q y)"
  by (induction p arbitrary: x) auto

lemma fold_addEdgeBySource:
  "set (fold (addEdgeBySource und) es m x)
     = set (m x) \<union> {e \<in> set es. edge_SourceID e = x \<or> (und \<and> edge_TargetID e = x)}"
  by (induction es arbitrary: m) (auto simp: addEdgeBySource_def Let_def)

lemma set_edgesBySource:
  "set (edgesBySource und es x) = {e \<in> set es. edge_SourceID e = x \<or> (und \<and> edge_TargetID e = x)}"
  by (simp add: edgesBySource_def Let_def fold_addEdgeBySource)

text \<open>The neighbour the loop computes is exactly the node an edge steps to.\<close>

lemma neighbor_step:
  assumes "e \<in> set (edgesBySource und es x)"
  shows "e \<in> set es" "edge_step und e x (pathNeighbor und x e)"
  using assms by (auto simp: set_edgesBySource edge_step_def pathNeighbor_def)

lemma step_neighbor:
  assumes "e \<in> set es" "edge_step und e x y"
  shows "e \<in> set (edgesBySource und es x) \<and> (pathNeighbor und x e = y \<or> y = x)"
  using assms by (auto simp: set_edgesBySource edge_step_def pathNeighbor_def)

lemma nodeMap_aux:
  "fold (\<lambda>n m. m(node_ID n \<mapsto> n)) ns m i = Some n \<Longrightarrow> m i = Some n \<or> (n \<in> set ns \<and> node_ID n = i)"
  by (induction ns arbitrary: m) (fastforce split: if_splits)+

lemma nodeMap_Some: "nodeMap ns i = Some n \<Longrightarrow> n \<in> set ns \<and> node_ID n = i"
  using nodeMap_aux[of ns Map.empty i n] by (simp add: nodeMap_def)

lemma dom_nodeMap_aux: "dom (fold (\<lambda>n m. m(node_ID n \<mapsto> n)) ns m) = dom m \<union> node_ID ` set ns"
  by (induction ns arbitrary: m) auto

lemma dom_nodeMap [simp]: "dom (nodeMap ns) = node_ID ` set ns"
  by (simp add: nodeMap_def dom_nodeMap_aux)

lemma nodeMap_None [simp]: "nodeMap ns i = None \<longleftrightarrow> i \<notin> node_ID ` set ns"
  using dom_nodeMap[of ns] by (metis domIff)

lemma nodeOf_node: "i \<in> node_ID ` set ns \<Longrightarrow> nodeOf (nodeMap ns) i \<in> set ns \<and> node_ID (nodeOf (nodeMap ns) i) = i"
  by (cases "nodeMap ns i") (auto simp: nodeOf_def dest: nodeMap_Some)

subsection \<open>The invariant of the search\<close>

text \<open>
  The invariant carries a depth for every seen node: the predecessor is one level up, the frontier
  holds at most two consecutive levels in order, and every node that left the frontier has all its
  neighbours seen, at most one level deeper.
\<close>

definition bfs_inv :: "bool \<Rightarrow> Facts \<Rightarrow> string \<Rightarrow> (string \<Rightarrow> nat) \<Rightarrow> string list \<times> string set \<times> predecessors \<Rightarrow> bool" where
  "bfs_inv und F s d st \<longleftrightarrow> (case st of (frontier, seen, preds) \<Rightarrow>
     s \<in> seen \<and> d s = 0 \<and> seen \<subseteq> node_ID ` set (facts_Nodes F)
     \<and> set frontier \<subseteq> seen \<and> distinct frontier \<and> sorted (map d frontier)
     \<and> (\<forall>x\<in>seen. \<forall>f\<in>set frontier. d x \<le> Suc (d f))
     \<and> (\<forall>x\<in>seen - set frontier. \<forall>f\<in>set frontier. d x \<le> d f)
     \<and> (\<forall>x\<in>seen. x \<noteq> s \<longrightarrow> (\<exists>p e. preds x = Some (p, e) \<and> p \<in> seen \<and> d x = Suc (d p)
          \<and> e \<in> set (facts_Edges F) \<and> edge_step und e p x))
     \<and> (\<forall>x\<in>seen - set frontier. \<forall>e y. e \<in> set (facts_Edges F) \<longrightarrow> edge_step und e x y
          \<longrightarrow> y \<in> node_ID ` set (facts_Nodes F) \<longrightarrow> y \<in> seen \<and> d y \<le> Suc (d x)))"

lemma bfs_inv_init:
  "s \<in> node_ID ` set (facts_Nodes F) \<Longrightarrow> bfs_inv und F s (\<lambda>_. 0) ([s], {s}, Map.empty)"
  by (simp add: bfs_inv_def)

lemma bfs_inv_expand:
  assumes inv: "bfs_inv und F s d (x # fr, seen, pr)"
    and ex: "expandEdges und (node_ID ` set (facts_Nodes F)) x (edgesBySource und (facts_Edges F) x)
               (fr, seen, pr) = (fr', seen', pr')"
  shows "\<exists>d'. bfs_inv und F s d' (fr', seen', pr')"
proof -
  let ?ids = "node_ID ` set (facts_Nodes F)"
  from expandEdges_shape[OF ex] obtain new where
    fr': "fr' = fr @ new" and seen': "seen' = seen \<union> set new" and new: "distinct new" "set new \<inter> seen = {}"
      "set new \<subseteq> ?ids" and keep: "\<forall>y. y \<notin> set new \<longrightarrow> pr' y = pr y"
    and add: "\<forall>y\<in>set new. \<exists>e\<in>set (edgesBySource und (facts_Edges F) x). pr' y = Some (x, e) \<and> pathNeighbor und x e = y"
    and all: "\<forall>e\<in>set (edgesBySource und (facts_Edges F) x). pathNeighbor und x e \<in> ?ids \<longrightarrow> pathNeighbor und x e \<in> seen'"
    by blast
  define d' where "d' = (\<lambda>y. if y \<in> set new then Suc (d x) else d y)"
  have inv': "s \<in> seen" "d s = 0" "seen \<subseteq> ?ids" "x \<in> seen" "set fr \<subseteq> seen" "x \<notin> set fr" "distinct fr"
    "sorted (map d fr)" "\<forall>f\<in>set fr. d x \<le> d f" "\<forall>y\<in>seen. d y \<le> Suc (d x)"
    using inv by (auto simp: bfs_inv_def)
  note I = inv[unfolded bfs_inv_def prod.case]
  have low2: "\<forall>y\<in>seen. \<forall>f\<in>set (x # fr). d y \<le> Suc (d f)"
    and low3: "\<forall>y\<in>seen - set (x # fr). \<forall>f\<in>set (x # fr). d y \<le> d f"
    and preds: "\<forall>y\<in>seen. y \<noteq> s \<longrightarrow> (\<exists>p e. pr y = Some (p, e) \<and> p \<in> seen \<and> d y = Suc (d p)
          \<and> e \<in> set (facts_Edges F) \<and> edge_step und e p y)"
    and closed: "\<forall>y\<in>seen - set (x # fr). \<forall>e z. e \<in> set (facts_Edges F) \<longrightarrow> edge_step und e y z
          \<longrightarrow> z \<in> ?ids \<longrightarrow> z \<in> seen \<and> d z \<le> Suc (d y)"
    using I by - (elim conjE, assumption)+
  have finished: "\<And>y e z. y \<in> seen \<Longrightarrow> y \<notin> set (x # fr) \<Longrightarrow> e \<in> set (facts_Edges F)
      \<Longrightarrow> edge_step und e y z \<Longrightarrow> z \<in> ?ids \<Longrightarrow> z \<in> seen \<and> d z \<le> Suc (d y)"
    using closed by blast
  have low: "\<forall>y\<in>seen - set fr. d y \<le> d x" "\<forall>y\<in>seen. \<forall>f\<in>set fr. d y \<le> Suc (d f)"
    using low2 low3 by auto
  have d'old: "\<And>y. y \<in> seen \<Longrightarrow> d' y = d y" using new(2) by (auto simp: d'_def)
  have d'new: "\<And>y. y \<in> set new \<Longrightarrow> d' y = Suc (d x)" by (simp add: d'_def)
  have mo: "map d' fr = map d fr" using inv'(5) d'old by auto
  have mn: "map d' new = replicate (length new) (Suc (d x))"
    unfolding map_replicate_const[symmetric] by (intro map_cong refl d'new)
  have c1: "sorted (map d' fr')"
    using inv' unfolding fr' map_append mo mn by (auto simp: sorted_append)
  have c2: "\<forall>y\<in>seen'. \<forall>f\<in>set fr'. d' y \<le> Suc (d' f)"
  proof (intro ballI)
    fix y f assume "y \<in> seen'" "f \<in> set fr'"
    then have y: "y \<in> set new \<or> y \<in> seen" and f: "f \<in> set new \<or> (f \<in> set fr \<and> f \<in> seen)"
      using inv'(5) by (auto simp: fr' seen')
    have "d' y \<le> Suc (d x)" using y inv'(10) d'old d'new by auto
    moreover have "y \<in> seen \<Longrightarrow> f \<in> set fr \<Longrightarrow> d y \<le> Suc (d f)" using low(2) by blast
    ultimately show "d' y \<le> Suc (d' f)" using y f inv'(9) d'old d'new by fastforce
  qed
  have c3: "\<forall>y\<in>seen' - set fr'. \<forall>f\<in>set fr'. d' y \<le> d' f"
  proof (intro ballI)
    fix y f assume "y \<in> seen' - set fr'" "f \<in> set fr'"
    then have y: "y \<in> seen - set fr" and f: "f \<in> set new \<or> (f \<in> set fr \<and> f \<in> seen)"
      using inv'(5) by (auto simp: fr' seen')
    have "d' y \<le> d x" using y low(1) d'old by auto
    moreover have "d x \<le> d' f" using f inv'(9) d'old d'new by auto
    ultimately show "d' y \<le> d' f" by simp
  qed
  have c4: "\<exists>p e. pr' y = Some (p, e) \<and> p \<in> seen' \<and> d' y = Suc (d' p) \<and> e \<in> set (facts_Edges F) \<and> edge_step und e p y"
    if "y \<in> seen'" "y \<noteq> s" for y
  proof (cases "y \<in> set new")
    case True
    then show ?thesis using add inv'(4) d'old d'new neighbor_step unfolding seen' by fastforce
  next
    case False
    then show ?thesis using preds keep that d'old unfolding seen' by fastforce
  qed
  have c5: "z \<in> seen' \<and> d' z \<le> Suc (d' y)"
    if y: "y \<in> seen'" "y \<notin> set fr'" and e: "e \<in> set (facts_Edges F)" "edge_step und e y z" "z \<in> ?ids" for y e z
  proof (cases "y = x")
    case True
    have "z \<in> seen'" using step_neighbor[OF e(1,2)] all e(3) True inv'(4) unfolding seen' by auto
    then show ?thesis using True inv'(4,10) d'old d'new unfolding seen' by auto
  next
    case False
    with y have "y \<in> seen" "y \<notin> set (x # fr)" unfolding fr' seen' by auto
    from finished[OF this e] this show ?thesis using d'old unfolding seen' by auto
  qed
  have c6: "\<forall>y\<in>seen' - set fr'. \<forall>e z. e \<in> set (facts_Edges F) \<longrightarrow> edge_step und e y z
      \<longrightarrow> z \<in> ?ids \<longrightarrow> z \<in> seen' \<and> d' z \<le> Suc (d' y)"
    using c5 unfolding fr' by auto
  have c7: "\<forall>y\<in>seen'. y \<noteq> s \<longrightarrow> (\<exists>p e. pr' y = Some (p, e) \<and> p \<in> seen' \<and> d' y = Suc (d' p)
      \<and> e \<in> set (facts_Edges F) \<and> edge_step und e p y)"
    using c4 by blast
  have c8: "s \<in> seen'" "d' s = 0" "seen' \<subseteq> ?ids" "set fr' \<subseteq> seen'" "distinct fr'"
    using inv'(1,2,3,5,7) new d'old unfolding fr' seen' by auto
  have "bfs_inv und F s d' (fr', seen', pr')"
    unfolding bfs_inv_def prod.case by (intro conjI c1 c2 c3 c6 c7 c8)
  then show ?thesis by blast
qed

lemma bfs_inv_loop:
  assumes "bfs_inv und F s d st"
  shows "\<exists>d'. bfs_inv und F s d' (bfsLoop und (facts_Nodes F) (edgesBySource und (facts_Edges F)) t st)"
  using assms
proof (induction und "facts_Nodes F" "edgesBySource und (facts_Edges F)" t st arbitrary: d
    rule: bfsLoop.induct)
  case (1 und t seen preds)
  then show ?case by auto
next
  case (2 und t x fr seen pr)
  show ?case
  proof (cases "x = t")
    case True
    then show ?thesis using 2 by auto
  next
    case False
    obtain fr' seen' pr' where ex: "expandEdges und (node_ID ` set (facts_Nodes F)) x
       (edgesBySource und (facts_Edges F) x) (fr, seen, pr) = (fr', seen', pr')"
      by (metis prod.exhaust)
    from bfs_inv_expand[OF 2(2) ex] obtain d' where "bfs_inv und F s d' (fr', seen', pr')" by blast
    with 2(1)[OF False, of d'] ex False show ?thesis by simp
  qed
qed

lemma bfsLoop_end:
  "bfsLoop und ns adj t st = (fr, seen, pr) \<Longrightarrow> fr = [] \<or> hd fr = t"
  by (induction und ns adj t st rule: bfsLoop.induct) (auto split: if_splits)

lemma bfs_minimal:
  assumes inv: "bfs_inv und F s d (fr, seen, pr)" and fin: "fr = [] \<or> hd fr = t"
    and w: "walk und F s p t"
  shows "t \<in> seen \<and> d t \<le> length p"
proof -
  note I = inv[unfolded bfs_inv_def prod.case]
  have s: "s \<in> seen" "d s = 0" "set fr \<subseteq> seen" and srt: "sorted (map d fr)"
    and closed: "\<forall>y\<in>seen - set fr. \<forall>e z. e \<in> set (facts_Edges F) \<longrightarrow> edge_step und e y z
          \<longrightarrow> z \<in> node_ID ` set (facts_Nodes F) \<longrightarrow> z \<in> seen \<and> d z \<le> Suc (d y)"
    using I by - (elim conjE, assumption)+
  have "walk und F s p y \<Longrightarrow> (y \<in> seen \<and> d y \<le> length p) \<or> (fr \<noteq> [] \<and> d t < length p)" for y
  proof (induction p arbitrary: y rule: rev_induct)
    case Nil
    then show ?case using s by simp
  next
    case (snoc st p)
    obtain e z where st: "st = (e, z)" by (cases st)
    with snoc.prems obtain y' where y': "walk und F s p y'" "e \<in> set (facts_Edges F)"
      "edge_step und e y' z" "z \<in> node_ID ` set (facts_Nodes F)" "z = y" by auto
    from snoc.IH[OF y'(1)] show ?case
    proof
      assume h: "y' \<in> seen \<and> d y' \<le> length p"
      show ?thesis
      proof (cases "y' \<in> set fr")
        case True
        then have "d t \<le> d y'" using fin srt by (cases fr) auto
        then show ?thesis using True h by auto
      next
        case False
        then show ?thesis using h closed y' by fastforce
      qed
    qed auto
  qed
  from this[OF w] show ?thesis
    using fin s(3) by (cases fr) auto
qed

lemma walkBack_correct:
  assumes inv: "bfs_inv und F s d (fr, seen, pr)" and "x \<in> seen"
  shows "\<exists>steps. walk und F s steps x \<and> length steps = d x
     \<and> walkBack m pr s x (ns, es)
        = Some (ns @ map (nodeOf m) (rev (butlast (s # map snd steps))), es @ rev (map fst steps))"
proof -
  note I = inv[unfolded bfs_inv_def prod.case]
  have sub: "seen \<subseteq> node_ID ` set (facts_Nodes F)" and preds: "\<forall>y\<in>seen. y \<noteq> s \<longrightarrow>
      (\<exists>p e. pr y = Some (p, e) \<and> p \<in> seen \<and> d y = Suc (d p) \<and> e \<in> set (facts_Edges F) \<and> edge_step und e p y)"
    and s0: "d s = 0"
    using I by - (elim conjE, assumption)+
  show ?thesis
    using assms(2)
  proof (induction "d x" arbitrary: x ns es)
    case 0
    then have "x = s" using preds by (metis nat.distinct(1))
    then show ?case using 0 by (intro exI[of _ "[]"]) (simp add: walkBack.simps)
  next
    case (Suc n)
    then have ne: "x \<noteq> s" using s0 by auto
    then obtain p e where p: "pr x = Some (p, e)" "p \<in> seen" "d x = Suc (d p)"
      "e \<in> set (facts_Edges F)" "edge_step und e p x" using preds Suc.prems by blast
    have "n = d p" using Suc.hyps(2) p(3) by simp
    from Suc.hyps(1)[OF this p(2), of "ns @ [nodeOf m p]" "es @ [e]"] obtain steps where
      st: "walk und F s steps p" "length steps = d p"
        "walkBack m pr s p (ns @ [nodeOf m p], es @ [e]) = Some ((ns @ [nodeOf m p])
           @ map (nodeOf m) (rev (butlast (s # map snd steps))), (es @ [e]) @ rev (map fst steps))"
      by blast
    have pl: "p = last (s # map snd steps)"
      using st(1) by (induction steps arbitrary: s) auto
    then have bl: "rev (s # map snd steps) = p # rev (butlast (s # map snd steps))"
      by (metis append_butlast_last_id list.distinct(1) rev_eq_Cons_iff rev_rev_ident)
    have "walkBack m pr s x (ns, es) = walkBack m pr s p (ns @ [nodeOf m p], es @ [e])"
      using ne p(1) by (simp add: walkBack.simps[of m pr s x] predecessorOf_def)
    also have "\<dots> = Some (ns @ map (nodeOf m) (rev (butlast (s # map snd (steps @ [(e, x)])))),
        es @ rev (map fst (steps @ [(e, x)])))"
      using st(3) bl by (simp add: butlast_append)
    finally show ?case
      using st(1,2) p Suc.prems sub by (intro exI[of _ "steps @ [(e, x)]"]) auto
  qed
qed

lemma walk_last: "walk und F x steps y \<Longrightarrow> last (x # map snd steps) = y"
  by (induction steps arbitrary: x) auto

lemma walk_visits: "walk und F x steps y \<Longrightarrow> set (map snd steps) \<subseteq> node_ID ` set (facts_Nodes F)"
  by (induction und F x steps y rule: walk.induct) auto

definition path_endpoints_present :: "Facts \<Rightarrow> string \<Rightarrow> string \<Rightarrow> bool" where
  "path_endpoints_present F s t \<longleftrightarrow> s \<in> node_ID ` set (facts_Nodes F) \<and> t \<in> node_ID ` set (facts_Nodes F)"

text \<open>What the result of a successful search must satisfy.\<close>

definition shortest_result :: "bool \<Rightarrow> Facts \<Rightarrow> string \<Rightarrow> string \<Rightarrow> PathResult \<Rightarrow> bool" where
  "shortest_result und F s t r \<longleftrightarrow> (\<exists>steps. walk und F s steps t
      \<and> path_Edges r = map fst steps \<and> map node_ID (path_Nodes r) = s # map snd steps
      \<and> set (path_Nodes r) \<subseteq> set (facts_Nodes F)
      \<and> (\<forall>p. walk und F s p t \<longrightarrow> length steps \<le> length p))"

lemma shortestPath_cases:
  "\<exists>r. shortestPath F s t und = Some r
     \<and> (if path_endpoints_present F s t \<and> (\<exists>p. walk und F s p t)
        then shortest_result und F s t r else r = empty_PathResult)"
proof (cases "path_endpoints_present F s t")
  case False
  then show ?thesis by (auto simp: shortestPath_def path_endpoints_present_def Let_def)
next
  case True
  let ?m = "nodeMap (facts_Nodes F)"
  obtain fr seen pr where loop: "bfsLoop und (facts_Nodes F) (edgesBySource und (facts_Edges F)) t
      ([s], {s}, Map.empty) = (fr, seen, pr)" by (metis prod.exhaust)
  from bfs_inv_loop[OF bfs_inv_init[of s F und], of t] True loop obtain d where
    inv: "bfs_inv und F s d (fr, seen, pr)" by (auto simp: path_endpoints_present_def)
  note fin = bfsLoop_end[OF loop]
  have ends: "?m s \<noteq> None" "?m t \<noteq> None" using True by (auto simp: path_endpoints_present_def)
  show ?thesis
  proof (cases "t \<in> seen")
    case False
    then show ?thesis
      using bfs_minimal[OF inv fin] ends loop by (auto simp: shortestPath_def Let_def)
  next
    case t: True
    from walkBack_correct[OF inv t, of ?m "[nodeOf ?m t]" "[]"] obtain steps where
      st: "walk und F s steps t" "length steps = d t" "walkBack ?m pr s t ([nodeOf ?m t], [])
        = Some ([nodeOf ?m t] @ map (nodeOf ?m) (rev (butlast (s # map snd steps))), [] @ rev (map fst steps))"
      by blast
    let ?r = "empty_PathResult\<lparr>path_Nodes := map (nodeOf ?m) (s # map snd steps), path_Edges := map fst steps\<rparr>"
    have "map (nodeOf ?m) (butlast (s # map snd steps)) @ [nodeOf ?m t] = map (nodeOf ?m) (s # map snd steps)"
      using walk_last[OF st(1)] by (metis append_butlast_last_id list.distinct(1) list.simps(9) map_append map_is_Nil_conv list.simps(8))
    then have r: "shortestPath F s t und = Some ?r"
      using ends t loop st(3) by (simp add: shortestPath_def Let_def rev_map[symmetric])
    have ids: "i \<in> set (s # map snd steps) \<Longrightarrow> i \<in> node_ID ` set (facts_Nodes F)" for i
      using walk_visits[OF st(1)] True by (auto simp: path_endpoints_present_def)
    have "shortest_result und F s t ?r"
      unfolding shortest_result_def
    proof (intro exI[of _ steps] conjI allI impI)
      have each: "node_ID (nodeOf ?m i) = i" "nodeOf ?m i \<in> set (facts_Nodes F)"
        if "i \<in> set (s # map snd steps)" for i
        using nodeOf_node[OF ids[OF that]] by blast+
      have "map (node_ID \<circ> nodeOf ?m) (s # map snd steps) = s # map snd steps"
        using each(1) by (intro map_idI) simp
      then show "map node_ID (path_Nodes ?r) = s # map snd steps" by simp
      have "set (map (nodeOf ?m) (s # map snd steps)) \<subseteq> set (facts_Nodes F)"
        using each(2) by (metis (no_types) imageE list.set_map subsetI)
      then show "set (path_Nodes ?r) \<subseteq> set (facts_Nodes F)" by simp
      show "length steps \<le> length p" if "walk und F s p t" for p
        using bfs_minimal[OF inv fin that] st(2) by simp
    qed (use st in simp_all)
    then show ?thesis using r st(1) True by auto
  qed
qed

subsection \<open>Finding a path in a snapshot\<close>

text \<open>
  The node lookup and the traverser are interfaces (storage.NodeLookup, storage.Traverser); a nil
  interface value is None, and a lookup may support exact matching or not.
\<close>

definition maxSeedsPerTerm :: nat where "maxSeedsPerTerm = 3"

record NodeLookup =
  nl_LookupNodes :: "Snapshot \<Rightarrow> NodeLookupRequest \<Rightarrow> StoreError + NodeMatch list"
  nl_LookupExactNodes :: "(Snapshot \<Rightarrow> string \<Rightarrow> StoreError + NodeMatch list) option"

type_synonym Traverser = "Snapshot \<Rightarrow> TraversalRequest \<Rightarrow> StoreError + TraversalResult"

record PathRequest =
  preq_Source :: string
  preq_Target :: string
  preq_AllowUndirectedFallback :: bool
  preq_ProjectIDs :: "string list"
  preq_Relations :: "RelationKind list"
  preq_MaxDepth :: int
  preq_MaxNodes :: int

datatype PathError = PathLookupMissing | PathTraverserMissing | PathRequestInvalid
  | PathStoreError StoreError | PathFallbackError StoreError

definition pathEndpointMatches :: "NodeLookup \<Rightarrow> Snapshot \<Rightarrow> string \<Rightarrow> StoreError + NodeMatch list" where
  "pathEndpointMatches lookup snapshot endpoint =
    (let general = nl_LookupNodes lookup snapshot \<lparr>look_Text = endpoint, look_Kinds = [],
                     look_ProjectIDs = [], look_Limit = int maxSeedsPerTerm + 1\<rparr> in
     case nl_LookupExactNodes lookup of
       None \<Rightarrow> general
     | Some exact \<Rightarrow>
         (case exact snapshot endpoint of
            Inl e \<Rightarrow> Inl e
          | Inr matches \<Rightarrow> if length matches > 0 then Inr matches else general))"

definition nodeMatches :: "NodeMatch list \<Rightarrow> Node list" where
  "nodeMatches matches = map match_Node matches"

definition withTraversalScopeBoundary :: "PathResult \<Rightarrow> Node option \<Rightarrow> PathResult" where
  "withTraversalScopeBoundary result boundary =
    (case boundary of
       None \<Rightarrow> result
     | Some n \<Rightarrow> if length (path_Nodes result) = 0 then result
                 else result\<lparr>path_ScopeBoundary := Some \<lparr>boundary_Node = n\<rparr>\<rparr>)"

definition ambiguousPathCandidates :: "Node list \<Rightarrow> Node list" where
  "ambiguousPathCandidates nodes = (if length nodes = 1 then [] else take (min (length nodes) maxSeedsPerTerm) nodes)"

definition pathCandidateRemainder :: "Node list \<Rightarrow> int" where
  "pathCandidateRemainder nodes =
    (if length nodes = 1 then 0 else max 0 (int (length nodes) - int maxSeedsPerTerm))"

definition pathTraversalRequest :: "PathRequest \<Rightarrow> string \<Rightarrow> TraversalDirection \<Rightarrow> TraversalRequest" where
  "pathTraversalRequest request sourceID direction =
    \<lparr>trav_StartNodeIDs = [sourceID], trav_ProjectIDs = preq_ProjectIDs request, trav_Direction = direction,
     trav_Relations = preq_Relations request, trav_MaxDepth = preq_MaxDepth request,
     trav_MaxNodes = preq_MaxNodes request\<rparr>"

definition findPathFallback :: "Traverser \<Rightarrow> Snapshot \<Rightarrow> PathRequest \<Rightarrow> string \<Rightarrow> string
    \<Rightarrow> (PathError + PathResult) option" where
  "findPathFallback traverse snapshot request sourceID targetID =
    (case traverse snapshot (pathTraversalRequest request sourceID TraverseBoth) of
       Inl e \<Rightarrow> Some (Inl (PathFallbackError e))
     | Inr fallback \<Rightarrow>
         map_option (\<lambda>result. Inr (withTraversalScopeBoundary
             (result\<lparr>path_UndirectedFallbackAttempted := True,
                     path_UsedUndirectedFallback := (length (path_Nodes result) > 0)\<rparr>)
             (tres_ScopeBoundary fallback)))
           (undirectedPath (tres_Facts fallback) sourceID targetID))"

definition findPathBetween :: "Traverser \<Rightarrow> Snapshot \<Rightarrow> PathRequest \<Rightarrow> string \<Rightarrow> string
    \<Rightarrow> (PathError + PathResult) option" where
  "findPathBetween traverse snapshot request sourceID targetID =
    (case traverse snapshot (pathTraversalRequest request sourceID TraverseOutgoing) of
       Inl e \<Rightarrow> Some (Inl (PathStoreError e))
     | Inr traversal \<Rightarrow>
         (case directedPath (tres_Facts traversal) sourceID targetID of
            None \<Rightarrow> None
          | Some result \<Rightarrow>
              if length (path_Nodes result) > 0 \<or> \<not> preq_AllowUndirectedFallback request
              then Some (Inr (withTraversalScopeBoundary result (tres_ScopeBoundary traversal)))
              else findPathFallback traverse snapshot request sourceID targetID))"

definition FindPathSnapshot :: "NodeLookup option \<Rightarrow> Traverser option \<Rightarrow> Snapshot \<Rightarrow> PathRequest
    \<Rightarrow> (PathError + PathResult) option" where
  "FindPathSnapshot lookup traverser snapshot request =
    (case lookup of None \<Rightarrow> Some (Inl PathLookupMissing) | Some lk \<Rightarrow>
    (case traverser of None \<Rightarrow> Some (Inl PathTraverserMissing) | Some traverse \<Rightarrow>
     if preq_Source request = '''' \<or> preq_Target request = '''' \<or> preq_MaxDepth request < 0
        \<or> preq_MaxNodes request \<le> 0
     then Some (Inl PathRequestInvalid)
     else case pathEndpointMatches lk snapshot (preq_Source request) of
       Inl e \<Rightarrow> Some (Inl (PathStoreError e))
     | Inr sources \<Rightarrow> (case pathEndpointMatches lk snapshot (preq_Target request) of
         Inl e \<Rightarrow> Some (Inl (PathStoreError e))
       | Inr targets \<Rightarrow>
           let sourceNodes = nodeMatches sources; targetNodes = nodeMatches targets in
           if length sourceNodes \<noteq> 1 \<or> length targetNodes \<noteq> 1
           then Some (Inr (empty_PathResult\<lparr>
                  path_SourceCandidates := ambiguousPathCandidates sourceNodes,
                  path_SourceRemainderCount := pathCandidateRemainder sourceNodes,
                  path_TargetCandidates := ambiguousPathCandidates targetNodes,
                  path_TargetRemainderCount := pathCandidateRemainder targetNodes\<rparr>))
           else findPathBetween traverse snapshot request (node_ID (sourceNodes ! 0)) (node_ID (targetNodes ! 0)))))"

lemma empty_path [simp]: "path_Nodes empty_PathResult = []" "path_Edges empty_PathResult = []"
  by (simp_all add: empty_PathResult_def)

lemma scopeBoundary_path [simp]:
  "path_Nodes (withTraversalScopeBoundary r b) = path_Nodes r"
  "path_Edges (withTraversalScopeBoundary r b) = path_Edges r"
  "path_UsedUndirectedFallback (withTraversalScopeBoundary r b) = path_UsedUndirectedFallback r"
  "path_UndirectedFallbackAttempted (withTraversalScopeBoundary r b) = path_UndirectedFallbackAttempted r"
  by (simp_all add: withTraversalScopeBoundary_def split: option.splits)

lemma shortestPath_flags:
  "shortestPath F s t und = Some r \<Longrightarrow> path_UsedUndirectedFallback r = False \<and> path_UndirectedFallbackAttempted r = False
     \<and> path_SourceCandidates r = [] \<and> path_TargetCandidates r = [] \<and> path_ScopeBoundary r = None"
  by (auto simp: shortestPath_def Let_def empty_PathResult_def split: if_splits prod.splits)

lemma shortestPath_total: "\<exists>r. shortestPath F s t und = Some r"
  using shortestPath_cases[of F s t und] by blast

lemma shortestPath_sound:
  "shortestPath F s t und = Some r \<Longrightarrow> path_Nodes r \<noteq> [] \<Longrightarrow> shortest_result und F s t r"
  using shortestPath_cases[of F s t und] by (auto split: if_splits)

lemma shortest_result_ne: "shortest_result und F s t r \<Longrightarrow> path_Nodes r \<noteq> []"
  by (auto simp: shortest_result_def)

lemma shortestPath_empty_iff:
  "shortestPath F s t und = Some r \<Longrightarrow>
     path_Nodes r \<noteq> [] \<longleftrightarrow> path_endpoints_present F s t \<and> (\<exists>p. walk und F s p t)"
  using shortestPath_cases[of F s t und] shortest_result_ne[of und F s t r] by (auto split: if_splits)

lemma findPathBetween_total: "\<exists>r. findPathBetween tr sn rq s t = Some r"
proof (cases "tr sn (pathTraversalRequest rq s TraverseOutgoing)")
  case (Inr tv)
  obtain r where r: "directedPath (tres_Facts tv) s t = Some r"
    using shortestPath_total unfolding directedPath_def by blast
  have fb: "\<exists>r. findPathFallback tr sn rq s t = Some r"
  proof (cases "tr sn (pathTraversalRequest rq s TraverseBoth)")
    case Inl
    then show ?thesis by (simp add: findPathFallback_def)
  next
    case (Inr fb)
    obtain r where "undirectedPath (tres_Facts fb) s t = Some r"
      using shortestPath_total unfolding undirectedPath_def by blast
    then show ?thesis using Inr by (simp add: findPathFallback_def)
  qed
  then show ?thesis using Inr r by (simp add: findPathBetween_def)
qed (simp add: findPathBetween_def)

lemma FindPathSnapshot_total: "\<exists>r. FindPathSnapshot lk tr sn rq = Some r"
  using findPathBetween_total
  by (auto simp: FindPathSnapshot_def Let_def split: option.splits sum.splits)

lemma findPathFallback_path:
  assumes "findPathFallback tr sn rq s t = Some (Inr r)"
  shows "path_UndirectedFallbackAttempted r \<and> path_UsedUndirectedFallback r = (path_Nodes r \<noteq> [])
    \<and> (path_Nodes r \<noteq> [] \<longrightarrow> (\<exists>tv. tr sn (pathTraversalRequest rq s TraverseBoth) = Inr tv
        \<and> shortest_result True (tres_Facts tv) s t r))"
proof (cases "tr sn (pathTraversalRequest rq s TraverseBoth)")
  case (Inr tv)
  with assms obtain q where q: "undirectedPath (tres_Facts tv) s t = Some q"
    and r: "r = withTraversalScopeBoundary (q\<lparr>path_UndirectedFallbackAttempted := True,
        path_UsedUndirectedFallback := (length (path_Nodes q) > 0)\<rparr>) (tres_ScopeBoundary tv)"
    by (auto simp: findPathFallback_def)
  show ?thesis
    using shortestPath_sound[OF q[unfolded undirectedPath_def]] Inr
    by (auto simp: r shortest_result_def)
qed (use assms in \<open>simp add: findPathFallback_def\<close>)

lemma findPathBetween_path:
  assumes "findPathBetween tr sn rq s t = Some (Inr r)"
  shows "(path_Nodes r \<noteq> [] \<longrightarrow> (\<exists>tv und. shortest_result und (tres_Facts tv) s t r
           \<and> und = path_UsedUndirectedFallback r
           \<and> tr sn (pathTraversalRequest rq s (if und then TraverseBoth else TraverseOutgoing)) = Inr tv))
    \<and> (path_UndirectedFallbackAttempted r \<longrightarrow> preq_AllowUndirectedFallback rq
         \<and> (\<exists>tv. tr sn (pathTraversalRequest rq s TraverseOutgoing) = Inr tv
              \<and> \<not> (path_endpoints_present (tres_Facts tv) s t \<and> (\<exists>p. walk False (tres_Facts tv) s p t))))"
proof (cases "tr sn (pathTraversalRequest rq s TraverseOutgoing)")
  case (Inr tv)
  obtain q where q: "directedPath (tres_Facts tv) s t = Some q"
    using shortestPath_total unfolding directedPath_def by blast
  note q' = q[unfolded directedPath_def]
  show ?thesis
  proof (cases "length (path_Nodes q) > 0 \<or> \<not> preq_AllowUndirectedFallback rq")
    case True
    with assms Inr q have r: "r = withTraversalScopeBoundary q (tres_ScopeBoundary tv)"
      by (simp add: findPathBetween_def)
    have "shortest_result False (tres_Facts tv) s t r" if "path_Nodes r \<noteq> []"
      using that shortestPath_sound[OF q'] by (simp add: r shortest_result_def)
    moreover have "\<not> path_UsedUndirectedFallback r" "\<not> path_UndirectedFallbackAttempted r"
      using shortestPath_flags[OF q'] by (simp_all add: r)
    ultimately show ?thesis
      using Inr by (intro conjI impI exI[of _ tv] exI[of _ False]) auto
  next
    case False
    with assms Inr q have f: "findPathFallback tr sn rq s t = Some (Inr r)"
      by (simp add: findPathBetween_def)
    from findPathFallback_path[OF f] shortestPath_empty_iff[OF q'] False Inr show ?thesis
      by auto
  qed
qed (use assms in \<open>simp add: findPathBetween_def\<close>)

text \<open>
  The contract a traverser owes its clients: its facts lie in the published graph, respect the
  relation filter and the node limit.
\<close>

locale traverser_contract =
  fixes traverse :: Traverser
    and graph_nodes :: "Snapshot \<Rightarrow> Node set"
    and graph_edges :: "Snapshot \<Rightarrow> Edge set"
  assumes nodes_published: "traverse sn rq = Inr tv \<Longrightarrow> set (facts_Nodes (tres_Facts tv)) \<subseteq> graph_nodes sn"
    and edges_published: "traverse sn rq = Inr tv \<Longrightarrow> set (facts_Edges (tres_Facts tv)) \<subseteq> graph_edges sn"
    and edges_filtered: "traverse sn rq = Inr tv \<Longrightarrow> e \<in> set (facts_Edges (tres_Facts tv)) \<Longrightarrow>
          trav_Relations rq \<noteq> [] \<Longrightarrow> edge_Relation e \<in> set (trav_Relations rq)"
    and nodes_bounded: "traverse sn rq = Inr tv \<Longrightarrow> int (length (facts_Nodes (tres_Facts tv))) \<le> trav_MaxNodes rq"
begin

lemma found_path_published:
  assumes "findPathBetween traverse sn rq s t = Some (Inr r)" and "path_Nodes r \<noteq> []"
  shows "set (path_Nodes r) \<subseteq> graph_nodes sn \<and> set (path_Edges r) \<subseteq> graph_edges sn
    \<and> node_ID (hd (path_Nodes r)) = s \<and> node_ID (last (path_Nodes r)) = t
    \<and> length (path_Nodes r) = Suc (length (path_Edges r))
    \<and> (preq_Relations rq \<noteq> [] \<longrightarrow> (\<forall>e\<in>set (path_Edges r). edge_Relation e \<in> set (preq_Relations rq)))
    \<and> int (card (set (path_Nodes r))) \<le> preq_MaxNodes rq"
proof -
  from findPathBetween_path[OF assms(1)] assms(2) obtain tv und where
    sr: "shortest_result und (tres_Facts tv) s t r"
    and tv: "traverse sn (pathTraversalRequest rq s (if und then TraverseBoth else TraverseOutgoing)) = Inr tv"
    by blast
  let ?F = "tres_Facts tv"
  from sr obtain steps where st: "walk und ?F s steps t" "path_Edges r = map fst steps"
    "map node_ID (path_Nodes r) = s # map snd steps" "set (path_Nodes r) \<subseteq> set (facts_Nodes ?F)"
    unfolding shortest_result_def by (elim exE conjE) (rule that)
  have es: "set (path_Edges r) \<subseteq> set (facts_Edges ?F)"
    unfolding st(2) using st(1) by (induction und ?F s steps t rule: walk.induct) auto
  have "length (path_Nodes r) = Suc (length steps)"
    using arg_cong[OF st(3), of length] by simp
  moreover have "node_ID (hd (path_Nodes r)) = s"
    using arg_cong[OF st(3), of hd] assms(2) by (simp add: hd_map)
  moreover have "node_ID (last (path_Nodes r)) = t"
    using arg_cong[OF st(3), of last] assms(2) walk_last[OF st(1)] by (simp add: last_map)
  moreover have "card (set (path_Nodes r)) \<le> length (facts_Nodes ?F)"
    using st(4) by (meson List.finite_set card_length card_mono le_trans)
  moreover have "set (path_Nodes r) \<subseteq> graph_nodes sn" "set (path_Edges r) \<subseteq> graph_edges sn"
    using st(4) es nodes_published[OF tv] edges_published[OF tv] by blast+
  moreover have "length (path_Edges r) = length steps" by (simp add: st(2))
  moreover have "preq_Relations rq \<noteq> [] \<longrightarrow> (\<forall>e\<in>set (path_Edges r). edge_Relation e \<in> set (preq_Relations rq))"
    using es edges_filtered[OF tv] by (auto simp: pathTraversalRequest_def)
  moreover have "int (length (facts_Nodes ?F)) \<le> preq_MaxNodes rq"
    using nodes_bounded[OF tv] by (simp add: pathTraversalRequest_def)
  ultimately show ?thesis by simp
qed

end

subsection \<open>Properties\<close>

text \<open>C39: The shortest-path search always ends, and it finds a path exactly when both endpoints are
  among the facts and some walk over the facts' edges joins them.\<close>

theorem shortest_path_terminates_and_is_complete:
  "\<exists>r. shortestPath F s t und = Some r
     \<and> (path_Nodes r = [] \<longleftrightarrow> \<not> (path_endpoints_present F s t \<and> (\<exists>p. walk und F s p t)))"
  using shortestPath_total[of F s t und] shortestPath_empty_iff[of F s t und] by blast

text \<open>C7: A path that is returned starts at the source, ends at the target, follows facts edges
  (backwards only when undirected) through facts nodes, and no walk is shorter.\<close>

theorem shortest_path_sound_and_minimal:
  assumes "shortestPath F s t und = Some r" and "path_Nodes r \<noteq> []"
  shows "\<exists>steps. walk und F s steps t \<and> path_Edges r = map fst steps
      \<and> map node_ID (path_Nodes r) = s # map snd steps \<and> set (path_Nodes r) \<subseteq> set (facts_Nodes F)
      \<and> (\<forall>p. walk und F s p t \<longrightarrow> length steps \<le> length p)"
  using shortestPath_sound[OF assms] by (simp add: shortest_result_def)

lemma sample_path:
  "map_option path_Edges (shortestPath sample_facts ''a'' ''c'' False) = Some [sample_edge ''a'' ''c'' ''defines'']"
  by code_simp

lemma shortest_path_sound_and_minimal_witness:
  "\<exists>r steps. shortestPath sample_facts ''a'' ''c'' False = Some r \<and> walk False sample_facts ''a'' steps ''c''
     \<and> path_Edges r = map fst steps \<and> length steps = 1"
proof -
  obtain r where r: "shortestPath sample_facts ''a'' ''c'' False = Some r"
    "path_Edges r = [sample_edge ''a'' ''c'' ''defines'']"
    using sample_path by (cases "shortestPath sample_facts ''a'' ''c'' False") auto
  have "path_Nodes r \<noteq> []"
    using shortestPath_cases[of sample_facts "''a''" "''c''" False] r by (auto simp: shortest_result_def split: if_splits)
  from shortest_path_sound_and_minimal[OF r(1) this] r show ?thesis
    by (metis One_nat_def length_Cons length_map list.size(3))
qed

text \<open>Finding a path in a snapshot always ends, whatever the lookup and the traverser return.\<close>

theorem find_path_terminates:
  "\<exists>r. FindPathSnapshot lookup traverser snapshot request = Some r"
  by (rule FindPathSnapshot_total)

end
