(* ===== verification/Ranking.thy ===== *)
theory Ranking
  imports PathFinding Lexical "HOL-Library.Product_Lexorder"
begin

text \<open>
  The ranking of seed nodes (query/rank.go).  Scores are exact rationals: the rounding of float64 is
  not modelled.  sort.SliceStable is a stable sort by the compared columns; sort.Slice, which may
  order entries that agree in all columns in any way, is modelled by the same sort.
  strings.EqualFold is given by the representative of every rune's case folding orbit, a parameter.
\<close>

subsection \<open>Matching terms\<close>

text \<open>strings.FieldsFunc.\<close>

fun fieldsFuncFrom :: "(rune \<Rightarrow> bool) \<Rightarrow> string \<Rightarrow> string list \<Rightarrow> string list" where
  "fieldsFuncFrom P word [] = (if word = [] then [] else [word])"
| "fieldsFuncFrom P word (seg # segs) =
    (if P (runeOf seg) then (if word = [] then fieldsFuncFrom P [] segs else word # fieldsFuncFrom P [] segs)
     else fieldsFuncFrom P (word @ seg) segs)"

definition FieldsFunc :: "string \<Rightarrow> (rune \<Rightarrow> bool) \<Rightarrow> string list" where
  "FieldsFunc s P = fieldsFuncFrom P [] (segments s)"

definition hasTokenPrefix :: "UnicodeTables \<Rightarrow> string \<Rightarrow> string \<Rightarrow> bool" where
  "hasTokenPrefix u value term =
     list_ex (\<lambda>token. hasPrefix (ToLower u token) term) (FieldsFunc value (\<lambda>c. \<not> isLetter u c \<and> \<not> isDigit u c))"

definition matchRank :: "UnicodeTables \<Rightarrow> Node \<Rightarrow> string \<Rightarrow> nat option" where
  "matchRank u node term =
    (if node_ID node = term then Some 0
     else if node_QualifiedName node = term then Some 1
     else if node_Label node = term then Some 2
     else let query = ToLower u term in
       if hasPrefix (ToLower u (node_Label node)) query \<or> hasTokenPrefix u (node_Label node) query
          \<or> hasTokenPrefix u (node_QualifiedName node) query then Some 3
       else if stringContains (ToLower u (span_Path (ev_Span (node_Evidence node)))) query then Some 4
       else if stringContains (ToLower u (node_ID node)) query \<or> stringContains (ToLower u (node_QualifiedName node)) query
          \<or> stringContains (ToLower u (node_Label node)) query then Some 5
       else None)"

text \<open>The selection of the first node of every ID.\<close>

fun selectUnseen :: "Node list \<Rightarrow> string set \<Rightarrow> Node list" where
  "selectUnseen [] seen = []"
| "selectUnseen (node # nodes) seen =
    (if node_ID node \<in> seen then selectUnseen nodes seen else node # selectUnseen nodes (insert (node_ID node) seen))"

definition matchKey :: "Node \<times> nat \<Rightarrow> nat \<times> string list" where
  "matchKey match = (snd match, [node_QualifiedName (fst match), node_Label (fst match), node_ID (fst match)])"

definition rankTermMatches :: "UnicodeTables \<Rightarrow> Node list \<Rightarrow> string \<Rightarrow> Node list" where
  "rankTermMatches u nodes term =
    (if term = '''' then []
     else let matches = concat (map (\<lambda>node. case matchRank u node term of Some rank \<Rightarrow> [(node, rank)] | None \<Rightarrow> []) nodes)
       in selectUnseen (map fst (sort_key matchKey matches)) {})"

definition rankTerm :: "UnicodeTables \<Rightarrow> Node list \<Rightarrow> string \<Rightarrow> Node list" where
  "rankTerm u nodes term = (let matches = rankTermMatches u nodes term in take (min (length matches) maxSeedsPerTerm) matches)"

subsection \<open>Seeds\<close>

record SeedRequest =
  sreq_Role :: string
  sreq_EntityRole :: string
  sreq_Retrieval :: LexicalSearchRequest

record SeedScoreComponents =
  sc_Exact :: float64
  sc_Lexical :: float64
  sc_EntityRole :: float64
  sc_NodeKind :: float64
  sc_ProjectScope :: float64
  sc_PathAffinity :: float64
  sc_TokenCoverage :: float64
  sc_ReciprocalRank :: float64

record SeedRanking =
  sr_NodeID :: string
  sr_Score :: float64
  sr_Components :: SeedScoreComponents

record SeedSet =
  seed_Role :: string
  seed_Term :: string
  seed_Nodes :: "Node list"
  seed_Rankings :: "SeedRanking list"

record rankedSeed =
  rs_node :: Node
  rs_score :: float64
  rs_components :: SeedScoreComponents

record LexicalMatch =
  lm_Node :: Node
  lm_Score :: float64
  lm_MatchedFields :: "string list"

type_synonym LexicalSearcher = "Snapshot \<Rightarrow> LexicalSearchRequest \<Rightarrow> StoreError + LexicalMatch list"

definition Rank :: "UnicodeTables \<Rightarrow> Node list \<Rightarrow> string list \<Rightarrow> SeedSet list" where
  "Rank u nodes terms = map (\<lambda>term. \<lparr>seed_Role = '''', seed_Term = term, seed_Nodes = rankTerm u nodes term, seed_Rankings = []\<rparr>) terms"

subsection \<open>Scores\<close>

definition seedTextCoverage :: "UnicodeTables \<Rightarrow> LexicalSearchRequest \<Rightarrow> string \<Rightarrow> float64" where
  "seedTextCoverage u request value =
    (let groups = concat (lex_TokenGroups request);
         tokens = (if groups = [] then Fields (ToLower u (lex_Text request)) else groups) in
     if tokens = [] then 0
     else let haystack = ToLower u value;
              matched = length (filter (\<lambda>token. stringContains haystack (ToLower u token)) tokens)
       in of_nat matched / of_nat (length tokens))"

definition seedTokenCoverage :: "UnicodeTables \<Rightarrow> LexicalSearchRequest \<Rightarrow> Node \<Rightarrow> float64" where
  "seedTokenCoverage u request node = seedTextCoverage u request
     (join '' '' [node_ID node, node_Label node, node_QualifiedName node, span_Path (ev_Span (node_Evidence node))])"

definition seedLabelExactness :: "LexicalSearchRequest \<Rightarrow> Node \<Rightarrow> float64" where
  "seedLabelExactness request node = (if node_Label node = lex_Text request then 1 else 0)"

text \<open>The part of a kind after the last colon.\<close>

definition baseKind :: "NodeKind \<Rightarrow> string" where
  "baseKind kind = rev (takeWhile (\<lambda>c. c \<noteq> CHR '':'') (rev kind))"

definition seedRoleFit :: "string \<Rightarrow> NodeKind \<Rightarrow> float64" where
  "seedRoleFit role kind =
    (let base = baseKind kind in
     if role \<in> {''caller'', ''callee''} then (if base \<in> {''function'', ''method''} then 1 else 0)
     else if role \<in> {''dependent'', ''dependency''} then (if base \<in> {''package'', ''module'', ''file'', ''project''} then 1 else 0)
     else if role \<in> {''left'', ''right''}
       then (if base \<in> {''class'', ''interface'', ''type_alias'', ''type'', ''package'', ''module'', ''file'', ''project''} then 1 else 0)
     else 0)"

definition seedEntityRoleFit :: "string \<Rightarrow> NodeKind \<Rightarrow> float64" where
  "seedEntityRoleFit role kind =
    (let base = baseKind kind in
     if role \<in> {''folder'', ''file''} then (if base = ''file'' then 1 else 0)
     else if role = ''package'' then (if base = ''package'' then 1 else 0)
     else if role \<in> {''class'', ''service''} then (if base \<in> {''class'', ''type''} then 1 else 0)
     else 0)"

definition seedKindFit :: "NodeKind list \<Rightarrow> NodeKind \<Rightarrow> float64" where
  "seedKindFit kinds kind = (if kinds = [] then 0 else if kind \<in> set kinds then 1 else 0)"

definition seedProjectScopeFit :: "string list \<Rightarrow> float64" where
  "seedProjectScopeFit projectIDs = (if length projectIDs > 0 then 1 else 0)"

subsection \<open>Fusing the components\<close>

definition seedComponentValues :: "rankedSeed list \<Rightarrow> (SeedScoreComponents \<Rightarrow> float64) \<Rightarrow> float64 list" where
  "seedComponentValues candidates component = map (\<lambda>candidate. component (rs_components candidate)) candidates"

text \<open>The loop over the sorted indexes; previous is the index at the position before.\<close>

fun rankLoop :: "float64 list \<Rightarrow> nat option \<Rightarrow> nat \<Rightarrow> nat list \<Rightarrow> nat list \<Rightarrow> nat list" where
  "rankLoop values previous position [] ranks = ranks"
| "rankLoop values previous position (index # indexes) ranks =
    rankLoop values (Some index) (position + 1) indexes
      (if values ! index \<le> 0 then ranks
       else ranks[index := (case previous of
           Some p \<Rightarrow> if values ! index = values ! p then ranks ! p else position + 1
         | None \<Rightarrow> position + 1)])"

definition seedComponentRanks :: "rankedSeed list \<Rightarrow> float64 list \<Rightarrow> nat list" where
  "seedComponentRanks candidates values =
     rankLoop values None 0
       (sort_key (\<lambda>index. (- (values ! index), node_ID (rs_node (candidates ! index)))) [0..<length candidates])
       (replicate (length candidates) 0)"

definition addReciprocal :: "nat \<Rightarrow> rankedSeed \<Rightarrow> rankedSeed" where
  "addReciprocal rank candidate =
    (if rank = 0 then candidate
     else candidate\<lparr>rs_components := (rs_components candidate)\<lparr>sc_ReciprocalRank :=
       sc_ReciprocalRank (rs_components candidate) + 1 / of_nat (60 + rank)\<rparr>\<rparr>)"

definition seedKey :: "rankedSeed \<Rightarrow> float64 \<times> string list" where
  "seedKey candidate = (- rs_score candidate,
     [node_QualifiedName (rs_node candidate), node_Label (rs_node candidate), node_ID (rs_node candidate)])"

definition rankedComponents :: "(SeedScoreComponents \<Rightarrow> float64) list" where
  "rankedComponents = [sc_Exact, sc_Lexical, sc_EntityRole, sc_NodeKind, sc_ProjectScope, sc_PathAffinity, sc_TokenCoverage]"

definition normaliseLexical :: "rankedSeed list \<Rightarrow> rankedSeed list" where
  "normaliseLexical candidates =
    (let maximumLexical = fold (\<lambda>candidate m. max m (sc_Lexical (rs_components candidate))) candidates 0 in
     if maximumLexical > 0
     then map (\<lambda>candidate. candidate\<lparr>rs_components := (rs_components candidate)\<lparr>sc_Lexical :=
       sc_Lexical (rs_components candidate) / maximumLexical\<rparr>\<rparr>) candidates
     else candidates)"

definition addRanks :: "float64 list \<Rightarrow> rankedSeed list \<Rightarrow> rankedSeed list" where
  "addRanks values candidates = map2 addReciprocal (seedComponentRanks candidates values) candidates"

definition setScore :: "rankedSeed \<Rightarrow> rankedSeed" where
  "setScore candidate = candidate\<lparr>rs_score := sc_Exact (rs_components candidate) + sc_ReciprocalRank (rs_components candidate)\<rparr>"

definition fuseRankedSeeds :: "rankedSeed list \<Rightarrow> rankedSeed list" where
  "fuseRankedSeeds candidates =
    (if candidates = [] then candidates
     else let normalised = normaliseLexical candidates;
              componentValues = map (seedComponentValues normalised) rankedComponents;
              ranked = fold addRanks componentValues normalised
       in sort_key seedKey (map setScore ranked))"

subsection \<open>Diversity\<close>

fun diversifyLoop :: "int \<Rightarrow> rankedSeed list \<Rightarrow> rankedSeed list \<Rightarrow> rankedSeed list \<Rightarrow> string set \<Rightarrow> string set
    \<Rightarrow> rankedSeed list \<times> rankedSeed list \<times> bool" where
  "diversifyLoop limit [] selected deferred seenNodes seenPaths = (selected, deferred, False)"
| "diversifyLoop limit (candidate # candidates) selected deferred seenNodes seenPaths =
    (if node_ID (rs_node candidate) \<in> seenNodes then diversifyLoop limit candidates selected deferred seenNodes seenPaths
     else let nodes = insert (node_ID (rs_node candidate)) seenNodes;
              path = span_Path (ev_Span (node_Evidence (rs_node candidate))) in
       if path \<in> seenPaths then diversifyLoop limit candidates selected (deferred @ [candidate]) nodes seenPaths
       else if int (length (selected @ [candidate])) = limit then (selected @ [candidate], deferred, True)
       else diversifyLoop limit candidates (selected @ [candidate]) deferred nodes (insert path seenPaths))"

fun appendDeferred :: "int \<Rightarrow> rankedSeed list \<Rightarrow> rankedSeed list \<Rightarrow> rankedSeed list" where
  "appendDeferred limit [] selected = selected"
| "appendDeferred limit (candidate # deferred) selected =
    (if int (length (selected @ [candidate])) = limit then selected @ [candidate]
     else appendDeferred limit deferred (selected @ [candidate]))"

definition diversifyRankedSeeds :: "rankedSeed list \<Rightarrow> int \<Rightarrow> rankedSeed list" where
  "diversifyRankedSeeds candidates limit =
    (case diversifyLoop limit candidates [] [] {} {} of
       (selected, deferred, full) \<Rightarrow> if full then selected else appendDeferred limit deferred selected)"

subsection \<open>Requests\<close>

datatype RankError = RankLookupMissing | RankRequestInvalid | RankStoreError StoreError

definition lookupExactMatches :: "NodeLookup \<Rightarrow> Snapshot \<Rightarrow> string \<Rightarrow> int \<Rightarrow> StoreError + NodeMatch list" where
  "lookupExactMatches lookup snapshot searchText limit =
    (case nl_LookupExactNodes lookup of
       None \<Rightarrow> Inr []
     | Some exact \<Rightarrow> res_map (\<lambda>matches. take (nat limit) matches) (exact snapshot searchText))"

definition lookupTermMatches :: "NodeLookup \<Rightarrow> Snapshot \<Rightarrow> string \<Rightarrow> nat \<Rightarrow> StoreError + NodeMatch list" where
  "lookupTermMatches lookup snapshot term limit =
    (let fallback = nl_LookupNodes lookup snapshot
       \<lparr>look_Text = term, look_Kinds = [], look_ProjectIDs = [], look_Limit = int limit\<rparr> in
     case nl_LookupExactNodes lookup of
       None \<Rightarrow> fallback
     | Some exact \<Rightarrow> (case exact snapshot term of
           Inl e \<Rightarrow> Inl e
         | Inr matches \<Rightarrow> if matches \<noteq> [] then Inr (take limit matches) else fallback))"

definition matchesSourcePath :: "Node \<Rightarrow> string \<Rightarrow> bool" where
  "matchesSourcePath node sourcePath \<longleftrightarrow> sourcePath = '''' \<or> span_Path (ev_Span (node_Evidence node)) = sourcePath"

definition EqualFold :: "(rune \<Rightarrow> rune) \<Rightarrow> string \<Rightarrow> string \<Rightarrow> bool" where
  "EqualFold foldRune s t \<longleftrightarrow> map foldRune (runes s) = map foldRune (runes t)"

definition preferExactSourceLabel :: "(rune \<Rightarrow> rune) \<Rightarrow> rankedSeed list \<Rightarrow> string \<Rightarrow> rankedSeed list" where
  "preferExactSourceLabel foldRune candidates searchText =
    (let matching = filter (\<lambda>candidate. EqualFold foldRune (node_Label (rs_node candidate)) searchText) candidates
     in if matching = [] then candidates else matching)"

definition questionCandidateMultiplier :: int where "questionCandidateMultiplier = 4"

definition exactSeed :: "NodeMatch \<Rightarrow> rankedSeed" where
  "exactSeed match = \<lparr>rs_node = match_Node match, rs_score = 1, rs_components =
     \<lparr>sc_Exact = 1, sc_Lexical = 0, sc_EntityRole = 0, sc_NodeKind = 0, sc_ProjectScope = 0, sc_PathAffinity = 0,
      sc_TokenCoverage = 0, sc_ReciprocalRank = 1\<rparr>\<rparr>"

definition lexicalSeed :: "UnicodeTables \<Rightarrow> SeedRequest \<Rightarrow> LexicalMatch \<Rightarrow> rankedSeed" where
  "lexicalSeed u seedRequest match =
    (let request = sreq_Retrieval seedRequest; node = lm_Node match in
     \<lparr>rs_node = node, rs_score = 0, rs_components =
       \<lparr>sc_Exact = seedLabelExactness request node,
        sc_Lexical = lm_Score match,
        sc_EntityRole = max (seedRoleFit (sreq_Role seedRequest) (node_Kind node)) (seedEntityRoleFit (sreq_EntityRole seedRequest) (node_Kind node)),
        sc_NodeKind = seedKindFit (lex_Kinds request) (node_Kind node),
        sc_ProjectScope = seedProjectScopeFit (lex_ProjectIDs request),
        sc_PathAffinity = seedTextCoverage u request (span_Path (ev_Span (node_Evidence node))),
        sc_TokenCoverage = seedTokenCoverage u request node,
        sc_ReciprocalRank = 0\<rparr>\<rparr>)"

definition seedCandidates :: "UnicodeTables \<Rightarrow> NodeLookup \<Rightarrow> LexicalSearcher \<Rightarrow> Snapshot \<Rightarrow> SeedRequest \<Rightarrow> StoreError + rankedSeed list" where
  "seedCandidates u lookup searcher snapshot seedRequest =
    (let request = sreq_Retrieval seedRequest in
     res_bind (lookupExactMatches lookup snapshot (lex_Text request) (lex_Limit request)) (\<lambda>found.
       let matches = filter (\<lambda>match. matchesSourcePath (match_Node match) (lex_SourcePath request)) found in
       if matches \<noteq> [] then Inr (map exactSeed matches)
       else res_map (\<lambda>lexicalMatches. fuseRankedSeeds (map (lexicalSeed u seedRequest)
              (filter (\<lambda>match. matchesSourcePath (lm_Node match) (lex_SourcePath request)) lexicalMatches)))
            (searcher snapshot (request\<lparr>lex_Limit := lex_Limit request * questionCandidateMultiplier\<rparr>))))"

definition rankSeedRequest :: "UnicodeTables \<Rightarrow> (rune \<Rightarrow> rune) \<Rightarrow> NodeLookup \<Rightarrow> LexicalSearcher \<Rightarrow> Snapshot \<Rightarrow> SeedRequest \<Rightarrow> RankError + SeedSet" where
  "rankSeedRequest u foldRune lookup searcher snapshot seedRequest =
    (let request = sreq_Retrieval seedRequest in
     if lex_Text request = '''' \<or> lex_Limit request \<le> 0 then Inl RankRequestInvalid
     else (case seedCandidates u lookup searcher snapshot seedRequest of
         Inl e \<Rightarrow> Inl (RankStoreError e)
       | Inr candidates \<Rightarrow>
           let preferred = (if lex_SourcePath request \<noteq> '''' then preferExactSourceLabel foldRune candidates (lex_Text request) else candidates);
               ranked = diversifyRankedSeeds preferred (lex_Limit request)
           in Inr \<lparr>seed_Role = sreq_Role seedRequest, seed_Term = lex_Text request, seed_Nodes = map rs_node ranked,
                seed_Rankings = map (\<lambda>candidate. \<lparr>sr_NodeID = node_ID (rs_node candidate), sr_Score = rs_score candidate,
                  sr_Components = rs_components candidate\<rparr>) ranked\<rparr>))"

definition RankSeedRequestsSnapshot :: "UnicodeTables \<Rightarrow> (rune \<Rightarrow> rune) \<Rightarrow> NodeLookup option \<Rightarrow> LexicalSearcher option \<Rightarrow> Snapshot
    \<Rightarrow> SeedRequest list \<Rightarrow> RankError + SeedSet list" where
  "RankSeedRequestsSnapshot u foldRune lookup searcher snapshot requests =
    (case (lookup, searcher) of
       (Some l, Some s) \<Rightarrow> mapRes (rankSeedRequest u foldRune l s snapshot) requests
     | _ \<Rightarrow> Inl RankLookupMissing)"

definition RankSnapshot :: "NodeLookup option \<Rightarrow> Snapshot \<Rightarrow> string list \<Rightarrow> RankError + SeedSet list" where
  "RankSnapshot lookup snapshot terms =
    (case lookup of
       None \<Rightarrow> Inl RankLookupMissing
     | Some l \<Rightarrow> mapRes (\<lambda>term. case lookupTermMatches l snapshot term maxSeedsPerTerm of
           Inl e \<Rightarrow> Inl (RankStoreError e)
         | Inr matches \<Rightarrow> Inr \<lparr>seed_Role = '''', seed_Term = term, seed_Nodes = map match_Node matches, seed_Rankings = []\<rparr>) terms)"

definition rankRetrieval :: "NodeLookup \<Rightarrow> LexicalSearcher \<Rightarrow> Snapshot \<Rightarrow> LexicalSearchRequest \<Rightarrow> RankError + SeedSet" where
  "rankRetrieval lookup searcher snapshot request =
    (if lex_Text request = '''' \<or> lex_Limit request \<le> 0 then Inl RankRequestInvalid
     else (case res_bind (lookupExactMatches lookup snapshot (lex_Text request) (lex_Limit request)) (\<lambda>matches.
         if matches \<noteq> [] then Inr (map match_Node matches) else res_map (map lm_Node) (searcher snapshot request)) of
       Inl e \<Rightarrow> Inl (RankStoreError e)
     | Inr nodes \<Rightarrow> Inr \<lparr>seed_Role = '''', seed_Term = lex_Text request, seed_Nodes = nodes, seed_Rankings = []\<rparr>))"

definition RankRetrievalsSnapshot :: "NodeLookup option \<Rightarrow> LexicalSearcher option \<Rightarrow> Snapshot \<Rightarrow> LexicalSearchRequest list \<Rightarrow> RankError + SeedSet list" where
  "RankRetrievalsSnapshot lookup searcher snapshot requests =
    (case (lookup, searcher) of
       (Some l, Some s) \<Rightarrow> mapRes (rankRetrieval l s snapshot) requests
     | _ \<Rightarrow> Inl RankLookupMissing)"

subsection \<open>Explanations\<close>

type_synonym Explainer = "Snapshot \<Rightarrow> string \<Rightarrow> StoreError + Explanation"

record ExplainResult =
  expr_Candidates :: "Node list"
  expr_RemainderCount :: nat
  expr_Explanation :: "Explanation option"

definition CandidateIDs :: "ExplainResult \<Rightarrow> string list" where
  "CandidateIDs result = map node_ID (expr_Candidates result)"

definition ExplainSnapshot :: "NodeLookup option \<Rightarrow> Explainer option \<Rightarrow> Snapshot \<Rightarrow> string \<Rightarrow> RankError + ExplainResult" where
  "ExplainSnapshot lookup explainer snapshot term =
    (case (explainer, lookup) of
       (Some explain, Some l) \<Rightarrow>
         (case lookupTermMatches l snapshot term (maxSeedsPerTerm + 1) of
            Inl e \<Rightarrow> Inl (RankStoreError e)
          | Inr matches \<Rightarrow>
              let candidates = map match_Node matches in
              if length candidates \<noteq> 1
              then Inr \<lparr>expr_Candidates = take maxSeedsPerTerm candidates, expr_RemainderCount = length candidates - maxSeedsPerTerm,
                expr_Explanation = None\<rparr>
              else (case explain snapshot (node_ID (candidates ! 0)) of
                  Inl e \<Rightarrow> Inl (RankStoreError e)
                | Inr explanation \<Rightarrow> Inr \<lparr>expr_Candidates = [], expr_RemainderCount = 0, expr_Explanation = Some explanation\<rparr>))
     | _ \<Rightarrow> Inl RankLookupMissing)"

subsection \<open>Ranks of a component\<close>

definition competitionRank :: "float64 list \<Rightarrow> nat set \<Rightarrow> nat \<Rightarrow> nat" where
  "competitionRank values indexes i = (if values ! i \<le> 0 then 0 else 1 + card {j \<in> indexes. values ! j > values ! i})"

lemma rankLoop_correct:
  assumes "distinct (before @ after)" "sorted_wrt (\<lambda>i j. values ! i \<ge> values ! j) (before @ after)"
    "set (before @ after) \<subseteq> {..<length ranks}"
    "\<forall>i\<in>set before. ranks ! i = competitionRank values (set (before @ after)) i" "\<forall>i\<in>set after. ranks ! i = 0"
    "previous = (if before = [] then None else Some (last before))"
  shows "\<forall>i\<in>set (before @ after). rankLoop values previous (length before) after ranks ! i = competitionRank values (set (before @ after)) i"
  using assms
proof (induction after arbitrary: before previous ranks)
  case Nil
  then show ?case by simp
next
  case (Cons x after)
  let ?all = "set (before @ x # after)"
  let ?rank = "case previous of Some p \<Rightarrow> if values ! x = values ! p then ranks ! p else length before + 1 | None \<Rightarrow> length before + 1"
  let ?ranks = "if values ! x \<le> 0 then ranks else ranks[x := ?rank]"
  have x: "x < length ranks" "x \<notin> set before" "x \<notin> set after" using Cons.prems(1,3) by auto
  have order: "values ! i \<ge> values ! x" if "i \<in> set before" for i using Cons.prems(2) that by (auto simp: sorted_wrt_append)
  have later: "values ! j \<le> values ! x" if "j \<in> set after" for j using Cons.prems(2) that by (auto simp: sorted_wrt_append)
  have rank: "?rank = competitionRank values ?all x" if pos: "\<not> values ! x \<le> 0"
  proof (cases "before = []")
    case True
    then have none: "{j \<in> ?all. values ! j > values ! x} = {}" using later by fastforce
    show ?thesis using True Cons.prems(6) pos unfolding competitionRank_def none by simp
  next
    case False
    let ?p = "last before"
    have p: "?p \<in> set before" using False by simp
    show ?thesis
    proof (cases "values ! x = values ! ?p")
      case True
      then show ?thesis using False p Cons.prems(4,6) pos by (simp add: competitionRank_def)
    next
      case differ: False
      have "values ! i > values ! x" if i: "i \<in> set before" for i
      proof -
        have "before = butlast before @ [?p]" using False by simp
        then have "values ! i \<ge> values ! ?p"
          using Cons.prems(2) i by (metis (no_types, lifting) UnE append_is_Nil_conv empty_iff last_in_set list.set(1) order_refl set_ConsD set_append sorted_wrt_append list.set_intros(1))
        then show ?thesis using order[OF p] differ by linarith
      qed
      then have "{j \<in> ?all. values ! j > values ! x} = set before" using later by fastforce
      then show ?thesis using False differ Cons.prems(1,6) pos by (simp add: competitionRank_def distinct_card)
    qed
  qed
  have step: "rankLoop values previous (length before) (x # after) ranks
      = rankLoop values (Some x) (length (before @ [x])) after ?ranks" by simp
  have "\<forall>i\<in>set ((before @ [x]) @ after). rankLoop values (Some x) (length (before @ [x])) after ?ranks ! i
      = competitionRank values (set ((before @ [x]) @ after)) i"
  proof (rule Cons.IH)
    show "\<forall>i\<in>set (before @ [x]). ?ranks ! i = competitionRank values (set ((before @ [x]) @ after)) i"
    proof
      fix i assume "i \<in> set (before @ [x])"
      then consider "i = x" | "i \<in> set before" "i \<noteq> x" using x(2) by auto
      then show "?ranks ! i = competitionRank values (set ((before @ [x]) @ after)) i"
      proof cases
        case 1
        then show ?thesis using rank x(1) Cons.prems(5) by (simp add: competitionRank_def)
      next
        case 2
        then show ?thesis using Cons.prems(4) by simp
      qed
    qed
    show "\<forall>i\<in>set after. ?ranks ! i = 0"
    proof
      fix i assume "i \<in> set after"
      moreover from this have "x \<noteq> i" using x(3) by metis
      ultimately show "?ranks ! i = 0" using Cons.prems(5) by (simp only: list.set_intros nth_list_update_neq split: if_splits) simp
    qed
  qed (use Cons.prems in auto)
  then show ?case unfolding step by simp
qed

lemma seedComponentRanks_length [simp]: "length (seedComponentRanks candidates values) = length candidates"
proof -
  have "length (rankLoop values previous position indexes ranks) = length ranks" for previous position indexes ranks
    by (induction "values" previous position indexes ranks rule: rankLoop.induct) simp_all
  then show ?thesis by (simp add: seedComponentRanks_def)
qed

lemma seedComponentRanks_nth:
  assumes "i < length candidates"
  shows "seedComponentRanks candidates values ! i = competitionRank values {..<length candidates} i"
proof -
  let ?n = "length candidates" and ?key = "\<lambda>index. (- (values ! index), node_ID (rs_node (candidates ! index)))"
  let ?indexes = "sort_key ?key [0..<?n]"
  have "sorted (map ?key ?indexes)" by simp
  then have "sorted_wrt (\<lambda>i j. ?key i \<le> ?key j) ?indexes" by (simp add: sorted_wrt_map)
  then have "sorted_wrt (\<lambda>i j. values ! i \<ge> values ! j) ?indexes" by (rule sorted_wrt_mono_rel[rotated]) auto
  then have "\<forall>i\<in>set ([] @ ?indexes). rankLoop values None (length ([] :: nat list)) ?indexes (replicate ?n 0) ! i
      = competitionRank values (set ([] @ ?indexes)) i"
    by (intro rankLoop_correct) auto
  then show ?thesis using assms by (simp add: seedComponentRanks_def atLeast_upt)
qed

subsection \<open>Fusion, exactly\<close>

text \<open>The reciprocal rank of a candidate by a list of component values.\<close>

definition reciprocal :: "float64 list \<Rightarrow> nat \<Rightarrow> nat \<Rightarrow> float64" where
  "reciprocal values n i = (if values ! i \<le> 0 then 0 else 1 / of_nat (61 + card {j. j < n \<and> values ! j > values ! i}))"

definition addedReciprocal :: "float64 \<Rightarrow> rankedSeed \<Rightarrow> rankedSeed" where
  "addedReciprocal r candidate = candidate\<lparr>rs_components := (rs_components candidate)\<lparr>sc_ReciprocalRank :=
     sc_ReciprocalRank (rs_components candidate) + r\<rparr>\<rparr>"

lemma addReciprocal_reciprocal:
  "addReciprocal (competitionRank values {..<n} i) candidate = addedReciprocal (reciprocal values n i) candidate"
proof -
  have "{j \<in> {..<n}. values ! j > values ! i} = {j. j < n \<and> values ! j > values ! i}" by auto
  then show ?thesis by (simp add: addReciprocal_def addedReciprocal_def competitionRank_def reciprocal_def)
qed

lemma addRanks_nth:
  "length (addRanks values candidates) = length candidates"
  "i < length candidates \<Longrightarrow> addRanks values candidates ! i = addedReciprocal (reciprocal values (length candidates) i) (candidates ! i)"
  by (simp_all add: addRanks_def seedComponentRanks_nth addReciprocal_reciprocal)

lemma addedReciprocal_sel [simp]:
  "rs_node (addedReciprocal r c) = rs_node c" "sc_Exact (rs_components (addedReciprocal r c)) = sc_Exact (rs_components c)"
  "sc_ReciprocalRank (rs_components (addedReciprocal r c)) = sc_ReciprocalRank (rs_components c) + r"
  by (simp_all add: addedReciprocal_def)

lemma fold_addRanks:
  "length (fold addRanks valuess candidates) = length candidates
   \<and> (\<forall>i<length candidates. rs_node (fold addRanks valuess candidates ! i) = rs_node (candidates ! i)
     \<and> sc_Exact (rs_components (fold addRanks valuess candidates ! i)) = sc_Exact (rs_components (candidates ! i))
     \<and> sc_ReciprocalRank (rs_components (fold addRanks valuess candidates ! i))
       = sc_ReciprocalRank (rs_components (candidates ! i)) + sum_list (map (\<lambda>values. reciprocal values (length candidates) i) valuess))"
proof (induction valuess arbitrary: candidates)
  case (Cons v vs)
  show ?case using Cons.IH[of "addRanks v candidates"] by (simp add: addRanks_nth)
qed simp

lemma normaliseLexical_nth:
  "length (normaliseLexical candidates) = length candidates"
  "i < length candidates \<Longrightarrow> rs_node (normaliseLexical candidates ! i) = rs_node (candidates ! i)"
  "i < length candidates \<Longrightarrow> sc_Exact (rs_components (normaliseLexical candidates ! i)) = sc_Exact (rs_components (candidates ! i))"
  "i < length candidates \<Longrightarrow> sc_ReciprocalRank (rs_components (normaliseLexical candidates ! i)) = sc_ReciprocalRank (rs_components (candidates ! i))"
  by (simp_all add: normaliseLexical_def Let_def)

text \<open>Dividing by the maximum does not change which candidates are better.\<close>

lemma reciprocal_normalised:
  assumes "i < length candidates" "component \<in> set rankedComponents"
  shows "reciprocal (seedComponentValues (normaliseLexical candidates) component) (length candidates) i
    = reciprocal (seedComponentValues candidates component) (length candidates) i"
proof -
  define m where "m = fold (\<lambda>candidate m. max m (sc_Lexical (rs_components candidate))) candidates 0"
  have scaled: "\<exists>d>0. \<forall>j<length candidates. seedComponentValues (normaliseLexical candidates) component ! j = seedComponentValues candidates component ! j / d"
  proof (cases "m > 0 \<and> component = sc_Lexical")
    case True
    then have "seedComponentValues (normaliseLexical candidates) component ! j = seedComponentValues candidates component ! j / m"
      if "j < length candidates" for j
      using that by (simp add: seedComponentValues_def normaliseLexical_def m_def[symmetric])
    with True show ?thesis by blast
  next
    case False
    then have "seedComponentValues (normaliseLexical candidates) component ! j = seedComponentValues candidates component ! j / 1"
      if "j < length candidates" for j
      using that assms(2) by (auto simp: seedComponentValues_def normaliseLexical_def m_def[symmetric] rankedComponents_def Let_def)
    then show ?thesis by (intro exI[of _ 1]) simp
  qed
  then obtain d where d: "d > 0" "\<And>j. j < length candidates \<Longrightarrow>
      seedComponentValues (normaliseLexical candidates) component ! j = seedComponentValues candidates component ! j / d" by blast
  have "{j. j < length candidates \<and> seedComponentValues (normaliseLexical candidates) component ! j > seedComponentValues (normaliseLexical candidates) component ! i}
      = {j. j < length candidates \<and> seedComponentValues candidates component ! j > seedComponentValues candidates component ! i}"
    using d assms(1) by (auto simp: divide_less_cancel)
  then show ?thesis using d assms(1) by (simp add: reciprocal_def divide_le_0_iff)
qed

text \<open>The score a candidate should get: its exactness and, for every component with a positive value, the
  reciprocal of 61 plus the number of candidates with a greater value.\<close>

definition fusedScore :: "rankedSeed list \<Rightarrow> nat \<Rightarrow> float64" where
  "fusedScore candidates i = sc_Exact (rs_components (candidates ! i)) + sc_ReciprocalRank (rs_components (candidates ! i))
     + sum_list (map (\<lambda>component. reciprocal (map (\<lambda>c. component (rs_components c)) candidates) (length candidates) i) rankedComponents)"

text \<open>Score fusion: the fused candidates are the given ones, each with the score of its competition ranks
  - exactness plus, for every component in which it has a positive value, the reciprocal of 61 plus the
  number of candidates that are strictly better - in decreasing order of score, ties broken by
  qualified name, label and ID; scaling the lexical scores never changes the result.\<close>

theorem fusion_scores_exactly:
  "mset (map (\<lambda>c. (rs_node c, rs_score c)) (fuseRankedSeeds candidates))
     = mset (map (\<lambda>i. (rs_node (candidates ! i), fusedScore candidates i)) [0..<length candidates])
   \<and> sorted (map seedKey (fuseRankedSeeds candidates))"
proof (cases "candidates = []")
  case True
  then show ?thesis by (simp add: fuseRankedSeeds_def)
next
  case False
  let ?n = "normaliseLexical candidates"
  let ?ranked = "fold addRanks (map (seedComponentValues ?n) rankedComponents) ?n"
  have fuse: "fuseRankedSeeds candidates = sort_key seedKey (map setScore ?ranked)" using False by (simp add: fuseRankedSeeds_def Let_def)
  have len: "length ?ranked = length candidates" using fold_addRanks[of _ ?n] by (simp add: normaliseLexical_nth)
  have "(rs_node (setScore (?ranked ! i)), rs_score (setScore (?ranked ! i))) = (rs_node (candidates ! i), fusedScore candidates i)"
    if i: "i < length candidates" for i
  proof -
    have "map (\<lambda>values. reciprocal values (length candidates) i) (map (seedComponentValues ?n) rankedComponents)
        = map (\<lambda>component. reciprocal (map (\<lambda>c. component (rs_components c)) candidates) (length candidates) i) rankedComponents"
      using reciprocal_normalised[OF i] by (simp add: seedComponentValues_def)
    note same = this
    have "rs_node (?ranked ! i) = rs_node (candidates ! i)" "sc_Exact (rs_components (?ranked ! i)) = sc_Exact (rs_components (candidates ! i))"
      "sc_ReciprocalRank (rs_components (?ranked ! i)) = sc_ReciprocalRank (rs_components (candidates ! i))
        + sum_list (map (\<lambda>component. reciprocal (map (\<lambda>c. component (rs_components c)) candidates) (length candidates) i) rankedComponents)"
      unfolding same[symmetric] using fold_addRanks[of "map (seedComponentValues ?n) rankedComponents" ?n] i
      by (simp_all only: normaliseLexical_nth)
    then show ?thesis by (simp add: setScore_def fusedScore_def)
  qed
  then have "map (\<lambda>c. (rs_node c, rs_score c)) (map setScore ?ranked)
      = map (\<lambda>i. (rs_node (candidates ! i), fusedScore candidates i)) [0..<length candidates]"
    by (intro nth_equalityI) (simp_all add: len)
  moreover have "mset (map h (sort_key seedKey ys)) = mset (map h ys)" for h :: "rankedSeed \<Rightarrow> Node \<times> float64" and ys
    unfolding mset_map mset_sort by (rule refl)
  ultimately show ?thesis unfolding fuse by (simp only: sorted_sort_key)
qed

subsection \<open>Diversity, exactly\<close>

fun firstBy :: "('a \<Rightarrow> 'k) \<Rightarrow> 'a list \<Rightarrow> 'a list" where
  "firstBy key [] = []"
| "firstBy key (x # xs) = x # firstBy key (filter (\<lambda>y. key y \<noteq> key x) xs)"

lemma set_firstBy: "set (firstBy key xs) \<subseteq> set xs"
  by (induction key xs rule: firstBy.induct) auto

lemma firstBy_distinct: "distinct (map key (firstBy key xs))"
proof (induction key xs rule: firstBy.induct)
  case (2 key x xs)
  then show ?case using set_firstBy[of key "filter (\<lambda>y. key y \<noteq> key x) xs"] by auto
qed simp

lemma firstBy_keys: "key ` set (firstBy key xs) = key ` set xs"
  by (induction key xs rule: firstBy.induct) auto

definition seedID :: "rankedSeed \<Rightarrow> string" where "seedID candidate = node_ID (rs_node candidate)"

definition seedPath :: "rankedSeed \<Rightarrow> string" where "seedPath candidate = span_Path (ev_Span (node_Evidence (rs_node candidate)))"

text \<open>The best candidate of every node, the best of these in every file, and the others.\<close>

definition bestOfNodes :: "rankedSeed list \<Rightarrow> rankedSeed list" where
  "bestOfNodes candidates = firstBy seedID candidates"

definition bestOfPaths :: "rankedSeed list \<Rightarrow> rankedSeed list" where
  "bestOfPaths candidates = firstBy seedPath (bestOfNodes candidates)"

definition otherSeeds :: "rankedSeed list \<Rightarrow> rankedSeed list" where
  "otherSeeds candidates = filter (\<lambda>c. c \<notin> set (bestOfPaths candidates)) (bestOfNodes candidates)"

lemma appendDeferred_take:
  "int (length selected) < limit \<Longrightarrow> appendDeferred limit deferred selected = take (nat limit) (selected @ deferred)"
proof (induction limit deferred selected rule: appendDeferred.induct)
  case (2 limit candidate deferred selected)
  show ?case
  proof (cases "int (length (selected @ [candidate])) = limit")
    case True
    then have "nat limit = length (selected @ [candidate])" by simp
    then have "take (nat limit) (selected @ candidate # deferred) = selected @ [candidate]" by simp
    then show ?thesis using True by simp
  next
    case False
    then have "int (length (selected @ [candidate])) < limit" using "2.prems" by simp
    from "2.IH"[OF False this] show ?thesis using False by simp
  qed
qed simp

fun walkSeeds :: "string set \<Rightarrow> string set \<Rightarrow> rankedSeed list \<Rightarrow> rankedSeed list \<times> rankedSeed list" where
  "walkSeeds nodes paths [] = ([], [])"
| "walkSeeds nodes paths (c # cs) =
    (if seedID c \<in> nodes then walkSeeds nodes paths cs
     else if seedPath c \<in> paths then (case walkSeeds (insert (seedID c) nodes) paths cs of (ls, os) \<Rightarrow> (ls, c # os))
     else (case walkSeeds (insert (seedID c) nodes) (insert (seedPath c) paths) cs of (ls, os) \<Rightarrow> (c # ls, os)))"

lemma diversify_walk:
  "int (length selected) < limit \<Longrightarrow>
   (case diversifyLoop limit cs selected deferred nodes paths of
      (s, d, full) \<Rightarrow> if full then s else appendDeferred limit d s)
   = take (nat limit) (selected @ fst (walkSeeds nodes paths cs) @ deferred @ snd (walkSeeds nodes paths cs))"
proof (induction cs arbitrary: selected deferred nodes paths)
  case Nil
  then show ?case using appendDeferred_take[of selected limit deferred] by simp
next
  case (Cons c cs)
  note ids = seedID_def[symmetric] seedPath_def[symmetric]
  consider "seedID c \<in> nodes" | "seedID c \<notin> nodes" "seedPath c \<in> paths" | "seedID c \<notin> nodes" "seedPath c \<notin> paths" by blast
  then show ?case
  proof cases
    case 1
    then show ?thesis using Cons.IH[OF Cons.prems] by (simp add: ids)
  next
    case 2
    then show ?thesis using Cons.IH[OF Cons.prems, of "deferred @ [c]" "insert (seedID c) nodes" paths]
      by (simp add: ids Let_def split: prod.splits)
  next
    case 3
    show ?thesis
    proof (cases "int (length (selected @ [c])) = limit")
      case True
      then have "nat limit = length (selected @ [c])" by simp
      then show ?thesis using True 3 by (simp add: ids Let_def split: prod.splits)
    next
      case False
      then have "int (length (selected @ [c])) < limit" using Cons.prems by simp
      from Cons.IH[OF this, of deferred "insert (seedID c) nodes" "insert (seedPath c) paths"] False 3
      show ?thesis by (simp add: ids Let_def case_prod_unfold del: take_append)
    qed
  qed
qed

lemma walkSeeds_best:
  "let unique = firstBy seedID (filter (\<lambda>c. seedID c \<notin> nodes) cs); leaders = firstBy seedPath (filter (\<lambda>c. seedPath c \<notin> paths) unique)
   in walkSeeds nodes paths cs = (leaders, filter (\<lambda>c. c \<notin> set leaders) unique)"
proof (induction cs arbitrary: nodes paths)
  case (Cons c cs)
  let ?nodes = "insert (seedID c) nodes" and ?paths = "insert (seedPath c) paths"
  define unique where "unique = firstBy seedID (filter (\<lambda>d. seedID d \<notin> ?nodes) cs)"
  have next_unique: "firstBy seedID (filter (\<lambda>d. seedID d \<notin> nodes) (c # cs)) = c # unique" if "seedID c \<notin> nodes"
    using that by (simp add: unique_def conj_commute)
  have fresh: "c \<notin> set unique" using set_firstBy[of seedID "filter (\<lambda>d. seedID d \<notin> ?nodes) cs"] by (auto simp: unique_def)
  consider "seedID c \<in> nodes" | "seedID c \<notin> nodes" "seedPath c \<in> paths" | "seedID c \<notin> nodes" "seedPath c \<notin> paths" by blast
  then show ?case
  proof cases
    case 1
    then show ?thesis using Cons.IH[of nodes paths] by (simp add: Let_def)
  next
    case 2
    let ?leaders = "firstBy seedPath (filter (\<lambda>d. seedPath d \<notin> paths) unique)"
    have "c \<notin> set ?leaders" using set_firstBy[of seedPath "filter (\<lambda>d. seedPath d \<notin> paths) unique"] 2(2) by auto
    then show ?thesis using Cons.IH[of ?nodes paths] 2 unfolding next_unique[OF 2(1)] Let_def unique_def[symmetric] by simp
  next
    case 3
    let ?leaders = "firstBy seedPath (filter (\<lambda>d. seedPath d \<notin> ?paths) unique)"
    have leaders: "firstBy seedPath (filter (\<lambda>d. seedPath d \<notin> paths) (c # unique)) = c # ?leaders"
      using 3(2) by (simp add: conj_commute)
    have "filter (\<lambda>d. d \<notin> set (c # ?leaders)) (c # unique) = filter (\<lambda>d. d \<notin> set ?leaders) unique"
      using fresh by (auto intro!: filter_cong)
    then show ?thesis using Cons.IH[of ?nodes ?paths] 3
      unfolding next_unique[OF 3(1)] Let_def unique_def[symmetric] leaders by simp
  qed
qed simp

lemma diversify_eq:
  assumes "0 < limit"
  shows "diversifyRankedSeeds candidates limit = take (nat limit) (bestOfPaths candidates @ otherSeeds candidates)"
proof -
  have walk: "walkSeeds {} {} candidates = (bestOfPaths candidates, otherSeeds candidates)"
    using walkSeeds_best[of "{}" candidates "{}"] by (simp add: Let_def bestOfPaths_def otherSeeds_def bestOfNodes_def)
  show ?thesis
    using diversify_walk[of "[]" limit candidates "[]" "{}" "{}"] assms unfolding diversifyRankedSeeds_def walk by simp
qed

lemma selection_distinct: "distinct (map seedID (take n (bestOfPaths candidates @ otherSeeds candidates)))"
proof -
  have unique: "distinct (map seedID (bestOfNodes candidates))" unfolding bestOfNodes_def by (rule firstBy_distinct)
  have sub: "set (bestOfPaths candidates) \<subseteq> set (bestOfNodes candidates)" unfolding bestOfPaths_def by (rule set_firstBy)
  have "distinct (bestOfPaths candidates)" unfolding bestOfPaths_def
    by (rule distinct_map[THEN iffD1, THEN conjunct1, OF firstBy_distinct])
  moreover have "distinct (otherSeeds candidates)" unfolding otherSeeds_def
    by (rule distinct_filter[OF distinct_map[THEN iffD1, THEN conjunct1, OF unique]])
  ultimately have "distinct (bestOfPaths candidates @ otherSeeds candidates)" by (auto simp: otherSeeds_def)
  moreover have "set (bestOfPaths candidates @ otherSeeds candidates) \<subseteq> set (bestOfNodes candidates)" using sub by (auto simp: otherSeeds_def)
  moreover have "inj_on seedID (set (bestOfNodes candidates))" using unique by (simp add: distinct_map)
  ultimately have "distinct (map seedID (bestOfPaths candidates @ otherSeeds candidates))"
    unfolding distinct_map by (meson inj_on_subset)
  then show ?thesis unfolding take_map[symmetric] by (rule distinct_take)
qed

lemma diversify_sub:
  assumes "0 < limit"
  shows "set (diversifyRankedSeeds candidates limit) \<subseteq> set candidates" "int (length (diversifyRankedSeeds candidates limit)) \<le> limit"
    "distinct (map seedID (diversifyRankedSeeds candidates limit))"
proof -
  have "set (bestOfPaths candidates @ otherSeeds candidates) \<subseteq> set candidates"
    using set_firstBy[of seedPath "bestOfNodes candidates"] set_firstBy[of seedID candidates]
    by (auto simp: bestOfPaths_def bestOfNodes_def otherSeeds_def)
  then show "set (diversifyRankedSeeds candidates limit) \<subseteq> set candidates"
    unfolding diversify_eq[OF assms] using set_take_subset by (rule subset_trans[rotated])
  show "int (length (diversifyRankedSeeds candidates limit)) \<le> limit" unfolding diversify_eq[OF assms] using assms by simp
  show "distinct (map seedID (diversifyRankedSeeds candidates limit))"
    unfolding diversify_eq[OF assms] by (rule selection_distinct)
qed

text \<open>Diversity: for a positive limit the selection is the first limit elements of: the best candidate
  of every file in ranking order, then the remaining best candidates of the nodes in ranking order;
  so no node is selected twice and a second node of a file only when every file is represented.\<close>

theorem diversity_exact:
  assumes "0 < limit"
  shows "diversifyRankedSeeds candidates limit = take (nat limit) (bestOfPaths candidates @ otherSeeds candidates)
    \<and> distinct (map seedID (diversifyRankedSeeds candidates limit))
    \<and> distinct (map seedPath (bestOfPaths candidates)) \<and> seedPath ` set (bestOfPaths candidates) = seedPath ` set (bestOfNodes candidates)"
  using diversify_eq[OF assms] diversify_sub(3)[OF assms] firstBy_distinct[of seedPath "bestOfNodes candidates"]
    firstBy_keys[of seedPath "bestOfNodes candidates"] unfolding bestOfPaths_def by blast

subsection \<open>Seed sets\<close>

definition wf_seedSet :: "SeedRequest \<Rightarrow> SeedSet \<Rightarrow> bool" where
  "wf_seedSet request seeds \<longleftrightarrow> seed_Role seeds = sreq_Role request \<and> seed_Term seeds = lex_Text (sreq_Retrieval request)
     \<and> distinct (map node_ID (seed_Nodes seeds)) \<and> int (length (seed_Nodes seeds)) \<le> lex_Limit (sreq_Retrieval request)
     \<and> map sr_NodeID (seed_Rankings seeds) = map node_ID (seed_Nodes seeds)
     \<and> (\<forall>n\<in>set (seed_Nodes seeds). matchesSourcePath n (lex_SourcePath (sreq_Retrieval request)))"

lemma fuse_nodes: "rs_node ` set (fuseRankedSeeds candidates) = rs_node ` set candidates"
proof (cases "candidates = []")
  case False
  let ?ranked = "fold addRanks (map (seedComponentValues (normaliseLexical candidates)) rankedComponents) (normaliseLexical candidates)"
  have "map rs_node ?ranked = map rs_node candidates"
    using fold_addRanks[of "map (seedComponentValues (normaliseLexical candidates)) rankedComponents" "normaliseLexical candidates"]
    by (intro nth_equalityI) (simp_all add: normaliseLexical_nth)
  then have "rs_node ` set ?ranked = rs_node ` set candidates" by (metis list.set_map)
  then show ?thesis using False by (simp add: fuseRankedSeeds_def Let_def setScore_def image_image)
qed (simp add: fuseRankedSeeds_def)

lemma seedCandidates_path:
  assumes "seedCandidates u lookup searcher snapshot request = Inr candidates" "c \<in> set candidates"
  shows "matchesSourcePath (rs_node c) (lex_SourcePath (sreq_Retrieval request))"
proof -
  let ?path = "lex_SourcePath (sreq_Retrieval request)"
  from assms(1) consider
    (exact) found where "candidates = map exactSeed (filter (\<lambda>match. matchesSourcePath (match_Node match) ?path) found)"
  | (lexical) found where "candidates = fuseRankedSeeds (map (lexicalSeed u request) (filter (\<lambda>match. matchesSourcePath (lm_Node match) ?path) found))"
    by (auto simp: seedCandidates_def Let_def res_simps split: if_splits)
  then show ?thesis
  proof cases
    case exact
    then show ?thesis using assms(2) by (auto simp: exactSeed_def)
  next
    case lexical
    have "rs_node c \<in> rs_node ` set candidates" using assms(2) by (rule imageI)
    then have "rs_node c \<in> lm_Node ` set (filter (\<lambda>match. matchesSourcePath (lm_Node match) ?path) found)"
      unfolding lexical fuse_nodes by (auto simp: lexicalSeed_def Let_def)
    then show ?thesis by auto
  qed
qed

lemma preferExact_sub: "set (preferExactSourceLabel foldRune candidates searchText) \<subseteq> set candidates"
  by (auto simp: preferExactSourceLabel_def Let_def)

text \<open>Seed sets are well formed: when seed requests are ranked, every request gets one seed set with its
  role and text, at most its limit of distinct nodes, all of the requested source path when one is
  given, and one ranking entry per node in the same order.\<close>

theorem seed_sets_wellformed:
  assumes "RankSeedRequestsSnapshot u foldRune lookup searcher snapshot requests = Inr sets"
  shows "list_all2 wf_seedSet requests sets"
proof -
  obtain l s where "mapRes (rankSeedRequest u foldRune l s snapshot) requests = Inr sets"
    using assms by (auto simp: RankSeedRequestsSnapshot_def split: option.splits)
  then have each: "list_all2 (\<lambda>request seeds. rankSeedRequest u foldRune l s snapshot request = Inr seeds) requests sets"
    by (simp only: mapRes_Inr)
  show ?thesis
  proof (rule list_all2_mono[OF each])
    fix request seeds
    assume ok: "rankSeedRequest u foldRune l s snapshot request = Inr seeds"
    let ?r = "sreq_Retrieval request"
    from ok obtain candidates where limit: "0 < lex_Limit ?r" and candidates: "seedCandidates u l s snapshot request = Inr candidates"
      by (auto simp: rankSeedRequest_def Let_def split: if_splits sum.splits)
    define preferred where "preferred = (if lex_SourcePath ?r \<noteq> '''' then preferExactSourceLabel foldRune candidates (lex_Text ?r) else candidates)"
    define ranked where "ranked = diversifyRankedSeeds preferred (lex_Limit ?r)"
    have seeds: "seeds = \<lparr>seed_Role = sreq_Role request, seed_Term = lex_Text ?r, seed_Nodes = map rs_node ranked,
                seed_Rankings = map (\<lambda>candidate. \<lparr>sr_NodeID = node_ID (rs_node candidate), sr_Score = rs_score candidate,
                  sr_Components = rs_components candidate\<rparr>) ranked\<rparr>"
      using ok candidates unfolding rankSeedRequest_def Let_def ranked_def preferred_def by (simp split: if_splits)
    have "set preferred \<subseteq> set candidates" unfolding preferred_def using preferExact_sub by simp
    then have "set ranked \<subseteq> set candidates" using diversify_sub(1)[OF limit, of preferred] by (simp add: ranked_def)
    then have "\<forall>n\<in>set (seed_Nodes seeds). matchesSourcePath n (lex_SourcePath ?r)"
      using seedCandidates_path[OF candidates] unfolding seeds by auto
    moreover have "distinct (map node_ID (seed_Nodes seeds))" "int (length (seed_Nodes seeds)) \<le> lex_Limit ?r"
      using diversify_sub(2,3)[OF limit, of preferred] unfolding seeds ranked_def by (simp_all add: o_def seedID_def[abs_def])
    ultimately show "wf_seedSet request seeds" unfolding wf_seedSet_def by (simp add: seeds o_def)
  qed
qed

subsection \<open>Samples\<close>

definition ranking_node :: "string \<Rightarrow> string \<Rightarrow> Node" where
  "ranking_node i path = zero_Node\<lparr>node_ID := i, node_Evidence := zero_Evidence\<lparr>ev_Span := (ev_Span zero_Evidence)\<lparr>span_Path := path\<rparr>\<rparr>\<rparr>"

definition ranking_seed :: "string \<Rightarrow> string \<Rightarrow> rankedSeed" where
  "ranking_seed i path = exactSeed \<lparr>match_Node = ranking_node i path, match_Score = 1\<rparr>"

theorem diversity_exact_witness:
  "map seedID (diversifyRankedSeeds [ranking_seed ''a'' ''x'', ranking_seed ''b'' ''x'', ranking_seed ''a'' ''x'', ranking_seed ''c'' ''y''] 2) = [''a'', ''c'']"
  using diversity_exact[of 2 "[ranking_seed ''a'' ''x'', ranking_seed ''b'' ''x'', ranking_seed ''a'' ''x'', ranking_seed ''c'' ''y'']"]
  by (simp add: bestOfPaths_def bestOfNodes_def otherSeeds_def ranking_seed_def exactSeed_def ranking_node_def seedID_def seedPath_def)

definition ranking_lookup :: NodeLookup where
  "ranking_lookup = \<lparr>nl_LookupNodes = (\<lambda>_ _. Inr []), nl_LookupExactNodes = Some (\<lambda>_ _. Inr [\<lparr>match_Node = ranking_node ''a'' ''x'', match_Score = 1\<rparr>])\<rparr>"

definition ranking_request :: SeedRequest where
  "ranking_request = \<lparr>sreq_Role = ''caller'', sreq_EntityRole = '''', sreq_Retrieval = \<lparr>lex_Text = ''a'', lex_Phrases = [], lex_TokenGroups = [],
     lex_Kinds = [], lex_ProjectIDs = [], lex_SourcePath = '''', lex_Limit = 1\<rparr>\<rparr>"

theorem seed_sets_wellformed_witness:
  "\<exists>seeds. RankSeedRequestsSnapshot asciiTables (\<lambda>r. r) (Some ranking_lookup) (Some (\<lambda>_ _. Inr [])) \<lparr>snap_Workspace = ''w'', snap_Version = 1, snap_PublishedAt = 0\<rparr>
     [ranking_request] = Inr [seeds] \<and> seed_Nodes seeds = [ranking_node ''a'' ''x''] \<and> wf_seedSet ranking_request seeds"
proof -
  let ?run = "RankSeedRequestsSnapshot asciiTables (\<lambda>r. r) (Some ranking_lookup) (Some (\<lambda>_ _. Inr [])) \<lparr>snap_Workspace = ''w'', snap_Version = 1, snap_PublishedAt = 0\<rparr> [ranking_request]"
  have "diversifyRankedSeeds [ranking_seed ''a'' ''x''] 1 = [ranking_seed ''a'' ''x'']"
    using diversify_eq[of 1 "[ranking_seed ''a'' ''x'']"] by (simp add: bestOfPaths_def bestOfNodes_def)
  then obtain seeds where s: "?run = Inr [seeds]" "seed_Nodes seeds = [ranking_node ''a'' ''x'']"
    by (simp add: RankSeedRequestsSnapshot_def rankSeedRequest_def seedCandidates_def lookupExactMatches_def ranking_request_def
        ranking_lookup_def matchesSourcePath_def Let_def ranking_seed_def exactSeed_def)
  then have "list_all2 wf_seedSet [ranking_request] [seeds]" using seed_sets_wellformed[OF s(1)] by blast
  then show ?thesis using s by simp
qed

end
