(* ===== verification/Questions.thy ===== *)
theory Questions
  imports Ranking
begin

text \<open>
  Questions and their plans (query/question.go): the grammar of supported questions, the entity slots
  of a plan, and the validation of plans proposed by a planner model.  The regular expressions are
  written in a small pattern type with the leftmost-first meaning of Go's regexp package: the results
  of matching are listed in the order a backtracking matcher tries them.  JSON decoding of a planner
  response is a parameter.
\<close>

subsection \<open>Patterns\<close>

datatype Regexp =
    Lit rune
  | AnyRune
  | OneOf "rune list"
  | Seq Regexp Regexp
  | Alt Regexp Regexp
  | Opt Regexp
  | LazyPlus Regexp
  | Plus Regexp
  | Capture Regexp
  | WordBoundary
  | Eps

text \<open>A position of the matcher: the segment before it, the segments after it, the captures so far.\<close>

type_synonym Position = "string option \<times> string list \<times> string list"

definition wordRune :: "rune \<Rightarrow> bool" where
  "wordRune r \<longleftrightarrow> asciiUpper r \<or> asciiLower r \<or> asciiDigit r \<or> r = 95"

definition consume :: "(rune \<Rightarrow> bool) \<Rightarrow> Position \<Rightarrow> Position list" where
  "consume P here = (case here of (before, seg # rest, captures) \<Rightarrow> if P (runeOf seg) then [(Some seg, rest, captures)] else []
     | (before, [], captures) \<Rightarrow> [])"

definition restOf :: "Position \<Rightarrow> string list" where "restOf here = fst (snd here)"

definition atWordBoundary :: "Position \<Rightarrow> bool" where
  "atWordBoundary here = (case here of (before, rest, captures) \<Rightarrow>
     (case before of None \<Rightarrow> False | Some seg \<Rightarrow> wordRune (runeOf seg))
       \<noteq> (case rest of [] \<Rightarrow> False | seg # _ \<Rightarrow> wordRune (runeOf seg)))"

definition capture :: "Position \<Rightarrow> Position \<Rightarrow> Position" where
  "capture from to = (case to of (before, rest, captures) \<Rightarrow>
     (before, rest, captures @ [concat (take (length (restOf from) - length rest) (restOf from))]))"

text \<open>Repetition of a matcher, the longest first or the shortest first; a round that consumes nothing
  ends it, so the length of the rest bounds the rounds.\<close>

fun plusMatches :: "bool \<Rightarrow> nat \<Rightarrow> (Position \<Rightarrow> Position list) \<Rightarrow> Position \<Rightarrow> Position list" where
  "plusMatches lazy 0 m here = m here"
| "plusMatches lazy (Suc n) m here =
    concat (map (\<lambda>to. let more = (if length (restOf to) < length (restOf here) then plusMatches lazy n m to else [])
       in if lazy then to # more else more @ [to]) (m here))"

fun regexpMatches :: "(rune \<Rightarrow> rune) \<Rightarrow> Regexp \<Rightarrow> Position \<Rightarrow> Position list" where
  "regexpMatches foldRune (Lit r) here = consume (\<lambda>c. foldRune c = foldRune r) here"
| "regexpMatches foldRune AnyRune here = consume (\<lambda>c. c \<noteq> 10) here"
| "regexpMatches foldRune (OneOf rs) here = consume (\<lambda>c. list_ex (\<lambda>r. foldRune c = foldRune r) rs) here"
| "regexpMatches foldRune (Seq r s) here = concat (map (regexpMatches foldRune s) (regexpMatches foldRune r here))"
| "regexpMatches foldRune (Alt r s) here = regexpMatches foldRune r here @ regexpMatches foldRune s here"
| "regexpMatches foldRune (Opt r) here = regexpMatches foldRune r here @ [here]"
| "regexpMatches foldRune (LazyPlus r) here = plusMatches True (length (restOf here)) (regexpMatches foldRune r) here"
| "regexpMatches foldRune (Plus r) here = plusMatches False (length (restOf here)) (regexpMatches foldRune r) here"
| "regexpMatches foldRune (Capture r) here = map (capture here) (regexpMatches foldRune r here)"
| "regexpMatches foldRune WordBoundary here = (if atWordBoundary here then [here] else [])"
| "regexpMatches foldRune Eps here = [here]"

text \<open>FindStringSubmatch of a pattern anchored at both ends, without the whole match.\<close>

definition findSubmatch :: "(rune \<Rightarrow> rune) \<Rightarrow> Regexp \<Rightarrow> string \<Rightarrow> string list option" where
  "findSubmatch foldRune r s =
     map_option (\<lambda>here. snd (snd here)) (find (\<lambda>here. restOf here = []) (regexpMatches foldRune r (None, segments s, [])))"

text \<open>Literal text of a pattern is ASCII.\<close>

definition lits :: "string \<Rightarrow> Regexp" where
  "lits s = foldr (\<lambda>c p. Seq (Lit (byte c)) p) s Eps"

definition pseq :: "Regexp list \<Rightarrow> Regexp" where
  "pseq ps = foldr Seq ps Eps"

definition anyText :: Regexp where "anyText = Capture (LazyPlus AnyRune)"

definition optional :: "string \<Rightarrow> Regexp" where "optional s = Opt (lits s)"

subsection \<open>Plans\<close>

datatype Intent =
    IntentUnknown | IntentLookup | IntentExplain | IntentCalls | IntentCalledBy | IntentDependencies | IntentDependents
  | IntentPath | IntentReachability | IntentSharedContract | IntentImpact | IntentDependencyComparison | IntentCapability
  | OtherIntent string

datatype ExecutionOperator =
    OperatorLookup | OperatorExplain | OperatorNeighbors | OperatorPath | OperatorIntersection | OperatorImpact

record EntitySlot =
  slot_Role :: string
  slot_EntityRole :: string
  slot_Text :: string
  slot_Retrieval :: LexicalSearchRequest

record PlanWarning =
  warn_Code :: string
  warn_Message :: string
  warn_Suggestions :: "string list"

record QueryPlan =
  plan_SchemaVersion :: int
  plan_Question :: string
  plan_Tokens :: "string list"
  plan_NormalizedTerms :: "string list"
  plan_QuotedPhrases :: "string list"
  plan_IgnoredStopWords :: "string list"
  plan_RelationHints :: "string list"
  plan_DirectionHints :: "string list"
  plan_Intent :: Intent
  plan_Confidence :: float64
  plan_EntitySlots :: "EntitySlot list"
  plan_AllowedRelations :: "RelationKind list"
  plan_Direction :: TraversalDirection
  plan_Operator :: ExecutionOperator
  plan_MaxDepth :: int
  plan_MaxNodes :: int
  plan_Warnings :: "PlanWarning list"

definition QueryPlanSchemaVersion :: int where "QueryPlanSchemaVersion = 1"


subsection \<open>Tokens\<close>

text \<open>The token being collected (empty before its first rune), the rune before, the runes ahead.\<close>

fun tokenScan :: "UnicodeTables \<Rightarrow> rune list \<Rightarrow> rune \<Rightarrow> rune list \<Rightarrow> string list" where
  "tokenScan u token previous [] = (if token = [] then [] else [encodeRunes token])"
| "tokenScan u token previous (c # rest) =
    (if \<not> isLetter u c \<and> \<not> isDigit u c
     then (if token = [] then tokenScan u [] c rest else encodeRunes token # tokenScan u [] c rest)
     else if token = [] then tokenScan u [c] c rest
     else let nextIsLower = (case rest of [] \<Rightarrow> False | next # _ \<Rightarrow> isLower u next) in
       if isUpper u c \<and> (isLower u previous \<or> isDigit u previous \<or> isUpper u previous \<and> nextIsLower)
       then encodeRunes token # tokenScan u [c] c rest
       else tokenScan u (token @ [c]) c rest)"

definition questionTokens :: "UnicodeTables \<Rightarrow> string \<Rightarrow> string list" where
  "questionTokens u s = tokenScan u [] 0 (runes s)"

definition lowercaseTokens :: "UnicodeTables \<Rightarrow> string list \<Rightarrow> string list" where
  "lowercaseTokens u tokens = map (ToLower u) tokens"

definition questionStopWords :: "string list" where
  "questionStopWords = [''a'', ''an'', ''are'', ''by'', ''describe'', ''do'', ''does'',
    ''explain'', ''find'', ''for'', ''from'', ''functions'', ''how'',
    ''is'', ''me'', ''modules'', ''of'', ''package'', ''packages'',
    ''show'', ''the'', ''to'', ''what'', ''where'', ''which'', ''who'']"

definition controlledSynonyms :: "(string \<times> string) list" where
  "controlledSynonyms = [(''affected'', ''impact''), (''caller'', ''called_by''), (''callers'', ''called_by''),
    (''common'', ''shared''), (''depends'', ''dependencies''), (''flow'', ''path''), (''flows'', ''path''),
    (''import'', ''dependencies''), (''imports'', ''dependencies''), (''invoke'', ''calls''), (''invokes'', ''calls''),
    (''reaches'', ''path''), (''required'', ''dependencies''), (''uses'', ''dependencies'')]"

fun normalizeQuestionTokens :: "UnicodeTables \<Rightarrow> string list \<Rightarrow> string list \<times> string list" where
  "normalizeQuestionTokens u [] = ([], [])"
| "normalizeQuestionTokens u (token # tokens) =
    (let normalized = ToLower u token; (terms, ignored) = normalizeQuestionTokens u tokens in
     if normalized \<in> set questionStopWords then (terms, normalized # ignored)
     else ((case map_of controlledSynonyms normalized of Some synonym \<Rightarrow> synonym | None \<Rightarrow> normalized) # terms, ignored))"

definition relationHints :: "RelationKind list \<Rightarrow> string list" where
  "relationHints relations = relations"

text \<open>FindAllStringSubmatch of a quote, a run of other characters and a quote.\<close>

definition quote :: char where "quote = CHR 0x22"

function quotedPhrases :: "string \<Rightarrow> string list" where
  "quotedPhrases s = (case dropWhile (\<lambda>c. c \<noteq> quote) s of
     [] \<Rightarrow> []
   | _ # rest \<Rightarrow>
       let phrase = takeWhile (\<lambda>c. c \<noteq> quote) rest; after = dropWhile (\<lambda>c. c \<noteq> quote) rest in
       if after = [] then [] else if phrase = [] then quotedPhrases rest else phrase # quotedPhrases (tl after))"
  by auto
termination
proof (relation "measure length", goal_cases)
  case (2 s q rest phrase after)
  then show ?case using length_dropWhile_le[of "\<lambda>c. c \<noteq> quote" s] by simp
next
  case (3 s q rest phrase after)
  then show ?case using length_dropWhile_le[of "\<lambda>c. c \<noteq> quote" s] length_dropWhile_le[of "\<lambda>c. c \<noteq> quote" rest] by simp
qed simp

declare quotedPhrases.simps [simp del]

subsection \<open>Entity slots\<close>

definition cleanEntityText :: "string \<Rightarrow> string" where
  "cleanEntityText s = TrimFunc (\<lambda>r. r = 34 \<or> r = 39) (TrimSpace s)"

definition typeKinds :: "NodeKind list" where
  "typeKinds = [''typescript:class'', ''typescript:interface'', ''typescript:type_alias'', ''go:type'']"

definition slotTokenGroups :: "UnicodeTables \<Rightarrow> string \<Rightarrow> string list list" where
  "slotTokenGroups u s =
    (let tokens = questionTokens u s;
         normalizedText = ToLower u (TrimSpace s);
         groups1 = [lowercaseTokens u tokens];
         groups2 = (if ToLower u (concat tokens) \<in> {''postgres'', ''postgresql''} then groups1 @ [[''pg'']] else groups1);
         groups3 = (if normalizedText = ''sqlite'' \<and> hd groups2 \<noteq> [''sqlite''] then groups2 @ [[''sqlite'']] else groups2);
         groups4 = (if stringContains normalizedText ''postgresql adapter'' \<or> stringContains normalizedText ''postgres adapter''
           then [[''postgres''], [''pg''], [''adapter'']] else groups3)
     in if normalizedText = ''store'' then [[''store''], [''storage'', ''driver''], [''storage''], [''driver'']] else groups4)"

definition slotKinds :: "UnicodeTables \<Rightarrow> string \<Rightarrow> string \<Rightarrow> string \<Rightarrow> NodeKind list" where
  "slotKinds u role entityRole s =
    (let normalizedText = ToLower u (TrimSpace s);
         kinds1 = (if stringContains normalizedText ''postgresql adapter'' \<or> stringContains normalizedText ''postgres adapter''
           then typeKinds else []);
         kinds2 = (if normalizedText = ''store'' then typeKinds else kinds1);
         kinds3 = (if (role = ''left'' \<or> role = ''right'') \<and> kinds2 = [] then typeKinds else kinds2);
         kinds4 = (if entityRole = ''folder'' \<or> entityRole = ''file'' then [''file''] else kinds3);
         kinds5 = (if entityRole = ''package'' then [''go:package''] else kinds4)
     in if entityRole = ''class'' \<or> entityRole = ''service'' then [''typescript:class'', ''javascript:class'', ''go:type''] else kinds5)"

definition entitySlotWithEntityRole :: "UnicodeTables \<Rightarrow> string \<Rightarrow> string \<Rightarrow> string \<Rightarrow> EntitySlot" where
  "entitySlotWithEntityRole u role entityRole s =
    \<lparr>slot_Role = role, slot_EntityRole = entityRole, slot_Text = s,
     slot_Retrieval = \<lparr>lex_Text = s, lex_Phrases = [], lex_TokenGroups = slotTokenGroups u s,
       lex_Kinds = slotKinds u role entityRole s, lex_ProjectIDs = [], lex_SourcePath = '''', lex_Limit = 10\<rparr>\<rparr>"

definition entitySlot :: "UnicodeTables \<Rightarrow> string \<Rightarrow> string \<Rightarrow> EntitySlot" where
  "entitySlot u role s = entitySlotWithEntityRole u role '''' s"

definition entitySlotWithSourcePath :: "UnicodeTables \<Rightarrow> string \<Rightarrow> string \<Rightarrow> string \<Rightarrow> EntitySlot" where
  "entitySlotWithSourcePath u role s sourcePath =
    (let slot = entitySlot u role s in slot\<lparr>slot_Retrieval := (slot_Retrieval slot)\<lparr>lex_SourcePath := sourcePath\<rparr>\<rparr>)"

subsection \<open>Planner responses\<close>

record plannerResponse =
  resp_SchemaVersion :: int
  resp_Intent :: Intent
  resp_Entities :: "string list"

record localPlannerResponse = plannerResponse +
  resp_Confidence :: string

record copilotPlannerIntent =
  pi_operator :: ExecutionOperator
  pi_direction :: TraversalDirection
  pi_roles :: "string list"
  pi_relations :: "RelationKind list"
  pi_maxDepth :: int

definition callKinds :: "RelationKind list" where "callKinds = [''calls'']"
definition dependencyKinds :: "RelationKind list" where "dependencyKinds = [''imports_from'', ''requires'', ''depends_on'']"
definition contractKinds :: "RelationKind list" where "contractKinds = [''implements'', ''contains'']"
definition impactKinds :: "RelationKind list" where
  "impactKinds = [''references'', ''implements'', ''contains'', ''calls'', ''imports_from'', ''requires'', ''depends_on'']"

fun copilotPlannerIntents :: "Intent \<Rightarrow> copilotPlannerIntent option" where
  "copilotPlannerIntents IntentLookup = Some \<lparr>pi_operator = OperatorLookup, pi_direction = TraverseBoth, pi_roles = [''entity''], pi_relations = [], pi_maxDepth = 2\<rparr>"
| "copilotPlannerIntents IntentExplain = Some \<lparr>pi_operator = OperatorExplain, pi_direction = TraverseBoth, pi_roles = [''entity''], pi_relations = [], pi_maxDepth = 2\<rparr>"
| "copilotPlannerIntents IntentCalls = Some \<lparr>pi_operator = OperatorNeighbors, pi_direction = TraverseOutgoing, pi_roles = [''caller''], pi_relations = callKinds, pi_maxDepth = 2\<rparr>"
| "copilotPlannerIntents IntentCalledBy = Some \<lparr>pi_operator = OperatorNeighbors, pi_direction = TraverseIncoming, pi_roles = [''callee''], pi_relations = callKinds, pi_maxDepth = 2\<rparr>"
| "copilotPlannerIntents IntentDependencies = Some \<lparr>pi_operator = OperatorNeighbors, pi_direction = TraverseOutgoing, pi_roles = [''dependent''], pi_relations = dependencyKinds, pi_maxDepth = 2\<rparr>"
| "copilotPlannerIntents IntentDependents = Some \<lparr>pi_operator = OperatorNeighbors, pi_direction = TraverseIncoming, pi_roles = [''dependency''], pi_relations = dependencyKinds, pi_maxDepth = 2\<rparr>"
| "copilotPlannerIntents IntentPath = Some \<lparr>pi_operator = OperatorPath, pi_direction = TraverseOutgoing, pi_roles = [''source'', ''target''], pi_relations = callKinds, pi_maxDepth = 8\<rparr>"
| "copilotPlannerIntents IntentReachability = Some \<lparr>pi_operator = OperatorPath, pi_direction = TraverseOutgoing, pi_roles = [''source'', ''target''], pi_relations = callKinds, pi_maxDepth = 8\<rparr>"
| "copilotPlannerIntents IntentSharedContract = Some \<lparr>pi_operator = OperatorIntersection, pi_direction = TraverseBoth, pi_roles = [''left'', ''right''], pi_relations = contractKinds, pi_maxDepth = 2\<rparr>"
| "copilotPlannerIntents IntentImpact = Some \<lparr>pi_operator = OperatorImpact, pi_direction = TraverseIncoming, pi_roles = [''changed''], pi_relations = impactKinds, pi_maxDepth = 2\<rparr>"
| "copilotPlannerIntents _ = None"

datatype PlannerError = ResponseUndecodable | ConfidenceNotHigh | UnsupportedSchemaVersion int | UnsupportedIntent Intent
  | EntityCount Intent nat | EntityTextRequired

definition copilotQueryPlan :: "UnicodeTables \<Rightarrow> Intent \<Rightarrow> copilotPlannerIntent \<Rightarrow> string list \<Rightarrow> QueryPlan" where
  "copilotQueryPlan u intent specification entities =
    (let question = join '' and '' entities in
     \<lparr>plan_SchemaVersion = QueryPlanSchemaVersion, plan_Question = question, plan_Tokens = questionTokens u question,
      plan_NormalizedTerms = lowercaseTokens u (questionTokens u question), plan_QuotedPhrases = [], plan_IgnoredStopWords = [],
      plan_RelationHints = relationHints (pi_relations specification), plan_DirectionHints = [pi_direction specification],
      plan_Intent = intent, plan_Confidence = 1,
      plan_EntitySlots = map (\<lambda>(role, entity). entitySlot u role (cleanEntityText entity)) (zip (pi_roles specification) entities),
      plan_AllowedRelations = pi_relations specification, plan_Direction = pi_direction specification,
      plan_Operator = pi_operator specification, plan_MaxDepth = pi_maxDepth specification, plan_MaxNodes = 100, plan_Warnings = []\<rparr>)"

definition validatePlannerResponse :: "UnicodeTables \<Rightarrow> 'a plannerResponse_scheme \<Rightarrow> PlannerError + QueryPlan" where
  "validatePlannerResponse u response =
    (if resp_SchemaVersion response \<noteq> QueryPlanSchemaVersion then Inl (UnsupportedSchemaVersion (resp_SchemaVersion response))
     else case copilotPlannerIntents (resp_Intent response) of
       None \<Rightarrow> Inl (UnsupportedIntent (resp_Intent response))
     | Some intent \<Rightarrow>
         if length (resp_Entities response) \<noteq> length (pi_roles intent) then Inl (EntityCount (resp_Intent response) (length (pi_roles intent)))
         else if list_ex (\<lambda>entity. cleanEntityText entity = '''') (resp_Entities response) then Inl EntityTextRequired
         else Inr (copilotQueryPlan u (resp_Intent response) intent (resp_Entities response)))"

text \<open>The decoded response, None where decodePlannerResponse fails.\<close>

definition ParseCopilotPlannerResponse :: "UnicodeTables \<Rightarrow> plannerResponse option \<Rightarrow> PlannerError + QueryPlan" where
  "ParseCopilotPlannerResponse u response =
    (case response of None \<Rightarrow> Inl ResponseUndecodable | Some r \<Rightarrow> validatePlannerResponse u r)"

definition ParseClaudePlannerResponse :: "UnicodeTables \<Rightarrow> plannerResponse option \<Rightarrow> PlannerError + QueryPlan" where
  "ParseClaudePlannerResponse u response =
    (case response of None \<Rightarrow> Inl ResponseUndecodable | Some r \<Rightarrow> validatePlannerResponse u r)"

definition ParseLocalPlannerResponse :: "UnicodeTables \<Rightarrow> localPlannerResponse option \<Rightarrow> PlannerError + QueryPlan" where
  "ParseLocalPlannerResponse u response =
    (case response of None \<Rightarrow> Inl ResponseUndecodable
     | Some r \<Rightarrow> if resp_Confidence r \<noteq> ''high'' then Inl ConfidenceNotHigh else validatePlannerResponse u r)"

subsection \<open>The grammar\<close>

definition folderLookupPattern :: Regexp where
  "folderLookupPattern = pseq [lits ''where is '', Opt (lits ''the ''), anyText, lits '' folder'']"

definition packageExplainPattern :: Regexp where
  "packageExplainPattern = pseq [lits ''describe the '', anyText, lits '' package'']"

definition sourcePathRune :: Regexp where
  "sourcePathRune = OneOf (map byte ''abcdefghijklmnopqrstuvwxyz0123456789_.-'')"

definition sourceQualifiedExplainPattern :: Regexp where
  "sourceQualifiedExplainPattern = pseq [lits ''explain '', Opt (lits ''the ''), anyText, lits '' in '',
     Capture (pseq [Plus (Seq (Plus sourcePathRune) (lits ''/'')), Plus sourcePathRune, lits ''.'', Plus sourcePathRune])]"

definition fileLookupPattern :: Regexp where
  "fileLookupPattern = pseq [lits ''where is '', Opt (lits ''the ''), anyText, lits '' file'']"

definition classExplainPattern :: Regexp where
  "classExplainPattern = pseq [lits ''explain '', Opt (lits ''the ''), anyText, lits '' class'']"

definition serviceExplainPattern :: Regexp where
  "serviceExplainPattern = pseq [lits ''explain '', Opt (lits ''the ''), anyText, lits '' service'']"

definition capabilityQuestionPattern :: Regexp where
  "capabilityQuestionPattern = pseq [Alt (lits ''does'') (lits ''can''), lits '' '', Opt (Alt (lits ''this '') (lits ''the '')), lits ''workspace'', WordBoundary, Plus AnyRune]"

definition architecturalMoveComparisonPatterns :: "Regexp list" where
  "architecturalMoveComparisonPatterns = [
     pseq [lits ''should '', anyText, lits '' move out of '', anyText, lits '' into '', Opt (lits ''a ''), anyText, Opt (lits '' package''), lits '', or should '', anyText, lits '' move into '', Opt (lits ''a ''), anyText, Opt (lits '' package''), optional ''?'', lits '' compare dependenc'', Alt (lits ''y'') (lits ''ies''), Opt (Alt (lits '' direction'') (lits '' directions'')), lits '' and consumer'', optional ''s''],
     pseq [lits ''should '', anyText, lits '' move out of '', anyText, lits '' into '', Opt (lits ''a ''), anyText, Opt (lits '' package''), lits '', or should '', anyText, lits '' move into '', Opt (lits ''a ''), anyText, Opt (lits '' package''), optional ''?'', lits '' compare consumer'', optional ''s'', lits '' and dependenc'', Alt (lits ''y'') (lits ''ies''), Opt (Alt (lits '' direction'') (lits '' directions''))]]"

record questionRule =
  qr_pattern :: Regexp
  qr_intent :: Intent
  qr_operator :: ExecutionOperator
  qr_direction :: TraversalDirection
  qr_roles :: "string list"
  qr_captureIndexes :: "nat list"
  qr_relations :: "RelationKind list"
  qr_maximumDepth :: int

text \<open>Capture indexes count from 1, as in the submatches of Go.\<close>

definition rule :: "Regexp \<Rightarrow> Intent \<Rightarrow> ExecutionOperator \<Rightarrow> TraversalDirection \<Rightarrow> string list \<Rightarrow> nat list option \<Rightarrow> RelationKind list \<Rightarrow> questionRule" where
  "rule pattern intent operator direction roles captureIndexes relations =
    \<lparr>qr_pattern = pattern, qr_intent = intent, qr_operator = operator, qr_direction = direction, qr_roles = roles,
     qr_captureIndexes = (case captureIndexes of None \<Rightarrow> map (\<lambda>index. index + 1) [0..<length roles] | Some indexes \<Rightarrow> indexes),
     qr_relations = relations, qr_maximumDepth = (if operator = OperatorPath then 8 else 2)\<rparr>"

definition questionRules :: "questionRule list" where
  "questionRules = [
     rule (pseq [lits ''what is the '', Alt (lits ''shared'') (lits ''common''), lits '' contract'', optional ''s'', lits '' between '', anyText, lits '' and '', anyText])
       IntentSharedContract OperatorIntersection TraverseBoth [''left'', ''right''] (None) contractKinds,
     rule (pseq [lits ''what do '', anyText, lits '' and '', anyText, lits '' have in common''])
       IntentSharedContract OperatorIntersection TraverseBoth [''left'', ''right''] (None) contractKinds,
     rule (pseq [lits ''which interfaces are common to '', anyText, lits '' and '', Opt (lits ''a ''), anyText])
       IntentSharedContract OperatorIntersection TraverseBoth [''left'', ''right''] (None) contractKinds,
     rule (pseq [lits ''show the common storage contracts for '', anyText, lits '' and '', anyText])
       IntentSharedContract OperatorIntersection TraverseBoth [''left'', ''right''] (None) contractKinds,
     rule (pseq [lits ''what is affected if '', anyText, lits '' changes''])
       IntentImpact OperatorImpact TraverseIncoming [''changed''] (None) impactKinds,
     rule (pseq [lits ''what will break if '', anyText, lits '' changes''])
       IntentImpact OperatorImpact TraverseIncoming [''changed''] (None) impactKinds,
     rule (pseq [lits ''impact of changing '', anyText])
       IntentImpact OperatorImpact TraverseIncoming [''changed''] (None) impactKinds,
     rule (pseq [lits ''find a path from '', anyText, lits '' to '', anyText])
       IntentPath OperatorPath TraverseOutgoing [''source'', ''target''] (None) callKinds,
     rule (pseq [lits ''how do i get from '', anyText, lits '' to '', anyText])
       IntentPath OperatorPath TraverseOutgoing [''source'', ''target''] (None) callKinds,
     rule (pseq [lits ''how does '', anyText, lits '' reach '', anyText])
       IntentPath OperatorPath TraverseOutgoing [''source'', ''target''] (None) callKinds,
     rule (pseq [lits ''trace '', anyText, lits '' from '', anyText])
       IntentPath OperatorPath TraverseOutgoing [''source'', ''target''] (Some [2, 1]) callKinds,
     rule (pseq [lits ''can '', anyText, lits '' reach '', anyText])
       IntentReachability OperatorPath TraverseOutgoing [''source'', ''target''] (None) callKinds,
     rule (pseq [lits ''does '', anyText, lits '' flow to '', anyText])
       IntentReachability OperatorPath TraverseOutgoing [''source'', ''target''] (None) callKinds,
     rule (pseq [lits ''is '', anyText, lits '' connected to '', anyText, lits '' through calls''])
       IntentReachability OperatorPath TraverseOutgoing [''source'', ''target''] (None) callKinds,
     rule (pseq [lits ''who calls '', anyText])
       IntentCalledBy OperatorNeighbors TraverseIncoming [''callee''] (None) callKinds,
     rule (pseq [lits ''which functions call '', anyText])
       IntentCalledBy OperatorNeighbors TraverseIncoming [''callee''] (None) callKinds,
     rule (pseq [lits ''show callers of '', anyText])
       IntentCalledBy OperatorNeighbors TraverseIncoming [''callee''] (None) callKinds,
     rule (pseq [lits ''where is '', anyText, lits '' called by other code''])
       IntentCalledBy OperatorNeighbors TraverseIncoming [''callee''] (None) callKinds,
     rule (pseq [lits ''what calls '', Opt (lits ''the ''), anyText])
       IntentCalledBy OperatorNeighbors TraverseIncoming [''callee''] (None) callKinds,
     rule (pseq [lits ''what does '', anyText, lits '' call''])
       IntentCalls OperatorNeighbors TraverseOutgoing [''caller''] (None) callKinds,
     rule (pseq [lits ''which functions does '', anyText, lits '' invoke''])
       IntentCalls OperatorNeighbors TraverseOutgoing [''caller''] (None) callKinds,
     rule (pseq [lits ''show calls from '', anyText])
       IntentCalls OperatorNeighbors TraverseOutgoing [''caller''] (None) callKinds,
     rule (pseq [lits ''what does the '', anyText, lits '' package import''])
       IntentDependencies OperatorNeighbors TraverseOutgoing [''dependent''] (None) dependencyKinds,
     rule (pseq [lits ''which packages does '', anyText, lits '' depend on''])
       IntentDependencies OperatorNeighbors TraverseOutgoing [''dependent''] (None) dependencyKinds,
     rule (pseq [lits ''what modules are required by '', anyText])
       IntentDependencies OperatorNeighbors TraverseOutgoing [''dependent''] (None) dependencyKinds,
     rule (pseq [lits ''what depends on the '', anyText, lits '' package''])
       IntentDependents OperatorNeighbors TraverseIncoming [''dependency''] (None) dependencyKinds,
     rule (pseq [lits ''which modules depend on '', anyText])
       IntentDependents OperatorNeighbors TraverseIncoming [''dependency''] (None) dependencyKinds,
     rule (pseq [lits ''find users of '', anyText])
       IntentDependents OperatorNeighbors TraverseIncoming [''dependency''] (None) [''references'', ''imports_from''],
     rule (pseq [lits ''which packages use '', anyText])
       IntentDependents OperatorNeighbors TraverseIncoming [''dependency''] (None) dependencyKinds,
     rule (pseq [lits ''explain '', anyText])
       IntentExplain OperatorExplain TraverseBoth [''entity''] (None) [],
     rule (pseq [lits ''what does '', anyText, lits '' do''])
       IntentExplain OperatorExplain TraverseBoth [''entity''] (None) [],
     rule (pseq [lits ''describe the '', anyText, lits '' package''])
       IntentExplain OperatorExplain TraverseBoth [''entity''] (None) [],
     rule (pseq [lits ''where is '', anyText])
       IntentLookup OperatorLookup TraverseBoth [''entity''] (None) [],
     rule (pseq [lits ''find '', anyText])
       IntentLookup OperatorLookup TraverseBoth [''entity''] (None) [],
     rule (pseq [lits ''show me '', anyText])
       IntentLookup OperatorLookup TraverseBoth [''entity''] (None) []]"

subsection \<open>AnalyzeQuestion\<close>

definition matchArchitecturalMoveComparison :: "(rune \<Rightarrow> rune) \<Rightarrow> string \<Rightarrow> string list option" where
  "matchArchitecturalMoveComparison foldRune question =
    (case concat (map (\<lambda>pattern. case findSubmatch foldRune pattern question of None \<Rightarrow> [] | Some matches \<Rightarrow> [matches])
        architecturalMoveComparisonPatterns) of
       [] \<Rightarrow> None | matches # _ \<Rightarrow> Some matches)"

definition withEntity :: "QueryPlan \<Rightarrow> Intent \<Rightarrow> ExecutionOperator \<Rightarrow> EntitySlot list \<Rightarrow> QueryPlan" where
  "withEntity plan intent operator slots =
     plan\<lparr>plan_Intent := intent, plan_Confidence := 1, plan_Operator := operator, plan_EntitySlots := slots\<rparr>"

definition basePlan :: "UnicodeTables \<Rightarrow> string \<Rightarrow> QueryPlan" where
  "basePlan u question =
    (let tokens = questionTokens u question; (normalized, ignored) = normalizeQuestionTokens u tokens in
     \<lparr>plan_SchemaVersion = QueryPlanSchemaVersion, plan_Question = question, plan_Tokens = tokens,
      plan_NormalizedTerms = normalized, plan_QuotedPhrases = quotedPhrases question, plan_IgnoredStopWords = ignored,
      plan_RelationHints = [], plan_DirectionHints = [], plan_Intent = IntentUnknown, plan_Confidence = 0, plan_EntitySlots = [],
      plan_AllowedRelations = [], plan_Direction = TraverseBoth, plan_Operator = OperatorLookup,
      plan_MaxDepth = 2, plan_MaxNodes = 100, plan_Warnings = []\<rparr>)"

definition comparisonPlan :: "UnicodeTables \<Rightarrow> QueryPlan \<Rightarrow> string list \<Rightarrow> QueryPlan" where
  "comparisonPlan u plan matches =
    (let concepts = map cleanEntityText matches;
         groups = map (\<lambda>concept. lowercaseTokens u (questionTokens u concept)) concepts in
     plan\<lparr>plan_Intent := IntentDependencyComparison, plan_Confidence := 1, plan_Operator := OperatorNeighbors,
       plan_Direction := TraverseBoth, plan_AllowedRelations := dependencyKinds, plan_RelationHints := relationHints dependencyKinds,
       plan_DirectionHints := [TraverseBoth],
       plan_EntitySlots := [\<lparr>slot_Role = ''comparison'', slot_EntityRole = '''', slot_Text = join '', '' concepts,
         slot_Retrieval = \<lparr>lex_Text = join '', '' concepts, lex_Phrases = [], lex_TokenGroups = groups, lex_Kinds = [],
           lex_ProjectIDs = [], lex_SourcePath = '''', lex_Limit = 10\<rparr>\<rparr>]\<rparr>)"

definition rulePlan :: "UnicodeTables \<Rightarrow> QueryPlan \<Rightarrow> questionRule \<Rightarrow> string list \<Rightarrow> QueryPlan" where
  "rulePlan u plan candidate matches =
     plan\<lparr>plan_Intent := qr_intent candidate, plan_Confidence := 1, plan_Operator := qr_operator candidate,
       plan_Direction := qr_direction candidate, plan_AllowedRelations := qr_relations candidate,
       plan_RelationHints := relationHints (qr_relations candidate), plan_DirectionHints := [qr_direction candidate],
       plan_MaxDepth := qr_maximumDepth candidate,
       plan_EntitySlots := map (\<lambda>(role, index). entitySlot u role (cleanEntityText (matches ! (index - 1))))
         (zip (qr_roles candidate) (qr_captureIndexes candidate))\<rparr>"

definition unknownPlan :: "QueryPlan \<Rightarrow> string \<Rightarrow> QueryPlan" where
  "unknownPlan plan question =
     plan\<lparr>plan_Confidence := 1 / 10,
       plan_EntitySlots := [\<lparr>slot_Role = ''entity'', slot_EntityRole = '''', slot_Text = question,
         slot_Retrieval = \<lparr>lex_Text = question, lex_Phrases = [], lex_TokenGroups = [plan_NormalizedTerms plan], lex_Kinds = [],
           lex_ProjectIDs = [], lex_SourcePath = '''', lex_Limit = 10\<rparr>\<rparr>],
       plan_Warnings := [\<lparr>warn_Code = ''unknown_intent'', warn_Message = ''The question grammar is not in the supported intent set.'',
         warn_Suggestions = [''Use --terms with the normalized terms for literal lookup.'']\<rparr>]\<rparr>"

fun firstRulePlan :: "UnicodeTables \<Rightarrow> (rune \<Rightarrow> rune) \<Rightarrow> QueryPlan \<Rightarrow> string \<Rightarrow> questionRule list \<Rightarrow> QueryPlan option" where
  "firstRulePlan u foldRune plan question [] = None"
| "firstRulePlan u foldRune plan question (candidate # candidates) =
    (case findSubmatch foldRune (qr_pattern candidate) question of
       None \<Rightarrow> firstRulePlan u foldRune plan question candidates
     | Some matches \<Rightarrow> Some (rulePlan u plan candidate matches))"

definition normalizeQuestion :: "string \<Rightarrow> string" where
  "normalizeQuestion question =
    concat (rev (trimSeg (\<lambda>r. r \<in> {63, 33, 46, 32}) (rev (segments (TrimSpace question)))))"

definition AnalyzeQuestion :: "UnicodeTables \<Rightarrow> (rune \<Rightarrow> rune) \<Rightarrow> string \<Rightarrow> QueryPlan" where
  "AnalyzeQuestion u foldRune question =
    (let plan = basePlan u question;
         normalizedQuestion = normalizeQuestion question;
         submatch = (\<lambda>pattern. findSubmatch foldRune pattern normalizedQuestion);
         entity = (\<lambda>entityRole matches. entitySlotWithEntityRole u ''entity'' entityRole (cleanEntityText (matches ! 0))) in
     case submatch folderLookupPattern of
       Some matches \<Rightarrow> withEntity plan IntentLookup OperatorLookup [entity ''folder'' matches]
     | None \<Rightarrow> (case submatch packageExplainPattern of
       Some matches \<Rightarrow> withEntity plan IntentExplain OperatorExplain [entity ''package'' matches]
     | None \<Rightarrow> (case submatch sourceQualifiedExplainPattern of
       Some matches \<Rightarrow> withEntity plan IntentExplain OperatorExplain
         [entitySlotWithSourcePath u ''entity'' (cleanEntityText (matches ! 0)) (cleanEntityText (matches ! 1))]
     | None \<Rightarrow> (case submatch fileLookupPattern of
       Some matches \<Rightarrow> withEntity plan IntentLookup OperatorLookup [entity ''file'' matches]
     | None \<Rightarrow> (case submatch classExplainPattern of
       Some matches \<Rightarrow> withEntity plan IntentExplain OperatorExplain [entity ''class'' matches]
     | None \<Rightarrow> (case submatch serviceExplainPattern of
       Some matches \<Rightarrow> withEntity plan IntentExplain OperatorExplain [entity ''service'' matches]
     | None \<Rightarrow> (case submatch capabilityQuestionPattern of
       Some matches \<Rightarrow> withEntity plan IntentCapability OperatorLookup []
     | None \<Rightarrow> (case matchArchitecturalMoveComparison foldRune normalizedQuestion of
       Some matches \<Rightarrow> comparisonPlan u plan matches
     | None \<Rightarrow> (case firstRulePlan u foldRune plan normalizedQuestion questionRules of
       Some found \<Rightarrow> found
     | None \<Rightarrow> unknownPlan plan question)))))))))"


subsection \<open>Submatches\<close>

text \<open>The number of captures of a pattern whose repeated, optional and alternative parts have none.\<close>

fun captureCount :: "Regexp \<Rightarrow> nat" where
  "captureCount (Seq r s) = captureCount r + captureCount s"
| "captureCount (Capture r) = 1"
| "captureCount _ = 0"

fun captureFree :: "Regexp \<Rightarrow> bool" where
  "captureFree (Seq r s) = (captureFree r \<and> captureFree s)"
| "captureFree (Alt r s) = (captureFree r \<and> captureFree s)"
| "captureFree (Opt r) = captureFree r"
| "captureFree (LazyPlus r) = captureFree r"
| "captureFree (Plus r) = captureFree r"
| "captureFree (Capture r) = False"
| "captureFree _ = True"

fun fixedCaptures :: "Regexp \<Rightarrow> bool" where
  "fixedCaptures (Seq r s) = (fixedCaptures r \<and> fixedCaptures s)"
| "fixedCaptures (Capture r) = captureFree r"
| "fixedCaptures r = captureFree r"

definition capturesOf :: "Position \<Rightarrow> string list" where "capturesOf here = snd (snd here)"

lemma consume_captures: "there \<in> set (consume P here) \<Longrightarrow> capturesOf there = capturesOf here"
  by (cases here; cases "fst (snd here)") (auto simp: consume_def capturesOf_def split: if_splits)

lemma plusMatches_captures:
  assumes "\<And>here there. there \<in> set (m here) \<Longrightarrow> capturesOf there = capturesOf here"
  shows "there \<in> set (plusMatches lazy n m here) \<Longrightarrow> capturesOf there = capturesOf here"
proof (induction n arbitrary: here there)
  case 0
  then show ?case using assms by simp
next
  case (Suc n)
  then obtain mid where "mid \<in> set (m here)" "there = mid \<or> there \<in> set (plusMatches lazy n m mid)"
    by (auto simp: Let_def split: if_splits)
  then show ?case using assms Suc.IH by metis
qed

lemma regexpMatches_Seq:
  assumes "there \<in> set (regexpMatches foldRune (Seq r s) here)"
  obtains mid where "mid \<in> set (regexpMatches foldRune r here)" "there \<in> set (regexpMatches foldRune s mid)"
  using assms unfolding regexpMatches.simps set_concat set_map by blast

lemma captureFree_captures:
  "captureFree r \<Longrightarrow> there \<in> set (regexpMatches foldRune r here) \<Longrightarrow> capturesOf there = capturesOf here"
proof (induction r arbitrary: here there)
  case (Seq r s)
  obtain mid where "mid \<in> set (regexpMatches foldRune r here)" "there \<in> set (regexpMatches foldRune s mid)"
    using regexpMatches_Seq[OF Seq.prems(2)] .
  then show ?case using Seq.IH Seq.prems(1) by simp
next
  case (LazyPlus r)
  show ?case
  proof (rule plusMatches_captures)
    show "there \<in> set (plusMatches True (length (restOf here)) (regexpMatches foldRune r) here)" using LazyPlus.prems(2) by simp
    show "\<And>a b. b \<in> set (regexpMatches foldRune r a) \<Longrightarrow> capturesOf b = capturesOf a" using LazyPlus.IH LazyPlus.prems(1) by simp
  qed
next
  case (Plus r)
  show ?case
  proof (rule plusMatches_captures)
    show "there \<in> set (plusMatches False (length (restOf here)) (regexpMatches foldRune r) here)" using Plus.prems(2) by simp
    show "\<And>a b. b \<in> set (regexpMatches foldRune r a) \<Longrightarrow> capturesOf b = capturesOf a" using Plus.IH Plus.prems(1) by simp
  qed
next
  case (Alt r s)
  have "there \<in> set (regexpMatches foldRune r here) \<or> there \<in> set (regexpMatches foldRune s here)" using Alt.prems(2) by auto
  then show ?case using Alt.IH Alt.prems(1) by (elim disjE) simp_all
next
  case (Opt r)
  have "there \<in> set (regexpMatches foldRune r here) \<or> there = here" using Opt.prems(2) by auto
  then show ?case using Opt.IH[of there here] Opt.prems(1) by (elim disjE) simp_all
next
  case (Lit c)
  then show ?case by (simp add: consume_captures)
next
  case AnyRune
  then show ?case by (simp add: consume_captures)
next
  case (OneOf cs)
  then show ?case by (simp add: consume_captures)
next
  case WordBoundary
  then show ?case by (simp split: if_splits)
qed simp_all

lemma captureFree_count: "captureFree r \<Longrightarrow> captureCount r = 0"
  by (induction r) auto

lemma fixedCaptures_count:
  "fixedCaptures r \<Longrightarrow> there \<in> set (regexpMatches foldRune r here) \<Longrightarrow>
    length (capturesOf there) = length (capturesOf here) + captureCount r"
proof (induction r arbitrary: here there)
  case (Seq r s)
  obtain mid where "mid \<in> set (regexpMatches foldRune r here)" "there \<in> set (regexpMatches foldRune s mid)"
    using regexpMatches_Seq[OF Seq.prems(2)] .
  then show ?case using Seq.IH Seq.prems(1) by simp
next
  case (Capture r)
  then obtain mid where mid: "mid \<in> set (regexpMatches foldRune r here)" "there = capture here mid" by auto
  then have "capturesOf mid = capturesOf here" using captureFree_captures Capture.prems(1) by simp
  then show ?case using mid(2) by (cases mid) (simp add: capture_def capturesOf_def)
next
  case (Lit c)
  then show ?case by (auto dest: consume_captures)
next
  case AnyRune
  then show ?case by (auto dest: consume_captures)
next
  case (OneOf cs)
  then show ?case by (auto dest: consume_captures)
next
  case (Alt r s)
  then have "captureFree (Alt r s)" by simp
  from captureFree_captures[OF this Alt.prems(2)] show ?case by simp
next
  case (Opt r)
  then have "captureFree (Opt r)" by simp
  from captureFree_captures[OF this Opt.prems(2)] show ?case by simp
next
  case (LazyPlus r)
  then have "captureFree (LazyPlus r)" by simp
  from captureFree_captures[OF this LazyPlus.prems(2)] show ?case by simp
next
  case (Plus r)
  then have "captureFree (Plus r)" by simp
  from captureFree_captures[OF this Plus.prems(2)] show ?case by simp
qed (auto split: if_splits)

lemma findSubmatch_length:
  assumes "findSubmatch foldRune r s = Some matches" "fixedCaptures r"
  shows "length matches = captureCount r"
proof -
  obtain there where "there \<in> set (regexpMatches foldRune r (None, segments s, []))" "matches = capturesOf there"
    using assms(1) unfolding findSubmatch_def capturesOf_def map_option_eq_Some find_Some_iff by (metis nth_mem)
  from fixedCaptures_count[OF assms(2) this(1)] this(2) show ?thesis by (simp add: capturesOf_def)
qed

subsection \<open>Executable plans\<close>

text \<open>What the executor of a plan relies on: the number of slots the operator needs, a direction it
  knows, positive limits.\<close>

fun slotCount :: "ExecutionOperator \<Rightarrow> nat \<Rightarrow> bool" where
  "slotCount OperatorPath n = (n = 2)"
| "slotCount OperatorIntersection n = (n = 2)"
| "slotCount OperatorLookup n = (n \<le> 1)"
| "slotCount _ n = (n = 1)"

fun operatorDirection :: "ExecutionOperator \<Rightarrow> TraversalDirection \<Rightarrow> bool" where
  "operatorDirection OperatorPath d = (d = TraverseOutgoing)"
| "operatorDirection OperatorImpact d = (d = TraverseIncoming)"
| "operatorDirection OperatorNeighbors d = (d = TraverseOutgoing \<or> d = TraverseIncoming \<or> d = TraverseBoth)"
| "operatorDirection _ d = (d = TraverseBoth)"

definition executablePlan :: "QueryPlan \<Rightarrow> bool" where
  "executablePlan plan \<longleftrightarrow> slotCount (plan_Operator plan) (length (plan_EntitySlots plan))
     \<and> operatorDirection (plan_Operator plan) (plan_Direction plan) \<and> 0 < plan_MaxDepth plan \<and> 0 < plan_MaxNodes plan
     \<and> (\<forall>slot\<in>set (plan_EntitySlots plan). lex_Text (slot_Retrieval slot) = slot_Text slot \<and> 0 < lex_Limit (slot_Retrieval slot))"

definition executableRule :: "questionRule \<Rightarrow> bool" where
  "executableRule r \<longleftrightarrow> fixedCaptures (qr_pattern r) \<and> list_all (\<lambda>i. 1 \<le> i \<and> i \<le> captureCount (qr_pattern r)) (qr_captureIndexes r)
     \<and> length (qr_captureIndexes r) = length (qr_roles r) \<and> slotCount (qr_operator r) (length (qr_roles r))
     \<and> operatorDirection (qr_operator r) (qr_direction r) \<and> 0 < qr_maximumDepth r"


lemma questionRules_executable: "list_all executableRule questionRules"
  by code_simp

lemma entity_slot [simp]:
  "lex_Text (slot_Retrieval (entitySlotWithEntityRole u role entityRole s)) = slot_Text (entitySlotWithEntityRole u role entityRole s)"
  "lex_Limit (slot_Retrieval (entitySlotWithEntityRole u role entityRole s)) = 10"
  "slot_Text (entitySlotWithEntityRole u role entityRole s) = s"
  "slot_Role (entitySlotWithEntityRole u role entityRole s) = role"
  by (simp_all add: entitySlotWithEntityRole_def)

lemma source_slot [simp]:
  "lex_Text (slot_Retrieval (entitySlotWithSourcePath u role s path)) = slot_Text (entitySlotWithSourcePath u role s path)"
  "lex_Limit (slot_Retrieval (entitySlotWithSourcePath u role s path)) = 10"
  by (simp_all add: entitySlotWithSourcePath_def entitySlot_def Let_def)

lemma basePlan_limits [simp]:
  "plan_MaxDepth (basePlan u q) = 2" "plan_MaxNodes (basePlan u q) = 100" "plan_Direction (basePlan u q) = TraverseBoth"
  "plan_Operator (basePlan u q) = OperatorLookup"
  by (simp_all add: basePlan_def Let_def split: prod.split)

lemma withEntity_executable:
  assumes "slotCount operator (length slots)" "operatorDirection operator TraverseBoth"
    "\<forall>slot\<in>set slots. lex_Text (slot_Retrieval slot) = slot_Text slot \<and> 0 < lex_Limit (slot_Retrieval slot)"
  shows "executablePlan (withEntity (basePlan u q) intent operator slots)"
  using assms by (simp add: executablePlan_def withEntity_def)

lemma rulePlan_executable:
  assumes "executableRule candidate"
  shows "executablePlan (rulePlan u (basePlan u q) candidate matches)"
  using assms by (auto simp: executablePlan_def rulePlan_def executableRule_def entitySlot_def)

lemma comparisonPlan_executable: "executablePlan (comparisonPlan u (basePlan u q) matches)"
  by (simp add: executablePlan_def comparisonPlan_def Let_def)

lemma unknownPlan_executable: "executablePlan (unknownPlan (basePlan u q) question)"
  by (simp add: executablePlan_def unknownPlan_def)

lemma firstRulePlan_executable:
  "firstRulePlan u foldRune (basePlan u q) question rules = Some plan \<Longrightarrow> list_all executableRule rules \<Longrightarrow> executablePlan plan"
  by (induction rules) (auto split: option.splits intro: rulePlan_executable)

lemma copilotIntents_executable:
  "copilotPlannerIntents i = Some intent \<Longrightarrow> slotCount (pi_operator intent) (length (pi_roles intent))
    \<and> operatorDirection (pi_operator intent) (pi_direction intent) \<and> 0 < pi_maxDepth intent"
  by (cases i) auto

lemma copilotQueryPlan_executable:
  assumes "copilotPlannerIntents i = Some intent" "length entities = length (pi_roles intent)"
  shows "executablePlan (copilotQueryPlan u i intent entities)"
  using copilotIntents_executable[OF assms(1)] assms(2)
  by (auto simp: executablePlan_def copilotQueryPlan_def Let_def entitySlot_def dest!: set_zip_rightD)

lemma AnalyzeQuestion_executable: "executablePlan (AnalyzeQuestion u foldRune question)"
proof -
  have entity: "executablePlan (withEntity (basePlan u question) intent operator [entitySlotWithEntityRole u ''entity'' role s])"
    if "operator = OperatorLookup \<or> operator = OperatorExplain" for intent operator role s
    using that by (intro withEntity_executable) auto
  show ?thesis
    unfolding AnalyzeQuestion_def Let_def
    by (auto split: option.split intro!: entity withEntity_executable comparisonPlan_executable unknownPlan_executable
        intro: firstRulePlan_executable[OF _ questionRules_executable])
qed


subsection \<open>Leading literals\<close>

text \<open>The alternatives for the runes a pattern starts with.\<close>

fun literalOnly :: "Regexp \<Rightarrow> bool" where
  "literalOnly (Lit r) = True"
| "literalOnly Eps = True"
| "literalOnly (Seq r s) = (literalOnly r \<and> literalOnly s)"
| "literalOnly (Alt r s) = (literalOnly r \<and> literalOnly s)"
| "literalOnly _ = False"

fun leading :: "Regexp \<Rightarrow> rune list list" where
  "leading (Lit r) = [[r]]"
| "leading (Seq r s) = (if literalOnly r then concat (map (\<lambda>a. map (\<lambda>b. a @ b) (leading s)) (leading r)) else leading r)"
| "leading (Alt r s) = leading r @ leading s"
| "leading _ = [[]]"

definition agrees :: "(rune \<Rightarrow> rune) \<Rightarrow> rune list \<Rightarrow> string list \<Rightarrow> bool" where
  "agrees foldRune l segs \<longleftrightarrow> length l \<le> length segs \<and> list_all2 (\<lambda>r seg. foldRune (runeOf seg) = foldRune r) l (take (length l) segs)"

lemma agrees_append:
  "agrees foldRune a segs \<Longrightarrow> agrees foldRune b (drop (length a) segs) \<Longrightarrow> agrees foldRune (a @ b) segs"
  by (auto simp: agrees_def take_add list_all2_appendI)

lemma leading_literal:
  "literalOnly r \<Longrightarrow> there \<in> set (regexpMatches foldRune r here) \<Longrightarrow>
    \<exists>l\<in>set (leading r). agrees foldRune l (restOf here) \<and> restOf there = drop (length l) (restOf here)"
proof (induction r arbitrary: here there)
  case (Lit r)
  then show ?case by (cases here; cases "restOf here") (auto simp: consume_def restOf_def agrees_def split: if_splits)
next
  case (Seq r s)
  obtain mid where mid: "mid \<in> set (regexpMatches foldRune r here)" "there \<in> set (regexpMatches foldRune s mid)"
    using regexpMatches_Seq[OF Seq.prems(2)] .
  obtain a where a: "a \<in> set (leading r)" "agrees foldRune a (restOf here)" "restOf mid = drop (length a) (restOf here)"
    using Seq.IH(1)[OF _ mid(1)] Seq.prems(1) by auto
  obtain b where b: "b \<in> set (leading s)" "agrees foldRune b (restOf mid)" "restOf there = drop (length b) (restOf mid)"
    using Seq.IH(2)[OF _ mid(2)] Seq.prems(1) by auto
  have "a @ b \<in> set (leading (Seq r s))" using a(1) b(1) Seq.prems(1) by auto
  moreover have "agrees foldRune (a @ b) (restOf here)" using agrees_append[OF a(2)] b(2) a(3) by simp
  moreover have "restOf there = drop (length (a @ b)) (restOf here)" using a(3) b(3) by (simp add: add.commute)
  ultimately show ?case by blast
next
  case (Alt r s)
  have "there \<in> set (regexpMatches foldRune r here) \<or> there \<in> set (regexpMatches foldRune s here)" using Alt.prems(2) by auto
  then show ?case
  proof
    assume "there \<in> set (regexpMatches foldRune r here)"
    from Alt.IH(1)[OF _ this] Alt.prems(1) show ?thesis by auto
  next
    assume "there \<in> set (regexpMatches foldRune s here)"
    from Alt.IH(2)[OF _ this] Alt.prems(1) show ?thesis by auto
  qed
qed (auto simp: agrees_def)

lemma leading_agrees:
  "there \<in> set (regexpMatches foldRune r here) \<Longrightarrow> \<exists>l\<in>set (leading r). agrees foldRune l (restOf here)"
proof (induction r arbitrary: here there)
  case (Lit r)
  then show ?case using leading_literal[of "Lit r"] by fastforce
next
  case (Seq r s)
  obtain mid where mid: "mid \<in> set (regexpMatches foldRune r here)" "there \<in> set (regexpMatches foldRune s mid)"
    using regexpMatches_Seq[OF Seq.prems] .
  show ?case
  proof (cases "literalOnly r")
    case True
    obtain a where a: "a \<in> set (leading r)" "agrees foldRune a (restOf here)" "restOf mid = drop (length a) (restOf here)"
      using leading_literal[OF True mid(1)] by blast
    obtain b where b: "b \<in> set (leading s)" "agrees foldRune b (restOf mid)" using Seq.IH(2)[OF mid(2)] by blast
    have "a @ b \<in> set (leading (Seq r s))" using a(1) b(1) True by auto
    moreover have "agrees foldRune (a @ b) (restOf here)" using agrees_append[OF a(2)] b(2) a(3) by simp
    ultimately show ?thesis by blast
  next
    case False
    then show ?thesis using Seq.IH(1)[OF mid(1)] by simp
  qed
next
  case (Alt r s)
  have "there \<in> set (regexpMatches foldRune r here) \<or> there \<in> set (regexpMatches foldRune s here)" using Alt.prems by auto
  then show ?case
  proof
    assume "there \<in> set (regexpMatches foldRune r here)"
    from Alt.IH(1)[OF this] show ?thesis by auto
  next
    assume "there \<in> set (regexpMatches foldRune s here)"
    from Alt.IH(2)[OF this] show ?thesis by auto
  qed
qed (auto simp: agrees_def)

definition lowerCase :: "rune \<Rightarrow> bool" where "lowerCase r \<longleftrightarrow> asciiLower r"

definition clashes :: "rune list \<Rightarrow> rune list \<Rightarrow> bool" where
  "clashes l t \<longleftrightarrow> list_ex (\<lambda>(a, b). lowerCase a \<and> lowerCase b \<and> a \<noteq> b) (zip l t)"

definition distinguishesLetters :: "(rune \<Rightarrow> rune) \<Rightarrow> bool" where
  "distinguishesLetters foldRune \<longleftrightarrow> (\<forall>a b. lowerCase a \<and> lowerCase b \<and> a \<noteq> b \<longrightarrow> foldRune a \<noteq> foldRune b)"

lemma clash_no_match:
  assumes "distinguishesLetters foldRune" "list_all (\<lambda>l. clashes l t) (leading r)" "take (length t) (map runeOf segs) = t"
  shows "regexpMatches foldRune r (before, segs, captures) = []"
proof (rule ccontr)
  assume "\<not> ?thesis"
  then obtain there where "there \<in> set (regexpMatches foldRune r (before, segs, captures))" by (meson list.set_sel(1))
  from leading_agrees[OF this] obtain l where l: "l \<in> set (leading r)" "agrees foldRune l segs" by (auto simp: restOf_def)
  then obtain i where i: "i < length l" "i < length t" "lowerCase (l ! i)" "lowerCase (t ! i)" "l ! i \<noteq> t ! i"
    using assms(2) by (auto simp: list_all_iff clashes_def list_ex_iff set_zip)
  have len: "i < length segs" using assms(3) i(2) by (metis length_map length_take min_less_iff_conj)
  have "foldRune (runeOf (segs ! i)) = foldRune (l ! i)"
    using l(2) i(1) len by (auto simp: agrees_def list_all2_conv_all_nth)
  moreover have "runeOf (segs ! i) = t ! i" using assms(3) i(2) len by (metis nth_map nth_take)
  ultimately show False using assms(1) i(3-5) by (auto simp: distinguishesLetters_def)
qed

lemma clash_no_submatch:
  assumes "distinguishesLetters foldRune" "list_all (\<lambda>l. clashes l t) (leading r)" "take (length t) (map runeOf (segments s)) = t"
  shows "findSubmatch foldRune r s = None"
  unfolding findSubmatch_def clash_no_match[OF assms] by simp


subsection \<open>Captured text\<close>

lemma byte_segment [simp]: "byte c < 128 \<Longrightarrow> runeOf [c] = byte c"
  by (simp add: runeOf_def Let_def)

lemma ascii_segments: "list_all (\<lambda>c. byte c < 128) s \<Longrightarrow> segments s = map (\<lambda>c. [c]) s"
proof (induction s)
  case (Cons c s)
  then show ?case by (simp add: segments.simps[of "c # s"] Let_def)
qed simp

lemma lits_match:
  "map runeOf segs = map byte s \<Longrightarrow> \<exists>before'. regexpMatches foldRune (lits s) (before, segs @ rest, captures) = [(before', rest, captures)]"
proof (induction s arbitrary: before segs)
  case Nil
  then show ?case by (simp add: lits_def)
next
  case (Cons c s)
  then obtain seg segs' where segs: "segs = seg # segs'" "runeOf seg = byte c" "map runeOf segs' = map byte s" by auto
  from Cons.IH[OF segs(3), of "Some seg"] show ?case using segs(1,2) by (simp add: lits_def consume_def)
qed

lemma lazy_any:
  "\<forall>seg\<in>set segs. runeOf seg \<noteq> 10 \<Longrightarrow> n \<ge> length segs \<Longrightarrow>
    map restOf (plusMatches True n (consume (\<lambda>c. c \<noteq> 10)) (before, segs, captures)) = map (\<lambda>k. drop (Suc k) segs) [0..<length segs]
    \<and> (\<forall>p\<in>set (plusMatches True n (consume (\<lambda>c. c \<noteq> 10)) (before, segs, captures)). capturesOf p = captures)"
proof (induction segs arbitrary: n before)
  case Nil
  then show ?case by (cases n) (simp_all add: consume_def)
next
  case (Cons seg segs)
  then obtain m where n: "n = Suc m" "m \<ge> length segs" by (cases n) auto
  have idx: "[0..<length (seg # segs)] = 0 # map Suc [0..<length segs]" by (simp add: map_Suc_upt upt_conv_Cons del: upt_Suc)
  from Cons.IH[OF _ n(2), of "Some seg"] Cons.prems(1) show ?case
    unfolding n(1) idx by (simp add: consume_def restOf_def capturesOf_def Let_def comp_def)
qed

lemma anyText_match:
  assumes "segs \<noteq> []" "\<forall>seg\<in>set segs. runeOf seg \<noteq> 10"
  shows "\<exists>p. find (\<lambda>h. restOf h = []) (regexpMatches foldRune (pseq [anyText]) (before, segs, captures)) = Some p
    \<and> capturesOf p = captures @ [concat segs]"
proof -
  let ?here = "(before, segs, captures)"
  let ?ps = "plusMatches True (length segs) (consume (\<lambda>c. c \<noteq> 10)) ?here"
  have eq: "regexpMatches foldRune (pseq [anyText]) ?here = map (capture ?here) ?ps"
  proof -
    have any: "regexpMatches foldRune AnyRune = consume (\<lambda>c. c \<noteq> 10)" by (rule ext) simp
    have eps: "concat (map (regexpMatches foldRune Eps) ps) = ps" for ps by (induction ps) simp_all
    show ?thesis
      unfolding pseq_def foldr.simps o_apply id_apply regexpMatches.simps(4)[of _ anyText] eps
      unfolding anyText_def regexpMatches.simps(7,9) any by (simp add: restOf_def)
  qed
  have ps: "map restOf ?ps = map (\<lambda>k. drop (Suc k) segs) [0..<length segs]" "\<forall>p\<in>set ?ps. capturesOf p = captures"
    using lazy_any[OF assms(2), of "length segs" before captures] by simp_all
  have len: "length ?ps = length segs" using arg_cong[OF ps(1), of length] by simp
  have rest: "restOf (capture h p) = restOf p" for h p by (cases p) (simp add: capture_def restOf_def)
  have nth: "restOf (?ps ! k) = drop (Suc k) segs" if "k < length segs" for k
    using arg_cong[OF ps(1), of "\<lambda>xs. xs ! k"] that len by simp
  let ?k = "length segs - 1"
  have k: "?k < length segs" using assms(1) by simp
  have found: "find (\<lambda>h. restOf h = []) (map (capture ?here) ?ps) = Some (capture ?here (?ps ! ?k))"
    unfolding find_Some_iff using k len nth assms(1) by (intro exI[of _ ?k]) (auto simp: rest)
  have "capturesOf (capture ?here (?ps ! ?k)) = captures @ [concat segs]"
  proof -
    obtain b r c where p: "?ps ! ?k = (b, r, c)" by (cases "?ps ! ?k")
    have "r = []" using nth[OF k] p assms(1) by (simp add: restOf_def)
    moreover have "c = captures" using ps(2) p k len by (metis capturesOf_def nth_mem snd_conv)
    ultimately show ?thesis using p by (simp add: capture_def capturesOf_def restOf_def)
  qed
  then show ?thesis unfolding eq found by blast
qed

lemma capture_rest:
  assumes "map runeOf (segments a) = map byte p" "segments s = segments a @ segs" "segs \<noteq> []" "\<forall>seg\<in>set segs. runeOf seg \<noteq> 10"
  shows "findSubmatch foldRune (pseq [lits p, anyText]) s = Some [concat segs]"
proof -
  obtain before' where lits: "regexpMatches foldRune (lits p) (None, segments a @ segs, []) = [(before', segs, [])]"
    using lits_match[OF assms(1)] by blast
  have "regexpMatches foldRune (pseq [lits p, anyText]) (None, segments s, []) = regexpMatches foldRune (pseq [anyText]) (before', segs, [])"
    unfolding assms(2) pseq_def foldr.simps o_apply regexpMatches.simps(4)[of _ "lits p"] lits by simp
  then show ?thesis using anyText_match[OF assms(3,4), of foldRune before' "[]"] by (auto simp: findSubmatch_def capturesOf_def)
qed


lemma firstRulePlan_at:
  assumes "n < length rules" "\<forall>r\<in>set (take n rules). findSubmatch foldRune (qr_pattern r) q = None"
    "findSubmatch foldRune (qr_pattern (rules ! n)) q = Some matches"
  shows "firstRulePlan u foldRune plan q rules = Some (rulePlan u plan (rules ! n) matches)"
  using assms
proof (induction rules arbitrary: n)
  case (Cons r rules)
  then show ?case by (cases n) auto
qed simp

definition whoCalls :: string where "whoCalls = ''who calls ''"

lemma earlier_patterns_clash:
  "list_all (\<lambda>p. list_all (\<lambda>l. clashes l (map byte whoCalls)) (leading p))
    ([folderLookupPattern, packageExplainPattern, sourceQualifiedExplainPattern, fileLookupPattern, classExplainPattern,
      serviceExplainPattern, capabilityQuestionPattern] @ architecturalMoveComparisonPatterns @ map qr_pattern (take 14 questionRules))"
  by code_simp

lemma whoCalls_rule:
  "questionRules ! 14 = rule (pseq [lits ''who calls '', anyText])
       IntentCalledBy OperatorNeighbors TraverseIncoming [''callee''] None callKinds"
  by (simp add: questionRules_def)

definition plainName :: "string \<Rightarrow> bool" where
  "plainName s \<longleftrightarrow> s \<noteq> [] \<and> list_all (\<lambda>c. wordRune (byte c)) s"

lemma wordRune_bound: "wordRune r \<Longrightarrow> 48 \<le> r \<and> r < 128 \<and> r \<noteq> 63"
  by (auto simp: wordRune_def asciiUpper_def asciiLower_def asciiDigit_def)

lemma plainName_ascii: "plainName s \<Longrightarrow> list_all (\<lambda>c. byte c < 128) s"
  by (auto simp: plainName_def list_all_iff dest!: bspec wordRune_bound)

lemma trimSeg_keep: "segs \<noteq> [] \<Longrightarrow> \<not> P (runeOf (hd segs)) \<Longrightarrow> trimSeg P segs = segs"
  by (cases segs) (simp_all add: trimSeg_def)

lemma isSpace_low: "33 \<le> r \<Longrightarrow> r < 128 \<Longrightarrow> \<not> isSpace r"
  by (simp add: isSpace_def)

lemma whoCalls_bytes: "map byte whoCalls = [119, 104, 111, 32, 99, 97, 108, 108, 115, 32]"
  by (simp add: whoCalls_def byte_def)

lemma whoCalls_ascii: "list_all (\<lambda>c. byte c < 128) whoCalls"
proof -
  have "list_all (\<lambda>b. b < 128) (map byte whoCalls)" unfolding whoCalls_bytes by simp
  then show ?thesis by (simp add: list_all_iff)
qed

lemma whoCalls_segments:
  assumes "plainName e"
  shows "segments (whoCalls @ e @ ''?'') = map (\<lambda>c. [c]) whoCalls @ map (\<lambda>c. [c]) e @ [''?'']"
    "segments (whoCalls @ e) = map (\<lambda>c. [c]) whoCalls @ map (\<lambda>c. [c]) e"
proof -
  have "byte (CHR ''?'') < 128" by (simp add: byte_def)
  then show "segments (whoCalls @ e @ ''?'') = map (\<lambda>c. [c]) whoCalls @ map (\<lambda>c. [c]) e @ [''?'']"
    using ascii_segments[of "whoCalls @ e @ ''?''"] whoCalls_ascii plainName_ascii[OF assms] by simp
  show "segments (whoCalls @ e) = map (\<lambda>c. [c]) whoCalls @ map (\<lambda>c. [c]) e"
    using ascii_segments[of "whoCalls @ e"] whoCalls_ascii plainName_ascii[OF assms] by simp
qed

lemma normalize_whoCalls:
  assumes "plainName e"
  shows "normalizeQuestion (whoCalls @ e @ ''?'') = whoCalls @ e"
proof -
  let ?segs = "segments (whoCalls @ e @ ''?'')"
  obtain e' c where e: "e = e' @ [c]" using assms by (cases e rule: rev_cases) (auto simp: plainName_def)
  have c: "wordRune (byte c)" using assms e by (simp add: plainName_def)
  have q: "byte (CHR ''?'') = 63" by (simp add: byte_def)
  have w: "runeOf (hd ?segs) = 119"
    using whoCalls_segments(1)[OF assms] by (simp add: whoCalls_def) (simp add: byte_def)
  have space: "trimSeg isSpace ?segs = ?segs"
    by (rule trimSeg_keep) (use w whoCalls_segments(1)[OF assms] in \<open>simp_all add: isSpace_low\<close>)
  have ending: "trimSeg isSpace (rev ?segs) = rev ?segs"
    by (rule trimSeg_keep) (use whoCalls_segments(1)[OF assms] q in \<open>simp_all add: isSpace_low\<close>)
  have "TrimSpace (whoCalls @ e @ ''?'') = whoCalls @ e @ ''?''" unfolding TrimSpace_def TrimFunc_def space ending by simp
  moreover have "trimSeg (\<lambda>r. r \<in> {63, 33, 46, 32}) (rev ?segs) = rev (map (\<lambda>c. [c]) whoCalls @ map (\<lambda>c. [c]) e)"
    unfolding whoCalls_segments(1)[OF assms] unfolding e using q wordRune_bound[OF c] by (auto simp: trimSeg_def)
  ultimately show ?thesis unfolding normalizeQuestion_def by (simp add: concat_map_singleton)
qed


lemma whoCalls_submatch:
  assumes "plainName e"
  shows "findSubmatch foldRune (pseq [lits ''who calls '', anyText]) (whoCalls @ e) = Some [e]"
proof -
  have "concat (map (\<lambda>c. [c]) e) = e" by (induction e) simp_all
  moreover have "runeOf [c] \<noteq> 10" if "c \<in> set e" for c
    using that assms wordRune_bound[of "byte c"] by (auto simp: plainName_def list_all_iff)
  moreover have "segments whoCalls = map (\<lambda>c. [c]) whoCalls" using ascii_segments[OF whoCalls_ascii] .
  moreover have "map runeOf (segments whoCalls) = map byte ''who calls ''"
    unfolding calculation(3) using whoCalls_ascii by (simp add: list_all_iff whoCalls_def)
  ultimately show ?thesis
    using capture_rest[of whoCalls "''who calls ''" "whoCalls @ e" "map (\<lambda>c. [c]) e"] whoCalls_segments(2)[OF assms] assms
    by (auto simp: plainName_def)
qed

lemma plainName_trim:
  assumes "plainName e" "\<And>r. wordRune r \<Longrightarrow> \<not> P r"
  shows "TrimFunc P e = e"
proof -
  have segs: "segments e = map (\<lambda>c. [c]) e" using ascii_segments[OF plainName_ascii[OF assms(1)]] .
  have word: "\<not> P (runeOf [c])" if "c \<in> set e" for c
    using assms that wordRune_bound[of "byte c"] by (auto simp: plainName_def list_all_iff)
  have ne: "e \<noteq> []" using assms(1) by (simp add: plainName_def)
  have "trimSeg P (segments e) = segments e" unfolding segs by (rule trimSeg_keep) (use ne word in \<open>auto simp: hd_map\<close>)
  moreover have "trimSeg P (rev (segments e)) = rev (segments e)"
    unfolding segs by (rule trimSeg_keep) (use ne word in \<open>auto simp: hd_rev last_map\<close>)
  ultimately show ?thesis by (simp add: TrimFunc_def)
qed

lemma plainName_clean: "plainName e \<Longrightarrow> cleanEntityText e = e"
proof -
  have "\<not> isSpace r" "\<not> (r = 34 \<or> r = 39)" if "wordRune r" for r using wordRune_bound[OF that] by (auto simp: isSpace_low)
  then show "plainName e \<Longrightarrow> cleanEntityText e = e" by (simp add: cleanEntityText_def TrimSpace_def plainName_trim)
qed

lemma slots_of:
  "length roles = length entities \<Longrightarrow>
    map slot_Role (map (\<lambda>(role, entity). entitySlot u role (f entity)) (zip roles entities)) = roles
    \<and> map slot_Text (map (\<lambda>(role, entity). entitySlot u role (f entity)) (zip roles entities)) = map f entities"
  by (induction roles entities rule: list_induct2) (simp_all add: entitySlot_def)

lemma whoCalls_plan:
  assumes "plainName e" "distinguishesLetters foldRune"
  shows "AnalyzeQuestion u foldRune (''who calls '' @ e @ ''?'') = rulePlan u (basePlan u (whoCalls @ e @ ''?'')) (questionRules ! 14) [e]"
proof -
  let ?q = "whoCalls @ e"
  have runes: "take (length (map byte whoCalls)) (map runeOf (segments ?q)) = map byte whoCalls"
    unfolding whoCalls_segments(2)[OF assms(1)] using whoCalls_ascii by (simp add: list_all_iff)
  have none: "findSubmatch foldRune p ?q = None"
    if "p \<in> set ([folderLookupPattern, packageExplainPattern, sourceQualifiedExplainPattern, fileLookupPattern, classExplainPattern,
      serviceExplainPattern, capabilityQuestionPattern] @ architecturalMoveComparisonPatterns @ map qr_pattern (take 14 questionRules))" for p
    using clash_no_submatch[OF assms(2) _ runes] earlier_patterns_clash that unfolding list_all_iff by blast
  have "matchArchitecturalMoveComparison foldRune ?q = None"
  proof -
    have arch: "findSubmatch foldRune p ?q = None" if "p \<in> set architecturalMoveComparisonPatterns" for p
      using none[of p] that by simp
    have "concat (map (\<lambda>p. case findSubmatch foldRune p ?q of None \<Rightarrow> [] | Some matches \<Rightarrow> [matches]) architecturalMoveComparisonPatterns) = []"
      using arch by simp
    then show ?thesis by (simp only: matchArchitecturalMoveComparison_def list.case)
  qed
  moreover have "firstRulePlan u foldRune (basePlan u (whoCalls @ e @ ''?'')) ?q questionRules
      = Some (rulePlan u (basePlan u (whoCalls @ e @ ''?'')) (questionRules ! 14) [e])"
  proof (rule firstRulePlan_at)
    show "14 < length questionRules" by (simp add: questionRules_def)
    show "\<forall>r\<in>set (take 14 questionRules). findSubmatch foldRune (qr_pattern r) ?q = None" using none by auto
    show "findSubmatch foldRune (qr_pattern (questionRules ! 14)) ?q = Some [e]"
      unfolding whoCalls_rule using whoCalls_submatch[OF assms(1)] by (simp add: rule_def)
  qed
  ultimately have "AnalyzeQuestion u foldRune (whoCalls @ e @ ''?'') = rulePlan u (basePlan u (whoCalls @ e @ ''?'')) (questionRules ! 14) [e]"
    unfolding AnalyzeQuestion_def Let_def normalize_whoCalls[OF assms(1)] using none by simp
  then show ?thesis by (simp only: whoCalls_def)
qed

subsection \<open>Properties\<close>

text \<open>C34: Every plan AnalyzeQuestion makes can be executed: the operator gets the number of entity slots it
  needs and a direction it knows, limits are positive, every slot is retrieved by its own text; and the
  submatch indexes of every grammar rule lie inside the submatches, so no index is out of range.\<close>

theorem analyzed_plan_is_executable:
  "executablePlan (AnalyzeQuestion u foldRune question)
    \<and> (\<forall>r\<in>set questionRules. \<forall>matches. findSubmatch foldRune (qr_pattern r) s = Some matches
        \<longrightarrow> (\<forall>i\<in>set (qr_captureIndexes r). 1 \<le> i \<and> i \<le> length matches))"
proof (intro conjI ballI allI impI)
  show "executablePlan (AnalyzeQuestion u foldRune question)" by (rule AnalyzeQuestion_executable)
next
  fix r matches i
  assume r: "r \<in> set questionRules" "findSubmatch foldRune (qr_pattern r) s = Some matches" "i \<in> set (qr_captureIndexes r)"
  then have "executableRule r" using questionRules_executable by (simp add: list_all_iff)
  then show "1 \<le> i" "i \<le> length matches"
    using r(3) findSubmatch_length[OF r(2)] by (auto simp: executableRule_def list_all_iff)
qed

text \<open>A planner response is accepted as an executable plan with the roles and relations of its intent, whose
  slots hold exactly the cleaned, nonempty entity texts in order; a local planner must also be confident.\<close>

theorem accepted_response_is_executable:
  assumes "ParseLocalPlannerResponse u response = Inr plan"
  shows "\<exists>r intent. response = Some r \<and> resp_Confidence r = ''high'' \<and> copilotPlannerIntents (resp_Intent r) = Some intent
    \<and> executablePlan plan \<and> plan_Intent plan = resp_Intent r \<and> plan_AllowedRelations plan = pi_relations intent
    \<and> map slot_Role (plan_EntitySlots plan) = pi_roles intent
    \<and> map slot_Text (plan_EntitySlots plan) = map cleanEntityText (resp_Entities r)
    \<and> '''' \<notin> set (map slot_Text (plan_EntitySlots plan))"
proof -
  obtain r where r: "response = Some r" "resp_Confidence r = ''high''" "validatePlannerResponse u r = Inr plan"
    using assms by (auto simp: ParseLocalPlannerResponse_def split: option.splits if_splits)
  then obtain intent where i: "copilotPlannerIntents (resp_Intent r) = Some intent" "length (resp_Entities r) = length (pi_roles intent)"
    "\<not> list_ex (\<lambda>entity. cleanEntityText entity = '''') (resp_Entities r)" "plan = copilotQueryPlan u (resp_Intent r) intent (resp_Entities r)"
    by (auto simp: validatePlannerResponse_def split: option.splits if_splits)
  have slots: "map slot_Role (plan_EntitySlots plan) = pi_roles intent"
    "map slot_Text (plan_EntitySlots plan) = map cleanEntityText (resp_Entities r)"
    unfolding i(4) using slots_of[OF i(2)[symmetric], of u cleanEntityText] by (simp_all add: copilotQueryPlan_def Let_def del: map_map)
  have "'''' \<notin> set (map slot_Text (plan_EntitySlots plan))" unfolding slots(2) using i(3) by (auto simp: list_ex_iff)
  moreover have "executablePlan plan" unfolding i(4) by (rule copilotQueryPlan_executable[OF i(1,2)])
  moreover have "plan_Intent plan = resp_Intent r" "plan_AllowedRelations plan = pi_relations intent"
    unfolding i(4) by (simp_all add: copilotQueryPlan_def Let_def)
  ultimately show ?thesis using r(1,2) i(1) slots by blast
qed

text \<open>Asking who calls a plain name gives the plan that looks up exactly that name as
  the callee and follows calls backwards, whatever Unicode case folding is, as long as it keeps ASCII letters apart.\<close>

theorem who_calls_question_roundtrip:
  assumes "plainName e" "distinguishesLetters foldRune"
  shows "let plan = AnalyzeQuestion u foldRune (''who calls '' @ e @ ''?'') in plan_Intent plan = IntentCalledBy
    \<and> plan_Operator plan = OperatorNeighbors \<and> plan_Direction plan = TraverseIncoming \<and> plan_AllowedRelations plan = [''calls'']
    \<and> plan_EntitySlots plan = [entitySlot u ''callee'' e]"
  unfolding whoCalls_plan[OF assms] whoCalls_rule Let_def
  by (simp add: rulePlan_def rule_def callKinds_def plainName_clean[OF assms(1)])

definition asciiFold :: "rune \<Rightarrow> rune" where "asciiFold = toLowerRune asciiTables"

theorem analyzed_plan_is_executable_witness:
  "findSubmatch asciiFold (qr_pattern (questionRules ! 14)) ''who calls f'' = Some [''f''] \<and> qr_captureIndexes (questionRules ! 14) = [1]
    \<and> executablePlan (AnalyzeQuestion asciiTables asciiFold ''who calls f'')"
proof -
  have "plainName ''f''" by (simp add: plainName_def wordRune_def asciiLower_def byte_def)
  then have "findSubmatch asciiFold (qr_pattern (questionRules ! 14)) ''who calls f'' = Some [''f'']"
    using whoCalls_submatch[of "''f''" asciiFold] by (simp add: whoCalls_rule rule_def whoCalls_def)
  moreover have "qr_captureIndexes (questionRules ! 14) = [1]" by (simp add: whoCalls_rule rule_def)
  ultimately show ?thesis using analyzed_plan_is_executable[of asciiTables asciiFold "''who calls f''" "''who calls f''"] by simp
qed

theorem who_calls_question_roundtrip_witness:
  "plan_EntitySlots (AnalyzeQuestion asciiTables asciiFold ''who calls parse?'') = [entitySlot asciiTables ''callee'' ''parse'']"
proof -
  have "plainName ''parse''" by (simp add: plainName_def wordRune_def asciiLower_def byte_def)
  moreover have "distinguishesLetters asciiFold"
    by (auto simp: distinguishesLetters_def lowerCase_def asciiFold_def toLowerRune_def asciiLower_def asciiUpper_def)
  ultimately show ?thesis using who_calls_question_roundtrip[of "''parse''" asciiFold asciiTables] by (simp add: Let_def)
qed

theorem accepted_response_is_executable_witness:
  "\<exists>plan. ParseLocalPlannerResponse asciiTables
      (Some \<lparr>resp_SchemaVersion = 1, resp_Intent = IntentPath, resp_Entities = [''a'', ''b''], resp_Confidence = ''high''\<rparr>) = Inr plan
    \<and> map slot_Text (plan_EntitySlots plan) = [''a'', ''b'']"
proof -
  let ?r = "\<lparr>resp_SchemaVersion = 1, resp_Intent = IntentPath, resp_Entities = [''a'', ''b''], resp_Confidence = ''high''\<rparr>"
  have clean: "cleanEntityText ''a'' = ''a''" "cleanEntityText ''b'' = ''b''"
    by (rule plainName_clean, simp add: plainName_def wordRune_def asciiLower_def byte_def)+
  obtain plan where plan: "ParseLocalPlannerResponse asciiTables (Some ?r) = Inr plan"
    by (simp add: ParseLocalPlannerResponse_def validatePlannerResponse_def QueryPlanSchemaVersion_def clean)
  from accepted_response_is_executable[OF plan] have "map slot_Text (plan_EntitySlots plan) = map cleanEntityText [''a'', ''b'']"
    by (elim exE conjE, unfold option.inject, hypsubst, simp)
  then show ?thesis using plan clean by simp
qed

end
