(* ===== verification/Pages.thy ===== *)
theory Pages
  imports Resolution Questions
begin

text \<open>
  Resolver reads in pages (storage/sqlite/sqlite.go): the projections of a project and language, one
  target, and the targets of a package, read from a snapshot, from a contribution session and from a
  staged publication.  The rows are those of Resolution; TEXT is compared by bytes, LIKE as SQLite does:
  \<open>_\<close> and \<open>%\<close> are wildcards and ASCII letters match in either case.  A client that asks for the page
  after the last source it saw is the locale paged_reads; it is interpreted on the reads of the store.
\<close>

subsection \<open>LIKE\<close>

definition wildcardOne :: string where "wildcardOne = ''_''"
definition wildcardAny :: string where "wildcardAny = ''%''"

definition foldASCII :: "string \<Rightarrow> string" where
  "foldASCII c = map (\<lambda>b. if asciiUpper (byte b) then char_of (byte b + 32) else b) c"

function likeMatch :: "string list \<Rightarrow> string list \<Rightarrow> bool" where
  "likeMatch [] s = (s = [])"
| "likeMatch (p # ps) s =
    (if p = wildcardAny then likeMatch ps s \<or> (case s of [] \<Rightarrow> False | _ # s' \<Rightarrow> likeMatch (p # ps) s')
     else (case s of [] \<Rightarrow> False
        | c # s' \<Rightarrow> (p = wildcardOne \<or> foldASCII p = foldASCII c) \<and> likeMatch ps s'))"
  by pat_completeness auto
termination by (relation "measures [\<lambda>(p, s). length p + length s]") auto

declare likeMatch.simps(2) [simp del]

lemma likeMatch_any: "likeMatch [wildcardAny] s"
  by (induction s) (simp_all add: likeMatch.simps)

text \<open>The filter on the source paths of a package.\<close>

definition packageFilter :: "string \<Rightarrow> string \<Rightarrow> bool" where
  "packageFilter packagePath sourcePath =
    (if packagePath = ''.'' then likeMatch [wildcardAny] (segments sourcePath) \<and> slash \<notin> set sourcePath
     else let pathPrefix = segments (packagePath @ [slash]) in
       likeMatch (pathPrefix @ [wildcardAny]) (segments sourcePath)
       \<and> slash \<notin> set (concat (drop (length pathPrefix) (segments sourcePath))))"

subsection \<open>Pages of the store\<close>

record ResolverProjectionPageRequest =
  rpq_ProjectID :: string
  rpq_Language :: string
  rpq_AfterSourcePath :: string
  rpq_Limit :: int

type_synonym header = "string \<times> string \<times> string \<times> string"

text \<open>The headers of the visible contributions of a project and language that a further condition keeps.\<close>

definition languageHeaders :: "Database \<Rightarrow> Snapshot \<Rightarrow> (string \<Rightarrow> bool) \<Rightarrow> string \<Rightarrow> string \<Rightarrow> header list" where
  "languageHeaders db snapshot keep projectID language =
     filter (\<lambda>(sourcePath, project, name, version). project = projectID \<and> name = language \<and> keep sourcePath)
       (projectionHeaders db snapshot)"

definition headerPage :: "Database \<Rightarrow> Snapshot \<Rightarrow> (string \<Rightarrow> bool) \<Rightarrow> string \<Rightarrow> string \<Rightarrow> string \<Rightarrow> int \<Rightarrow> header list" where
  "headerPage db snapshot keep projectID language after limit =
     take (nat limit) (filter (\<lambda>h. after < fst h) (languageHeaders db snapshot keep projectID language))"

definition ResolverProjectionPage :: "UnicodeTables \<Rightarrow> Database \<Rightarrow> Snapshot \<Rightarrow> ResolverProjectionPageRequest \<Rightarrow> StoreError + ResolverProjection list" where
  "ResolverProjectionPage u db snapshot request =
    (if snap_Workspace snapshot = '''' \<or> snap_Version snapshot = 0 \<or> rpq_ProjectID request = '''' \<or> rpq_Language request = ''''
        \<or> rpq_Limit request \<le> 0 then Inl ErrInvalidRequest
     else mapRes (readProjection u db snapshot)
       (headerPage db snapshot (\<lambda>_. True) (rpq_ProjectID request) (rpq_Language request) (rpq_AfterSourcePath request) (rpq_Limit request)))"

definition targetOf :: "string \<Rightarrow> ResolverProjection \<Rightarrow> ResolverTarget" where
  "targetOf projectID p = \<lparr>rt_ProjectID = projectID, rt_SourcePath = rp_SourcePath p, rt_Metadata = rp_Metadata p, rt_Nodes = rp_Nodes p,
     rt_UnresolvedReferences = rp_UnresolvedReferences p, rt_SymbolReferences = rp_SymbolReferences p,
     rt_ExportedSurfaces = rp_ExportedSurfaces p, rt_Diagnostics = rp_Diagnostics p\<rparr>"

definition readTarget :: "UnicodeTables \<Rightarrow> Database \<Rightarrow> Snapshot \<Rightarrow> (string \<Rightarrow> bool) \<Rightarrow> ResolverTargetRequest \<Rightarrow> StoreError + ResolverTarget option" where
  "readTarget u db snapshot keep request =
    (case filter (\<lambda>h. fst h = rtr_SourcePath request) (languageHeaders db snapshot keep (rtr_ProjectID request) (rtr_Language request)) of
       [] \<Rightarrow> Inr None
     | h # _ \<Rightarrow> res_map (\<lambda>p. Some (targetOf (rtr_ProjectID request) p)) (readProjection u db snapshot h))"

definition ResolverTargetOf :: "UnicodeTables \<Rightarrow> Database \<Rightarrow> Snapshot \<Rightarrow> ResolverTargetRequest \<Rightarrow> StoreError + ResolverTarget option" where
  "ResolverTargetOf u db snapshot request =
    (if snap_Workspace snapshot = '''' \<or> snap_Version snapshot = 0 \<or> rtr_ProjectID request = '''' \<or> rtr_Language request = ''''
        \<or> rtr_SourcePath request = '''' then Inl ErrInvalidRequest
     else readTarget u db snapshot (\<lambda>_. True) request)"

text \<open>The targets of the paths of a page; a path without a target is left out.\<close>

definition readTargets :: "(ResolverTargetRequest \<Rightarrow> StoreError + ResolverTarget option) \<Rightarrow> ResolverPackagePageRequest \<Rightarrow> string list
    \<Rightarrow> StoreError + ResolverTarget list" where
  "readTargets read request paths = res_map (\<lambda>targets. concat (map (case_option [] (\<lambda>t. [t])) targets))
     (mapRes (\<lambda>sourcePath. read \<lparr>rtr_ProjectID = rpp_ProjectID request, rtr_Language = rpp_Language request, rtr_SourcePath = sourcePath\<rparr>) paths)"

definition packagePaths :: "Database \<Rightarrow> Snapshot \<Rightarrow> (string \<Rightarrow> bool) \<Rightarrow> ResolverPackagePageRequest \<Rightarrow> string list" where
  "packagePaths db snapshot keep request = map fst (headerPage db snapshot (\<lambda>s. keep s \<and> packageFilter (rpp_PackagePath request) s)
     (rpp_ProjectID request) (rpp_Language request) (rpp_AfterSourcePath request) (rpp_Limit request))"

definition validPackageRequest :: "ResolverPackagePageRequest \<Rightarrow> bool" where
  "validPackageRequest request \<longleftrightarrow> rpp_ProjectID request \<noteq> '''' \<and> rpp_Language request \<noteq> '''' \<and> rpp_PackagePath request \<noteq> ''''
     \<and> 0 < rpp_Limit request"

definition ResolverPackagePage :: "UnicodeTables \<Rightarrow> Database \<Rightarrow> Snapshot \<Rightarrow> ResolverPackagePageRequest \<Rightarrow> StoreError + ResolverTarget list" where
  "ResolverPackagePage u db snapshot request =
    (if snap_Workspace snapshot = '''' \<or> snap_Version snapshot = 0 \<or> \<not> validPackageRequest request then Inl ErrInvalidRequest
     else readTargets (ResolverTargetOf u db snapshot) request (packagePaths db snapshot (\<lambda>_. True) request))"

subsection \<open>Pages of a contribution session\<close>

definition pendingSnapshot :: "Session \<Rightarrow> Snapshot" where
  "pendingSnapshot session = \<lparr>snap_Workspace = se_workspace session, snap_Version = se_pendingVersion session, snap_PublishedAt = 0\<rparr>"

definition sessionSource :: "Session \<Rightarrow> string \<Rightarrow> bool" where
  "sessionSource session sourcePath \<longleftrightarrow> sourcePath \<in> fst ` set (se_staged session)"

definition sessionReadable :: "Session \<Rightarrow> Snapshot \<Rightarrow> bool" where
  "sessionReadable session snapshot \<longleftrightarrow> \<not> se_closed session \<and> se_sealed session \<and> snap_Workspace snapshot = se_workspace session"

definition sessionProjectionPage :: "UnicodeTables \<Rightarrow> Session \<Rightarrow> Snapshot \<Rightarrow> ResolverProjectionPageRequest \<Rightarrow> StoreError + ResolverProjection list" where
  "sessionProjectionPage u session snapshot request =
    (if \<not> sessionReadable session snapshot \<or> rpq_ProjectID request = '''' \<or> rpq_Language request = '''' \<or> rpq_Limit request \<le> 0
     then Inl ErrInvalidRequest
     else mapRes (readProjection u (se_database session) (pendingSnapshot session))
       (headerPage (se_database session) (pendingSnapshot session) (sessionSource session)
         (rpq_ProjectID request) (rpq_Language request) (rpq_AfterSourcePath request) (rpq_Limit request)))"

definition sessionTarget :: "UnicodeTables \<Rightarrow> Session \<Rightarrow> Snapshot \<Rightarrow> ResolverTargetRequest \<Rightarrow> StoreError + ResolverTarget option" where
  "sessionTarget u session snapshot request =
    (if \<not> sessionReadable session snapshot \<or> rtr_ProjectID request = '''' \<or> rtr_Language request = '''' \<or> rtr_SourcePath request = ''''
     then Inl ErrInvalidRequest
     else readTarget u (se_database session) (pendingSnapshot session) (sessionSource session) request)"

definition sessionPackagePage :: "UnicodeTables \<Rightarrow> Session \<Rightarrow> Snapshot \<Rightarrow> ResolverPackagePageRequest \<Rightarrow> StoreError + ResolverTarget list" where
  "sessionPackagePage u session snapshot request =
    (if \<not> sessionReadable session snapshot \<or> \<not> validPackageRequest request then Inl ErrInvalidRequest
     else readTargets (sessionTarget u session snapshot) request
       (packagePaths (se_database session) (pendingSnapshot session) (sessionSource session) request))"

subsection \<open>Staged publications\<close>

record ResolverStageSource =
  rss_ProjectID :: string
  rss_Language :: string
  rss_SourcePath :: string

text \<open>The stager reads the database inside the transaction of a publication; its temporary table is None until it is created.\<close>

record resolverStager =
  stg_database :: Database
  stg_snapshot :: Snapshot
  stg_staged :: "ResolverStageSource list option"

definition stageKey :: "ResolverStageSource \<Rightarrow> string list" where
  "stageKey s = [rss_ProjectID s, rss_Language s, rss_SourcePath s]"

definition StageResolverSources :: "ResolverStageSource list \<Rightarrow> resolverStager \<Rightarrow> StoreError + resolverStager" where
  "StageResolverSources sources stager =
    (if sources = [] then Inr stager
     else if list_ex (\<lambda>s. rss_ProjectID s = '''' \<or> rss_Language s = '''' \<or> rss_SourcePath s = '''') sources then Inl ErrInvalidRequest
     else Inr (stager\<lparr>stg_staged := Some (insertOrIgnore stageKey (case stg_staged stager of None \<Rightarrow> [] | Some rows \<Rightarrow> rows)
       (remdups_adj (sort_key stageKey sources)))\<rparr>))"

definition stagerReadable :: "resolverStager \<Rightarrow> Snapshot \<Rightarrow> bool" where
  "stagerReadable stager snapshot \<longleftrightarrow> snap_Workspace snapshot = snap_Workspace (stg_snapshot stager)
     \<and> snap_Version snapshot = snap_Version (stg_snapshot stager) \<and> snap_Version (stg_snapshot stager) \<noteq> 0"

definition stagedPath :: "ResolverStageSource list \<Rightarrow> string \<Rightarrow> string \<Rightarrow> string \<Rightarrow> bool" where
  "stagedPath rows projectID language sourcePath \<longleftrightarrow>
     \<lparr>rss_ProjectID = projectID, rss_Language = language, rss_SourcePath = sourcePath\<rparr> \<in> set rows"

text \<open>A staged projection is read without validating its metadata.\<close>

definition stagedProjection :: "Database \<Rightarrow> Snapshot \<Rightarrow> header \<Rightarrow> ResolverProjection" where
  "stagedProjection db snapshot header =
    (case header of (sourcePath, projectID, name, version) \<Rightarrow>
       let data = storeResolutionDataForSource db snapshot sourcePath in
       \<lparr>rp_ProjectID = projectID, rp_SourcePath = sourcePath,
        rp_Metadata = \<lparr>md_Name = name, md_Version = version, md_Extensions = res_Extensions data\<rparr>,
        rp_Nodes = appendNodes (sourceData db snapshot contribution_nodes sourcePath),
        rp_Edges = appendEdges (sourceData db snapshot contribution_edges sourcePath),
        rp_UnresolvedReferences = res_UnresolvedReferences data, rp_SymbolReferences = res_SymbolReferences data,
        rp_ExportedSurfaces = res_ExportedSurfaces data, rp_Dependencies = res_Dependencies data,
        rp_Diagnostics = res_Diagnostics data\<rparr>)"

definition stagerProjectionPage :: "resolverStager \<Rightarrow> Snapshot \<Rightarrow> ResolverProjectionPageRequest \<Rightarrow> StoreError + ResolverProjection list" where
  "stagerProjectionPage stager snapshot request =
    (if \<not> stagerReadable stager snapshot \<or> rpq_ProjectID request = '''' \<or> rpq_Language request = '''' \<or> rpq_Limit request \<le> 0
     then Inl ErrInvalidRequest
     else case stg_staged stager of None \<Rightarrow> Inl ErrInvalidRequest
       | Some rows \<Rightarrow> Inr (map (stagedProjection (stg_database stager) (stg_snapshot stager))
           (headerPage (stg_database stager) (stg_snapshot stager) (stagedPath rows (rpq_ProjectID request) (rpq_Language request))
             (rpq_ProjectID request) (rpq_Language request) (rpq_AfterSourcePath request) (rpq_Limit request))))"

definition stagerTarget :: "UnicodeTables \<Rightarrow> resolverStager \<Rightarrow> Snapshot \<Rightarrow> ResolverTargetRequest \<Rightarrow> StoreError + ResolverTarget option" where
  "stagerTarget u stager snapshot request =
    (if \<not> stagerReadable stager snapshot \<or> rtr_ProjectID request = '''' \<or> rtr_Language request = '''' \<or> rtr_SourcePath request = ''''
     then Inl ErrInvalidRequest
     else readTarget u (stg_database stager) (stg_snapshot stager) (\<lambda>_. True) request)"

definition stagerPackagePage :: "UnicodeTables \<Rightarrow> resolverStager \<Rightarrow> Snapshot \<Rightarrow> ResolverPackagePageRequest \<Rightarrow> StoreError + ResolverTarget list" where
  "stagerPackagePage u stager snapshot request =
    (if \<not> stagerReadable stager snapshot \<or> \<not> validPackageRequest request then Inl ErrInvalidRequest
     else readTargets (stagerTarget u stager (stg_snapshot stager)) request
       (packagePaths (stg_database stager) (stg_snapshot stager) (\<lambda>_. True) request))"


text \<open>Close drops the temporary table.\<close>

definition stagerClose :: "resolverStager \<Rightarrow> resolverStager" where
  "stagerClose stager = stager\<lparr>stg_staged := None\<rparr>"

subsection \<open>Reading all pages\<close>

text \<open>The loop of a client: ask for the page after the last source, visit its items, stop at an empty page or an error.\<close>

partial_function (option) visitPages :: "(string \<Rightarrow> 'e + 't list) \<Rightarrow> ('t \<Rightarrow> string) \<Rightarrow> ('t \<Rightarrow> 's \<Rightarrow> 'e + 's) \<Rightarrow> string \<Rightarrow> 's \<Rightarrow> ('e + 's) option" where
  "visitPages page path_of visit after st =
    (case page after of
       Inl e \<Rightarrow> Some (Inl e)
     | Inr items \<Rightarrow> if items = [] then Some (Inr st)
         else case fold_res visit items st of
           Inl e \<Rightarrow> Some (Inl e)
         | Inr st' \<Rightarrow> visitPages page path_of visit (path_of (last items)) st')"

lemma sorted_le_last: "sorted (xs :: 'a :: linorder list) \<Longrightarrow> p \<in> set xs \<Longrightarrow> p \<le> last xs"
  by (induction xs rule: rev_induct) (auto simp: sorted_append)

locale paged_reads =
  fixes page :: "'db \<Rightarrow> string \<Rightarrow> 'e + 't list"
    and read :: "'db \<Rightarrow> string \<Rightarrow> 'e + 't"
    and paths :: "'db \<Rightarrow> string list"
    and path_of :: "'t \<Rightarrow> string"
    and size :: nat
    and invar :: "'db \<Rightarrow> bool"
  assumes positive: "0 < size"
    and page: "invar db \<Longrightarrow> page db after = mapRes (read db) (take size (filter (\<lambda>p. after < p) (paths db)))"
    and ascending: "invar db \<Longrightarrow> sorted_wrt (<) (paths db)"
    and read_path: "read db p = Inr t \<Longrightarrow> path_of t = p"
begin

lemma after_last:
  assumes "invar db" "mapRes (read db) (take size (filter (\<lambda>p. after < p) (paths db))) = Inr items" "items \<noteq> []"
  shows "filter (\<lambda>p. path_of (last items) < p) (paths db) = drop size (filter (\<lambda>p. after < p) (paths db))"
proof -
  let ?later = "filter (\<lambda>p. after < p) (paths db)"
  let ?front = "take size ?later"
  have all2: "list_all2 (\<lambda>p t. read db p = Inr t) ?front items" using assms(2) by (simp only: mapRes_Inr)
  then have front: "?front \<noteq> []" using assms(3) by (metis list_all2_Nil)
  have len: "length ?front = length items" using all2 by (rule list_all2_lengthD)
  then have "length items - 1 < length ?front" using assms(3) by simp
  then have "read db (?front ! (length items - 1)) = Inr (items ! (length items - 1))" by (rule list_all2_nthD[OF all2])
  then have last: "path_of (last items) = last ?front"
    using read_path unfolding last_conv_nth[OF assms(3)] last_conv_nth[OF front] len by simp
  have sorted: "sorted_wrt (<) (?front @ drop size ?later)" using ascending[OF assms(1)] by (simp add: sorted_wrt_filter)
  have "sorted ?front" using sorted by (simp only: sorted_wrt_append strict_sorted_iff)
  then have in_front: "p \<le> last ?front" if "p \<in> set ?front" for p using that by (rule sorted_le_last)
  have behind: "last ?front < p" if "p \<in> set (drop size ?later)" for p
    using sorted that last_in_set[OF front] unfolding sorted_wrt_append by blast
  have "last ?front \<in> set ?later" using last_in_set[OF front] by (rule in_set_takeD)
  then have "after < last ?front" by simp
  then have "filter (\<lambda>p. last ?front < p) (paths db) = filter (\<lambda>p. last ?front < p) ?later"
    by (simp only: filter_filter) (rule filter_cong[OF refl], use order.strict_trans in blast)
  also have "\<dots> = filter (\<lambda>p. last ?front < p) (?front @ drop size ?later)" by simp
  also have "\<dots> = drop size ?later"
    unfolding filter_append using in_front behind by (auto simp: filter_empty_conv filter_id_conv dest: leD)
  finally show ?thesis unfolding last .
qed

lemma visit_from:
  assumes "invar db" "mapRes (read db) (filter (\<lambda>p. after < p) (paths db)) = Inr items"
  shows "visitPages (page db) path_of visit after st = Some (fold_res visit items st)"
  using assms(2)
proof (induction "length (filter (\<lambda>p. after < p) (paths db))" arbitrary: after items st rule: less_induct)
  case less
  let ?later = "filter (\<lambda>p. after < p) (paths db)"
  have split: "list_all2 (\<lambda>p t. read db p = Inr t) (take size ?later @ drop size ?later) items" using less.prems by (simp add: mapRes_Inr)
  then obtain front rear where items: "items = front @ rear"
    and front: "mapRes (read db) (take size ?later) = Inr front" and rear: "mapRes (read db) (drop size ?later) = Inr rear"
    unfolding list_all2_append1 mapRes_Inr by blast
  have page_eq: "page db after = Inr front" using page[OF assms(1)] front by simp
  show ?case
  proof (cases "front = []")
    case True
    then have "take size ?later = []" using front by (metis list_all2_Nil2 mapRes_Inr)
    then have "?later = []" using positive by (metis take_eq_Nil neq0_conv)
    then have "items = []" using less.prems by simp
    then show ?thesis using True page_eq by (simp add: visitPages.simps)
  next
    case False
    have rest: "filter (\<lambda>p. path_of (last front) < p) (paths db) = drop size ?later" by (rule after_last[OF assms(1) front False])
    have "?later \<noteq> []" using front False by auto
    then have smaller: "length (drop size ?later) < length ?later" using positive by simp
    have "visitPages (page db) path_of visit (path_of (last front)) st' = Some (fold_res visit rear st')" for st'
      using less.hyps[of "path_of (last front)" rear st'] rear smaller unfolding rest by simp
    then show ?thesis
      unfolding items fold_res_append by (subst visitPages.simps, cases "fold_res visit front st") (simp_all add: page_eq False)
  qed
qed

lemma visit_returns:
  assumes "invar db"
  shows "\<exists>r. visitPages (page db) path_of visit after st = Some r"
proof (induction "length (filter (\<lambda>p. after < p) (paths db))" arbitrary: after st rule: less_induct)
  case less
  let ?later = "filter (\<lambda>p. after < p) (paths db)"
  show ?case
  proof (cases "mapRes (read db) (take size ?later)")
    case (Inl e)
    then show ?thesis using page[OF assms] by (simp add: visitPages.simps)
  next
    case (Inr front)
    show ?thesis
    proof (cases "front = []")
      case True
      then show ?thesis using page[OF assms] Inr by (simp add: visitPages.simps)
    next
      case False
      have "?later \<noteq> []" using Inr False by auto
      then have "length (filter (\<lambda>p. path_of (last front) < p) (paths db)) < length ?later"
        unfolding after_last[OF assms Inr False] using positive by simp
      from less.hyps[OF this] show ?thesis
        by (subst visitPages.simps) (use page[OF assms] Inr False in \<open>auto split: sum.split\<close>)
    qed
  qed
qed

end


subsection \<open>The reads of the store as pages\<close>

lemma header_rows:
  "s \<in> set (map fst (concat (map (\<lambda>(source, d). case d of FileContributionRow i n v \<Rightarrow> [(source, i, n, v)] | _ \<Rightarrow> []) rows)))
    \<Longrightarrow> \<exists>i n v. (s, FileContributionRow i n v) \<in> set rows"
proof (induction rows)
  case (Cons r rows)
  then show ?case by (cases r, cases "snd r") (simp_all del: set_concat add: ex_disj_distrib, blast+)
qed simp

lemma headers_distinct:
  "distinct (map (\<lambda>(source, d). (source, rowKey d)) rows) \<Longrightarrow>
    distinct (map fst (concat (map (\<lambda>(source, d). case d of FileContributionRow i n v \<Rightarrow> [(source, i, n, v)] | _ \<Rightarrow> []) rows)))"
proof (induction rows)
  case (Cons r rows)
  obtain s d where r: "r = (s, d)" by (cases r)
  show ?case
  proof (cases d)
    case (FileContributionRow i n v)
    have "s \<notin> set (map fst (concat (map (\<lambda>(source, d). case d of FileContributionRow i n v \<Rightarrow> [(source, i, n, v)] | _ \<Rightarrow> []) rows)))"
    proof
      assume "s \<in> set (map fst (concat (map (\<lambda>(source, d). case d of FileContributionRow i n v \<Rightarrow> [(source, i, n, v)] | _ \<Rightarrow> []) rows)))"
      then obtain i' n' v' where "(s, FileContributionRow i' n' v') \<in> set rows" by (metis header_rows)
      then have "(s, rowKey (FileContributionRow i' n' v')) \<in> (\<lambda>(source, d). (source, rowKey d)) ` set rows" by force
      then show False using Cons.prems by (simp add: r FileContributionRow rowKey_def)
    qed
    then show ?thesis using Cons by (simp add: r FileContributionRow)
  qed (use Cons in \<open>simp_all add: r\<close>)
qed simp

lemma projectionHeaders_ascending:
  assumes "wf_store db"
  shows "sorted_wrt (<) (map fst (projectionHeaders db sn))"
proof -
  let ?rows = "view_rows (versionView db (snap_Workspace sn) (snap_Version sn)) file_contributions"
  let ?headers = "concat (map (\<lambda>(source, d). case d of FileContributionRow i n v \<Rightarrow> [(source, i, n, v)] | _ \<Rightarrow> []) ?rows)"
  have "distinct (map (\<lambda>(source, d). (source, rowKey d)) ?rows)"
    using visible_distinct[OF wf_storeD(1)[OF assms], of "snap_Workspace sn" "snap_Version sn" file_contributions]
    by (simp add: versionView_def visibleRows_def shown_def o_def)
  then have "distinct (map fst ?headers)" by (rule headers_distinct)
  moreover have "mset (map fst (projectionHeaders db sn)) = mset (map fst ?headers)" unfolding projectionHeaders_view by (simp only: mset_map mset_sort)
  ultimately have "distinct (map fst (projectionHeaders db sn))" using mset_eq_imp_distinct_iff by blast
  moreover have "sorted (map fst (projectionHeaders db sn))" unfolding projectionHeaders_def by (rule sorted_sort_key)
  ultimately show ?thesis by (simp only: strict_sorted_iff)
qed

lemma languageHeaders_ascending: "wf_store db \<Longrightarrow> sorted_wrt (<) (map fst (languageHeaders db sn keep projectID language))"
  unfolding languageHeaders_def sorted_wrt_map
  by (rule sorted_wrt_filter) (use projectionHeaders_ascending in \<open>simp only: sorted_wrt_map\<close>)

text \<open>Reading one projection by its path.\<close>

definition readHeader :: "UnicodeTables \<Rightarrow> Database \<Rightarrow> Snapshot \<Rightarrow> string \<Rightarrow> string \<Rightarrow> string \<Rightarrow> StoreError + ResolverProjection" where
  "readHeader u db snapshot projectID language sourcePath =
    (case filter (\<lambda>h. fst h = sourcePath) (languageHeaders db snapshot (\<lambda>_. True) projectID language) of
       [] \<Rightarrow> Inl ErrInvalidRequest | h # _ \<Rightarrow> readProjection u db snapshot h)"

lemma filter_key:
  "sorted_wrt (<) (map fst hs) \<Longrightarrow> h \<in> set hs \<Longrightarrow> filter (\<lambda>k. fst k = (fst h :: 'a :: linorder)) hs = [h]"
proof (induction hs)
  case (Cons k hs)
  then show ?case
    by (cases "h = k") (auto simp: filter_empty_conv)
qed simp

lemma mapRes_cong: "(\<And>x. x \<in> set xs \<Longrightarrow> f x = g x) \<Longrightarrow> mapRes f xs = mapRes g xs"
  by (induction xs) simp_all

lemma mapRes_map: "mapRes f (map g xs) = mapRes (\<lambda>x. f (g x)) xs"
  by (induction xs) simp_all

lemma readProjection_path: "readProjection u db sn h = Inr p \<Longrightarrow> rp_SourcePath p = fst h \<and> rp_ProjectID p = fst (snd h)"
  by (cases h) (auto simp: readProjection_def Let_def split: if_splits)

lemma readHeader_path:
  assumes "readHeader u db sn projectID language p = Inr t"
  shows "rp_SourcePath t = p"
proof -
  let ?hs = "filter (\<lambda>h. fst h = p) (languageHeaders db sn (\<lambda>_. True) projectID language)"
  obtain h rest where hs: "?hs = h # rest" using assms unfolding readHeader_def by (cases ?hs) simp_all
  then have "h \<in> set ?hs" by simp
  then have "fst h = p" by simp
  moreover have "readProjection u db sn h = Inr t" using assms unfolding readHeader_def hs by simp
  ultimately show ?thesis using readProjection_path by blast
qed

lemma read_headers:
  assumes "sorted_wrt (<) (map fst (languageHeaders db sn (\<lambda>_. True) projectID language))"
    "set hs \<subseteq> set (languageHeaders db sn (\<lambda>_. True) projectID language)"
  shows "mapRes (readHeader u db sn projectID language) (map fst hs) = mapRes (readProjection u db sn) hs"
  unfolding mapRes_map
proof (rule mapRes_cong)
  fix h assume "h \<in> set hs"
  with assms(2) show "readHeader u db sn projectID language (fst h) = readProjection u db sn h"
    unfolding readHeader_def using filter_key[OF assms(1), of h] by auto
qed

definition projectionPaths :: "Snapshot \<Rightarrow> string \<Rightarrow> string \<Rightarrow> Database \<Rightarrow> string list" where
  "projectionPaths snapshot projectID language db = map fst (languageHeaders db snapshot (\<lambda>_. True) projectID language)"

definition packagePathsOf :: "Snapshot \<Rightarrow> string \<Rightarrow> string \<Rightarrow> string \<Rightarrow> Database \<Rightarrow> string list" where
  "packagePathsOf snapshot projectID language packagePath db =
     filter (packageFilter packagePath) (projectionPaths snapshot projectID language db)"

definition readableSnapshot :: "Snapshot \<Rightarrow> string \<Rightarrow> string \<Rightarrow> Database \<Rightarrow> bool" where
  "readableSnapshot snapshot projectID language db \<longleftrightarrow> wf_store db \<and> snap_Workspace snapshot \<noteq> '''' \<and> snap_Version snapshot \<noteq> 0
     \<and> projectID \<noteq> '''' \<and> language \<noteq> ''''"

text \<open>Both page sizes of the callers are 128: resolverProjectionPageSize and resolverPackagePageSize.\<close>

definition resolverProjectionPageSize :: int where "resolverProjectionPageSize = 128"
definition resolverPackagePageSize :: int where "resolverPackagePageSize = 128"

interpretation projection_pages: paged_reads
  "\<lambda>db after. ResolverProjectionPage u db sn \<lparr>rpq_ProjectID = projectID, rpq_Language = language, rpq_AfterSourcePath = after,
     rpq_Limit = resolverProjectionPageSize\<rparr>"
  "\<lambda>db. readHeader u db sn projectID language" "projectionPaths sn projectID language" rp_SourcePath 128 "readableSnapshot sn projectID language"
  for u sn projectID language
proof (unfold_locales, goal_cases)
  case (2 db after)
  let ?hs = "languageHeaders db sn (\<lambda>_. True) projectID language"
  have asc: "sorted_wrt (<) (map fst ?hs)" using 2 by (intro languageHeaders_ascending) (simp add: readableSnapshot_def)
  have "set (take 128 (filter (\<lambda>h. after < fst h) ?hs)) \<subseteq> set ?hs" using set_take_subset by fastforce
  then have "mapRes (readProjection u db sn) (take 128 (filter (\<lambda>h. after < fst h) ?hs))
      = mapRes (readHeader u db sn projectID language) (map fst (take 128 (filter (\<lambda>h. after < fst h) ?hs)))"
    by (rule read_headers[OF asc, symmetric])
  then show ?case using 2 by (simp add: ResolverProjectionPage_def readableSnapshot_def headerPage_def resolverProjectionPageSize_def
      projectionPaths_def take_map filter_map o_def)
next
  case (3 db)
  then show ?case unfolding projectionPaths_def readableSnapshot_def by (intro languageHeaders_ascending) simp
next
  case (4 db p t)
  then show ?case by (rule readHeader_path)
qed simp

definition readPackageTarget :: "UnicodeTables \<Rightarrow> Snapshot \<Rightarrow> string \<Rightarrow> string \<Rightarrow> Database \<Rightarrow> string \<Rightarrow> StoreError + ResolverTarget" where
  "readPackageTarget u snapshot projectID language db sourcePath =
    res_map (targetOf projectID) (readHeader u db snapshot projectID language sourcePath)"

lemma mapRes_options:
  "(\<And>x. x \<in> set xs \<Longrightarrow> f x = res_map Some (g x)) \<Longrightarrow>
    res_map (\<lambda>ys. concat (map (case_option [] (\<lambda>y. [y])) ys)) (mapRes f xs) = mapRes g xs"
proof (induction xs)
  case (Cons x xs)
  then have "res_map (\<lambda>ys. concat (map (case_option [] (\<lambda>y. [y])) ys)) (mapRes f xs) = mapRes g xs" by simp
  with Cons.prems[of x] show ?case by (cases "g x"; cases "mapRes f xs"; cases "mapRes g xs") auto
qed simp

lemma target_of_path:
  assumes "snap_Workspace sn \<noteq> ''''" "snap_Version sn \<noteq> 0" "projectID \<noteq> ''''" "language \<noteq> ''''" "p \<noteq> ''''"
    "p \<in> set (projectionPaths sn projectID language db)"
  shows "ResolverTargetOf u db sn \<lparr>rtr_ProjectID = projectID, rtr_Language = language, rtr_SourcePath = p\<rparr>
    = res_map Some (readPackageTarget u sn projectID language db p)"
proof -
  let ?hs = "filter (\<lambda>h. fst h = p) (languageHeaders db sn (\<lambda>_. True) projectID language)"
  have "?hs \<noteq> []" using assms(6) by (auto simp: projectionPaths_def filter_empty_conv)
  then obtain h rest where "?hs = h # rest" by (cases ?hs) simp_all
  then show ?thesis using assms(1-5)
    by (cases "readProjection u db sn h") (simp_all add: ResolverTargetOf_def readTarget_def readPackageTarget_def readHeader_def)
qed

lemma packagePaths_page:
  "packagePaths db sn (\<lambda>_. True) \<lparr>rpp_ProjectID = projectID, rpp_Language = language, rpp_PackagePath = packagePath,
      rpp_AfterSourcePath = after, rpp_Limit = limit\<rparr>
    = take (nat limit) (filter (\<lambda>p. after < p) (packagePathsOf sn projectID language packagePath db))"
proof -
  have "languageHeaders db sn (packageFilter packagePath) projectID language
      = filter (\<lambda>h. packageFilter packagePath (fst h)) (languageHeaders db sn (\<lambda>_. True) projectID language)"
    unfolding languageHeaders_def filter_filter by (rule filter_cong) auto
  then show ?thesis
    by (simp add: packagePaths_def headerPage_def packagePathsOf_def projectionPaths_def take_map filter_map o_def)
qed

interpretation package_pages: paged_reads
  "\<lambda>db after. ResolverPackagePage u db sn \<lparr>rpp_ProjectID = projectID, rpp_Language = language, rpp_PackagePath = packagePath,
     rpp_AfterSourcePath = after, rpp_Limit = resolverPackagePageSize\<rparr>"
  "readPackageTarget u sn projectID language" "packagePathsOf sn projectID language packagePath" rt_SourcePath 128
  "\<lambda>db. readableSnapshot sn projectID language db \<and> packagePath \<noteq> ''''"
  for u sn projectID language packagePath
proof (unfold_locales, goal_cases)
  case (2 db after)
  let ?part = "take 128 (filter (\<lambda>p. after < p) (packagePathsOf sn projectID language packagePath db))"
  have "readTargets (ResolverTargetOf u db sn) \<lparr>rpp_ProjectID = projectID, rpp_Language = language, rpp_PackagePath = packagePath,
      rpp_AfterSourcePath = after, rpp_Limit = resolverPackagePageSize\<rparr> ?part
    = mapRes (readPackageTarget u sn projectID language db) ?part"
    unfolding readTargets_def
  proof (rule mapRes_options)
    fix p assume "p \<in> set ?part"
    then have "p \<in> set (filter (\<lambda>p. after < p) (packagePathsOf sn projectID language packagePath db))" by (rule in_set_takeD)
    then have "after < p" "p \<in> set (projectionPaths sn projectID language db)" by (simp_all add: packagePathsOf_def)
    moreover from this have "p \<noteq> ''''" by auto
    ultimately show "ResolverTargetOf u db sn \<lparr>rtr_ProjectID = rpp_ProjectID \<lparr>rpp_ProjectID = projectID, rpp_Language = language,
        rpp_PackagePath = packagePath, rpp_AfterSourcePath = after, rpp_Limit = resolverPackagePageSize\<rparr>,
        rtr_Language = rpp_Language \<lparr>rpp_ProjectID = projectID, rpp_Language = language,
        rpp_PackagePath = packagePath, rpp_AfterSourcePath = after, rpp_Limit = resolverPackagePageSize\<rparr>, rtr_SourcePath = p\<rparr>
      = res_map Some (readPackageTarget u sn projectID language db p)"
      using 2 target_of_path[of sn projectID language p db u] by (simp add: readableSnapshot_def)
  qed
  then show ?case using 2
    by (simp add: ResolverPackagePage_def validPackageRequest_def readableSnapshot_def packagePaths_page resolverPackagePageSize_def)
next
  case (3 db)
  then show ?case unfolding packagePathsOf_def projectionPaths_def readableSnapshot_def
    by (intro sorted_wrt_filter languageHeaders_ascending) simp
next
  case (4 db p t)
  then show ?case unfolding readPackageTarget_def by (auto simp: res_simps targetOf_def dest: readHeader_path)
qed simp

subsection \<open>What a reader of all pages sees\<close>

text \<open>The projections of a project and language with an accepted path, of those read at once.\<close>

definition languageProjections :: "string \<Rightarrow> string \<Rightarrow> (string \<Rightarrow> bool) \<Rightarrow> ResolverProjection list \<Rightarrow> ResolverProjection list" where
  "languageProjections projectID language accepted =
     filter (\<lambda>p. rp_ProjectID p = projectID \<and> md_Name (rp_Metadata p) = language \<and> accepted (rp_SourcePath p))"

lemma read_accepted:
  assumes "wf_store db" "readProjections u db sn = Inr projections"
  shows "mapRes (readHeader u db sn projectID language) (filter accepted (projectionPaths sn projectID language db))
    = Inr (languageProjections projectID language accepted projections)"
proof -
  let ?hs = "filter (\<lambda>h. accepted (fst h)) (languageHeaders db sn (\<lambda>_. True) projectID language)"
  have hs: "?hs = filter (\<lambda>(s, i, n, v). i = projectID \<and> n = language \<and> accepted s) (projectionHeaders db sn)"
    unfolding languageHeaders_def filter_filter by (rule filter_cong) auto
  have paths: "filter accepted (projectionPaths sn projectID language db) = map fst ?hs"
    by (simp add: projectionPaths_def filter_map o_def)
  have meaning: "rp_ProjectID p = projectID \<and> md_Name (rp_Metadata p) = language \<and> accepted (rp_SourcePath p)
      \<longleftrightarrow> (case h of (s, i, n, v) \<Rightarrow> i = projectID \<and> n = language \<and> accepted s)"
    if "readProjection u db sn h = Inr p" for h p
    using that by (cases h) (auto simp: readProjection_def Let_def split: if_splits)
  have "mapRes (readProjection u db sn) ?hs = Inr (languageProjections projectID language accepted projections)"
    unfolding hs languageProjections_def using assms(2) meaning unfolding readProjections_def by (rule mapRes_filter)
  then show ?thesis unfolding paths using read_headers[OF languageHeaders_ascending[OF assms(1)], of ?hs] by simp
qed

lemma mapRes_after: "mapRes f xs = Inr ys \<Longrightarrow> mapRes (\<lambda>x. res_map g (f x)) xs = Inr (map g ys)"
  by (auto simp: mapRes_Inr list_all2_map2 elim!: list_all2_mono)

text \<open>C17: Reading the projections of a project and language in pages of 128, from any source on, visits
  exactly the projections an unpaged read of the snapshot gives, in the order of their paths, and ends.\<close>

theorem paged_projections_are_all:
  assumes "wf_store db" "snap_Workspace sn \<noteq> ''''" "snap_Version sn \<noteq> 0" "projectID \<noteq> ''''" "language \<noteq> ''''"
    "readProjections u db sn = Inr projections"
  shows "visitPages (\<lambda>after. ResolverProjectionPage u db sn \<lparr>rpq_ProjectID = projectID, rpq_Language = language,
        rpq_AfterSourcePath = after, rpq_Limit = resolverProjectionPageSize\<rparr>) rp_SourcePath visit after st
    = Some (fold_res visit (languageProjections projectID language (\<lambda>p. after < p) projections) st)"
  by (rule projection_pages.visit_from) (use assms read_accepted[OF assms(1,6)] in \<open>simp_all add: readableSnapshot_def\<close>)

lemma single_example:
  assumes "validRequest (requestOf c)" "c_metadata c = \<lparr>md_Name = ''go'', md_Version = ''1'', md_Extensions = [''.go'']\<rparr>"
  shows "\<exists>sn db. publish sample_config [0] 30 (requestOf c) emptyDatabase = Inr (sn, db) \<and> wf_store db
    \<and> snap_Workspace sn \<noteq> '''' \<and> snap_Version sn \<noteq> 0 \<and> readProjections asciiTables db sn = Inr [projectionOf c]"
proof -
  obtain sn db where pub: "publish sample_config [0] 30 (requestOf c) emptyDatabase = Inr (sn, db)" using single_publish[OF assms(1)] by blast
  have wf: "wf_store db" by (rule publish_wf[OF wf_empty sample_limit requestOf_schedule pub])
  have "sn = \<lparr>snap_Workspace = pub_Workspace (requestOf c),
      snap_Version = currentVersion emptyDatabase (pub_Workspace (requestOf c)) + 1, snap_PublishedAt = 30\<rparr>"
    using pub unfolding publish_outcome[OF wf_empty sample_limit requestOf_schedule refl] by (auto split: if_splits)
  then have "snap_Workspace sn \<noteq> ''''" "snap_Version sn \<noteq> 0" by simp_all
  then show ?thesis using pub single_read[OF pub assms(2)] wf by metis
qed

lemma roundtrip_example:
  "\<exists>sn db p. publish sample_config [0] 30 roundtrip_request emptyDatabase = Inr (sn, db) \<and> wf_store db
    \<and> snap_Workspace sn \<noteq> '''' \<and> snap_Version sn \<noteq> 0 \<and> readProjections asciiTables db sn = Inr [p]"
proof -
  let ?c = "sample_contribution ''a'' [sample_node ''n'' ''file'']"
  have "validRequest (requestOf ?c)" "c_metadata ?c = \<lparr>md_Name = ''go'', md_Version = ''1'', md_Extensions = [''.go'']\<rparr>"
    by (simp_all add: validRequest_def sample_contribution_def)
  from single_example[OF this] show ?thesis unfolding roundtrip_request_def by metis
qed

theorem paged_projections_are_all_witness:
  "\<exists>sn db p. publish sample_config [0] 30 roundtrip_request emptyDatabase = Inr (sn, db)
    \<and> visitPages (\<lambda>after. ResolverProjectionPage asciiTables db sn \<lparr>rpq_ProjectID = ''p'', rpq_Language = ''go'',
        rpq_AfterSourcePath = after, rpq_Limit = resolverProjectionPageSize\<rparr>) rp_SourcePath (\<lambda>p n. Inr (n + 1)) '''' (0 :: nat)
      = Some (fold_res (\<lambda>p n. Inr (n + 1)) (languageProjections ''p'' ''go'' (\<lambda>p. '''' < p) [p]) 0)"
proof -
  obtain sn db p where pub: "publish sample_config [0] 30 roundtrip_request emptyDatabase = Inr (sn, db)" and wf: "wf_store db"
    and sn: "snap_Workspace sn \<noteq> ''''" "snap_Version sn \<noteq> 0" and ps: "readProjections asciiTables db sn = Inr [p]"
    using roundtrip_example by blast
  have names: "''p'' \<noteq> ''''" "''go'' \<noteq> ''''" by simp_all
  show ?thesis by (intro exI conjI) (rule pub, rule paged_projections_are_all[OF wf sn names ps])
qed

text \<open>C18: Reading a package in pages of 128 visits exactly the contributions of the project and language whose
  source path the filter of the package accepts, once each and in the order of their paths, and ends.\<close>

theorem paged_package_is_filtered:
  assumes "wf_store db" "snap_Workspace sn \<noteq> ''''" "snap_Version sn \<noteq> 0" "projectID \<noteq> ''''" "language \<noteq> ''''" "packagePath \<noteq> ''''"
    "readProjections u db sn = Inr projections"
  shows "visitPages (\<lambda>after. ResolverPackagePage u db sn \<lparr>rpp_ProjectID = projectID, rpp_Language = language, rpp_PackagePath = packagePath,
        rpp_AfterSourcePath = after, rpp_Limit = resolverPackagePageSize\<rparr>) rt_SourcePath visit after st
    = Some (fold_res visit (map (targetOf projectID)
        (languageProjections projectID language (\<lambda>p. packageFilter packagePath p \<and> after < p) projections)) st)"
proof (rule package_pages.visit_from)
  have "filter (\<lambda>p. after < p) (packagePathsOf sn projectID language packagePath db)
      = filter (\<lambda>p. packageFilter packagePath p \<and> after < p) (projectionPaths sn projectID language db)"
    by (simp add: packagePathsOf_def conj_commute)
  then show "mapRes (readPackageTarget u sn projectID language db) (filter (\<lambda>p. after < p) (packagePathsOf sn projectID language packagePath db))
      = Inr (map (targetOf projectID) (languageProjections projectID language (\<lambda>p. packageFilter packagePath p \<and> after < p) projections))"
    using mapRes_after[OF read_accepted[OF assms(1,7)]] by (simp add: readPackageTarget_def[abs_def])
qed (use assms in \<open>simp add: readableSnapshot_def\<close>)

theorem paged_package_is_filtered_witness:
  "\<exists>sn db p. publish sample_config [0] 30 roundtrip_request emptyDatabase = Inr (sn, db)
    \<and> visitPages (\<lambda>after. ResolverPackagePage asciiTables db sn \<lparr>rpp_ProjectID = ''p'', rpp_Language = ''go'', rpp_PackagePath = ''.'',
        rpp_AfterSourcePath = after, rpp_Limit = resolverPackagePageSize\<rparr>) rt_SourcePath (\<lambda>p n. Inr (n + 1)) '''' (0 :: nat)
      = Some (fold_res (\<lambda>p n. Inr (n + 1)) (map (targetOf ''p'')
          (languageProjections ''p'' ''go'' (\<lambda>p. packageFilter ''.'' p \<and> '''' < p) [p])) 0)"
proof -
  obtain sn db p where pub: "publish sample_config [0] 30 roundtrip_request emptyDatabase = Inr (sn, db)" and wf: "wf_store db"
    and sn: "snap_Workspace sn \<noteq> ''''" "snap_Version sn \<noteq> 0" and ps: "readProjections asciiTables db sn = Inr [p]"
    using roundtrip_example by blast
  have names: "''p'' \<noteq> ''''" "''go'' \<noteq> ''''" "''.'' \<noteq> ''''" by simp_all
  show ?thesis by (intro exI conjI) (rule pub, rule paged_package_is_filtered[OF wf sn names ps])
qed

text \<open>What the filter accepts, for paths in ASCII.\<close>

definition likeByte :: "char \<Rightarrow> char \<Rightarrow> bool" where
  "likeByte p c \<longleftrightarrow> [p] = wildcardOne \<or> foldASCII [p] = foldASCII [c]"

lemma likeMatch_prefix:
  "list_all (\<lambda>c. [c] \<noteq> wildcardAny) p \<Longrightarrow> likeMatch (map (\<lambda>c. [c]) p @ [wildcardAny]) (map (\<lambda>c. [c]) s)
    \<longleftrightarrow> (\<exists>dir rest. s = dir @ rest \<and> list_all2 likeByte p dir)"
proof (induction p arbitrary: s)
  case Nil
  show ?case by (simp add: likeMatch_any)
next
  case (Cons b p)
  then show ?case
    by (cases s) (auto simp: likeMatch.simps(2) likeByte_def list_all2_Cons1 Cons_eq_append_conv split: list.splits)
qed

lemma likeByte_slash: "likeByte slash c \<longleftrightarrow> c = slash"
proof -
  have letter: "char_of (byte c + 32) \<noteq> slash" if "asciiUpper (byte c)"
  proof
    assume "char_of (byte c + 32) = slash"
    then have "of_char (char_of (byte c + 32) :: char) = (of_char slash :: nat)" by (rule arg_cong)
    then have "(byte c + 32) mod 256 = 47" by simp
    with that show False by (simp add: asciiUpper_def)
  qed
  have "\<not> asciiUpper (byte slash)" by (simp add: asciiUpper_def byte_def)
  with letter show ?thesis by (auto simp: likeByte_def wildcardOne_def foldASCII_def)
qed

lemma likeByte_prefix:
  "list_all2 likeByte (p @ [slash]) dir \<longleftrightarrow> (\<exists>d. dir = d @ [slash] \<and> list_all2 likeByte p d)"
  by (auto simp: list_all2_append1 list_all2_Cons1 likeByte_slash) (metis list_all2_lengthD)

text \<open>The filter of a package other than the root accepts exactly the ASCII paths of files directly inside a
  directory that agrees with the package byte by byte, where an underscore of the package agrees with
  any byte and letters agree in either case.  A percent sign in the package is excluded.\<close>

theorem package_filter_exact:
  assumes "packagePath \<noteq> ''.''" "list_all (\<lambda>c. byte c < 128 \<and> [c] \<noteq> wildcardAny) packagePath" "list_all (\<lambda>c. byte c < 128) sourcePath"
  shows "packageFilter packagePath sourcePath \<longleftrightarrow>
    (\<exists>dir name. sourcePath = dir @ [slash] @ name \<and> slash \<notin> set name \<and> list_all2 likeByte packagePath dir)"
proof -
  have segs: "segments (packagePath @ [slash]) = map (\<lambda>c. [c]) (packagePath @ [slash])" "segments sourcePath = map (\<lambda>c. [c]) sourcePath"
    using assms(2,3) by (intro ascii_segments; simp add: list_all_iff byte_def)+
  have plain: "list_all (\<lambda>c. [c] \<noteq> wildcardAny) (packagePath @ [slash])" using assms(2) by (simp add: list_all_iff wildcardAny_def)
  have rest: "concat (drop n (map (\<lambda>c. [c]) s)) = drop n s" for n and s :: string by (simp add: drop_map)
  have "packageFilter packagePath sourcePath \<longleftrightarrow>
      (\<exists>dir rest. sourcePath = dir @ rest \<and> list_all2 likeByte (packagePath @ [slash]) dir)
      \<and> slash \<notin> set (drop (length (packagePath @ [slash])) sourcePath)"
    unfolding packageFilter_def segs Let_def likeMatch_prefix[OF plain] rest length_map using assms(1) by simp
  also have "\<dots> \<longleftrightarrow> (\<exists>dir name. sourcePath = dir @ [slash] @ name \<and> slash \<notin> set name \<and> list_all2 likeByte packagePath dir)"
  proof -
    have "drop (length (packagePath @ [slash])) (d @ [slash] @ name) = name" if "list_all2 likeByte packagePath d" for d name
      using list_all2_lengthD[OF that] by simp
    note tail = this
    show ?thesis
    proof
      assume l: "(\<exists>dir rest. sourcePath = dir @ rest \<and> list_all2 likeByte (packagePath @ [slash]) dir)
        \<and> slash \<notin> set (drop (length (packagePath @ [slash])) sourcePath)"
      then obtain d name where path: "sourcePath = d @ [slash] @ name" and d: "list_all2 likeByte packagePath d"
        unfolding likeByte_prefix by force
      have "slash \<notin> set name" using conjunct2[OF l] unfolding path tail[OF d] .
      with path d show "\<exists>dir name. sourcePath = dir @ [slash] @ name \<and> slash \<notin> set name \<and> list_all2 likeByte packagePath dir" by blast
    next
      assume "\<exists>dir name. sourcePath = dir @ [slash] @ name \<and> slash \<notin> set name \<and> list_all2 likeByte packagePath dir"
      then obtain d name where path: "sourcePath = d @ [slash] @ name" and name: "slash \<notin> set name" and d: "list_all2 likeByte packagePath d"
        by blast
      have "sourcePath = (d @ [slash]) @ name" using path by simp
      moreover have "list_all2 likeByte (packagePath @ [slash]) (d @ [slash])" using d unfolding likeByte_prefix by blast
      moreover have "slash \<notin> set (drop (length (packagePath @ [slash])) sourcePath)" unfolding path tail[OF d] by (rule name)
      ultimately show "(\<exists>dir rest. sourcePath = dir @ rest \<and> list_all2 likeByte (packagePath @ [slash]) dir)
        \<and> slash \<notin> set (drop (length (packagePath @ [slash])) sourcePath)" by blast
    qed
  qed
  finally show ?thesis .
qed

theorem package_filter_exact_witness:
  "packageFilter ''my_pkg'' ''myxpkg/a.go'' \<and> packageFilter ''lib'' ''LIB/a.go''"
proof
  have "''myxpkg/a.go'' = ''myxpkg'' @ [slash] @ ''a.go''" "slash \<notin> set ''a.go''" "list_all2 likeByte ''my_pkg'' ''myxpkg''"
    by (simp_all add: likeByte_def wildcardOne_def)
  then show "packageFilter ''my_pkg'' ''myxpkg/a.go''"
    by (subst package_filter_exact) (simp add: byte_def wildcardAny_def, simp add: byte_def wildcardAny_def, simp add: byte_def, blast)
  have "''LIB/a.go'' = ''LIB'' @ [slash] @ ''a.go''" "slash \<notin> set ''a.go''" "list_all2 likeByte ''lib'' ''LIB''"
    by (simp_all add: likeByte_def foldASCII_def asciiUpper_def byte_def) (simp add: char_of_def bit_0)
  then show "packageFilter ''lib'' ''LIB/a.go''"
    by (subst package_filter_exact) (simp add: byte_def wildcardAny_def, simp add: byte_def wildcardAny_def, simp add: byte_def, blast)
qed

end
