(* ===== verification/GoResolver.thy ===== *)
theory GoResolver
  imports Pages
begin

text \<open>
  The resolver of Go sources (extractors/go/resolver.go): the packages of a project by the modules of its go.mod and
  go.work files, and the import, call, implements and embeds edges between the contributions of a page, or of a
  whole project, and the packages they import.  Parsing a module file and the quoting of fmt are parameters.
  A map from identifiers to nodes is a list with one node for every identifier; where the code ranges over
  a map, the order is a parameter.  Edges are sorted by source and target; the order Go leaves open among equal
  pairs is the order of insertion here.
\<close>

subsection \<open>Paths and strings\<close>

text \<open>strings.Cut at one byte, path.Base, path.Dir, path.Join.\<close>

definition Cut :: "char \<Rightarrow> string \<Rightarrow> (string \<times> string) option" where
  "Cut sep s = (if sep \<in> set s then Some (takeWhile (\<lambda>c. c \<noteq> sep) s, tl (dropWhile (\<lambda>c. c \<noteq> sep) s)) else None)"

definition Base :: "string \<Rightarrow> string" where
  "Base p = (if p = '''' then ''.'' else
     let stripped = rev (dropWhile (\<lambda>c. c = slash) (rev p)); base = lastElem stripped in if base = '''' then ''/'' else base)"

definition Dir :: "string \<Rightarrow> string" where
  "Dir p = Clean (rev (dropWhile (\<lambda>c. c \<noteq> slash) (rev p)))"

definition Join :: "string list \<Rightarrow> string" where
  "Join es = (let present = filter (\<lambda>e. e \<noteq> '''') es in if present = [] then '''' else Clean (join [slash] present))"

subsection \<open>Computations that may fail or not end\<close>

fun bindO :: "('e + 'a) option \<Rightarrow> ('a \<Rightarrow> ('e + 'b) option) \<Rightarrow> ('e + 'b) option" where
  "bindO None k = None"
| "bindO (Some (Inl e)) k = Some (Inl e)"
| "bindO (Some (Inr x)) k = k x"

fun foldO :: "('a \<Rightarrow> 's \<Rightarrow> ('e + 's) option) \<Rightarrow> 'a list \<Rightarrow> 's \<Rightarrow> ('e + 's) option" where
  "foldO f [] s = Some (Inr s)"
| "foldO f (x # xs) s = bindO (f x s) (foldO f xs)"

subsection \<open>Kinds and relations\<close>

definition PackageNodeKind :: NodeKind where "PackageNodeKind = ''go:package''"
definition TypeNodeKind :: NodeKind where "TypeNodeKind = ''go:type''"
definition StructNodeKind :: NodeKind where "StructNodeKind = ''go:struct''"
definition InterfaceNodeKind :: NodeKind where "InterfaceNodeKind = ''go:interface''"
definition TypeAliasNodeKind :: NodeKind where "TypeAliasNodeKind = ''go:type_alias''"
definition ConstantNodeKind :: NodeKind where "ConstantNodeKind = ''go:constant''"
definition FunctionNodeKind :: NodeKind where "FunctionNodeKind = ''go:function''"
definition MethodNodeKind :: NodeKind where "MethodNodeKind = ''go:method''"
definition VariableNodeKind :: NodeKind where "VariableNodeKind = ''go:variable''"
definition fileKind :: NodeKind where "fileKind = ''file''"

lemmas goKinds = PackageNodeKind_def TypeNodeKind_def StructNodeKind_def InterfaceNodeKind_def TypeAliasNodeKind_def
  ConstantNodeKind_def FunctionNodeKind_def MethodNodeKind_def VariableNodeKind_def fileKind_def

definition ImportsFromRelation :: RelationKind where "ImportsFromRelation = ''go:imports_from''"
definition ImplementsRelation :: RelationKind where "ImplementsRelation = ''go:implements''"
definition EmbedsRelation :: RelationKind where "EmbedsRelation = ''go:embeds''"
definition CallsRelation :: RelationKind where "CallsRelation = ''go:calls''"

lemmas goRelations = ImportsFromRelation_def ImplementsRelation_def EmbedsRelation_def CallsRelation_def

definition resolverNodeKinds :: "NodeKind list" where
  "resolverNodeKinds = [TypeNodeKind, StructNodeKind, InterfaceNodeKind, TypeAliasNodeKind, ConstantNodeKind, FunctionNodeKind,
     MethodNodeKind, VariableNodeKind]"

definition endpointRule :: "NodeKind \<Rightarrow> NodeKind \<Rightarrow> EndpointRule" where
  "endpointRule source target = \<lparr>rule_Source = source, rule_Target = target\<rparr>"

definition ResolverVocabulary :: "ValidationError + Vocabulary" where
  "ResolverVocabulary = NewVocabulary
    \<lparr>def_NodeKinds = fileKind # resolverNodeKinds,
     def_Relations =
      [\<lparr>rel_Kind = ImportsFromRelation, rel_Endpoints = endpointRule fileKind fileKind # map (endpointRule fileKind) resolverNodeKinds\<rparr>,
       \<lparr>rel_Kind = ImplementsRelation, rel_Endpoints = [endpointRule TypeNodeKind InterfaceNodeKind, endpointRule StructNodeKind InterfaceNodeKind]\<rparr>,
       \<lparr>rel_Kind = EmbedsRelation, rel_Endpoints = [endpointRule InterfaceNodeKind InterfaceNodeKind]\<rparr>,
       \<lparr>rel_Kind = CallsRelation, rel_Endpoints =
         [endpointRule FunctionNodeKind FunctionNodeKind, endpointRule FunctionNodeKind MethodNodeKind, endpointRule FunctionNodeKind VariableNodeKind,
          endpointRule MethodNodeKind FunctionNodeKind, endpointRule MethodNodeKind MethodNodeKind, endpointRule MethodNodeKind VariableNodeKind]\<rparr>]\<rparr>"

definition isResolverNodeKind :: "NodeKind \<Rightarrow> bool" where
  "isResolverNodeKind kind \<longleftrightarrow> kind \<in> set (fileKind # resolverNodeKinds)"

definition isImplementationNodeKind :: "NodeKind \<Rightarrow> bool" where
  "isImplementationNodeKind kind \<longleftrightarrow> kind = TypeNodeKind \<or> kind = StructNodeKind"

definition callableKind :: "NodeKind \<Rightarrow> bool" where
  "callableKind kind \<longleftrightarrow> kind = FunctionNodeKind \<or> kind = MethodNodeKind"

definition packageName :: "Node list \<Rightarrow> string" where
  "packageName nodes = (case find (\<lambda>n. node_Kind n = PackageNodeKind) nodes of None \<Rightarrow> '''' | Some n \<Rightarrow> node_Label n)"

definition packageNameForNodes :: "Node list \<Rightarrow> string" where
  "packageNameForNodes nodes = (case find (\<lambda>n. node_Kind n = PackageNodeKind) nodes of None \<Rightarrow> '''' | Some n \<Rightarrow> node_Label n)"

definition targetFile :: "Node list \<Rightarrow> Node option" where
  "targetFile nodes = find (\<lambda>n. node_Kind n = fileKind) nodes"

definition fileFact :: "Contribution \<Rightarrow> Node option" where
  "fileFact contribution = find (\<lambda>n. node_Kind n = fileKind) (facts_Nodes (c_facts contribution))"

definition receiverTypeFromQualifiedName :: "string \<Rightarrow> string" where
  "receiverTypeFromQualifiedName qualifiedName =
    (let parts = splitOn (CHR ''.'') qualifiedName in if length parts < 3 then '''' else parts ! (length parts - 2))"

definition implementsAll :: "string set \<Rightarrow> SymbolReference list \<Rightarrow> bool" where
  "implementsAll methods requirements \<longleftrightarrow> requirements \<noteq> [] \<and> list_all (\<lambda>r. sr_Target r \<in> methods) requirements"

definition relationReferences :: "SymbolReference list \<Rightarrow> RelationKind \<Rightarrow> SymbolReference list" where
  "relationReferences references relation = filter (\<lambda>r. sr_Relation r = relation) references"

definition relationReferencesForSource :: "SymbolReference list \<Rightarrow> string \<Rightarrow> RelationKind \<Rightarrow> SymbolReference list" where
  "relationReferencesForSource references sourceID relation = filter (\<lambda>r. sr_SourceID r = sourceID \<and> sr_Relation r = relation) references"

definition callableTargetSurface :: "string \<Rightarrow> Node list \<Rightarrow> bool" where
  "callableTargetSurface nodeID nodes = (case find (\<lambda>n. node_ID n = nodeID) nodes of None \<Rightarrow> False | Some n \<Rightarrow> callableKind (node_Kind n))"

definition callableSurface :: "string \<Rightarrow> Contribution list \<Rightarrow> bool" where
  "callableSurface nodeID contributions = callableTargetSurface nodeID (concat (map (\<lambda>c. facts_Nodes (c_facts c)) contributions))"

definition wildcardBinding :: string where "wildcardBinding = ''*''"

definition importHasLocalBinding :: "UnresolvedReference \<Rightarrow> string \<Rightarrow> bool" where
  "importHasLocalBinding reference localName \<longleftrightarrow>
     list_ex (\<lambda>b. mb_ImportedName b = wildcardBinding \<and> mb_LocalName b = localName) (ur_Bindings reference)"

definition importMatchesPackage :: "UnresolvedReference \<Rightarrow> string \<Rightarrow> string \<Rightarrow> bool" where
  "importMatchesPackage reference localName targetPackageName \<longleftrightarrow>
     importHasLocalBinding reference localName \<or> ur_Bindings reference = [] \<and> localName = targetPackageName"

subsection \<open>Modules\<close>

text \<open>What the code reads of a parsed module file: the module path, if there is a module statement, and the
  replacements with old path, new path and new version.\<close>

record ModFile =
  mf_Module :: "string option"
  mf_Replace :: "(string \<times> string \<times> string) list"

record modfile =
  Parse :: "string \<Rightarrow> string \<Rightarrow> ModFile option"
  ParseWork :: "string \<Rightarrow> string list option"

record goModuleMapping =
  gm_path :: string
  gm_directory :: string

definition localModuleDirectory :: "string \<Rightarrow> string option" where
  "localModuleDirectory value =
    (let directory = Clean (TrimSpace value) in
     if directory = ''.'' then Some directory
     else if isAbs directory \<or> directory = ''..'' \<or> hasPrefix directory ''../'' then None
     else Some directory)"

definition addModuleFile :: "modfile \<Rightarrow> string \<Rightarrow> string \<Rightarrow> string \<Rightarrow> goModuleMapping list \<Rightarrow> goModuleMapping list" where
  "addModuleFile parser filePath contents directory mappings =
    (case Parse parser filePath contents of None \<Rightarrow> mappings
     | Some parsed \<Rightarrow> (case mf_Module parsed of None \<Rightarrow> mappings
        | Some modulePath \<Rightarrow> mappings @ [\<lparr>gm_path = modulePath, gm_directory = directory\<rparr>]
            @ concat (map (\<lambda>(oldPath, newPath, newVersion). case localModuleDirectory newPath of
                 None \<Rightarrow> []
               | Some replacementDirectory \<Rightarrow> if newVersion \<noteq> '''' then []
                   else [\<lparr>gm_path = oldPath, gm_directory = Join [directory, replacementDirectory]\<rparr>]) (mf_Replace parsed))))"

definition addWorkspaceModule :: "modfile \<Rightarrow> string \<Rightarrow> string \<Rightarrow> string \<Rightarrow> goModuleMapping list \<Rightarrow> goModuleMapping list" where
  "addWorkspaceModule parser filePath contents directory mappings =
    (case Parse parser filePath contents of None \<Rightarrow> mappings
     | Some parsed \<Rightarrow> (case mf_Module parsed of None \<Rightarrow> mappings
        | Some modulePath \<Rightarrow> mappings @ [\<lparr>gm_path = modulePath, gm_directory = directory\<rparr>]))"

definition addUse :: "modfile \<Rightarrow> ResolverFileView \<Rightarrow> string \<Rightarrow> goModuleMapping list \<Rightarrow> goModuleMapping list" where
  "addUse parser view usePath mappings =
    (case localModuleDirectory usePath of None \<Rightarrow> mappings
     | Some directory \<Rightarrow> (case viewFile view (Join [directory, ''go.mod'']) of None \<Rightarrow> mappings
        | Some contents \<Rightarrow> addWorkspaceModule parser (Join [directory, ''go.mod'']) contents directory mappings))"

definition newGoModuleResolver :: "modfile \<Rightarrow> ResolverFileView \<Rightarrow> goModuleMapping list" where
  "newGoModuleResolver parser view =
    (let mappings = (case viewFile view ''go.mod'' of None \<Rightarrow> [] | Some contents \<Rightarrow> addModuleFile parser ''go.mod'' contents ''.'' []) in
     case viewFile view ''go.work'' of None \<Rightarrow> mappings
     | Some workContents \<Rightarrow> (case ParseWork parser workContents of None \<Rightarrow> mappings
        | Some uses \<Rightarrow> fold (addUse parser view) uses mappings))"

definition mappingApplies :: "string \<Rightarrow> goModuleMapping \<Rightarrow> bool" where
  "mappingApplies importPath mapping \<longleftrightarrow> importPath = gm_path mapping \<or> hasPrefix importPath (gm_path mapping @ [slash])"

definition betterMapping :: "string \<Rightarrow> goModuleMapping \<Rightarrow> goModuleMapping option \<Rightarrow> goModuleMapping option" where
  "betterMapping importPath mapping best =
    (if \<not> mappingApplies importPath mapping then best
     else case best of None \<Rightarrow> Some mapping
     | Some b \<Rightarrow> if length (gm_path mapping) > length (gm_path b) then Some mapping else best)"

definition packagePath :: "goModuleMapping list \<Rightarrow> string \<Rightarrow> string option" where
  "packagePath mappings importPath =
    (case fold (betterMapping importPath) mappings None of None \<Rightarrow> None
     | Some best \<Rightarrow> if importPath = gm_path best then Some (gm_directory best)
         else Some (Join [gm_directory best, drop (length (gm_path best @ [slash])) importPath]))"

lemma bestMapping:
  "fold (betterMapping importPath) mappings best = Some m \<Longrightarrow>
    (best = Some m \<or> m \<in> set mappings \<and> mappingApplies importPath m)
    \<and> (\<forall>k\<in>set mappings. mappingApplies importPath k \<longrightarrow> length (gm_path k) \<le> length (gm_path m))
    \<and> (\<forall>b. best = Some b \<longrightarrow> length (gm_path b) \<le> length (gm_path m))"
proof (induction mappings arbitrary: best)
  case (Cons k mappings)
  from Cons.IH[of "betterMapping importPath k best"] Cons.prems show ?case
    by (cases best; cases "mappingApplies importPath k") (auto simp: betterMapping_def split: if_splits)
qed simp

lemma bestMapping_None: "fold (betterMapping importPath) mappings best = None \<longleftrightarrow> best = None \<and> (\<forall>k\<in>set mappings. \<not> mappingApplies importPath k)"
  by (induction mappings arbitrary: best) (auto simp: betterMapping_def split: option.splits)

lemma applies_same_length:
  "mappingApplies importPath k \<Longrightarrow> mappingApplies importPath m \<Longrightarrow> length (gm_path k) = length (gm_path m) \<Longrightarrow> gm_path k = gm_path m"
  unfolding mappingApplies_def hasPrefix_def by (auto simp: prefix_def) (metis append_eq_append_conv append.assoc)+

text \<open>An import path belongs to the project exactly when some module path equals it or is a prefix of it at a
  slash, and it is placed by the longest such module path: below the directory of that module.\<close>

theorem package_path_is_longest_prefix:
  "(packagePath mappings importPath = None \<longleftrightarrow> (\<forall>m\<in>set mappings. \<not> mappingApplies importPath m))
    \<and> (\<forall>directory. packagePath mappings importPath = Some directory \<longrightarrow>
        (\<exists>m\<in>set mappings. mappingApplies importPath m
          \<and> (\<forall>k\<in>set mappings. mappingApplies importPath k \<longrightarrow> length (gm_path k) < length (gm_path m) \<or> gm_path k = gm_path m)
          \<and> directory = (if importPath = gm_path m then gm_directory m
              else Join [gm_directory m, drop (length (gm_path m) + 1) importPath])))"
proof (intro conjI allI impI)
  show "packagePath mappings importPath = None \<longleftrightarrow> (\<forall>m\<in>set mappings. \<not> mappingApplies importPath m)"
    using bestMapping_None[of importPath mappings None] by (auto simp: packagePath_def split: option.splits)
next
  fix directory assume dir: "packagePath mappings importPath = Some directory"
  then obtain m where m: "fold (betterMapping importPath) mappings None = Some m" by (auto simp: packagePath_def split: option.splits)
  note best = bestMapping[OF m]
  then have in_set: "m \<in> set mappings" "mappingApplies importPath m" by simp_all
  moreover have "length (gm_path k) < length (gm_path m) \<or> gm_path k = gm_path m" if "k \<in> set mappings" "mappingApplies importPath k" for k
    using best that applies_same_length[OF that(2) in_set(2)] by (meson le_neq_implies_less)
  ultimately show "\<exists>m\<in>set mappings. mappingApplies importPath m
      \<and> (\<forall>k\<in>set mappings. mappingApplies importPath k \<longrightarrow> length (gm_path k) < length (gm_path m) \<or> gm_path k = gm_path m)
      \<and> directory = (if importPath = gm_path m then gm_directory m
          else Join [gm_directory m, drop (length (gm_path m) + 1) importPath])"
    using dir by (intro bexI[of _ m]) (auto simp: packagePath_def m split: if_splits)
qed

theorem package_path_is_longest_prefix_witness:
  "packagePath [\<lparr>gm_path = ''m'', gm_directory = ''.''\<rparr>, \<lparr>gm_path = ''m/s'', gm_directory = ''lib''\<rparr>] ''m/s''
    \<in> {Some (gm_directory m) | m. m \<in> {\<lparr>gm_path = ''m'', gm_directory = ''.''\<rparr>, \<lparr>gm_path = ''m/s'', gm_directory = ''lib''\<rparr>} \<and> gm_path m = ''m/s''}"
proof -
  let ?ms = "[\<lparr>gm_path = ''m'', gm_directory = ''.''\<rparr>, \<lparr>gm_path = ''m/s'', gm_directory = ''lib''\<rparr>]"
  note exact = package_path_is_longest_prefix[of ?ms "''m/s''"]
  have "\<not> (\<forall>m\<in>set ?ms. \<not> mappingApplies ''m/s'' m)" by (simp add: mappingApplies_def)
  then obtain directory where d: "packagePath ?ms ''m/s'' = Some directory" using exact by blast
  then obtain m where m: "m \<in> set ?ms" "\<forall>k\<in>set ?ms. mappingApplies ''m/s'' k \<longrightarrow> length (gm_path k) < length (gm_path m) \<or> gm_path k = gm_path m"
    "directory = (if ''m/s'' = gm_path m then gm_directory m else Join [gm_directory m, drop (length (gm_path m) + 1) ''m/s''])"
    using exact by blast
  have "mappingApplies ''m/s'' \<lparr>gm_path = ''m/s'', gm_directory = ''lib''\<rparr>" by (simp add: mappingApplies_def)
  then have "gm_path m = ''m/s''" using m(1,2) by auto
  then show ?thesis using d m(1,3) by auto
qed

subsection \<open>Resolutions\<close>

record Resolution =
  rn_facts :: Facts
  rn_diagnostics :: "Diagnostic list"

datatype 'e ResolveError =
    ProjectRequired
  | FileFactRequired string
  | PackageRead string 'e
  | InvalidVocabulary ValidationError
  | InvalidResolution ValidationError

text \<open>The nodes, edges and diagnostics collected so far.\<close>

record pageState =
  pg_nodes :: "Node list"
  pg_edges :: "Edge list"
  pg_diagnostics :: "Diagnostic list"

definition putNode :: "Node \<Rightarrow> Node list \<Rightarrow> Node list" where
  "putNode n nodes = (if node_ID n \<in> node_ID ` set nodes then map (\<lambda>k. if node_ID k = node_ID n then n else k) nodes else nodes @ [n])"

definition putResolverNodes :: "Node list \<Rightarrow> pageState \<Rightarrow> pageState" where
  "putResolverNodes new st = st\<lparr>pg_nodes := fold putNode (filter (\<lambda>n. isResolverNodeKind (node_Kind n)) new) (pg_nodes st)\<rparr>"

definition addEdges :: "Edge list \<Rightarrow> pageState \<Rightarrow> pageState" where
  "addEdges new st = st\<lparr>pg_edges := pg_edges st @ new\<rparr>"

definition warn :: "string \<Rightarrow> pageState \<Rightarrow> pageState" where
  "warn message st = st\<lparr>pg_diagnostics := pg_diagnostics st @ [\<lparr>dg_Severity = DiagnosticWarning, dg_Message = message\<rparr>]\<rparr>"

definition notIndexedWarning :: "(string \<Rightarrow> string) \<Rightarrow> string \<Rightarrow> string \<Rightarrow> string" where
  "notIndexedWarning quoting target sourcePath = ''Go package '' @ quoting target @ '' from '' @ quoting sourcePath @ '' is not indexed''"

definition unsupportedCallWarning :: "(string \<Rightarrow> string) \<Rightarrow> string \<Rightarrow> string \<Rightarrow> string" where
  "unsupportedCallWarning quoting target sourcePath =
     ''Go call '' @ quoting target @ '' from '' @ quoting sourcePath @ '' is unsupported or ambiguous''"

definition edgeOf :: "string \<Rightarrow> string \<Rightarrow> RelationKind \<Rightarrow> FactEvidence \<Rightarrow> Edge" where
  "edgeOf source target relation evidence = \<lparr>edge_SourceID = source, edge_TargetID = target, edge_Relation = relation, edge_Evidence = evidence\<rparr>"

text \<open>The edges of an import to the file of a target and to its exported surfaces.\<close>

definition importEdges :: "string \<Rightarrow> FactEvidence \<Rightarrow> string \<Rightarrow> ExportedSurface list \<Rightarrow> Edge list" where
  "importEdges source evidence fileID surfaces =
     edgeOf source fileID ImportsFromRelation evidence # map (\<lambda>s. edgeOf source (es_NodeID s) ImportsFromRelation evidence) surfaces"

definition callReferences :: "Contribution \<Rightarrow> SymbolReference list" where
  "callReferences contribution = filter (\<lambda>r. sr_Relation r = CallsRelation) (c_symbolReferences contribution)"

definition appendLocalCallFacts :: "Contribution list \<Rightarrow> pageState \<Rightarrow> pageState" where
  "appendLocalCallFacts contributions =
     addEdges (concat (map (\<lambda>c. filter (\<lambda>e. edge_Relation e = CallsRelation) (facts_Edges (c_facts c))) contributions))"

text \<open>The identifiers of the methods of a receiver type with a label, in the order of the contributions.\<close>

definition methodsByType :: "Contribution list \<Rightarrow> string \<Rightarrow> string \<Rightarrow> string list" where
  "methodsByType contributions receiverType label =
     map node_ID (filter (\<lambda>n. node_Kind n = MethodNodeKind \<and> receiverTypeFromQualifiedName (node_QualifiedName n) = receiverType
         \<and> node_Label n = label) (concat (map (\<lambda>c. facts_Nodes (c_facts c)) contributions)))"

definition importedPackages :: "Contribution \<Rightarrow> string set" where
  "importedPackages contribution = (\<lambda>r. Base (ur_Target r)) ` set (c_unresolvedReferences contribution)
     \<union> {mb_LocalName b | b. b \<in> set (concat (map ur_Bindings (c_unresolvedReferences contribution)))
         \<and> mb_ImportedName b = wildcardBinding \<and> mb_LocalName b \<noteq> ''''}"

definition localMethodCall :: "(string \<Rightarrow> string) \<Rightarrow> Contribution list \<Rightarrow> Contribution \<Rightarrow> SymbolReference \<Rightarrow> pageState \<Rightarrow> pageState" where
  "localMethodCall quoting contributions contribution reference st =
    (case Cut (CHR ''.'') (sr_Target reference) of None \<Rightarrow> st
     | Some (receiver, label) \<Rightarrow>
         if receiver \<in> importedPackages contribution then st
         else let matches = methodsByType contributions (sr_ReceiverType reference) label in
           if sr_ReceiverType reference = '''' \<or> length matches \<noteq> 1
           then warn (unsupportedCallWarning quoting (sr_Target reference) (c_sourcePath contribution)) st
           else addEdges [edgeOf (sr_SourceID reference) (hd matches) CallsRelation (sr_Evidence reference)] st)"

definition appendLocalMethodCallFacts :: "(string \<Rightarrow> string) \<Rightarrow> Contribution list \<Rightarrow> pageState \<Rightarrow> pageState" where
  "appendLocalMethodCallFacts quoting contributions =
     fold (\<lambda>c. fold (localMethodCall quoting contributions c) (callReferences c)) contributions"

subsection \<open>Resolving a page against an index\<close>

definition visitPackageTargets :: "(ResolverPackagePageRequest \<Rightarrow> 'e + ResolverTarget list) \<Rightarrow> string \<Rightarrow> string
    \<Rightarrow> (ResolverTarget \<Rightarrow> 's \<Rightarrow> 'e ResolveError + 's) \<Rightarrow> 's \<Rightarrow> ('e ResolveError + 's) option" where
  "visitPackageTargets index projectID package visit st =
     visitPages (\<lambda>after. res_map_err (PackageRead package) (index \<lparr>rpp_ProjectID = projectID, rpp_Language = ''go'', rpp_PackagePath = package,
       rpp_AfterSourcePath = after, rpp_Limit = resolverPackagePageSize\<rparr>)) rt_SourcePath visit '''' st"

definition visitImport :: "UnresolvedReference \<Rightarrow> FactEvidence \<Rightarrow> ResolverTarget \<Rightarrow> bool \<times> pageState \<Rightarrow> 'e ResolveError + bool \<times> pageState" where
  "visitImport reference evidence target st =
    (case targetFile (rt_Nodes target) of None \<Rightarrow> Inl (FileFactRequired (rt_SourcePath target))
     | Some fileNode \<Rightarrow> Inr (True, addEdges (importEdges (ur_SourceID reference) evidence (node_ID fileNode) (rt_ExportedSurfaces target))
         (putResolverNodes (rt_Nodes target) (snd st))))"

definition resolveImport :: "(string \<Rightarrow> string) \<Rightarrow> (ResolverPackagePageRequest \<Rightarrow> 'e + ResolverTarget list) \<Rightarrow> string \<Rightarrow> goModuleMapping list
    \<Rightarrow> string \<Rightarrow> FactEvidence \<Rightarrow> UnresolvedReference \<Rightarrow> pageState \<Rightarrow> ('e ResolveError + pageState) option" where
  "resolveImport quoting index projectID modules sourcePath evidence reference st =
    (case packagePath modules (ur_Target reference) of None \<Rightarrow> Some (Inr st)
     | Some package \<Rightarrow>
         bindO (visitPackageTargets index projectID package (visitImport reference evidence) (False, st)) (\<lambda>(foundTarget, st).
           Some (Inr (if foundTarget then st else warn (notIndexedWarning quoting (ur_Target reference) sourcePath) st))))"

text \<open>The state of the search for the target of a call: the matches, whether an import matched, whether a package was read.\<close>

record callSearch =
  cs_matches :: "string list"
  cs_matchingImport :: bool
  cs_resolvedPackage :: bool
  cs_page :: pageState

definition visitCallTarget :: "UnresolvedReference \<Rightarrow> string \<Rightarrow> string \<Rightarrow> ResolverTarget \<Rightarrow> callSearch \<Rightarrow> 'e ResolveError + callSearch" where
  "visitCallTarget imported package symbol target s =
    (let s1 = s\<lparr>cs_page := putResolverNodes (rt_Nodes target) (cs_page s)\<rparr> in
     if \<not> importMatchesPackage imported package (packageNameForNodes (rt_Nodes target)) then Inr s1
     else Inr (s1\<lparr>cs_matchingImport := True, cs_resolvedPackage := True,
       cs_matches := cs_matches s1 @ map es_NodeID (filter (\<lambda>e. es_Name e = symbol \<and> callableTargetSurface (es_NodeID e) (rt_Nodes target))
         (rt_ExportedSurfaces target))\<rparr>))"

definition searchImport :: "(ResolverPackagePageRequest \<Rightarrow> 'e + ResolverTarget list) \<Rightarrow> string \<Rightarrow> goModuleMapping list \<Rightarrow> string \<Rightarrow> string
    \<Rightarrow> UnresolvedReference \<Rightarrow> callSearch \<Rightarrow> ('e ResolveError + callSearch) option" where
  "searchImport index projectID modules package symbol imported s =
    (let s1 = s\<lparr>cs_matchingImport := cs_matchingImport s \<or> importHasLocalBinding imported package\<rparr> in
     case packagePath modules (ur_Target imported) of
       None \<Rightarrow> Some (Inr (s1\<lparr>cs_matchingImport := cs_matchingImport s1 \<or> Base (ur_Target imported) = package\<rparr>))
     | Some directory \<Rightarrow> visitPackageTargets index projectID directory (visitCallTarget imported package symbol) s1)"

definition finishCall :: "(string \<Rightarrow> string) \<Rightarrow> string \<Rightarrow> SymbolReference \<Rightarrow> callSearch \<Rightarrow> pageState" where
  "finishCall quoting sourcePath reference s =
    (let unsupported = warn (unsupportedCallWarning quoting (sr_Target reference) sourcePath) (cs_page s) in
     if \<not> cs_matchingImport s then unsupported
     else if \<not> cs_resolvedPackage s then cs_page s
     else if length (cs_matches s) \<noteq> 1 then unsupported
     else addEdges [edgeOf (sr_SourceID reference) (hd (cs_matches s)) CallsRelation (sr_Evidence reference)] (cs_page s))"

definition resolveCall :: "(string \<Rightarrow> string) \<Rightarrow> (ResolverPackagePageRequest \<Rightarrow> 'e + ResolverTarget list) \<Rightarrow> string \<Rightarrow> goModuleMapping list
    \<Rightarrow> Contribution \<Rightarrow> SymbolReference \<Rightarrow> pageState \<Rightarrow> ('e ResolveError + pageState) option" where
  "resolveCall quoting index projectID modules contribution reference st =
    (case Cut (CHR ''.'') (sr_Target reference) of None \<Rightarrow> Some (Inr st)
     | Some (package, symbol) \<Rightarrow>
         bindO (foldO (searchImport index projectID modules package symbol) (c_unresolvedReferences contribution)
             \<lparr>cs_matches = [], cs_matchingImport = False, cs_resolvedPackage = False, cs_page = st\<rparr>) (\<lambda>s.
           Some (Inr (finishCall quoting (c_sourcePath contribution) reference s))))"

text \<open>A call through the name of an imported package also gets an edge to every method of that label in any imported package.\<close>

definition visitMethod :: "string \<Rightarrow> SymbolReference \<Rightarrow> ResolverTarget \<Rightarrow> string list \<times> pageState \<Rightarrow> 'e ResolveError + string list \<times> pageState" where
  "visitMethod label reference target s =
    Inr (fold (\<lambda>n (seen, st).
        if node_Kind n \<noteq> MethodNodeKind \<or> node_Label n \<noteq> label \<or> node_ID n \<in> set seen then (seen, st)
        else (node_ID n # seen, addEdges [edgeOf (sr_SourceID reference) (node_ID n) CallsRelation (sr_Evidence reference)] st))
      (rt_Nodes target) s)"

definition importedMethodCall :: "(ResolverPackagePageRequest \<Rightarrow> 'e + ResolverTarget list) \<Rightarrow> string \<Rightarrow> goModuleMapping list
    \<Rightarrow> Contribution \<Rightarrow> SymbolReference \<Rightarrow> pageState \<Rightarrow> ('e ResolveError + pageState) option" where
  "importedMethodCall index projectID modules contribution reference st =
    (case Cut (CHR ''.'') (sr_Target reference) of None \<Rightarrow> Some (Inr st)
     | Some (receiver, label) \<Rightarrow>
         if receiver \<notin> (\<lambda>r. Base (ur_Target r)) ` set (c_unresolvedReferences contribution) then Some (Inr st)
         else bindO (foldO (\<lambda>imported s. case packagePath modules (ur_Target imported) of None \<Rightarrow> Some (Inr s)
               | Some package \<Rightarrow> visitPackageTargets index projectID package (visitMethod label reference) s)
             (c_unresolvedReferences contribution) ([], st)) (\<lambda>s. Some (Inr (snd s))))"

definition appendImportedMethodCallFacts :: "(ResolverPackagePageRequest \<Rightarrow> 'e + ResolverTarget list) \<Rightarrow> string \<Rightarrow> goModuleMapping list
    \<Rightarrow> Contribution list \<Rightarrow> pageState \<Rightarrow> ('e ResolveError + pageState) option" where
  "appendImportedMethodCallFacts index projectID modules =
     foldO (\<lambda>c. foldO (importedMethodCall index projectID modules c) (callReferences c))"

text \<open>The methods of a type in the files of its package.\<close>

definition visitMethods :: "string \<Rightarrow> string \<Rightarrow> ResolverTarget \<Rightarrow> string set \<times> pageState \<Rightarrow> 'e ResolveError + string set \<times> pageState" where
  "visitMethods expected typeName target s =
    (if expected \<noteq> packageName (rt_Nodes target) then Inr s
     else Inr (fst s \<union> node_Label ` set (filter (\<lambda>n. node_Kind n = MethodNodeKind
         \<and> receiverTypeFromQualifiedName (node_QualifiedName n) = typeName) (rt_Nodes target)), putResolverNodes (rt_Nodes target) (snd s)))"

definition packageMethods :: "(ResolverPackagePageRequest \<Rightarrow> 'e + ResolverTarget list) \<Rightarrow> string \<Rightarrow> string \<Rightarrow> string \<Rightarrow> string \<Rightarrow> pageState
    \<Rightarrow> ('e ResolveError + string set \<times> pageState) option" where
  "packageMethods index projectID directory expected typeName st =
     visitPackageTargets index projectID directory (visitMethods expected typeName) ({}, st)"

definition implementedBy :: "string set \<Rightarrow> Node \<Rightarrow> ResolverTarget \<Rightarrow> Node list" where
  "implementedBy methods current target = filter (\<lambda>n. node_Kind n = InterfaceNodeKind \<and> node_ID n \<noteq> node_ID current
     \<and> implementsAll methods (relationReferencesForSource (rt_SymbolReferences target) (node_ID n) ImplementsRelation)) (rt_Nodes target)"

definition visitInterfaces :: "string \<Rightarrow> Node \<Rightarrow> string set \<Rightarrow> ResolverTarget \<Rightarrow> pageState \<Rightarrow> 'e ResolveError + pageState" where
  "visitInterfaces expected current methods target st =
    (if expected \<noteq> packageName (rt_Nodes target) then Inr st
     else Inr (addEdges (map (\<lambda>n. edgeOf (node_ID current) (node_ID n) ImplementsRelation (node_Evidence current))
       (implementedBy methods current target)) (putResolverNodes (rt_Nodes target) st)))"

definition appendImplementedInterfaces :: "(ResolverPackagePageRequest \<Rightarrow> 'e + ResolverTarget list) \<Rightarrow> string \<Rightarrow> string \<Rightarrow> string \<Rightarrow> Node
    \<Rightarrow> string set \<Rightarrow> pageState \<Rightarrow> ('e ResolveError + pageState) option" where
  "appendImplementedInterfaces index projectID directory expected current methods =
     visitPackageTargets index projectID directory (visitInterfaces expected current methods)"

definition visitEmbedded :: "string \<Rightarrow> Node \<Rightarrow> SymbolReference list \<Rightarrow> ResolverTarget \<Rightarrow> pageState \<Rightarrow> 'e ResolveError + pageState" where
  "visitEmbedded expected current references target st =
    (if expected \<noteq> packageName (rt_Nodes target) then Inr st
     else Inr (addEdges (concat (map (\<lambda>n. if node_Kind n \<noteq> InterfaceNodeKind \<or> node_ID n = node_ID current then []
         else map (\<lambda>r. edgeOf (node_ID current) (node_ID n) EmbedsRelation (sr_Evidence r)) (filter (\<lambda>r. node_Label n = sr_Target r) references))
       (rt_Nodes target))) (putResolverNodes (rt_Nodes target) st)))"

definition appendEmbeddedInterfaces :: "(ResolverPackagePageRequest \<Rightarrow> 'e + ResolverTarget list) \<Rightarrow> string \<Rightarrow> string \<Rightarrow> string \<Rightarrow> Node
    \<Rightarrow> SymbolReference list \<Rightarrow> pageState \<Rightarrow> ('e ResolveError + pageState) option" where
  "appendEmbeddedInterfaces index projectID directory expected current references st =
    (let own = relationReferencesForSource references (node_ID current) EmbedsRelation in
     if own = [] then Some (Inr st)
     else visitPackageTargets index projectID directory (visitEmbedded expected current own) st)"

text \<open>The implemented interfaces of imported packages are looked for among the nodes of kind type.\<close>

definition visitImported :: "Node \<Rightarrow> string set \<Rightarrow> ResolverTarget \<Rightarrow> string list \<times> pageState \<Rightarrow> 'e ResolveError + string list \<times> pageState" where
  "visitImported current methods target s =
    Inr (fold (\<lambda>n (seen, st).
        if node_Kind n \<noteq> TypeNodeKind \<or> node_ID n = node_ID current
           \<or> \<not> implementsAll methods (relationReferencesForSource (rt_SymbolReferences target) (node_ID n) ImplementsRelation)
           \<or> node_ID n \<in> set seen then (seen, st)
        else (node_ID n # seen, addEdges [edgeOf (node_ID current) (node_ID n) ImplementsRelation (node_Evidence current)] st))
      (rt_Nodes target) (fst s, putResolverNodes (rt_Nodes target) (snd s)))"

definition appendImportedInterfaceImplementations :: "(ResolverPackagePageRequest \<Rightarrow> 'e + ResolverTarget list) \<Rightarrow> string \<Rightarrow> goModuleMapping list
    \<Rightarrow> Contribution \<Rightarrow> Node \<Rightarrow> string set \<Rightarrow> pageState \<Rightarrow> ('e ResolveError + pageState) option" where
  "appendImportedInterfaceImplementations index projectID modules contribution current methods st =
    bindO (foldO (\<lambda>imported s. case packagePath modules (ur_Target imported) of None \<Rightarrow> Some (Inr s)
         | Some package \<Rightarrow> visitPackageTargets index projectID package (visitImported current methods) s)
       (c_unresolvedReferences contribution) ([], st)) (\<lambda>s. Some (Inr (snd s)))"

definition implementationsOfNode :: "(ResolverPackagePageRequest \<Rightarrow> 'e + ResolverTarget list) \<Rightarrow> string \<Rightarrow> goModuleMapping list
    \<Rightarrow> Contribution \<Rightarrow> Node \<Rightarrow> pageState \<Rightarrow> ('e ResolveError + pageState) option" where
  "implementationsOfNode index projectID modules contribution current st =
    (let expected = packageName (facts_Nodes (c_facts contribution)); directory = Dir (c_sourcePath contribution) in
     if node_Kind current = InterfaceNodeKind
     then appendEmbeddedInterfaces index projectID directory expected current (c_symbolReferences contribution) st
     else if \<not> isImplementationNodeKind (node_Kind current) then Some (Inr st)
     else bindO (packageMethods index projectID directory expected (node_Label current) st) (\<lambda>(methods, st).
       bindO (appendImplementedInterfaces index projectID directory expected current methods st)
         (appendImportedInterfaceImplementations index projectID modules contribution current methods)))"

definition appendPageImplementationFacts :: "(ResolverPackagePageRequest \<Rightarrow> 'e + ResolverTarget list) \<Rightarrow> string \<Rightarrow> goModuleMapping list
    \<Rightarrow> Contribution list \<Rightarrow> pageState \<Rightarrow> ('e ResolveError + pageState) option" where
  "appendPageImplementationFacts index projectID modules =
     foldO (\<lambda>c st. if packageName (facts_Nodes (c_facts c)) = '''' then Some (Inr st)
       else foldO (implementationsOfNode index projectID modules c) (facts_Nodes (c_facts c)) st)"

text \<open>The contribution of a path: the maps of the page keep the last one.\<close>

definition contributionAt :: "Contribution list \<Rightarrow> string \<Rightarrow> Contribution option" where
  "contributionAt contributions sourcePath = find (\<lambda>c. c_sourcePath c = sourcePath) (rev contributions)"

definition fileEvidence :: "Contribution \<Rightarrow> FactEvidence" where
  "fileEvidence contribution = (case fileFact contribution of None \<Rightarrow> zero_Evidence | Some n \<Rightarrow> node_Evidence n)"

definition resolveSource :: "(string \<Rightarrow> string) \<Rightarrow> (ResolverPackagePageRequest \<Rightarrow> 'e + ResolverTarget list) \<Rightarrow> string \<Rightarrow> goModuleMapping list
    \<Rightarrow> Contribution list \<Rightarrow> string \<Rightarrow> pageState \<Rightarrow> ('e ResolveError + pageState) option" where
  "resolveSource quoting index projectID modules contributions sourcePath st =
    (case contributionAt contributions sourcePath of None \<Rightarrow> Some (Inr st)
     | Some contribution \<Rightarrow>
         bindO (foldO (resolveImport quoting index projectID modules sourcePath (fileEvidence contribution))
             (c_unresolvedReferences contribution) st)
           (foldO (resolveCall quoting index projectID modules contribution) (callReferences contribution)))"

definition sortEdges :: "Edge list \<Rightarrow> Edge list" where
  "sortEdges = sort_key (\<lambda>e. [edge_SourceID e, edge_TargetID e])"

definition validatedResolution :: "Resolution \<Rightarrow> 'e ResolveError + Resolution" where
  "validatedResolution resolution =
    (case ResolverVocabulary of Inl e \<Rightarrow> Inl (InvalidVocabulary e)
     | Inr vocabulary \<Rightarrow> (case Validate vocabulary (rn_facts resolution) of Some e \<Rightarrow> Inl (InvalidResolution e) | None \<Rightarrow> Inr resolution))"

definition pageResolution :: "pageState \<Rightarrow> Resolution" where
  "pageResolution st = \<lparr>rn_facts = \<lparr>facts_Nodes = sort_key node_ID (pg_nodes st), facts_Edges = sortEdges (pg_edges st)\<rparr>,
     rn_diagnostics = pg_diagnostics st\<rparr>"

definition missingFile :: "Contribution list \<Rightarrow> 'e ResolveError error" where
  "missingFile contributions = map_option (\<lambda>c. FileFactRequired (c_sourcePath c)) (find (\<lambda>c. fileFact c = None) contributions)"

definition ResolvePage :: "(string \<Rightarrow> string) \<Rightarrow> modfile \<Rightarrow> Contribution list \<Rightarrow> string
    \<Rightarrow> (ResolverPackagePageRequest \<Rightarrow> 'e + ResolverTarget list) \<Rightarrow> ResolverFileView \<Rightarrow> ('e ResolveError + Resolution) option" where
  "ResolvePage quoting parser contributions projectID index view =
    (if projectID = '''' then Some (Inl ProjectRequired)
     else case missingFile contributions of Some e \<Rightarrow> Some (Inl e)
     | None \<Rightarrow>
         let modules = newGoModuleResolver parser view;
             initial = fold (\<lambda>c. putResolverNodes (facts_Nodes (c_facts c))) contributions \<lparr>pg_nodes = [], pg_edges = [], pg_diagnostics = []\<rparr>;
             local = appendLocalMethodCallFacts quoting contributions (appendLocalCallFacts contributions initial)
         in bindO (foldO (resolveSource quoting index projectID modules contributions) (uniqueSortedStrings (map c_sourcePath contributions)) local) (\<lambda>st.
            bindO (appendImportedMethodCallFacts index projectID modules contributions st) (\<lambda>st.
            bindO (appendPageImplementationFacts index projectID modules contributions st) (\<lambda>st.
            Some (validatedResolution (pageResolution st))))))"

subsection \<open>Resolving all contributions of a project\<close>

definition packageLabelAt :: "Contribution list \<Rightarrow> string \<Rightarrow> string" where
  "packageLabelAt contributions sourcePath =
    (case filter (\<lambda>n. node_Kind n = PackageNodeKind)
        (concat (map (\<lambda>c. facts_Nodes (c_facts c)) (filter (\<lambda>c. c_sourcePath c = sourcePath) contributions))) of
       [] \<Rightarrow> '''' | ns \<Rightarrow> node_Label (last ns))"

definition packageFiles :: "goModuleMapping list \<Rightarrow> Contribution list \<Rightarrow> string \<Rightarrow> string list" where
  "packageFiles modules contributions importPath =
    (case packagePath modules importPath of None \<Rightarrow> []
     | Some directory \<Rightarrow> filter (\<lambda>p. Dir p = directory \<and> packageLabelAt contributions p \<noteq> '''')
         (uniqueSortedStrings (map c_sourcePath contributions)))"

definition contributionForPath :: "Contribution list \<Rightarrow> string \<Rightarrow> Contribution option" where
  "contributionForPath contributions sourcePath = find (\<lambda>c. c_sourcePath c = sourcePath) contributions"

definition fileNodeAt :: "Contribution list \<Rightarrow> string \<Rightarrow> Node" where
  "fileNodeAt contributions sourcePath =
    (case contributionAt contributions sourcePath of None \<Rightarrow> zero_Node
     | Some c \<Rightarrow> (case fileFact c of None \<Rightarrow> zero_Node | Some n \<Rightarrow> n))"

definition surfacesAt :: "Contribution list \<Rightarrow> string \<Rightarrow> ExportedSurface list" where
  "surfacesAt contributions sourcePath = (case contributionAt contributions sourcePath of None \<Rightarrow> [] | Some c \<Rightarrow> c_exportedSurfaces c)"

definition viewImport :: "(string \<Rightarrow> string) \<Rightarrow> goModuleMapping list \<Rightarrow> Contribution list \<Rightarrow> string \<Rightarrow> UnresolvedReference \<Rightarrow> pageState \<Rightarrow> pageState" where
  "viewImport quoting modules contributions sourcePath reference st =
    (let targetPaths = packageFiles modules contributions (ur_Target reference) in
     if targetPaths = [] then
       (case packagePath modules (ur_Target reference) of None \<Rightarrow> st
        | Some _ \<Rightarrow> warn (notIndexedWarning quoting (ur_Target reference) sourcePath) st)
     else addEdges (concat (map (\<lambda>p. importEdges (ur_SourceID reference) (node_Evidence (fileNodeAt contributions sourcePath))
         (node_ID (fileNodeAt contributions p)) (surfacesAt contributions p)) targetPaths)) st)"

definition viewSearchTarget :: "Contribution list \<Rightarrow> UnresolvedReference \<Rightarrow> string \<Rightarrow> string \<Rightarrow> string \<Rightarrow> callSearch \<Rightarrow> callSearch" where
  "viewSearchTarget contributions imported package symbol targetPath s =
    (if \<not> importMatchesPackage imported package (packageLabelAt contributions targetPath) then s
     else s\<lparr>cs_matchingImport := True, cs_resolvedPackage := True,
       cs_matches := cs_matches s @ map es_NodeID (filter (\<lambda>e. es_Name e = symbol \<and> callableSurface (es_NodeID e) contributions)
         (surfacesAt contributions targetPath))\<rparr>)"

definition viewSearchImport :: "goModuleMapping list \<Rightarrow> Contribution list \<Rightarrow> string \<Rightarrow> string \<Rightarrow> UnresolvedReference \<Rightarrow> callSearch \<Rightarrow> callSearch" where
  "viewSearchImport modules contributions package symbol imported s =
    (let s1 = s\<lparr>cs_matchingImport := cs_matchingImport s \<or> importHasLocalBinding imported package\<rparr>;
         targetPaths = packageFiles modules contributions (ur_Target imported) in
     if targetPaths = [] then
       s1\<lparr>cs_matchingImport := cs_matchingImport s1 \<or> packagePath modules (ur_Target imported) = None \<and> Base (ur_Target imported) = package\<rparr>
     else fold (viewSearchTarget contributions imported package symbol) targetPaths s1)"

definition viewCall :: "(string \<Rightarrow> string) \<Rightarrow> goModuleMapping list \<Rightarrow> Contribution list \<Rightarrow> Contribution \<Rightarrow> SymbolReference \<Rightarrow> pageState \<Rightarrow> pageState" where
  "viewCall quoting modules contributions contribution reference st =
    (case Cut (CHR ''.'') (sr_Target reference) of None \<Rightarrow> st
     | Some (package, symbol) \<Rightarrow> finishCall quoting (c_sourcePath contribution) reference
         (fold (viewSearchImport modules contributions package symbol) (c_unresolvedReferences contribution)
           \<lparr>cs_matches = [], cs_matchingImport = False, cs_resolvedPackage = False, cs_page = st\<rparr>))"

definition appendPackageCallFacts :: "(string \<Rightarrow> string) \<Rightarrow> goModuleMapping list \<Rightarrow> Contribution list \<Rightarrow> pageState \<Rightarrow> pageState" where
  "appendPackageCallFacts quoting modules contributions =
     fold (\<lambda>c. fold (viewCall quoting modules contributions c) (callReferences c)) contributions"

text \<open>The nodes of a contribution with the package named last before them.\<close>

fun packagedNodes :: "string \<Rightarrow> Node list \<Rightarrow> (string \<times> Node) list" where
  "packagedNodes package [] = []"
| "packagedNodes package (n # ns) =
    (let current = (if node_Kind n = PackageNodeKind then node_Label n else package) in (current, n) # packagedNodes current ns)"

definition allPackagedNodes :: "Contribution list \<Rightarrow> (string \<times> Node) list" where
  "allPackagedNodes contributions = concat (map (\<lambda>c. packagedNodes '''' (facts_Nodes (c_facts c))) contributions)"

definition packagedTypes :: "Contribution list \<Rightarrow> (string \<times> Node) list" where
  "packagedTypes contributions = filter (\<lambda>(p, n). isImplementationNodeKind (node_Kind n) \<or> node_Kind n = InterfaceNodeKind)
     (allPackagedNodes contributions)"

definition typesByPackage :: "Contribution list \<Rightarrow> string \<Rightarrow> Node list" where
  "typesByPackage contributions package = map snd (filter (\<lambda>(p, n). p = package) (packagedTypes contributions))"

definition packageByNodeID :: "Contribution list \<Rightarrow> string \<Rightarrow> string" where
  "packageByNodeID contributions nodeID =
    (case find (\<lambda>(p, n). node_ID n = nodeID) (rev (packagedTypes contributions)) of None \<Rightarrow> '''' | Some (p, n) \<Rightarrow> p)"

definition methodKey :: "string \<Rightarrow> string \<Rightarrow> string" where
  "methodKey package typeName = package @ [CHR 0x00] @ typeName"

definition methodsOfKey :: "Contribution list \<Rightarrow> string \<Rightarrow> string set" where
  "methodsOfKey contributions key = node_Label ` (snd ` set (filter (\<lambda>(p, n). node_Kind n = MethodNodeKind
      \<and> receiverTypeFromQualifiedName (node_QualifiedName n) \<noteq> ''''
      \<and> methodKey p (receiverTypeFromQualifiedName (node_QualifiedName n)) = key) (allPackagedNodes contributions)))"

definition interfaceReferences :: "Contribution list \<Rightarrow> string \<Rightarrow> SymbolReference list" where
  "interfaceReferences contributions nodeID = filter (\<lambda>r. sr_SourceID r = nodeID
      \<and> (sr_Relation r = ImplementsRelation \<or> sr_Relation r = EmbedsRelation)) (concat (map c_symbolReferences contributions))"

definition contractEdges :: "Contribution list \<Rightarrow> Node list \<Rightarrow> Node \<Rightarrow> Edge list" where
  "contractEdges contributions types contract =
    (let references = interfaceReferences contributions (node_ID contract) in
     if node_Kind contract \<noteq> InterfaceNodeKind \<or> references = [] then []
     else map (\<lambda>n. edgeOf (node_ID n) (node_ID contract) ImplementsRelation (node_Evidence n))
         (filter (\<lambda>n. isImplementationNodeKind (node_Kind n) \<and> node_ID n \<noteq> node_ID contract
             \<and> implementsAll (methodsOfKey contributions (methodKey (packageByNodeID contributions (node_ID n)) (node_Label n)))
                 (relationReferences references ImplementsRelation)) types)
       @ concat (map (\<lambda>r. map (\<lambda>n. edgeOf (node_ID contract) (node_ID n) EmbedsRelation (sr_Evidence r))
           (filter (\<lambda>n. node_Kind n = InterfaceNodeKind \<and> node_Label n = sr_Target r) types)) (relationReferences references EmbedsRelation)))"

text \<open>The packages are visited in an order of the map, a parameter.\<close>

definition appendImplementationFacts :: "(string list \<Rightarrow> string list) \<Rightarrow> Contribution list \<Rightarrow> pageState \<Rightarrow> pageState" where
  "appendImplementationFacts packageOrder contributions =
     addEdges (concat (map (\<lambda>package. let types = typesByPackage contributions package in concat (map (contractEdges contributions types) types))
       (packageOrder (dedup (map fst (packagedTypes contributions))))))"

definition ResolveWithFileView :: "(string \<Rightarrow> string) \<Rightarrow> modfile \<Rightarrow> (Node list \<Rightarrow> Node list) \<Rightarrow> (string list \<Rightarrow> string list)
    \<Rightarrow> Contribution list \<Rightarrow> ResolverFileView \<Rightarrow> 'e ResolveError + Resolution" where
  "ResolveWithFileView quoting parser nodeOrder packageOrder contributions view =
    (case missingFile contributions of Some e \<Rightarrow> Inl e
     | None \<Rightarrow>
         let modules = newGoModuleResolver parser view;
             initial = fold (\<lambda>c. putResolverNodes (facts_Nodes (c_facts c))) contributions \<lparr>pg_nodes = [], pg_edges = [], pg_diagnostics = []\<rparr>;
             imports = fold (\<lambda>sourcePath st. case contributionForPath contributions sourcePath of None \<Rightarrow> st
                 | Some c \<Rightarrow> fold (viewImport quoting modules contributions sourcePath) (c_unresolvedReferences c) st)
               (uniqueSortedStrings (map c_sourcePath contributions)) (appendLocalCallFacts contributions initial);
             st = appendImplementationFacts packageOrder contributions
               (appendLocalMethodCallFacts quoting contributions (appendPackageCallFacts quoting modules contributions imports))
         in validatedResolution \<lparr>rn_facts = \<lparr>facts_Nodes = nodeOrder (pg_nodes initial), facts_Edges = sortEdges (pg_edges st)\<rparr>,
              rn_diagnostics = pg_diagnostics st\<rparr>)"

subsection \<open>Loops over computations\<close>

lemma bindO_Inr: "bindO m k = Some (Inr y) \<longleftrightarrow> (\<exists>x. m = Some (Inr x) \<and> k x = Some (Inr y))"
  by (cases "(m, k)" rule: bindO.cases) auto

text \<open>A computation that ends, with a value or an error.\<close>

definition returns :: "'a option \<Rightarrow> bool" where
  "returns m \<longleftrightarrow> m \<noteq> None"

named_theorems returning \<open>computations that end\<close>

lemma returns_Some [returning]: "returns (Some x)"
  by (simp add: returns_def)

lemma bindO_returns [returning]: "returns m \<Longrightarrow> (\<And>x. returns (k x)) \<Longrightarrow> returns (bindO m k)"
  by (cases "(m, k)" rule: bindO.cases) (auto simp: returns_def)

lemma foldO_returns [returning]: "(\<And>x s. x \<in> set xs \<Longrightarrow> returns (f x s)) \<Longrightarrow> returns (foldO f xs s)"
proof (induction xs arbitrary: s)
  case (Cons x xs)
  then show ?case unfolding foldO.simps by (intro bindO_returns) simp_all
qed (simp add: returns_def)

text \<open>A loop whose steps append to a view of the state appends all of it.\<close>

lemma foldO_appends:
  assumes "foldO f xs s = Some (Inr s')" "\<And>x s s'. x \<in> set xs \<Longrightarrow> f x s = Some (Inr s') \<Longrightarrow> g s' = g s @ h x"
  shows "g s' = g s @ concat (map h xs)"
  using assms
proof (induction xs arbitrary: s)
  case (Cons x xs)
  then obtain s1 where "f x s = Some (Inr s1)" "foldO f xs s1 = Some (Inr s')" by (auto simp: bindO_Inr)
  with Cons.IH[of s1] Cons.prems(2) show ?case by simp
qed simp

lemma fold_res_appends:
  assumes "fold_res f xs s = Inr s'" "\<And>x s s'. x \<in> set xs \<Longrightarrow> f x s = Inr s' \<Longrightarrow> g s' = g s @ h x"
  shows "g s' = g s @ concat (map h xs)"
  using assms
proof (induction xs arbitrary: s)
  case (Cons x xs)
  then obtain s1 where "f x s = Inr s1" "fold_res f xs s1 = Inr s'" by (cases "f x s") auto
  with Cons.IH[of s1] Cons.prems(2) show ?case by simp
qed simp

lemma fold_appends: "(\<And>x s. x \<in> set xs \<Longrightarrow> g (f x s) = g s @ h x) \<Longrightarrow> g (fold f xs s) = g s @ concat (map h xs)"
  by (induction xs arbitrary: s) simp_all

text \<open>In particular the view stays the same when no step changes it.\<close>

lemma foldO_keeps:
  assumes "foldO f xs s = Some (Inr s')" "\<And>x s s'. x \<in> set xs \<Longrightarrow> f x s = Some (Inr s') \<Longrightarrow> g s' = (g s :: 'v list)"
  shows "g s' = g s"
  using foldO_appends[where g = g and h = "\<lambda>_. []", OF assms(1)] assms(2) by simp

lemma fold_res_keeps:
  assumes "fold_res f xs s = Inr s'" "\<And>x s s'. x \<in> set xs \<Longrightarrow> f x s = Inr s' \<Longrightarrow> g s' = (g s :: 'v list)"
  shows "g s' = g s"
  using fold_res_appends[where g = g and h = "\<lambda>_. []", OF assms(1)] assms(2) by simp

lemma fold_keeps: "(\<And>x s. x \<in> set xs \<Longrightarrow> g (f x s) = g s) \<Longrightarrow> g (fold f xs s) = g s"
  by (induction xs arbitrary: s) simp_all

text \<open>The collected edges of a relation.\<close>

definition relationEdges :: "RelationKind \<Rightarrow> pageState \<Rightarrow> Edge list" where
  "relationEdges relation st = filter (\<lambda>e. edge_Relation e = relation) (pg_edges st)"

lemma relationEdges_simps [simp]:
  "relationEdges r (addEdges es st) = relationEdges r st @ filter (\<lambda>e. edge_Relation e = r) es"
  "relationEdges r (putResolverNodes ns st) = relationEdges r st"
  "relationEdges r (warn message st) = relationEdges r st"
  by (simp_all add: relationEdges_def addEdges_def putResolverNodes_def warn_def)

lemma edgeOf_simps [simp]:
  "edge_SourceID (edgeOf s t r v) = s" "edge_TargetID (edgeOf s t r v) = t" "edge_Relation (edgeOf s t r v) = r" "edge_Evidence (edgeOf s t r v) = v"
  by (simp_all add: edgeOf_def)

lemma relations_differ [simp]:
  "CallsRelation \<noteq> ImportsFromRelation" "ImplementsRelation \<noteq> ImportsFromRelation" "EmbedsRelation \<noteq> ImportsFromRelation"
  "CallsRelation \<noteq> ImplementsRelation" "ImportsFromRelation \<noteq> ImplementsRelation" "EmbedsRelation \<noteq> ImplementsRelation"
  by (simp_all add: goRelations)

lemmas relations_differ_symmetric [simp] = relations_differ[symmetric]

lemma filter_relation:
  "filter (\<lambda>e. edge_Relation e = r) (map (\<lambda>x. edgeOf (s x) (t x) r' (v x)) xs) = (if r' = r then map (\<lambda>x. edgeOf (s x) (t x) r' (v x)) xs else [])"
  by (induction xs) simp_all

lemma importEdges_relation: "filter (\<lambda>e. edge_Relation e = r) (importEdges s v f es) = (if r = ImportsFromRelation then importEdges s v f es else [])"
  by (simp add: importEdges_def filter_relation)

text \<open>The import edges of a page, for the targets of every package.\<close>

definition importsOfTargets :: "FactEvidence \<Rightarrow> UnresolvedReference \<Rightarrow> ResolverTarget list \<Rightarrow> Edge list" where
  "importsOfTargets evidence reference ts = concat (map (\<lambda>t. importEdges (ur_SourceID reference) evidence
     (node_ID (the (targetFile (rt_Nodes t)))) (rt_ExportedSurfaces t)) ts)"

definition importsOfReference :: "goModuleMapping list \<Rightarrow> (string \<Rightarrow> ResolverTarget list) \<Rightarrow> FactEvidence \<Rightarrow> UnresolvedReference \<Rightarrow> Edge list" where
  "importsOfReference modules targets evidence reference =
    (case packagePath modules (ur_Target reference) of None \<Rightarrow> [] | Some package \<Rightarrow> importsOfTargets evidence reference (targets package))"

definition importsOfSource :: "goModuleMapping list \<Rightarrow> (string \<Rightarrow> ResolverTarget list) \<Rightarrow> Contribution list \<Rightarrow> string \<Rightarrow> Edge list" where
  "importsOfSource modules targets contributions sourcePath =
    (case contributionAt contributions sourcePath of None \<Rightarrow> []
     | Some c \<Rightarrow> concat (map (importsOfReference modules targets (fileEvidence c)) (c_unresolvedReferences c)))"

definition pageImports :: "goModuleMapping list \<Rightarrow> (string \<Rightarrow> ResolverTarget list) \<Rightarrow> Contribution list \<Rightarrow> Edge list" where
  "pageImports modules targets contributions =
     concat (map (importsOfSource modules targets contributions) (uniqueSortedStrings (map c_sourcePath contributions)))"

text \<open>Steps that add no edge of a relation.\<close>

lemma visitCallTarget_keeps: "visitCallTarget imported package symbol target s = Inr s' \<Longrightarrow> relationEdges r (cs_page s') = relationEdges r (cs_page s)"
  by (auto simp: visitCallTarget_def Let_def split: if_splits)

lemma finishCall_keeps: "r \<noteq> CallsRelation \<Longrightarrow> relationEdges r (finishCall quoting p reference s) = relationEdges r (cs_page s)"
  by (simp add: finishCall_def Let_def)

lemma visitMethod_keeps:
  assumes "r \<noteq> CallsRelation" "visitMethod label reference target s = Inr s'"
  shows "relationEdges r (snd s') = relationEdges r (snd s)"
proof -
  have "s' = fold (\<lambda>n (seen, st).
      if node_Kind n \<noteq> MethodNodeKind \<or> node_Label n \<noteq> label \<or> node_ID n \<in> set seen then (seen, st)
      else (node_ID n # seen, addEdges [edgeOf (sr_SourceID reference) (node_ID n) CallsRelation (sr_Evidence reference)] st)) (rt_Nodes target) s"
    using assms(2) by (simp add: visitMethod_def)
  then show ?thesis using assms(1) by (simp only:) (rule fold_keeps, auto)
qed

lemma local_calls_keep:
  assumes "r \<noteq> CallsRelation"
  shows "relationEdges r (appendLocalMethodCallFacts quoting contributions st) = relationEdges r st"
    "relationEdges r (appendLocalCallFacts contributions st) = relationEdges r st"
proof -
  have "relationEdges r (localMethodCall quoting contributions c reference s) = relationEdges r s" for c reference s
    using assms by (auto simp: localMethodCall_def Let_def split: option.split)
  then show "relationEdges r (appendLocalMethodCallFacts quoting contributions st) = relationEdges r st"
    unfolding appendLocalMethodCallFacts_def by (intro fold_keeps) simp
  show "relationEdges r (appendLocalCallFacts contributions st) = relationEdges r st"
    using assms by (auto simp: appendLocalCallFacts_def filter_empty_conv)
qed

lemma visitInterfaces_keeps: "r \<noteq> ImplementsRelation \<Longrightarrow> visitInterfaces p current methods target s = Inr s' \<Longrightarrow> relationEdges r s' = relationEdges r s"
  by (auto simp: visitInterfaces_def filter_relation split: if_splits)

lemma visitEmbedded_keeps: "r \<noteq> EmbedsRelation \<Longrightarrow> visitEmbedded p current references target s = Inr s' \<Longrightarrow> relationEdges r s' = relationEdges r s"
  by (auto simp: visitEmbedded_def filter_empty_conv split: if_splits)

lemma visitMethods_keeps: "visitMethods p typeName target s = Inr s' \<Longrightarrow> relationEdges r (snd s') = relationEdges r (snd s)"
  by (auto simp: visitMethods_def split: if_splits)

lemma visitImported_keeps:
  assumes "r \<noteq> ImplementsRelation" "visitImported current methods target s = Inr s'"
  shows "relationEdges r (snd s') = relationEdges r (snd s)"
proof -
  let ?step = "\<lambda>n (seen, st). if node_Kind n \<noteq> TypeNodeKind \<or> node_ID n = node_ID current
      \<or> \<not> implementsAll methods (relationReferencesForSource (rt_SymbolReferences target) (node_ID n) ImplementsRelation)
      \<or> node_ID n \<in> set seen then (seen, st)
    else (node_ID n # seen, addEdges [edgeOf (node_ID current) (node_ID n) ImplementsRelation (node_Evidence current)] st)"
  have "s' = fold ?step (rt_Nodes target) (fst s, putResolverNodes (rt_Nodes target) (snd s))"
    using assms(2) by (simp add: visitImported_def)
  moreover have "relationEdges r (snd (fold ?step (rt_Nodes target) x)) = relationEdges r (snd x)" for x
    by (rule fold_keeps) (use assms(1) in auto)
  ultimately show ?thesis by simp
qed

text \<open>The implements edges between the types of a page and the interfaces of their own package.\<close>

definition methodSet :: "ResolverTarget list \<Rightarrow> string \<Rightarrow> string \<Rightarrow> string set" where
  "methodSet ts expected typeName = {node_Label n | n t. t \<in> set ts \<and> packageName (rt_Nodes t) = expected \<and> n \<in> set (rt_Nodes t)
     \<and> node_Kind n = MethodNodeKind \<and> receiverTypeFromQualifiedName (node_QualifiedName n) = typeName}"

definition implementsOfNode :: "ResolverTarget list \<Rightarrow> string \<Rightarrow> Node \<Rightarrow> Edge set" where
  "implementsOfNode ts expected current = (if \<not> isImplementationNodeKind (node_Kind current) then {} else
     {edgeOf (node_ID current) (node_ID n) ImplementsRelation (node_Evidence current) | n t. t \<in> set ts
       \<and> packageName (rt_Nodes t) = expected \<and> n \<in> set (implementedBy (methodSet ts expected (node_Label current)) current t)})"

definition implementsOfContribution :: "(string \<Rightarrow> ResolverTarget list) \<Rightarrow> Contribution \<Rightarrow> Edge set" where
  "implementsOfContribution targets c = (let expected = packageName (facts_Nodes (c_facts c)) in
     if expected = '''' then {}
     else \<Union> (implementsOfNode (targets (Dir (c_sourcePath c))) expected ` set (facts_Nodes (c_facts c))))"

text \<open>Implements edges to a node of kind type, which stand for what is found in imported packages.\<close>

definition implementsOfTypes :: "(string \<Rightarrow> ResolverTarget list) \<Rightarrow> Edge set" where
  "implementsOfTypes targets = {e. edge_Relation e = ImplementsRelation
     \<and> (\<exists>package t n. t \<in> set (targets package) \<and> n \<in> set (rt_Nodes t) \<and> node_Kind n = TypeNodeKind \<and> edge_TargetID e = node_ID n)}"

lemma fold_res_methods:
  "fold_res (visitMethods expected typeName) ts s = (Inr s' :: 'e ResolveError + _) \<Longrightarrow> fst s' = fst s \<union> methodSet ts expected typeName"
proof (induction ts arbitrary: s)
  case (Cons t ts)
  then obtain s1 where s1: "visitMethods expected typeName t s = (Inr s1 :: 'e ResolveError + _)"
    "fold_res (visitMethods expected typeName) ts s1 = (Inr s' :: 'e ResolveError + _)"
    by (cases "visitMethods expected typeName t s :: 'e ResolveError + _") auto
  have "fst s1 = fst s \<union> methodSet [t] expected typeName"
    using s1(1) by (auto simp: visitMethods_def methodSet_def split: if_splits)
  moreover have "methodSet (t # ts) expected typeName = methodSet [t] expected typeName \<union> methodSet ts expected typeName"
    by (auto simp: methodSet_def)
  ultimately show ?case using Cons.IH[OF s1(2)] by auto
qed (simp add: methodSet_def)

lemma fold_res_interfaces:
  assumes "fold_res (visitInterfaces expected current methods) ts st = (Inr st' :: 'e ResolveError + _)"
  shows "set (relationEdges ImplementsRelation st') = set (relationEdges ImplementsRelation st)
    \<union> {edgeOf (node_ID current) (node_ID n) ImplementsRelation (node_Evidence current) | n t. t \<in> set ts
       \<and> packageName (rt_Nodes t) = expected \<and> n \<in> set (implementedBy methods current t)}"
proof -
  have "relationEdges ImplementsRelation st' = relationEdges ImplementsRelation st @ concat (map (\<lambda>t. if expected \<noteq> packageName (rt_Nodes t) then []
      else map (\<lambda>n. edgeOf (node_ID current) (node_ID n) ImplementsRelation (node_Evidence current)) (implementedBy methods current t)) ts)"
    using assms by (rule fold_res_appends) (auto simp: visitInterfaces_def filter_relation split: if_splits)
  then show ?thesis by (auto split: if_splits)
qed

lemma fold_res_imported:
  assumes "fold_res (visitImported current methods) ts s = (Inr s' :: 'e ResolveError + _)" "set ts \<subseteq> set (targets package)"
  shows "set (relationEdges ImplementsRelation (snd s)) \<subseteq> set (relationEdges ImplementsRelation (snd s'))
    \<and> set (relationEdges ImplementsRelation (snd s')) \<subseteq> set (relationEdges ImplementsRelation (snd s)) \<union> implementsOfTypes targets"
  using assms
proof (induction ts arbitrary: s)
  case (Cons t ts)
  let ?step = "\<lambda>n (seen, st). if node_Kind n \<noteq> TypeNodeKind \<or> node_ID n = node_ID current
      \<or> \<not> implementsAll methods (relationReferencesForSource (rt_SymbolReferences t) (node_ID n) ImplementsRelation)
      \<or> node_ID n \<in> set seen then (seen, st)
    else (node_ID n # seen, addEdges [edgeOf (node_ID current) (node_ID n) ImplementsRelation (node_Evidence current)] st)"
  obtain s1 where s1: "visitImported current methods t s = (Inr s1 :: 'e ResolveError + _)"
    "fold_res (visitImported current methods) ts s1 = (Inr s' :: 'e ResolveError + _)"
    using Cons.prems by (cases "visitImported current methods t s :: 'e ResolveError + _") auto
  have nodes: "set (relationEdges ImplementsRelation (snd x)) \<subseteq> set (relationEdges ImplementsRelation (snd (fold ?step ns x)))
      \<and> set (relationEdges ImplementsRelation (snd (fold ?step ns x))) \<subseteq> set (relationEdges ImplementsRelation (snd x)) \<union> implementsOfTypes targets"
    if "set ns \<subseteq> set (rt_Nodes t)" for ns x
    using that
  proof (induction ns arbitrary: x)
    case (Cons n ns)
    have "t \<in> set (targets package)" using \<open>set (t # ts) \<subseteq> set (targets package)\<close> by simp
    then have "set (relationEdges ImplementsRelation (snd x)) \<subseteq> set (relationEdges ImplementsRelation (snd (?step n x)))
        \<and> set (relationEdges ImplementsRelation (snd (?step n x))) \<subseteq> set (relationEdges ImplementsRelation (snd x)) \<union> implementsOfTypes targets"
      using Cons.prems by (cases x) (auto simp: implementsOfTypes_def)
    with Cons.IH[of "?step n x"] Cons.prems show ?case by auto
  qed simp
  have "s1 = fold ?step (rt_Nodes t) (fst s, putResolverNodes (rt_Nodes t) (snd s))" using s1(1) by (simp add: visitImported_def)
  with nodes[of "rt_Nodes t" "(fst s, putResolverNodes (rt_Nodes t) (snd s))"]
  have "set (relationEdges ImplementsRelation (snd s)) \<subseteq> set (relationEdges ImplementsRelation (snd s1))
      \<and> set (relationEdges ImplementsRelation (snd s1)) \<subseteq> set (relationEdges ImplementsRelation (snd s)) \<union> implementsOfTypes targets" by simp
  with Cons.IH[OF s1(2)] Cons.prems(2) show ?case by auto
qed simp

text \<open>A loop whose steps add at least and at most given elements to a set.\<close>

lemma foldO_between:
  assumes "foldO f xs s = Some (Inr s')"
    "\<And>x s s'. x \<in> set xs \<Longrightarrow> f x s = Some (Inr s') \<Longrightarrow> g s \<union> h x \<subseteq> g s' \<and> g s' \<subseteq> g s \<union> h x \<union> extra"
  shows "g s \<union> \<Union> (h ` set xs) \<subseteq> g s' \<and> g s' \<subseteq> g s \<union> \<Union> (h ` set xs) \<union> extra"
  using assms
proof (induction xs arbitrary: s)
  case (Cons x xs)
  then obtain s1 where s1: "f x s = Some (Inr s1)" "foldO f xs s1 = Some (Inr s')" by (auto simp: bindO_Inr)
  have "g s \<union> h x \<subseteq> g s1 \<and> g s1 \<subseteq> g s \<union> h x \<union> extra" by (rule Cons.prems(2)[OF _ s1(1)]) simp
  moreover have "g s1 \<union> \<Union> (h ` set xs) \<subseteq> g s' \<and> g s' \<subseteq> g s1 \<union> \<Union> (h ` set xs) \<union> extra"
    by (rule Cons.IH[OF s1(2)]) (rule Cons.prems(2), simp)
  ultimately show ?case by auto
qed simp

subsection \<open>An index of packages\<close>

lemma find_key:
  "sorted_wrt (<) (map key ts) \<Longrightarrow> t \<in> set ts \<Longrightarrow> find (\<lambda>k. key k = (key t :: 'a :: linorder)) ts = Some t"
  by (induction ts) auto

lemma mapRes_all: "(\<And>x. x \<in> set xs \<Longrightarrow> f x = Inr (g x)) \<Longrightarrow> mapRes f xs = Inr (map g xs)"
  by (induction xs) simp_all

text \<open>No import path is placed at the empty path.\<close>

definition namedPackages :: "goModuleMapping list \<Rightarrow> bool" where
  "namedPackages modules \<longleftrightarrow> (\<forall>importPath. packagePath modules importPath \<noteq> Some [])"

lemma namedPackagesD: "namedPackages modules \<Longrightarrow> packagePath modules importPath = Some package \<Longrightarrow> package \<noteq> []"
  by (auto simp: namedPackages_def)

text \<open>What the resolver asks of an index: a page holds the next targets of the package in the order of their paths.\<close>

locale package_index =
  fixes index :: "'db \<Rightarrow> ResolverPackagePageRequest \<Rightarrow> 'e + ResolverTarget list"
    and targets :: "'db \<Rightarrow> string \<Rightarrow> string \<Rightarrow> ResolverTarget list"
    and invar :: "'db \<Rightarrow> bool"
  assumes page: "invar db \<Longrightarrow> projectID \<noteq> '''' \<Longrightarrow> package \<noteq> '''' \<Longrightarrow>
      index db \<lparr>rpp_ProjectID = projectID, rpp_Language = ''go'', rpp_PackagePath = package, rpp_AfterSourcePath = after,
        rpp_Limit = resolverPackagePageSize\<rparr> = Inr (take 128 (filter (\<lambda>t. after < rt_SourcePath t) (targets db projectID package)))"
    and ascending: "invar db \<Longrightarrow> sorted_wrt (<) (map rt_SourcePath (targets db projectID package))"
    and named: "t \<in> set (targets db projectID package) \<Longrightarrow> rt_SourcePath t \<noteq> ''''"
begin

definition readTargetOf :: "'db \<times> string \<times> string \<Rightarrow> string \<Rightarrow> 'e ResolveError + ResolverTarget" where
  "readTargetOf key path = (case find (\<lambda>t. rt_SourcePath t = path) (targets (fst key) (fst (snd key)) (snd (snd key))) of
     None \<Rightarrow> Inl (FileFactRequired path) | Some t \<Rightarrow> Inr t)"

lemma readTargetOf_known: "invar db \<Longrightarrow> t \<in> set (targets db projectID package) \<Longrightarrow> readTargetOf (db, projectID, package) (rt_SourcePath t) = Inr t"
  using find_key[OF ascending] by (simp add: readTargetOf_def)

lemma readTargetOf_all:
  assumes "invar db" "set ts \<subseteq> set (targets db projectID package)"
  shows "mapRes (readTargetOf (db, projectID, package)) (map rt_SourcePath ts) = Inr ts"
  unfolding mapRes_map using mapRes_all[of ts "\<lambda>t. readTargetOf (db, projectID, package) (rt_SourcePath t)" "\<lambda>t. t"]
    readTargetOf_known[OF assms(1)] assms(2) by auto

sublocale package_reads: paged_reads
  "\<lambda>key after. res_map_err (PackageRead (snd (snd key))) (index (fst key) \<lparr>rpp_ProjectID = fst (snd key), rpp_Language = ''go'',
     rpp_PackagePath = snd (snd key), rpp_AfterSourcePath = after, rpp_Limit = resolverPackagePageSize\<rparr>)"
  readTargetOf "\<lambda>key. map rt_SourcePath (targets (fst key) (fst (snd key)) (snd (snd key)))" rt_SourcePath 128
  "\<lambda>key. invar (fst key) \<and> fst (snd key) \<noteq> '''' \<and> snd (snd key) \<noteq> ''''"
proof (unfold_locales, goal_cases)
  case (2 key after)
  let ?ts = "targets (fst key) (fst (snd key)) (snd (snd key))"
  have "set (take 128 (filter (\<lambda>t. after < rt_SourcePath t) ?ts)) \<subseteq> set ?ts" using set_take_subset by fastforce
  then have "mapRes (readTargetOf (fst key, fst (snd key), snd (snd key))) (map rt_SourcePath (take 128 (filter (\<lambda>t. after < rt_SourcePath t) ?ts)))
      = Inr (take 128 (filter (\<lambda>t. after < rt_SourcePath t) ?ts))" using 2 by (intro readTargetOf_all) simp_all
  then show ?case using 2 page[of "fst key" "fst (snd key)" "snd (snd key)" after] by (simp add: take_map filter_map o_def)
next
  case (3 key)
  then show ?case by (intro ascending) simp
next
  case (4 key p t)
  then show ?case by (auto simp: readTargetOf_def find_Some_iff split: option.splits)
qed simp

text \<open>Visiting the targets of a package ends and visits each of them once, in order.\<close>

lemma visit_all:
  assumes "invar db" "projectID \<noteq> ''''" "package \<noteq> ''''"
  shows "visitPackageTargets (index db) projectID package visit st = Some (fold_res visit (targets db projectID package) st)"
proof -
  have "filter (\<lambda>t. '''' < rt_SourcePath t) (targets db projectID package) = targets db projectID package"
    unfolding filter_id_conv using named by (metis less_list_code(1) list.exhaust less_list_code(2))
  then have "mapRes (readTargetOf (db, projectID, package)) (filter (\<lambda>p. '''' < p) (map rt_SourcePath (targets db projectID package)))
      = Inr (targets db projectID package)"
    using readTargetOf_all[OF assms(1) subset_refl] by (simp add: filter_map o_def)
  then show ?thesis unfolding visitPackageTargets_def using package_reads.visit_from[of "(db, projectID, package)" "''''" "targets db projectID package" visit st] assms by simp
qed

lemma package_returns:
  assumes "invar db" "projectID \<noteq> []" "namedPackages modules"
  shows "returns (case packagePath modules importPath of None \<Rightarrow> Some r
      | Some package \<Rightarrow> visitPackageTargets (index db) projectID package visit s)"
    "packagePath modules importPath = Some package \<Longrightarrow> returns (visitPackageTargets (index db) projectID package visit s)"
  using assms by (auto simp: visit_all returns_def dest: namedPackagesD split: option.split)

text \<open>Resolving a page ends.\<close>

lemma implementations_return:
  assumes "invar db" "projectID \<noteq> ''''" "namedPackages modules"
    "Dir (c_sourcePath contribution) \<noteq> ''''"
  shows "returns (implementationsOfNode (index db) projectID modules contribution current st)"
proof -
  have imported: "returns (appendImportedInterfaceImplementations (index db) projectID modules contribution current methods s)" for methods s
    unfolding appendImportedInterfaceImplementations_def by (intro returning package_returns(1)) (use assms in simp_all)
  have "returns (appendEmbeddedInterfaces (index db) projectID (Dir (c_sourcePath contribution)) p current references st)" for p references
    using assms by (simp add: appendEmbeddedInterfaces_def Let_def visit_all returns_def)
  moreover have "returns (packageMethods (index db) projectID (Dir (c_sourcePath contribution)) p typeName st)" for p typeName
    using assms by (simp add: packageMethods_def visit_all returns_def)
  moreover have "returns (appendImplementedInterfaces (index db) projectID (Dir (c_sourcePath contribution)) p current methods s)" for p methods s
    using assms by (simp add: appendImplementedInterfaces_def visit_all returns_def)
  ultimately show ?thesis unfolding implementationsOfNode_def Let_def using imported
    by (auto split: prod.split intro!: returning)
qed

lemma page_returns:
  assumes "invar db" "namedPackages (newGoModuleResolver parser view)"
    "\<And>c. c \<in> set contributions \<Longrightarrow> Dir (c_sourcePath c) \<noteq> ''''"
  shows "returns (ResolvePage quoting parser contributions projectID (index db) view)"
proof (cases "projectID = ''''")
  case False
  let ?modules = "newGoModuleResolver parser view"
  have "returns (resolveImport quoting (index db) projectID ?modules sourcePath evidence reference s)" for sourcePath evidence reference s
    using package_returns(2)[OF assms(1) False assms(2)] by (auto simp: resolveImport_def split: option.split prod.split intro!: returning)
  moreover have "returns (searchImport (index db) projectID ?modules package symbol imported s)" for package symbol imported s
    unfolding searchImport_def Let_def by (rule package_returns(1)[OF assms(1) False assms(2)])
  then have "returns (resolveCall quoting (index db) projectID ?modules c reference s)" for c reference s
    unfolding resolveCall_def by (auto split: option.split intro!: returning)
  ultimately have "returns (resolveSource quoting (index db) projectID ?modules contributions sourcePath s)" for sourcePath s
    unfolding resolveSource_def by (auto split: option.split intro!: returning)
  moreover have "returns (importedMethodCall (index db) projectID ?modules c reference s)" for c reference s
    unfolding importedMethodCall_def
    using package_returns(2)[OF assms(1) False assms(2)] by (auto split: option.split intro!: returning)
  moreover have "returns (appendPageImplementationFacts (index db) projectID ?modules contributions s)" for s
    unfolding appendPageImplementationFacts_def
    using implementations_return[OF assms(1) False assms(2) assms(3)] by (auto intro!: returning)
  ultimately show ?thesis unfolding ResolvePage_def appendImportedMethodCallFacts_def Let_def
    by (auto split: option.split intro!: returning)
qed (simp add: ResolvePage_def returns_def)

text \<open>The import edges of a resolved page.\<close>

lemma resolveImport_edges:
  assumes "invar db" "projectID \<noteq> ''''" "namedPackages modules"
    "resolveImport quoting (index db) projectID modules sourcePath evidence reference st = Some (Inr st')"
  shows "relationEdges r st' = relationEdges r st
    @ (if r = ImportsFromRelation then importsOfReference modules (targets db projectID) evidence reference else [])"
proof (cases "packagePath modules (ur_Target reference)")
  case None
  then show ?thesis using assms(4) by (simp add: resolveImport_def importsOfReference_def)
next
  case (Some package)
  then have "bindO (Some (fold_res (visitImport reference evidence) (targets db projectID package) (False, st))) (\<lambda>(foundTarget, st).
      Some (Inr (if foundTarget then st else warn (notIndexedWarning quoting (ur_Target reference) sourcePath) st)))
    = (Some (Inr st') :: ('e ResolveError + pageState) option)"
    using assms(4) by (simp add: resolveImport_def visit_all[OF assms(1,2) namedPackagesD[OF assms(3) Some]])
  then obtain x where x: "fold_res (visitImport reference evidence) (targets db projectID package) (False, st) = (Inr x :: 'e ResolveError + _)"
    "(case x of (found, s) \<Rightarrow> if found then s else warn (notIndexedWarning quoting (ur_Target reference) sourcePath) s) = st'"
    unfolding bindO_Inr by (auto split: prod.splits)
  obtain found s where fs: "x = (found, s)" by (cases x)
  note visited = x(1)[unfolded fs]
  have st': "st' = (if found then s else warn (notIndexedWarning quoting (ur_Target reference) sourcePath) s)" using x(2) by (simp add: fs)
  have "relationEdges r (snd (found, s)) = relationEdges r (snd (False, st))
      @ concat (map (\<lambda>t. if r = ImportsFromRelation
          then importEdges (ur_SourceID reference) evidence (node_ID (the (targetFile (rt_Nodes t)))) (rt_ExportedSurfaces t) else [])
          (targets db projectID package))"
    using visited by (rule fold_res_appends) (auto simp: visitImport_def importEdges_relation split: option.splits)
  then show ?thesis by (cases "r = ImportsFromRelation") (simp_all add: st' importsOfReference_def Some importsOfTargets_def)
qed

lemma resolveImport_keeps:
  assumes "invar db" "projectID \<noteq> []" "namedPackages modules"
    "r \<noteq> ImportsFromRelation" "resolveImport quoting (index db) projectID modules sourcePath evidence reference st = Some (Inr st')"
  shows "relationEdges r st' = relationEdges r st"
  using resolveImport_edges[OF assms(1-3,5), where r = r] assms(4) by simp

lemma resolveCall_keeps:
  assumes "invar db" "projectID \<noteq> ''''" "namedPackages modules"
    "r \<noteq> CallsRelation" "resolveCall quoting (index db) projectID modules c reference st = Some (Inr st')"
  shows "relationEdges r st' = relationEdges r st"
proof (cases "Cut CHR ''.'' (sr_Target reference)")
  case None
  then show ?thesis using assms(5) by (simp add: resolveCall_def)
next
  case (Some cut)
  obtain package symbol where cut: "cut = (package, symbol)" by (cases cut)
  have search: "relationEdges r (cs_page s') = relationEdges r (cs_page s)"
    if found: "searchImport (index db) projectID modules package symbol imported s = Some (Inr s')" for imported s s'
  proof (cases "packagePath modules (ur_Target imported)")
    case None
    then show ?thesis using found by (auto simp: searchImport_def Let_def)
  next
    case (Some directory)
    then have "fold_res (visitCallTarget imported package symbol) (targets db projectID directory)
        (s\<lparr>cs_matchingImport := cs_matchingImport s \<or> importHasLocalBinding imported package\<rparr>) = (Inr s' :: 'e ResolveError + callSearch)"
      using found by (simp add: searchImport_def Let_def visit_all[OF assms(1,2) namedPackagesD[OF assms(3) Some]])
    then have "relationEdges r (cs_page s') = relationEdges r (cs_page (s\<lparr>cs_matchingImport := cs_matchingImport s \<or> importHasLocalBinding imported package\<rparr>))"
      by (rule fold_res_keeps) (rule visitCallTarget_keeps)
    then show ?thesis by simp
  qed
  obtain s where s: "foldO (searchImport (index db) projectID modules package symbol) (c_unresolvedReferences c)
      \<lparr>cs_matches = [], cs_matchingImport = False, cs_resolvedPackage = False, cs_page = st\<rparr> = Some (Inr s)"
    and st': "st' = finishCall quoting (c_sourcePath c) reference s"
    using assms(5) by (auto simp: resolveCall_def Some cut bindO_Inr)
  have "relationEdges r (cs_page s) = relationEdges r (cs_page \<lparr>cs_matches = [], cs_matchingImport = False, cs_resolvedPackage = False, cs_page = st\<rparr>)"
    using s by (rule foldO_keeps) (rule search)
  then show ?thesis using assms(4) by (simp add: st' finishCall_keeps)
qed

text \<open>The import edges and the implements edges a page adds.\<close>

lemma importedMethodCall_keeps:
  assumes "invar db" "projectID \<noteq> ''''" "namedPackages modules"
    "r \<noteq> CallsRelation" "importedMethodCall (index db) projectID modules c reference st = Some (Inr st')"
  shows "relationEdges r st' = relationEdges r st"
proof -
  have visit: "relationEdges r (snd s') = relationEdges r (snd s)"
    if "(case packagePath modules (ur_Target imported) of None \<Rightarrow> Some (Inr s)
      | Some package \<Rightarrow> visitPackageTargets (index db) projectID package (visitMethod label reference) s) = Some (Inr s')" for imported label s s'
  proof (cases "packagePath modules (ur_Target imported)")
    case (Some package)
    then have "fold_res (visitMethod label reference) (targets db projectID package) s = (Inr s' :: 'e ResolveError + _)"
      using that by (simp add: visit_all[OF assms(1,2) namedPackagesD[OF assms(3) Some]])
    then show ?thesis by (rule fold_res_keeps) (rule visitMethod_keeps[OF assms(4)])
  qed (use that in simp)
  show ?thesis
  proof (cases "Cut CHR ''.'' (sr_Target reference)")
    case (Some cut)
    obtain receiver label where cut: "cut = (receiver, label)" by (cases cut)
    show ?thesis
    proof (cases "receiver \<in> (\<lambda>r. Base (ur_Target r)) ` set (c_unresolvedReferences c)")
      case True
      then obtain s where s: "foldO (\<lambda>imported s. case packagePath modules (ur_Target imported) of None \<Rightarrow> Some (Inr s)
            | Some package \<Rightarrow> visitPackageTargets (index db) projectID package (visitMethod label reference) s)
          (c_unresolvedReferences c) ([], st) = Some (Inr s)" "st' = snd s"
        using assms(5) by (auto simp: importedMethodCall_def Some cut bindO_Inr)
      have "relationEdges r (snd s) = relationEdges r (snd ([] :: string list, st))" using s(1) by (rule foldO_keeps) (rule visit)
      then show ?thesis by (simp add: s(2))
    qed (use assms(5) in \<open>simp add: importedMethodCall_def Some cut\<close>)
  qed (use assms(5) in \<open>simp add: importedMethodCall_def\<close>)
qed

lemma importedInterfaces_between:
  assumes "invar db" "projectID \<noteq> ''''" "namedPackages modules"
    "appendImportedInterfaceImplementations (index db) projectID modules c current methods st = Some (Inr st')"
  shows "set (relationEdges ImplementsRelation st) \<subseteq> set (relationEdges ImplementsRelation st')
    \<and> set (relationEdges ImplementsRelation st') \<subseteq> set (relationEdges ImplementsRelation st) \<union> implementsOfTypes (targets db projectID)"
    and "r \<noteq> ImplementsRelation \<Longrightarrow> relationEdges r st' = relationEdges r st"
proof -
  let ?visit = "\<lambda>imported s. case packagePath modules (ur_Target imported) of None \<Rightarrow> Some (Inr s)
      | Some package \<Rightarrow> visitPackageTargets (index db) projectID package (visitImported current methods) s"
  obtain s where s: "foldO ?visit (c_unresolvedReferences c) ([], st) = Some (Inr s)" "st' = snd s"
    using assms(4) by (auto simp: appendImportedInterfaceImplementations_def bindO_Inr)
  have visited: "s = s' \<or> (\<exists>package. fold_res (visitImported current methods) (targets db projectID package) s = (Inr s' :: 'e ResolveError + _))"
    if "?visit imported s = Some (Inr s')" for imported s s'
  proof (cases "packagePath modules (ur_Target imported)")
    case (Some package)
    then show ?thesis using that by (auto simp: visit_all[OF assms(1,2) namedPackagesD[OF assms(3) Some]])
  qed (use that in simp)
  have "set (relationEdges ImplementsRelation (snd ([] :: string list, st))) \<union> \<Union> ((\<lambda>_. {}) ` set (c_unresolvedReferences c))
        \<subseteq> set (relationEdges ImplementsRelation (snd s))
      \<and> set (relationEdges ImplementsRelation (snd s)) \<subseteq> set (relationEdges ImplementsRelation (snd ([] :: string list, st)))
        \<union> \<Union> ((\<lambda>_. {}) ` set (c_unresolvedReferences c)) \<union> implementsOfTypes (targets db projectID)"
    using s(1)
  proof (rule foldO_between)
    fix imported a b assume "?visit imported a = Some (Inr b)"
    from visited[OF this] show "set (relationEdges ImplementsRelation (snd a)) \<union> {} \<subseteq> set (relationEdges ImplementsRelation (snd b))
        \<and> set (relationEdges ImplementsRelation (snd b)) \<subseteq> set (relationEdges ImplementsRelation (snd a)) \<union> {} \<union> implementsOfTypes (targets db projectID)"
    proof (elim disjE exE)
      fix package assume "fold_res (visitImported current methods) (targets db projectID package) a = (Inr b :: 'e ResolveError + _)"
      from fold_res_imported[where targets = "targets db projectID", OF this subset_refl] show ?thesis by simp
    qed simp
  qed
  then show "set (relationEdges ImplementsRelation st) \<subseteq> set (relationEdges ImplementsRelation st')
    \<and> set (relationEdges ImplementsRelation st') \<subseteq> set (relationEdges ImplementsRelation st) \<union> implementsOfTypes (targets db projectID)"
    by (simp add: s(2))
  assume r: "r \<noteq> ImplementsRelation"
  have "relationEdges r (snd s) = relationEdges r (snd ([] :: string list, st))" using s(1)
  proof (rule foldO_keeps)
    fix imported a b assume "?visit imported a = Some (Inr b)"
    from visited[OF this] show "relationEdges r (snd b) = relationEdges r (snd a)"
      using fold_res_keeps[where g = "\<lambda>s. relationEdges r (snd s)"] visitImported_keeps[OF r] by metis
  qed
  then show "relationEdges r st' = relationEdges r st" by (simp add: s(2))
qed

lemma implementationsOfNode_between:
  assumes "invar db" "projectID \<noteq> ''''" "namedPackages modules"
    "Dir (c_sourcePath c) \<noteq> ''''" "implementationsOfNode (index db) projectID modules c current st = Some (Inr st')"
  shows "set (relationEdges ImplementsRelation st)
      \<union> implementsOfNode (targets db projectID (Dir (c_sourcePath c))) (packageName (facts_Nodes (c_facts c))) current
    \<subseteq> set (relationEdges ImplementsRelation st')
    \<and> set (relationEdges ImplementsRelation st') \<subseteq> set (relationEdges ImplementsRelation st)
      \<union> implementsOfNode (targets db projectID (Dir (c_sourcePath c))) (packageName (facts_Nodes (c_facts c))) current
      \<union> implementsOfTypes (targets db projectID)"
    and "relationEdges ImportsFromRelation st' = relationEdges ImportsFromRelation st"
proof -
  let ?p = "packageName (facts_Nodes (c_facts c))" and ?ts = "targets db projectID (Dir (c_sourcePath c))"
  note own = visit_all[OF assms(1,2,4)]
  consider (interface) "node_Kind current = InterfaceNodeKind"
    | (other) "node_Kind current \<noteq> InterfaceNodeKind" "\<not> isImplementationNodeKind (node_Kind current)"
    | (type) "node_Kind current \<noteq> InterfaceNodeKind" "isImplementationNodeKind (node_Kind current)" by blast
  then have "(set (relationEdges ImplementsRelation st) \<union> implementsOfNode ?ts ?p current \<subseteq> set (relationEdges ImplementsRelation st')
      \<and> set (relationEdges ImplementsRelation st') \<subseteq> set (relationEdges ImplementsRelation st) \<union> implementsOfNode ?ts ?p current
        \<union> implementsOfTypes (targets db projectID))
    \<and> relationEdges ImportsFromRelation st' = relationEdges ImportsFromRelation st"
  proof cases
    case interface
    then have "\<not> isImplementationNodeKind (node_Kind current)" by (simp add: isImplementationNodeKind_def goKinds)
    moreover have kept: "relationEdges r st' = relationEdges r st" if "r \<noteq> EmbedsRelation" for r
    proof (cases "relationReferencesForSource (c_symbolReferences c) (node_ID current) EmbedsRelation = []")
      case False
      then have "fold_res (visitEmbedded ?p current (relationReferencesForSource (c_symbolReferences c) (node_ID current) EmbedsRelation)) ?ts st
          = (Inr st' :: 'e ResolveError + _)"
        using assms(5) interface by (simp add: implementationsOfNode_def appendEmbeddedInterfaces_def Let_def own)
      then show ?thesis by (rule fold_res_keeps) (rule visitEmbedded_keeps[OF that])
    qed (use assms(5) interface in \<open>simp add: implementationsOfNode_def appendEmbeddedInterfaces_def Let_def\<close>)
    ultimately show ?thesis using kept[of ImportsFromRelation] kept[of ImplementsRelation] by (simp add: implementsOfNode_def)
  next
    case other
    then show ?thesis using assms(5) by (simp add: implementationsOfNode_def Let_def implementsOfNode_def)
  next
    case type
    obtain methods s1 s2 where s1: "fold_res (visitMethods ?p (node_Label current)) ?ts ({}, st) = (Inr (methods, s1) :: 'e ResolveError + _)"
      and s2: "fold_res (visitInterfaces ?p current methods) ?ts s1 = (Inr s2 :: 'e ResolveError + _)"
      and rest: "appendImportedInterfaceImplementations (index db) projectID modules c current methods s2 = Some (Inr st')"
      using assms(5) type
      by (auto simp: implementationsOfNode_def Let_def bindO_Inr packageMethods_def appendImplementedInterfaces_def own)
    have methods: "methods = methodSet ?ts ?p (node_Label current)" using fold_res_methods[OF s1] by simp
    have keep: "relationEdges r (snd (methods, s1)) = relationEdges r (snd ({} :: string set, st))" for r
      using s1 by (rule fold_res_keeps) (rule visitMethods_keeps)
    have keep2: "relationEdges ImportsFromRelation s2 = relationEdges ImportsFromRelation s1"
      using s2 by (rule fold_res_keeps) (rule visitInterfaces_keeps[OF relations_differ(5)])
    have "set (relationEdges ImplementsRelation s2) = set (relationEdges ImplementsRelation st) \<union> implementsOfNode ?ts ?p current"
      using fold_res_interfaces[OF s2] keep[of ImplementsRelation] type(2) by (simp add: implementsOfNode_def methods)
    then show ?thesis
      using importedInterfaces_between[OF assms(1,2,3) rest] keep2 keep[of ImportsFromRelation] relations_differ(5) by auto
  qed
  then show "set (relationEdges ImplementsRelation st) \<union> implementsOfNode ?ts ?p current \<subseteq> set (relationEdges ImplementsRelation st')
      \<and> set (relationEdges ImplementsRelation st') \<subseteq> set (relationEdges ImplementsRelation st) \<union> implementsOfNode ?ts ?p current
        \<union> implementsOfTypes (targets db projectID)"
    "relationEdges ImportsFromRelation st' = relationEdges ImportsFromRelation st" by blast+
qed

lemma pageImplementations_between:
  assumes "invar db" "projectID \<noteq> ''''" "namedPackages modules"
    "\<And>c. c \<in> set contributions \<Longrightarrow> Dir (c_sourcePath c) \<noteq> ''''"
    "appendPageImplementationFacts (index db) projectID modules contributions st = Some (Inr st')"
  shows "set (relationEdges ImplementsRelation st) \<union> \<Union> (implementsOfContribution (targets db projectID) ` set contributions)
    \<subseteq> set (relationEdges ImplementsRelation st')
    \<and> set (relationEdges ImplementsRelation st') \<subseteq> set (relationEdges ImplementsRelation st)
      \<union> \<Union> (implementsOfContribution (targets db projectID) ` set contributions) \<union> implementsOfTypes (targets db projectID)"
    and "relationEdges ImportsFromRelation st' = relationEdges ImportsFromRelation st"
proof -
  let ?step = "\<lambda>c st. if packageName (facts_Nodes (c_facts c)) = '''' then Some (Inr st)
    else foldO (implementationsOfNode (index db) projectID modules c) (facts_Nodes (c_facts c)) st"
  note run = assms(5)[unfolded appendPageImplementationFacts_def]
  show "set (relationEdges ImplementsRelation st) \<union> \<Union> (implementsOfContribution (targets db projectID) ` set contributions)
    \<subseteq> set (relationEdges ImplementsRelation st')
    \<and> set (relationEdges ImplementsRelation st') \<subseteq> set (relationEdges ImplementsRelation st)
      \<union> \<Union> (implementsOfContribution (targets db projectID) ` set contributions) \<union> implementsOfTypes (targets db projectID)"
    using run
  proof (rule foldO_between)
    fix c s s' assume c: "c \<in> set contributions" and step: "?step c s = Some (Inr s')"
    let ?nodes = "facts_Nodes (c_facts c)" and ?g = "\<lambda>s. set (relationEdges ImplementsRelation s)"
    show "?g s \<union> implementsOfContribution (targets db projectID) c \<subseteq> ?g s'
      \<and> ?g s' \<subseteq> ?g s \<union> implementsOfContribution (targets db projectID) c \<union> implementsOfTypes (targets db projectID)"
    proof (cases "packageName ?nodes = ''''")
      case False
      then have "foldO (implementationsOfNode (index db) projectID modules c) ?nodes s = Some (Inr s')" using step by simp
      then have "?g s \<union> \<Union> (implementsOfNode (targets db projectID (Dir (c_sourcePath c))) (packageName ?nodes) ` set ?nodes) \<subseteq> ?g s'
        \<and> ?g s' \<subseteq> ?g s \<union> \<Union> (implementsOfNode (targets db projectID (Dir (c_sourcePath c))) (packageName ?nodes) ` set ?nodes)
          \<union> implementsOfTypes (targets db projectID)"
        by (rule foldO_between) (rule implementationsOfNode_between(1)[OF assms(1-3) assms(4)[OF c]])
      then show ?thesis using False by (simp add: implementsOfContribution_def Let_def)
    qed (use step in \<open>simp add: implementsOfContribution_def\<close>)
  qed
  show "relationEdges ImportsFromRelation st' = relationEdges ImportsFromRelation st"
    using run
  proof (rule foldO_keeps)
    fix c s s' assume c: "c \<in> set contributions" and step: "?step c s = Some (Inr s')"
    show "relationEdges ImportsFromRelation s' = relationEdges ImportsFromRelation s"
    proof (cases "packageName (facts_Nodes (c_facts c)) = ''''")
      case False
      then have "foldO (implementationsOfNode (index db) projectID modules c) (facts_Nodes (c_facts c)) s = Some (Inr s')" using step by simp
      then show ?thesis by (rule foldO_keeps) (rule implementationsOfNode_between(2)[OF assms(1-3) assms(4)[OF c]])
    qed (use step in simp)
  qed
qed

lemma resolveSource_edges:
  assumes "invar db" "projectID \<noteq> ''''" "namedPackages modules"
    "resolveSource quoting (index db) projectID modules contributions sourcePath st = Some (Inr st')"
  shows "relationEdges ImportsFromRelation st' = relationEdges ImportsFromRelation st
      @ importsOfSource modules (targets db projectID) contributions sourcePath"
    "relationEdges ImplementsRelation st' = relationEdges ImplementsRelation st"
proof -
  have "relationEdges ImportsFromRelation st' = relationEdges ImportsFromRelation st
        @ importsOfSource modules (targets db projectID) contributions sourcePath
    \<and> relationEdges ImplementsRelation st' = relationEdges ImplementsRelation st"
  proof (cases "contributionAt contributions sourcePath")
    case None
    then show ?thesis using assms(4) by (simp add: resolveSource_def importsOfSource_def)
  next
    case (Some c)
    then obtain s where s: "foldO (resolveImport quoting (index db) projectID modules sourcePath (fileEvidence c)) (c_unresolvedReferences c) st
        = Some (Inr s)" "foldO (resolveCall quoting (index db) projectID modules c) (callReferences c) s = Some (Inr st')"
      using assms(4) by (auto simp: resolveSource_def bindO_Inr)
    have "relationEdges ImportsFromRelation s = relationEdges ImportsFromRelation st
        @ concat (map (importsOfReference modules (targets db projectID) (fileEvidence c)) (c_unresolvedReferences c))"
      using s(1) by (rule foldO_appends) (use resolveImport_edges[OF assms(1-3), where r = ImportsFromRelation] in simp)
    moreover have "relationEdges ImplementsRelation s = relationEdges ImplementsRelation st"
      using s(1) by (rule foldO_keeps) (rule resolveImport_keeps[OF assms(1-3) relations_differ(5)[symmetric]])
    moreover have kept: "relationEdges r st' = relationEdges r s" if "r \<noteq> CallsRelation" for r
      using s(2) by (rule foldO_keeps) (rule resolveCall_keeps[OF assms(1-3) that])
    ultimately show ?thesis using kept[of ImportsFromRelation] kept[of ImplementsRelation] by (simp add: importsOfSource_def Some)
  qed
  then show "relationEdges ImportsFromRelation st' = relationEdges ImportsFromRelation st
      @ importsOfSource modules (targets db projectID) contributions sourcePath"
    "relationEdges ImplementsRelation st' = relationEdges ImplementsRelation st" by blast+
qed

lemma page_edges:
  assumes "invar db" "namedPackages (newGoModuleResolver parser view)" "\<And>c. c \<in> set contributions \<Longrightarrow> Dir (c_sourcePath c) \<noteq> ''''"
    "ResolvePage quoting parser contributions projectID (index db) view = Some (Inr resolution)"
  shows "filter (\<lambda>e. edge_Relation e = ImportsFromRelation) (facts_Edges (rn_facts resolution))
      = sortEdges (pageImports (newGoModuleResolver parser view) (targets db projectID) contributions)"
    and "\<Union> (implementsOfContribution (targets db projectID) ` set contributions)
        \<subseteq> {e \<in> set (facts_Edges (rn_facts resolution)). edge_Relation e = ImplementsRelation}
      \<and> {e \<in> set (facts_Edges (rn_facts resolution)). edge_Relation e = ImplementsRelation}
        \<subseteq> \<Union> (implementsOfContribution (targets db projectID) ` set contributions) \<union> implementsOfTypes (targets db projectID)"
proof -
  let ?modules = "newGoModuleResolver parser view"
  define initial where "initial = fold (\<lambda>c. putResolverNodes (facts_Nodes (c_facts c))) contributions \<lparr>pg_nodes = [], pg_edges = [], pg_diagnostics = []\<rparr>"
  define local where "local = appendLocalMethodCallFacts quoting contributions (appendLocalCallFacts contributions initial)"
  have project: "projectID \<noteq> ''''" using assms(4) by (auto simp: ResolvePage_def)
  have "bindO (foldO (resolveSource quoting (index db) projectID ?modules contributions) (uniqueSortedStrings (map c_sourcePath contributions)) local) (\<lambda>st.
      bindO (appendImportedMethodCallFacts (index db) projectID ?modules contributions st) (\<lambda>st.
      bindO (appendPageImplementationFacts (index db) projectID ?modules contributions st) (\<lambda>st.
      Some (validatedResolution (pageResolution st))))) = Some (Inr resolution)"
    using assms(4) project unfolding ResolvePage_def Let_def initial_def[symmetric] local_def[symmetric] by (simp split: option.splits)
  then obtain s1 s2 s3 where s1: "foldO (resolveSource quoting (index db) projectID ?modules contributions)
        (uniqueSortedStrings (map c_sourcePath contributions)) local = Some (Inr s1)"
    and s2: "appendImportedMethodCallFacts (index db) projectID ?modules contributions s1 = Some (Inr s2)"
    and s3: "appendPageImplementationFacts (index db) projectID ?modules contributions s2 = Some (Inr s3)"
    and valid: "validatedResolution (pageResolution s3) = (Inr resolution :: 'e ResolveError + Resolution)"
    unfolding bindO_Inr by blast
  have resolution: "resolution = pageResolution s3" using valid by (auto simp: validatedResolution_def split: sum.splits option.splits)
  have start: "relationEdges r local = []" if "r \<noteq> CallsRelation" for r
  proof -
    have "relationEdges r initial = relationEdges r \<lparr>pg_nodes = [], pg_edges = [], pg_diagnostics = []\<rparr>"
      unfolding initial_def by (rule fold_keeps) simp
    then show ?thesis using that by (simp add: local_def local_calls_keep) (simp add: relationEdges_def)
  qed
  have calls: "relationEdges r s2 = relationEdges r s1" if "r \<noteq> CallsRelation" for r
    using s2 unfolding appendImportedMethodCallFacts_def
    by (rule foldO_keeps) (erule foldO_keeps, rule importedMethodCall_keeps[OF assms(1) project assms(2) that])
  have "relationEdges ImportsFromRelation s1 = relationEdges ImportsFromRelation local
      @ concat (map (importsOfSource ?modules (targets db projectID) contributions) (uniqueSortedStrings (map c_sourcePath contributions)))"
    using s1 by (rule foldO_appends) (rule resolveSource_edges(1)[OF assms(1) project assms(2)])
  then have imports1: "relationEdges ImportsFromRelation s3 = pageImports ?modules (targets db projectID) contributions"
    using pageImplementations_between(2)[OF assms(1) project assms(2,3) s3] calls[of ImportsFromRelation] start[of ImportsFromRelation]
    by (simp add: pageImports_def)
  have "relationEdges ImplementsRelation s1 = relationEdges ImplementsRelation local"
    using s1 by (rule foldO_keeps) (rule resolveSource_edges(2)[OF assms(1) project assms(2)])
  then have none: "relationEdges ImplementsRelation s2 = []" using calls[of ImplementsRelation] start[of ImplementsRelation] by simp
  show "filter (\<lambda>e. edge_Relation e = ImportsFromRelation) (facts_Edges (rn_facts resolution))
      = sortEdges (pageImports ?modules (targets db projectID) contributions)"
    using imports1 by (simp add: resolution pageResolution_def sortEdges_def filter_sort relationEdges_def)
  have "{e \<in> set (facts_Edges (rn_facts resolution)). edge_Relation e = ImplementsRelation} = set (relationEdges ImplementsRelation s3)"
    by (auto simp: resolution pageResolution_def sortEdges_def relationEdges_def)
  then show "\<Union> (implementsOfContribution (targets db projectID) ` set contributions)
        \<subseteq> {e \<in> set (facts_Edges (rn_facts resolution)). edge_Relation e = ImplementsRelation}
      \<and> {e \<in> set (facts_Edges (rn_facts resolution)). edge_Relation e = ImplementsRelation}
        \<subseteq> \<Union> (implementsOfContribution (targets db projectID) ` set contributions) \<union> implementsOfTypes (targets db projectID)"
    using pageImplementations_between(1)[OF assms(1) project assms(2,3) s3] none by simp
qed

end

subsection \<open>The store as an index\<close>

lemma Clean_nonempty: "Clean p \<noteq> ''''"
proof (cases "isAbs p")
  case False
  then obtain es where es: "clean_elems False es" "Clean p = (if es = [] then ''.'' else join [slash] es)"
    using Clean_elems[of p] by auto
  show ?thesis
  proof (cases es)
    case (Cons x xs)
    then show ?thesis using es(2) clean_elems_no_slash[OF es(1), of x] join_Cons[of "[slash]" x xs] by auto
  qed (use es(2) in simp)
qed (simp add: Clean_def Let_def)

text \<open>The targets of a package in the store: the contributions in Go whose path the package filter accepts.\<close>

definition storeTargets :: "UnicodeTables \<Rightarrow> Snapshot \<Rightarrow> Database \<Rightarrow> string \<Rightarrow> string \<Rightarrow> ResolverTarget list" where
  "storeTargets u snapshot db projectID package =
    (case readProjections u db snapshot of Inl _ \<Rightarrow> []
     | Inr projections \<Rightarrow> map (targetOf projectID)
         (languageProjections projectID ''go'' (\<lambda>p. p \<noteq> '''' \<and> packageFilter package p) projections))"

definition readableStore :: "UnicodeTables \<Rightarrow> Snapshot \<Rightarrow> Database \<Rightarrow> bool" where
  "readableStore u snapshot db \<longleftrightarrow> wf_store db \<and> snap_Workspace snapshot \<noteq> '''' \<and> snap_Version snapshot \<noteq> 0
     \<and> (\<exists>projections. readProjections u db snapshot = Inr projections)"

lemma mapRes_take: "mapRes f xs = Inr ys \<Longrightarrow> mapRes f (take n xs) = Inr (take n ys)"
  by (simp add: mapRes_Inr list_all2_takeI)

lemma read_paths: "mapRes (readHeader u db sn projectID language) paths = Inr projections \<Longrightarrow> map rp_SourcePath projections = paths"
  unfolding mapRes_Inr
proof (induction rule: list_all2_induct)
  case (Cons p paths t projections)
  then show ?case by (simp add: readHeader_path)
qed simp

lemma targetOf_path [simp]: "rt_SourcePath (targetOf projectID p) = rp_SourcePath p"
  by (simp add: targetOf_def)

interpretation store_index: package_index "\<lambda>db. ResolverPackagePage u db sn" "storeTargets u sn" "readableStore u sn" for u sn
proof (unfold_locales, goal_cases)
  case (1 db projectID package after)
  then obtain projections where wf: "wf_store db" and sn: "snap_Workspace sn \<noteq> ''''" "snap_Version sn \<noteq> 0"
    and ps: "readProjections u db sn = Inr projections" by (auto simp: readableStore_def)
  have readable: "readableSnapshot sn projectID ''go'' db \<and> package \<noteq> ''''" using 1 wf sn by (simp add: readableSnapshot_def)
  let ?accepted = "\<lambda>p. after < p \<and> p \<noteq> '''' \<and> packageFilter package p"
  have "filter (\<lambda>p. after < p) (packagePathsOf sn projectID ''go'' package db) = filter ?accepted (projectionPaths sn projectID ''go'' db)"
    unfolding packagePathsOf_def filter_filter by (rule filter_cong[OF refl]) auto
  then have "mapRes (readPackageTarget u sn projectID ''go'' db) (filter (\<lambda>p. after < p) (packagePathsOf sn projectID ''go'' package db))
      = Inr (map (targetOf projectID) (languageProjections projectID ''go'' ?accepted projections))"
    using mapRes_after[OF read_accepted[OF wf ps]] by (simp add: readPackageTarget_def[abs_def])
  moreover have "filter (\<lambda>t. after < rt_SourcePath t) (storeTargets u sn db projectID package)
      = map (targetOf projectID) (languageProjections projectID ''go'' ?accepted projections)"
    by (simp add: storeTargets_def ps filter_map o_def languageProjections_def conj_ac)
  ultimately show ?case using package_pages.page[OF readable, of u after] by (simp add: mapRes_take)
next
  case (2 db projectID package)
  then obtain projections where wf: "wf_store db" and ps: "readProjections u db sn = Inr projections" by (auto simp: readableStore_def)
  let ?accepted = "\<lambda>p. p \<noteq> '''' \<and> packageFilter package p"
  have "map rt_SourcePath (storeTargets u sn db projectID package) = filter ?accepted (projectionPaths sn projectID ''go'' db)"
    using read_paths[OF read_accepted[OF wf ps, of projectID "''go''" ?accepted]] by (simp add: storeTargets_def ps o_def)
  then show ?case using languageHeaders_ascending[OF wf] by (simp add: sorted_wrt_filter projectionPaths_def)
next
  case (3 t db projectID package)
  then show ?case by (auto simp: storeTargets_def languageProjections_def split: sum.splits)
qed

subsection \<open>Properties\<close>

lemma localDirectory_nonempty: "localModuleDirectory value = Some directory \<Longrightarrow> directory \<noteq> ''''"
  using Clean_nonempty[of "TrimSpace value"] by (auto simp: localModuleDirectory_def Let_def split: if_splits)

lemma Join_nonempty: "a \<noteq> '''' \<Longrightarrow> Join [a, b] \<noteq> ''''"
  by (simp add: Join_def Let_def Clean_nonempty)

lemma addModuleFile_directories:
  assumes "directory \<noteq> ''''" "\<forall>m\<in>set mappings. gm_directory m \<noteq> ''''"
  shows "\<forall>m\<in>set (addModuleFile parser path contents directory mappings). gm_directory m \<noteq> ''''"
  using assms Join_nonempty by (auto simp: addModuleFile_def split: option.splits if_splits)

lemma addUse_directories:
  "\<forall>m\<in>set mappings. gm_directory m \<noteq> '''' \<Longrightarrow> \<forall>m\<in>set (addUse parser view usePath mappings). gm_directory m \<noteq> ''''"
  by (auto simp: addUse_def addWorkspaceModule_def dest: localDirectory_nonempty split: option.splits)

lemma modules_directories: "\<forall>m\<in>set (newGoModuleResolver parser view). gm_directory m \<noteq> ''''"
proof -
  have uses: "\<forall>m\<in>set (fold (addUse parser view) uses mappings). gm_directory m \<noteq> ''''"
    if "\<forall>m\<in>set mappings. gm_directory m \<noteq> ''''" for uses mappings
    using that
  proof (induction uses arbitrary: mappings)
    case (Cons u uses)
    show ?case using Cons.IH[OF addUse_directories[OF Cons.prems]] by simp
  qed simp
  let ?start = "case viewFile view ''go.mod'' of None \<Rightarrow> [] | Some contents \<Rightarrow> addModuleFile parser ''go.mod'' contents ''.'' []"
  have start: "\<forall>m\<in>set ?start. gm_directory m \<noteq> ''''"
  proof (cases "viewFile view ''go.mod''")
    case (Some contents)
    then show ?thesis using addModuleFile_directories[of "''.''" "[]" parser "''go.mod''" contents] by simp
  qed simp
  show ?thesis
  proof (cases "viewFile view ''go.work''")
    case None
    show ?thesis unfolding newGoModuleResolver_def Let_def None option.case by (rule start)
  next
    case (Some workContents)
    show ?thesis unfolding newGoModuleResolver_def Let_def Some option.case
      by (cases "ParseWork parser workContents"; simp only: option.case) (rule start, rule uses[OF start])
  qed
qed

lemma modules_named: "namedPackages (newGoModuleResolver parser view)"
proof -
  have "package \<noteq> []" if placed: "packagePath (newGoModuleResolver parser view) importPath = Some package" for importPath package
  proof -
    obtain m where m: "fold (betterMapping importPath) (newGoModuleResolver parser view) None = Some m"
      using placed by (auto simp: packagePath_def split: option.splits)
    then have "gm_directory m \<noteq> ''''" using bestMapping[OF m] modules_directories by auto
    then show ?thesis using placed Join_nonempty by (auto simp: packagePath_def m split: if_splits)
  qed
  then show ?thesis by (auto simp: namedPackages_def)
qed

lemma Dir_nonempty: "Dir p \<noteq> ''''"
  by (simp add: Dir_def Clean_nonempty)

text \<open>C32: Resolving any page of Go contributions against the packages of a readable snapshot ends, with a resolution
  or an error.\<close>

theorem go_page_returns:
  assumes "readableStore u sn db"
  shows "\<exists>result. ResolvePage quoting parser contributions projectID (ResolverPackagePage u db sn) view = Some result"
  using store_index.page_returns[OF assms modules_named Dir_nonempty, of quoting parser contributions projectID] by (simp add: returns_def)







text \<open>A page of one file, resolved against the store it is published in.\<close>

definition emptyView :: ResolverFileView where
  "emptyView = \<lparr>rv_projectRoot = ''r'', rv_files = Map.empty\<rparr>"

definition noParser :: modfile where
  "noParser = \<lparr>Parse = \<lambda>_ _. None, ParseWork = \<lambda>_. None\<rparr>"



lemma readable_example:
  "\<exists>sn db. publish sample_config [0] 30 roundtrip_request emptyDatabase = Inr (sn, db) \<and> readableStore asciiTables sn db"
  using roundtrip_example unfolding readableStore_def by blast

theorem go_page_returns_witness:
  "\<exists>sn db result. publish sample_config [0] 30 roundtrip_request emptyDatabase = Inr (sn, db)
    \<and> ResolvePage (\<lambda>s. s) noParser [sample_contribution ''a'' [sample_node ''n'' ''file'']] ''p'' (ResolverPackagePage asciiTables db sn) emptyView
      = Some result"
  using readable_example go_page_returns by blast


text \<open>A package with a struct t that has the method m, which its interface i requires.\<close>

definition goFile :: Node where "goFile = sample_node ''f'' fileKind"
definition goInterface :: Node where "goInterface = sample_node ''i'' InterfaceNodeKind"
definition goMethod :: Node where "goMethod = (sample_node ''m'' MethodNodeKind)\<lparr>node_QualifiedName := ''p.t.m''\<rparr>"
definition goPackage :: Node where "goPackage = sample_node ''p'' PackageNodeKind"
definition goStruct :: Node where "goStruct = sample_node ''t'' StructNodeKind"

lemma goNode_sel [simp]:
  "node_ID goFile = ''f''" "node_ID goInterface = ''i''" "node_ID goMethod = ''m''" "node_ID goPackage = ''p''" "node_ID goStruct = ''t''"
  "node_Kind goFile = fileKind" "node_Kind goInterface = InterfaceNodeKind" "node_Kind goMethod = MethodNodeKind"
  "node_Kind goPackage = PackageNodeKind" "node_Kind goStruct = StructNodeKind"
  "node_Label goMethod = ''m''" "node_Label goPackage = ''p''" "node_Label goStruct = ''t''" "node_QualifiedName goMethod = ''p.t.m''"
  "node_Evidence goFile = sample_evidence" "node_Evidence goInterface = sample_evidence" "node_Evidence goMethod = sample_evidence"
  "node_Evidence goStruct = sample_evidence"
  by (simp_all add: goFile_def goInterface_def goMethod_def goPackage_def goStruct_def sample_node_def)


definition goRequirement :: SymbolReference where
  "goRequirement = \<lparr>sr_SourceID = ''i'', sr_Target = ''m'', sr_ReceiverType = '''', sr_Relation = ImplementsRelation, sr_Evidence = sample_evidence\<rparr>"




lemma goRequirement_sel [simp]: "sr_SourceID goRequirement = ''i''" "sr_Target goRequirement = ''m''" "sr_Relation goRequirement = ImplementsRelation"
  "goRequirement\<lparr>sr_ReceiverType := ''''\<rparr> = goRequirement"
  by (simp_all add: goRequirement_def)
















end
