(* ===== verification/Migrations.thy ===== *)
theory Migrations
  imports Publishing
begin

text \<open>
  The schema of the SQLite file and its migrations (storage/sqlite/sqlite.go, migrate and the
  functions that open a store).  A file is its tables with their columns, its indexes, the recorded
  schema versions and the vector dimensions of its catalog embeddings; types, keys and the rows
  are not modelled, so migrating data is reading the columns it needs.
\<close>

subsection \<open>Statements\<close>

datatype Statement =
    CreateTable bool string "string list"
  | CreateIndex bool string string "string list"
  | DropTable string
  | AddColumnIfMissing string string
  | ReadColumns string "string list"
  | CopyRows string string "string list"
  | IndexVectors

record SchemaFile =
  sf_tables :: "(string \<times> string list) list"
  sf_indexes :: "string list"
  sf_migrations :: "nat list"
  sf_dimensions :: "nat list"

definition emptyFile :: SchemaFile where
  "emptyFile = \<lparr>sf_tables = [], sf_indexes = [], sf_migrations = [], sf_dimensions = []\<rparr>"

datatype SchemaError = SchemaMismatch | StatementFailed string | InvalidDimensions | OptionInvalid

definition hasColumns :: "SchemaFile \<Rightarrow> string \<Rightarrow> string list \<Rightarrow> bool" where
  "hasColumns f t columns = (case map_of (sf_tables f) t of None \<Rightarrow> False | Some present \<Rightarrow> set columns \<subseteq> set present)"

definition vectorTablePrefix :: string where "vectorTablePrefix = ''catalog_embedding_vectors_''"

definition catalogEmbeddingVectorTable :: "nat \<Rightarrow> string" where
  "catalogEmbeddingVectorTable dimensions = vectorTablePrefix @ Itoa dimensions"

definition ensureCatalogEmbeddingVectorTable :: "nat \<Rightarrow> SchemaFile \<Rightarrow> SchemaError + SchemaFile" where
  "ensureCatalogEmbeddingVectorTable dimensions f =
    (if dimensions = 0 \<or> dimensions > 8192 then Inl InvalidDimensions
     else if map_of (sf_tables f) (catalogEmbeddingVectorTable dimensions) \<noteq> None then Inr f
     else Inr (f\<lparr>sf_tables := sf_tables f @ [(catalogEmbeddingVectorTable dimensions, [''rowid'', ''embedding''])]\<rparr>))"

text \<open>ALTER TABLE appends the column when PRAGMA table_info does not list it; it fails without the table.\<close>

definition addColumnIfMissing :: "string \<Rightarrow> string \<Rightarrow> SchemaFile \<Rightarrow> SchemaError + SchemaFile" where
  "addColumnIfMissing t column f =
    (case map_of (sf_tables f) t of
       None \<Rightarrow> Inl (StatementFailed t)
     | Some present \<Rightarrow> if column \<in> set present then Inr f
         else Inr (f\<lparr>sf_tables := map (\<lambda>(n, cs). if n = t then (n, cs @ [column]) else (n, cs)) (sf_tables f)\<rparr>))"

fun execStatement :: "Statement \<Rightarrow> SchemaFile \<Rightarrow> SchemaError + SchemaFile" where
  "execStatement (CreateTable ifNotExists t columns) f =
    (if map_of (sf_tables f) t \<noteq> None then (if ifNotExists then Inr f else Inl (StatementFailed t))
     else Inr (f\<lparr>sf_tables := sf_tables f @ [(t, columns)]\<rparr>))"
| "execStatement (CreateIndex ifNotExists i t columns) f =
    (if i \<in> set (sf_indexes f) then (if ifNotExists then Inr f else Inl (StatementFailed i))
     else if hasColumns f t columns then Inr (f\<lparr>sf_indexes := sf_indexes f @ [i]\<rparr>) else Inl (StatementFailed i))"
| "execStatement (DropTable t) f =
    (if map_of (sf_tables f) t = None then Inl (StatementFailed t)
     else Inr (f\<lparr>sf_tables := filter (\<lambda>p. fst p \<noteq> t) (sf_tables f)\<rparr>))"
| "execStatement (AddColumnIfMissing t column) f = addColumnIfMissing t column f"
| "execStatement (ReadColumns t columns) f = (if hasColumns f t columns then Inr f else Inl (StatementFailed t))"
| "execStatement (CopyRows target source columns) f =
    (if hasColumns f target columns \<and> hasColumns f source columns then Inr f else Inl (StatementFailed target))"
| "execStatement IndexVectors f = fold_res ensureCatalogEmbeddingVectorTable (sf_dimensions f) f"

definition execStatements :: "Statement list \<Rightarrow> SchemaFile \<Rightarrow> SchemaError + SchemaFile" where
  "execStatements statements f = fold_res execStatement statements f"

subsection \<open>The steps\<close>

definition createSchema :: "Statement list" where
  "createSchema = [
    CreateTable False ''graph_versions''
      [''workspace'', ''version'', ''published_at''],
    CreateTable False ''file_contributions''
      [''workspace'', ''source_path'', ''valid_from_version'', ''valid_to_version'', ''project_id'', ''extractor_name'', ''extractor_version''],
    CreateTable False ''contribution_extensions''
      [''workspace'', ''source_path'', ''valid_from_version'', ''valid_to_version'', ''extension''],
    CreateTable False ''contribution_nodes''
      [''workspace'', ''source_path'', ''valid_from_version'', ''valid_to_version'', ''node_id'', ''kind'', ''label'', ''qualified_name'', ''span_path'', ''start_line'', ''start_column'', ''end_line'', ''end_column'', ''file_hash'', ''extractor'', ''provenance'', ''confidence''],
    CreateTable False ''contribution_edges''
      [''workspace'', ''source_path'', ''valid_from_version'', ''valid_to_version'', ''source_id'', ''target_id'', ''relation'', ''span_path'', ''start_line'', ''start_column'', ''end_line'', ''end_column'', ''file_hash'', ''extractor'', ''provenance'', ''confidence''],
    CreateTable False ''contribution_catalog_units''
      [''workspace'', ''source_path'', ''valid_from_version'', ''valid_to_version'', ''node_id'', ''name'', ''kind'', ''owner'', ''signature'', ''comments'', ''identifier_tokens''],
    CreateTable False ''contribution_catalog_unit_coverage''
      [''workspace'', ''source_path'', ''valid_from_version'', ''valid_to_version''],
    CreateTable False ''contribution_dependencies''
      [''workspace'', ''source_path'', ''valid_from_version'', ''valid_to_version'', ''target_path''],
    CreateTable False ''contribution_exported_surfaces''
      [''workspace'', ''source_path'', ''valid_from_version'', ''valid_to_version'', ''node_id'', ''name''],
    CreateTable False ''contribution_diagnostics''
      [''workspace'', ''source_path'', ''valid_from_version'', ''valid_to_version'', ''severity'', ''message''],
    CreateTable False ''contribution_unresolved_references''
      [''workspace'', ''source_path'', ''valid_from_version'', ''valid_to_version'', ''source_id'', ''target'', ''kind'', ''ambiguous''],
    CreateTable False ''contribution_module_bindings''
      [''workspace'', ''source_path'', ''valid_from_version'', ''valid_to_version'', ''source_id'', ''target'', ''kind'', ''imported_name'', ''exported_name'', ''local_name''],
    CreateTable False ''contribution_symbol_references''
      [''workspace'', ''source_path'', ''valid_from_version'', ''valid_to_version'', ''source_id'', ''target'', ''relation'', ''span_path'', ''start_line'', ''start_column'', ''end_line'', ''end_column'', ''file_hash'', ''extractor'', ''provenance'', ''confidence''],
    CreateTable False ''workspace_nodes''
      [''workspace'', ''version'', ''node_id'', ''kind'', ''label'', ''qualified_name'', ''span_path'', ''start_line'', ''start_column'', ''end_line'', ''end_column'', ''file_hash'', ''extractor'', ''provenance'', ''confidence''],
    CreateTable False ''workspace_edges''
      [''workspace'', ''version'', ''source_id'', ''target_id'', ''relation'', ''span_path'', ''start_line'', ''start_column'', ''end_line'', ''end_column'', ''file_hash'', ''extractor'', ''provenance'', ''confidence'', ''resolved_fact_owner''],
    CreateTable False ''node_search''
      [''workspace'', ''version'', ''node_id'', ''label'', ''qualified_name'', ''span_path'', ''kind'', ''identifier_tokens''],
    CreateTable False ''catalog_entries''
      [''workspace'', ''version'', ''node_id'', ''name'', ''input_fingerprint'', ''deterministic_synopsis'', ''copilot_synopsis'', ''ollama_synopsis'', ''claude_synopsis''],
    CreateTable False ''catalog_search''
      [''workspace'', ''version'', ''node_id'', ''name'', ''deterministic_synopsis'', ''copilot_synopsis'', ''ollama_synopsis'', ''claude_synopsis''],
    CreateTable False ''catalog_embeddings''
      [''embedding_id'', ''workspace'', ''version'', ''node_id'', ''source'', ''text'', ''dimensions'', ''vector''],
    CreateTable False ''catalog_tasks''
      [''workspace'', ''graph_version'', ''state'', ''process_id'', ''started_at'', ''finished_at'', ''completed_units'', ''total_units'', ''stage'', ''changed_paths'', ''failure''],
    CreateTable False ''copilot_planner_metrics''
      [''metric_id'', ''recorded_at'', ''day'', ''model'', ''max_ai_credits'', ''outcome'', ''duration_ns'', ''prompt_bytes'', ''response_bytes'', ''output_tokens'', ''output_tokens_availability'', ''output_tokens_estimate_method'', ''session_total_nano_aiu'', ''session_total_nano_aiu_availability'', ''session_total_nano_aiu_estimate_method'', ''actual_model'', ''input_tokens'', ''cache_read_tokens'', ''cache_write_tokens'', ''reasoning_tokens'', ''premium_request_credits'', ''user_requests'', ''api_duration_ms''],
    CreateIndex False ''copilot_planner_metrics_daily'' ''copilot_planner_metrics'' [''day'', ''model'', ''max_ai_credits''],
    CreateTable False ''claude_planner_metrics''
      [''metric_id'', ''recorded_at'', ''day'', ''model'', ''actual_model'', ''fallback_model'', ''max_budget_usd'', ''effort'', ''outcome'', ''duration_ns'', ''prompt_bytes'', ''response_bytes'', ''input_tokens'', ''input_tokens_availability'', ''output_tokens'', ''output_tokens_availability'', ''api_duration_ms'', ''api_duration_ms_availability'', ''cost_usd'', ''cost_usd_availability''],
    CreateIndex False ''claude_planner_metrics_daily'' ''claude_planner_metrics'' [''day'', ''model'', ''effort''],
    CreateTable False ''spending_reservations''
      [''reservation_id'', ''recorded_at'', ''provider'', ''unit'', ''amount''],
    CreateIndex False ''spending_reservations_usage'' ''spending_reservations'' [''provider'', ''unit'', ''recorded_at''],
    CreateIndex False ''contribution_dependencies_visible'' ''contribution_dependencies'' [''workspace'', ''target_path'', ''valid_from_version'', ''valid_to_version'']]"

definition addLexicalIndex :: "Statement list" where
  "addLexicalIndex = [
    CreateTable False ''node_search''
      [''workspace'', ''version'', ''node_id'', ''label'', ''qualified_name'', ''span_path'', ''kind'', ''identifier_tokens''],
    ReadColumns ''graph_versions'' [''workspace'', ''version''],
    ReadColumns ''contribution_nodes'' [''workspace'', ''valid_from_version'', ''valid_to_version'', ''node_id'', ''label'', ''qualified_name'', ''span_path'', ''kind''],
    ReadColumns ''workspace_nodes'' [''workspace'', ''version'', ''node_id'', ''label'', ''qualified_name'', ''span_path'', ''kind'']]"

definition addCatalog :: "Statement list" where
  "addCatalog = [
    CreateTable False ''catalog_entries''
      [''workspace'', ''version'', ''node_id'', ''name'', ''deterministic_synopsis'', ''copilot_synopsis'', ''ollama_synopsis'', ''claude_synopsis''],
    CreateTable False ''catalog_search''
      [''workspace'', ''version'', ''node_id'', ''name'', ''deterministic_synopsis'', ''copilot_synopsis'', ''ollama_synopsis'', ''claude_synopsis'']]"

definition addCatalogEmbeddings :: "Statement list" where
  "addCatalogEmbeddings = [
    CreateTable True ''catalog_embeddings''
      [''embedding_id'', ''workspace'', ''version'', ''node_id'', ''source'', ''text'', ''dimensions'', ''vector'']]"

definition addCatalogVectors :: "Statement list" where
  "addCatalogVectors = [
    ReadColumns ''catalog_embeddings'' [''workspace'', ''version'', ''dimensions'', ''embedding_id'', ''vector''],
    IndexVectors]"

definition addCopilotMetrics :: "Statement list" where
  "addCopilotMetrics = [
    CreateTable True ''copilot_planner_metrics''
      [''metric_id'', ''recorded_at'', ''day'', ''model'', ''max_ai_credits'', ''outcome'', ''duration_ns'', ''prompt_bytes'', ''response_bytes'', ''output_tokens'', ''output_tokens_availability'', ''output_tokens_estimate_method'', ''session_total_nano_aiu'', ''session_total_nano_aiu_availability'', ''session_total_nano_aiu_estimate_method''],
    CreateIndex True ''copilot_planner_metrics_daily'' ''copilot_planner_metrics'' [''day'', ''model'', ''max_ai_credits'']]"

definition addCopilotUsage :: "Statement list" where
  "addCopilotUsage = [
    AddColumnIfMissing ''copilot_planner_metrics'' ''actual_model'',
    AddColumnIfMissing ''copilot_planner_metrics'' ''input_tokens'',
    AddColumnIfMissing ''copilot_planner_metrics'' ''cache_read_tokens'',
    AddColumnIfMissing ''copilot_planner_metrics'' ''cache_write_tokens'',
    AddColumnIfMissing ''copilot_planner_metrics'' ''reasoning_tokens'',
    AddColumnIfMissing ''copilot_planner_metrics'' ''premium_request_credits'',
    AddColumnIfMissing ''copilot_planner_metrics'' ''user_requests'',
    AddColumnIfMissing ''copilot_planner_metrics'' ''api_duration_ms'']"

definition addClaudeMetrics :: "Statement list" where
  "addClaudeMetrics = [
    CreateTable True ''claude_planner_metrics''
      [''metric_id'', ''recorded_at'', ''day'', ''model'', ''actual_model'', ''fallback_model'', ''max_budget_usd'', ''effort'', ''outcome'', ''duration_ns'', ''prompt_bytes'', ''response_bytes'', ''input_tokens'', ''input_tokens_availability'', ''output_tokens'', ''output_tokens_availability'', ''api_duration_ms'', ''api_duration_ms_availability'', ''cost_usd'', ''cost_usd_availability''],
    CreateIndex True ''claude_planner_metrics_daily'' ''claude_planner_metrics'' [''day'', ''model'', ''effort'']]"

definition addCatalogTasks :: "Statement list" where
  "addCatalogTasks = [
    CreateTable True ''catalog_tasks''
      [''workspace'', ''graph_version'', ''state'', ''started_at'', ''finished_at'', ''completed_units'', ''total_units'', ''changed_paths'', ''failure'']]"

definition addCatalogUnits :: "Statement list" where
  "addCatalogUnits = [
    CreateTable True ''contribution_catalog_units''
      [''workspace'', ''source_path'', ''valid_from_version'', ''valid_to_version'', ''node_id'', ''name'', ''kind'', ''owner'', ''signature'', ''comments'', ''identifier_tokens''],
    CreateTable True ''contribution_catalog_unit_coverage''
      [''workspace'', ''source_path'', ''valid_from_version'', ''valid_to_version'']]"

definition addSynopsisProviders :: "Statement list" where
  "addSynopsisProviders = [
    AddColumnIfMissing ''catalog_entries'' ''ollama_synopsis'',
    AddColumnIfMissing ''catalog_entries'' ''claude_synopsis'',
    DropTable ''catalog_search'',
    CreateTable False ''catalog_search''
      [''workspace'', ''version'', ''node_id'', ''name'', ''deterministic_synopsis'', ''copilot_synopsis'', ''ollama_synopsis'', ''claude_synopsis''],
    CopyRows ''catalog_search'' ''catalog_entries'' [''workspace'', ''version'', ''node_id'', ''name'', ''deterministic_synopsis'', ''copilot_synopsis'', ''ollama_synopsis'', ''claude_synopsis'']]"

definition addSpending :: "Statement list" where
  "addSpending = [
    CreateTable True ''spending_reservations''
      [''reservation_id'', ''recorded_at'', ''provider'', ''unit'', ''amount''],
    CreateIndex True ''spending_reservations_usage'' ''spending_reservations'' [''provider'', ''unit'', ''recorded_at'']]"

definition addInputFingerprint :: "Statement list" where
  "addInputFingerprint = [
    AddColumnIfMissing ''catalog_entries'' ''input_fingerprint'']"

definition addProcessID :: "Statement list" where
  "addProcessID = [
    AddColumnIfMissing ''catalog_tasks'' ''process_id'']"

definition addTaskStage :: "Statement list" where
  "addTaskStage = [
    AddColumnIfMissing ''catalog_tasks'' ''stage'']"

subsection \<open>The ladder\<close>

definition CurrentSchemaVersion :: nat where "CurrentSchemaVersion = 24"

definition schemaVersion :: "SchemaFile \<Rightarrow> nat" where
  "schemaVersion f = fold max (sf_migrations f) 0"

definition recordMigration :: "nat \<Rightarrow> SchemaFile \<Rightarrow> SchemaError + SchemaFile" where
  "recordMigration version f =
    (if version \<in> set (sf_migrations f) then Inl (StatementFailed ''schema_migrations'')
     else Inr (f\<lparr>sf_migrations := sf_migrations f @ [version]\<rparr>))"

text \<open>A step: its guard, its statements, the version it records and whether it assigns that version to
  the variable the following guards read.\<close>

record MigrationStep =
  ms_guard :: nat
  ms_statements :: "Statement list"
  ms_records :: nat
  ms_assigns :: bool

definition migrationStep :: "MigrationStep \<Rightarrow> nat \<times> SchemaFile \<Rightarrow> SchemaError + nat \<times> SchemaFile" where
  "migrationStep step st = (case st of (version, f) \<Rightarrow>
     if version \<noteq> ms_guard step then Inr (version, f)
     else res_bind (execStatements (ms_statements step) f) (\<lambda>f1.
       res_map (\<lambda>f2. (if ms_assigns step then ms_records step else version, f2)) (recordMigration (ms_records step) f1)))"

definition migrationSteps :: "MigrationStep list" where
  "migrationSteps = [
    \<lparr>ms_guard = 0, ms_statements = createSchema, ms_records = CurrentSchemaVersion, ms_assigns = False\<rparr>,
    \<lparr>ms_guard = 10, ms_statements = addLexicalIndex, ms_records = 11, ms_assigns = True\<rparr>,
    \<lparr>ms_guard = 11, ms_statements = addCatalog, ms_records = 12, ms_assigns = True\<rparr>,
    \<lparr>ms_guard = 12, ms_statements = addCatalogEmbeddings, ms_records = 13, ms_assigns = True\<rparr>,
    \<lparr>ms_guard = 13, ms_statements = addCatalogVectors, ms_records = 14, ms_assigns = True\<rparr>,
    \<lparr>ms_guard = 14, ms_statements = addCopilotMetrics, ms_records = 15, ms_assigns = True\<rparr>,
    \<lparr>ms_guard = 15, ms_statements = addCopilotUsage, ms_records = 16, ms_assigns = True\<rparr>,
    \<lparr>ms_guard = 16, ms_statements = addClaudeMetrics, ms_records = 17, ms_assigns = False\<rparr>,
    \<lparr>ms_guard = 17, ms_statements = addCatalogTasks, ms_records = 18, ms_assigns = True\<rparr>,
    \<lparr>ms_guard = 18, ms_statements = addCatalogUnits, ms_records = 19, ms_assigns = True\<rparr>,
    \<lparr>ms_guard = 19, ms_statements = addSynopsisProviders, ms_records = 20, ms_assigns = True\<rparr>,
    \<lparr>ms_guard = 20, ms_statements = addSpending, ms_records = 21, ms_assigns = True\<rparr>,
    \<lparr>ms_guard = 21, ms_statements = addInputFingerprint, ms_records = 22, ms_assigns = True\<rparr>,
    \<lparr>ms_guard = 22, ms_statements = addProcessID, ms_records = 23, ms_assigns = True\<rparr>,
    \<lparr>ms_guard = 23, ms_statements = addTaskStage, ms_records = 24, ms_assigns = False\<rparr>]"

definition supportedVersion :: "nat \<Rightarrow> bool" where
  "supportedVersion version \<longleftrightarrow> version \<in> {0, 10, 11, 12, 13, 14, 15, 16, 17, 18, 19, 20, 21, 22, 23, CurrentSchemaVersion}"

text \<open>A version 10 file without graph_versions is a mismatch; a failed transaction changes nothing.\<close>

definition migrate :: "SchemaFile \<Rightarrow> SchemaError + SchemaFile" where
  "migrate f =
    (if \<not> supportedVersion (schemaVersion f) then Inl SchemaMismatch
     else if schemaVersion f = 10 \<and> map_of (sf_tables f) ''graph_versions'' = None then Inl SchemaMismatch
     else res_map snd (fold_res migrationStep migrationSteps (schemaVersion f, f)))"

text \<open>OpenWithOptions removes a file of another schema and starts over with an empty one.\<close>

definition openFile :: "SchemaFile \<Rightarrow> SchemaError + SchemaFile" where
  "openFile f = (case migrate f of
     Inl e \<Rightarrow> if e = SchemaMismatch then migrate emptyFile else Inl e
   | Inr f' \<Rightarrow> Inr f')"

record Options =
  opt_MaxDatabaseBytes :: int
  opt_MaxResolverProjectionCacheBytes :: int

definition defaultMaxDatabaseBytes :: int where "defaultMaxDatabaseBytes = 4294967296"
definition defaultMaxResolverProjectionCacheBytes :: int where "defaultMaxResolverProjectionCacheBytes = 67108864"

definition OpenWithOptions :: "UnicodeTables \<Rightarrow> (Database \<Rightarrow> nat \<times> nat) \<Rightarrow> nat \<Rightarrow> string \<Rightarrow> Options \<Rightarrow> SchemaFile
    \<Rightarrow> SchemaError + (StoreConfig \<times> int) \<times> SchemaFile" where
  "OpenWithOptions u pages variableLimit path options f =
    (if path = '''' \<or> opt_MaxDatabaseBytes options < 0 \<or> opt_MaxResolverProjectionCacheBytes options < 0 then Inl OptionInvalid
     else let maxDatabaseBytes = (if opt_MaxDatabaseBytes options = 0 then defaultMaxDatabaseBytes else opt_MaxDatabaseBytes options);
              maxProjectionBytes = (if opt_MaxResolverProjectionCacheBytes options = 0 then defaultMaxResolverProjectionCacheBytes
                else opt_MaxResolverProjectionCacheBytes options)
       in res_map (\<lambda>file. ((\<lparr>cfg_variableLimit = variableLimit, cfg_maxDatabaseBytes = nat maxDatabaseBytes,
              cfg_contributionBatchLimits = \<lparr>lim_maximumRows = 5000, lim_maximumBytes = 4194304, lim_maximumSources = 64\<rparr>,
              cfg_workspaceFactBatchLimits = \<lparr>fact_maximumRows = 500, fact_maximumBytes = 4194304\<rparr>,
              cfg_unicode = u, cfg_pages = pages\<rparr>, maxProjectionBytes), file)) (openFile f))"

subsection \<open>What is known of a file\<close>

text \<open>An abstract interpretation of the statements: the columns a table is known to have, the tables and
  indexes known not to exist.  A statement whose success is not guaranteed has no result.\<close>

record Knowledge =
  kn_tables :: "(string \<times> string list) list"
  kn_absent :: "string list"
  kn_noIndex :: "string list"

definition knows :: "Knowledge \<Rightarrow> SchemaFile \<Rightarrow> bool" where
  "knows k f \<longleftrightarrow> (\<forall>(t, cs)\<in>set (kn_tables k). hasColumns f t cs)
     \<and> (\<forall>t\<in>set (kn_absent k). map_of (sf_tables f) t = None) \<and> (\<forall>i\<in>set (kn_noIndex k). i \<notin> set (sf_indexes f))"

definition knownColumns :: "Knowledge \<Rightarrow> string \<Rightarrow> string list" where
  "knownColumns k t = concat (map snd (filter (\<lambda>p. fst p = t) (kn_tables k)))"

fun covered :: "string list \<Rightarrow> string list \<Rightarrow> bool" where
  "covered known [] = True"
| "covered known (c # cs) = (c \<in> set known \<and> covered known cs)"

lemma covered_iff: "covered known cs \<longleftrightarrow> set cs \<subseteq> set known"
  by (induction cs) auto

definition guaranteed :: "Knowledge \<Rightarrow> string \<Rightarrow> string list \<Rightarrow> bool" where
  "guaranteed k t cs \<longleftrightarrow> list_ex (\<lambda>p. fst p = t) (kn_tables k) \<and> covered (knownColumns k t) cs"

fun learn :: "Statement \<Rightarrow> Knowledge \<Rightarrow> Knowledge option" where
  "learn (CreateTable ifNotExists t columns) k =
    (if t \<in> set (kn_absent k)
     then Some (k\<lparr>kn_tables := (t, columns) # kn_tables k, kn_absent := filter (\<lambda>n. n \<noteq> t) (kn_absent k)\<rparr>) else None)"
| "learn (CreateIndex ifNotExists i t columns) k =
    (if i \<in> set (kn_noIndex k) \<and> guaranteed k t columns then Some (k\<lparr>kn_noIndex := filter (\<lambda>n. n \<noteq> i) (kn_noIndex k)\<rparr>) else None)"
| "learn (DropTable t) k =
    (if guaranteed k t [] then Some (k\<lparr>kn_tables := filter (\<lambda>p. fst p \<noteq> t) (kn_tables k), kn_absent := t # kn_absent k\<rparr>) else None)"
| "learn (AddColumnIfMissing t column) k =
    (if guaranteed k t [] then Some (k\<lparr>kn_tables := (t, [column]) # kn_tables k\<rparr>) else None)"
| "learn (ReadColumns t columns) k = (if guaranteed k t columns then Some k else None)"
| "learn (CopyRows target source columns) k = (if guaranteed k target columns \<and> guaranteed k source columns then Some k else None)"
| "learn IndexVectors k = (if list_all (\<lambda>t. \<not> prefix vectorTablePrefix t) (kn_absent k) then Some k else None)"

definition validDimensions :: "SchemaFile \<Rightarrow> bool" where
  "validDimensions f \<longleftrightarrow> (\<forall>d\<in>set (sf_dimensions f). 0 < d \<and> d \<le> 8192)"

lemma guaranteed_hasColumns:
  assumes "knows k f" "guaranteed k t cs"
  shows "hasColumns f t cs"
proof -
  obtain p where "p \<in> set (kn_tables k)" "fst p = t" using assms(2) by (auto simp: guaranteed_def list_ex_iff)
  then have "hasColumns f t (snd p)" using assms(1) by (cases p) (auto simp: knows_def)
  then obtain present where present: "map_of (sf_tables f) t = Some present" by (auto simp: hasColumns_def split: option.splits)
  have "c \<in> set present" if "c \<in> set cs" for c
  proof -
    have "c \<in> set (knownColumns k t)" using assms(2) that by (auto simp: guaranteed_def covered_iff)
    then obtain q where "q \<in> set (kn_tables k)" "fst q = t" "c \<in> set (snd q)" by (auto simp: knownColumns_def)
    then have "hasColumns f t (snd q)" using assms(1) by (cases q) (auto simp: knows_def)
    then show ?thesis using present \<open>c \<in> set (snd q)\<close> by (auto simp: hasColumns_def)
  qed
  then show ?thesis using present by (auto simp: hasColumns_def)
qed

lemma hasColumns_append: "hasColumns f t cs \<Longrightarrow> hasColumns (f\<lparr>sf_tables := sf_tables f @ new\<rparr>) t cs"
  by (auto simp: hasColumns_def map_add_def split: option.splits)

lemma map_of_append_None: "map_of (xs @ ys) t = None \<longleftrightarrow> map_of xs t = None \<and> map_of ys t = None"
  by (auto simp: map_of_eq_None_iff)

lemma map_of_added:
  "map_of (map (\<lambda>(n, cs). if n = t then (n, cs @ [column]) else (n, cs)) xs) x
    = (if x = t then map_option (\<lambda>cs. cs @ [column]) (map_of xs x) else map_of xs x)"
  by (induction xs) auto

lemma map_of_dropped: "map_of (filter (\<lambda>p. fst p \<noteq> t) xs) x = (if x = t then None else map_of xs x)"
  by (induction xs) auto

definition sameHistory :: "SchemaFile \<Rightarrow> SchemaFile \<Rightarrow> bool" where
  "sameHistory f f' \<longleftrightarrow> sf_migrations f' = sf_migrations f \<and> sf_dimensions f' = sf_dimensions f"

lemma ensureVectors:
  assumes "knows k f" "list_all (\<lambda>t. \<not> prefix vectorTablePrefix t) (kn_absent k)" "\<forall>d\<in>set ds. 0 < d \<and> d \<le> 8192"
  shows "\<exists>f'. fold_res ensureCatalogEmbeddingVectorTable ds f = Inr f' \<and> knows k f' \<and> sameHistory f f'"
  using assms
proof (induction ds arbitrary: f)
  case Nil
  then show ?case by (simp add: sameHistory_def)
next
  case (Cons d ds)
  let ?t = "catalogEmbeddingVectorTable d"
  obtain f1 where f1: "ensureCatalogEmbeddingVectorTable d f = Inr f1" "f1 = f \<or> f1 = f\<lparr>sf_tables := sf_tables f @ [(?t, [''rowid'', ''embedding''])]\<rparr>"
    using Cons.prems(3) by (cases "map_of (sf_tables f) ?t = None") (simp_all add: ensureCatalogEmbeddingVectorTable_def)
  have "prefix vectorTablePrefix ?t" by (simp add: catalogEmbeddingVectorTable_def)
  then have "?t \<notin> set (kn_absent k)" using Cons.prems(2) by (auto simp: list_all_iff)
  then have "knows k f1" using f1(2) Cons.prems(1) hasColumns_append by (auto simp: knows_def map_of_append_None)
  from Cons.IH[OF this Cons.prems(2)] Cons.prems(3) obtain f' where
    "fold_res ensureCatalogEmbeddingVectorTable ds f1 = Inr f'" "knows k f'" "sameHistory f1 f'" by auto
  moreover have "sameHistory f f1" using f1(2) by (auto simp: sameHistory_def)
  ultimately show ?case using f1(1) by (auto simp: sameHistory_def)
qed

lemma learn_sound:
  assumes "learn s k = Some k'" "knows k f" "validDimensions f"
  shows "\<exists>f'. execStatement s f = Inr f' \<and> knows k' f' \<and> sameHistory f f'"
proof (cases s)
  case (CreateTable ifNotExists t columns)
  then have t: "t \<in> set (kn_absent k)" "k' = k\<lparr>kn_tables := (t, columns) # kn_tables k, kn_absent := filter (\<lambda>n. n \<noteq> t) (kn_absent k)\<rparr>"
    using assms(1) by (auto split: if_splits)
  then have absent: "map_of (sf_tables f) t = None" using assms(2) by (simp add: knows_def)
  then have new: "hasColumns (f\<lparr>sf_tables := sf_tables f @ [(t, columns)]\<rparr>) t columns" by (simp add: hasColumns_def map_add_def)
  have "knows k' (f\<lparr>sf_tables := sf_tables f @ [(t, columns)]\<rparr>)"
    unfolding t(2) using new assms(2) hasColumns_append by (auto simp: knows_def map_of_append_None)
  then show ?thesis using absent CreateTable by (simp add: sameHistory_def)
next
  case (CreateIndex ifNotExists i t columns)
  then have i: "i \<in> set (kn_noIndex k)" "guaranteed k t columns" "k' = k\<lparr>kn_noIndex := filter (\<lambda>n. n \<noteq> i) (kn_noIndex k)\<rparr>"
    using assms(1) by (auto split: if_splits)
  then have "i \<notin> set (sf_indexes f)" "hasColumns f t columns" using assms(2) guaranteed_hasColumns by (auto simp: knows_def)
  moreover have "knows k' (f\<lparr>sf_indexes := sf_indexes f @ [i]\<rparr>)" unfolding i(3) using assms(2) by (auto simp: knows_def hasColumns_def)
  ultimately show ?thesis using CreateIndex by (simp add: sameHistory_def)
next
  case (DropTable t)
  then have t: "guaranteed k t []" "k' = k\<lparr>kn_tables := filter (\<lambda>p. fst p \<noteq> t) (kn_tables k), kn_absent := t # kn_absent k\<rparr>"
    using assms(1) by (auto split: if_splits)
  have "map_of (sf_tables f) t \<noteq> None"
    using guaranteed_hasColumns[OF assms(2) t(1)] by (cases "map_of (sf_tables f) t") (simp_all add: hasColumns_def)
  moreover have "knows k' (f\<lparr>sf_tables := filter (\<lambda>p. fst p \<noteq> t) (sf_tables f)\<rparr>)"
    unfolding t(2) using assms(2) by (auto simp: knows_def hasColumns_def map_of_dropped)
  ultimately show ?thesis using DropTable by (simp add: sameHistory_def)
next
  case (AddColumnIfMissing t column)
  then have t: "guaranteed k t []" "k' = k\<lparr>kn_tables := (t, [column]) # kn_tables k\<rparr>" using assms(1) by (auto split: if_splits)
  obtain present where present: "map_of (sf_tables f) t = Some present"
    using guaranteed_hasColumns[OF assms(2) t(1)] by (cases "map_of (sf_tables f) t") (simp_all add: hasColumns_def)
  show ?thesis
  proof (cases "column \<in> set present")
    case True
    then have "knows k' f" unfolding t(2) using assms(2) present by (auto simp: knows_def hasColumns_def)
    then show ?thesis using True present AddColumnIfMissing by (simp add: addColumnIfMissing_def sameHistory_def)
  next
    case False
    let ?f = "f\<lparr>sf_tables := map (\<lambda>(n, cs). if n = t then (n, cs @ [column]) else (n, cs)) (sf_tables f)\<rparr>"
    have "hasColumns ?f x cs" if "hasColumns f x cs" for x cs
      using that by (auto simp: hasColumns_def map_of_added split: option.splits)
    moreover have "hasColumns ?f t [column]" using present by (simp add: hasColumns_def map_of_added)
    moreover have "map_of (sf_tables ?f) x = None \<longleftrightarrow> map_of (sf_tables f) x = None" for x by (simp add: map_of_added)
    ultimately have "knows k' ?f" unfolding t(2) using assms(2) by (auto simp: knows_def)
    then show ?thesis using False present AddColumnIfMissing by (simp add: addColumnIfMissing_def sameHistory_def)
  qed
next
  case (ReadColumns t columns)
  then show ?thesis using assms guaranteed_hasColumns by (auto simp: sameHistory_def split: if_splits)
next
  case (CopyRows target source columns)
  then show ?thesis using assms guaranteed_hasColumns by (auto simp: sameHistory_def split: if_splits)
next
  case IndexVectors
  then show ?thesis using assms ensureVectors[of k f "sf_dimensions f"] by (auto simp: validDimensions_def split: if_splits)
qed


subsection \<open>The ladder over what is known\<close>

fun learnAll :: "Statement list \<Rightarrow> Knowledge \<Rightarrow> Knowledge option" where
  "learnAll [] k = Some k"
| "learnAll (s # ss) k = Option.bind (learn s k) (learnAll ss)"

text \<open>A state of the ladder: the version the guards read, the highest recorded version, the knowledge.\<close>

definition learnStep :: "MigrationStep \<Rightarrow> nat \<times> nat \<times> Knowledge \<Rightarrow> (nat \<times> nat \<times> Knowledge) option" where
  "learnStep step a = (case a of (version, highest, k) \<Rightarrow>
     if version \<noteq> ms_guard step then Some a
     else if ms_records step \<le> highest then None
     else map_option (\<lambda>k'. (if ms_assigns step then ms_records step else version, ms_records step, k'))
       (learnAll (ms_statements step) k))"

fun learnSteps :: "MigrationStep list \<Rightarrow> nat \<times> nat \<times> Knowledge \<Rightarrow> (nat \<times> nat \<times> Knowledge) option" where
  "learnSteps [] a = Some a"
| "learnSteps (s # ss) a = Option.bind (learnStep s a) (learnSteps ss)"

lemma learnAll_sound:
  assumes "learnAll ss k = Some k'" "knows k f" "validDimensions f"
  shows "\<exists>f'. execStatements ss f = Inr f' \<and> knows k' f' \<and> sameHistory f f'"
  using assms
proof (induction ss arbitrary: k f)
  case Nil
  then show ?case by (simp add: execStatements_def sameHistory_def)
next
  case (Cons s ss)
  then obtain k1 where k1: "learn s k = Some k1" "learnAll ss k1 = Some k'" by (auto simp: bind_eq_Some_conv)
  obtain f1 where f1: "execStatement s f = Inr f1" "knows k1 f1" "sameHistory f f1"
    using learn_sound[OF k1(1) Cons.prems(2,3)] by (elim exE conjE) (rule that)
  have "validDimensions f1" using f1(3) Cons.prems(3) by (simp add: sameHistory_def validDimensions_def)
  then obtain f' where "execStatements ss f1 = Inr f'" "knows k' f'" "sameHistory f1 f'"
    using Cons.IH[OF k1(2) f1(2)] by blast
  then show ?case using f1(1,3) by (simp add: execStatements_def sameHistory_def)
qed

lemma schemaVersion_snoc: "sf_migrations f' = sf_migrations f @ [r] \<Longrightarrow> schemaVersion f' = max (schemaVersion f) r"
  by (simp add: schemaVersion_def max.commute)

lemma recorded_version_le: "r \<in> set (sf_migrations f) \<Longrightarrow> r \<le> schemaVersion f"
proof -
  have "schemaVersion f = Max (set (0 # sf_migrations f))"
    unfolding schemaVersion_def by (simp only: Max.set_eq_fold)
  then show "r \<in> set (sf_migrations f) \<Longrightarrow> r \<le> schemaVersion f" by simp
qed

definition ladderHolds :: "nat \<times> nat \<times> Knowledge \<Rightarrow> nat \<times> SchemaFile \<Rightarrow> bool" where
  "ladderHolds a s \<longleftrightarrow> fst a = fst s \<and> fst (snd a) = schemaVersion (snd s) \<and> knows (snd (snd a)) (snd s) \<and> validDimensions (snd s)"

lemma learnStep_sound:
  assumes "learnStep step a = Some a'" "ladderHolds a s"
  shows "\<exists>s'. migrationStep step s = Inr s' \<and> ladderHolds a' s'"
proof -
  obtain version highest k f where a: "a = (version, highest, k)" "s = (version, f)"
    using assms(2) by (cases a; cases s) (simp add: ladderHolds_def)
  have f: "highest = schemaVersion f" "knows k f" "validDimensions f" using assms(2) a by (simp_all add: ladderHolds_def)
  show ?thesis
  proof (cases "version = ms_guard step")
    case False
    then show ?thesis using assms a by (simp add: learnStep_def migrationStep_def)
  next
    case True
    then obtain k' where k': "\<not> ms_records step \<le> highest" "learnAll (ms_statements step) k = Some k'"
      "a' = (if ms_assigns step then ms_records step else version, ms_records step, k')"
      using assms(1) a(1) by (auto simp: learnStep_def split: if_splits)
    obtain f1 where f1: "execStatements (ms_statements step) f = Inr f1" "knows k' f1" "sameHistory f f1"
      using learnAll_sound[OF k'(2) f(2,3)] by (elim exE conjE) (rule that)
    have fresh: "ms_records step \<notin> set (sf_migrations f1)"
      using recorded_version_le[of "ms_records step" f] k'(1) f(1) f1(3) by (auto simp: sameHistory_def)
    let ?f = "f1\<lparr>sf_migrations := sf_migrations f1 @ [ms_records step]\<rparr>"
    have "schemaVersion ?f = ms_records step"
      using schemaVersion_snoc[of ?f f "ms_records step"] k'(1) f(1) f1(3) by (simp add: sameHistory_def)
    moreover have "knows k' ?f" using f1(2) by (simp add: knows_def hasColumns_def)
    moreover have "validDimensions ?f" using f(3) f1(3) by (simp add: validDimensions_def sameHistory_def)
    moreover have "migrationStep step s = Inr (if ms_assigns step then ms_records step else version, ?f)"
      using True a(2) f1(1) fresh by (simp add: migrationStep_def recordMigration_def)
    ultimately show ?thesis using k'(3) by (simp add: ladderHolds_def)
  qed
qed

lemma learnSteps_sound:
  assumes "learnSteps steps a = Some a'" "ladderHolds a s"
  shows "\<exists>s'. fold_res migrationStep steps s = Inr s' \<and> ladderHolds a' s'"
  using assms
proof (induction steps arbitrary: a s)
  case (Cons step steps)
  then obtain a1 where a1: "learnStep step a = Some a1" "learnSteps steps a1 = Some a'" by (auto simp: bind_eq_Some_conv)
  obtain s1 where s1: "migrationStep step s = Inr s1" "ladderHolds a1 s1"
    using learnStep_sound[OF a1(1) Cons.prems(2)] by (elim exE conjE) (rule that)
  then show ?case using Cons.IH[OF a1(2) s1(2)] by simp
qed simp


subsection \<open>A version 10 file\<close>

text \<open>The tables and indexes the steps above version 10 add, and what a version 10 file is known to hold:
  every other table of createSchema, and none of those.\<close>

definition addedTables :: "string list" where
  "addedTables = [''node_search'', ''catalog_entries'', ''catalog_search'', ''catalog_embeddings'', ''copilot_planner_metrics'',
    ''claude_planner_metrics'', ''catalog_tasks'', ''contribution_catalog_units'', ''contribution_catalog_unit_coverage'',
    ''spending_reservations'']"

definition addedIndexes :: "string list" where
  "addedIndexes = [''copilot_planner_metrics_daily'', ''claude_planner_metrics_daily'', ''spending_reservations_usage'']"

fun createdTables :: "Statement list \<Rightarrow> (string \<times> string list) list" where
  "createdTables [] = []"
| "createdTables (CreateTable ifNotExists t columns # ss) = (t, columns) # createdTables ss"
| "createdTables (s # ss) = createdTables ss"

definition version10 :: Knowledge where
  "version10 = \<lparr>kn_tables = filter (\<lambda>p. \<not> List.member addedTables (fst p)) (createdTables createSchema),
    kn_absent = addedTables, kn_noIndex = addedIndexes\<rparr>"

definition ladderEnd :: "nat \<Rightarrow> Knowledge \<Rightarrow> (nat \<times> Knowledge) option" where
  "ladderEnd version k = map_option snd (learnSteps migrationSteps (version, version, k))"

definition twoOpens :: "(nat \<times> nat \<times> bool) option" where
  "twoOpens = Option.bind (ladderEnd 10 version10) (\<lambda>(v1, k1). Option.bind (ladderEnd v1 k1) (\<lambda>(v2, k2).
     Some (v1, v2, list_all (\<lambda>(t, cs). guaranteed k2 t cs) (createdTables createSchema))))"

lemma twoOpens_value: "twoOpens = Some (17, 24, True)"
  by code_simp


lemma migrate_ladder:
  assumes "ladderEnd v k = Some (v', k')" "knows k f" "validDimensions f" "schemaVersion f = v"
    and "supportedVersion v" "v = 10 \<longrightarrow> map_of (sf_tables f) ''graph_versions'' \<noteq> None"
  shows "\<exists>f'. openFile f = Inr f' \<and> knows k' f' \<and> validDimensions f' \<and> schemaVersion f' = v'"
proof -
  obtain u where u: "learnSteps migrationSteps (v, v, k) = Some (u, v', k')"
    using assms(1) by (auto simp: ladderEnd_def)
  have "ladderHolds (v, v, k) (v, f)" using assms(2-4) by (simp add: ladderHolds_def)
  then obtain s where s: "fold_res migrationStep migrationSteps (v, f) = Inr s" "ladderHolds (u, v', k') s"
    using learnSteps_sound[OF u] by blast
  have "\<not> (schemaVersion f = 10 \<and> map_of (sf_tables f) ''graph_versions'' = None)" using assms(4,6) by blast
  then have "migrate f = Inr (snd s)" unfolding migrate_def using assms(4,5) s(1) by simp
  then show ?thesis using s(2) by (simp add: openFile_def ladderHolds_def)
qed

text \<open>What a step does to the recorded versions, whatever the tables hold.\<close>

definition ladderVersion :: "MigrationStep \<Rightarrow> nat \<times> nat \<Rightarrow> nat \<times> nat" where
  "ladderVersion step a =
    (if fst a \<noteq> ms_guard step then a
     else (if ms_assigns step then ms_records step else fst a, max (snd a) (ms_records step)))"

lemma ensureVector_history: "ensureCatalogEmbeddingVectorTable d f = Inr f' \<Longrightarrow> sf_migrations f' = sf_migrations f"
  by (auto simp: ensureCatalogEmbeddingVectorTable_def split: if_splits)

lemma execStatement_history: "execStatement s f = Inr f' \<Longrightarrow> sf_migrations f' = sf_migrations f"
proof (cases s)
  case IndexVectors
  moreover assume "execStatement s f = Inr f'"
  ultimately have "fold_res ensureCatalogEmbeddingVectorTable (sf_dimensions f) f = Inr f'" by simp
  then show ?thesis
    by (rule fold_res_invariant[where I = "\<lambda>g. sf_migrations g = sf_migrations f"]) (auto dest: ensureVector_history)
qed (auto simp: addColumnIfMissing_def split: if_splits option.splits)

lemma execStatements_history: "execStatements ss f = Inr f' \<Longrightarrow> sf_migrations f' = sf_migrations f"
  unfolding execStatements_def
  by (rule fold_res_invariant[where I = "\<lambda>g. sf_migrations g = sf_migrations f"]) (auto dest: execStatement_history)

lemma migrationStep_version:
  assumes "migrationStep step s = Inr s'"
  shows "(fst s', schemaVersion (snd s')) = ladderVersion step (fst s, schemaVersion (snd s))"
proof (cases "fst s = ms_guard step")
  case True
  then obtain f1 f2 where "execStatements (ms_statements step) (snd s) = Inr f1" "recordMigration (ms_records step) f1 = Inr f2"
    "s' = (if ms_assigns step then ms_records step else fst s, f2)"
    using assms by (cases s) (auto simp: migrationStep_def res_bind_Inr res_map_Inr)
  moreover have "sf_migrations f2 = sf_migrations (snd s) @ [ms_records step]"
    using calculation(2) execStatements_history[OF calculation(1)] by (auto simp: recordMigration_def split: if_splits)
  ultimately show ?thesis
    using True schemaVersion_snoc[of f2 "snd s" "ms_records step"] by (simp add: ladderVersion_def)
next
  case False
  then have "migrationStep step s = Inr s" by (cases s) (simp add: migrationStep_def)
  then have "s' = s" using assms by simp
  then show ?thesis using False by (simp add: ladderVersion_def)
qed

lemma migrationSteps_version:
  "fold_res migrationStep steps s = Inr s' \<Longrightarrow>
    (fst s', schemaVersion (snd s')) = fold ladderVersion steps (fst s, schemaVersion (snd s))"
proof (induction steps arbitrary: s)
  case (Cons step steps)
  then obtain s1 where "migrationStep step s = Inr s1" "fold_res migrationStep steps s1 = Inr s'" by (auto split: sum.splits)
  then show ?case using Cons.IH[of s1] migrationStep_version[of step s s1] by simp
qed simp

lemma ladderVersion_end:
  "snd (fold ladderVersion migrationSteps (v, v)) = (if v < 10 then (if v = 0 then 24 else v) else if v \<le> 16 then 17 else 24)"
  if "supportedVersion v"
proof -
  have "v \<in> {0, 10, 11, 12, 13, 14, 15, 16, 17, 18, 19, 20, 21, 22, 23, 24}"
    using that by (simp add: supportedVersion_def CurrentSchemaVersion_def)
  then show ?thesis
    by (elim insertE emptyE) (simp_all add: migrationSteps_def ladderVersion_def CurrentSchemaVersion_def)
qed

lemma migrate_version:
  assumes "migrate f = Inr f'"
  shows "schemaVersion f' = (if 10 \<le> schemaVersion f \<and> schemaVersion f \<le> 16 then 17 else 24)"
proof -
  have v: "supportedVersion (schemaVersion f)" using assms by (auto simp: migrate_def split: if_splits)
  obtain s where s: "fold_res migrationStep migrationSteps (schemaVersion f, f) = Inr s" "f' = snd s"
    using assms by (auto simp: migrate_def res_map_Inr split: if_splits)
  have "schemaVersion f' = snd (fold ladderVersion migrationSteps (schemaVersion f, schemaVersion f))"
    using migrationSteps_version[OF s(1)] s(2) by (metis fst_conv snd_conv)
  moreover have "schemaVersion f \<ge> 10 \<or> schemaVersion f = 0" using v by (auto simp: supportedVersion_def CurrentSchemaVersion_def)
  ultimately show ?thesis using ladderVersion_end[OF v] by (auto split: if_splits)
qed


lemma fold_res_error: "fold_res g xs s = Inl e \<Longrightarrow> \<exists>x s'. g x s' = Inl e"
  by (induction xs arbitrary: s) (auto split: sum.splits)

lemma step_no_mismatch: "migrationStep step s \<noteq> Inl SchemaMismatch"
proof
  assume "migrationStep step s = Inl SchemaMismatch"
  then have "execStatements (ms_statements step) (snd s) = Inl SchemaMismatch"
    by (cases s; cases "execStatements (ms_statements step) (snd s)") (auto simp: migrationStep_def recordMigration_def split: if_splits)
  then obtain x f where x: "execStatement x f = Inl SchemaMismatch"
    unfolding execStatements_def by (elim fold_res_error[elim_format] exE) (rule that)
  show False
  proof (cases x)
    case IndexVectors
    then have "fold_res ensureCatalogEmbeddingVectorTable (sf_dimensions f) f = Inl SchemaMismatch" using x by simp
    then obtain d g where "ensureCatalogEmbeddingVectorTable d g = Inl SchemaMismatch"
      by (elim fold_res_error[elim_format] exE) (rule that)
    then show ?thesis by (simp add: ensureCatalogEmbeddingVectorTable_def split: if_splits)
  qed (use x in \<open>auto simp: addColumnIfMissing_def split: if_splits option.splits\<close>)
qed

lemma migrate_mismatch:
  assumes "migrate f = Inl SchemaMismatch"
  shows "\<not> supportedVersion (schemaVersion f) \<or> schemaVersion f = 10 \<and> map_of (sf_tables f) ''graph_versions'' = None"
proof (rule ccontr)
  assume "\<not> ?thesis"
  then have "res_map snd (fold_res migrationStep migrationSteps (schemaVersion f, f)) = Inl SchemaMismatch"
    using assms unfolding migrate_def by (simp split: if_splits)
  then have "fold_res migrationStep migrationSteps (schemaVersion f, f) = Inl SchemaMismatch"
    by (cases "fold_res migrationStep migrationSteps (schemaVersion f, f)") simp_all
  then show False by (elim fold_res_error[elim_format] exE) (simp add: step_no_mismatch)
qed

lemma migrate_guard: "migrate f = Inr g \<Longrightarrow> \<not> (schemaVersion f = 10 \<and> map_of (sf_tables f) ''graph_versions'' = None)"
  unfolding migrate_def by (cases "schemaVersion f = 10 \<and> map_of (sf_tables f) ''graph_versions'' = None") (simp_all split: if_splits)

lemma supported_range: "10 \<le> v \<Longrightarrow> v \<le> 16 \<Longrightarrow> supportedVersion v"
  unfolding supportedVersion_def insert_iff empty_iff by presburger

lemma version10_versions: "guaranteed version10 ''graph_versions'' []"
proof -
  have "(''graph_versions'', [''workspace'', ''version'', ''published_at'']) \<in> set (createdTables createSchema)"
    unfolding createSchema_def createdTables.simps(2) list.set by (rule insertI1)
  moreover have "\<not> List.member addedTables ''graph_versions''" by code_simp
  ultimately have "list_ex (\<lambda>p. fst p = ''graph_versions'') (kn_tables version10)"
    unfolding version10_def list_ex_iff Knowledge.simps set_filter
    by (intro bexI[of _ "(''graph_versions'', [''workspace'', ''version'', ''published_at''])"] CollectI conjI) (simp_all only: fst_conv not_False_eq_True)
  then show ?thesis by (simp only: guaranteed_def covered.simps simp_thms)
qed

subsection \<open>Properties\<close>

text \<open>Whatever the file holds, a successful open leaves it at the current schema version 24, unless its
  recorded version was one of 10 to 16 (and the file could be migrated at all): the step to version 17
  does not assign the version the next guard reads, so that open stops at version 17.\<close>

theorem open_schema_version:
  assumes "openFile f = Inr f'"
  shows "schemaVersion f' =
    (if 10 \<le> schemaVersion f \<and> schemaVersion f \<le> 16 \<and> (schemaVersion f = 10 \<longrightarrow> map_of (sf_tables f) ''graph_versions'' \<noteq> None)
     then 17 else CurrentSchemaVersion)"
proof (cases "migrate f")
  case (Inl e)
  then have e: "e = SchemaMismatch" "migrate emptyFile = Inr f'" using assms by (auto simp: openFile_def split: if_splits)
  then have "schemaVersion f' = 24" using migrate_version[of emptyFile f'] by (simp add: schemaVersion_def emptyFile_def)
  moreover have "\<not> supportedVersion (schemaVersion f) \<or> schemaVersion f = 10 \<and> map_of (sf_tables f) ''graph_versions'' = None"
    using Inl e(1) migrate_mismatch by simp
  ultimately have "\<not> (10 \<le> schemaVersion f \<and> schemaVersion f \<le> 16 \<and> (schemaVersion f = 10 \<longrightarrow> map_of (sf_tables f) ''graph_versions'' \<noteq> None))"
    by (cases "supportedVersion (schemaVersion f)") (auto simp only: dest: supported_range)
  then show ?thesis unfolding CurrentSchemaVersion_def using \<open>schemaVersion f' = 24\<close> by (simp only: if_False)
next
  case (Inr g)
  then have g: "g = f'" using assms by (simp add: openFile_def)
  have "\<not> (schemaVersion f = 10 \<and> map_of (sf_tables f) ''graph_versions'' = None)" using migrate_guard[OF Inr] .
  then have "(10 \<le> schemaVersion f \<and> schemaVersion f \<le> 16 \<and> (schemaVersion f = 10 \<longrightarrow> map_of (sf_tables f) ''graph_versions'' \<noteq> None))
    = (10 \<le> schemaVersion f \<and> schemaVersion f \<le> 16)" by (cases "schemaVersion f = 10") simp_all
  then show ?thesis using migrate_version[OF Inr] unfolding g CurrentSchemaVersion_def by (simp only:)
qed

text \<open>C10: A version 10 file, with the tables of that version and whatever rows: the first open brings it to
  version 17 and the second to 24, no step fails on the way, and then every table that a new file is
  created with is there with all its columns; a third open changes nothing.\<close>

theorem version10_reaches_current_schema:
  assumes "knows version10 f" "validDimensions f" "schemaVersion f = 10"
  shows "\<exists>f1 f2. openFile f = Inr f1 \<and> schemaVersion f1 = 17 \<and> openFile f1 = Inr f2 \<and> schemaVersion f2 = CurrentSchemaVersion
    \<and> (\<forall>(t, cs)\<in>set (createdTables createSchema). hasColumns f2 t cs) \<and> openFile f2 = Inr f2"
proof -
  obtain v1 k1 v2 k2 where k: "ladderEnd 10 version10 = Some (v1, k1)" "ladderEnd v1 k1 = Some (v2, k2)" "v1 = 17" "v2 = 24"
    "list_all (\<lambda>(t, cs). guaranteed k2 t cs) (createdTables createSchema)"
    using twoOpens_value by (auto simp: twoOpens_def bind_eq_Some_conv)
  have "map_of (sf_tables f) ''graph_versions'' \<noteq> None"
    using guaranteed_hasColumns[OF assms(1) version10_versions]
    by (cases "map_of (sf_tables f) ''graph_versions''") (simp_all add: hasColumns_def)
  then obtain f1 where f1: "openFile f = Inr f1" "knows k1 f1" "validDimensions f1" "schemaVersion f1 = 17"
    using migrate_ladder[OF k(1) assms] k(3) by (auto simp: supportedVersion_def)
  then obtain f2 where f2: "openFile f1 = Inr f2" "knows k2 f2" "schemaVersion f2 = 24"
    using migrate_ladder[OF k(2), of f1] k(3,4) by (auto simp: supportedVersion_def)
  have "openFile f2 = Inr f2"
    using f2(3) by (simp add: openFile_def migrate_def supportedVersion_def CurrentSchemaVersion_def migrationSteps_def migrationStep_def)
  moreover have "\<forall>(t, cs)\<in>set (createdTables createSchema). hasColumns f2 t cs"
    using k(5) guaranteed_hasColumns[OF f2(2)] by (auto simp: list_all_iff)
  ultimately show ?thesis using f1(1,4) f2(1,3) by (auto simp: CurrentSchemaVersion_def)
qed


text \<open>Concrete files: one recorded at version 16 with nothing else, and a version 10 file with one vector dimension.\<close>

definition fileAt16 :: SchemaFile where
  "fileAt16 = \<lparr>sf_tables = [], sf_indexes = [], sf_migrations = [16], sf_dimensions = []\<rparr>"

definition fileAt10 :: SchemaFile where
  "fileAt10 = \<lparr>sf_tables = kn_tables version10, sf_indexes = [], sf_migrations = [10], sf_dimensions = [768]\<rparr>"

lemma fileAt16_opens: "\<exists>f'. openFile fileAt16 = Inr f'"
proof -
  have "(case openFile fileAt16 of Inl e \<Rightarrow> False | Inr f' \<Rightarrow> True)" by code_simp
  then show ?thesis by (cases "openFile fileAt16") simp_all
qed

lemma version10_distinct: "distinct (map fst (kn_tables version10))"
  by code_simp

lemma fileAt10_known: "knows version10 fileAt10"
proof -
  have "hasColumns fileAt10 t cs" if "(t, cs) \<in> set (kn_tables version10)" for t cs
    using map_of_is_SomeI[OF version10_distinct that] by (simp add: hasColumns_def fileAt10_def)
  moreover have "map_of (sf_tables fileAt10) t = None" if "t \<in> set (kn_absent version10)" for t
  proof -
    have "t \<in> set addedTables" using that by (simp only: version10_def Knowledge.simps)
    then have "t \<notin> fst ` set (kn_tables version10)" unfolding version10_def Knowledge.simps by auto
    then show ?thesis unfolding fileAt10_def SchemaFile.simps map_of_eq_None_iff .
  qed
  ultimately show ?thesis by (auto simp only: knows_def) (simp add: fileAt10_def)
qed

theorem open_schema_version_witness: "\<exists>f'. openFile fileAt16 = Inr f' \<and> schemaVersion f' = 17"
proof -
  obtain f' where f': "openFile fileAt16 = Inr f'" using fileAt16_opens by blast
  have "schemaVersion fileAt16 = 16" by (simp add: schemaVersion_def fileAt16_def)
  then show ?thesis using f' open_schema_version[OF f'] by simp
qed

theorem version10_reaches_current_schema_witness:
  "\<exists>f1 f2. openFile fileAt10 = Inr f1 \<and> schemaVersion f1 = 17 \<and> openFile f1 = Inr f2 \<and> schemaVersion f2 = 24"
proof -
  have "validDimensions fileAt10" "schemaVersion fileAt10 = 10"
    by (simp_all add: validDimensions_def fileAt10_def schemaVersion_def)
  from version10_reaches_current_schema[OF fileAt10_known this] show ?thesis
    unfolding CurrentSchemaVersion_def by (elim exE conjE) (intro exI conjI)
qed

end
