(* ===== verification/Evidence.thy ===== *)
theory Evidence
  imports Questions "HOL-Library.AList"
begin

text \<open>
  The evidence of a query result (query/query.go): the graph levels around the seeds, the impact of a
  change, the groups of a traversal, the relations a plan follows, and the warnings that stop a plan.
  Scores are exact rationals.  Go maps that are only read back in sorted order are association lists.
\<close>

subsection \<open>Relations\<close>

definition expandLanguageRelations :: "RelationKind list \<Rightarrow> RelationKind \<Rightarrow> RelationKind list" where
  "expandLanguageRelations relations generic =
     concat (map (\<lambda>relation. relation # (if relation = generic
       then [''go:'' @ generic, ''javascript:'' @ generic, ''typescript:'' @ generic] else [])) relations)"

definition callRelations :: "RelationKind list \<Rightarrow> RelationKind list" where
  "callRelations relations = expandLanguageRelations relations ''calls''"

definition dependencyRelations :: "RelationKind list \<Rightarrow> RelationKind list" where
  "dependencyRelations relations = concat (map (\<lambda>relation. expandLanguageRelations [relation] relation) relations)"

definition impactRelations :: "RelationKind list \<Rightarrow> RelationKind list" where
  "impactRelations relations = concat (map (\<lambda>relation.
     if relation \<in> {''implements'', ''calls'', ''imports_from'', ''requires'', ''depends_on''}
     then expandLanguageRelations [relation] relation else [relation]) relations)"

definition sharedContractRelations :: "RelationKind list \<Rightarrow> RelationKind list" where
  "sharedContractRelations relations = expandLanguageRelations relations ''implements'' @ [''defines'', ''references'']"

definition relationFit :: "RelationKind list \<Rightarrow> RelationKind \<Rightarrow> float64" where
  "relationFit allowed relation =
    (if list_ex (\<lambda>candidate. relation = candidate \<or> hasSuffix relation ('':'' @ candidate)) allowed then 1 else 1 / 2)"

subsection \<open>Scores\<close>

record EvidenceScoreComponents =
  ec_SeedRelevance :: float64
  ec_Distance :: float64
  ec_RelationFit :: float64
  ec_Confidence :: float64
  ec_SharedSupport :: float64
  ec_PathDiversity :: float64

record EvidenceGroup =
  eg_Rank :: nat
  eg_Score :: float64
  eg_Components :: EvidenceScoreComponents
  eg_Reason :: string
  eg_SlotRole :: string
  eg_Relation :: RelationKind
  eg_Distance :: nat
  eg_Nodes :: "Node list"
  eg_Edges :: "Edge list"

record StageLimit =
  sl_Stage :: string
  sl_SlotRole :: string
  sl_MaxDepth :: int
  sl_MaxNodes :: int
  sl_TruncationReasons :: "TruncationReason list"

record ImpactEvidence =
  imp_Node :: Node
  imp_Relation :: RelationKind
  imp_Distance :: nat
  imp_Score :: float64

definition evidenceScore :: "EvidenceScoreComponents \<Rightarrow> float64" where
  "evidenceScore components = ec_SeedRelevance components * ec_Distance components * ec_RelationFit components
     * ec_Confidence components * ec_SharedSupport components * ec_PathDiversity components"

text \<open>The ranks of sorted evidence count from 1.\<close>

definition withRanks :: "EvidenceGroup list \<Rightarrow> EvidenceGroup list" where
  "withRanks evidence = map (\<lambda>(rank, group). group\<lparr>eg_Rank := rank\<rparr>) (zip [1..<length evidence + 1] evidence)"

definition retrievalGroup :: "QueryPlan \<Rightarrow> SeedSet \<Rightarrow> nat \<Rightarrow> Node \<Rightarrow> EvidenceGroup" where
  "retrievalGroup plan seedSet index node =
    (let components = \<lparr>ec_SeedRelevance = (if index < length (seed_Rankings seedSet) then sr_Score (seed_Rankings seedSet ! index) else 1),
           ec_Distance = 1, ec_RelationFit = 1, ec_Confidence = plan_Confidence plan, ec_SharedSupport = 1, ec_PathDiversity = 1\<rparr>
     in \<lparr>eg_Rank = 0, eg_Score = evidenceScore components, eg_Components = components,
         eg_Reason = ''Matched the '' @ seed_Role seedSet @ '' slot during ranked retrieval.'', eg_SlotRole = seed_Role seedSet,
         eg_Relation = '''', eg_Distance = 0, eg_Nodes = [node], eg_Edges = []\<rparr>)"

definition retrievalEvidence :: "QueryPlan \<Rightarrow> SeedSet list \<Rightarrow> EvidenceGroup list" where
  "retrievalEvidence plan seeds =
     withRanks (sort_key (\<lambda>group. (- eg_Score group, node_ID (hd (eg_Nodes group))))
       (concat (map (\<lambda>seedSet. map (\<lambda>(index, node). retrievalGroup plan seedSet index node) (enumerate 0 (seed_Nodes seedSet))) seeds)))"

definition retrievalLimits :: "QueryPlan \<Rightarrow> StageLimit list" where
  "retrievalLimits plan = map (\<lambda>slot. \<lparr>sl_Stage = ''retrieval'', sl_SlotRole = slot_Role slot, sl_MaxDepth = 0,
     sl_MaxNodes = lex_Limit (slot_Retrieval slot), sl_TruncationReasons = []\<rparr>) (plan_EntitySlots plan)"

definition seedSetRelevance :: "SeedSet list \<Rightarrow> float64" where
  "seedSetRelevance seeds = fold (\<lambda>seedSet relevance.
     if seed_Rankings seedSet \<noteq> [] then relevance * sr_Score (seed_Rankings seedSet ! 0) else relevance) seeds 1"

subsection \<open>Levels\<close>

definition traversalNeighbor :: "TraversalDirection \<Rightarrow> string \<Rightarrow> Edge \<Rightarrow> string option" where
  "traversalNeighbor direction currentID edge =
    (if direction \<noteq> TraverseIncoming \<and> edge_SourceID edge = currentID then Some (edge_TargetID edge)
     else if direction \<noteq> TraverseOutgoing \<and> edge_TargetID edge = currentID then Some (edge_SourceID edge)
     else None)"

text \<open>What a level search has found: the visited IDs; the nodes found after the start, each with
  its distance and the edge it was found by, in that order; the next frontier.\<close>

type_synonym Found = "string \<times> nat \<times> Edge"

definition visitNeighbor :: "TraversalDirection \<Rightarrow> nat \<Rightarrow> string \<Rightarrow> Edge \<Rightarrow> string set \<times> Found list \<times> string list
    \<Rightarrow> string set \<times> Found list \<times> string list" where
  "visitNeighbor direction distance currentID edge st = (case st of (visited, found, next) \<Rightarrow>
     (case traversalNeighbor direction currentID edge of
        None \<Rightarrow> st
      | Some neighborID \<Rightarrow> if neighborID \<in> visited then st
          else (insert neighborID visited, found @ [(neighborID, distance, edge)], next @ [neighborID])))"

definition visitLevel :: "TraversalDirection \<Rightarrow> Edge list \<Rightarrow> nat \<Rightarrow> string list \<Rightarrow> string set \<times> Found list
    \<Rightarrow> string set \<times> Found list \<times> string list" where
  "visitLevel direction edges distance frontier st =
     fold (\<lambda>currentID. fold (visitNeighbor direction distance currentID) edges) frontier (fst st, snd st, [])"

definition edgeEnds :: "Edge list \<Rightarrow> string set" where
  "edgeEnds edges = edge_SourceID ` set edges \<union> edge_TargetID ` set edges"

definition neighborRel :: "TraversalDirection \<Rightarrow> Edge list \<Rightarrow> (string \<times> string) set" where
  "neighborRel direction edges = {(x, y). \<exists>e\<in>set edges. traversalNeighbor direction x e = Some y}"

lemma fold_product: "fold (\<lambda>x. fold (f x) ys) xs st = fold (\<lambda>(x, y). f x y) (List.product xs ys) st"
proof (induction xs arbitrary: st)
  case (Cons x xs)
  have "fold (f x) ys st = fold (\<lambda>(x, y). f x y) (map (Pair x) ys) st" for st by (induction ys arbitrary: st) simp_all
  then show ?case using Cons.IH by simp
qed simp

text \<open>What one level adds.\<close>

lemma visitPairs:
  assumes "fold (\<lambda>(x, e). visitNeighbor direction distance x e) ps (visited, found, []) = (visited', found', next)"
  shows "\<exists>new. found' = found @ new \<and> next = map fst new \<and> visited' = visited \<union> set next \<and> distinct next
    \<and> set next = {y. \<exists>(x, e)\<in>set ps. traversalNeighbor direction x e = Some y} - visited
    \<and> (\<forall>(y, n, e)\<in>set new. n = distance \<and> (\<exists>x. (x, e) \<in> set ps \<and> traversalNeighbor direction x e = Some y))"
  using assms
proof (induction ps arbitrary: visited' found' "next" rule: rev_induct)
  case Nil
  then show ?case by (intro exI[of _ "[]"]) auto
next
  case (snoc p ps)
  obtain v f n where st: "fold (\<lambda>(x, e). visitNeighbor direction distance x e) ps (visited, found, []) = (v, f, n)"
    by (cases "fold (\<lambda>(x, e). visitNeighbor direction distance x e) ps (visited, found, [])")
  from snoc.IH[OF st] obtain new where new: "f = found @ new" "n = map fst new" "v = visited \<union> set n" "distinct n"
    "set n = {y. \<exists>(x, e)\<in>set ps. traversalNeighbor direction x e = Some y} - visited"
    "\<forall>(y, n, e)\<in>set new. n = distance \<and> (\<exists>x. (x, e) \<in> set ps \<and> traversalNeighbor direction x e = Some y)"
    by (elim exE conjE) (rule that)
  obtain x e where p: "p = (x, e)" by (cases p)
  have step: "visitNeighbor direction distance x e (v, f, n) = (visited', found', next)" using snoc.prems st p by simp
  show ?case
  proof (cases "\<exists>y. traversalNeighbor direction x e = Some y \<and> y \<notin> v")
    case True
    then obtain y where y: "traversalNeighbor direction x e = Some y" "y \<notin> v" by blast
    then have "visited' = insert y v" "found' = f @ [(y, distance, e)]" "next = n @ [y]" using step by (simp_all add: visitNeighbor_def)
    then show ?thesis using new y p by (intro exI[of _ "new @ [(y, distance, e)]"]) auto
  next
    case False
    then have "visited' = v" "found' = f" "next = n" using step by (auto simp: visitNeighbor_def split: option.splits if_splits)
    then show ?thesis using new False p by (intro exI[of _ new]) (auto split: option.splits)
  qed
qed

lemma visitLevel_result:
  assumes "visitLevel direction edges distance frontier st = (visited, found, next)"
  shows "\<exists>new. found = snd st @ new \<and> next = map fst new \<and> visited = fst st \<union> set next \<and> distinct next
    \<and> set next = neighborRel direction edges `` set frontier - fst st
    \<and> (\<forall>(y, n, e)\<in>set new. n = distance \<and> e \<in> set edges \<and> (\<exists>x\<in>set frontier. traversalNeighbor direction x e = Some y))"
proof -
  have "fold (\<lambda>(x, e). visitNeighbor direction distance x e) (List.product frontier edges) (fst st, snd st, []) = (visited, found, next)"
    using assms unfolding visitLevel_def fold_product .
  from visitPairs[OF this] obtain new where new: "found = snd st @ new" "next = map fst new" "visited = fst st \<union> set next" "distinct next"
    "set next = {y. \<exists>(x, e)\<in>set (List.product frontier edges). traversalNeighbor direction x e = Some y} - fst st"
    "\<forall>(y, n, e)\<in>set new. n = distance \<and> (\<exists>x. (x, e) \<in> set (List.product frontier edges) \<and> traversalNeighbor direction x e = Some y)"
    by (elim exE conjE) (rule that)
  have "{y. \<exists>(x, e)\<in>set (List.product frontier edges). traversalNeighbor direction x e = Some y} = neighborRel direction edges `` set frontier"
    by (auto simp: neighborRel_def)
  then show ?thesis using new by (intro exI[of _ new]) fastforce
qed

lemma neighborRel_ends: "neighborRel direction edges `` S \<subseteq> edgeEnds edges"
  by (auto simp: neighborRel_def edgeEnds_def traversalNeighbor_def split: if_splits)

lemma level_decreases:
  assumes "visitLevel direction edges distance frontier st = (visited, found, next)"
  shows "2 * card (edgeEnds edges - visited) + (if next = [] then 0 else 1) < 2 * card (edgeEnds edges - fst st) + (1 :: nat)"
proof -
  from visitLevel_result[OF assms] have g: "visited = fst st \<union> set next" "set next \<subseteq> edgeEnds edges - fst st"
    using neighborRel_ends by fast+
  have fin: "finite (edgeEnds edges - fst st)" by (simp add: edgeEnds_def)
  show ?thesis
  proof (cases "next = []")
    case True
    then show ?thesis using g by simp
  next
    case False
    then have "edgeEnds edges - visited \<subset> edgeEnds edges - fst st" using g by (cases "next") auto
    then have "card (edgeEnds edges - visited) < card (edgeEnds edges - fst st)" using fin psubset_card_mono by blast
    then show ?thesis by simp
  qed
qed

text \<open>The loop over the levels; a level that finds nothing new ends it.\<close>

function levelSearch :: "TraversalDirection \<Rightarrow> Edge list \<Rightarrow> nat \<Rightarrow> string list \<Rightarrow> string set \<times> Found list \<Rightarrow> string set \<times> Found list" where
  "levelSearch direction edges distance frontier st =
    (if frontier = [] then st
     else case visitLevel direction edges distance frontier st of
       (visited, found, next) \<Rightarrow> levelSearch direction edges (distance + 1) next (visited, found))"
  by auto
termination
  by (relation "measure (\<lambda>(direction, edges, distance, frontier, st). 2 * card (edgeEnds edges - fst st) + (if frontier = [] then 0 else 1))")
    (auto dest!: level_decreases[OF sym])

declare levelSearch.simps [simp del]

text \<open>The distance from the start: there is a walk of that length and none that is shorter.\<close>

definition withinDistance :: "(string \<times> string) set \<Rightarrow> string set \<Rightarrow> nat \<Rightarrow> string set" where
  "withinDistance R S n = {y. \<exists>m\<le>n. \<exists>x\<in>S. (x, y) \<in> R ^^ m}"

definition atDistance :: "(string \<times> string) set \<Rightarrow> string set \<Rightarrow> nat \<Rightarrow> string \<Rightarrow> bool" where
  "atDistance R S n y \<longleftrightarrow> (\<exists>x\<in>S. (x, y) \<in> R ^^ n) \<and> (\<forall>m<n. \<forall>x\<in>S. (x, y) \<notin> R ^^ m)"

lemma withinDistance_Suc: "withinDistance R S (Suc n) = withinDistance R S n \<union> R `` {y. atDistance R S n y}"
proof (rule set_eqI, rule iffI)
  fix y
  assume "y \<in> withinDistance R S (Suc n)"
  then obtain m x where m: "m \<le> Suc n" "x \<in> S" "(x, y) \<in> R ^^ m" by (auto simp: withinDistance_def)
  show "y \<in> withinDistance R S n \<union> R `` {y. atDistance R S n y}"
  proof (cases "y \<in> withinDistance R S n")
    case False
    then have "m = Suc n" using m by (auto simp: withinDistance_def intro: le_SucE)
    then obtain z where z: "(x, z) \<in> R ^^ n" "(z, y) \<in> R" using m(3) by auto
    have "(x', z) \<notin> R ^^ k" if "k < n" "x' \<in> S" for k x'
    proof
      assume "(x', z) \<in> R ^^ k"
      then have "(x', y) \<in> R ^^ Suc k" using z(2) by auto
      moreover have "Suc k \<le> n" using that(1) by simp
      ultimately show False using False that(2) unfolding withinDistance_def by blast
    qed
    then have "atDistance R S n z" using z(1) m(2) by (auto simp: atDistance_def)
    then show ?thesis using z(2) by blast
  qed simp
next
  fix y
  assume "y \<in> withinDistance R S n \<union> R `` {y. atDistance R S n y}"
  then consider (old) "y \<in> withinDistance R S n" | (new) z x where "(z, y) \<in> R" "x \<in> S" "(x, z) \<in> R ^^ n"
    by (auto simp: atDistance_def)
  then show "y \<in> withinDistance R S (Suc n)"
  proof cases
    case old
    then show ?thesis unfolding withinDistance_def by (blast intro: le_SucI)
  next
    case new
    then have "(x, y) \<in> R ^^ Suc n" by auto
    then show ?thesis using new(2) unfolding withinDistance_def by blast
  qed
qed

lemma atDistance_Suc: "atDistance R S (Suc n) y \<longleftrightarrow> y \<in> withinDistance R S (Suc n) - withinDistance R S n"
  by (auto simp: atDistance_def withinDistance_def less_Suc_eq_le le_Suc_eq simp del: relpow.simps)

lemma atDistance_unique: "atDistance R S m y \<Longrightarrow> atDistance R S n y \<Longrightarrow> m = n"
  by (auto simp: atDistance_def) (metis linorder_neqE_nat)

lemma withinDistance_stop:
  assumes "{y. atDistance R S n y} = {}"
  shows "withinDistance R S (n + k) = withinDistance R S n" and "\<not> atDistance R S (n + k) y"
proof -
  have step: "withinDistance R S (n + k) = withinDistance R S n \<and> {y. atDistance R S (n + k) y} = {}" for k
  proof (induction k)
    case (Suc k)
    then have "withinDistance R S (Suc (n + k)) = withinDistance R S (n + k)" using withinDistance_Suc[of R S "n + k"] by simp
    then show ?case using Suc atDistance_Suc[of R S "n + k"] by auto
  qed (use assms in simp)
  show "withinDistance R S (n + k) = withinDistance R S n" "\<not> atDistance R S (n + k) y" using step[of k] by auto
qed

lemma levelSearch_correct:
  assumes "set frontier = {y. atDistance R S d y}" "fst st = withinDistance R S d" "R = neighborRel direction edges"
  shows "\<exists>new. snd (levelSearch direction edges (d + 1) frontier st) = snd st @ new \<and> distinct (map fst new)
    \<and> set (map fst new) = {y. \<exists>n>d. atDistance R S n y}
    \<and> (\<forall>(y, n, e)\<in>set new. d < n \<and> atDistance R S n y \<and> e \<in> set edges
        \<and> (\<exists>x. atDistance R S (n - 1) x \<and> traversalNeighbor direction x e = Some y))"
  using assms
proof (induction direction edges "d + 1" frontier st arbitrary: d rule: levelSearch.induct)
  case (1 direction edges frontier st)
  show ?case
  proof (cases "frontier = []")
    case True
    then have "\<not> atDistance R S n y" if "d < n" for n y
      using withinDistance_stop(2)[of R S d "n - d"] 1(2) that by simp
    then show ?thesis using True by (intro exI[of _ "[]"]) (auto simp: levelSearch.simps)
  next
    case False
    obtain visited found "next" where level: "visitLevel direction edges (d + 1) frontier st = (visited, found, next)"
      by (cases "visitLevel direction edges (d + 1) frontier st")
    from visitLevel_result[OF level] obtain new where new: "found = snd st @ new" "next = map fst new" "visited = fst st \<union> set next"
      "distinct next" "set next = neighborRel direction edges `` set frontier - fst st"
      "\<forall>(y, n, e)\<in>set new. n = d + 1 \<and> e \<in> set edges \<and> (\<exists>x\<in>set frontier. traversalNeighbor direction x e = Some y)"
      by (elim exE conjE) (rule that)
    have visited: "visited = withinDistance R S (d + 1)"
      using new(3,5) 1(2-4) withinDistance_Suc[of R S d] by auto
    have frontier': "set next = {y. atDistance R S (d + 1) y}"
      using new(3,5) 1(2-4) withinDistance_Suc[of R S d] atDistance_Suc[of R S d] by auto
    have fst: "fst (visited, found) = withinDistance R S (d + 1)" using visited by simp
    from 1(1)[OF False level[symmetric] refl, of "d + 1", OF refl frontier' fst 1(4)] obtain more where more:
      "snd (levelSearch direction edges (d + 1 + 1) next (visited, found)) = found @ more" "distinct (map fst more)"
      "set (map fst more) = {y. \<exists>n>d + 1. atDistance R S n y}"
      "\<forall>(y, n, e)\<in>set more. d + 1 < n \<and> atDistance R S n y \<and> e \<in> set edges
        \<and> (\<exists>x. atDistance R S (n - 1) x \<and> traversalNeighbor direction x e = Some y)"
      unfolding snd_conv by (elim exE conjE) (rule that)
    have result: "snd (levelSearch direction edges (d + 1) frontier st) = snd st @ (new @ more)"
      unfolding levelSearch.simps[of direction edges "d + 1" frontier st] level using False more(1) new(1) by simp
    have disjoint: "set (map fst new) \<inter> set (map fst more) = {}"
    proof -
      have "\<not> (atDistance R S (d + 1) y \<and> atDistance R S n y)" if "n > d + 1" for n y
        using that atDistance_unique[of R S "d + 1" y n] by linarith
      then show ?thesis unfolding more(3) new(2)[symmetric] frontier' by blast
    qed
    have all: "{y. \<exists>n>d. atDistance R S n y} = {y. atDistance R S (d + 1) y} \<union> {y. \<exists>n>d + 1. atDistance R S n y}"
    proof -
      have later: "d < n \<longleftrightarrow> n = d + 1 \<or> d + 1 < n" for n by linarith
      show ?thesis by (rule set_eqI) (simp only: later mem_Collect_eq Un_iff ex_disj_distrib conj_disj_distribR simp_thms)
    qed
    have "\<forall>(y, n, e)\<in>set new. d < n \<and> atDistance R S n y \<and> e \<in> set edges
        \<and> (\<exists>x. atDistance R S (n - 1) x \<and> traversalNeighbor direction x e = Some y)"
    proof (rule ballI, clarify)
      fix y n e
      assume y: "(y, n, e) \<in> set new"
      then have "y \<in> set next" using new(2) by force
      then have "atDistance R S (d + 1) y" using frontier' by blast
      then show "d < n \<and> atDistance R S n y \<and> e \<in> set edges \<and> (\<exists>x. atDistance R S (n - 1) x \<and> traversalNeighbor direction x e = Some y)"
        using new(6) y 1(2) by fastforce
    qed
    then show ?thesis using result disjoint all new(2,4) more(2-4) frontier'
      by (intro exI[of _ "new @ more"]) auto
  qed
qed


text \<open>The search from a set of start nodes.\<close>

lemma levelSearch_start:
  assumes "set frontier = S" "R = neighborRel direction edges"
  shows "\<exists>found. snd (levelSearch direction edges 1 frontier (S, [])) = found \<and> distinct (map fst found)
    \<and> set (map fst found) = {y. \<exists>n>0. atDistance R S n y}
    \<and> (\<forall>(y, n, e)\<in>set found. 0 < n \<and> atDistance R S n y \<and> e \<in> set edges
        \<and> (\<exists>x. atDistance R S (n - 1) x \<and> traversalNeighbor direction x e = Some y))"
proof -
  have "set frontier = {y. atDistance R S 0 y}" "fst (S, []) = withinDistance R S 0"
    using assms(1) by (auto simp: atDistance_def withinDistance_def)
  from levelSearch_correct[OF this(1) this(2) assms(2)] show ?thesis by simp
qed

subsection \<open>Impact\<close>

definition impactRelationWeight :: "RelationKind \<Rightarrow> float64" where
  "impactRelationWeight relation = (if relation = ''contains'' then 1 / 4 else if relation = ''implements'' then 9 / 10 else 1)"

definition impactKey :: "ImpactEvidence \<Rightarrow> float64 \<times> nat \<times> string" where
  "impactKey evidence = (- imp_Score evidence, imp_Distance evidence, node_ID (imp_Node evidence))"

definition impactOf :: "(string \<rightharpoonup> Node) \<Rightarrow> Found \<Rightarrow> ImpactEvidence list" where
  "impactOf nodes reach = (case reach of (nodeID, distance, edge) \<Rightarrow>
     (case nodes nodeID of None \<Rightarrow> []
      | Some node \<Rightarrow> [\<lparr>imp_Node = node, imp_Relation = edge_Relation edge, imp_Distance = distance,
          imp_Score = impactRelationWeight (edge_Relation edge) / of_nat distance\<rparr>]))"

text \<open>An edge into the current node leads to its source: the neighbour of an incoming traversal.\<close>

definition rankImpactEvidence :: "Facts \<Rightarrow> string list \<Rightarrow> ImpactEvidence list" where
  "rankImpactEvidence facts startNodeIDs =
     sort_key impactKey (concat (map (impactOf (nodeMap (facts_Nodes facts)))
       (snd (levelSearch TraverseIncoming (facts_Edges facts) 1 startNodeIDs (set startNodeIDs, [])))))"

subsection \<open>Evidence of a traversal\<close>

definition edgeSortKey :: "Edge \<Rightarrow> string list" where
  "edgeSortKey edge = [edge_SourceID edge, edge_TargetID edge, edge_Relation edge]"

definition sortEdges :: "Edge list \<Rightarrow> Edge list" where "sortEdges edges = sort_key edgeSortKey edges"

fun nodesForEnds :: "(string \<rightharpoonup> Node) \<Rightarrow> string list \<Rightarrow> string set \<Rightarrow> Node list" where
  "nodesForEnds nodesByID [] seen = []"
| "nodesForEnds nodesByID (nodeID # rest) seen =
    (if nodeID \<in> seen then nodesForEnds nodesByID rest seen
     else case nodesByID nodeID of None \<Rightarrow> nodesForEnds nodesByID rest seen
       | Some node \<Rightarrow> node # nodesForEnds nodesByID rest (insert nodeID seen))"

definition nodesForEdges :: "(string \<rightharpoonup> Node) \<Rightarrow> Edge list \<Rightarrow> Node list" where
  "nodesForEdges nodesByID edges =
     nodesForEnds nodesByID (concat (map (\<lambda>edge. [edge_SourceID edge, edge_TargetID edge]) edges)) {}"

text \<open>The groups of found edges by distance and relation, in the order their keys were first met.\<close>

definition groupKey :: "Found \<Rightarrow> nat \<times> RelationKind" where
  "groupKey reach = (fst (snd reach), edge_Relation (snd (snd reach)))"

definition edgeGroups :: "Found list \<Rightarrow> ((nat \<times> RelationKind) \<times> Edge list) list" where
  "edgeGroups found = map (\<lambda>key. (key, map (\<lambda>reach. snd (snd reach)) (filter (\<lambda>reach. groupKey reach = key) found)))
     (remdups (map groupKey found))"

fun distinctSeedIDs :: "string list \<Rightarrow> string set \<Rightarrow> string list" where
  "distinctSeedIDs [] visited = []"
| "distinctSeedIDs (nodeID # rest) visited =
    (if nodeID \<in> visited then distinctSeedIDs rest visited else nodeID # distinctSeedIDs rest (insert nodeID visited))"

definition groupEvidence :: "QueryPlan \<Rightarrow> string \<Rightarrow> float64 \<Rightarrow> (string \<rightharpoonup> Node) \<Rightarrow> (nat \<times> RelationKind) \<times> Edge list \<Rightarrow> EvidenceGroup" where
  "groupEvidence plan slotRole seedRelevance nodesByID keyed = (case keyed of ((distance, relation), edges) \<Rightarrow>
     let components = \<lparr>ec_SeedRelevance = seedRelevance, ec_Distance = 1 / of_nat distance,
           ec_RelationFit = relationFit (plan_AllowedRelations plan) relation, ec_Confidence = plan_Confidence plan,
           ec_SharedSupport = 1, ec_PathDiversity = of_nat (length edges)\<rparr>
     in \<lparr>eg_Rank = 0, eg_Score = evidenceScore components, eg_Components = components,
         eg_Reason = ''Matched the '' @ slotRole @ '' slot through '' @ relation @ '' at distance '' @ Itoa distance @ ''.'',
         eg_SlotRole = slotRole, eg_Relation = relation, eg_Distance = distance,
         eg_Nodes = nodesForEdges nodesByID edges, eg_Edges = edges\<rparr>)"

definition groupOrder :: "EvidenceGroup \<Rightarrow> float64 \<times> nat \<times> RelationKind" where
  "groupOrder g = (- eg_Score g, eg_Distance g, eg_Relation g)"

definition seedIDs :: "SeedSet list \<Rightarrow> string list" where
  "seedIDs seeds = concat (map (\<lambda>seedSet. map node_ID (seed_Nodes seedSet)) seeds)"

definition traversalEvidence :: "QueryPlan \<Rightarrow> SeedSet list \<Rightarrow> Facts \<Rightarrow> EvidenceGroup list" where
  "traversalEvidence plan seeds facts =
    (if facts_Nodes facts = [] \<and> facts_Edges facts = [] then []
     else let slotRole = (case seeds of [] \<Rightarrow> '''' | first # _ \<Rightarrow> seed_Role first);
              seedRelevance = (case seeds of [] \<Rightarrow> 1 | first # _ \<Rightarrow>
                (case seed_Rankings first of [] \<Rightarrow> 1 | ranking # _ \<Rightarrow> sr_Score ranking));
              frontier = distinctSeedIDs (seedIDs seeds) {};
              found = snd (levelSearch (plan_Direction plan) (sortEdges (facts_Edges facts)) 1 frontier (set frontier, []))
       in withRanks (sort_key groupOrder
            (map (groupEvidence plan slotRole seedRelevance (nodeMap (facts_Nodes facts))) (edgeGroups found))))"


lemma nodesForEnds_set: "set (nodesForEnds nodesByID ends seen) \<subseteq> ran nodesByID"
  by (induction nodesByID ends seen rule: nodesForEnds.induct) (auto split: option.splits intro: ranI)

lemma set_distinctSeedIDs: "set (distinctSeedIDs ids visited) = set ids - visited"
  by (induction ids visited rule: distinctSeedIDs.induct) auto

lemma edgeGroups_keys: "distinct (map fst (edgeGroups found))" "set (map fst (edgeGroups found)) = groupKey ` set found"
  by (simp_all add: edgeGroups_def comp_def)

lemma edgeGroups_edges:
  "(key, edges) \<in> set (edgeGroups found) \<Longrightarrow> edges = map (\<lambda>reach. snd (snd reach)) (filter (\<lambda>reach. groupKey reach = key) found)"
  by (auto simp: edgeGroups_def)

lemma withRanks_ranks: "map eg_Rank (withRanks evidence) = [1..<length evidence + 1]"
proof -
  have m: "map (eg_Rank \<circ> (\<lambda>(rank, group). group\<lparr>eg_Rank := rank\<rparr>)) (zip xs ys) = map fst (zip xs ys)" for xs :: "nat list" and ys :: "EvidenceGroup list"
    by (simp add: comp_def case_prod_beta)
  show ?thesis unfolding withRanks_def map_map m by (simp del: upt_Suc)
qed

lemma withRanks_map:
  assumes "\<And>g r. f (g\<lparr>eg_Rank := r\<rparr>) = f g"
  shows "map f (withRanks evidence) = map f evidence"
proof -
  have m: "map f (map (\<lambda>(rank, group). group\<lparr>eg_Rank := rank\<rparr>) (zip xs ys)) = map f (map snd (zip xs ys))" for xs :: "nat list" and ys
    by (simp add: comp_def case_prod_beta assms)
  show ?thesis unfolding withRanks_def m by (simp del: upt_Suc map_map)
qed

lemma impactOf_single:
  "impactOf nodes (y, n, e) = (case nodes y of None \<Rightarrow> [] | Some node \<Rightarrow> [\<lparr>imp_Node = node, imp_Relation = edge_Relation e,
     imp_Distance = n, imp_Score = impactRelationWeight (edge_Relation e) / of_nat n\<rparr>])"
  by (simp add: impactOf_def)

lemma impact_ids:
  "map (\<lambda>i. node_ID (imp_Node i)) (concat (map (impactOf (nodeMap nodes)) found)) = filter (\<lambda>y. y \<in> node_ID ` set nodes) (map fst found)"
proof (induction found)
  case (Cons reach found)
  obtain y n e where reach: "reach = (y, n, e)" by (cases reach)
  show ?case
  proof (cases "nodeMap nodes y")
    case None
    have "impactOf (nodeMap nodes) reach = []" unfolding reach impactOf_single None by simp
    moreover have "y \<notin> node_ID ` set nodes" using None by simp
    ultimately show ?thesis using Cons.IH reach by simp
  next
    case (Some node)
    have "map (\<lambda>i. node_ID (imp_Node i)) (impactOf (nodeMap nodes) reach) = [node_ID node]"
      unfolding reach impactOf_single Some by simp
    moreover have "node_ID node = y" "y \<in> node_ID ` set nodes" using nodeMap_Some[OF Some] by auto
    ultimately show ?thesis using Cons.IH reach by simp
  qed
qed simp


subsection \<open>Properties\<close>

text \<open>C35: The impact evidence of a change lists, once each and in the order of score, distance and ID, exactly the
  nodes of the facts from which a changed node can be reached; each with the length of a shortest such walk, the
  relation of an edge that continues it, and the weight of that relation over the distance as its score.\<close>

theorem impact_evidence_is_exact:
  assumes "R = neighborRel TraverseIncoming (facts_Edges facts)"
  shows "distinct (map (\<lambda>i. node_ID (imp_Node i)) (rankImpactEvidence facts starts))
    \<and> set (map (\<lambda>i. node_ID (imp_Node i)) (rankImpactEvidence facts starts))
        = {y \<in> node_ID ` set (facts_Nodes facts). \<exists>n>0. atDistance R (set starts) n y}
    \<and> (\<forall>i\<in>set (rankImpactEvidence facts starts). imp_Node i \<in> set (facts_Nodes facts) \<and> 0 < imp_Distance i
        \<and> atDistance R (set starts) (imp_Distance i) (node_ID (imp_Node i))
        \<and> (\<exists>e\<in>set (facts_Edges facts). edge_SourceID e = node_ID (imp_Node i) \<and> edge_Relation e = imp_Relation i
            \<and> atDistance R (set starts) (imp_Distance i - 1) (edge_TargetID e))
        \<and> imp_Score i = impactRelationWeight (imp_Relation i) / of_nat (imp_Distance i))
    \<and> sorted (map impactKey (rankImpactEvidence facts starts))"
proof -
  obtain found where found: "snd (levelSearch TraverseIncoming (facts_Edges facts) 1 starts (set starts, [])) = found"
    "distinct (map fst found)" "set (map fst found) = {y. \<exists>n>0. atDistance R (set starts) n y}"
    "\<forall>(y, n, e)\<in>set found. 0 < n \<and> atDistance R (set starts) n y \<and> e \<in> set (facts_Edges facts)
        \<and> (\<exists>x. atDistance R (set starts) (n - 1) x \<and> traversalNeighbor TraverseIncoming x e = Some y)"
    using levelSearch_start[OF refl assms, of starts] by (elim exE conjE) (rule that)
  let ?evidence = "concat (map (impactOf (nodeMap (facts_Nodes facts))) found)"
  have evidence: "rankImpactEvidence facts starts = sort_key impactKey ?evidence"
    unfolding rankImpactEvidence_def found(1) by (rule refl)
  have ids: "map (\<lambda>i. node_ID (imp_Node i)) ?evidence = filter (\<lambda>y. y \<in> node_ID ` set (facts_Nodes facts)) (map fst found)"
    by (rule impact_ids)
  have "mset (map (\<lambda>i. node_ID (imp_Node i)) (sort_key impactKey ?evidence)) = mset (map (\<lambda>i. node_ID (imp_Node i)) ?evidence)" by simp
  then have "distinct (map (\<lambda>i. node_ID (imp_Node i)) (sort_key impactKey ?evidence))"
    using found(2) unfolding ids by (metis distinct_filter mset_eq_imp_distinct_iff)
  moreover have "set (map (\<lambda>i. node_ID (imp_Node i)) (sort_key impactKey ?evidence)) = {y \<in> node_ID ` set (facts_Nodes facts). \<exists>n>0. atDistance R (set starts) n y}"
    using arg_cong[OF ids, of set] found(3) by auto
  moreover have "imp_Node i \<in> set (facts_Nodes facts) \<and> 0 < imp_Distance i
        \<and> atDistance R (set starts) (imp_Distance i) (node_ID (imp_Node i))
        \<and> (\<exists>e\<in>set (facts_Edges facts). edge_SourceID e = node_ID (imp_Node i) \<and> edge_Relation e = imp_Relation i
            \<and> atDistance R (set starts) (imp_Distance i - 1) (edge_TargetID e))
        \<and> imp_Score i = impactRelationWeight (imp_Relation i) / of_nat (imp_Distance i)" if i: "i \<in> set ?evidence" for i
  proof -
    obtain y n e where reach: "(y, n, e) \<in> set found" "i \<in> set (impactOf (nodeMap (facts_Nodes facts)) (y, n, e))" using i by auto
    have "nodeMap (facts_Nodes facts) y \<noteq> None"
      using reach(2) unfolding impactOf_single by (cases "nodeMap (facts_Nodes facts) y") (simp_all del: nodeMap_None)
    then obtain node where node: "nodeMap (facts_Nodes facts) y = Some node"
      "i = \<lparr>imp_Node = node, imp_Relation = edge_Relation e, imp_Distance = n, imp_Score = impactRelationWeight (edge_Relation e) / of_nat n\<rparr>"
      using reach(2) unfolding impactOf_single by (elim not_None_eq[THEN iffD1, elim_format] exE) simp
    obtain x where x: "0 < n" "atDistance R (set starts) n y" "e \<in> set (facts_Edges facts)" "atDistance R (set starts) (n - 1) x"
      "traversalNeighbor TraverseIncoming x e = Some y" using found(4) reach(1) by fast
    have "edge_TargetID e = x" "edge_SourceID e = y" using x(5) by (auto simp: traversalNeighbor_def TraverseIncoming_def TraverseOutgoing_def split: if_splits)
    moreover have "node \<in> set (facts_Nodes facts)" "node_ID node = y" using nodeMap_Some[OF node(1)] by simp_all
    ultimately show ?thesis using x(1-4) unfolding node(2) by auto
  qed
  ultimately show ?thesis unfolding evidence by (simp add: sorted_sort_key)
qed

text \<open>The evidence of a traversal assigns every node found after the seeds the edge it was first reached by, one step
  nearer to the seeds; the groups are exactly these edges by distance and relation, every group once, sorted by
  score and numbered from 1.\<close>

theorem traversal_evidence_is_exact:
  assumes "facts_Nodes facts \<noteq> [] \<or> facts_Edges facts \<noteq> []"
    and "R = neighborRel (plan_Direction plan) (facts_Edges facts)" and "S = set (seedIDs seeds)"
    and "groups = traversalEvidence plan seeds facts"
  shows "\<exists>via. (\<forall>y n. 0 < n \<and> atDistance R S n y \<longrightarrow> via y \<in> set (facts_Edges facts)
        \<and> (\<exists>x. atDistance R S (n - 1) x \<and> traversalNeighbor (plan_Direction plan) x (via y) = Some y))
    \<and> (\<lambda>g. (eg_Distance g, eg_Relation g)) ` set groups = {(n, edge_Relation (via y)) | n y. 0 < n \<and> atDistance R S n y}
    \<and> (\<forall>g\<in>set groups. set (eg_Edges g) = via ` {y. atDistance R S (eg_Distance g) y \<and> edge_Relation (via y) = eg_Relation g}
        \<and> length (eg_Edges g) = card {y. atDistance R S (eg_Distance g) y \<and> edge_Relation (via y) = eg_Relation g}
        \<and> set (eg_Nodes g) \<subseteq> set (facts_Nodes facts) \<and> eg_Score g = evidenceScore (eg_Components g))
    \<and> distinct (map (\<lambda>g. (eg_Distance g, eg_Relation g)) groups)
    \<and> sorted (map groupOrder groups) \<and> map eg_Rank groups = [1..<length groups + 1]"
proof -
  let ?edges = "sortEdges (facts_Edges facts)"
  let ?frontier = "distinctSeedIDs (seedIDs seeds) {}"
  have R: "R = neighborRel (plan_Direction plan) ?edges" using assms(2) by (simp add: neighborRel_def sortEdges_def)
  have S: "set ?frontier = S" unfolding set_distinctSeedIDs assms(3) by simp
  obtain found where found: "snd (levelSearch (plan_Direction plan) ?edges 1 ?frontier (S, [])) = found"
    "distinct (map fst found)" "set (map fst found) = {y. \<exists>n>0. atDistance R S n y}"
    "\<forall>(y, n, e)\<in>set found. 0 < n \<and> atDistance R S n y \<and> e \<in> set ?edges
        \<and> (\<exists>x. atDistance R S (n - 1) x \<and> traversalNeighbor (plan_Direction plan) x e = Some y)"
    using levelSearch_start[OF S R] by (elim exE conjE) (rule that)
  define via where "via = (\<lambda>y. snd (the (map_of found y)))"
  have via: "via y = e" if "(y, n, e) \<in> set found" for y n e
    using map_of_is_SomeI[OF found(2) that] by (simp add: via_def)
  have at: "(y, n, via y) \<in> set found" if "0 < n" "atDistance R S n y" for n y
  proof -
    have "y \<in> set (map fst found)" using found(3) that by blast
    then obtain n' e where e: "(y, n', e) \<in> set found" by auto
    then have "n' = n" using found(4) atDistance_unique that(2) by fast
    then show ?thesis using e via[OF e] by simp
  qed
  have via_found: "0 < n \<and> atDistance R S n y \<and> e = via y" if "(y, n, e) \<in> set found" for y n e using found(4) that via[OF that] by fast
  let ?group = "groupEvidence plan (case seeds of [] \<Rightarrow> '''' | first # _ \<Rightarrow> seed_Role first)
    (case seeds of [] \<Rightarrow> 1 | first # _ \<Rightarrow> (case seed_Rankings first of [] \<Rightarrow> 1 | ranking # _ \<Rightarrow> sr_Score ranking)) (nodeMap (facts_Nodes facts))"
  let ?unranked = "sort_key groupOrder (map ?group (edgeGroups found))"
  have groups: "groups = withRanks ?unranked"
  proof -
    have "\<not> (facts_Nodes facts = [] \<and> facts_Edges facts = [])" using assms(1) by blast
    then show ?thesis unfolding assms(4) traversalEvidence_def Let_def S found(1) by (simp only: if_False)
  qed
  have key: "(eg_Distance (?group keyed), eg_Relation (?group keyed)) = fst keyed" for keyed
    by (cases keyed; cases "fst keyed") (simp add: groupEvidence_def Let_def)
  have keys: "mset (map (\<lambda>g. (eg_Distance g, eg_Relation g)) groups) = mset (map fst (edgeGroups found))"
  proof -
    have "map (\<lambda>g. (eg_Distance g, eg_Relation g)) groups = map (\<lambda>g. (eg_Distance g, eg_Relation g)) ?unranked"
      unfolding groups by (rule withRanks_map) simp
    moreover have "mset (map (\<lambda>g. (eg_Distance g, eg_Relation g)) ?unranked) = mset (map (\<lambda>keyed. fst keyed) (edgeGroups found))"
      by (simp add: key multiset.map_comp comp_def)
    ultimately show ?thesis by simp
  qed
  have foundKeys: "groupKey ` set found = {(n, edge_Relation (via y)) | n y. 0 < n \<and> atDistance R S n y}"
  proof (rule set_eqI, rule iffI)
    fix k assume "k \<in> groupKey ` set found"
    then obtain y n e where "(y, n, e) \<in> set found" "k = (n, edge_Relation e)" by (auto simp: groupKey_def)
    then show "k \<in> {(n, edge_Relation (via y)) | n y. 0 < n \<and> atDistance R S n y}" using via_found by blast
  next
    fix k assume "k \<in> {(n, edge_Relation (via y)) | n y. 0 < n \<and> atDistance R S n y}"
    then obtain n y where k: "k = (n, edge_Relation (via y))" "0 < n" "atDistance R S n y" by blast
    then have "groupKey (y, n, via y) = k" "(y, n, via y) \<in> set found" using at by (simp_all add: groupKey_def)
    then show "k \<in> groupKey ` set found" by force
  qed
  have each: "set (eg_Edges g) = via ` {y. atDistance R S (eg_Distance g) y \<and> edge_Relation (via y) = eg_Relation g}
        \<and> length (eg_Edges g) = card {y. atDistance R S (eg_Distance g) y \<and> edge_Relation (via y) = eg_Relation g}
        \<and> set (eg_Nodes g) \<subseteq> set (facts_Nodes facts) \<and> eg_Score g = evidenceScore (eg_Components g)" if g: "g \<in> set groups" for g
  proof -
    obtain r n rel edges where keyed: "((n, rel), edges) \<in> set (edgeGroups found)" "g = (?group ((n, rel), edges))\<lparr>eg_Rank := r\<rparr>"
      using g unfolding groups withRanks_def by (auto dest!: set_zip_rightD)
    let ?members = "filter (\<lambda>reach. groupKey reach = (n, rel)) found"
    have n: "0 < n"
    proof -
      have "(n, rel) \<in> groupKey ` set found" using keyed(1) edgeGroups_keys(2)[of found] by force
      then show ?thesis unfolding foundKeys by blast
    qed
    have members: "fst ` set ?members = {y. atDistance R S n y \<and> edge_Relation (via y) = rel}"
    proof (rule set_eqI, rule iffI)
      fix y assume "y \<in> fst ` set ?members"
      then obtain e where "(y, n, e) \<in> set found" "edge_Relation e = rel" by (auto simp: groupKey_def)
      then show "y \<in> {y. atDistance R S n y \<and> edge_Relation (via y) = rel}" using via_found by blast
    next
      fix y assume "y \<in> {y. atDistance R S n y \<and> edge_Relation (via y) = rel}"
      then have "(y, n, via y) \<in> set found" "groupKey (y, n, via y) = (n, rel)" using at[OF n] by (simp_all add: groupKey_def)
      then show "y \<in> fst ` set ?members" by force
    qed
    have edges: "edges = map (\<lambda>reach. snd (snd reach)) ?members" using edgeGroups_edges[OF keyed(1)] .
    have "map (\<lambda>reach. snd (snd reach)) ?members = map via (map fst ?members)" using via_found by auto
    then have "set edges = via ` (fst ` set ?members)" unfolding edges by (metis set_map)
    moreover have "length edges = card (fst ` set ?members)"
      unfolding edges using distinct_card[of "map fst ?members"] found(2) by (simp add: distinct_map_filter)
    moreover have "set (eg_Nodes g) \<subseteq> set (facts_Nodes facts)"
      unfolding keyed(2) using nodesForEnds_set[of "nodeMap (facts_Nodes facts)"] nodeMap_Some
      by (fastforce simp: groupEvidence_def Let_def nodesForEdges_def ran_def)
    ultimately show ?thesis unfolding keyed(2) members by (simp add: groupEvidence_def Let_def)
  qed
  have "\<forall>y n. 0 < n \<and> atDistance R S n y \<longrightarrow> via y \<in> set (facts_Edges facts)
        \<and> (\<exists>x. atDistance R S (n - 1) x \<and> traversalNeighbor (plan_Direction plan) x (via y) = Some y)"
  proof (intro allI impI)
    fix y n assume "0 < n \<and> atDistance R S n y"
    then have "(y, n, via y) \<in> set found" using at by blast
    then have "via y \<in> set ?edges \<and> (\<exists>x. atDistance R S (n - 1) x \<and> traversalNeighbor (plan_Direction plan) x (via y) = Some y)"
      using found(4) by fast
    then show "via y \<in> set (facts_Edges facts) \<and> (\<exists>x. atDistance R S (n - 1) x \<and> traversalNeighbor (plan_Direction plan) x (via y) = Some y)"
      by (simp add: sortEdges_def)
  qed
  moreover have "(\<lambda>g. (eg_Distance g, eg_Relation g)) ` set groups = {(n, edge_Relation (via y)) | n y. 0 < n \<and> atDistance R S n y}"
    using arg_cong[OF keys, of set_mset] edgeGroups_keys(2)[of found] foundKeys by simp
  moreover have "distinct (map (\<lambda>g. (eg_Distance g, eg_Relation g)) groups)"
    using keys edgeGroups_keys(1)[of found] mset_eq_imp_distinct_iff by blast
  moreover have "sorted (map groupOrder groups)"
  proof -
    have "map groupOrder groups = map groupOrder ?unranked" unfolding groups by (rule withRanks_map) (simp add: groupOrder_def)
    then show ?thesis by (simp add: sorted_sort_key)
  qed
  moreover have "map eg_Rank groups = [1..<length groups + 1]"
    using withRanks_ranks[of ?unranked] unfolding groups by (simp add: withRanks_def del: upt_Suc)
  ultimately show ?thesis using each by blast
qed


text \<open>A concrete graph: b calls a.\<close>

definition sampleImpactNode :: "string \<Rightarrow> Node" where
  "sampleImpactNode i = zero_Node\<lparr>node_ID := i\<rparr>"

definition sampleImpactEdge :: Edge where
  "sampleImpactEdge = zero_Edge\<lparr>edge_SourceID := ''b'', edge_TargetID := ''a'', edge_Relation := ''calls''\<rparr>"

definition sampleImpactFacts :: Facts where
  "sampleImpactFacts = \<lparr>facts_Nodes = [sampleImpactNode ''a'', sampleImpactNode ''b''], facts_Edges = [sampleImpactEdge]\<rparr>"

lemma sample_distance: "atDistance (neighborRel TraverseIncoming (facts_Edges sampleImpactFacts)) {''a''} 1 ''b''"
  by (simp add: atDistance_def neighborRel_def sampleImpactFacts_def sampleImpactEdge_def traversalNeighbor_def
      TraverseIncoming_def TraverseOutgoing_def)

theorem impact_evidence_is_exact_witness:
  "''b'' \<in> set (map (\<lambda>i. node_ID (imp_Node i)) (rankImpactEvidence sampleImpactFacts [''a'']))"
proof -
  let ?R = "neighborRel TraverseIncoming (facts_Edges sampleImpactFacts)"
  have eq: "set (map (\<lambda>i. node_ID (imp_Node i)) (rankImpactEvidence sampleImpactFacts [''a'']))
      = {y \<in> node_ID ` set (facts_Nodes sampleImpactFacts). \<exists>n>0. atDistance ?R (set [''a'']) n y}"
    using impact_evidence_is_exact[OF refl, of sampleImpactFacts "[''a'']"] by (elim conjE)
  have "\<exists>n>0. atDistance ?R (set [''a'']) n ''b''" using sample_distance by (intro exI[of _ 1]) simp
  moreover have "''b'' \<in> node_ID ` set (facts_Nodes sampleImpactFacts)" by (simp add: sampleImpactFacts_def sampleImpactNode_def)
  ultimately show ?thesis unfolding eq by blast
qed

definition samplePlan :: QueryPlan where
  "samplePlan = (basePlan asciiTables ''b'')\<lparr>plan_Direction := TraverseIncoming, plan_Operator := OperatorNeighbors\<rparr>"

definition sampleSeeds :: "SeedSet list" where
  "sampleSeeds = [\<lparr>seed_Role = ''callee'', seed_Term = ''a'', seed_Nodes = [sampleImpactNode ''a''], seed_Rankings = []\<rparr>]"

theorem traversal_evidence_is_exact_witness:
  "\<exists>g\<in>set (traversalEvidence samplePlan sampleSeeds sampleImpactFacts). eg_Distance g = 1 \<and> sampleImpactEdge \<in> set (eg_Edges g)"
proof -
  let ?R = "neighborRel (plan_Direction samplePlan) (facts_Edges sampleImpactFacts)"
  have ne: "facts_Nodes sampleImpactFacts \<noteq> [] \<or> facts_Edges sampleImpactFacts \<noteq> []" by (simp add: sampleImpactFacts_def)
  have S: "{''a''} = set (seedIDs sampleSeeds)" by (simp add: seedIDs_def sampleSeeds_def sampleImpactNode_def)
  have d: "0 < (1 :: nat) \<and> atDistance ?R {''a''} 1 ''b''" using sample_distance by (simp add: samplePlan_def)
  obtain via where via: "\<forall>y n. 0 < n \<and> atDistance ?R {''a''} n y \<longrightarrow> via y \<in> set (facts_Edges sampleImpactFacts)
        \<and> (\<exists>x. atDistance ?R {''a''} (n - 1) x \<and> traversalNeighbor (plan_Direction samplePlan) x (via y) = Some y)"
    "(\<lambda>g. (eg_Distance g, eg_Relation g)) ` set (traversalEvidence samplePlan sampleSeeds sampleImpactFacts)
      = {(n, edge_Relation (via y)) | n y. 0 < n \<and> atDistance ?R {''a''} n y}"
    "\<forall>g\<in>set (traversalEvidence samplePlan sampleSeeds sampleImpactFacts).
      set (eg_Edges g) = via ` {y. atDistance ?R {''a''} (eg_Distance g) y \<and> edge_Relation (via y) = eg_Relation g}"
    using traversal_evidence_is_exact[OF ne refl S refl, of samplePlan] by (elim exE conjE) (rule that, assumption, assumption, blast)
  have b: "via ''b'' = sampleImpactEdge" using via(1) d by (auto simp: sampleImpactFacts_def)
  have "(1, edge_Relation (via ''b'')) \<in> (\<lambda>g. (eg_Distance g, eg_Relation g)) ` set (traversalEvidence samplePlan sampleSeeds sampleImpactFacts)"
    unfolding via(2) using d by blast
  then obtain g where g: "g \<in> set (traversalEvidence samplePlan sampleSeeds sampleImpactFacts)" "eg_Distance g = 1"
    "eg_Relation g = edge_Relation (via ''b'')" by auto
  have "''b'' \<in> {y. atDistance ?R {''a''} (eg_Distance g) y \<and> edge_Relation (via y) = eg_Relation g}" using g d by simp
  then have "sampleImpactEdge \<in> set (eg_Edges g)" using via(3) g(1) b by (metis (no_types, lifting) image_eqI)
  then show ?thesis using g by blast
qed

end
