(* ===== verification/Traversal.thy ===== *)
theory Traversal
  imports Tables PathFinding "HOL-Library.AList"
begin

text \<open>
  Store.Traverse and Store.Explain of storage/sqlite/sqlite.go: the bounded breadth-first
  traversal of one snapshot.  Go maps keyed by node ID or edge key are association lists with
  distinct keys.  The loops take the two row readers as arguments, so that their lemmas hold for
  every reader obeying the graph_reader contract; the tables of the store are shown to obey it.
\<close>

type_synonym NodeReader = "string \<Rightarrow> Node option"
type_synonym EdgeReader = "string \<Rightarrow> Edge list"

definition edgeKey :: "Edge \<Rightarrow> string" where
  "edgeKey edge = edge_SourceID edge @ [CHR 0x00] @ edge_TargetID edge @ [CHR 0x00] @ edge_Relation edge"

definition traversalNeighbor :: "string \<Rightarrow> Edge \<Rightarrow> TraversalDirection \<Rightarrow> string option" where
  "traversalNeighbor nodeID edge direction =
    (if (direction = TraverseOutgoing \<or> direction = TraverseBoth) \<and> edge_SourceID edge = nodeID
     then Some (edge_TargetID edge)
     else if (direction = TraverseIncoming \<or> direction = TraverseBoth) \<and> edge_TargetID edge = nodeID
     then Some (edge_SourceID edge)
     else None)"

definition addTruncationReason :: "TruncationReason list \<Rightarrow> TruncationReason \<Rightarrow> TruncationReason list" where
  "addTruncationReason reasons reason = (if reason \<in> set reasons then reasons else reasons @ [reason])"

definition sortedNodes :: "(string \<times> Node) list \<Rightarrow> Node list" where
  "sortedNodes nodesByID = sort_key node_ID (map snd nodesByID)"

definition sortedEdges :: "(string \<times> Edge) list \<Rightarrow> Edge list" where
  "sortedEdges edgesByKey = sort_key edgeKey (map snd edgesByKey)"

definition relationAllowed :: "RelationKind list \<Rightarrow> RelationKind \<Rightarrow> bool" where
  "relationAllowed relations r \<longleftrightarrow> \<not> (length relations > 0 \<and> r \<notin> set relations)"

definition outOfScope :: "string list \<Rightarrow> string \<Rightarrow> bool" where
  "outOfScope scoped nodeID \<longleftrightarrow> length scoped > 0 \<and> nodeID \<notin> set scoped"

record TState =
  ts_nodes :: "(string \<times> Node) list"
  ts_edges :: "(string \<times> Edge) list"
  ts_reasons :: "TruncationReason list"
  ts_boundary :: "Node option"
  ts_next :: "string list"

definition selectedIDs :: "TState \<Rightarrow> string set" where
  "selectedIDs st = fst ` set (ts_nodes st)"

definition edgeKeys :: "TState \<Rightarrow> string set" where
  "edgeKeys st = fst ` set (ts_edges st)"

definition limitReached :: "TraversalRequest \<Rightarrow> TState \<Rightarrow> bool" where
  "limitReached request st \<longleftrightarrow> int (length (ts_nodes st)) = trav_MaxNodes request"

definition selectNode :: "string \<Rightarrow> Node \<Rightarrow> TState \<Rightarrow> TState" where
  "selectNode nodeID n st = st\<lparr>ts_nodes := AList.update nodeID n (ts_nodes st)\<rparr>"

definition selectEdge :: "Edge \<Rightarrow> TState \<Rightarrow> TState" where
  "selectEdge edge st = st\<lparr>ts_edges := AList.update (edgeKey edge) edge (ts_edges st)\<rparr>"

definition truncatedByNodes :: "TState \<Rightarrow> TState" where
  "truncatedByNodes st = st\<lparr>ts_reasons := addTruncationReason (ts_reasons st) TruncatedByNodeLimit\<rparr>"

text \<open>One incident edge of a frontier node.\<close>

definition visitEdge :: "NodeReader \<Rightarrow> string list \<Rightarrow> TraversalRequest \<Rightarrow> string \<Rightarrow> Edge \<Rightarrow> TState \<Rightarrow> TState" where
  "visitEdge readN scoped request nodeID edge st =
    (if \<not> relationAllowed (trav_Relations request) (edge_Relation edge) then st
     else case traversalNeighbor nodeID edge (trav_Direction request) of
       None \<Rightarrow> st
     | Some neighborID \<Rightarrow>
         (case readN neighborID of
            None \<Rightarrow> st
          | Some neighbor \<Rightarrow>
              if outOfScope scoped neighborID then
                (let st1 = (if ts_boundary st = None then st\<lparr>ts_boundary := Some neighbor\<rparr> else st) in
                 if limitReached request st1 then truncatedByNodes st1
                 else selectEdge edge (selectNode neighborID neighbor st1))
              else if neighborID \<notin> selectedIDs st then
                (if limitReached request st then truncatedByNodes st
                 else selectEdge edge ((selectNode neighborID neighbor st)\<lparr>ts_next := ts_next st @ [neighborID]\<rparr>))
              else selectEdge edge st))"

definition visitNode :: "NodeReader \<Rightarrow> EdgeReader \<Rightarrow> string list \<Rightarrow> TraversalRequest \<Rightarrow> string \<Rightarrow> TState \<Rightarrow> TState" where
  "visitNode readN readE scoped request nodeID st = fold (visitEdge readN scoped request nodeID) (readE nodeID) st"

definition visitLevel :: "NodeReader \<Rightarrow> EdgeReader \<Rightarrow> string list \<Rightarrow> TraversalRequest \<Rightarrow> string list \<Rightarrow> TState \<Rightarrow> TState" where
  "visitLevel readN readE scoped request frontier st =
     fold (visitNode readN readE scoped request) frontier (st\<lparr>ts_next := []\<rparr>)"

text \<open>The depth loop: the first argument counts the levels left.\<close>

fun traverseLevels :: "nat \<Rightarrow> NodeReader \<Rightarrow> EdgeReader \<Rightarrow> string list \<Rightarrow> TraversalRequest
    \<Rightarrow> string list \<Rightarrow> TState \<Rightarrow> string list \<times> TState" where
  "traverseLevels 0 readN readE scoped request frontier st = (frontier, st)"
| "traverseLevels (Suc depth) readN readE scoped request frontier st =
    (if frontier = [] then (frontier, st)
     else let st' = visitLevel readN readE scoped request frontier st
          in traverseLevels depth readN readE scoped request (uniqueSortedStrings (ts_next st')) st')"

text \<open>The start nodes: an error, an early truncated result, or the initial selection and frontier.\<close>

datatype StartOutcome =
    StartError StoreError
  | StartTruncated "(string \<times> Node) list"
  | StartSelected "(string \<times> Node) list" "string list"

fun selectStarts :: "NodeReader \<Rightarrow> string list \<Rightarrow> int \<Rightarrow> string list \<Rightarrow> (string \<times> Node) list \<Rightarrow> string list \<Rightarrow> StartOutcome" where
  "selectStarts readN scoped maxNodes [] selected frontier = StartSelected selected frontier"
| "selectStarts readN scoped maxNodes (nodeID # rest) selected frontier =
    (if nodeID \<in> fst ` set selected then selectStarts readN scoped maxNodes rest selected frontier
     else case readN nodeID of
       None \<Rightarrow> selectStarts readN scoped maxNodes rest selected frontier
     | Some node \<Rightarrow>
         if outOfScope scoped nodeID then StartError ErrInvalidRequest
         else if int (length selected) = maxNodes then StartTruncated selected
         else selectStarts readN scoped maxNodes rest (AList.update nodeID node selected) (frontier @ [nodeID]))"

fun hasTraversableNeighbor :: "Edge list \<Rightarrow> string \<Rightarrow> TraversalDirection \<Rightarrow> RelationKind list
    \<Rightarrow> (string \<times> Node) list \<Rightarrow> bool" where
  "hasTraversableNeighbor [] nodeID direction relations selected = False"
| "hasTraversableNeighbor (edge # edges) nodeID direction relations selected =
    (if \<not> relationAllowed relations (edge_Relation edge)
     then hasTraversableNeighbor edges nodeID direction relations selected
     else case traversalNeighbor nodeID edge direction of
       Some neighborID \<Rightarrow> if neighborID \<notin> fst ` set selected then True
                          else hasTraversableNeighbor edges nodeID direction relations selected
     | None \<Rightarrow> hasTraversableNeighbor edges nodeID direction relations selected)"

definition finishTraversal :: "EdgeReader \<Rightarrow> TraversalRequest \<Rightarrow> string list \<Rightarrow> TState \<Rightarrow> TraversalResult" where
  "finishTraversal readE request frontier st =
    (let reasons = (if list_ex (\<lambda>nodeID. hasTraversableNeighbor (readE nodeID) nodeID (trav_Direction request)
                          (trav_Relations request) (ts_nodes st)) frontier
                    then addTruncationReason (ts_reasons st) TruncatedByDepthLimit
                    else ts_reasons st)
     in \<lparr>tres_Facts = \<lparr>facts_Nodes = sortedNodes (ts_nodes st), facts_Edges = sortedEdges (ts_edges st)\<rparr>,
         tres_TruncationReasons = reasons, tres_ScopeBoundary = ts_boundary st\<rparr>)"

definition traverseFrom :: "NodeReader \<Rightarrow> EdgeReader \<Rightarrow> string list \<Rightarrow> TraversalRequest \<Rightarrow> StoreError + TraversalResult" where
  "traverseFrom readN readE scoped request =
    (case selectStarts readN scoped (trav_MaxNodes request) (sort (trav_StartNodeIDs request)) [] [] of
       StartError e \<Rightarrow> Inl e
     | StartTruncated selected \<Rightarrow>
         Inr \<lparr>tres_Facts = \<lparr>facts_Nodes = sortedNodes selected, facts_Edges = []\<rparr>,
              tres_TruncationReasons = [TruncatedByNodeLimit], tres_ScopeBoundary = None\<rparr>
     | StartSelected selected frontier \<Rightarrow>
         (case traverseLevels (nat (trav_MaxDepth request)) readN readE scoped request frontier
                 \<lparr>ts_nodes = selected, ts_edges = [], ts_reasons = [], ts_boundary = None, ts_next = []\<rparr> of
            (frontier', st) \<Rightarrow> Inr (finishTraversal readE request frontier' st)))"

definition Traverse :: "Database \<Rightarrow> Snapshot \<Rightarrow> TraversalRequest \<Rightarrow> StoreError + TraversalResult" where
  "Traverse db snapshot request =
    (if snap_Workspace snapshot = '''' \<or> snap_Version snapshot = 0 \<or> trav_StartNodeIDs request = []
        \<or> trav_MaxDepth request < 0 \<or> trav_MaxNodes request \<le> 0
     then Inl ErrInvalidRequest
     else if trav_Direction request \<noteq> TraverseIncoming \<and> trav_Direction request \<noteq> TraverseOutgoing
        \<and> trav_Direction request \<noteq> TraverseBoth
     then Inl ErrInvalidRequest
     else traverseFrom (readNode db snapshot) (readIncidentEdges db snapshot)
            (readScopedNodeIDs db snapshot (trav_ProjectIDs request)) request)"

subsection \<open>The invariant of the traversal\<close>

lemma alist_update_keys: "fst ` set (AList.update k v al) = insert k (fst ` set al)"
  using dom_update[of k v al] by (simp add: dom_map_of_conv_image_fst)

lemma alist_update_length_new: "k \<notin> fst ` set al \<Longrightarrow> length (AList.update k v al) = Suc (length al)"
  by (induction al) auto

lemma alist_update_length_old: "k \<in> fst ` set al \<Longrightarrow> length (AList.update k v al) = length al"
  by (induction al) auto

lemma set_alist_update: "set (AList.update k v al) \<subseteq> insert (k, v) (set al)"
  by (induction al) auto

lemma alist_update_distinct [simp]: "distinct (map fst al) \<Longrightarrow> distinct (map fst (AList.update k v al))"
  by (rule distinct_update)

lemma selectedIDs_simps [simp]:
  "selectedIDs (selectNode i n st) = insert i (selectedIDs st)"
  "selectedIDs (selectEdge e st) = selectedIDs st"
  "selectedIDs (truncatedByNodes st) = selectedIDs st"
  "selectedIDs (st\<lparr>ts_boundary := b\<rparr>) = selectedIDs st"
  "selectedIDs (st\<lparr>ts_next := xs\<rparr>) = selectedIDs st"
  by (simp_all add: selectedIDs_def selectNode_def selectEdge_def truncatedByNodes_def alist_update_keys)

lemma edgeKeys_simps [simp]:
  "edgeKeys (selectNode i n st) = edgeKeys st"
  "edgeKeys (selectEdge e st) = insert (edgeKey e) (edgeKeys st)"
  "edgeKeys (truncatedByNodes st) = edgeKeys st"
  "edgeKeys (st\<lparr>ts_boundary := b\<rparr>) = edgeKeys st"
  "edgeKeys (st\<lparr>ts_next := xs\<rparr>) = edgeKeys st"
  by (simp_all add: edgeKeys_def selectNode_def selectEdge_def truncatedByNodes_def alist_update_keys)

lemma ts_next_simps [simp]:
  "ts_next (selectNode i n st) = ts_next st" "ts_next (selectEdge e st) = ts_next st"
  "ts_next (truncatedByNodes st) = ts_next st"
  by (simp_all add: selectNode_def selectEdge_def truncatedByNodes_def)

lemma ts_reasons_simps [simp]:
  "ts_reasons (selectNode i n st) = ts_reasons st" "ts_reasons (selectEdge e st) = ts_reasons st"
  "TruncatedByNodeLimit \<in> set (ts_reasons (truncatedByNodes st))"
  by (simp_all add: selectNode_def selectEdge_def truncatedByNodes_def addTruncationReason_def)

lemma limitReached_simps [simp]:
  "limitReached rq (st\<lparr>ts_boundary := b\<rparr>) = limitReached rq st"
  by (simp add: limitReached_def)

lemma neighbor_endpoints:
  "traversalNeighbor i e d = Some j \<Longrightarrow> (edge_SourceID e = i \<and> edge_TargetID e = j) \<or> (edge_SourceID e = j \<and> edge_TargetID e = i)"
  by (auto simp: traversalNeighbor_def split: if_splits)

subsection \<open>Specification: bounded reachability\<close>

text \<open>
  One step leaves a node inside the scope over an edge of an allowed relation, in the requested
  direction, to a node of the graph (which may lie outside the scope).
\<close>

definition traversable :: "NodeReader \<Rightarrow> Edge set \<Rightarrow> string list \<Rightarrow> TraversalRequest \<Rightarrow> Edge \<Rightarrow> string \<Rightarrow> string \<Rightarrow> bool" where
  "traversable readN E scoped rq e i j \<longleftrightarrow> e \<in> E \<and> \<not> outOfScope scoped i
     \<and> relationAllowed (trav_Relations rq) (edge_Relation e)
     \<and> traversalNeighbor i e (trav_Direction rq) = Some j \<and> readN j \<noteq> None"

fun reachWithin :: "NodeReader \<Rightarrow> Edge set \<Rightarrow> string list \<Rightarrow> TraversalRequest \<Rightarrow> nat \<Rightarrow> string set \<Rightarrow> string set" where
  "reachWithin readN E scoped rq 0 S = S"
| "reachWithin readN E scoped rq (Suc k) S =
     reachWithin readN E scoped rq k (S \<union> {j. \<exists>i\<in>S. \<exists>e. traversable readN E scoped rq e i j})"

lemma reachWithin_mono: "S \<subseteq> T \<Longrightarrow> reachWithin readN E scoped rq k S \<subseteq> reachWithin readN E scoped rq k T"
proof (induction k arbitrary: S T)
  case (Suc k)
  have "S \<union> {j. \<exists>i\<in>S. \<exists>e. traversable readN E scoped rq e i j}
      \<subseteq> T \<union> {j. \<exists>i\<in>T. \<exists>e. traversable readN E scoped rq e i j}" using Suc.prems by blast
  from Suc.IH[OF this] show ?case by simp
qed simp

lemma reachWithin_self: "S \<subseteq> reachWithin readN E scoped rq k S"
proof (induction k arbitrary: S)
  case (Suc k)
  have "S \<subseteq> S \<union> {j. \<exists>i\<in>S. \<exists>e. traversable readN E scoped rq e i j}" by blast
  also have "\<dots> \<subseteq> reachWithin readN E scoped rq (Suc k) S" using Suc by simp
  finally show ?case .
qed simp

lemma reachWithin_closed:
  "(\<And>i e j. i \<in> S \<Longrightarrow> traversable readN E scoped rq e i j \<Longrightarrow> j \<in> S) \<Longrightarrow> reachWithin readN E scoped rq k S = S"
proof (induction k)
  case (Suc k)
  then have "S \<union> {j. \<exists>i\<in>S. \<exists>e. traversable readN E scoped rq e i j} = S" by blast
  then show ?case using Suc by simp
qed simp

lemma fold_grow:
  assumes "\<And>x s. x \<in> set xs \<Longrightarrow> P s \<Longrightarrow> A \<subseteq> g s \<Longrightarrow> P (f x s) \<and> g s \<subseteq> g (f x s)"
    and "P s" "A \<subseteq> g s"
  shows "P (fold f xs s) \<and> g s \<subseteq> g (fold f xs s)"
  using assms
proof (induction xs arbitrary: s)
  case (Cons x xs)
  from Cons.prems(1)[of x s] Cons.prems(2,3) have 1: "P (f x s)" "g s \<subseteq> g (f x s)" by auto
  have "A \<subseteq> g (f x s)" using Cons.prems(3) 1(2) by (rule order.trans)
  from Cons.IH[OF _ 1(1) this] Cons.prems(1) 1(2) show ?case by auto
qed simp

lemma fold_effect:
  assumes step: "\<And>x s. x \<in> set xs \<Longrightarrow> R s (f x s) \<and> C x (f x s)"
    and refl: "\<And>s. R s s" and trans: "\<And>a b c. R a b \<Longrightarrow> R b c \<Longrightarrow> R a c"
    and stable: "\<And>x a b. C x a \<Longrightarrow> R a b \<Longrightarrow> C x b"
  shows "R s (fold f xs s) \<and> (\<forall>x\<in>set xs. C x (fold f xs s))"
  using step
proof (induction xs arbitrary: s)
  case Nil
  then show ?case using refl by simp
next
  case (Cons x xs)
  have 1: "R s (f x s)" "C x (f x s)" using Cons.prems[of x s] by auto
  have "R (f x s) (fold f xs (f x s)) \<and> (\<forall>y\<in>set xs. C y (fold f xs (f x s)))"
    using Cons.prems by (intro Cons.IH) auto
  then show ?case using 1 trans stable by auto
qed

text \<open>How a state may grow: only with the nodes in U, recording the in-scope ones as next.\<close>

definition nodeLimited :: "TState \<Rightarrow> bool" where
  "nodeLimited st \<longleftrightarrow> TruncatedByNodeLimit \<in> set (ts_reasons st)"

definition grows :: "string list \<Rightarrow> string set \<Rightarrow> TState \<Rightarrow> TState \<Rightarrow> bool" where
  "grows sc U st st' \<longleftrightarrow> selectedIDs st \<subseteq> selectedIDs st' \<and> edgeKeys st \<subseteq> edgeKeys st'
     \<and> set (ts_next st) \<subseteq> set (ts_next st') \<and> (nodeLimited st \<longrightarrow> nodeLimited st')
     \<and> selectedIDs st' \<subseteq> selectedIDs st \<union> U \<and> set (ts_next st') \<subseteq> set (ts_next st) \<union> U
     \<and> (\<forall>x\<in>selectedIDs st' - selectedIDs st. \<not> outOfScope sc x \<longrightarrow> x \<in> set (ts_next st'))"

lemma grows_refl [simp]: "grows sc U st st"
  by (simp add: grows_def)

lemma grows_trans:
  assumes "grows sc U a b" "grows sc U b c" shows "grows sc U a c"
proof -
  have "\<forall>x\<in>selectedIDs c - selectedIDs a. \<not> outOfScope sc x \<longrightarrow> x \<in> set (ts_next c)"
    using assms unfolding grows_def by blast
  then show ?thesis using assms unfolding grows_def by blast
qed

lemma grows_mono: "grows sc U a b \<Longrightarrow> U \<subseteq> V \<Longrightarrow> grows sc V a b"
  unfolding grows_def by blast

definition edgeCovered :: "NodeReader \<Rightarrow> Edge set \<Rightarrow> string list \<Rightarrow> TraversalRequest \<Rightarrow> string \<Rightarrow> Edge \<Rightarrow> TState \<Rightarrow> bool" where
  "edgeCovered readN E sc rq i e st \<longleftrightarrow> nodeLimited st
     \<or> (\<forall>j. traversable readN E sc rq e i j \<longrightarrow> j \<in> selectedIDs st \<and> edgeKey e \<in> edgeKeys st)"

lemma edgeCovered_stable: "edgeCovered readN E sc rq i e a \<Longrightarrow> grows sc U a b \<Longrightarrow> edgeCovered readN E sc rq i e b"
  unfolding edgeCovered_def grows_def by blast

text \<open>The contract of the row readers.\<close>

locale graph_reader =
  fixes readN :: NodeReader and readE :: EdgeReader and E :: "Edge set"
  assumes node_id: "readN i = Some n \<Longrightarrow> node_ID n = i"
    and incident: "e \<in> set (readE i) \<longleftrightarrow> e \<in> E \<and> (edge_SourceID e = i \<or> edge_TargetID e = i)"
begin

text \<open>
  Selected nodes are keyed by their own ID and were read; selected edges are graph edges of an
  allowed relation between selected nodes; the frontier being built is selected, too.
\<close>

definition tinv :: "string list \<Rightarrow> TraversalRequest \<Rightarrow> TState \<Rightarrow> bool" where
  "tinv scoped rq st \<longleftrightarrow> distinct (map fst (ts_nodes st)) \<and> distinct (map fst (ts_edges st))
     \<and> (\<forall>(i, n)\<in>set (ts_nodes st). readN i = Some n)
     \<and> (\<forall>(k, e)\<in>set (ts_edges st). k = edgeKey e \<and> e \<in> E \<and> relationAllowed (trav_Relations rq) (edge_Relation e)
          \<and> edge_SourceID e \<in> selectedIDs st \<and> edge_TargetID e \<in> selectedIDs st)
     \<and> int (length (ts_nodes st)) \<le> trav_MaxNodes rq
     \<and> set (ts_next st) \<subseteq> selectedIDs st \<and> (\<forall>i\<in>set (ts_next st). \<not> outOfScope scoped i)"

lemma tinv_simps [simp]:
  "tinv sc rq (truncatedByNodes st) = tinv sc rq st"
  "tinv sc rq (st\<lparr>ts_boundary := b\<rparr>) = tinv sc rq st"
  by (simp_all add: tinv_def truncatedByNodes_def selectedIDs_def)

lemma tinv_selectNode:
  assumes "tinv sc rq st" "readN i = Some n" "\<not> limitReached rq st"
  shows "tinv sc rq (selectNode i n st)"
proof -
  have "int (length (AList.update i n (ts_nodes st))) \<le> trav_MaxNodes rq"
    using assms by (cases "i \<in> fst ` set (ts_nodes st)")
      (auto simp: tinv_def limitReached_def alist_update_length_new alist_update_length_old)
  moreover have "\<forall>(j, m)\<in>set (AList.update i n (ts_nodes st)). readN j = Some m"
  proof -
    have "\<forall>(j, m)\<in>set (ts_nodes st). readN j = Some m" using assms(1) by (simp add: tinv_def)
    then have "\<forall>(j, m)\<in>insert (i, n) (set (ts_nodes st)). readN j = Some m" using assms(2) by simp
    then show ?thesis using set_alist_update[of i n "ts_nodes st"] by blast
  qed
  moreover have "\<forall>(k, e)\<in>set (ts_edges st). k = edgeKey e \<and> e \<in> E \<and> relationAllowed (trav_Relations rq) (edge_Relation e)
          \<and> edge_SourceID e \<in> insert i (selectedIDs st) \<and> edge_TargetID e \<in> insert i (selectedIDs st)"
  proof -
    have "\<forall>(k, e)\<in>set (ts_edges st). k = edgeKey e \<and> e \<in> E \<and> relationAllowed (trav_Relations rq) (edge_Relation e)
          \<and> edge_SourceID e \<in> selectedIDs st \<and> edge_TargetID e \<in> selectedIDs st"
      using assms(1) by (simp add: tinv_def)
    then show ?thesis by (auto simp: case_prod_beta)
  qed
  moreover have "selectedIDs (selectNode i n st) = insert i (selectedIDs st)" by simp
  ultimately show ?thesis
    using assms(1) unfolding tinv_def by (simp add: selectNode_def subset_insertI2)
qed

lemma tinv_selectEdge:
  assumes "tinv sc rq st" "e \<in> E" "relationAllowed (trav_Relations rq) (edge_Relation e)"
    "edge_SourceID e \<in> selectedIDs st" "edge_TargetID e \<in> selectedIDs st"
  shows "tinv sc rq (selectEdge e st)"
proof -
  have "\<forall>(k, x)\<in>set (AList.update (edgeKey e) e (ts_edges st)). k = edgeKey x \<and> x \<in> E
      \<and> relationAllowed (trav_Relations rq) (edge_Relation x) \<and> edge_SourceID x \<in> selectedIDs st \<and> edge_TargetID x \<in> selectedIDs st"
  proof -
    have "\<forall>(k, x)\<in>set (ts_edges st). k = edgeKey x \<and> x \<in> E \<and> relationAllowed (trav_Relations rq) (edge_Relation x)
          \<and> edge_SourceID x \<in> selectedIDs st \<and> edge_TargetID x \<in> selectedIDs st"
      using assms(1) by (simp add: tinv_def)
    then have "\<forall>(k, x)\<in>insert (edgeKey e, e) (set (ts_edges st)). k = edgeKey x \<and> x \<in> E
      \<and> relationAllowed (trav_Relations rq) (edge_Relation x) \<and> edge_SourceID x \<in> selectedIDs st \<and> edge_TargetID x \<in> selectedIDs st"
      using assms(2-) by simp
    then show ?thesis using set_alist_update[of "edgeKey e" e "ts_edges st"] by blast
  qed
  moreover have "selectedIDs (selectEdge e st) = selectedIDs st" by simp
  ultimately show ?thesis
    using assms(1) unfolding tinv_def by (simp add: selectEdge_def)
qed

lemma tinv_next:
  "tinv sc rq st \<Longrightarrow> i \<in> selectedIDs st \<Longrightarrow> \<not> outOfScope sc i \<Longrightarrow> tinv sc rq (st\<lparr>ts_next := ts_next st @ [i]\<rparr>)"
  by (auto simp: tinv_def)

text \<open>What visiting one edge does, in the cases the later lemmas use.\<close>

lemma visitEdge_skip:
  "\<not> (\<exists>j. traversable readN E sc rq e i j) \<Longrightarrow> e \<in> E \<Longrightarrow> \<not> outOfScope sc i \<Longrightarrow> visitEdge readN sc rq i e st = st"
  by (auto simp: visitEdge_def traversable_def split: option.splits)

lemma visitEdge_cases:
  assumes t: "traversable readN E sc rq e i j"
  obtains (limited) st1 where "visitEdge readN sc rq i e st = truncatedByNodes st1" "st1 = st \<or> (\<exists>n. st1 = st\<lparr>ts_boundary := n\<rparr>)"
  | (outside) n st1 where "readN j = Some n" "outOfScope sc j" "\<not> limitReached rq st"
      "visitEdge readN sc rq i e st = selectEdge e (selectNode j n st1)" "st1 = st \<or> (\<exists>n. st1 = st\<lparr>ts_boundary := n\<rparr>)"
  | (fresh) n where "readN j = Some n" "\<not> outOfScope sc j" "\<not> limitReached rq st"
      "visitEdge readN sc rq i e st = selectEdge e ((selectNode j n st)\<lparr>ts_next := ts_next st @ [j]\<rparr>)"
  | (known) "j \<in> selectedIDs st" "\<not> outOfScope sc j" "visitEdge readN sc rq i e st = selectEdge e st"
proof -
  from t obtain n where n: "readN j = Some n" by (auto simp: traversable_def)
  define st1 where "st1 = (if ts_boundary st = None then st\<lparr>ts_boundary := Some n\<rparr> else st)"
  have s1: "st1 = st \<or> (\<exists>n. st1 = st\<lparr>ts_boundary := n\<rparr>)" "limitReached rq st1 = limitReached rq st"
    by (auto simp: st1_def limitReached_def)
  have v: "visitEdge readN sc rq i e st =
     (if outOfScope sc j then if limitReached rq st1 then truncatedByNodes st1 else selectEdge e (selectNode j n st1)
      else if j \<notin> selectedIDs st then if limitReached rq st then truncatedByNodes st
        else selectEdge e ((selectNode j n st)\<lparr>ts_next := ts_next st @ [j]\<rparr>)
      else selectEdge e st)"
    using t n by (simp add: visitEdge_def traversable_def st1_def Let_def)
  consider "outOfScope sc j" "limitReached rq st1" | "outOfScope sc j" "\<not> limitReached rq st1"
    | "\<not> outOfScope sc j" "j \<notin> selectedIDs st" "limitReached rq st"
    | "\<not> outOfScope sc j" "j \<notin> selectedIDs st" "\<not> limitReached rq st"
    | "\<not> outOfScope sc j" "j \<in> selectedIDs st" by blast
  then show ?thesis
  proof cases
    case 1 then show ?thesis using limited v s1 by simp
  next
    case 2 then show ?thesis using outside v s1 n by simp
  next
    case 3 then show ?thesis using limited[of st] v by simp
  next
    case 4 then show ?thesis using fresh v n by simp
  next
    case 5 then show ?thesis using known v by simp
  qed
qed

lemma visitEdge_tinv:
  assumes inv: "tinv sc rq st" and i: "i \<in> selectedIDs st" "\<not> outOfScope sc i" and e: "e \<in> set (readE i)"
  shows "tinv sc rq (visitEdge readN sc rq i e st) \<and> selectedIDs st \<subseteq> selectedIDs (visitEdge readN sc rq i e st)"
proof (cases "\<exists>j. traversable readN E sc rq e i j")
  case False
  then show ?thesis using visitEdge_skip[OF False _ i(2)] e incident inv by auto
next
  case True
  then obtain j where t: "traversable readN E sc rq e i j" by blast
  have eE: "e \<in> E" "relationAllowed (trav_Relations rq) (edge_Relation e)"
    "traversalNeighbor i e (trav_Direction rq) = Some j" using t by (auto simp: traversable_def)
  have add: "tinv sc rq s \<Longrightarrow> i \<in> selectedIDs s \<Longrightarrow> j \<in> selectedIDs s \<Longrightarrow> tinv sc rq (selectEdge e s)" for s
    using neighbor_endpoints[OF eE(3)] eE(1,2) by (auto intro!: tinv_selectEdge)
  from t show ?thesis
  proof (cases rule: visitEdge_cases[where st = st])
    case (limited st1)
    then show ?thesis using inv by auto
  next
    case (outside n st1)
    then have "tinv sc rq st1" "\<not> limitReached rq st1" "selectedIDs st1 = selectedIDs st" using inv by auto
    then show ?thesis using outside tinv_selectNode add i(1) by auto
  next
    case (fresh n)
    have "tinv sc rq ((selectNode j n st)\<lparr>ts_next := ts_next st @ [j]\<rparr>)"
      using tinv_next[OF tinv_selectNode[OF inv fresh(1,3)], of j] fresh(2) by simp
    then show ?thesis using fresh add i(1) by auto
  next
    case known
    then show ?thesis using inv add i(1) by auto
  qed
qed

lemma visitNode_tinv:
  assumes "tinv sc rq st" "i \<in> selectedIDs st" "\<not> outOfScope sc i"
  shows "tinv sc rq (visitNode readN readE sc rq i st) \<and> selectedIDs st \<subseteq> selectedIDs (visitNode readN readE sc rq i st)"
  unfolding visitNode_def
  by (rule fold_grow[where A = "{i}"]) (use assms visitEdge_tinv in auto)

lemma visitLevel_tinv:
  assumes "tinv sc rq st" "set fr \<subseteq> selectedIDs st" "\<forall>i\<in>set fr. \<not> outOfScope sc i"
  shows "tinv sc rq (visitLevel readN readE sc rq fr st)
    \<and> selectedIDs st \<subseteq> selectedIDs (visitLevel readN readE sc rq fr st)"
proof -
  have t0: "tinv sc rq (st\<lparr>ts_next := []\<rparr>)"
    using assms(1) by (simp add: tinv_def)
  have "tinv sc rq (fold (visitNode readN readE sc rq) fr (st\<lparr>ts_next := []\<rparr>))
      \<and> selectedIDs (st\<lparr>ts_next := []\<rparr>) \<subseteq> selectedIDs (fold (visitNode readN readE sc rq) fr (st\<lparr>ts_next := []\<rparr>))"
  proof (rule fold_grow[where A = "set fr"])
    fix i s assume "i \<in> set fr" "tinv sc rq s" "set fr \<subseteq> selectedIDs s"
    then show "tinv sc rq (visitNode readN readE sc rq i s) \<and> selectedIDs s \<subseteq> selectedIDs (visitNode readN readE sc rq i s)"
      using assms(3) by (intro visitNode_tinv) auto
  qed (use t0 assms(2) in simp_all)
  then show ?thesis by (simp add: visitLevel_def)
qed

lemma nodeLimited_simps [simp]:
  "nodeLimited (selectNode i n st) = nodeLimited st" "nodeLimited (selectEdge e st) = nodeLimited st"
  "nodeLimited (truncatedByNodes st)" "nodeLimited (st\<lparr>ts_boundary := b\<rparr>) = nodeLimited st"
  "nodeLimited (st\<lparr>ts_next := xs\<rparr>) = nodeLimited st"
  by (simp_all add: nodeLimited_def)

lemma edgeCovered_next [simp]:
  "edgeCovered readN E sc rq i e (st\<lparr>ts_next := xs\<rparr>) = edgeCovered readN E sc rq i e st"
  by (simp add: edgeCovered_def)

lemma visitEdge_effect:
  assumes e: "e \<in> set (readE i)" and i: "\<not> outOfScope sc i" and U: "{j. \<exists>e. traversable readN E sc rq e i j} \<subseteq> U"
  shows "grows sc U st (visitEdge readN sc rq i e st) \<and> edgeCovered readN E sc rq i e (visitEdge readN sc rq i e st)"
proof (cases "\<exists>j. traversable readN E sc rq e i j")
  case False
  then have "edgeCovered readN E sc rq i e st" by (simp add: edgeCovered_def)
  then show ?thesis using visitEdge_skip[OF False _ i] e incident by simp
next
  case True
  then obtain j where t: "traversable readN E sc rq e i j" by blast
  then have jU: "j \<in> U" using U by blast
  have uniq: "k = j" if "traversable readN E sc rq e i k" for k
    using t that by (simp add: traversable_def)
  from t show ?thesis
  proof (cases rule: visitEdge_cases[where st = st])
    case (limited st1)
    then show ?thesis by (auto simp: grows_def edgeCovered_def)
  next
    case (outside n st1)
    then show ?thesis using jU by (auto simp: grows_def edgeCovered_def dest: uniq)
  next
    case (fresh n)
    then show ?thesis using jU by (auto simp: grows_def edgeCovered_def dest: uniq)
  next
    case known
    then show ?thesis by (auto simp: grows_def edgeCovered_def dest: uniq)
  qed
qed

lemma traversable_incident: "traversable readN E sc rq e i j \<Longrightarrow> e \<in> set (readE i)"
  using neighbor_endpoints by (auto simp: traversable_def incident)

lemma visitNode_effect:
  assumes i: "\<not> outOfScope sc i" and U: "{j. \<exists>e. traversable readN E sc rq e i j} \<subseteq> U"
  shows "grows sc U st (visitNode readN readE sc rq i st)
    \<and> (\<forall>e. edgeCovered readN E sc rq i e (visitNode readN readE sc rq i st))"
proof -
  have f: "grows sc U st (visitNode readN readE sc rq i st)
      \<and> (\<forall>e\<in>set (readE i). edgeCovered readN E sc rq i e (visitNode readN readE sc rq i st))"
    unfolding visitNode_def
    by (rule fold_effect) (use visitEdge_effect[OF _ i U] grows_trans edgeCovered_stable in \<open>blast | simp\<close>)+
  moreover have "edgeCovered readN E sc rq i e s" if "e \<notin> set (readE i)" for e s
    using that traversable_incident by (auto simp: edgeCovered_def)
  ultimately show ?thesis by blast
qed

definition levelTargets :: "string list \<Rightarrow> TraversalRequest \<Rightarrow> string set \<Rightarrow> string set" where
  "levelTargets sc rq S = {j. \<exists>i\<in>S. \<exists>e. traversable readN E sc rq e i j}"

lemma visitLevel_effect:
  assumes fr: "\<forall>i\<in>set fr. \<not> outOfScope sc i"
  shows "grows sc (levelTargets sc rq (set fr)) (st\<lparr>ts_next := []\<rparr>) (visitLevel readN readE sc rq fr st)
    \<and> (\<forall>i\<in>set fr. \<forall>e. edgeCovered readN E sc rq i e (visitLevel readN readE sc rq fr st))"
  unfolding visitLevel_def
proof (rule fold_effect[where C = "\<lambda>i s. \<forall>e. edgeCovered readN E sc rq i e s"])
  fix i s assume "i \<in> set fr"
  then show "grows sc (levelTargets sc rq (set fr)) s (visitNode readN readE sc rq i s)
      \<and> (\<forall>e. edgeCovered readN E sc rq i e (visitNode readN readE sc rq i s))"
    using fr by (intro visitNode_effect) (auto simp: levelTargets_def)
qed (use grows_trans edgeCovered_stable in \<open>blast | simp\<close>)+

text \<open>
  The level invariant: the frontier is selected and in scope, and a node selected in scope that
  is no longer in the frontier has its edges covered.
\<close>

definition linv :: "string list \<Rightarrow> TraversalRequest \<Rightarrow> string list \<Rightarrow> TState \<Rightarrow> bool" where
  "linv sc rq fr st \<longleftrightarrow> tinv sc rq st \<and> set fr \<subseteq> selectedIDs st \<and> (\<forall>i\<in>set fr. \<not> outOfScope sc i)
     \<and> (\<forall>i\<in>selectedIDs st - set fr. \<forall>e. edgeCovered readN E sc rq i e st)"

lemma out_covered: "outOfScope sc i \<Longrightarrow> edgeCovered readN E sc rq i e st"
  by (simp add: edgeCovered_def traversable_def)

lemma linv_level:
  assumes inv: "linv sc rq fr st"
  defines "st' \<equiv> visitLevel readN readE sc rq fr st"
  shows "linv sc rq (uniqueSortedStrings (ts_next st')) st'
    \<and> grows sc (levelTargets sc rq (set fr)) (st\<lparr>ts_next := []\<rparr>) st'
    \<and> set (ts_next st') \<subseteq> levelTargets sc rq (set fr)"
proof -
  let ?T = "levelTargets sc rq (set fr)"
  have t: "tinv sc rq st" "set fr \<subseteq> selectedIDs st" "\<forall>i\<in>set fr. \<not> outOfScope sc i"
    and cov: "\<forall>i\<in>selectedIDs st - set fr. \<forall>e. edgeCovered readN E sc rq i e st"
    using inv by (simp_all add: linv_def)
  have t': "tinv sc rq st'" using visitLevel_tinv[OF t] by (simp add: st'_def)
  have g: "grows sc ?T (st\<lparr>ts_next := []\<rparr>) st'"
    and cov': "\<forall>i\<in>set fr. \<forall>e. edgeCovered readN E sc rq i e st'"
    using visitLevel_effect[OF t(3), of rq st] by (simp_all add: st'_def)
  have "edgeCovered readN E sc rq i e st'" if i: "i \<in> selectedIDs st' - set (ts_next st')" for i e
  proof -
    consider "outOfScope sc i" | "i \<in> set fr" | "i \<in> selectedIDs st - set fr"
      using i g unfolding grows_def by fastforce
    then show ?thesis
    proof cases
      case 1 then show ?thesis by (rule out_covered)
    next
      case 2 then show ?thesis using cov' by blast
    next
      case 3
      then have "edgeCovered readN E sc rq i e (st\<lparr>ts_next := []\<rparr>)"
        using cov by simp
      then show ?thesis using g by (rule edgeCovered_stable)
    qed
  qed
  moreover have "set (ts_next st') \<subseteq> ?T" using g by (simp add: grows_def)
  ultimately show ?thesis using t' g by (simp add: linv_def tinv_def)
qed

text \<open>The whole loop: what it selects, against the nodes within so many steps.\<close>

lemma traverseLevels_inv:
  "linv sc rq fr st \<Longrightarrow> traverseLevels k readN readE sc rq fr st = (fr', st') \<Longrightarrow> linv sc rq fr' st'
     \<and> selectedIDs st \<subseteq> selectedIDs st' \<and> (nodeLimited st \<longrightarrow> nodeLimited st')
     \<and> selectedIDs st' \<subseteq> reachWithin readN E sc rq k (selectedIDs st)
     \<and> (\<not> nodeLimited st' \<longrightarrow> reachWithin readN E sc rq k (selectedIDs st) \<subseteq> selectedIDs st')"
proof (induction k arbitrary: fr st)
  case 0
  then show ?case by simp
next
  case (Suc k)
  let ?S = "selectedIDs st" and ?S1 = "selectedIDs st \<union> levelTargets sc rq (selectedIDs st)"
  show ?case
  proof (cases "fr = []")
    case True
    then have st': "st' = st" "fr' = fr" using Suc.prems(2) by auto
    have "reachWithin readN E sc rq (Suc k) ?S = ?S" if "\<not> nodeLimited st"
      using Suc.prems(1) True that
      by (intro reachWithin_closed) (auto simp: linv_def edgeCovered_def)
    then show ?thesis using Suc.prems(1) reachWithin_self[of ?S readN E sc rq "Suc k"] st' by auto
  next
    case False
    let ?st1 = "visitLevel readN readE sc rq fr st"
    note L = linv_level[OF Suc.prems(1)]
    have g: "grows sc (levelTargets sc rq (set fr)) (st\<lparr>ts_next := []\<rparr>) ?st1" using L by blast
    have run: "traverseLevels k readN readE sc rq (uniqueSortedStrings (ts_next ?st1)) ?st1 = (fr', st')"
      using Suc.prems(2) False by (simp add: Let_def)
    from Suc.IH[OF _ run] L have IH: "linv sc rq fr' st'" "selectedIDs ?st1 \<subseteq> selectedIDs st'"
      "nodeLimited ?st1 \<longrightarrow> nodeLimited st'"
      "selectedIDs st' \<subseteq> reachWithin readN E sc rq k (selectedIDs ?st1)"
      "\<not> nodeLimited st' \<longrightarrow> reachWithin readN E sc rq k (selectedIDs ?st1) \<subseteq> selectedIDs st'" by auto
    have fr: "set fr \<subseteq> ?S" using Suc.prems(1) by (simp add: linv_def)
    have "levelTargets sc rq (set fr) \<subseteq> levelTargets sc rq ?S" using fr unfolding levelTargets_def by blast
    then have up: "selectedIDs ?st1 \<subseteq> ?S1" using g unfolding grows_def by auto
    have down: "?S1 \<subseteq> selectedIDs ?st1" if lim: "\<not> nodeLimited ?st1"
    proof
      fix j assume "j \<in> ?S1"
      then consider "j \<in> ?S" | i e where "i \<in> ?S" "traversable readN E sc rq e i j"
        by (auto simp: levelTargets_def)
      then show "j \<in> selectedIDs ?st1"
      proof cases
        case 1 then show ?thesis using g by (auto simp: grows_def)
      next
        case 2
        have "edgeCovered readN E sc rq i e ?st1"
        proof (cases "i \<in> set fr")
          case True
          then show ?thesis using visitLevel_effect[of fr sc rq st] Suc.prems(1) by (simp add: linv_def)
        next
          case False
          then have "edgeCovered readN E sc rq i e (st\<lparr>ts_next := []\<rparr>)"
            using Suc.prems(1) 2(1) by (simp add: linv_def)
          then show ?thesis using g by (rule edgeCovered_stable)
        qed
        then show ?thesis using 2(2) lim by (auto simp: edgeCovered_def)
      qed
    qed
    have rw: "reachWithin readN E sc rq (Suc k) ?S = reachWithin readN E sc rq k ?S1"
      by (simp add: levelTargets_def)
    have S1: "?S \<subseteq> selectedIDs ?st1" "nodeLimited st \<longrightarrow> nodeLimited ?st1"
      using g by (simp_all add: grows_def)
    have "selectedIDs st' \<subseteq> reachWithin readN E sc rq k ?S1"
      using IH(4) reachWithin_mono[OF up, of readN E sc rq k] by (rule order.trans)
    moreover have "reachWithin readN E sc rq k ?S1 \<subseteq> selectedIDs st'" if "\<not> nodeLimited st'"
    proof -
      have "\<not> nodeLimited ?st1" using IH(3) that by blast
      from reachWithin_mono[OF down[OF this], of readN E sc rq k] IH(5) that show ?thesis by blast
    qed
    ultimately show ?thesis unfolding rw using IH(1,2,3) S1 by blast
  qed
qed

lemma selectStarts_ok:
  assumes "distinct (map fst sel)" "\<forall>(i, n)\<in>set sel. readN i = Some n" "set fr = fst ` set sel"
    "\<forall>i\<in>set fr. \<not> outOfScope sc i" "int (length sel) \<le> m"
  shows "case selectStarts readN sc m ids sel fr of
      StartError e \<Rightarrow> e = ErrInvalidRequest \<and> (\<exists>i\<in>set ids. readN i \<noteq> None \<and> outOfScope sc i)
    | StartTruncated sel' \<Rightarrow> distinct (map fst sel') \<and> (\<forall>(i, n)\<in>set sel'. readN i = Some n)
        \<and> int (length sel') \<le> m \<and> fst ` set sel' \<subseteq> fst ` set sel \<union> set ids
    | StartSelected sel' fr' \<Rightarrow> distinct (map fst sel') \<and> (\<forall>(i, n)\<in>set sel'. readN i = Some n)
        \<and> set fr' = fst ` set sel' \<and> (\<forall>i\<in>set fr'. \<not> outOfScope sc i) \<and> int (length sel') \<le> m
        \<and> fst ` set sel' = fst ` set sel \<union> {i \<in> set ids. readN i \<noteq> None}"
  using assms
proof (induction ids arbitrary: sel fr)
  case Nil
  then show ?case by simp
next
  case (Cons i ids)
  show ?case
  proof (cases "i \<in> fst ` set sel")
    case True
    then have r: "readN i \<noteq> None" using Cons.prems(2) by fastforce
    have "selectStarts readN sc m (i # ids) sel fr = selectStarts readN sc m ids sel fr" using True by simp
    moreover have "fst ` set sel \<union> {x \<in> set (i # ids). readN x \<noteq> None} = fst ` set sel \<union> {x \<in> set ids. readN x \<noteq> None}"
      using True by auto
    ultimately show ?thesis using Cons.IH[OF Cons.prems]
      by (simp only:) (auto split: StartOutcome.splits)
  next
    case new: False
    show ?thesis
    proof (cases "readN i")
      case None
      then have "selectStarts readN sc m (i # ids) sel fr = selectStarts readN sc m ids sel fr" using new by simp
      moreover have "{x \<in> set (i # ids). readN x \<noteq> None} = {x \<in> set ids. readN x \<noteq> None}" using None by auto
      ultimately show ?thesis using Cons.IH[OF Cons.prems]
        by (simp only:) (auto split: StartOutcome.splits)
    next
      case (Some n)
      show ?thesis
      proof (cases "outOfScope sc i \<or> int (length sel) = m")
        case True
        then show ?thesis using new Some Cons.prems by auto
      next
        case False
        let ?sel = "AList.update i n sel"
        have step: "selectStarts readN sc m (i # ids) sel fr = selectStarts readN sc m ids ?sel (fr @ [i])"
          using new Some False by simp
        have keys: "fst ` set ?sel = insert i (fst ` set sel)" by (rule alist_update_keys)
        have "\<forall>(j, k)\<in>insert (i, n) (set sel). readN j = Some k" using Cons.prems(2) Some by simp
        then have rd: "\<forall>(j, k)\<in>set ?sel. readN j = Some k" using set_alist_update[of i n sel] by blast
        have IH: "case selectStarts readN sc m ids ?sel (fr @ [i]) of
            StartError e \<Rightarrow> e = ErrInvalidRequest \<and> (\<exists>i\<in>set ids. readN i \<noteq> None \<and> outOfScope sc i)
          | StartTruncated sel' \<Rightarrow> distinct (map fst sel') \<and> (\<forall>(i, n)\<in>set sel'. readN i = Some n)
              \<and> int (length sel') \<le> m \<and> fst ` set sel' \<subseteq> fst ` set ?sel \<union> set ids
          | StartSelected sel' fr' \<Rightarrow> distinct (map fst sel') \<and> (\<forall>(i, n)\<in>set sel'. readN i = Some n)
              \<and> set fr' = fst ` set sel' \<and> (\<forall>i\<in>set fr'. \<not> outOfScope sc i) \<and> int (length sel') \<le> m
              \<and> fst ` set sel' = fst ` set ?sel \<union> {i \<in> set ids. readN i \<noteq> None}"
          using Cons.prems False rd keys
          by (intro Cons.IH) (auto simp: alist_update_length_new[OF new])
        have "fst ` set ?sel \<union> {x \<in> set ids. readN x \<noteq> None} = fst ` set sel \<union> {x \<in> set (i # ids). readN x \<noteq> None}"
          using keys Some by auto
        with IH show ?thesis unfolding step keys by (auto split: StartOutcome.splits)
      qed
    qed
  qed
qed

lemma hasTraversable_iff:
  "hasTraversableNeighbor es i d rels sel \<longleftrightarrow> (\<exists>e\<in>set es. \<exists>j. relationAllowed rels (edge_Relation e)
     \<and> traversalNeighbor i e d = Some j \<and> j \<notin> fst ` set sel)"
  by (induction es) (auto split: option.splits)

definition start_set :: "TraversalRequest \<Rightarrow> string set" where
  "start_set rq = {i \<in> set (trav_StartNodeIDs rq). readN i \<noteq> None}"

lemma nodes_of_inv:
  assumes "distinct (map fst sel)" "\<forall>(i, n)\<in>set sel. readN i = Some n"
  shows "node_ID ` set (sortedNodes sel) = fst ` set sel \<and> distinct (map node_ID (sortedNodes sel))
    \<and> sorted (map node_ID (sortedNodes sel)) \<and> length (sortedNodes sel) = length sel
    \<and> (\<forall>n\<in>set (sortedNodes sel). readN (node_ID n) = Some n)"
proof -
  have k: "map node_ID (map snd sel) = map fst sel"
    using assms(2) node_id by (auto simp: case_prod_beta)
  have "mset (map node_ID (sortedNodes sel)) = mset (map node_ID (map snd sel))"
    by (simp add: sortedNodes_def multiset.map_comp)
  then have m: "mset (map node_ID (sortedNodes sel)) = mset (map fst sel)" unfolding k .
  have "\<forall>n\<in>set (sortedNodes sel). readN (node_ID n) = Some n"
    using assms(2) node_id by (fastforce simp: sortedNodes_def)
  then show ?thesis
    using assms(1) mset_eq_setD[OF m] mset_eq_imp_distinct_iff[OF m]
    by (simp add: sortedNodes_def multiset.map_comp)
qed

text \<open>The result of a traversal, for a positive node limit and a known direction.\<close>

definition result_ok :: "string list \<Rightarrow> TraversalRequest \<Rightarrow> TraversalResult \<Rightarrow> bool" where
  "result_ok sc rq tv \<longleftrightarrow> (let ns = facts_Nodes (tres_Facts tv); es = facts_Edges (tres_Facts tv) in
     sorted (map node_ID ns) \<and> distinct (map node_ID ns) \<and> (\<forall>n\<in>set ns. readN (node_ID n) = Some n)
     \<and> int (length ns) \<le> trav_MaxNodes rq
     \<and> sorted (map edgeKey es) \<and> distinct (map edgeKey es)
     \<and> (\<forall>e\<in>set es. e \<in> E \<and> relationAllowed (trav_Relations rq) (edge_Relation e)
          \<and> edge_SourceID e \<in> node_ID ` set ns \<and> edge_TargetID e \<in> node_ID ` set ns)
     \<and> node_ID ` set ns \<subseteq> reachWithin readN E sc rq (nat (trav_MaxDepth rq)) (start_set rq)
     \<and> (TruncatedByNodeLimit \<notin> set (tres_TruncationReasons tv) \<longrightarrow>
          node_ID ` set ns = reachWithin readN E sc rq (nat (trav_MaxDepth rq)) (start_set rq))
     \<and> (tres_TruncationReasons tv = [] \<longrightarrow> (\<forall>i\<in>node_ID ` set ns. \<forall>e j. traversable readN E sc rq e i j
          \<longrightarrow> j \<in> node_ID ` set ns)))"

lemma finish_ok:
  assumes inv: "linv sc rq fr st" and reach: "selectedIDs st \<subseteq> reachWithin readN E sc rq (nat (trav_MaxDepth rq)) (start_set rq)"
    and complete: "\<not> nodeLimited st \<longrightarrow> reachWithin readN E sc rq (nat (trav_MaxDepth rq)) (start_set rq) \<subseteq> selectedIDs st"
  shows "result_ok sc rq (finishTraversal readE rq fr st)"
proof -
  have t: "tinv sc rq st" using inv by (simp add: linv_def)
  have N: "node_ID ` set (sortedNodes (ts_nodes st)) = selectedIDs st \<and> distinct (map node_ID (sortedNodes (ts_nodes st)))
    \<and> sorted (map node_ID (sortedNodes (ts_nodes st))) \<and> length (sortedNodes (ts_nodes st)) = length (ts_nodes st)
    \<and> (\<forall>n\<in>set (sortedNodes (ts_nodes st)). readN (node_ID n) = Some n)"
    unfolding selectedIDs_def using t by (intro nodes_of_inv) (simp_all add: tinv_def)
  have Eall: "\<forall>(k, e)\<in>set (ts_edges st). k = edgeKey e \<and> e \<in> E \<and> relationAllowed (trav_Relations rq) (edge_Relation e)
          \<and> edge_SourceID e \<in> selectedIDs st \<and> edge_TargetID e \<in> selectedIDs st"
    and Ed: "distinct (map fst (ts_edges st))" using t by (simp_all add: tinv_def)
  have k: "map edgeKey (map snd (ts_edges st)) = map fst (ts_edges st)"
    using Eall by (auto simp: case_prod_beta)
  have "mset (map edgeKey (sortedEdges (ts_edges st))) = mset (map edgeKey (map snd (ts_edges st)))"
    by (simp add: sortedEdges_def multiset.map_comp)
  then have "distinct (map edgeKey (sortedEdges (ts_edges st)))"
    using Ed mset_eq_imp_distinct_iff unfolding k by blast
  moreover have "sorted (map edgeKey (sortedEdges (ts_edges st)))" by (simp add: sortedEdges_def)
  moreover have "\<forall>e\<in>set (sortedEdges (ts_edges st)). e \<in> E \<and> relationAllowed (trav_Relations rq) (edge_Relation e)
          \<and> edge_SourceID e \<in> selectedIDs st \<and> edge_TargetID e \<in> selectedIDs st"
    using Eall by (auto simp: sortedEdges_def case_prod_beta)
  moreover have "int (length (ts_nodes st)) \<le> trav_MaxNodes rq" using t by (simp add: tinv_def)
  moreover have "TruncatedByNodeLimit \<notin> set (tres_TruncationReasons (finishTraversal readE rq fr st)) \<Longrightarrow> \<not> nodeLimited st"
    by (auto simp: finishTraversal_def Let_def nodeLimited_def addTruncationReason_def split: if_splits)
  moreover have "\<forall>i\<in>selectedIDs st. \<forall>e j. traversable readN E sc rq e i j \<longrightarrow> j \<in> selectedIDs st"
    if none: "tres_TruncationReasons (finishTraversal readE rq fr st) = []"
  proof (intro ballI allI impI)
    fix i e j assume i: "i \<in> selectedIDs st" and tr: "traversable readN E sc rq e i j"
    have nl: "\<not> nodeLimited st"
      and nt: "\<not> (\<exists>x\<in>set fr. hasTraversableNeighbor (readE x) x (trav_Direction rq) (trav_Relations rq) (ts_nodes st))"
      using none by (auto simp: finishTraversal_def Let_def nodeLimited_def addTruncationReason_def list_ex_iff split: if_splits)
    show "j \<in> selectedIDs st"
    proof (cases "i \<in> set fr")
      case True
      then have "\<not> hasTraversableNeighbor (readE i) i (trav_Direction rq) (trav_Relations rq) (ts_nodes st)"
        using nt by blast
      then show ?thesis
        using traversable_incident[OF tr] tr unfolding hasTraversable_iff traversable_def selectedIDs_def by blast
    next
      case False
      then show ?thesis using inv i tr nl by (auto simp: linv_def edgeCovered_def)
    qed
  qed
  moreover have "facts_Nodes (tres_Facts (finishTraversal readE rq fr st)) = sortedNodes (ts_nodes st)"
    "facts_Edges (tres_Facts (finishTraversal readE rq fr st)) = sortedEdges (ts_edges st)"
    by (simp_all add: finishTraversal_def Let_def)
  ultimately show ?thesis
    unfolding result_ok_def Let_def using N reach complete by auto
qed

lemma traverseFrom_ok:
  assumes pos: "0 < trav_MaxNodes rq" and res: "traverseFrom readN readE sc rq = Inr tv"
  shows "result_ok sc rq tv"
proof (cases "selectStarts readN sc (trav_MaxNodes rq) (sort (trav_StartNodeIDs rq)) [] []")
  case (StartError e)
  then show ?thesis using res by (simp add: traverseFrom_def)
next
  case (StartTruncated sel)
  then have S: "distinct (map fst sel)" "\<forall>(i, n)\<in>set sel. readN i = Some n" "int (length sel) \<le> trav_MaxNodes rq"
    "fst ` set sel \<subseteq> set (trav_StartNodeIDs rq)"
    using selectStarts_ok[of "[]" "[]" sc "trav_MaxNodes rq" "sort (trav_StartNodeIDs rq)"] pos by auto
  have tv: "tv = \<lparr>tres_Facts = \<lparr>facts_Nodes = sortedNodes sel, facts_Edges = []\<rparr>,
              tres_TruncationReasons = [TruncatedByNodeLimit], tres_ScopeBoundary = None\<rparr>"
    using res StartTruncated by (simp add: traverseFrom_def)
  have "fst ` set sel \<subseteq> start_set rq" using S(2,4) by (auto simp: start_set_def)
  then have "fst ` set sel \<subseteq> reachWithin readN E sc rq (nat (trav_MaxDepth rq)) (start_set rq)"
    using reachWithin_self by (rule order.trans)
  then show ?thesis
    using nodes_of_inv[OF S(1,2)] S(3) by (simp add: tv result_ok_def)
next
  case (StartSelected sel fr)
  then have S: "distinct (map fst sel)" "\<forall>(i, n)\<in>set sel. readN i = Some n" "set fr = fst ` set sel"
    "\<forall>i\<in>set fr. \<not> outOfScope sc i" "int (length sel) \<le> trav_MaxNodes rq" "fst ` set sel = start_set rq"
    using selectStarts_ok[of "[]" "[]" sc "trav_MaxNodes rq" "sort (trav_StartNodeIDs rq)"] pos
    by (auto simp: start_set_def)
  let ?st = "\<lparr>ts_nodes = sel, ts_edges = [], ts_reasons = [], ts_boundary = None, ts_next = []\<rparr>"
  have L: "linv sc rq fr ?st" "\<not> nodeLimited ?st" "selectedIDs ?st = start_set rq"
    using S by (simp_all add: linv_def tinv_def selectedIDs_def nodeLimited_def)
  obtain fr' st' where run: "traverseLevels (nat (trav_MaxDepth rq)) readN readE sc rq fr ?st = (fr', st')"
    by (metis prod.exhaust)
  have "tv = finishTraversal readE rq fr' st'"
    using res StartSelected run by (simp add: traverseFrom_def)
  then show ?thesis
    using traverseLevels_inv[OF L(1) run] finish_ok[of sc rq fr' st'] L by simp
qed

lemma traverseFrom_error:
  assumes "0 < trav_MaxNodes rq"
  shows "traverseFrom readN readE sc rq = Inl e \<Longrightarrow> e = ErrInvalidRequest
    \<and> (\<exists>i\<in>set (trav_StartNodeIDs rq). readN i \<noteq> None \<and> outOfScope sc i)"
  using selectStarts_ok[of "[]" "[]" sc "trav_MaxNodes rq" "sort (trav_StartNodeIDs rq)"] assms
  by (auto simp: traverseFrom_def split: StartOutcome.splits prod.splits)

end

subsection \<open>The tables obey the contract\<close>

interpretation tables: graph_reader "readNode db sn" "readIncidentEdges db sn"
    "set (visibleEdges db (snap_Workspace sn) (snap_Version sn))" for db sn
  by unfold_locales (auto dest: readNode_Some simp: set_readIncidentEdges)

lemma Traverse_Inr:
  "Traverse db sn rq = Inr tv \<Longrightarrow> 0 < trav_MaxNodes rq \<and> 0 \<le> trav_MaxDepth rq
     \<and> tables.result_ok db sn (readScopedNodeIDs db sn (trav_ProjectIDs rq)) rq tv"
  by (auto simp: Traverse_def intro: tables.traverseFrom_ok split: if_splits)

interpretation published: traverser_contract "Traverse db"
    "\<lambda>sn. set (visibleNodes db (snap_Workspace sn) (snap_Version sn))"
    "\<lambda>sn. set (visibleEdges db (snap_Workspace sn) (snap_Version sn))" for db
proof
  fix sn rq tv assume "Traverse db sn rq = Inr tv"
  from Traverse_Inr[OF this] have ok: "tables.result_ok db sn (readScopedNodeIDs db sn (trav_ProjectIDs rq)) rq tv"
    by blast
  show "set (facts_Nodes (tres_Facts tv)) \<subseteq> set (visibleNodes db (snap_Workspace sn) (snap_Version sn))"
  proof
    fix n assume "n \<in> set (facts_Nodes (tres_Facts tv))"
    then have "readNode db sn (node_ID n) = Some n" using ok unfolding tables.result_ok_def Let_def by blast
    from readNode_Some[OF this] show "n \<in> set (visibleNodes db (snap_Workspace sn) (snap_Version sn))" by blast
  qed
  show "set (facts_Edges (tres_Facts tv)) \<subseteq> set (visibleEdges db (snap_Workspace sn) (snap_Version sn))"
    using ok by (auto simp: tables.result_ok_def Let_def)
  show "int (length (facts_Nodes (tres_Facts tv))) \<le> trav_MaxNodes rq"
    using ok by (simp add: tables.result_ok_def Let_def)
  show "edge_Relation e \<in> set (trav_Relations rq)"
    if "e \<in> set (facts_Edges (tres_Facts tv))" "trav_Relations rq \<noteq> []" for e
    using ok that by (auto simp: tables.result_ok_def Let_def relationAllowed_def)
qed

subsection \<open>Explaining a node\<close>

fun addSupport :: "NodeReader \<Rightarrow> Edge list \<Rightarrow> (string \<times> Node) list \<times> (string \<times> Edge) list
    \<Rightarrow> (string \<times> Node) list \<times> (string \<times> Edge) list" where
  "addSupport readN [] acc = acc"
| "addSupport readN (edge # edges) (ns, es) =
    (let es' = AList.update (edgeKey edge) edge es;
         ns1 = (case readN (edge_SourceID edge) of Some source \<Rightarrow> AList.update (node_ID source) source ns | None \<Rightarrow> ns);
         ns2 = (case readN (edge_TargetID edge) of Some target \<Rightarrow> AList.update (node_ID target) target ns1 | None \<Rightarrow> ns1)
     in addSupport readN edges (ns2, es'))"

definition Explain :: "Database \<Rightarrow> Snapshot \<Rightarrow> string \<Rightarrow> StoreError + Explanation" where
  "Explain db snapshot nodeID =
    (if snap_Workspace snapshot = '''' \<or> snap_Version snapshot = 0 \<or> nodeID = '''' then Inl ErrInvalidRequest
     else case readNode db snapshot nodeID of
       None \<Rightarrow> Inl (ErrNodeNotFound nodeID)
     | Some node \<Rightarrow>
         (case addSupport (readNode db snapshot) (readIncidentEdges db snapshot (node_ID node)) ([(node_ID node, node)], []) of
            (ns, es) \<Rightarrow> Inr \<lparr>expl_Node = node,
               expl_SupportingFacts = \<lparr>facts_Nodes = sortedNodes ns, facts_Edges = sortedEdges es\<rparr>\<rparr>))"

lemma addSupport_inv:
  assumes node_id: "\<forall>i n. readN i = Some n \<longrightarrow> node_ID n = i"
  shows "distinct (map fst ns) \<Longrightarrow> distinct (map fst xs) \<Longrightarrow> \<forall>(i, n)\<in>set ns. readN i = Some n \<Longrightarrow>
     \<forall>(k, e)\<in>set xs. k = edgeKey e \<and> e \<in> S \<Longrightarrow> set es \<subseteq> S \<Longrightarrow> addSupport readN es (ns, xs) = (ns', xs') \<Longrightarrow>
     distinct (map fst ns') \<and> distinct (map fst xs') \<and> (\<forall>(i, n)\<in>set ns'. readN i = Some n)
     \<and> (\<forall>(k, e)\<in>set xs'. k = edgeKey e \<and> e \<in> S)
     \<and> fst ` set xs' = fst ` set xs \<union> edgeKey ` set es
     \<and> fst ` set ns' = fst ` set ns \<union> {i. readN i \<noteq> None \<and> (\<exists>e\<in>set es. edge_SourceID e = i \<or> edge_TargetID e = i)}"
proof (induction es arbitrary: ns xs)
  case Nil
  then show ?case by auto
next
  case (Cons e es)
  define put where "put = (\<lambda>i ns. case readN i of Some m \<Rightarrow> AList.update (node_ID m) m ns | None \<Rightarrow> ns)"
  have put: "distinct (map fst (put i ms)) \<and> (\<forall>(i, n)\<in>set (put i ms). readN i = Some n)
      \<and> fst ` set (put i ms) = fst ` set ms \<union> {j. j = i \<and> readN j \<noteq> None}"
    if "distinct (map fst ms)" "\<forall>(i, n)\<in>set ms. readN i = Some n" for i ms
  proof (cases "readN i")
    case (Some m)
    have "\<forall>(j, k)\<in>insert (i, m) (set ms). readN j = Some k" using that(2) Some by simp
    then have "\<forall>(j, k)\<in>set (AList.update i m ms). readN j = Some k" using set_alist_update[of i m ms] by blast
    then show ?thesis using that(1) Some node_id[rule_format, OF Some] by (auto simp: put_def alist_update_keys)
  qed (use that in \<open>auto simp: put_def\<close>)
  define ns2 where "ns2 = put (edge_TargetID e) (put (edge_SourceID e) ns)"
  note p1 = put[OF Cons.prems(1,3), of "edge_SourceID e"]
  then have p2: "distinct (map fst ns2)" "\<forall>(i, n)\<in>set ns2. readN i = Some n"
    "fst ` set ns2 = fst ` set ns \<union> {i. readN i \<noteq> None \<and> (edge_SourceID e = i \<or> edge_TargetID e = i)}"
    using put[of "put (edge_SourceID e) ns" "edge_TargetID e"] by (auto simp: ns2_def)
  let ?xs = "AList.update (edgeKey e) e xs"
  have "\<forall>(k, x)\<in>insert (edgeKey e, e) (set xs). k = edgeKey x \<and> x \<in> S" using Cons.prems(4,5) by simp
  then have xs: "\<forall>(k, x)\<in>set ?xs. k = edgeKey x \<and> x \<in> S" using set_alist_update[of "edgeKey e" e xs] by blast
  have run: "addSupport readN es (ns2, ?xs) = (ns', xs')"
    using Cons.prems(6) by (simp add: ns2_def put_def Let_def)
  have dx: "distinct (map fst ?xs)" using Cons.prems(2) by simp
  have S: "set es \<subseteq> S" using Cons.prems(5) by simp
  from Cons.IH[OF p2(1) dx p2(2) xs S run] show ?case
    unfolding p2(3) alist_update_keys by auto
qed

lemma Explain_ok:
  assumes "Explain db sn i = Inr x"
  shows "node_ID (expl_Node x) = i \<and> readNode db sn i = Some (expl_Node x)
    \<and> node_ID ` set (facts_Nodes (expl_SupportingFacts x)) = insert i {j. readNode db sn j \<noteq> None
         \<and> (\<exists>e\<in>set (visibleEdges db (snap_Workspace sn) (snap_Version sn)).
              (edge_SourceID e = i \<or> edge_TargetID e = i) \<and> (edge_SourceID e = j \<or> edge_TargetID e = j))}
    \<and> distinct (map node_ID (facts_Nodes (expl_SupportingFacts x)))
    \<and> edgeKey ` set (facts_Edges (expl_SupportingFacts x)) = edgeKey ` {e \<in> set (visibleEdges db (snap_Workspace sn) (snap_Version sn)).
         edge_SourceID e = i \<or> edge_TargetID e = i}"
proof -
  from assms obtain n ns xs where n: "readNode db sn i = Some n"
    and run: "addSupport (readNode db sn) (readIncidentEdges db sn (node_ID n)) ([(node_ID n, n)], []) = (ns, xs)"
    and x: "x = \<lparr>expl_Node = n, expl_SupportingFacts = \<lparr>facts_Nodes = sortedNodes ns, facts_Edges = sortedEdges xs\<rparr>\<rparr>"
    by (auto simp: Explain_def split: if_splits option.splits prod.splits)
  have ni: "node_ID n = i" using readNode_Some[OF n] by blast
  let ?I = "set (readIncidentEdges db sn i)"
  have r: "addSupport (readNode db sn) (readIncidentEdges db sn i) ([(i, n)], []) = (ns, xs)"
    using run ni by simp
  have nid: "\<forall>j m. readNode db sn j = Some m \<longrightarrow> node_ID m = j" using readNode_Some by blast
  have p: "distinct (map fst [(i, n)])" "\<forall>(i, n)\<in>set [(i, n)]. readNode db sn i = Some n" using n by simp_all
  have q: "distinct (map fst ([] :: (string \<times> Edge) list))" "\<forall>(k, e)\<in>set []. k = edgeKey e \<and> e \<in> ?I" by simp_all
  note A = addSupport_inv[OF nid p(1) q(1) p(2) q(2) order.refl r]
  have inv1: "distinct (map fst ns)" "\<forall>(i, n)\<in>set ns. readNode db sn i = Some n"
    "\<forall>(k, e)\<in>set xs. k = edgeKey e \<and> e \<in> ?I"
    and keys0: "fst ` set xs = fst ` set ([] :: (string \<times> Edge) list) \<union> edgeKey ` ?I"
    and ids0: "fst ` set ns = fst ` set [(i, n)]
      \<union> {j. readNode db sn j \<noteq> None \<and> (\<exists>e\<in>?I. edge_SourceID e = j \<or> edge_TargetID e = j)}"
    using A by - (elim conjE, assumption)+
  have keys: "fst ` set xs = edgeKey ` ?I" using keys0 by simp
  have ids: "fst ` set ns = insert i {j. readNode db sn j \<noteq> None \<and> (\<exists>e\<in>?I. edge_SourceID e = j \<or> edge_TargetID e = j)}"
    unfolding ids0 by (simp only: list.set image_empty image_insert fst_conv insert_is_Un[symmetric])
  have N: "node_ID ` set (sortedNodes ns) = fst ` set ns" "distinct (map node_ID (sortedNodes ns))"
    using tables.nodes_of_inv[OF inv1(1,2)] by blast+
  have "map edgeKey (map snd xs) = map fst xs" using inv1(3) by (auto simp: case_prod_beta)
  then have ek: "edgeKey ` set (sortedEdges xs) = edgeKey ` ?I"
    unfolding sortedEdges_def set_sort set_map keys[symmetric] by (metis list.set_map)
  have I: "?I = {e \<in> set (visibleEdges db (snap_Workspace sn) (snap_Version sn)). edge_SourceID e = i \<or> edge_TargetID e = i}"
    using set_readIncidentEdges by blast
  show ?thesis
    using N(2) n ni ek unfolding x N(1) ids I by (simp add: N(1) ids I conj_ac Bex_def)
qed

subsection \<open>Properties\<close>

definition traversalStarts :: "Database \<Rightarrow> Snapshot \<Rightarrow> TraversalRequest \<Rightarrow> string set" where
  "traversalStarts db sn rq = {i \<in> set (trav_StartNodeIDs rq). readNode db sn i \<noteq> None}"

definition traversalReach :: "Database \<Rightarrow> Snapshot \<Rightarrow> TraversalRequest \<Rightarrow> string set" where
  "traversalReach db sn rq = reachWithin (readNode db sn) (set (visibleEdges db (snap_Workspace sn) (snap_Version sn)))
     (readScopedNodeIDs db sn (trav_ProjectIDs rq)) rq (nat (trav_MaxDepth rq)) (traversalStarts db sn rq)"

definition resultIDs :: "TraversalResult \<Rightarrow> string set" where
  "resultIDs tv = node_ID ` set (facts_Nodes (tres_Facts tv))"

lemmas traversal_result = tables.result_ok_def Let_def resultIDs_def traversalReach_def traversalStarts_def
  tables.start_set_def

text \<open>The facts of a traversal form a well-formed subgraph of the published snapshot: at most
  MaxNodes published nodes, sorted with distinct IDs, and published edges with distinct keys, of an
  allowed relation, whose endpoints are both among those nodes.\<close>

theorem traversal_returns_bounded_subgraph:
  assumes "Traverse db sn rq = Inr tv"
  shows "int (length (facts_Nodes (tres_Facts tv))) \<le> trav_MaxNodes rq
    \<and> sorted (map node_ID (facts_Nodes (tres_Facts tv))) \<and> distinct (map node_ID (facts_Nodes (tres_Facts tv)))
    \<and> distinct (map edgeKey (facts_Edges (tres_Facts tv)))
    \<and> set (facts_Nodes (tres_Facts tv)) \<subseteq> set (visibleNodes db (snap_Workspace sn) (snap_Version sn))
    \<and> (\<forall>e\<in>set (facts_Edges (tres_Facts tv)).
          e \<in> set (visibleEdges db (snap_Workspace sn) (snap_Version sn))
        \<and> relationAllowed (trav_Relations rq) (edge_Relation e)
        \<and> edge_SourceID e \<in> resultIDs tv \<and> edge_TargetID e \<in> resultIDs tv)"
proof -
  have ok: "tables.result_ok db sn (readScopedNodeIDs db sn (trav_ProjectIDs rq)) rq tv"
    using Traverse_Inr[OF assms] by blast
  then show ?thesis
    using published.nodes_published[OF assms] unfolding traversal_result by blast
qed

definition sample_request :: TraversalRequest where
  "sample_request = \<lparr>trav_StartNodeIDs = [''a''], trav_ProjectIDs = [], trav_Direction = ''outgoing'',
     trav_Relations = [], trav_MaxDepth = 3, trav_MaxNodes = 10\<rparr>"

lemma sample_traversal:
  "\<exists>tv. Traverse sample_db sample_snapshot sample_request = Inr tv
     \<and> map node_ID (facts_Nodes (tres_Facts tv)) = [''a'', ''b'', ''c''] \<and> tres_TruncationReasons tv = []"
proof -
  have "(case Traverse sample_db sample_snapshot sample_request of Inl _ \<Rightarrow> None
      | Inr tv \<Rightarrow> Some (map node_ID (facts_Nodes (tres_Facts tv)), tres_TruncationReasons tv))
    = Some ([''a'', ''b'', ''c''], [])"
    by code_simp
  then show ?thesis by (auto split: sum.splits)
qed

lemma traversal_returns_bounded_subgraph_witness:
  "\<exists>tv. Traverse sample_db sample_snapshot sample_request = Inr tv
     \<and> int (length (facts_Nodes (tres_Facts tv))) \<le> 10 \<and> distinct (map edgeKey (facts_Edges (tres_Facts tv)))"
proof -
  obtain tv where tv: "Traverse sample_db sample_snapshot sample_request = Inr tv" using sample_traversal by blast
  from traversal_returns_bounded_subgraph[OF tv] tv show ?thesis by (auto simp: sample_request_def)
qed

text \<open>C6: A traversal that did not hit the node limit selects exactly the nodes within MaxDepth steps
  of its start nodes, where a step leaves an in-scope node over an allowed edge in the requested
  direction; with the limit hit it selects a subset of them.\<close>

theorem traversal_is_bounded_reachability:
  assumes "Traverse db sn rq = Inr tv"
  shows "resultIDs tv \<subseteq> traversalReach db sn rq
    \<and> (TruncatedByNodeLimit \<notin> set (tres_TruncationReasons tv) \<longrightarrow> resultIDs tv = traversalReach db sn rq)"
  using Traverse_Inr[OF assms] unfolding traversal_result by blast

lemma traversal_is_bounded_reachability_witness:
  "traversalReach sample_db sample_snapshot sample_request = {''a'', ''b'', ''c''}"
proof -
  obtain tv where tv: "Traverse sample_db sample_snapshot sample_request = Inr tv"
    "map node_ID (facts_Nodes (tres_Facts tv)) = [''a'', ''b'', ''c'']" "tres_TruncationReasons tv = []"
    using sample_traversal by (elim exE conjE) (rule that)
  have "resultIDs tv = {''a'', ''b'', ''c''}"
    using arg_cong[OF tv(2), of set] by (simp add: resultIDs_def)
  then show ?thesis using traversal_is_bounded_reachability[OF tv(1)] tv(3) by simp
qed

text \<open>A traversal that reports no truncation is complete: no allowed edge leads from a
  selected in-scope node to a published node outside the result.\<close>

theorem untruncated_traversal_is_closed:
  assumes "Traverse db sn rq = Inr tv" and "\<not> Truncated tv"
    and "i \<in> resultIDs tv"
    and "traversable (readNode db sn) (set (visibleEdges db (snap_Workspace sn) (snap_Version sn)))
           (readScopedNodeIDs db sn (trav_ProjectIDs rq)) rq e i j"
  shows "j \<in> resultIDs tv"
proof -
  have "tres_TruncationReasons tv = []" using assms(2) by (simp add: Truncated_def)
  then show ?thesis
    using Traverse_Inr[OF assms(1)] assms(3,4) unfolding traversal_result by blast
qed

lemma untruncated_traversal_is_closed_witness:
  "\<exists>tv. Traverse sample_db sample_snapshot sample_request = Inr tv \<and> ''b'' \<in> resultIDs tv"
proof -
  obtain tv where tv: "Traverse sample_db sample_snapshot sample_request = Inr tv"
    "map node_ID (facts_Nodes (tres_Facts tv)) = [''a'', ''b'', ''c'']" "tres_TruncationReasons tv = []"
    using sample_traversal by (elim exE conjE) (rule that)
  have a: "''a'' \<in> resultIDs tv" using arg_cong[OF tv(2), of set] by (simp add: resultIDs_def)
  have s: "readScopedNodeIDs sample_db sample_snapshot (trav_ProjectIDs sample_request) = []"
    by (simp add: readScopedNodeIDs_def sample_request_def)
  have r: "readNode sample_db sample_snapshot ''b'' = Some (sample_node ''b'' ''go:function'')" by code_simp
  have v: "sample_edge ''a'' ''b'' ''defines'' \<in> set (visibleEdges sample_db (snap_Workspace sample_snapshot) (snap_Version sample_snapshot))"
    by code_simp
  have "traversable (readNode sample_db sample_snapshot)
      (set (visibleEdges sample_db (snap_Workspace sample_snapshot) (snap_Version sample_snapshot)))
      (readScopedNodeIDs sample_db sample_snapshot (trav_ProjectIDs sample_request)) sample_request
      (sample_edge ''a'' ''b'' ''defines'') ''a'' ''b''"
    unfolding traversable_def s using v r
    by (simp add: outOfScope_def relationAllowed_def traversalNeighbor_def sample_request_def TraverseOutgoing_def sample_edge_def)
  from untruncated_traversal_is_closed[OF tv(1) _ a this] tv show ?thesis by (auto simp: Truncated_def)
qed

text \<open>A successful explanation returns the requested node, all its incident edges up to their
  key, and exactly the published nodes at the other end of them.\<close>

theorem explanation_is_the_neighbourhood:
  assumes "Explain db sn i = Inr x"
  shows "node_ID (expl_Node x) = i
    \<and> node_ID ` set (facts_Nodes (expl_SupportingFacts x)) = insert i {j. readNode db sn j \<noteq> None
         \<and> (\<exists>e\<in>set (visibleEdges db (snap_Workspace sn) (snap_Version sn)).
              (edge_SourceID e = i \<or> edge_TargetID e = i) \<and> (edge_SourceID e = j \<or> edge_TargetID e = j))}
    \<and> edgeKey ` set (facts_Edges (expl_SupportingFacts x)) = edgeKey ` {e \<in> set (visibleEdges db (snap_Workspace sn) (snap_Version sn)).
         edge_SourceID e = i \<or> edge_TargetID e = i}"
  using Explain_ok[OF assms] by blast

lemma explanation_is_the_neighbourhood_witness:
  "\<exists>x. Explain sample_db sample_snapshot ''b'' = Inr x \<and> node_ID (expl_Node x) = ''b''"
proof -
  have "is_ok (Explain sample_db sample_snapshot ''b'')" by code_simp
  then obtain x where "Explain sample_db sample_snapshot ''b'' = Inr x" by (auto simp: is_ok_iff)
  then show ?thesis using explanation_is_the_neighbourhood by blast
qed

text \<open>A path found through the store is a path of the published snapshot: it runs from the
  source to the target over published nodes and edges of the requested relations, and visits no more
  than MaxNodes nodes.\<close>

theorem found_path_lies_in_the_snapshot:
  assumes "findPathBetween (Traverse db) sn rq s t = Some (Inr r)" and "path_Nodes r \<noteq> []"
  shows "set (path_Nodes r) \<subseteq> set (visibleNodes db (snap_Workspace sn) (snap_Version sn))
    \<and> set (path_Edges r) \<subseteq> set (visibleEdges db (snap_Workspace sn) (snap_Version sn))
    \<and> node_ID (hd (path_Nodes r)) = s \<and> node_ID (last (path_Nodes r)) = t
    \<and> length (path_Nodes r) = Suc (length (path_Edges r))
    \<and> (preq_Relations rq \<noteq> [] \<longrightarrow> (\<forall>e\<in>set (path_Edges r). edge_Relation e \<in> set (preq_Relations rq)))
    \<and> int (card (set (path_Nodes r))) \<le> preq_MaxNodes rq"
  by (rule published.found_path_published[OF assms])

definition sample_path_request :: PathRequest where
  "sample_path_request = \<lparr>preq_Source = ''a'', preq_Target = ''c'', preq_AllowUndirectedFallback = False,
     preq_ProjectIDs = [], preq_Relations = [], preq_MaxDepth = 4, preq_MaxNodes = 9\<rparr>"

lemma found_path_lies_in_the_snapshot_witness:
  "\<exists>r. findPathBetween (Traverse sample_db) sample_snapshot sample_path_request ''a'' ''c'' = Some (Inr r)
     \<and> node_ID (last (path_Nodes r)) = ''c'' \<and> length (path_Nodes r) = 3"
proof -
  have "(case findPathBetween (Traverse sample_db) sample_snapshot sample_path_request ''a'' ''c'' of
      Some (Inr r) \<Rightarrow> map node_ID (path_Nodes r) | _ \<Rightarrow> []) = [''a'', ''b'', ''c'']"
    by code_simp
  then obtain r where r: "findPathBetween (Traverse sample_db) sample_snapshot sample_path_request ''a'' ''c'' = Some (Inr r)"
    "map node_ID (path_Nodes r) = [''a'', ''b'', ''c'']"
    by (auto split: option.splits sum.splits)
  then have "path_Nodes r \<noteq> []" by auto
  from found_path_lies_in_the_snapshot[OF r(1) this] r show ?thesis
    using arg_cong[OF r(2), of length] by auto
qed

end
