(* ===== verification/Query.thy ===== *)
theory Query
  imports Evidence Traversal
begin

text \<open>
  Executing a query (query/query.go): retrieving seeds, stopping with a warning where the entities are
  missing or ambiguous, and running the operator of the plan over bounded traversals.  The traverser
  and the node lookup are parameters, as are the quoting of strconv.Quote and the Unicode tables.
  shortestPath always returns (PathFinding), so pathOf only drops the option of its model.
\<close>

subsection \<open>Requests and results\<close>

record Request =
  rq_Plan :: "QueryPlan option"
  rq_Terms :: "string list"
  rq_Retrievals :: "LexicalSearchRequest list"
  rq_SeedRequests :: "SeedRequest list"
  rq_ProjectIDs :: "string list"
  rq_Relations :: "RelationKind list"
  rq_MaxDepth :: int
  rq_MaxNodes :: int

record Result =
  rslt_Seeds :: "SeedSet list"
  rslt_Facts :: Facts
  rslt_Impact :: "ImpactEvidence list"
  rslt_Evidence :: "EvidenceGroup list"
  rslt_Limits :: "StageLimit list"
  rslt_Warnings :: "PlanWarning list"
  rslt_TruncationReasons :: "TruncationReason list"
  rslt_ScopeBoundary :: "ScopeBoundary option"

datatype QueryError =
    QueryLookupMissing | QueryTraverserMissing | QueryRequestInvalid | QuerySearcherMissing
  | QueryRankError RankError | QueryStoreError StoreError
  | PathSlotCount | PathTraverseError StoreError
  | IntersectionSlotCount | IntersectionTraverseError string StoreError

definition noFacts :: Facts where "noFacts = \<lparr>facts_Nodes = [], facts_Edges = []\<rparr>"

definition resultOf :: "SeedSet list \<Rightarrow> Result" where
  "resultOf seeds = \<lparr>rslt_Seeds = seeds, rslt_Facts = noFacts, rslt_Impact = [], rslt_Evidence = [], rslt_Limits = [],
     rslt_Warnings = [], rslt_TruncationReasons = [], rslt_ScopeBoundary = None\<rparr>"

subsection \<open>Warnings\<close>

definition suggestionForCandidate :: "ExecutionOperator \<Rightarrow> string \<Rightarrow> string" where
  "suggestionForCandidate operator nodeID =
    (if operator = OperatorExplain then ''Explain '' @ nodeID @ ''.'' else ''Look up '' @ nodeID @ ''.'')"

definition unknownIntentWarnings :: "PlanWarning list \<Rightarrow> PlanWarning list" where
  "unknownIntentWarnings warnings = map (\<lambda>w. if warn_Code w \<noteq> ''unknown_intent'' then w
     else w\<lparr>warn_Suggestions := warn_Suggestions w @
       [''Try a supported question such as: where is <entity>?'', ''Try a supported question such as: who calls <entity>?'']\<rparr>) warnings"

definition emptyEntitySlotWarnings :: "(string \<Rightarrow> string) \<Rightarrow> QueryPlan \<Rightarrow> SeedSet list \<Rightarrow> PlanWarning list" where
  "emptyEntitySlotWarnings goQuote plan seeds =
     concat (map (\<lambda>(index, slot). if index < length seeds \<and> seed_Nodes (seeds ! index) \<noteq> [] then []
       else [\<lparr>warn_Code = ''entity_not_found'',
         warn_Message = ''No entity matched the '' @ slot_Role slot @ '' slot; no graph operation was executed.'',
         warn_Suggestions = [''Use --terms with '' @ goQuote (slot_Text slot) @ '' for literal lookup.'']\<rparr>])
       (enumerate 0 (plan_EntitySlots plan)))"

definition entityResolutionWarning :: "ExecutionOperator \<Rightarrow> SeedSet list \<Rightarrow> PlanWarning option" where
  "entityResolutionWarning operator seeds =
    (if length seeds \<noteq> 1 \<or> seed_Nodes (seeds ! 0) = []
     then Some \<lparr>warn_Code = ''entity_not_found'', warn_Message = ''No entity matched the question; no graph operation was executed.'',
       warn_Suggestions = [''Use --terms with the entity text for literal lookup.'']\<rparr>
     else if length (seed_Nodes (seeds ! 0)) > 1
     then Some \<lparr>warn_Code = ''ambiguous_entity'', warn_Message = ''The entity is ambiguous; no graph operation was executed.'',
       warn_Suggestions = map (\<lambda>candidate. suggestionForCandidate operator (node_ID candidate)) (seed_Nodes (seeds ! 0))\<rparr>
     else if length (seed_Rankings (seeds ! 0)) \<noteq> 1
       \<or> sc_Exact (sr_Components (seed_Rankings (seeds ! 0) ! 0)) = 0 \<and> sc_TokenCoverage (sr_Components (seed_Rankings (seeds ! 0) ! 0)) < 1
     then Some \<lparr>warn_Code = ''weak_entity_match'', warn_Message = ''Only a weak entity match was found; no graph operation was executed.'',
       warn_Suggestions = [suggestionForCandidate operator (node_ID (seed_Nodes (seeds ! 0) ! 0))]\<rparr>
     else None)"

definition noCommonWarning :: "SeedSet list \<Rightarrow> PlanWarning" where
  "noCommonWarning seeds = \<lparr>warn_Code = ''no_common_evidence'',
     warn_Message = ''No common graph evidence was found for the two entity slots; no shared-contract claim was produced.'',
     warn_Suggestions = map (suggestionForCandidate OperatorLookup) (seedIDs seeds)\<rparr>"

definition noCommonIntersectionResult :: "QueryPlan \<Rightarrow> SeedSet list \<Rightarrow> Node list \<Rightarrow> Edge list \<Rightarrow> Result" where
  "noCommonIntersectionResult plan seeds nodes edges =
     (resultOf seeds)\<lparr>rslt_Facts := \<lparr>facts_Nodes = nodes, facts_Edges = edges\<rparr>, rslt_Limits := retrievalLimits plan,
       rslt_Warnings := [noCommonWarning seeds]\<rparr>"

definition ambiguousEndpointsWarning :: "SeedSet list \<Rightarrow> PlanWarning" where
  "ambiguousEndpointsWarning seeds = \<lparr>warn_Code = ''ambiguous_path_endpoints'',
     warn_Message = ''The path endpoints are ambiguous; no graph operation was executed.'',
     warn_Suggestions = concat (map (\<lambda>source. map (\<lambda>target. ''Run path from '' @ node_ID source @ '' to '' @ node_ID target @ ''.'')
       (seed_Nodes (seeds ! 1))) (seed_Nodes (seeds ! 0)))\<rparr>"

subsection \<open>Paths between slots\<close>

definition pathOf :: "PathResult option \<Rightarrow> PathResult" where
  "pathOf result = (case result of None \<Rightarrow> empty_PathResult | Some r \<Rightarrow> r)"

definition pathEndpointCandidates :: "SeedSet \<Rightarrow> Node list" where
  "pathEndpointCandidates seed =
    (if seed_Nodes seed = [] \<or> length (seed_Rankings seed) \<noteq> length (seed_Nodes seed) then seed_Nodes seed
     else let exact = map fst (filter (\<lambda>(node, ranking). sc_Exact (sr_Components ranking) > 0 \<and> sc_Lexical (sr_Components ranking) > 0)
                (zip (seed_Nodes seed) (seed_Rankings seed)))
       in if exact \<noteq> [] then exact else seed_Nodes seed)"

definition pathCandidatesNeedDisambiguation :: "SeedSet list \<Rightarrow> bool" where
  "pathCandidatesNeedDisambiguation seeds =
     list_ex (\<lambda>seed. list_ex (\<lambda>ranking. sc_Lexical (sr_Components ranking) > 0) (seed_Rankings seed)) seeds"

definition boundaryOf :: "Node option \<Rightarrow> ScopeBoundary option" where
  "boundaryOf n = map_option (\<lambda>node. \<lparr>boundary_Node = node\<rparr>) n"

definition slotTraversal :: "Request \<Rightarrow> string list \<Rightarrow> TraversalDirection \<Rightarrow> RelationKind list \<Rightarrow> TraversalRequest" where
  "slotTraversal request startNodeIDs direction relations =
     \<lparr>trav_StartNodeIDs = startNodeIDs, trav_ProjectIDs = rq_ProjectIDs request, trav_Direction = direction,
      trav_Relations = relations, trav_MaxDepth = rq_MaxDepth request, trav_MaxNodes = rq_MaxNodes request\<rparr>"

text \<open>The first target with a directed path in the facts.\<close>

fun firstTargetPath :: "Facts \<Rightarrow> string \<Rightarrow> Node list \<Rightarrow> PathResult option" where
  "firstTargetPath facts sourceID [] = None"
| "firstTargetPath facts sourceID (target # targets) =
    (let candidate = pathOf (directedPath facts sourceID (node_ID target)) in
     if path_Nodes candidate = [] then firstTargetPath facts sourceID targets else Some candidate)"

text \<open>The loop over the sources: the last traversal and the path found.\<close>

fun firstSourcePath :: "Traverser \<Rightarrow> Snapshot \<Rightarrow> Request \<Rightarrow> RelationKind list \<Rightarrow> Node list \<Rightarrow> TraversalResult \<Rightarrow> Node list
    \<Rightarrow> QueryError + TraversalResult \<times> PathResult" where
  "firstSourcePath traverse snapshot request relations targets traversal [] = Inr (traversal, empty_PathResult)"
| "firstSourcePath traverse snapshot request relations targets traversal (source # sources) =
    (case traverse snapshot (slotTraversal request [node_ID source] TraverseOutgoing relations) of
       Inl e \<Rightarrow> Inl (PathTraverseError e)
     | Inr currentTraversal \<Rightarrow>
         (case firstTargetPath (tres_Facts currentTraversal) (node_ID source) targets of
            Some path \<Rightarrow> Inr (currentTraversal, path)
          | None \<Rightarrow> firstSourcePath traverse snapshot request relations targets currentTraversal sources))"

definition zeroTraversal :: TraversalResult where
  "zeroTraversal = \<lparr>tres_Facts = noFacts, tres_TruncationReasons = [], tres_ScopeBoundary = None\<rparr>"

definition pathEvidence :: "QueryPlan \<Rightarrow> SeedSet list \<Rightarrow> PathResult \<Rightarrow> EvidenceGroup" where
  "pathEvidence plan seeds path =
    (let components = \<lparr>ec_SeedRelevance = seedSetRelevance seeds, ec_Distance = 1 / of_nat (max 1 (length (path_Edges path))),
           ec_RelationFit = 1, ec_Confidence = plan_Confidence plan, ec_SharedSupport = of_nat (length seeds), ec_PathDiversity = 1\<rparr>
     in \<lparr>eg_Rank = 1, eg_Score = evidenceScore components, eg_Components = components,
         eg_Reason = ''The '' @ seed_Role (seeds ! 0) @ '' slot reaches the '' @ seed_Role (seeds ! 1) @ '' slot through a directed path.'',
         eg_SlotRole = seed_Role (seeds ! 0) @ ''+'' @ seed_Role (seeds ! 1),
         eg_Relation = (case path_Edges path of [] \<Rightarrow> '''' | edge # _ \<Rightarrow> edge_Relation edge), eg_Distance = length (path_Edges path),
         eg_Nodes = path_Nodes path, eg_Edges = path_Edges path\<rparr>)"

definition executePathPlan :: "Traverser \<Rightarrow> Snapshot \<Rightarrow> Request \<Rightarrow> QueryPlan \<Rightarrow> SeedSet list \<Rightarrow> QueryError + Result" where
  "executePathPlan traverse snapshot request plan seeds =
    (if length seeds \<noteq> 2 then Inl PathSlotCount
     else let sources = pathEndpointCandidates (seeds ! 0); targets = pathEndpointCandidates (seeds ! 1) in
       if (length sources \<noteq> 1 \<or> length targets \<noteq> 1) \<and> \<not> pathCandidatesNeedDisambiguation seeds \<or> sources = [] \<or> targets = []
       then Inr ((resultOf seeds)\<lparr>rslt_Warnings := [ambiguousEndpointsWarning seeds]\<rparr>)
       else res_map (\<lambda>(traversal, path). (resultOf seeds)\<lparr>
           rslt_Facts := \<lparr>facts_Nodes = path_Nodes path, facts_Edges = path_Edges path\<rparr>,
           rslt_TruncationReasons := tres_TruncationReasons traversal,
           rslt_Limits := retrievalLimits plan @ [\<lparr>sl_Stage = ''path'', sl_SlotRole = '''', sl_MaxDepth = rq_MaxDepth request,
             sl_MaxNodes = rq_MaxNodes request, sl_TruncationReasons = tres_TruncationReasons traversal\<rparr>],
           rslt_Warnings := (if path_Nodes path \<noteq> [] then [] else [\<lparr>warn_Code = ''no_directed_path'',
             warn_Message = ''No directed path was found; no reachability claim was produced.'',
             warn_Suggestions = [''Run path from '' @ node_ID (sources ! 0) @ '' to '' @ node_ID (targets ! 0) @ '' with undirected fallback.'']\<rparr>]),
           rslt_ScopeBoundary := (if path_Nodes path \<noteq> [] then boundaryOf (tres_ScopeBoundary traversal) else None),
           rslt_Evidence := (if path_Nodes path \<noteq> [] then [pathEvidence plan seeds path] else [])\<rparr>)
         (firstSourcePath traverse snapshot request (callRelations (plan_AllowedRelations plan)) targets zeroTraversal sources))"


subsection \<open>Common contracts\<close>

definition pathBase :: "string \<Rightarrow> string" where
  "pathBase p = (if p = '''' then ''.'' else
     let trimmed = rev (dropWhile (\<lambda>c. c = slash) (rev p)) in if trimmed = '''' then [slash] else lastElem trimmed)"

definition nodePath :: "Node \<Rightarrow> string" where "nodePath node = span_Path (ev_Span (node_Evidence node))"

definition contractSuiteIdentity :: "UnicodeTables \<Rightarrow> Node \<Rightarrow> string" where
  "contractSuiteIdentity u node =
    (if node_Kind node \<noteq> ''file'' then ''''
     else let name = ToLower u (pathBase (nodePath node)) in
       if \<not> stringContains name ''contract'' \<or> \<not> stringContains name ''test'' then '''' else ''contract-suite:'' @ name)"

definition isContractNode :: "UnicodeTables \<Rightarrow> Node \<Rightarrow> bool" where
  "isContractNode u node \<longleftrightarrow> (let kind = ToLower u (node_Kind node) in
     stringContains kind ''interface'' \<or> stringContains kind ''contract'' \<or> stringContains kind ''test'' \<or> contractSuiteIdentity u node \<noteq> '''')"

definition contractIdentityKeys :: "UnicodeTables \<Rightarrow> Node \<Rightarrow> string list" where
  "contractIdentityKeys u node =
    (if contractSuiteIdentity u node \<noteq> '''' then [contractSuiteIdentity u node]
     else if \<not> isContractNode u node \<or> node_QualifiedName node = '''' then []
     else [''qualified:'' @ ToLower u (node_QualifiedName node)])"

text \<open>The traversals of the slots, None where a slot has no nodes.\<close>

fun intersectionTraversals :: "Traverser \<Rightarrow> Snapshot \<Rightarrow> Request \<Rightarrow> QueryPlan \<Rightarrow> SeedSet list \<Rightarrow> QueryError + TraversalResult list option" where
  "intersectionTraversals traverse snapshot request plan [] = Inr (Some [])"
| "intersectionTraversals traverse snapshot request plan (seedSet # seeds) =
    (if seed_Nodes seedSet = [] then Inr None
     else case traverse snapshot (slotTraversal request (map node_ID (seed_Nodes seedSet)) (plan_Direction plan)
            (sharedContractRelations (plan_AllowedRelations plan))) of
       Inl e \<Rightarrow> Inl (IntersectionTraverseError (seed_Role seedSet) e)
     | Inr traversal \<Rightarrow> res_map (map_option (\<lambda>traversals. traversal # traversals))
         (intersectionTraversals traverse snapshot request plan seeds))"

definition rightNodesByPath :: "UnicodeTables \<Rightarrow> Node list \<Rightarrow> string \<Rightarrow> Node list" where
  "rightNodesByPath u nodes p = filter (\<lambda>node. nodePath node \<noteq> '''' \<and> isContractNode u node \<and> nodePath node = p) nodes"

definition rightNodesByContractIdentity :: "UnicodeTables \<Rightarrow> Node list \<Rightarrow> string \<Rightarrow> Node list" where
  "rightNodesByContractIdentity u nodes identity =
     concat (map (\<lambda>node. map (\<lambda>_. node) (filter (\<lambda>key. key = identity) (contractIdentityKeys u node))) nodes)"

definition addUnseenNode :: "Node \<Rightarrow> string set \<times> Node list \<Rightarrow> string set \<times> Node list" where
  "addUnseenNode node st = (case st of (ids, nodes) \<Rightarrow>
     if node_ID node \<in> ids then (ids, nodes) else (insert (node_ID node) ids, nodes @ [node]))"

definition addCommonNode :: "UnicodeTables \<Rightarrow> Node list \<Rightarrow> Node \<Rightarrow> string set \<times> Node list \<Rightarrow> string set \<times> Node list" where
  "addCommonNode u right node st =
    (let commonID = node_ID node \<in> node_ID ` set right;
         matchingPathNodes = (if isContractNode u node then rightNodesByPath u right (nodePath node) else []);
         matchingIdentityNodes = concat (map (rightNodesByContractIdentity u right) (contractIdentityKeys u node)) in
     if \<not> commonID \<and> (nodePath node = '''' \<or> matchingPathNodes = []) \<and> matchingIdentityNodes = [] then st
     else if node_ID node \<in> fst st then st
     else fold addUnseenNode (matchingPathNodes @ matchingIdentityNodes) (addUnseenNode node st))"

definition commonNodesOf :: "UnicodeTables \<Rightarrow> Node list \<Rightarrow> Node list \<Rightarrow> Node list" where
  "commonNodesOf u left right = sort_key node_ID (snd (fold (addCommonNode u right) left ({}, [])))"

text \<open>The first seed with a path of at least one edge to the target, and that path.\<close>

fun firstProof :: "Facts \<Rightarrow> Node list \<Rightarrow> string \<Rightarrow> (string \<times> PathResult) option" where
  "firstProof facts [] targetID = None"
| "firstProof facts (seed # seeds) targetID =
    (let proof = pathOf (undirectedPath facts (node_ID seed) targetID) in
     if path_Edges proof \<noteq> [] then Some (node_ID seed, proof) else firstProof facts seeds targetID)"

text \<open>The nodes and edges of the proofs: the map of nodes by ID, the keys of the edges, the edges.\<close>

type_synonym Proofs = "(string \<times> Node) list \<times> string set \<times> Edge list"

definition addProofEdge :: "Edge \<Rightarrow> string set \<times> Edge list \<Rightarrow> string set \<times> Edge list" where
  "addProofEdge edge st = (case st of (keys, edges) \<Rightarrow>
     if pathEdgeKey edge \<in> keys then (keys, edges) else (insert (pathEdgeKey edge) keys, edges @ [edge]))"

definition addProof :: "Facts \<Rightarrow> Node list \<Rightarrow> Node \<Rightarrow> Proofs \<Rightarrow> Proofs" where
  "addProof facts seedNodes commonNode st = (case st of (nodesByID, keys, edges) \<Rightarrow>
     (case firstProof facts seedNodes (node_ID commonNode) of
        None \<Rightarrow> st
      | Some (rootID, proof) \<Rightarrow>
          (fold (\<lambda>node. AList.update (node_ID node) node) (filter (\<lambda>node. node_ID node \<noteq> rootID) (path_Nodes proof)) nodesByID,
           fold addProofEdge (path_Edges proof) (keys, edges))))"

definition proofsOf :: "TraversalResult list \<Rightarrow> SeedSet list \<Rightarrow> Node list \<Rightarrow> Proofs" where
  "proofsOf traversals seeds commonNodes =
     fold (\<lambda>(traversal, seedSet). fold (addProof (tres_Facts traversal) (seed_Nodes seedSet)) commonNodes)
       (zip traversals seeds) (map (\<lambda>node. (node_ID node, node)) commonNodes, {}, [])"

definition mergedReasons :: "TraversalResult list \<Rightarrow> TruncationReason list" where
  "mergedReasons traversals = filter (\<lambda>reason. list_ex (\<lambda>traversal. reason \<in> set (tres_TruncationReasons traversal)) traversals)
     [TruncatedByDepthLimit, TruncatedByNodeLimit]"

definition intersectionEvidence :: "QueryPlan \<Rightarrow> SeedSet list \<Rightarrow> Node list \<Rightarrow> Edge list \<Rightarrow> EvidenceGroup" where
  "intersectionEvidence plan seeds nodes edges =
    (let relation = (case edges of [] \<Rightarrow> '''' | edge # _ \<Rightarrow> edge_Relation edge);
         components = \<lparr>ec_SeedRelevance = seedSetRelevance seeds, ec_Distance = 1,
           ec_RelationFit = relationFit (plan_AllowedRelations plan) relation, ec_Confidence = plan_Confidence plan,
           ec_SharedSupport = of_nat (length seeds), ec_PathDiversity = of_nat (length edges)\<rparr>
     in \<lparr>eg_Rank = 1, eg_Score = evidenceScore components, eg_Components = components,
         eg_Reason = ''Common evidence is supported by the '' @ seed_Role (seeds ! 0) @ '' and '' @ seed_Role (seeds ! 1)
           @ '' slots through '' @ relation @ ''.'',
         eg_SlotRole = seed_Role (seeds ! 0) @ ''+'' @ seed_Role (seeds ! 1), eg_Relation = relation, eg_Distance = 1,
         eg_Nodes = nodes, eg_Edges = edges\<rparr>)"

definition executeIntersectionPlan :: "UnicodeTables \<Rightarrow> Traverser \<Rightarrow> Snapshot \<Rightarrow> Request \<Rightarrow> QueryPlan \<Rightarrow> SeedSet list \<Rightarrow> QueryError + Result" where
  "executeIntersectionPlan u traverse snapshot request plan seeds =
     res_bind (intersectionTraversals traverse snapshot request plan seeds) (\<lambda>found.
       case found of
         None \<Rightarrow> Inr (noCommonIntersectionResult plan seeds [] [])
       | Some traversals \<Rightarrow>
           if length traversals \<noteq> 2 then Inl IntersectionSlotCount
           else let common = commonNodesOf u (facts_Nodes (tres_Facts (traversals ! 0))) (facts_Nodes (tres_Facts (traversals ! 1)));
                    (nodesByID, keys, proofEdges) = proofsOf traversals seeds common;
                    nodes = sort_key node_ID (map snd nodesByID);
                    edges = sort_key edgeSortKey proofEdges;
                    result = (resultOf seeds)\<lparr>rslt_Facts := \<lparr>facts_Nodes = nodes, facts_Edges = edges\<rparr>,
                      rslt_TruncationReasons := mergedReasons traversals,
                      rslt_Limits := retrievalLimits plan @ map (\<lambda>(traversal, seedSet). \<lparr>sl_Stage = ''intersection'',
                        sl_SlotRole = seed_Role seedSet, sl_MaxDepth = rq_MaxDepth request, sl_MaxNodes = rq_MaxNodes request,
                        sl_TruncationReasons = tres_TruncationReasons traversal\<rparr>) (zip traversals seeds)\<rparr>
                in if nodes = [] then Inr (result\<lparr>rslt_Warnings := [noCommonWarning seeds]\<rparr>)
                   else Inr (result\<lparr>rslt_Evidence := [intersectionEvidence plan seeds nodes edges]\<rparr>))"

subsection \<open>QuerySnapshot\<close>

definition planSeedRequests :: "QueryPlan \<Rightarrow> SeedRequest list" where
  "planSeedRequests plan = map (\<lambda>slot. \<lparr>sreq_Role = slot_Role slot, sreq_EntityRole = slot_EntityRole slot,
     sreq_Retrieval = slot_Retrieval slot\<rparr>) (plan_EntitySlots plan)"

definition requireSearcher :: "LexicalSearcher option \<Rightarrow> RankError + SeedSet list \<Rightarrow> QueryError + SeedSet list" where
  "requireSearcher searcher seeds =
    (if searcher = None then Inl QuerySearcherMissing else case seeds of Inl e \<Rightarrow> Inl (QueryRankError e) | Inr s \<Rightarrow> Inr s)"

definition querySeeds :: "UnicodeTables \<Rightarrow> (rune \<Rightarrow> rune) \<Rightarrow> NodeLookup \<Rightarrow> LexicalSearcher option \<Rightarrow> Snapshot \<Rightarrow> Request
    \<Rightarrow> QueryError + SeedSet list" where
  "querySeeds u foldRune lookup searcher snapshot request =
    (case rq_Plan request of
       Some plan \<Rightarrow> requireSearcher searcher (RankSeedRequestsSnapshot u foldRune (Some lookup) searcher snapshot (planSeedRequests plan))
     | None \<Rightarrow>
         if rq_SeedRequests request \<noteq> [] then requireSearcher searcher
           (RankSeedRequestsSnapshot u foldRune (Some lookup) searcher snapshot (rq_SeedRequests request))
         else if rq_Retrievals request \<noteq> [] then requireSearcher searcher
           (RankRetrievalsSnapshot (Some lookup) searcher snapshot (rq_Retrievals request))
         else case RankSnapshot (Some lookup) snapshot (rq_Terms request) of Inl e \<Rightarrow> Inl (QueryRankError e) | Inr s \<Rightarrow> Inr s)"

text \<open>The result of a plan that stops before any traversal.\<close>

definition stoppedPlan :: "QueryPlan \<Rightarrow> SeedSet list \<Rightarrow> PlanWarning list \<Rightarrow> Result" where
  "stoppedPlan plan seeds warnings = (resultOf seeds)\<lparr>rslt_Evidence := retrievalEvidence plan seeds,
     rslt_Limits := retrievalLimits plan, rslt_Warnings := warnings\<rparr>"

definition planStops :: "(string \<Rightarrow> string) \<Rightarrow> QueryPlan \<Rightarrow> SeedSet list \<Rightarrow> Result option" where
  "planStops goQuote plan seeds =
    (let warnings = emptyEntitySlotWarnings goQuote plan seeds in
     if warnings \<noteq> [] then Some (stoppedPlan plan seeds
       (if plan_Intent plan = IntentUnknown then unknownIntentWarnings (plan_Warnings plan) else warnings))
     else if plan_Operator plan = OperatorLookup \<or> plan_Operator plan = OperatorExplain then
       (if plan_Intent plan = IntentUnknown then Some (stoppedPlan plan seeds (unknownIntentWarnings (plan_Warnings plan)))
        else let warning = entityResolutionWarning (plan_Operator plan) seeds in
          if plan_Operator plan = OperatorLookup \<or> warning \<noteq> None
          then Some (stoppedPlan plan seeds (case warning of None \<Rightarrow> [] | Some w \<Rightarrow> [w])) else None)
     else None)"

text \<open>Direction, depth and relations of the traversal of a plan.\<close>

definition planTraversal :: "Request \<Rightarrow> TraversalDirection \<times> int \<times> RelationKind list" where
  "planTraversal request =
    (case rq_Plan request of
       None \<Rightarrow> (TraverseOutgoing, rq_MaxDepth request, rq_Relations request)
     | Some plan \<Rightarrow>
         (case plan_Operator plan of
            OperatorExplain \<Rightarrow> (TraverseBoth, min (rq_MaxDepth request) 1, rq_Relations request)
          | OperatorNeighbors \<Rightarrow>
              (plan_Direction plan, rq_MaxDepth request,
               if plan_Intent plan = IntentCalls \<or> plan_Intent plan = IntentCalledBy then callRelations (plan_AllowedRelations plan)
               else if plan_Intent plan = IntentDependencies \<or> plan_Intent plan = IntentDependents
                 \<or> plan_Intent plan = IntentDependencyComparison then dependencyRelations (plan_AllowedRelations plan)
               else plan_AllowedRelations plan)
          | OperatorImpact \<Rightarrow> (TraverseIncoming, rq_MaxDepth request, impactRelations (plan_AllowedRelations plan))
          | _ \<Rightarrow> (TraverseOutgoing, rq_MaxDepth request, rq_Relations request)))"

definition traversalResult :: "Traverser \<Rightarrow> Snapshot \<Rightarrow> Request \<Rightarrow> SeedSet list \<Rightarrow> QueryError + Result" where
  "traversalResult traverse snapshot request seeds =
    (case planTraversal request of (direction, maximumDepth, relations) \<Rightarrow>
       case traverse snapshot \<lparr>trav_StartNodeIDs = seedIDs seeds, trav_ProjectIDs = rq_ProjectIDs request, trav_Direction = direction,
           trav_Relations = relations, trav_MaxDepth = maximumDepth, trav_MaxNodes = rq_MaxNodes request\<rparr> of
         Inl e \<Rightarrow> Inl (QueryStoreError e)
       | Inr traversal \<Rightarrow>
           let result = (resultOf seeds)\<lparr>rslt_Facts := tres_Facts traversal, rslt_TruncationReasons := tres_TruncationReasons traversal,
             rslt_ScopeBoundary := boundaryOf (tres_ScopeBoundary traversal)\<rparr> in
           Inr (case rq_Plan request of
               None \<Rightarrow> result
             | Some plan \<Rightarrow> result\<lparr>rslt_Evidence := traversalEvidence plan seeds (tres_Facts traversal),
                 rslt_Limits := retrievalLimits plan @ [\<lparr>sl_Stage = ''traversal'', sl_SlotRole = '''', sl_MaxDepth = maximumDepth,
                   sl_MaxNodes = rq_MaxNodes request, sl_TruncationReasons = tres_TruncationReasons traversal\<rparr>],
                 rslt_Impact := (if plan_Operator plan = OperatorImpact
                   then rankImpactEvidence (tres_Facts traversal) (seedIDs seeds) else [])\<rparr>))"

definition executePlan :: "UnicodeTables \<Rightarrow> Traverser \<Rightarrow> Snapshot \<Rightarrow> Request \<Rightarrow> SeedSet list \<Rightarrow> QueryError + Result" where
  "executePlan u traverse snapshot request seeds =
    (if seedIDs seeds = [] then Inr (case rq_Plan request of None \<Rightarrow> resultOf seeds
        | Some plan \<Rightarrow> (resultOf seeds)\<lparr>rslt_Limits := retrievalLimits plan\<rparr>)
     else case rq_Plan request of
       None \<Rightarrow> traversalResult traverse snapshot request seeds
     | Some plan \<Rightarrow>
         if plan_Operator plan = OperatorIntersection then executeIntersectionPlan u traverse snapshot request plan seeds
         else if plan_Operator plan = OperatorPath then executePathPlan traverse snapshot request plan seeds
         else traversalResult traverse snapshot request seeds)"

definition QuerySnapshot :: "UnicodeTables \<Rightarrow> (rune \<Rightarrow> rune) \<Rightarrow> (string \<Rightarrow> string) \<Rightarrow> NodeLookup option \<Rightarrow> LexicalSearcher option
    \<Rightarrow> Traverser option \<Rightarrow> Snapshot \<Rightarrow> Request \<Rightarrow> QueryError + Result" where
  "QuerySnapshot u foldRune goQuote lookup searcher traverser snapshot request =
    (case lookup of None \<Rightarrow> Inl QueryLookupMissing | Some l \<Rightarrow>
     case traverser of None \<Rightarrow> Inl QueryTraverserMissing | Some traverse \<Rightarrow>
       if rq_Plan request = None \<and> rq_Terms request = [] \<and> rq_Retrievals request = [] \<and> rq_SeedRequests request = []
          \<or> rq_MaxDepth request < 0 \<or> rq_MaxNodes request \<le> 0
       then Inl QueryRequestInvalid
       else res_bind (querySeeds u foldRune l searcher snapshot request) (\<lambda>seeds.
         case Option.bind (rq_Plan request) (\<lambda>plan. planStops goQuote plan seeds) of
           Some result \<Rightarrow> Inr result
         | None \<Rightarrow> executePlan u traverse snapshot request seeds))"


subsection \<open>Stopping\<close>

definition claimsNoOperation :: "PlanWarning \<Rightarrow> bool" where
  "claimsNoOperation w \<longleftrightarrow> warn_Code w \<in> {''entity_not_found'', ''ambiguous_entity'', ''weak_entity_match'', ''ambiguous_path_endpoints''}"

lemma traversalResult_warnings: "traversalResult traverse sn rq seeds = Inr r \<Longrightarrow> rslt_Warnings r = []"
  by (auto simp: traversalResult_def resultOf_def Let_def split: prod.splits sum.splits option.splits)

lemma intersection_warnings:
  assumes "executeIntersectionPlan u traverse sn rq plan seeds = Inr r" "w \<in> set (rslt_Warnings r)"
  shows "warn_Code w = ''no_common_evidence''"
proof -
  obtain found where found: "intersectionTraversals traverse sn rq plan seeds = Inr found"
    using assms(1) by (auto simp: executeIntersectionPlan_def res_bind_Inr)
  show ?thesis
  proof (cases found)
    case None
    then have "r = noCommonIntersectionResult plan seeds [] []" using assms(1) found by (simp add: executeIntersectionPlan_def)
    then show ?thesis using assms(2) by (simp add: noCommonIntersectionResult_def noCommonWarning_def)
  next
    case (Some traversals)
    then have "rslt_Warnings r = [noCommonWarning seeds] \<or> rslt_Warnings r = []"
      using assms(1) found by (auto simp: executeIntersectionPlan_def Let_def resultOf_def split: if_splits prod.splits)
    then show ?thesis using assms(2) by (auto simp: noCommonWarning_def)
  qed
qed

lemma path_warnings:
  assumes "executePathPlan traverse sn rq plan seeds = Inr r" "w \<in> set (rslt_Warnings r)" "claimsNoOperation w"
  shows "executePathPlan traverse' sn rq plan seeds = Inr r \<and> rslt_Facts r = noFacts"
proof (cases "(length (pathEndpointCandidates (seeds ! 0)) \<noteq> 1 \<or> length (pathEndpointCandidates (seeds ! 1)) \<noteq> 1) \<and> \<not> pathCandidatesNeedDisambiguation seeds
    \<or> pathEndpointCandidates (seeds ! 0) = [] \<or> pathEndpointCandidates (seeds ! 1) = []")
  case True
  then show ?thesis using assms(1) unfolding executePathPlan_def Let_def by (auto simp: resultOf_def split: if_splits)
next
  case False
  have "length seeds = 2" using assms(1) by (auto simp: executePathPlan_def split: if_splits)
  then have "rslt_Warnings r = [] \<or> map warn_Code (rslt_Warnings r) = [''no_directed_path'']"
    using assms(1) False unfolding executePathPlan_def Let_def if_not_P[OF False] by (auto simp: res_map_Inr resultOf_def)
  then show ?thesis using assms(2,3) by (auto simp: claimsNoOperation_def)
qed

lemma planStops_facts: "planStops goQuote plan seeds = Some r \<Longrightarrow> rslt_Facts r = noFacts"
  by (auto simp: planStops_def stoppedPlan_def resultOf_def Let_def split: if_splits)

lemma executePlan_stops:
  assumes "executePlan u traverse sn rq seeds = Inr r" "w \<in> set (rslt_Warnings r)" "claimsNoOperation w"
  shows "executePlan u traverse' sn rq seeds = Inr r \<and> rslt_Facts r = noFacts"
proof (cases "seedIDs seeds = []")
  case True
  then show ?thesis using assms(1) by (auto simp: executePlan_def resultOf_def split: option.splits)
next
  case False
  show ?thesis
  proof (cases "rq_Plan rq")
    case None
    then show ?thesis using assms(1,2) False traversalResult_warnings[of traverse sn rq seeds r] by (simp add: executePlan_def)
  next
    case (Some plan)
    consider (intersection) "plan_Operator plan = OperatorIntersection" | (path) "plan_Operator plan = OperatorPath"
      | (other) "plan_Operator plan \<noteq> OperatorIntersection" "plan_Operator plan \<noteq> OperatorPath" by blast
    then show ?thesis
    proof cases
      case intersection
      then have "executeIntersectionPlan u traverse sn rq plan seeds = Inr r" using assms(1) False Some by (simp add: executePlan_def)
      then show ?thesis using intersection_warnings assms(2,3) by (force simp: claimsNoOperation_def)
    next
      case path
      then have "executePathPlan traverse sn rq plan seeds = Inr r" using assms(1) False Some by (simp add: executePlan_def)
      from path_warnings[OF this assms(2,3)] show ?thesis using path False Some by (simp add: executePlan_def)
    next
      case other
      then show ?thesis using assms(1,2) False Some traversalResult_warnings[of traverse sn rq seeds r] by (simp add: executePlan_def)
    qed
  qed
qed

subsection \<open>Failing\<close>

lemma mapRes_length: "mapRes f xs = Inr ys \<Longrightarrow> length ys = length xs"
  by (induction xs arbitrary: ys) (auto simp: res_bind_Inr res_map_Inr)

lemma mapRes_error: "mapRes f xs = Inl e \<Longrightarrow> \<exists>x\<in>set xs. f x = Inl e"
proof (induction xs)
  case (Cons x xs)
  then show ?case by (cases "f x"; cases "mapRes f xs") auto
qed simp

lemma rankSeedRequest_error:
  "rankSeedRequest u foldRune l s sn rq = Inl e \<Longrightarrow> lex_Text (sreq_Retrieval rq) \<noteq> '''' \<Longrightarrow> 0 < lex_Limit (sreq_Retrieval rq)
    \<Longrightarrow> \<exists>se. e = RankStoreError se"
  by (auto simp: rankSeedRequest_def Let_def split: if_splits sum.splits)

lemma planSeeds:
  assumes "executablePlan plan" "'''' \<notin> set (map slot_Text (plan_EntitySlots plan))" "rq_Plan rq = Some plan"
  shows "querySeeds u foldRune l (Some s) sn rq = Inl e \<Longrightarrow> \<exists>se. e = QueryRankError (RankStoreError se)"
    and "querySeeds u foldRune l (Some s) sn rq = Inr seeds \<Longrightarrow> length seeds = length (plan_EntitySlots plan)"
proof -
  have q: "querySeeds u foldRune l (Some s) sn rq
      = (case mapRes (rankSeedRequest u foldRune l s sn) (planSeedRequests plan) of Inl e \<Rightarrow> Inl (QueryRankError e) | Inr seeds \<Rightarrow> Inr seeds)"
    using assms(3) by (simp add: querySeeds_def requireSearcher_def RankSeedRequestsSnapshot_def)
  {
    assume "querySeeds u foldRune l (Some s) sn rq = Inl e"
    then obtain re where re: "mapRes (rankSeedRequest u foldRune l s sn) (planSeedRequests plan) = Inl re" "e = QueryRankError re"
      unfolding q by (auto split: sum.splits)
    from mapRes_error[OF re(1)] obtain slot where slot: "slot \<in> set (plan_EntitySlots plan)"
      "rankSeedRequest u foldRune l s sn \<lparr>sreq_Role = slot_Role slot, sreq_EntityRole = slot_EntityRole slot, sreq_Retrieval = slot_Retrieval slot\<rparr> = Inl re"
      by (auto simp: planSeedRequests_def)
    have "lex_Text (slot_Retrieval slot) \<noteq> ''''" "0 < lex_Limit (slot_Retrieval slot)" using assms(1,2) slot(1) by (force simp: executablePlan_def)+
    then have "\<exists>se. re = RankStoreError se" using rankSeedRequest_error[OF slot(2)] by simp
    then show "\<exists>se. e = QueryRankError (RankStoreError se)" using re(2) by blast
  next
    assume "querySeeds u foldRune l (Some s) sn rq = Inr seeds"
    then show "length seeds = length (plan_EntitySlots plan)"
      unfolding q by (auto split: sum.splits dest!: mapRes_length simp: planSeedRequests_def)
  }
qed

lemma intersectionTraversals_length: "intersectionTraversals traverse sn rq plan seeds = Inr (Some ts) \<Longrightarrow> length ts = length seeds"
proof (induction seeds arbitrary: ts)
  case (Cons s seeds)
  show ?case
  proof (cases "intersectionTraversals traverse sn rq plan seeds")
    case (Inl e)
    then show ?thesis using Cons.prems by (simp split: if_splits sum.splits)
  next
    case (Inr found)
    then show ?thesis using Cons by (cases found) (auto split: if_splits sum.splits)
  qed
qed simp

lemma intersectionTraversals_error:
  "intersectionTraversals traverse sn rq plan seeds = Inl e \<Longrightarrow> \<exists>role se. e = IntersectionTraverseError role se"
proof (induction seeds)
  case (Cons s seeds)
  then show ?case
    by (cases "intersectionTraversals traverse sn rq plan seeds") (auto split: if_splits sum.splits)
qed simp

lemma firstSourcePath_error: "firstSourcePath traverse sn rq relations targets tv sources = Inl e \<Longrightarrow> \<exists>se. e = PathTraverseError se"
  by (induction sources arbitrary: tv) (auto split: sum.splits option.splits)

definition storeFailure :: "QueryError \<Rightarrow> bool" where
  "storeFailure e \<longleftrightarrow> (\<exists>se. e = QueryRankError (RankStoreError se) \<or> e = QueryStoreError se \<or> e = PathTraverseError se
     \<or> (\<exists>role. e = IntersectionTraverseError role se))"

lemma executePlan_error:
  assumes "executePlan u traverse sn rq seeds = Inl e" "rq_Plan rq = Some plan" "executablePlan plan"
    "length seeds = length (plan_EntitySlots plan)"
  shows "storeFailure e"
proof -
  have ne: "seedIDs seeds \<noteq> []" using assms(1) by (auto simp: executePlan_def)
  consider (intersection) "plan_Operator plan = OperatorIntersection" | (path) "plan_Operator plan = OperatorPath"
      | (other) "plan_Operator plan \<noteq> OperatorIntersection" "plan_Operator plan \<noteq> OperatorPath" by blast
  then show ?thesis
  proof cases
    case intersection
    then have two: "length seeds = 2" using assms(3,4) by (simp add: executablePlan_def)
    have run: "executeIntersectionPlan u traverse sn rq plan seeds = Inl e" using assms(1,2) ne intersection by (simp add: executePlan_def)
    show ?thesis
    proof (cases "intersectionTraversals traverse sn rq plan seeds")
      case (Inl d)
      then show ?thesis using run intersectionTraversals_error[OF Inl] by (auto simp: executeIntersectionPlan_def storeFailure_def)
    next
      case (Inr found)
      then show ?thesis
        using run two intersectionTraversals_length[of traverse sn rq plan seeds]
        by (cases found) (auto simp: executeIntersectionPlan_def Let_def split: if_splits prod.splits)
    qed
  next
    case path
    then have two: "length seeds = 2" using assms(3,4) by (simp add: executablePlan_def)
    have run: "executePathPlan traverse sn rq plan seeds = Inl e" using assms(1,2) ne path by (simp add: executePlan_def)
    let ?search = "firstSourcePath traverse sn rq (callRelations (plan_AllowedRelations plan)) (pathEndpointCandidates (seeds ! 1)) zeroTraversal (pathEndpointCandidates (seeds ! 0))"
    have search: "?search = Inl e" using run two unfolding executePathPlan_def Let_def by (cases ?search) (auto split: if_splits)
    from firstSourcePath_error[OF search] show ?thesis by (auto simp: storeFailure_def)
  next
    case other
    then have "traversalResult traverse sn rq seeds = Inl e" using assms(1,2) ne by (simp add: executePlan_def)
    then show ?thesis by (auto simp: traversalResult_def storeFailure_def Let_def split: prod.splits sum.splits)
  qed
qed


text \<open>C14: a query whose warning says that nothing was executed really executed nothing: when QuerySnapshot
  returns a warning that an entity was not found, is ambiguous or only matched weakly, or that the ends
  of a path are ambiguous, then no other traverser could have changed the answer, and the answer holds
  no graph facts.\<close>

theorem stopped_queries_do_not_traverse:
  assumes "QuerySnapshot u foldRune goQuote lookup searcher (Some traverse) sn rq = Inr r"
    and "w \<in> set (rslt_Warnings r)" "claimsNoOperation w"
  shows "QuerySnapshot u foldRune goQuote lookup searcher (Some traverse') sn rq = Inr r \<and> rslt_Facts r = noFacts"
proof -
  obtain l where l: "lookup = Some l" using assms(1) by (cases lookup) (auto simp: QuerySnapshot_def)
  obtain seeds where seeds: "querySeeds u foldRune l searcher sn rq = Inr seeds"
    using assms(1) l by (auto simp: QuerySnapshot_def res_bind_Inr split: if_splits)
  note run = assms(1)[unfolded QuerySnapshot_def l option.case seeds res_bind.simps]
  show ?thesis
  proof (cases "Option.bind (rq_Plan rq) (\<lambda>plan. planStops goQuote plan seeds)")
    case None
    then have "executePlan u traverse sn rq seeds = Inr r" using run by (simp split: if_splits)
    from executePlan_stops[OF this assms(2,3), of traverse'] show ?thesis
      unfolding QuerySnapshot_def l using None seeds run by (simp split: if_splits)
  next
    case (Some result)
    then have "result = r" using run by (simp split: if_splits)
    moreover obtain plan where "planStops goQuote plan seeds = Some result" using Some by (cases "rq_Plan rq") auto
    ultimately show ?thesis
      unfolding QuerySnapshot_def l using Some seeds run planStops_facts[of goQuote plan seeds result] by (simp split: if_splits)
  qed
qed

text \<open>C33: a query built from a question cannot fail because of the question: for the plan of AnalyzeQuestion,
  whatever the question, with entities that are not empty, a lookup that searches and positive bounds,
  QuerySnapshot only returns an error that the store returned to a search, a lookup or a traversal.\<close>

theorem questions_fail_only_with_the_store:
  assumes "QuerySnapshot u foldRune goQuote (Some lookup) (Some searcher) (Some traverse) sn rq = Inl e"
    and "rq_Plan rq = Some (AnalyzeQuestion u foldRune question)"
    and "'''' \<notin> set (map slot_Text (plan_EntitySlots (AnalyzeQuestion u foldRune question)))"
    and "0 \<le> rq_MaxDepth rq" "0 < rq_MaxNodes rq"
  shows "storeFailure e"
proof -
  let ?plan = "AnalyzeQuestion u foldRune question"
  note executable = AnalyzeQuestion_executable[of u foldRune question]
  note run = assms(1)[unfolded QuerySnapshot_def option.case]
  show ?thesis
  proof (cases "querySeeds u foldRune lookup (Some searcher) sn rq")
    case (Inl d)
    then have "e = d" using run assms(2,4,5) by (simp split: if_splits)
    from planSeeds(1)[OF executable assms(3,2) Inl] this show ?thesis by (auto simp: storeFailure_def)
  next
    case (Inr seeds)
    then have "executePlan u traverse sn rq seeds = Inl e" using run assms(2,4,5) by (simp split: if_splits option.splits)
    then show ?thesis using executePlan_error[OF _ assms(2) executable] planSeeds(2)[OF executable assms(3,2) Inr] by simp
  qed
qed


subsection \<open>Paths found\<close>

lemma pathOf_nonempty:
  assumes "pathOf (shortestPath F s t und) = p" "path_Nodes p \<noteq> []"
  shows "shortest_result und F s t p"
proof -
  obtain r where r: "shortestPath F s t und = Some r" using shortestPath_total by blast
  then show ?thesis using assms shortestPath_sound[OF r] by (simp add: pathOf_def)
qed

lemma pathOf_empty:
  assumes "path_Nodes (pathOf (shortestPath F s t und)) = []"
  shows "\<not> (path_endpoints_present F s t \<and> (\<exists>p. walk und F s p t))"
proof -
  obtain r where r: "shortestPath F s t und = Some r" using shortestPath_total by blast
  then show ?thesis using assms shortestPath_empty_iff[OF r] by (auto simp: pathOf_def)
qed

definition reaches :: "Facts \<Rightarrow> string \<Rightarrow> string \<Rightarrow> bool" where
  "reaches F s t \<longleftrightarrow> path_endpoints_present F s t \<and> (\<exists>p. walk False F s p t)"

lemma firstTargetPath_Some:
  "firstTargetPath F s targets = Some p \<Longrightarrow> \<exists>target\<in>set targets. shortest_result False F s (node_ID target) p"
proof (induction targets)
  case (Cons target targets)
  then show ?case
    using pathOf_nonempty[OF refl, of F s "node_ID target" False] by (auto simp: Let_def directedPath_def split: if_splits)
qed simp

lemma firstTargetPath_None:
  "firstTargetPath F s targets = None \<Longrightarrow> \<forall>target\<in>set targets. \<not> reaches F s (node_ID target)"
proof (induction targets)
  case (Cons target targets)
  then show ?case
    using pathOf_empty[of F s "node_ID target" False] by (auto simp: Let_def directedPath_def reaches_def split: if_splits)
qed simp

lemma firstSourcePath_found:
  "firstSourcePath traverse sn rq relations targets tv sources = Inr (tv', p) \<Longrightarrow> path_Nodes p \<noteq> [] \<Longrightarrow>
     \<exists>source\<in>set sources. traverse sn (slotTraversal rq [node_ID source] TraverseOutgoing relations) = Inr tv'
       \<and> (\<exists>target\<in>set targets. shortest_result False (tres_Facts tv') (node_ID source) (node_ID target) p)"
proof (induction sources arbitrary: tv)
  case (Cons source sources)
  then obtain cur where cur: "traverse sn (slotTraversal rq [node_ID source] TraverseOutgoing relations) = Inr cur"
    by (auto split: sum.splits)
  show ?case
  proof (cases "firstTargetPath (tres_Facts cur) (node_ID source) targets")
    case None
    then show ?thesis using Cons cur by auto
  next
    case (Some path)
    then have "tv' = cur" "p = path" using Cons.prems(1) cur by simp_all
    then show ?thesis using firstTargetPath_Some[OF Some] cur by auto
  qed
qed (auto simp: empty_PathResult_def)

lemma firstSourcePath_none:
  "firstSourcePath traverse sn rq relations targets tv sources = Inr (tv', p) \<Longrightarrow> path_Nodes p = [] \<Longrightarrow>
     \<forall>source\<in>set sources. \<exists>cur. traverse sn (slotTraversal rq [node_ID source] TraverseOutgoing relations) = Inr cur
       \<and> (\<forall>target\<in>set targets. \<not> reaches (tres_Facts cur) (node_ID source) (node_ID target))"
proof (induction sources arbitrary: tv)
  case (Cons source sources)
  then obtain cur where cur: "traverse sn (slotTraversal rq [node_ID source] TraverseOutgoing relations) = Inr cur"
    by (auto split: sum.splits)
  have none: "firstTargetPath (tres_Facts cur) (node_ID source) targets = None"
  proof (rule ccontr)
    assume "firstTargetPath (tres_Facts cur) (node_ID source) targets \<noteq> None"
    then obtain path where path: "firstTargetPath (tres_Facts cur) (node_ID source) targets = Some path" by auto
    then have "p = path" using Cons.prems(1) cur by simp
    then show False using firstTargetPath_Some[OF path] Cons.prems(2) shortest_result_ne by blast
  qed
  then show ?case using Cons cur firstTargetPath_None[OF none] by auto
qed simp

text \<open>C16: a path plan answers exactly for what it traverses: from every candidate of the first slot in turn it
  traverses the call relations, cut by the limits of depth and nodes of the request.  The facts it
  returns are a shortest directed path from a candidate of the first slot to a candidate of the second
  inside the facts traversed from that candidate; and when it warns that there is none, the facts
  traversed from no candidate of the first slot lead from it to any candidate of the second - a path
  longer than the depth limit is not found.\<close>

theorem path_plan_is_exact:
  assumes "executePathPlan traverse sn rq plan seeds = Inr r"
  shows "(facts_Nodes (rslt_Facts r) \<noteq> [] \<longrightarrow>
      (\<exists>source\<in>set (pathEndpointCandidates (seeds ! 0)). \<exists>target\<in>set (pathEndpointCandidates (seeds ! 1)). \<exists>tv p.
        traverse sn (slotTraversal rq [node_ID source] TraverseOutgoing (callRelations (plan_AllowedRelations plan))) = Inr tv
        \<and> shortest_result False (tres_Facts tv) (node_ID source) (node_ID target) p
        \<and> rslt_Facts r = \<lparr>facts_Nodes = path_Nodes p, facts_Edges = path_Edges p\<rparr>))
    \<and> (''no_directed_path'' \<in> set (map warn_Code (rslt_Warnings r)) \<longrightarrow>
      (\<forall>source\<in>set (pathEndpointCandidates (seeds ! 0)). \<exists>tv.
        traverse sn (slotTraversal rq [node_ID source] TraverseOutgoing (callRelations (plan_AllowedRelations plan))) = Inr tv
        \<and> (\<forall>target\<in>set (pathEndpointCandidates (seeds ! 1)). \<not> reaches (tres_Facts tv) (node_ID source) (node_ID target))))"
proof (cases "(length (pathEndpointCandidates (seeds ! 0)) \<noteq> 1 \<or> length (pathEndpointCandidates (seeds ! 1)) \<noteq> 1) \<and> \<not> pathCandidatesNeedDisambiguation seeds
    \<or> pathEndpointCandidates (seeds ! 0) = [] \<or> pathEndpointCandidates (seeds ! 1) = []")
  case True
  have "length seeds = 2" using assms by (auto simp: executePathPlan_def split: if_splits)
  then have "r = (resultOf seeds)\<lparr>rslt_Warnings := [ambiguousEndpointsWarning seeds]\<rparr>"
    using assms True unfolding executePathPlan_def Let_def by simp
  then show ?thesis by (simp add: resultOf_def noFacts_def ambiguousEndpointsWarning_def)
next
  case False
  let ?relations = "callRelations (plan_AllowedRelations plan)"
  have two: "length seeds = 2" using assms by (auto simp: executePathPlan_def split: if_splits)
  then obtain tv p where run: "firstSourcePath traverse sn rq ?relations (pathEndpointCandidates (seeds ! 1)) zeroTraversal
      (pathEndpointCandidates (seeds ! 0)) = Inr (tv, p)"
    and facts: "rslt_Facts r = \<lparr>facts_Nodes = path_Nodes p, facts_Edges = path_Edges p\<rparr>"
    and warnings: "path_Nodes p \<noteq> [] \<Longrightarrow> rslt_Warnings r = []"
    using assms False unfolding executePathPlan_def Let_def if_not_P[OF False] by (auto simp: res_map_Inr resultOf_def)
  show ?thesis
  proof (cases "path_Nodes p = []")
    case True
    from firstSourcePath_none[OF run True] show ?thesis unfolding facts using True by simp
  next
    case False
    from firstSourcePath_found[OF run False] show ?thesis unfolding facts using warnings[OF False] by (metis empty_iff list.map(1) list.set(1) select_convs(1))
  qed
qed


subsection \<open>Common evidence\<close>

text \<open>Two nodes are related when they are the same node, contract nodes of one file, or have a contract identity in common.\<close>

definition relatedNodes :: "UnicodeTables \<Rightarrow> Node \<Rightarrow> Node \<Rightarrow> bool" where
  "relatedNodes u n m \<longleftrightarrow> node_ID n = node_ID m
     \<or> isContractNode u n \<and> isContractNode u m \<and> nodePath n \<noteq> '''' \<and> nodePath n = nodePath m
     \<or> set (contractIdentityKeys u n) \<inter> set (contractIdentityKeys u m) \<noteq> {}"

definition matchingNodes :: "UnicodeTables \<Rightarrow> Node list \<Rightarrow> Node \<Rightarrow> Node list" where
  "matchingNodes u right n = (if isContractNode u n then rightNodesByPath u right (nodePath n) else [])
     @ concat (map (rightNodesByContractIdentity u right) (contractIdentityKeys u n))"

lemma set_matchingNodes: "set (matchingNodes u right n) = {m \<in> set right. isContractNode u n \<and> isContractNode u m \<and> nodePath n \<noteq> '''' \<and> nodePath n = nodePath m
     \<or> set (contractIdentityKeys u n) \<inter> set (contractIdentityKeys u m) \<noteq> {}}"
  by (auto simp: matchingNodes_def rightNodesByPath_def rightNodesByContractIdentity_def)

lemma addCommonNode_eq:
  "addCommonNode u right n st =
    (if \<not> (\<exists>m\<in>set right. relatedNodes u n m) \<or> node_ID n \<in> fst st then st
     else fold addUnseenNode (n # matchingNodes u right n) st)"
proof -
  have "(\<exists>m\<in>set right. relatedNodes u n m) \<longleftrightarrow> node_ID n \<in> node_ID ` set right \<or> matchingNodes u right n \<noteq> []"
    using set_matchingNodes[of u right n] by (auto simp: relatedNodes_def set_empty[symmetric] simp del: set_empty)
  then show ?thesis by (auto simp: addCommonNode_def Let_def matchingNodes_def rightNodesByPath_def)
qed

definition unseenInv :: "string set \<times> Node list \<Rightarrow> bool" where
  "unseenInv st \<longleftrightarrow> fst st = node_ID ` set (snd st) \<and> distinct (map node_ID (snd st))"

lemma addUnseen_inv: "unseenInv st \<Longrightarrow> unseenInv (addUnseenNode n st) \<and> node_ID n \<in> fst (addUnseenNode n st)
    \<and> fst st \<subseteq> fst (addUnseenNode n st) \<and> set (snd st) \<subseteq> set (snd (addUnseenNode n st))
    \<and> set (snd (addUnseenNode n st)) \<subseteq> insert n (set (snd st))"
  by (cases st) (auto simp: unseenInv_def addUnseenNode_def)

lemma fold_addUnseen: "unseenInv st \<Longrightarrow> unseenInv (fold addUnseenNode ns st) \<and> node_ID ` set ns \<subseteq> fst (fold addUnseenNode ns st)
    \<and> fst st \<subseteq> fst (fold addUnseenNode ns st) \<and> set (snd st) \<subseteq> set (snd (fold addUnseenNode ns st))
    \<and> set (snd (fold addUnseenNode ns st)) \<subseteq> set ns \<union> set (snd st)"
proof (induction ns arbitrary: st)
  case (Cons n ns)
  note one = addUnseen_inv[OF Cons.prems, of n]
  then have "unseenInv (addUnseenNode n st)" by blast
  from one Cons.IH[OF this] show ?case by (simp; blast)
qed simp

lemma addCommon_inv:
  assumes "unseenInv st"
  shows "unseenInv (addCommonNode u right n st) \<and> fst st \<subseteq> fst (addCommonNode u right n st)
    \<and> set (snd st) \<subseteq> set (snd (addCommonNode u right n st))
    \<and> set (snd (addCommonNode u right n st)) \<subseteq> {n. \<exists>m\<in>set right. relatedNodes u n m} \<inter> {n} \<union> set right \<union> set (snd st)
    \<and> ((\<exists>m\<in>set right. relatedNodes u n m) \<longrightarrow> node_ID n \<in> fst (addCommonNode u right n st))
    \<and> (\<not> (\<exists>m\<in>set right. relatedNodes u n m) \<longrightarrow> addCommonNode u right n st = st)"
  using fold_addUnseen[OF assms, of "n # matchingNodes u right n"] assms set_matchingNodes[of u right n]
  unfolding addCommonNode_eq by (auto simp: subset_iff)

lemma fold_addCommon:
  assumes "unseenInv st"
  shows "unseenInv (fold (addCommonNode u right) left st)
    \<and> set (snd (fold (addCommonNode u right) left st)) \<subseteq> set left \<union> set right \<union> set (snd st)
    \<and> fst st \<subseteq> fst (fold (addCommonNode u right) left st)
    \<and> (\<forall>n\<in>set left. (\<exists>m\<in>set right. relatedNodes u n m) \<longrightarrow> node_ID n \<in> fst (fold (addCommonNode u right) left st))
    \<and> (\<not> (\<exists>n\<in>set left. \<exists>m\<in>set right. relatedNodes u n m) \<longrightarrow> fold (addCommonNode u right) left st = st)"
  using assms
proof (induction left arbitrary: st)
  case (Cons n left)
  note one = addCommon_inv[OF Cons.prems, of u right n]
  then have "unseenInv (addCommonNode u right n st)" by blast
  note rest = Cons.IH[OF this]
  have "fst st \<subseteq> fst (fold (addCommonNode u right) (n # left) st)" using one rest by auto
  moreover have "set (snd (fold (addCommonNode u right) (n # left) st)) \<subseteq> set (n # left) \<union> set right \<union> set (snd st)"
    using one rest by auto
  moreover have "\<forall>k\<in>set (n # left). (\<exists>m\<in>set right. relatedNodes u k m) \<longrightarrow> node_ID k \<in> fst (fold (addCommonNode u right) (n # left) st)"
    using one rest by auto
  moreover have "\<not> (\<exists>k\<in>set (n # left). \<exists>m\<in>set right. relatedNodes u k m) \<longrightarrow> fold (addCommonNode u right) (n # left) st = st"
  proof
    assume none: "\<not> (\<exists>k\<in>set (n # left). \<exists>m\<in>set right. relatedNodes u k m)"
    then have "addCommonNode u right n st = st" using one by simp
    then show "fold (addCommonNode u right) (n # left) st = st" using rest none by simp
  qed
  moreover have "unseenInv (fold (addCommonNode u right) (n # left) st)" using rest by simp
  ultimately show ?case by (intro conjI)
qed simp

lemma commonNodesOf_exact:
  "distinct (map node_ID (commonNodesOf u left right))"
  "set (commonNodesOf u left right) \<subseteq> set left \<union> set right"
  "n \<in> set left \<Longrightarrow> m \<in> set right \<Longrightarrow> relatedNodes u n m \<Longrightarrow> node_ID n \<in> node_ID ` set (commonNodesOf u left right)"
  "commonNodesOf u left right = [] \<longleftrightarrow> \<not> (\<exists>n\<in>set left. \<exists>m\<in>set right. relatedNodes u n m)"
proof -
  have init: "unseenInv ({}, [])" by (simp add: unseenInv_def)
  note all = fold_addCommon[OF init, of u right left]
  let ?st = "fold (addCommonNode u right) left ({}, [])"
  have inv: "unseenInv ?st" using all by blast
  have "mset (map node_ID (commonNodesOf u left right)) = mset (map node_ID (snd ?st))" by (simp add: commonNodesOf_def)
  then show "distinct (map node_ID (commonNodesOf u left right))" using inv mset_eq_imp_distinct_iff[of "map node_ID (commonNodesOf u left right)"] unfolding unseenInv_def by blast
  show "set (commonNodesOf u left right) \<subseteq> set left \<union> set right" using all by (simp add: commonNodesOf_def)
  show found: "node_ID n \<in> node_ID ` set (commonNodesOf u left right)" if "n \<in> set left" "m \<in> set right" "relatedNodes u n m" for n m
    using all inv that by (auto simp: commonNodesOf_def unseenInv_def)
  show "commonNodesOf u left right = [] \<longleftrightarrow> \<not> (\<exists>n\<in>set left. \<exists>m\<in>set right. relatedNodes u n m)"
  proof
    assume "commonNodesOf u left right = []"
    then show "\<not> (\<exists>n\<in>set left. \<exists>m\<in>set right. relatedNodes u n m)" using found by fastforce
  next
    assume "\<not> (\<exists>n\<in>set left. \<exists>m\<in>set right. relatedNodes u n m)"
    then show "commonNodesOf u left right = []" using all by (simp add: commonNodesOf_def)
  qed
qed


lemma pathOf_edges:
  assumes "pathOf (shortestPath F s t und) = p" "path_Edges p \<noteq> []"
  shows "shortest_result und F s t p"
proof -
  obtain r where "shortestPath F s t und = Some r" "shortest_result und F s t r \<or> r = empty_PathResult"
    using shortestPath_cases[of F s t und] by (auto split: if_splits)
  then show ?thesis using assms by (auto simp: pathOf_def empty_PathResult_def)
qed

lemma firstProof_Some:
  "firstProof F seeds t = Some (rootID, p) \<Longrightarrow> \<exists>seed\<in>set seeds. node_ID seed = rootID \<and> shortest_result True F rootID t p"
proof (induction seeds)
  case (Cons seed seeds)
  then show ?case
    using pathOf_edges[OF refl, of F "node_ID seed" t True] by (auto simp: Let_def undirectedPath_def split: if_splits)
qed simp

lemma walk_ends: "walk und F x steps y \<Longrightarrow> e \<in> set (map fst steps) \<Longrightarrow>
    e \<in> set (facts_Edges F) \<and> edge_SourceID e \<in> set (x # map snd steps) \<and> edge_TargetID e \<in> set (x # map snd steps)"
proof (induction steps arbitrary: x)
  case (Cons step steps)
  obtain d z where step: "step = (d, z)" by (cases step)
  show ?case
  proof (cases "e = d")
    case True
    then show ?thesis using Cons.prems(1) by (auto simp: step edge_step_def)
  next
    case False
    then have "e \<in> set (map fst steps)" using Cons.prems(2) by (simp add: step)
    then show ?thesis using Cons.IH[of z] Cons.prems(1) by (auto simp: step)
  qed
qed simp

lemma shortest_result_ends:
  assumes "shortest_result und F s t p"
  shows "set (path_Nodes p) \<subseteq> set (facts_Nodes F)" "set (path_Edges p) \<subseteq> set (facts_Edges F)"
    "e \<in> set (path_Edges p) \<Longrightarrow> {edge_SourceID e, edge_TargetID e} \<subseteq> node_ID ` set (path_Nodes p)"
proof -
  obtain steps where st: "walk und F s steps t" "path_Edges p = map fst steps" "map node_ID (path_Nodes p) = s # map snd steps"
    "set (path_Nodes p) \<subseteq> set (facts_Nodes F)" using assms by (auto simp: shortest_result_def)
  have ids: "node_ID ` set (path_Nodes p) = set (s # map snd steps)" using st(3) by (metis list.set_map)
  show "set (path_Nodes p) \<subseteq> set (facts_Nodes F)" by (rule st(4))
  show "set (path_Edges p) \<subseteq> set (facts_Edges F)" using walk_ends[OF st(1)] st(2) by auto
  show "{edge_SourceID e, edge_TargetID e} \<subseteq> node_ID ` set (path_Nodes p)" if "e \<in> set (path_Edges p)"
    using walk_ends[OF st(1)] that unfolding ids st(2) by blast
qed

text \<open>What adding proofs keeps: nodes are filed under their IDs, nodes and edges come from the facts, and
  both ends of an edge are filed or are roots.\<close>

definition proofInv :: "Node set \<Rightarrow> Edge set \<Rightarrow> string set \<Rightarrow> Proofs \<Rightarrow> bool" where
  "proofInv N E R st \<longleftrightarrow> (case st of (nodesByID, keys, edges) \<Rightarrow>
     distinct (map fst nodesByID) \<and> (\<forall>(i, n)\<in>set nodesByID. node_ID n = i \<and> n \<in> N) \<and> set edges \<subseteq> E
     \<and> (\<forall>e\<in>set edges. {edge_SourceID e, edge_TargetID e} \<subseteq> fst ` set nodesByID \<union> R))"

lemma fold_update:
  "\<forall>n\<in>set ns. n \<in> N \<Longrightarrow> distinct (map fst m) \<Longrightarrow> \<forall>(i, n)\<in>set m. node_ID n = i \<and> n \<in> N \<Longrightarrow>
    distinct (map fst (fold (\<lambda>node. AList.update (node_ID node) node) ns m))
    \<and> (\<forall>(i, n)\<in>set (fold (\<lambda>node. AList.update (node_ID node) node) ns m). node_ID n = i \<and> n \<in> N)
    \<and> fst ` set (fold (\<lambda>node. AList.update (node_ID node) node) ns m) = fst ` set m \<union> node_ID ` set ns"
proof (induction ns arbitrary: m)
  case (Cons n ns)
  have "\<forall>(i, k)\<in>set (AList.update (node_ID n) n m). node_ID k = i \<and> k \<in> N"
    using Cons.prems(1,3) set_alist_update[of "node_ID n" n m] by auto
  moreover have "distinct (map fst (AList.update (node_ID n) n m))" using Cons.prems(2) by simp
  ultimately show ?case using Cons.IH[of "AList.update (node_ID n) n m"] Cons.prems(1) by (simp add: alist_update_keys)
qed simp

lemma fold_addProofEdge: "fold addProofEdge es (keys, edges) = (keys', edges') \<Longrightarrow> set edges \<subseteq> set edges' \<and> set edges' \<subseteq> set edges \<union> set es"
proof (induction es arbitrary: keys edges)
  case (Cons e es)
  obtain k1 e1 where one: "addProofEdge e (keys, edges) = (k1, e1)" by (cases "addProofEdge e (keys, edges)")
  then have "set edges \<subseteq> set e1 \<and> set e1 \<subseteq> insert e (set edges)" by (auto simp: addProofEdge_def split: if_splits)
  then show ?case using Cons.IH[of k1 e1] Cons.prems one by auto
qed simp

lemma addProof_inv:
  assumes "proofInv N E R st" "set (facts_Nodes F) \<subseteq> N" "set (facts_Edges F) \<subseteq> E" "node_ID ` set seeds \<subseteq> R"
  shows "proofInv N E R (addProof F seeds n st) \<and> fst ` set (fst st) \<subseteq> fst ` set (fst (addProof F seeds n st))"
proof (cases "firstProof F seeds (node_ID n)")
  case None
  then show ?thesis using assms(1) by (simp add: addProof_def split: prod.splits)
next
  case (Some found)
  obtain m keys edges where st: "st = (m, keys, edges)" by (cases st)
  obtain rootID p where found: "found = (rootID, p)" by (cases found)
  from firstProof_Some[OF Some[unfolded found]] have root: "rootID \<in> R" and p: "shortest_result True F rootID (node_ID n) p"
    using assms(4) by auto
  note ends = shortest_result_ends[OF p]
  let ?ns = "filter (\<lambda>node. node_ID node \<noteq> rootID) (path_Nodes p)"
  define m' where "m' = fold (\<lambda>node. AList.update (node_ID node) node) ?ns m"
  obtain keys' edges' where es: "fold addProofEdge (path_Edges p) (keys, edges) = (keys', edges')"
    by (cases "fold addProofEdge (path_Edges p) (keys, edges)")
  have eq: "addProof F seeds n st = (m', keys', edges')" using Some by (simp add: addProof_def st found es m'_def)
  have inv: "distinct (map fst m)" "\<forall>(i, n)\<in>set m. node_ID n = i \<and> n \<in> N" "set edges \<subseteq> E"
    "\<forall>e\<in>set edges. {edge_SourceID e, edge_TargetID e} \<subseteq> fst ` set m \<union> R"
    using assms(1) by (simp_all add: proofInv_def st)
  have m': "distinct (map fst m')" "\<forall>(i, n)\<in>set m'. node_ID n = i \<and> n \<in> N" "fst ` set m' = fst ` set m \<union> node_ID ` set ?ns"
    using fold_update[of ?ns N m] inv(1,2) ends(1) assms(2) unfolding m'_def by (auto simp: subset_iff)
  have e': "set edges' \<subseteq> set edges \<union> set (path_Edges p)" using fold_addProofEdge[OF es] by blast
  have "{edge_SourceID e, edge_TargetID e} \<subseteq> fst ` set m' \<union> R" if "e \<in> set edges'" for e
  proof (cases "e \<in> set edges")
    case True
    then show ?thesis using inv(4) m'(3) by blast
  next
    case False
    then have "{edge_SourceID e, edge_TargetID e} \<subseteq> node_ID ` set (path_Nodes p)" using that e' ends(3) by blast
    moreover have "node_ID ` set (path_Nodes p) \<subseteq> insert rootID (node_ID ` set ?ns)" by auto
    ultimately show ?thesis using root m'(3) by blast
  qed
  moreover have "set edges' \<subseteq> E" using e' inv(3) ends(2) assms(3) by blast
  ultimately show ?thesis using m' unfolding eq by (simp add: proofInv_def st)
qed

lemma fold_addProof_inv:
  assumes "proofInv N E R st" "set (facts_Nodes F) \<subseteq> N" "set (facts_Edges F) \<subseteq> E" "node_ID ` set seeds \<subseteq> R"
  shows "proofInv N E R (fold (addProof F seeds) ns st) \<and> fst ` set (fst st) \<subseteq> fst ` set (fst (fold (addProof F seeds) ns st))"
  using assms(1)
proof (induction ns arbitrary: st)
  case (Cons n ns)
  note one = addProof_inv[OF Cons.prems assms(2-4), of n]
  then show ?case using Cons.IH[of "addProof F seeds n st"] by simp (meson order.trans)
qed simp


lemma proofsOf_two:
  assumes "set (facts_Nodes (tres_Facts t1)) \<union> set (facts_Nodes (tres_Facts t2)) \<subseteq> N"
    and "set (facts_Edges (tres_Facts t1)) \<union> set (facts_Edges (tres_Facts t2)) \<subseteq> E"
    and "node_ID ` (set (seed_Nodes a) \<union> set (seed_Nodes b)) \<subseteq> R"
    and "distinct (map node_ID common)" "set common \<subseteq> N"
  shows "proofInv N E R (proofsOf [t1, t2] [a, b] common) \<and> node_ID ` set common \<subseteq> fst ` set (fst (proofsOf [t1, t2] [a, b] common))
    \<and> (common = [] \<longrightarrow> fst (proofsOf [t1, t2] [a, b] common) = [])"
proof -
  let ?st = "(map (\<lambda>node. (node_ID node, node)) common, {}, [])"
  have init: "proofInv N E R ?st" using assms(4,5) by (auto simp: proofInv_def comp_def)
  have l: "set (facts_Nodes (tres_Facts t1)) \<subseteq> N" "set (facts_Edges (tres_Facts t1)) \<subseteq> E" "node_ID ` set (seed_Nodes a) \<subseteq> R"
    and r: "set (facts_Nodes (tres_Facts t2)) \<subseteq> N" "set (facts_Edges (tres_Facts t2)) \<subseteq> E" "node_ID ` set (seed_Nodes b) \<subseteq> R"
    using assms(1-3) by auto
  note left = fold_addProof_inv[OF init l, of common]
  note right = fold_addProof_inv[OF left[THEN conjunct1] r, of common]
  have "fst ` set (map (\<lambda>node. (node_ID node, node)) common) = node_ID ` set common" by force
  then show ?thesis using left right by (auto simp: proofsOf_def subset_iff)
qed

text \<open>C15: the common evidence of two entities is exact: the query says that there is none exactly when no node
  traversed from the first is related to a node traversed from the second; otherwise every related
  node of the first is among the facts, the facts are nodes and edges of the two traversals with
  distinct IDs in order, and both ends of every edge are facts or entities the query started from.\<close>

theorem common_evidence_is_exact:
  assumes "executeIntersectionPlan u traverse sn rq plan [a, b] = Inr r" "seed_Nodes a \<noteq> []" "seed_Nodes b \<noteq> []"
    "traverse sn (slotTraversal rq (map node_ID (seed_Nodes a)) (plan_Direction plan) (sharedContractRelations (plan_AllowedRelations plan))) = Inr t1"
    "traverse sn (slotTraversal rq (map node_ID (seed_Nodes b)) (plan_Direction plan) (sharedContractRelations (plan_AllowedRelations plan))) = Inr t2"
  shows "let left = facts_Nodes (tres_Facts t1); right = facts_Nodes (tres_Facts t2); facts = rslt_Facts r in
      (rslt_Warnings r = [noCommonWarning [a, b]] \<longleftrightarrow> \<not> (\<exists>n\<in>set left. \<exists>m\<in>set right. relatedNodes u n m))
    \<and> (\<forall>n\<in>set left. \<forall>m\<in>set right. relatedNodes u n m \<longrightarrow> node_ID n \<in> node_ID ` set (facts_Nodes facts))
    \<and> set (facts_Nodes facts) \<subseteq> set left \<union> set right \<and> sorted (map node_ID (facts_Nodes facts)) \<and> distinct (map node_ID (facts_Nodes facts))
    \<and> set (facts_Edges facts) \<subseteq> set (facts_Edges (tres_Facts t1)) \<union> set (facts_Edges (tres_Facts t2))
    \<and> (\<forall>e\<in>set (facts_Edges facts). {edge_SourceID e, edge_TargetID e}
        \<subseteq> node_ID ` (set (facts_Nodes facts) \<union> set (seed_Nodes a) \<union> set (seed_Nodes b)))"
proof -
  let ?left = "facts_Nodes (tres_Facts t1)" and ?right = "facts_Nodes (tres_Facts t2)"
  let ?N = "set ?left \<union> set ?right" and ?E = "set (facts_Edges (tres_Facts t1)) \<union> set (facts_Edges (tres_Facts t2))"
  let ?R = "node_ID ` (set (seed_Nodes a) \<union> set (seed_Nodes b))"
  define common where "common = commonNodesOf u ?left ?right"
  note exact = commonNodesOf_exact[where u=u and left="?left" and right="?right", folded common_def]
  obtain m keys edges where pr: "proofsOf [t1, t2] [a, b] common = (m, keys, edges)" by (cases "proofsOf [t1, t2] [a, b] common")
  have inv: "distinct (map fst m)" "\<forall>(i, n)\<in>set m. node_ID n = i \<and> n \<in> ?N" "set edges \<subseteq> ?E"
    "\<forall>e\<in>set edges. {edge_SourceID e, edge_TargetID e} \<subseteq> fst ` set m \<union> ?R"
    and common: "node_ID ` set common \<subseteq> fst ` set m" "common = [] \<longrightarrow> m = []"
    using proofsOf_two[of t1 t2 ?N ?E a b ?R common] exact(1,2) unfolding pr by (simp_all add: proofInv_def)
  have found: "intersectionTraversals traverse sn rq plan [a, b] = Inr (Some [t1, t2])"
    using assms(2-5) by simp
  let ?nodes = "sort_key node_ID (map snd m)"
  have facts: "rslt_Facts r = \<lparr>facts_Nodes = ?nodes, facts_Edges = sort_key edgeSortKey edges\<rparr>"
    and warnings: "rslt_Warnings r = (if ?nodes = [] then [noCommonWarning [a, b]] else [])"
    using assms(1) pr unfolding executeIntersectionPlan_def found
    by (auto simp: Let_def common_def[symmetric] resultOf_def split: if_splits)
  have ids: "map node_ID (map snd m) = map fst m" using inv(2) by auto
  have idset: "node_ID ` set ?nodes = fst ` set m" using arg_cong[OF ids, of set] by (simp add: image_image)
  have "distinct (map node_ID ?nodes)"
  proof -
    have "mset (map node_ID ?nodes) = mset (map node_ID (map snd m))" by (simp only: mset_map mset_sort)
    from mset_eq_imp_distinct_iff[OF this] show ?thesis unfolding ids using inv(1) by blast
  qed
  moreover have "?nodes = [] \<longleftrightarrow> \<not> (\<exists>n\<in>set ?left. \<exists>m\<in>set ?right. relatedNodes u n m)"
  proof -
    have "?nodes = [] \<longleftrightarrow> m = []" by (metis length_0_conv length_map length_sort)
    then show ?thesis using exact(4) common by auto
  qed
  moreover have "node_ID n \<in> node_ID ` set ?nodes" if "n \<in> set ?left" "k \<in> set ?right" "relatedNodes u n k" for n k
    using exact(3)[OF that] common(1) unfolding idset by blast
  moreover have "set ?nodes \<subseteq> ?N" using inv(2) by auto
  moreover have "{edge_SourceID e, edge_TargetID e} \<subseteq> node_ID ` (set ?nodes \<union> set (seed_Nodes a) \<union> set (seed_Nodes b))" if "e \<in> set edges" for e
    using inv(4) that unfolding image_Un idset by (simp add: image_Un Un_assoc)
  ultimately show ?thesis unfolding Let_def facts warnings using inv(3) by (simp del: Un_iff)
qed


subsection \<open>Witnesses\<close>

definition parse_plan :: QueryPlan where "parse_plan = AnalyzeQuestion asciiTables asciiFold ''who calls parse?''"

lemma parse_plan_slots: "plan_EntitySlots parse_plan = [entitySlot asciiTables ''callee'' ''parse'']" "plan_Intent parse_plan = IntentCalledBy"
proof -
  have plain: "plainName ''parse''" by (simp add: plainName_def wordRune_def asciiLower_def byte_def)
  have "distinguishesLetters asciiFold"
    by (auto simp: distinguishesLetters_def lowerCase_def asciiFold_def toLowerRune_def asciiLower_def asciiUpper_def)
  from whoCalls_plan[OF plain this, of asciiTables]
  have "parse_plan = rulePlan asciiTables (basePlan asciiTables (whoCalls @ ''parse?'')) (questionRules ! 14) [''parse'']"
    by (simp add: parse_plan_def)
  note plan = this
  show "plan_EntitySlots parse_plan = [entitySlot asciiTables ''callee'' ''parse'']" "plan_Intent parse_plan = IntentCalledBy"
    unfolding plan by (simp_all add: rulePlan_def whoCalls_rule rule_def callKinds_def plainName_clean[OF plain])
qed

definition parse_request :: Request where
  "parse_request = \<lparr>rq_Plan = Some parse_plan, rq_Terms = [], rq_Retrievals = [], rq_SeedRequests = [], rq_ProjectIDs = [],
     rq_Relations = [], rq_MaxDepth = 2, rq_MaxNodes = 100\<rparr>"

lemma parse_request_simps: "rq_Plan parse_request = Some parse_plan" "rq_MaxDepth parse_request = 2" "rq_MaxNodes parse_request = 100"
  by (simp_all add: parse_request_def)

definition noExact :: NodeLookup where "noExact = \<lparr>nl_LookupNodes = (\<lambda>_ _. Inr []), nl_LookupExactNodes = None\<rparr>"

definition someSnapshot :: Snapshot where "someSnapshot = \<lparr>snap_Workspace = ''w'', snap_Version = 1, snap_PublishedAt = 0\<rparr>"

theorem stopped_queries_do_not_traverse_witness:
  "\<exists>r. QuerySnapshot asciiTables asciiFold id (Some noExact) (Some (\<lambda>_ _. Inr [])) (Some (\<lambda>_ _. Inr zeroTraversal)) someSnapshot parse_request = Inr r
    \<and> map warn_Code (rslt_Warnings r) = [''entity_not_found''] \<and> rslt_Facts r = noFacts"
proof -
  let ?run = "QuerySnapshot asciiTables asciiFold id (Some noExact) (Some (\<lambda>_ _. Inr [])) (Some (\<lambda>_ _. Inr zeroTraversal)) someSnapshot parse_request"
  have "querySeeds asciiTables asciiFold noExact (Some (\<lambda>_ _. Inr [])) someSnapshot parse_request
      = Inr [\<lparr>seed_Role = ''callee'', seed_Term = ''parse'', seed_Nodes = [], seed_Rankings = []\<rparr>]"
    by (simp add: querySeeds_def parse_request_simps requireSearcher_def RankSeedRequestsSnapshot_def planSeedRequests_def parse_plan_slots
        rankSeedRequest_def seedCandidates_def lookupExactMatches_def noExact_def entitySlot_def entitySlotWithEntityRole_def Let_def
        fuseRankedSeeds_def diversifyRankedSeeds_def)
  note seeds = this
  let ?seeds = "[\<lparr>seed_Role = ''callee'', seed_Term = ''parse'', seed_Nodes = [], seed_Rankings = []\<rparr>]"
  let ?r = "stoppedPlan parse_plan ?seeds (emptyEntitySlotWarnings id parse_plan ?seeds)"
  obtain w where ws: "emptyEntitySlotWarnings id parse_plan ?seeds = [w]" "warn_Code w = ''entity_not_found''"
    by (simp add: emptyEntitySlotWarnings_def parse_plan_slots)
  have stop: "planStops id parse_plan ?seeds = Some ?r" unfolding planStops_def Let_def by (simp add: ws(1) parse_plan_slots)
  have r: "?run = Inr ?r"
    unfolding QuerySnapshot_def option.case seeds parse_request_simps res_bind.simps bind.bind_lunit stop by simp
  have "rslt_Warnings ?r = [w]" unfolding ws(1) by (simp add: stoppedPlan_def)
  then have w: "w \<in> set (rslt_Warnings ?r)" "map warn_Code (rslt_Warnings ?r) = [''entity_not_found'']" using ws(2) by simp_all
  have "claimsNoOperation w" using ws(2) by (simp add: claimsNoOperation_def)
  from stopped_queries_do_not_traverse[OF r w(1) this] have "rslt_Facts ?r = noFacts" by (rule conjunct2)
  then show ?thesis using r w(2) by (intro exI[of _ ?r] conjI)
qed

theorem questions_fail_only_with_the_store_witness:
  "QuerySnapshot asciiTables asciiFold id (Some noExact) (Some (\<lambda>_ _. Inl ErrWorkspaceNotFound)) (Some (\<lambda>_ _. Inr zeroTraversal)) someSnapshot parse_request
     = Inl (QueryRankError (RankStoreError ErrWorkspaceNotFound))
   \<and> storeFailure (QueryRankError (RankStoreError ErrWorkspaceNotFound))"
proof -
  have "QuerySnapshot asciiTables asciiFold id (Some noExact) (Some (\<lambda>_ _. Inl ErrWorkspaceNotFound)) (Some (\<lambda>_ _. Inr zeroTraversal)) someSnapshot parse_request
     = Inl (QueryRankError (RankStoreError ErrWorkspaceNotFound))"
    by (simp add: QuerySnapshot_def querySeeds_def parse_request_simps requireSearcher_def RankSeedRequestsSnapshot_def planSeedRequests_def parse_plan_slots
        rankSeedRequest_def seedCandidates_def lookupExactMatches_def noExact_def entitySlot_def entitySlotWithEntityRole_def Let_def)
  moreover have "rq_Plan parse_request = Some (AnalyzeQuestion asciiTables asciiFold ''who calls parse?'')" by (simp add: parse_request_simps parse_plan_def)
  moreover have "'''' \<notin> set (map slot_Text (plan_EntitySlots (AnalyzeQuestion asciiTables asciiFold ''who calls parse?'')))"
    using parse_plan_slots(1) by (simp add: parse_plan_def entitySlot_def entitySlotWithEntityRole_def)
  moreover have "0 \<le> rq_MaxDepth parse_request" "0 < rq_MaxNodes parse_request" by (simp_all add: parse_request_simps)
  ultimately show ?thesis using questions_fail_only_with_the_store by blast
qed


definition entity_seed :: "string \<Rightarrow> SeedSet" where
  "entity_seed i = \<lparr>seed_Role = ''entity'', seed_Term = i, seed_Nodes = [sample_node i ''file''], seed_Rankings = []\<rparr>"

definition sampleTraversal :: TraversalResult where "sampleTraversal = zeroTraversal\<lparr>tres_Facts := sample_facts\<rparr>"

lemma entity_seed_path: "pathEndpointCandidates (entity_seed i) = [sample_node i ''file'']"
  by (simp add: pathEndpointCandidates_def entity_seed_def)

theorem path_plan_is_exact_witness:
  "\<exists>r p. executePathPlan (\<lambda>_ _. Inr sampleTraversal) someSnapshot parse_request parse_plan [entity_seed ''a'', entity_seed ''c''] = Inr r
    \<and> shortest_result False sample_facts ''a'' ''c'' p \<and> rslt_Facts r = \<lparr>facts_Nodes = path_Nodes p, facts_Edges = path_Edges p\<rparr>"
proof -
  let ?run = "executePathPlan (\<lambda>_ _. Inr sampleTraversal) someSnapshot parse_request parse_plan [entity_seed ''a'', entity_seed ''c'']"
  have ends: "path_endpoints_present sample_facts ''a'' ''c''" by (simp add: path_endpoints_present_def sample_defs)
  have "walk False sample_facts ''a'' [(sample_edge ''a'' ''c'' ''defines'', ''c'')] ''c''" by (simp add: edge_step_def sample_defs)
  then have ne: "path_Nodes (pathOf (shortestPath sample_facts ''a'' ''c'' False)) \<noteq> []" using pathOf_empty ends by blast
  have id: "node_ID (sample_node i k) = i" for i k by (simp add: sample_node_def)
  have "firstTargetPath sample_facts ''a'' [sample_node ''c'' ''file''] = Some (pathOf (shortestPath sample_facts ''a'' ''c'' False))"
    using ne by (simp add: Let_def directedPath_def id)
  then have search: "firstSourcePath (\<lambda>_ _. Inr sampleTraversal) someSnapshot parse_request relations [sample_node ''c'' ''file''] zeroTraversal
      [sample_node ''a'' ''file''] = Inr (sampleTraversal, pathOf (shortestPath sample_facts ''a'' ''c'' False))" for relations
    by (simp add: sampleTraversal_def id)
  then obtain r where r: "?run = Inr r" "rslt_Facts r = \<lparr>facts_Nodes = path_Nodes (pathOf (shortestPath sample_facts ''a'' ''c'' False)),
      facts_Edges = path_Edges (pathOf (shortestPath sample_facts ''a'' ''c'' False))\<rparr>"
    unfolding executePathPlan_def Let_def by (simp add: entity_seed_path search resultOf_def)
  then have "facts_Nodes (rslt_Facts r) \<noteq> []" using ne by simp
  then obtain p where "shortest_result False sample_facts ''a'' ''c'' p" "rslt_Facts r = \<lparr>facts_Nodes = path_Nodes p, facts_Edges = path_Edges p\<rparr>"
    using path_plan_is_exact[OF r(1), THEN conjunct1] by (auto simp: entity_seed_path id sampleTraversal_def)
  then show ?thesis using r(1) by blast
qed

theorem common_evidence_is_exact_witness:
  "\<exists>r. executeIntersectionPlan asciiTables (\<lambda>_ _. Inr sampleTraversal) someSnapshot parse_request parse_plan [entity_seed ''a'', entity_seed ''c''] = Inr r
    \<and> {''a'', ''b'', ''c''} \<subseteq> node_ID ` set (facts_Nodes (rslt_Facts r))"
proof -
  let ?run = "executeIntersectionPlan asciiTables (\<lambda>_ _. Inr sampleTraversal) someSnapshot parse_request parse_plan [entity_seed ''a'', entity_seed ''c'']"
  have seeds: "seed_Nodes (entity_seed i) \<noteq> []" for i by (simp add: entity_seed_def)
  have "\<exists>r. ?run = Inr r" using seeds by (simp add: executeIntersectionPlan_def Let_def split: prod.split)
  then obtain r where r: "?run = Inr r" by blast
  from common_evidence_is_exact[OF r seeds seeds refl refl]
  have all: "\<forall>n\<in>set (facts_Nodes sample_facts). \<forall>m\<in>set (facts_Nodes sample_facts). relatedNodes asciiTables n m
      \<longrightarrow> node_ID n \<in> node_ID ` set (facts_Nodes (rslt_Facts r))"
    by (simp add: Let_def sampleTraversal_def)
  have "node_ID n \<in> node_ID ` set (facts_Nodes (rslt_Facts r))" if "n \<in> set (facts_Nodes sample_facts)" for n
  proof -
    have "relatedNodes asciiTables n n" by (simp add: relatedNodes_def)
    then show ?thesis using all that by blast
  qed
  from this[of "sample_node ''a'' ''file''"] this[of "sample_node ''b'' ''go:function''"] this[of "sample_node ''c'' ''go:function''"]
  have "{''a'', ''b'', ''c''} \<subseteq> node_ID ` set (facts_Nodes (rslt_Facts r))" by (simp add: sample_defs)
  then show ?thesis using r by blast
qed

end
