(* ===== verification/Spending.thy ===== *)
theory Spending
  imports Storage Contribution
begin

text \<open>
  Spending limits (ReserveSpend and SettleSpend of storage/sqlite/sqlite.go, internal/spending/config.go).
  A reservation is a row of spending_reservations with the time of its grant as text; the usage of a day, a week
  from Monday or a month is the sum of the rows whose text is not below the text of its start.  Times are in UTC as
  civil dates; they are written in the layout RFC3339Nano, which drops a fraction of zero and trailing zeros of any
  other.  Amounts are rationals, the values of finite 64-bit floats; how SQLite sums them and how a difference is
  rounded are parameters, and the infinity that stands for no maximum is None.
\<close>

subsection \<open>Times\<close>

record Time =
  tm_Year :: nat
  tm_Month :: nat
  tm_Day :: nat
  tm_Hour :: nat
  tm_Minute :: nat
  tm_Second :: nat
  tm_Nanosecond :: nat

definition isLeap :: "nat \<Rightarrow> bool" where
  "isLeap year \<longleftrightarrow> year mod 4 = 0 \<and> (year mod 100 \<noteq> 0 \<or> year mod 400 = 0)"

definition daysIn :: "nat \<Rightarrow> nat \<Rightarrow> nat" where
  "daysIn year month = (if month = 2 then if isLeap year then 29 else 28 else if month \<in> {4, 6, 9, 11} then 30 else 31)"

fun daysBefore :: "nat \<Rightarrow> nat \<Rightarrow> nat" where
  "daysBefore year 0 = 0"
| "daysBefore year (Suc 0) = 0"
| "daysBefore year (Suc (Suc month)) = daysBefore year (Suc month) + daysIn year (Suc month)"

text \<open>Days from the start of year 1, counted from 1; day 1 is a Monday.\<close>

definition dayNumber :: "nat \<Rightarrow> nat \<Rightarrow> nat \<Rightarrow> nat" where
  "dayNumber year month day =
     365 * (year - 1) + ((year - 1) div 4 + (year - 1) div 400 - (year - 1) div 100) + daysBefore year month + day"

definition Weekday :: "Time \<Rightarrow> nat" where
  "Weekday t = dayNumber (tm_Year t) (tm_Month t) (tm_Day t) mod 7"

definition validTime :: "Time \<Rightarrow> bool" where
  "validTime t \<longleftrightarrow> 1 \<le> tm_Year t \<and> tm_Year t \<le> 9999 \<and> 1 \<le> tm_Month t \<and> tm_Month t \<le> 12
     \<and> 1 \<le> tm_Day t \<and> tm_Day t \<le> daysIn (tm_Year t) (tm_Month t)
     \<and> tm_Hour t < 24 \<and> tm_Minute t < 60 \<and> tm_Second t < 60 \<and> tm_Nanosecond t < 1000000000"

text \<open>time.Date at midnight, for a day that lies at most one month before the given one.\<close>

definition midnight :: "nat \<Rightarrow> nat \<Rightarrow> nat \<Rightarrow> Time" where
  "midnight year month day = \<lparr>tm_Year = year, tm_Month = month, tm_Day = day, tm_Hour = 0, tm_Minute = 0, tm_Second = 0,
     tm_Nanosecond = 0\<rparr>"

definition daysEarlier :: "nat \<Rightarrow> Time \<Rightarrow> Time" where
  "daysEarlier n t =
    (if n < tm_Day t then midnight (tm_Year t) (tm_Month t) (tm_Day t - n)
     else if tm_Month t = 1 then midnight (tm_Year t - 1) 12 (31 + tm_Day t - n)
     else midnight (tm_Year t) (tm_Month t - 1) (daysIn (tm_Year t) (tm_Month t - 1) + tm_Day t - n))"

datatype Period = Daily | Weekly | Monthly

definition periodStart :: "Period \<Rightarrow> Time \<Rightarrow> Time" where
  "periodStart period now = (case period of
     Daily \<Rightarrow> midnight (tm_Year now) (tm_Month now) (tm_Day now)
   | Weekly \<Rightarrow> daysEarlier ((Weekday now + 6) mod 7) now
   | Monthly \<Rightarrow> midnight (tm_Year now) (tm_Month now) 1)"

text \<open>The layout RFC3339Nano of a time in UTC.\<close>

fun digits :: "nat \<Rightarrow> nat \<Rightarrow> string" where
  "digits 0 n = []"
| "digits (Suc w) n = digits w (n div 10) @ [char_of (48 + n mod 10)]"

definition fraction :: "nat \<Rightarrow> string" where
  "fraction nanos = (if nanos = 0 then '''' else ''.'' @ rev (dropWhile (\<lambda>c. c = CHR ''0'') (rev (digits 9 nanos))))"

definition secondText :: "Time \<Rightarrow> string" where
  "secondText t = digits 4 (tm_Year t) @ ''-'' @ digits 2 (tm_Month t) @ ''-'' @ digits 2 (tm_Day t) @ ''T''
     @ digits 2 (tm_Hour t) @ '':'' @ digits 2 (tm_Minute t) @ '':'' @ digits 2 (tm_Second t)"

definition formatTime :: "Time \<Rightarrow> string" where
  "formatTime t = secondText t @ fraction (tm_Nanosecond t) @ ''Z''"

subsection \<open>Reservations\<close>

record SpendLimits =
  lim_Daily :: float64
  lim_Weekly :: float64
  lim_Monthly :: float64

record SpendReservationRequest =
  srq_Provider :: string
  srq_Unit :: string
  srq_MaximumAmount :: float64
  srq_MinimumAmount :: float64
  srq_Limits :: SpendLimits

record SpendReservation =
  srv_ID :: int
  srv_Amount :: float64

record ReservationRow =
  row_reservation_id :: int
  row_recorded_at :: string
  row_provider :: string
  row_unit :: string
  row_amount :: float64

definition limitOf :: "SpendLimits \<Rightarrow> Period \<Rightarrow> float64" where
  "limitOf limits period = (case period of Daily \<Rightarrow> lim_Daily limits | Weekly \<Rightarrow> lim_Weekly limits | Monthly \<Rightarrow> lim_Monthly limits)"

definition validReservationRequest :: "SpendReservationRequest \<Rightarrow> bool" where
  "validReservationRequest request \<longleftrightarrow> srq_Provider request \<noteq> '''' \<and> srq_Unit request \<noteq> ''''
     \<and> \<not> srq_MaximumAmount request < 0 \<and> \<not> srq_MinimumAmount request < 0
     \<and> \<not> (srq_MaximumAmount request > 0 \<and> srq_MinimumAmount request > srq_MaximumAmount request)
     \<and> \<not> lim_Daily (srq_Limits request) < 0 \<and> \<not> lim_Weekly (srq_Limits request) < 0 \<and> \<not> lim_Monthly (srq_Limits request) < 0"

record SpendArithmetic =
  sum64 :: "float64 list \<Rightarrow> float64"
  minus64 :: "float64 \<Rightarrow> float64 \<Rightarrow> float64"

definition countedAmounts :: "ReservationRow list \<Rightarrow> string \<Rightarrow> string \<Rightarrow> Time \<Rightarrow> float64 list" where
  "countedAmounts rows provider unit start =
     map row_amount (filter (\<lambda>r. row_provider r = provider \<and> row_unit r = unit \<and> formatTime start \<le> row_recorded_at r) rows)"

definition usedSince :: "SpendArithmetic \<Rightarrow> ReservationRow list \<Rightarrow> string \<Rightarrow> string \<Rightarrow> Time \<Rightarrow> float64" where
  "usedSince arith rows provider unit start = sum64 arith (countedAmounts rows provider unit start)"

text \<open>The smaller of an amount, None being infinite, and what a limit leaves.\<close>

definition capAmount :: "float64 option \<Rightarrow> float64 \<Rightarrow> float64" where
  "capAmount amount left = (case amount of None \<Rightarrow> left | Some a \<Rightarrow> min a left)"

definition limitedAmount :: "SpendArithmetic \<Rightarrow> Time \<Rightarrow> SpendReservationRequest \<Rightarrow> ReservationRow list \<Rightarrow> float64 option" where
  "limitedAmount arith now request rows = fold (\<lambda>period amount.
       if limitOf (srq_Limits request) period = 0 then amount
       else Some (capAmount amount (minus64 arith (limitOf (srq_Limits request) period)
         (usedSince arith rows (srq_Provider request) (srq_Unit request) (periodStart period now)))))
     [Daily, Weekly, Monthly] (if srq_MaximumAmount request = 0 then None else Some (srq_MaximumAmount request))"

definition nextReservationID :: "ReservationRow list \<Rightarrow> int" where
  "nextReservationID rows = (if rows = [] then 1 else Max (row_reservation_id ` set rows) + 1)"

definition ReserveSpend :: "SpendArithmetic \<Rightarrow> Time \<Rightarrow> SpendReservationRequest \<Rightarrow> ReservationRow list \<Rightarrow> StoreError + SpendReservation \<times> ReservationRow list" where
  "ReserveSpend arith now request rows =
    (if \<not> validReservationRequest request then Inl ErrInvalidRequest
     else if lim_Daily (srq_Limits request) = 0 \<and> lim_Weekly (srq_Limits request) = 0 \<and> lim_Monthly (srq_Limits request) = 0
     then Inr (\<lparr>srv_ID = 0, srv_Amount = srq_MaximumAmount request\<rparr>, rows)
     else case limitedAmount arith now request rows of
       None \<Rightarrow> Inl ErrSpendLimitExceeded
     | Some amount \<Rightarrow>
         if amount < srq_MinimumAmount request \<or> amount \<le> 0 then Inl ErrSpendLimitExceeded
         else let i = nextReservationID rows in
           Inr (\<lparr>srv_ID = i, srv_Amount = amount\<rparr>, rows @ [\<lparr>row_reservation_id = i, row_recorded_at = formatTime now,
             row_provider = srq_Provider request, row_unit = srq_Unit request, row_amount = amount\<rparr>]))"

definition SettleSpend :: "int \<Rightarrow> float64 \<Rightarrow> ReservationRow list \<Rightarrow> StoreError + ReservationRow list" where
  "SettleSpend reservationID exactAmount rows =
    (if reservationID \<le> 0 \<or> exactAmount < 0 then Inl ErrInvalidRequest
     else let settled = (\<lambda>r. row_reservation_id r = reservationID \<and> row_amount r \<ge> exactAmount) in
       if length (filter settled rows) \<noteq> 1 then Inl ErrInvalidRequest
       else Inr (map (\<lambda>r. if settled r then r\<lparr>row_amount := exactAmount\<rparr> else r) rows))"

subsection \<open>The order of formatted times\<close>

lemma append_less:
  "length p = length (q :: 'a :: linorder list) \<Longrightarrow> p @ a < q @ b \<longleftrightarrow> p < q \<or> p = q \<and> a < b"
  by (induction p q rule: list_induct2) auto

lemma append_le:
  "length p = length (q :: 'a :: linorder list) \<Longrightarrow> p @ a \<le> q @ b \<longleftrightarrow> p < q \<or> p = q \<and> a \<le> b"
  by (induction p q rule: list_induct2) auto

lemma length_digits [simp]: "length (digits w n) = w"
  by (induction w arbitrary: n) simp_all

lemma digit_less: "a < 10 \<Longrightarrow> b < 10 \<Longrightarrow> (char_of (48 + a) :: char) < char_of (48 + b) \<longleftrightarrow> a < (b :: nat)"
  by (simp add: less_char_def)

lemma digit_eq: "a < 10 \<Longrightarrow> b < 10 \<Longrightarrow> (char_of (48 + a) :: char) = char_of (48 + b) \<longleftrightarrow> a = (b :: nat)"
  using digit_less[of a b] digit_less[of b a] by (metis less_irrefl linorder_neqE_nat)

lemma digits_order:
  "n < 10 ^ w \<Longrightarrow> m < 10 ^ w \<Longrightarrow> (digits w n < digits w m \<longleftrightarrow> n < m) \<and> (digits w n = digits w m \<longleftrightarrow> n = m)"
proof (induction w arbitrary: n m)
  case (Suc w)
  have bounds: "n div 10 < 10 ^ w" "m div 10 < 10 ^ w" using Suc.prems by (auto simp: less_mult_imp_div_less mult.commute)
  have split: "n < m \<longleftrightarrow> n div 10 < m div 10 \<or> n div 10 = m div 10 \<and> n mod 10 < m mod 10"
    using div_mult_mod_eq[of n 10] div_mult_mod_eq[of m 10] mod_less_divisor[of 10 n] mod_less_divisor[of 10 m] by linarith
  have eq: "n = m \<longleftrightarrow> n div 10 = m div 10 \<and> n mod 10 = m mod 10" by (metis div_mult_mod_eq)
  show ?case
    unfolding split eq digits.simps by (simp add: append_less Suc.IH[OF bounds] digit_less digit_eq)
qed simp

text \<open>The fields of a time down to the second, in the order of their weight.\<close>

definition secondKey :: "Time \<Rightarrow> nat list" where
  "secondKey t = [tm_Year t, tm_Month t, tm_Day t, tm_Hour t, tm_Minute t, tm_Second t]"

definition encodable :: "Time \<Rightarrow> bool" where
  "encodable t \<longleftrightarrow> tm_Year t < 10 ^ 4 \<and> tm_Month t < 10 ^ 2 \<and> tm_Day t < 10 ^ 2 \<and> tm_Hour t < 10 ^ 2 \<and> tm_Minute t < 10 ^ 2
     \<and> tm_Second t < 10 ^ 2"

lemma daysIn_le: "daysIn year month \<le> 31"
  by (simp add: daysIn_def)

lemma validTime_encodable: "validTime t \<Longrightarrow> encodable t"
  using daysIn_le[of "tm_Year t" "tm_Month t"] by (simp add: validTime_def encodable_def)

lemma secondText_less:
  assumes "encodable s" "encodable t"
  shows "secondText s < secondText t \<longleftrightarrow> secondKey s < secondKey t"
    and "secondText s = secondText t \<longleftrightarrow> secondKey s = secondKey t"
  using assms digits_order unfolding encodable_def secondText_def secondKey_def
  by (simp_all only: append_less append_eq_append_conv length_digits) (simp_all add: digits_order)

lemma length_secondText [simp]: "length (secondText t) = 19"
  by (simp add: secondText_def)

lemma fraction_le: "''Z'' \<le> fraction nanos @ ''Z'' \<longleftrightarrow> nanos = 0"
  by (simp add: fraction_def less_eq_char_def less_char_def)

text \<open>The text of a start of a period, which lies at a full second, is not above the text of a time exactly when
  the time is not earlier and is not a fraction of a second after the start itself.  A reservation granted in
  the first second of a period, but not at its very start, is therefore never counted.\<close>

theorem usage_misses_the_first_second:
  assumes "validTime start" "tm_Nanosecond start = 0" "validTime t"
  shows "formatTime start \<le> formatTime t
    \<longleftrightarrow> secondKey start < secondKey t \<or> secondKey start = secondKey t \<and> tm_Nanosecond t = 0"
proof -
  have "fraction (tm_Nanosecond start) = ''''" using assms(2) by (simp add: fraction_def)
  then show ?thesis
    using secondText_less[OF assms(1,3)[THEN validTime_encodable]] fraction_le[of "tm_Nanosecond t"]
    unfolding formatTime_def by (simp add: append_le)
qed

theorem usage_misses_the_first_second_witness:
  "formatTime (midnight 2024 3 4) \<le> formatTime (midnight 2024 3 4)
    \<and> \<not> formatTime (midnight 2024 3 4) \<le> formatTime ((midnight 2024 3 4)\<lparr>tm_Nanosecond := 500000000\<rparr>)"
proof -
  have valid: "validTime (midnight 2024 3 4)" "validTime ((midnight 2024 3 4)\<lparr>tm_Nanosecond := 500000000\<rparr>)"
    by (simp_all add: validTime_def midnight_def daysIn_def)
  show ?thesis
    using usage_misses_the_first_second[OF valid(1) _ valid(1)] usage_misses_the_first_second[OF valid(1) _ valid(2)]
    by (simp add: midnight_def secondKey_def)
qed

subsection \<open>The calendar\<close>

lemma daysIn_pos: "28 \<le> daysIn year month"
  by (simp add: daysIn_def)

lemma daysBefore_next: "1 \<le> m \<Longrightarrow> daysBefore year (Suc m) = daysBefore year m + daysIn year m"
  by (cases m) simp_all

lemma daysBefore_mono: "1 \<le> m \<Longrightarrow> m < m' \<Longrightarrow> daysBefore year m + daysIn year m \<le> daysBefore year m'"
proof (induction m')
  case (Suc k)
  show ?case
  proof (cases "m = k")
    case True
    then show ?thesis using Suc.prems daysBefore_next[of k year] by simp
  next
    case False
    then have "daysBefore year m + daysIn year m \<le> daysBefore year k" using Suc by simp
    then show ?thesis using Suc.prems daysBefore_next[of k year] by simp
  qed
qed simp

lemma yearLength: "daysBefore year 12 + 31 = (if isLeap year then 366 else 365)"
  by (simp add: numeral_eq_Suc daysIn_def)

definition daysBeforeYear :: "nat \<Rightarrow> nat" where
  "daysBeforeYear year = 365 * (year - 1) + ((year - 1) div 4 + (year - 1) div 400 - (year - 1) div 100)"

lemma daysBeforeYear_next:
  assumes "1 \<le> year"
  shows "daysBeforeYear (Suc year) = daysBeforeYear year + (if isLeap year then 366 else 365)"
proof -
  obtain n where n: "year = Suc n" using assms by (cases year) simp_all
  have small: "n div 100 \<le> n div 4" "Suc n div 100 \<le> Suc n div 4" by (simp_all add: div_le_mono2)
  have "Suc n mod 400 = 0 \<longrightarrow> Suc n mod 100 = 0" "Suc n mod 100 = 0 \<longrightarrow> Suc n mod 4 = 0"
    by (simp_all add: mod_eq_0_iff_dvd) (auto elim: dvd_trans[rotated])
  note divides = this
  have step: "Suc n div 4 = n div 4 + (if Suc n mod 4 = 0 then 1 else 0)" "Suc n div 100 = n div 100 + (if Suc n mod 100 = 0 then 1 else 0)"
    "Suc n div 400 = n div 400 + (if Suc n mod 400 = 0 then 1 else 0)" by (simp_all only: div_Suc split: if_split) simp_all
  have grow: "a + x + (b + y) - (c + z) = (a + b - c) + (x + y - z)" if "c \<le> a" "z \<le> x + y" for a b c x y z :: nat using that by simp
  have "(Suc n div 4 + Suc n div 400 - Suc n div 100) = (n div 4 + n div 400 - n div 100) + (if isLeap year then 1 else 0)"
    unfolding step n isLeap_def by (subst grow[OF small(1)]) (use divides in auto)
  moreover obtain x where "n div 4 + n div 400 - n div 100 = x" by blast
  moreover have "daysBeforeYear (Suc year) = 365 * Suc n + (Suc n div 4 + Suc n div 400 - Suc n div 100)"
    "daysBeforeYear year = 365 * n + (n div 4 + n div 400 - n div 100)" by (simp_all only: daysBeforeYear_def n diff_Suc_1)
  ultimately show ?thesis by simp
qed

lemma daysBeforeYear_mono: "1 \<le> y \<Longrightarrow> y < y' \<Longrightarrow> daysBeforeYear y + (if isLeap y then 366 else 365) \<le> daysBeforeYear y'"
proof (induction y')
  case (Suc k)
  show ?case
  proof (cases "y = k")
    case True
    then show ?thesis using Suc.prems by (simp add: daysBeforeYear_next)
  next
    case False
    then have "daysBeforeYear y + (if isLeap y then 366 else 365) \<le> daysBeforeYear k" using Suc by simp
    then show ?thesis using Suc.prems by (simp add: daysBeforeYear_next)
  qed
qed simp

lemma dayNumber_year: "dayNumber year month day = daysBeforeYear year + daysBefore year month + day"
  by (simp add: dayNumber_def daysBeforeYear_def)

definition validDate :: "nat \<Rightarrow> nat \<Rightarrow> nat \<Rightarrow> bool" where
  "validDate year month day \<longleftrightarrow> 1 \<le> year \<and> 1 \<le> month \<and> month \<le> 12 \<and> 1 \<le> day \<and> day \<le> daysIn year month"

lemma daysBefore_year: "1 \<le> month \<Longrightarrow> month \<le> 12 \<Longrightarrow> daysBefore year month + daysIn year month \<le> (if isLeap year then 366 else 365)"
  using daysBefore_mono[of month 12 year] yearLength[of year] by (cases "month = 12") (auto simp: daysIn_def)

lemma dayNumber_less:
  assumes "validDate y m d" "validDate y' m' d'" "[y, m, d] < [y', m', d']"
  shows "dayNumber y m d < dayNumber y' m' d'"
proof -
  consider "y < y'" | "y = y'" "m < m'" | "y = y'" "m = m'" "d < d'" using assms(3) by auto
  then show ?thesis
  proof cases
    case 1
    then show ?thesis using assms(1,2) daysBeforeYear_mono[of y y'] daysBefore_year[of m y]
      unfolding dayNumber_year validDate_def by linarith
  next
    case 2
    then show ?thesis using assms(1,2) daysBefore_mono[of m m' y] unfolding dayNumber_year validDate_def by simp
  qed (simp add: dayNumber_year)
qed

lemma dayNumber_order:
  assumes "validDate y m d" "validDate y' m' d'"
  shows "[y, m, d] \<le> [y', m', d'] \<longleftrightarrow> dayNumber y m d \<le> dayNumber y' m' d'"
proof
  assume "dayNumber y m d \<le> dayNumber y' m' d'"
  then have "\<not> [y', m', d'] < [y, m, d]" using dayNumber_less[OF assms(2,1)] by linarith
  then show "[y, m, d] \<le> [y', m', d']" by (simp only: not_less)
next
  assume "[y, m, d] \<le> [y', m', d']"
  then consider "[y, m, d] < [y', m', d']" | "[y, m, d] = [y', m', d']" by (auto simp only: le_less)
  then show "dayNumber y m d \<le> dayNumber y' m' d'" using dayNumber_less[OF assms] by cases auto
qed

lemma daysEarlier_date:
  assumes "validDate (tm_Year t) (tm_Month t) (tm_Day t)" "n < 28" "n < dayNumber (tm_Year t) (tm_Month t) (tm_Day t)"
  shows "\<exists>y m d. daysEarlier n t = midnight y m d \<and> validDate y m d \<and> dayNumber y m d + n = dayNumber (tm_Year t) (tm_Month t) (tm_Day t)"
proof -
  consider "n < tm_Day t" | "tm_Day t \<le> n" "tm_Month t = 1" | "tm_Day t \<le> n" "tm_Month t \<noteq> 1" by linarith
  then show ?thesis
  proof cases
    case 1
    then show ?thesis using assms(1)
      by (intro exI[of _ "tm_Year t"] exI[of _ "tm_Month t"] exI[of _ "tm_Day t - n"]) (auto simp: daysEarlier_def validDate_def dayNumber_year)
  next
    case 2
    have year: "2 \<le> tm_Year t"
    proof (rule ccontr)
      assume "\<not> 2 \<le> tm_Year t"
      then have "tm_Year t = 1" using assms(1) by (simp add: validDate_def)
      then show False using 2 assms(3) by (simp add: dayNumber_def)
    qed
    then obtain y where y: "tm_Year t = Suc y" "1 \<le> y" by (cases "tm_Year t") auto
    have "daysBeforeYear (Suc y) = daysBeforeYear y + daysBefore y 12 + 31" using daysBeforeYear_next[OF y(2)] yearLength[of y] by simp
    then show ?thesis using 2 assms y
      by (intro exI[of _ y] exI[of _ 12] exI[of _ "31 + tm_Day t - n"]) (auto simp: daysEarlier_def validDate_def dayNumber_year daysIn_def[of y 12])
  next
    case 3
    then obtain m where m: "tm_Month t = Suc m" "1 \<le> m" using assms(1) by (cases "tm_Month t") (auto simp: validDate_def)
    have "n < daysIn (tm_Year t) m" using assms(2) daysIn_pos[of "tm_Year t" m] by linarith
    then show ?thesis using 3 assms m daysBefore_next[OF m(2), of "tm_Year t"]
      by (intro exI[of _ "tm_Year t"] exI[of _ m] exI[of _ "daysIn (tm_Year t) m + tm_Day t - n"])
        (auto simp: daysEarlier_def validDate_def dayNumber_year)
  qed
qed

text \<open>Every period starts at a midnight, at most at the given time, and later times have later starts.\<close>

definition dayOf :: "Time \<Rightarrow> nat" where
  "dayOf t = dayNumber (tm_Year t) (tm_Month t) (tm_Day t)"

lemma midnight_simps [simp]:
  "tm_Year (midnight y m d) = y" "tm_Month (midnight y m d) = m" "tm_Day (midnight y m d) = d" "tm_Nanosecond (midnight y m d) = 0"
  "tm_Hour (midnight y m d) = 0" "tm_Minute (midnight y m d) = 0" "tm_Second (midnight y m d) = 0"
  by (simp_all add: midnight_def)

lemma dayOf_pos: "validTime t \<Longrightarrow> 1 \<le> dayOf t"
  by (simp add: validTime_def dayOf_def dayNumber_year)

lemma validTime_date: "validTime t \<Longrightarrow> validDate (tm_Year t) (tm_Month t) (tm_Day t)"
  by (simp add: validTime_def validDate_def)

lemma first_of_month: "validTime t \<Longrightarrow> validDate (tm_Year t) (tm_Month t) 1"
  using daysIn_pos[of "tm_Year t" "tm_Month t"] by (simp add: validTime_def validDate_def)

lemma week_start: "1 \<le> n \<Longrightarrow> n - (n mod 7 + 6) mod 7 = 7 * ((n - 1) div 7) + 1" "1 \<le> n \<Longrightarrow> (n mod 7 + 6) mod 7 < n"
  for n :: nat
proof -
  assume n: "1 \<le> n"
  have "(n mod 7 + 6) mod 7 = (n - 1) mod 7" using n by (cases n) (simp_all add: mod_simps)
  then show "n - (n mod 7 + 6) mod 7 = 7 * ((n - 1) div 7) + 1" "(n mod 7 + 6) mod 7 < n"
    using n div_mult_mod_eq[of "n - 1" 7] mod_less_eq_dividend[of "n - 1" 7] by linarith+
qed

lemma week_mono: "1 \<le> n \<Longrightarrow> n \<le> k \<Longrightarrow> n - (n mod 7 + 6) mod 7 \<le> k - (k mod 7 + 6) mod 7"
  for n :: nat using div_le_mono[of "n - 1" "k - 1" 7] by (simp only: week_start) linarith

definition startDay :: "Period \<Rightarrow> Time \<Rightarrow> nat" where
  "startDay period t = (case period of Daily \<Rightarrow> dayOf t | Weekly \<Rightarrow> dayOf t - (dayOf t mod 7 + 6) mod 7
     | Monthly \<Rightarrow> dayNumber (tm_Year t) (tm_Month t) 1)"

lemma periodStart_day:
  assumes "validTime t"
  shows "\<exists>y m d. periodStart period t = midnight y m d \<and> validDate y m d \<and> dayNumber y m d = startDay period t"
proof (cases period)
  case Weekly
  have "(dayOf t mod 7 + 6) mod 7 < dayOf t" using week_start(2) dayOf_pos[OF assms] by blast
  moreover have "(dayOf t mod 7 + 6) mod 7 < 28" using mod_less_divisor[of 7 "dayOf t mod 7 + 6"] by linarith
  ultimately obtain y m d where "daysEarlier ((dayOf t mod 7 + 6) mod 7) t = midnight y m d" "validDate y m d"
    "dayNumber y m d + (dayOf t mod 7 + 6) mod 7 = dayOf t"
    using daysEarlier_date[OF validTime_date[OF assms]] unfolding dayOf_def by blast
  moreover from this have "dayNumber y m d = dayOf t - (dayOf t mod 7 + 6) mod 7" by simp
  ultimately show ?thesis unfolding Weekly periodStart_def Weekday_def dayOf_def[symmetric] startDay_def by auto
next
  case Monthly
  then show ?thesis using first_of_month[OF assms] unfolding periodStart_def startDay_def by auto
qed (use validTime_date[OF assms] in \<open>auto simp: periodStart_def startDay_def dayOf_def\<close>)

lemma startDay_le: "validTime t \<Longrightarrow> startDay period t \<le> dayOf t"
  by (cases period) (simp_all add: startDay_def dayOf_def dayNumber_year validTime_def)

text \<open>The order of times.\<close>

definition notAfter :: "Time \<Rightarrow> Time \<Rightarrow> bool" where
  "notAfter s t \<longleftrightarrow> secondKey s < secondKey t \<or> secondKey s = secondKey t \<and> tm_Nanosecond s \<le> tm_Nanosecond t"

lemma notAfter_trans: "notAfter s t \<Longrightarrow> notAfter t u \<Longrightarrow> notAfter s u"
  unfolding notAfter_def by (metis less_trans order_trans)

lemma notAfter_date: "notAfter s t \<Longrightarrow> [tm_Year s, tm_Month s, tm_Day s] \<le> [tm_Year t, tm_Month t, tm_Day t]"
  by (auto simp: notAfter_def secondKey_def)

lemma notAfter_day: "validTime s \<Longrightarrow> validTime t \<Longrightarrow> notAfter s t \<Longrightarrow> dayOf s \<le> dayOf t"
  unfolding dayOf_def using dayNumber_order[OF validTime_date validTime_date] notAfter_date by blast

lemma startDay_mono: "validTime s \<Longrightarrow> validTime t \<Longrightarrow> notAfter s t \<Longrightarrow> startDay period s \<le> startDay period t"
proof (cases period)
  case Weekly
  assume "validTime s" "validTime t" "notAfter s t"
  then show ?thesis using week_mono[OF dayOf_pos notAfter_day] by (simp add: startDay_def Weekly)
next
  case Monthly
  assume v: "validTime s" "validTime t" "notAfter s t"
  then have "[tm_Year s, tm_Month s, 1] \<le> [tm_Year t, tm_Month t, 1]" using notAfter_date[OF v(3)] by auto
  then have "dayNumber (tm_Year s) (tm_Month s) 1 \<le> dayNumber (tm_Year t) (tm_Month t) 1"
    using dayNumber_order[OF first_of_month first_of_month] v(1,2) by blast
  then show ?thesis by (simp add: startDay_def Monthly)
qed (simp add: startDay_def notAfter_day)

lemma midnight_order:
  assumes "validDate y m d" "validDate y' m' d'" "dayNumber y m d \<le> dayNumber y' m' d'"
  shows "secondKey (midnight y m d) \<le> secondKey (midnight y' m' d')"
proof -
  have "[y, m, d] \<le> [y', m', d']" using assms dayNumber_order by blast
  then show ?thesis by (auto simp: secondKey_def)
qed

lemma midnight_encodable: "validDate y m d \<Longrightarrow> y \<le> 9999 \<Longrightarrow> encodable (midnight y m d)"
  using daysIn_le[of y m] by (simp add: validDate_def encodable_def)

lemma periodStart_year:
  assumes "validTime t" "periodStart period t = midnight y m d" "validDate y m d" "dayNumber y m d = startDay period t"
  shows "encodable (midnight y m d)"
proof (rule midnight_encodable[OF assms(3)])
  have "dayNumber y m d \<le> dayOf t" using startDay_le[OF assms(1)] assms(4) by simp
  then have "[y, m, d] \<le> [tm_Year t, tm_Month t, tm_Day t]"
    using dayNumber_order[OF assms(3) validTime_date[OF assms(1)]] by (simp only: dayOf_def)
  then have "y \<le> tm_Year t" by auto
  then show "y \<le> 9999" using assms(1) by (simp add: validTime_def)
qed

lemma start_text_mono:
  assumes "validTime s" "validTime t" "notAfter s t"
  shows "formatTime (periodStart period s) \<le> formatTime (periodStart period t)"
proof -
  obtain y m d where s: "periodStart period s = midnight y m d" "validDate y m d" "dayNumber y m d = startDay period s"
    using periodStart_day[OF assms(1)] by blast
  obtain y' m' d' where t: "periodStart period t = midnight y' m' d'" "validDate y' m' d'" "dayNumber y' m' d' = startDay period t"
    using periodStart_day[OF assms(2)] by blast
  have "secondKey (midnight y m d) \<le> secondKey (midnight y' m' d')"
    by (rule midnight_order[OF s(2) t(2)]) (simp add: s(3) t(3) startDay_mono[OF assms])
  then have "secondText (midnight y m d) \<le> secondText (midnight y' m' d')"
    using secondText_less[OF periodStart_year[OF assms(1) s] periodStart_year[OF assms(2) t]] by (auto simp only: le_less)
  moreover have "fraction (tm_Nanosecond (midnight y m d)) = fraction (tm_Nanosecond (midnight y' m' d'))" by simp
  ultimately show ?thesis unfolding s(1) t(1) formatTime_def by (simp add: append_le) (simp add: le_less)
qed

subsection \<open>The limits hold up to the rounding\<close>

text \<open>The exact sum of what SQL sums up.\<close>

definition countedUsage :: "ReservationRow list \<Rightarrow> string \<Rightarrow> string \<Rightarrow> Time \<Rightarrow> float64" where
  "countedUsage rows provider unit start = sum_list (countedAmounts rows provider unit start)"

text \<open>Sums of at most n amounts and differences have at most the relative error e.\<close>

definition accurate :: "nat \<Rightarrow> float64 \<Rightarrow> SpendArithmetic \<Rightarrow> bool" where
  "accurate n e arith \<longleftrightarrow> 0 \<le> e \<and> e < 1
     \<and> (\<forall>xs. length xs \<le> n \<and> (\<forall>x\<in>set xs. 0 \<le> x) \<longrightarrow> \<bar>sum64 arith xs - sum_list xs\<bar> \<le> e * sum_list xs)
     \<and> (\<forall>x y. \<bar>minus64 arith x y - (x - y)\<bar> \<le> e * \<bar>x - y\<bar>)"

lemma countedUsage_sum: "countedUsage rows provider unit start =
    (\<Sum>r\<leftarrow>rows. if row_provider r = provider \<and> row_unit r = unit \<and> formatTime start \<le> row_recorded_at r then row_amount r else 0)"
  by (simp add: countedUsage_def countedAmounts_def sum_list_map_filter')

lemma countedUsage_mono:
  assumes "formatTime start \<le> formatTime start'" "\<And>r. r \<in> set rows \<Longrightarrow> 0 \<le> row_amount r"
  shows "countedUsage rows provider unit start' \<le> countedUsage rows provider unit start"
  unfolding countedUsage_sum
proof (rule sum_list_mono)
  fix r assume "r \<in> set rows"
  then show "(if row_provider r = provider \<and> row_unit r = unit \<and> formatTime start' \<le> row_recorded_at r then row_amount r else 0)
      \<le> (if row_provider r = provider \<and> row_unit r = unit \<and> formatTime start \<le> row_recorded_at r then row_amount r else 0)"
    using assms order_trans[OF assms(1)] by simp
qed

lemma countedUsage_append: "countedUsage (rows @ new) provider unit start = countedUsage rows provider unit start + countedUsage new provider unit start"
  by (simp add: countedUsage_def countedAmounts_def)

lemma limitedAmount_bound:
  assumes "limitedAmount arith now request rows = Some amount" "limitOf (srq_Limits request) period \<noteq> 0"
  shows "amount \<le> minus64 arith (limitOf (srq_Limits request) period)
    (usedSince arith rows (srq_Provider request) (srq_Unit request) (periodStart period now))"
  using assms by (cases period) (auto simp: limitedAmount_def capAmount_def min_def split: if_splits option.splits)

text \<open>A positive amount granted under a limit keeps the exact sum below it up to the error.\<close>

lemma grant_bound:
  assumes "accurate n e arith" "length xs \<le> n \<and> (\<forall>x\<in>set xs. 0 \<le> x)" "0 < amount" "amount \<le> minus64 arith limit (sum64 arith xs)"
  shows "(1 - e) * (sum_list xs + amount) \<le> limit"
proof -
  let ?S = "sum_list xs" and ?U = "sum64 arith xs" and ?m = "minus64 arith limit (sum64 arith xs)"
  have e: "0 \<le> e" "e < 1" using assms(1) by (simp_all add: accurate_def)
  have "\<bar>?U - ?S\<bar> \<le> e * ?S" using assms(1,2) unfolding accurate_def by blast
  then have U: "(1 - e) * ?S \<le> ?U" by (simp add: algebra_simps abs_le_iff)
  have m: "\<bar>?m - (limit - ?U)\<bar> \<le> e * \<bar>limit - ?U\<bar>" using assms(1) by (simp add: accurate_def)
  have "?U < limit"
  proof (rule ccontr)
    assume "\<not> ?U < limit"
    then have "?m \<le> (limit - ?U) + e * (?U - limit)" using m by (simp add: abs_le_iff)
    also have "\<dots> = - ((1 - e) * (?U - limit))" by (simp add: algebra_simps)
    also have "\<dots> \<le> 0" using e \<open>\<not> ?U < limit\<close> by (simp add: mult_nonneg_nonneg)
    finally show False using assms(3,4) by simp
  qed
  then have "amount \<le> (1 + e) * (limit - ?U)" using m assms(4) by (simp add: abs_le_iff algebra_simps)
  then have "(1 - e) * amount \<le> (1 - e) * ((1 + e) * (limit - ?U))" using e by (intro mult_left_mono) simp_all
  also have "\<dots> = (1 - e * e) * (limit - ?U)" by (simp add: algebra_simps)
  also have "\<dots> \<le> 1 * (limit - ?U)" using \<open>?U < limit\<close> by (intro mult_right_mono) (simp_all add: mult_nonneg_nonneg e(1))
  finally show ?thesis using U by (simp add: algebra_simps)
qed

text \<open>
  The reservations of a store as time passes.  The limits of a request are those of the configuration when it is made,
  which may change: the requests of one provider and unit carry limits of a given set.
\<close>

inductive spending :: "SpendArithmetic \<Rightarrow> string \<Rightarrow> string \<Rightarrow> SpendLimits set \<Rightarrow> Time \<Rightarrow> ReservationRow list \<Rightarrow> bool"
  for arith provider unit allowed where
  created: "validTime t \<Longrightarrow> spending arith provider unit allowed t []"
| waited: "\<lbrakk>spending arith provider unit allowed t rows; validTime t'; notAfter t t'\<rbrakk> \<Longrightarrow> spending arith provider unit allowed t' rows"
| reserved: "\<lbrakk>spending arith provider unit allowed t rows; ReserveSpend arith t request rows = Inr (reservation, rows');
    srq_Provider request = provider \<and> srq_Unit request = unit \<Longrightarrow> srq_Limits request \<in> allowed\<rbrakk> \<Longrightarrow>
    spending arith provider unit allowed t rows'"
| settled: "\<lbrakk>spending arith provider unit allowed t rows; SettleSpend i exactAmount rows = Inr rows'\<rbrakk> \<Longrightarrow>
    spending arith provider unit allowed t rows'"

lemma ReserveSpend_grants:
  assumes "ReserveSpend arith now request rows = Inr (reservation, rows')"
  shows "rows' = rows \<or> (\<exists>amount. limitedAmount arith now request rows = Some amount \<and> 0 < amount
    \<and> rows' = rows @ [\<lparr>row_reservation_id = nextReservationID rows, row_recorded_at = formatTime now,
        row_provider = srq_Provider request, row_unit = srq_Unit request, row_amount = amount\<rparr>])"
  using assms by (auto simp: ReserveSpend_def Let_def split: if_splits option.splits)

lemma reserve_keeps_limit:
  assumes "ReserveSpend arith t request rows = Inr (reservation, rows')" "accurate n e arith" "length rows \<le> n \<and> (\<forall>r\<in>set rows. 0 \<le> row_amount r)"
    and "(1 - e) * countedUsage rows provider unit (periodStart period t) \<le> bound"
    and "srq_Provider request = provider \<and> srq_Unit request = unit \<Longrightarrow>
      0 < limitOf (srq_Limits request) period \<and> limitOf (srq_Limits request) period \<le> bound"
  shows "(1 - e) * countedUsage rows' provider unit (periodStart period t) \<le> bound"
proof (cases "rows' = rows")
  case False
  then obtain amount where amount: "limitedAmount arith t request rows = Some amount" "0 < amount"
    and rows': "rows' = rows @ [\<lparr>row_reservation_id = nextReservationID rows, row_recorded_at = formatTime t,
      row_provider = srq_Provider request, row_unit = srq_Unit request, row_amount = amount\<rparr>]"
    using ReserveSpend_grants[OF assms(1)] by blast
  let ?xs = "countedAmounts rows provider unit (periodStart period t)"
  show ?thesis
  proof (cases "srq_Provider request = provider \<and> srq_Unit request = unit")
    case True
    then have "amount \<le> minus64 arith (limitOf (srq_Limits request) period) (sum64 arith ?xs)"
      using limitedAmount_bound[OF amount(1), of period] assms(5) by (simp add: usedSince_def)
    moreover have "length ?xs \<le> n \<and> (\<forall>x\<in>set ?xs. 0 \<le> x)"
      using assms(3) by (auto simp: countedAmounts_def intro: le_trans[OF length_filter_le])
    ultimately have "(1 - e) * (countedUsage rows provider unit (periodStart period t) + amount) \<le> bound"
      using grant_bound[OF assms(2) _ amount(2)] assms(5)[OF True] by (fastforce simp: countedUsage_def)
    moreover have "countedUsage rows' provider unit (periodStart period t) \<le> countedUsage rows provider unit (periodStart period t) + amount"
      using amount(2) by (simp add: rows' countedUsage_append) (simp add: countedUsage_def countedAmounts_def)
    then have "(1 - e) * countedUsage rows' provider unit (periodStart period t)
        \<le> (1 - e) * (countedUsage rows provider unit (periodStart period t) + amount)"
      using assms(2) by (intro mult_left_mono) (simp_all add: accurate_def)
    ultimately show ?thesis by (rule order_trans[rotated])
  next
    case False
    then have "countedUsage rows' provider unit (periodStart period t) = countedUsage rows provider unit (periodStart period t)"
      by (auto simp: rows' countedUsage_append) (auto simp: countedUsage_def countedAmounts_def)
    then show ?thesis using assms(4) by simp
  qed
qed (use assms(4) in simp)

lemma settle_lowers:
  assumes "SettleSpend i exactAmount rows = Inr rows'" "\<forall>r\<in>set rows. 0 \<le> row_amount r"
  shows "(\<forall>r\<in>set rows'. 0 \<le> row_amount r) \<and> (\<forall>provider unit start. countedUsage rows' provider unit start \<le> countedUsage rows provider unit start)"
proof -
  let ?settle = "\<lambda>r. if row_reservation_id r = i \<and> row_amount r \<ge> exactAmount then r\<lparr>row_amount := exactAmount\<rparr> else r"
  have rows': "rows' = map ?settle rows" and exact: "0 \<le> exactAmount"
    using assms(1) by (auto simp: SettleSpend_def Let_def split: if_splits)
  have "countedUsage (map ?settle rows) provider unit start \<le> countedUsage rows provider unit start" for provider unit start
    unfolding countedUsage_sum list.map_comp o_def by (rule sum_list_mono) (use assms(2) in simp)
  then show ?thesis using assms(2) exact unfolding rows' by auto
qed

lemma spending_invariant:
  assumes "spending arith provider unit allowed t rows" "accurate n e arith" "0 \<le> bound"
    and "\<forall>l\<in>allowed. 0 < limitOf l period \<and> limitOf l period \<le> bound" "length rows \<le> n"
  shows "validTime t \<and> (\<forall>r\<in>set rows. 0 \<le> row_amount r) \<and> (1 - e) * countedUsage rows provider unit (periodStart period t) \<le> bound"
  using assms(1,5)
proof (induction rule: spending.induct)
  case (created t)
  then show ?case using assms(3) by (simp add: countedUsage_def countedAmounts_def)
next
  case (waited t rows t')
  then have "countedUsage rows provider unit (periodStart period t') \<le> countedUsage rows provider unit (periodStart period t)"
    using countedUsage_mono[OF start_text_mono] by blast
  then have "(1 - e) * countedUsage rows provider unit (periodStart period t') \<le> (1 - e) * countedUsage rows provider unit (periodStart period t)"
    using assms(2) by (intro mult_left_mono) (simp_all add: accurate_def)
  then show ?case using waited by (meson order_trans)
next
  case (reserved t rows request reservation rows')
  have few: "length rows \<le> n" using ReserveSpend_grants[OF reserved.hyps(2)] reserved.prems by auto
  note IH = reserved.IH[OF few]
  have "(1 - e) * countedUsage rows' provider unit (periodStart period t) \<le> bound"
    using assms(4) IH few reserved.hyps(3) by (intro reserve_keeps_limit[OF reserved.hyps(2) assms(2)]) auto
  moreover have "0 \<le> row_amount r" if "r \<in> set rows'" for r
    using ReserveSpend_grants[OF reserved.hyps(2)] IH that by auto
  ultimately show ?case using IH by blast
next
  case (settled t rows i exactAmount rows')
  have few: "length rows \<le> n" using settled.prems settled.hyps(2) by (auto simp: SettleSpend_def Let_def split: if_splits)
  note IH = settled.IH[OF few] and lower = settle_lowers[OF settled.hyps(2)]
  have "(1 - e) * countedUsage rows' provider unit (periodStart period t) \<le> (1 - e) * countedUsage rows provider unit (periodStart period t)"
    using assms(2) IH lower by (intro mult_left_mono) (simp_all add: accurate_def)
  then show ?case using IH lower by (meson order_trans)
qed

text \<open>C31: Whatever is reserved and settled as time passes, and however the configuration changes the limits of a day, week or
  month in between, as long as every request of the provider and unit has such a limit, the counted usage
  of the current day, week or month exceeds the largest of these limits by rounding errors only: when
  differences, and sums of as many amounts as there are reservations, have a relative error of at most e,
  the exact sum of the counted amounts is at most the limit divided by 1 - e, which is the limit itself for
  exact arithmetic.\<close>

theorem spending_stays_within_limits:
  assumes "spending arith provider unit allowed t rows" "accurate (length rows) e arith"
    and "\<forall>l\<in>allowed. 0 < limitOf l period \<and> limitOf l period \<le> largest" "0 \<le> largest"
  shows "countedUsage rows provider unit (periodStart period t) \<le> largest / (1 - e)"
proof -
  have "0 < 1 - e" using assms(2) by (simp add: accurate_def)
  then show ?thesis using spending_invariant[OF assms(1,2,4,3) order_refl] by (simp add: pos_le_divide_eq mult.commute)
qed

definition dailyLimit :: "float64 \<Rightarrow> SpendLimits" where
  "dailyLimit amount = \<lparr>lim_Daily = amount, lim_Weekly = 0, lim_Monthly = 0\<rparr>"

definition openRequest :: "string \<Rightarrow> string \<Rightarrow> float64 \<Rightarrow> SpendReservationRequest" where
  "openRequest provider unit amount = \<lparr>srq_Provider = provider, srq_Unit = unit, srq_MaximumAmount = 0, srq_MinimumAmount = 0,
     srq_Limits = dailyLimit amount\<rparr>"

lemma reserve_rest:
  assumes "provider \<noteq> ''''" "unit \<noteq> ''''" "0 < amount" "minus64 arith amount (usedSince arith rows provider unit (periodStart Daily t)) = left" "0 < left"
  shows "ReserveSpend arith t (openRequest provider unit amount) rows = Inr (\<lparr>srv_ID = nextReservationID rows, srv_Amount = left\<rparr>,
    rows @ [\<lparr>row_reservation_id = nextReservationID rows, row_recorded_at = formatTime t, row_provider = provider, row_unit = unit,
      row_amount = left\<rparr>])"
proof -
  have "limitedAmount arith t (openRequest provider unit amount) rows = Some left"
    using assms by (simp add: limitedAmount_def openRequest_def dailyLimit_def limitOf_def capAmount_def)
  then show ?thesis using assms
    by (simp add: ReserveSpend_def validReservationRequest_def) (simp add: openRequest_def dailyLimit_def Let_def)
qed

text \<open>An arithmetic whose differences are a quarter too large: a limit of 5 grants 6.25.\<close>

definition coarse :: SpendArithmetic where
  "coarse = \<lparr>sum64 = sum_list, minus64 = (\<lambda>x y. (x - y) * (5 / 4))\<rparr>"

lemma coarse_accurate: "accurate n (1 / 4) coarse"
proof -
  have "\<bar>(x - y) * (5 / 4) - (x - y)\<bar> \<le> 1 / 4 * \<bar>x - y\<bar>" for x y :: rat
  proof -
    have "(x - y) * (5 / 4) - (x - y) = (1 / 4) * (x - y)" by (simp add: field_simps)
    then show ?thesis by (simp only: abs_mult)
  qed
  moreover have "0 \<le> sum_list xs" if "\<forall>x\<in>set xs. 0 \<le> x" for xs :: "rat list" using that by (simp add: sum_list_nonneg)
  ultimately show ?thesis by (simp add: accurate_def coarse_def)
qed

theorem spending_stays_within_limits_witness:
  "\<exists>rows. spending coarse ''claude'' ''usd'' {dailyLimit 5} (midnight 2024 3 4) rows
     \<and> countedUsage rows ''claude'' ''usd'' (periodStart Daily (midnight 2024 3 4)) = 25 / 4 \<and> 25 / 4 \<le> (5 :: float64) / (1 - 1 / 4)"
proof -
  have valid: "validTime (midnight 2024 3 4)" by (simp add: validTime_def daysIn_def)
  let ?rows = "[] @ [\<lparr>row_reservation_id = nextReservationID [], row_recorded_at = formatTime (midnight 2024 3 4), row_provider = ''claude'',
      row_unit = ''usd'', row_amount = 25 / 4\<rparr>]"
  have "ReserveSpend coarse (midnight 2024 3 4) (openRequest ''claude'' ''usd'' 5) [] = Inr (\<lparr>srv_ID = nextReservationID [], srv_Amount = 25 / 4\<rparr>, ?rows)"
    by (rule reserve_rest) (simp_all add: usedSince_def countedAmounts_def coarse_def)
  then have run: "spending coarse ''claude'' ''usd'' {dailyLimit 5} (midnight 2024 3 4) ?rows"
    by (rule spending.reserved[OF spending.created[OF valid]]) (simp add: openRequest_def)
  have start: "periodStart Daily (midnight 2024 3 4) = midnight 2024 3 4" by (simp add: periodStart_def)
  have usage: "countedUsage ?rows ''claude'' ''usd'' (periodStart Daily (midnight 2024 3 4)) = 25 / 4"
    unfolding start by (simp add: countedUsage_def countedAmounts_def)
  have "countedUsage ?rows ''claude'' ''usd'' (periodStart Daily (midnight 2024 3 4)) \<le> 5 / (1 - 1 / 4)"
    by (rule spending_stays_within_limits[OF run coarse_accurate]) (simp_all add: limitOf_def dailyLimit_def)
  then show ?thesis using run usage by (intro exI[of _ ?rows] conjI) (simp_all only:)
qed

text \<open>In the first second of a day, after its very start, the daily limit does not bind: any number of
  reservations of the whole limit is granted.\<close>

theorem first_second_is_unlimited:
  assumes "validTime t" "tm_Hour t = 0" "tm_Minute t = 0" "tm_Second t = 0" "tm_Nanosecond t \<noteq> 0"
    "provider \<noteq> ''''" "unit \<noteq> ''''" "0 < amount" "minus64 arith amount (sum64 arith []) = amount"
  shows "\<exists>rows. spending arith provider unit {dailyLimit amount} t rows \<and> length rows = n \<and> (\<forall>r\<in>set rows. row_amount r = amount)"
proof -
  have start: "\<not> formatTime (periodStart Daily t) \<le> formatTime t"
  proof -
    have "fraction (tm_Nanosecond (periodStart Daily t)) = ''''" by (simp add: periodStart_def fraction_def)
    moreover have "secondText (periodStart Daily t) = secondText t" using assms(2-4) by (simp add: secondText_def periodStart_def)
    ultimately show ?thesis using fraction_le[of "tm_Nanosecond t"] assms(5) unfolding formatTime_def by (simp add: append_le)
  qed
  have "\<exists>rows. spending arith provider unit {dailyLimit amount} t rows \<and> length rows = n
      \<and> (\<forall>r\<in>set rows. row_amount r = amount \<and> row_recorded_at r = formatTime t)"
  proof (induction n)
    case 0
    then show ?case using spending.created[OF assms(1)] by force
  next
    case (Suc n)
    then obtain rows where rows: "spending arith provider unit {dailyLimit amount} t rows" "length rows = n"
      "\<forall>r\<in>set rows. row_amount r = amount \<and> row_recorded_at r = formatTime t" by blast
    then have "filter (\<lambda>r. row_provider r = provider \<and> row_unit r = unit \<and> formatTime (periodStart Daily t) \<le> row_recorded_at r) rows = []"
      using start by (auto simp: filter_empty_conv)
    then have "usedSince arith rows provider unit (periodStart Daily t) = sum64 arith []" unfolding usedSince_def countedAmounts_def by (simp only: list.map)
    then have left: "minus64 arith amount (usedSince arith rows provider unit (periodStart Daily t)) = amount" using assms(9) by simp
    note granted = reserve_rest[OF assms(6,7,8) left assms(8)]
    show ?case using spending.reserved[OF rows(1) granted] rows(2,3)
      by (intro exI[of _ "rows @ [_]"] conjI) (auto simp: openRequest_def)
  qed
  then show ?thesis by blast
qed

theorem first_second_is_unlimited_witness:
  "\<exists>rows. spending \<lparr>sum64 = sum_list, minus64 = (-)\<rparr> ''claude'' ''usd'' {dailyLimit 5} ((midnight 2024 3 4)\<lparr>tm_Nanosecond := 500000000\<rparr>) rows
    \<and> length rows = 3 \<and> (\<forall>r\<in>set rows. row_amount r = 5)"
  by (rule first_second_is_unlimited) (simp_all add: validTime_def daysIn_def)

subsection \<open>Configured limits\<close>

text \<open>The limits of the providers, read from the files of the configuration in their order; None is an absent key.
  Reading and decoding a file is a parameter: each file is an error or its decoded contents.\<close>

record Limits =
  cl_Daily :: float64
  cl_Weekly :: float64
  cl_Monthly :: float64

record Configuration =
  cfg_Copilot :: Limits
  cfg_Claude :: Limits

type_synonym limitsFile = "float64 option \<times> float64 option \<times> float64 option"

record configurationFile =
  cf_Copilot :: "limitsFile option"
  cf_Claude :: "limitsFile option"

definition ProviderCopilot :: string where "ProviderCopilot = ''copilot''"
definition ProviderClaude :: string where "ProviderClaude = ''claude''"

definition applyLimits :: "limitsFile \<Rightarrow> Limits \<Rightarrow> Limits" where
  "applyLimits file limits = (case file of (daily, weekly, monthly) \<Rightarrow>
     \<lparr>cl_Daily = (case daily of None \<Rightarrow> cl_Daily limits | Some x \<Rightarrow> x),
      cl_Weekly = (case weekly of None \<Rightarrow> cl_Weekly limits | Some x \<Rightarrow> x),
      cl_Monthly = (case monthly of None \<Rightarrow> cl_Monthly limits | Some x \<Rightarrow> x)\<rparr>)"

definition applyConfiguration :: "configurationFile \<Rightarrow> Configuration \<Rightarrow> Configuration" where
  "applyConfiguration file configuration =
     \<lparr>cfg_Copilot = (case cf_Copilot file of None \<Rightarrow> cfg_Copilot configuration | Some f \<Rightarrow> applyLimits f (cfg_Copilot configuration)),
      cfg_Claude = (case cf_Claude file of None \<Rightarrow> cfg_Claude configuration | Some f \<Rightarrow> applyLimits f (cfg_Claude configuration))\<rparr>"

definition validLimits :: "Limits \<Rightarrow> bool" where
  "validLimits limits \<longleftrightarrow> \<not> cl_Daily limits < 0 \<and> \<not> cl_Weekly limits < 0 \<and> \<not> cl_Monthly limits < 0"

definition validateConfiguration :: "Configuration \<Rightarrow> string error" where
  "validateConfiguration configuration =
     err_if (\<not> validLimits (cfg_Copilot configuration) \<or> \<not> validLimits (cfg_Claude configuration)) ''invalid spending limit''"

definition ReadConfiguration :: "(string + configurationFile) list \<Rightarrow> string + Configuration" where
  "ReadConfiguration files =
    (case fold_res (\<lambda>file configuration. res_map (\<lambda>f. applyConfiguration f configuration) file) files
        \<lparr>cfg_Copilot = \<lparr>cl_Daily = 0, cl_Weekly = 0, cl_Monthly = 0\<rparr>, cfg_Claude = \<lparr>cl_Daily = 0, cl_Weekly = 0, cl_Monthly = 0\<rparr>\<rparr> of
       Inl e \<Rightarrow> Inl e
     | Inr configuration \<Rightarrow> res_of_err (validateConfiguration configuration) configuration)"

definition limits :: "Configuration \<Rightarrow> string \<Rightarrow> Limits" where
  "limits configuration provider = (if provider = ProviderClaude then cfg_Claude configuration else cfg_Copilot configuration)"

definition unitOf :: "string \<Rightarrow> string" where
  "unitOf provider = (if provider = ProviderClaude then ''usd'' else ''ai_credits'')"

definition enabled :: "Limits \<Rightarrow> bool" where
  "enabled l \<longleftrightarrow> cl_Daily l > 0 \<or> cl_Weekly l > 0 \<or> cl_Monthly l > 0"

text \<open>The rows of the store, or None when there is no store.\<close>

definition Reserve :: "SpendArithmetic \<Rightarrow> Configuration \<Rightarrow> Time \<Rightarrow> string \<Rightarrow> float64 \<Rightarrow> float64 \<Rightarrow> ReservationRow list option
    \<Rightarrow> StoreError + SpendReservation \<times> ReservationRow list option" where
  "Reserve arith configuration now provider maximumAmount minimumAmount store =
    (case store of
       None \<Rightarrow> Inr (\<lparr>srv_ID = 0, srv_Amount = maximumAmount\<rparr>, None)
     | Some rows \<Rightarrow>
         if \<not> enabled (limits configuration provider) then Inr (\<lparr>srv_ID = 0, srv_Amount = maximumAmount\<rparr>, Some rows)
         else let l = limits configuration provider in
           res_map (\<lambda>(reservation, rows'). (reservation, Some rows'))
             (ReserveSpend arith now \<lparr>srq_Provider = provider, srq_Unit = unitOf provider, srq_MaximumAmount = maximumAmount,
                srq_MinimumAmount = minimumAmount,
                srq_Limits = \<lparr>lim_Daily = cl_Daily l, lim_Weekly = cl_Weekly l, lim_Monthly = cl_Monthly l\<rparr>\<rparr> rows))"

definition Settle :: "SpendReservation \<Rightarrow> float64 \<Rightarrow> ReservationRow list option \<Rightarrow> StoreError + ReservationRow list option" where
  "Settle reservation exactAmount store =
    (case store of None \<Rightarrow> Inr None
     | Some rows \<Rightarrow> if srv_ID reservation = 0 then Inr (Some rows) else res_map Some (SettleSpend (srv_ID reservation) exactAmount rows))"

lemma ReadConfiguration_valid: "ReadConfiguration files = Inr configuration \<Longrightarrow> validLimits (limits configuration provider)"
  by (auto simp: ReadConfiguration_def validateConfiguration_def res_of_err_def err_if_def limits_def split: sum.splits if_splits)

lemma limitedAmount_max:
  "limitedAmount arith now request rows = Some amount \<Longrightarrow> srq_MaximumAmount request \<noteq> 0 \<Longrightarrow> amount \<le> srq_MaximumAmount request"
  by (auto simp: limitedAmount_def capAmount_def min_def split: if_splits option.splits)

lemma ReserveSpend_valid:
  assumes "validReservationRequest request"
    "\<not> (lim_Daily (srq_Limits request) = 0 \<and> lim_Weekly (srq_Limits request) = 0 \<and> lim_Monthly (srq_Limits request) = 0)"
  shows "case ReserveSpend arith now request rows of
      Inl e \<Rightarrow> e = ErrSpendLimitExceeded
    | Inr (reservation, _) \<Rightarrow> srq_MinimumAmount request \<le> srv_Amount reservation
        \<and> (srq_MaximumAmount request \<noteq> 0 \<longrightarrow> srv_Amount reservation \<le> srq_MaximumAmount request)"
  using assms limitedAmount_max[of arith now request rows]
  by (cases "limitedAmount arith now request rows") (auto simp: ReserveSpend_def Let_def)

text \<open>With a configuration that was accepted, a reservation of amounts that fit together fails only when a limit
  is exhausted, and a granted reservation lies between its minimum and, when it has one, its maximum.\<close>

theorem configured_reservations_are_valid:
  assumes "ReadConfiguration files = Inr configuration" "provider \<noteq> ''''" "0 \<le> minimumAmount" "0 \<le> maximumAmount"
    "maximumAmount = 0 \<or> minimumAmount \<le> maximumAmount"
  shows "case Reserve arith configuration now provider maximumAmount minimumAmount (Some rows) of
      Inl e \<Rightarrow> e = ErrSpendLimitExceeded
    | Inr (reservation, _) \<Rightarrow> enabled (limits configuration provider) \<longrightarrow>
        minimumAmount \<le> srv_Amount reservation \<and> (maximumAmount \<noteq> 0 \<longrightarrow> srv_Amount reservation \<le> maximumAmount)"
proof (cases "enabled (limits configuration provider)")
  case True
  let ?l = "limits configuration provider"
  let ?request = "\<lparr>srq_Provider = provider, srq_Unit = unitOf provider, srq_MaximumAmount = maximumAmount, srq_MinimumAmount = minimumAmount,
    srq_Limits = \<lparr>lim_Daily = cl_Daily ?l, lim_Weekly = cl_Weekly ?l, lim_Monthly = cl_Monthly ?l\<rparr>\<rparr>"
  have "validReservationRequest ?request"
    using assms(2-5) ReadConfiguration_valid[OF assms(1), of provider] by (auto simp: validReservationRequest_def validLimits_def unitOf_def)
  from ReserveSpend_valid[OF this, of arith now rows] show ?thesis
    using True ReadConfiguration_valid[OF assms(1), of provider]
    by (cases "ReserveSpend arith now ?request rows") (auto simp: Reserve_def Let_def enabled_def validLimits_def)
qed (simp add: Reserve_def)

theorem configured_reservations_are_valid_witness:
  "\<exists>configuration. ReadConfiguration [Inr \<lparr>cf_Copilot = Some (Some 10, None, None), cf_Claude = None\<rparr>] = Inr configuration
    \<and> (case Reserve \<lparr>sum64 = sum_list, minus64 = (-)\<rparr> configuration (midnight 2024 3 4) ProviderCopilot 4 1 (Some []) of
      Inl e \<Rightarrow> e = ErrSpendLimitExceeded
    | Inr (reservation, _) \<Rightarrow> enabled (limits configuration ProviderCopilot) \<longrightarrow>
        1 \<le> srv_Amount reservation \<and> (4 \<noteq> (0 :: float64) \<longrightarrow> srv_Amount reservation \<le> 4))"
proof -
  have read: "ReadConfiguration [Inr \<lparr>cf_Copilot = Some (Some 10, None, None), cf_Claude = None\<rparr>]
      = Inr \<lparr>cfg_Copilot = \<lparr>cl_Daily = 10, cl_Weekly = 0, cl_Monthly = 0\<rparr>, cfg_Claude = \<lparr>cl_Daily = 0, cl_Weekly = 0, cl_Monthly = 0\<rparr>\<rparr>"
    by (simp add: ReadConfiguration_def applyConfiguration_def applyLimits_def validateConfiguration_def validLimits_def err_if_def res_of_err_def)
  have "ProviderCopilot \<noteq> []" by (simp add: ProviderCopilot_def)
  then show ?thesis using read configured_reservations_are_valid[OF read, of ProviderCopilot 1 4] by (intro exI conjI) simp_all
qed

end
