(* ===== verification/CatalogUnits.thy ===== *)
theory CatalogUnits
  imports Contribution Lexical
begin

text \<open>
  extractor/catalog.go: the catalog units of a source.  A unit is cut out of the bytes of the source by
  the span of its node; its signature, leading comments, owner and identifier tokens come from the
  text and the names.  Slicing out of range panics in Go: where the code can do so, the result is None.
\<close>

subsection \<open>Spans\<close>

definition lineStarts :: "string \<Rightarrow> int list" where
  "lineStarts contents = 0 # map (\<lambda>index. int index + 1) (filter (\<lambda>index. contents ! index = CHR 0x0A) [0..<length contents])"

definition spanOffsets :: "string \<Rightarrow> SourceSpan \<Rightarrow> (nat \<times> nat) option" where
  "spanOffsets contents span =
    (if span_StartLine span < 1 \<or> span_StartColumn span < 1 \<or> span_EndLine span < span_StartLine span \<or> span_EndColumn span < 1 then None
     else let starts = lineStarts contents in
       if span_EndLine span > int (length starts) \<or> span_StartLine span > int (length starts) then None
       else let start = starts ! nat (span_StartLine span - 1) + span_StartColumn span - 1;
                endOffset = starts ! nat (span_EndLine span - 1) + span_EndColumn span - 1
         in if start < 0 \<or> endOffset < start \<or> endOffset > int (length contents) then None
            else Some (nat start, nat endOffset))"

subsection \<open>Text of a declaration\<close>

definition lastIndex :: "string \<Rightarrow> string \<Rightarrow> nat option" where
  "lastIndex s sub = find (\<lambda>index. prefix sub (drop index s)) (rev [0..<length s + 1])"

definition trimRightSpace :: "string \<Rightarrow> string" where
  "trimRightSpace s = concat (rev (trimSeg isSpace (rev (segments s))))"

definition declarationSignature :: "string \<Rightarrow> string" where
  "declarationSignature declaration = TrimSpace (takeWhile (\<lambda>c. c \<noteq> CHR 0x7B) declaration)"

definition DefaultCatalogDeclarationSourceLimit :: nat where "DefaultCatalogDeclarationSourceLimit = 4 * 1024"

definition boundedDeclarationSource :: "string \<Rightarrow> string" where
  "boundedDeclarationSource declaration =
    (if length declaration > DefaultCatalogDeclarationSourceLimit then take DefaultCatalogDeclarationSourceLimit declaration else declaration)"

definition normalizeComment :: "string \<Rightarrow> string" where
  "normalizeComment comment = join '' '' (Fields comment)"

definition trimPrefix :: "string \<Rightarrow> string \<Rightarrow> string" where
  "trimPrefix s pre = (if hasPrefix s pre then drop (length pre) s else s)"

definition normalizeBlockComment :: "string \<Rightarrow> string" where
  "normalizeBlockComment comment =
     normalizeComment (join '' '' (map (\<lambda>line. TrimSpace (trimPrefix (TrimSpace line) ''*'')) (splitOn (CHR 0x0A) comment)))"

text \<open>The lines above the declaration, nearest first, while they are line comments.\<close>

definition lineComments :: "string list \<Rightarrow> string list" where
  "lineComments nearest = map (\<lambda>line. normalizeComment (TrimSpace (trimPrefix line ''//'')))
     (takeWhile (\<lambda>line. hasPrefix line ''//'') (map TrimSpace nearest))"

definition leadingComments :: "string \<Rightarrow> nat \<Rightarrow> string list option" where
  "leadingComments contents declarationStart =
    (let pre = trimRightSpace (take declarationStart contents);
         lines = rev (lineComments (rev (splitOn (CHR 0x0A) pre)))
     in if hasSuffix pre ''*/'' then
          (case lastIndex pre ''/*'' of
             None \<Rightarrow> Some lines
           | Some blockStart \<Rightarrow>
               if blockStart + 2 > length pre - 2 then None
               else Some [normalizeBlockComment (take (length pre - 2 - (blockStart + 2)) (drop (blockStart + 2) pre))])
        else Some lines)"

subsection \<open>Names\<close>

definition tokenOf :: "UnicodeTables \<Rightarrow> rune list \<Rightarrow> string list" where
  "tokenOf u current = (if current = [] then [] else [ToLower u (encodeRunes current)])"

fun tokensFrom :: "UnicodeTables \<Rightarrow> rune \<Rightarrow> rune list \<Rightarrow> rune list \<Rightarrow> string list" where
  "tokensFrom u prior [] current = tokenOf u current"
| "tokensFrom u prior (v # rest) current =
    (if \<not> isLetter u v \<and> \<not> isDigit u v then tokenOf u current @ tokensFrom u v rest []
     else if current \<noteq> [] \<and> isUpper u v \<and> (isLower u prior \<or> (case rest of n # _ \<Rightarrow> isLower u n | [] \<Rightarrow> False))
       then tokenOf u current @ tokensFrom u v rest [v]
     else tokensFrom u v rest (current @ [v]))"

definition unitTokens :: "UnicodeTables \<Rightarrow> string \<Rightarrow> string list" where
  "unitTokens u identifier = tokensFrom u 0 (runes identifier) []"

definition catalogUnitOwner :: "Node \<Rightarrow> string" where
  "catalogUnitOwner node =
    (if \<not> hasSuffix (node_Kind node) '':method'' then ''''
     else let qualifiedName = (case lastIndex (node_QualifiedName node) ''::'' of
            Some separator \<Rightarrow> drop (separator + 2) (node_QualifiedName node) | None \<Rightarrow> node_QualifiedName node);
          parts = splitOn (CHR ''.'') qualifiedName
       in if length parts < 2 then '''' else parts ! (length parts - 2))"

definition isCatalogKind :: "NodeKind \<Rightarrow> bool" where
  "isCatalogKind kind \<longleftrightarrow> hasSuffix kind '':function'' \<or> hasSuffix kind '':type'' \<or> hasSuffix kind '':struct''
     \<or> hasSuffix kind '':class'' \<or> hasSuffix kind '':interface'' \<or> hasSuffix kind '':method''"

subsection \<open>Units\<close>

definition catalogUnit :: "UnicodeTables \<Rightarrow> string \<Rightarrow> Node \<Rightarrow> CatalogUnit list option" where
  "catalogUnit u contents node =
    (if \<not> isCatalogKind (node_Kind node) then Some []
     else (case spanOffsets contents (ev_Span (node_Evidence node)) of
       None \<Rightarrow> Some []
     | Some (start, endOffset) \<Rightarrow>
         let declaration = take (endOffset - start) (drop start contents) in
         (case leadingComments contents start of
            None \<Rightarrow> None
          | Some comments \<Rightarrow>
              let unit = \<lparr>cu_NodeID = node_ID node, cu_Name = node_Label node, cu_Kind = node_Kind node,
                cu_Owner = catalogUnitOwner node, cu_Signature = declarationSignature declaration,
                cu_DeclarationSource = boundedDeclarationSource declaration, cu_Comments = comments,
                cu_IdentifierTokens = unitTokens u (node_Label node)\<rparr>
              in Some (if cu_Signature unit \<noteq> '''' then [unit] else []))))"

fun catalogUnits :: "UnicodeTables \<Rightarrow> string \<Rightarrow> Node list \<Rightarrow> CatalogUnit list option" where
  "catalogUnits u contents [] = Some []"
| "catalogUnits u contents (node # nodes) =
    (case catalogUnit u contents node of
       None \<Rightarrow> None
     | Some units \<Rightarrow> map_option (\<lambda>rest. units @ rest) (catalogUnits u contents nodes))"

definition CatalogUnitsForSource :: "UnicodeTables \<Rightarrow> string \<Rightarrow> Facts \<Rightarrow> CatalogUnit list option" where
  "CatalogUnitsForSource u contents facts = catalogUnits u contents (facts_Nodes facts)"

definition maxDeterministicSynopsisLength :: nat where "maxDeterministicSynopsisLength = 300"

definition truncateSynopsis :: "string \<Rightarrow> string" where
  "truncateSynopsis v = (if length (runes v) \<le> maxDeterministicSynopsisLength then v
     else encodeRunes (take maxDeterministicSynopsisLength (runes v)))"

definition DeterministicSynopsis :: "CatalogUnit \<Rightarrow> string" where
  "DeterministicSynopsis unit =
    (let name = (if cu_Owner unit \<noteq> '''' then cu_Owner unit @ ''.'' @ cu_Name unit else cu_Name unit);
         parts = [name @ '' ('' @ cu_Kind unit @ '').'']
           @ (if cu_Comments unit \<noteq> [] then [join '' '' (cu_Comments unit)] else [])
           @ [''Signature: '' @ cu_Signature unit @ ''.'']
           @ (if cu_IdentifierTokens unit \<noteq> [] then [''Identifiers: '' @ join '' '' (cu_IdentifierTokens unit)] else [])
     in truncateSynopsis (join '' '' parts))"

section \<open>Runes\<close>

lemma decoded_pair:
  assumes "194 \<le> b0" "b0 \<le> 223" "second_ok b0 b1"
  shows "valid_rune ((b0 - 192) * 64 + (b1 - 128))"
proof -
  obtain x where x: "b0 = 192 + x" using assms(1) le_Suc_ex[of 192 b0] by auto
  have b1: "128 \<le> b1" "b1 \<le> 191" using assms by (auto simp: second_ok_def cont_byte_def split: if_splits)
  then obtain z where z: "b1 = 128 + z" using le_Suc_ex by blast
  have "x \<le> 31" "z \<le> 63" using x z assms(2) b1(2) by simp_all
  then show ?thesis unfolding valid_rune_def x z by simp
qed

lemma decoded_triple:
  assumes "224 \<le> b0" "b0 \<le> 239" "second_ok b0 b1" "cont_byte b2"
  shows "valid_rune ((b0 - 224) * 4096 + (b1 - 128) * 64 + (b2 - 128))"
proof -
  obtain x where x: "b0 = 224 + x" using assms(1) le_Suc_ex by blast
  obtain y where y: "b2 = 128 + y" using assms(4) le_Suc_ex unfolding cont_byte_def by blast
  have b1: "128 \<le> b1" "b1 \<le> 191" "b0 = 237 \<Longrightarrow> b1 \<le> 159"
    using assms(3) by (auto simp: second_ok_def cont_byte_def split: if_splits)
  then obtain z where z: "b1 = 128 + z" using le_Suc_ex by blast
  have bounds: "x \<le> 15" "y \<le> 63" "z \<le> 63" "x = 13 \<Longrightarrow> z \<le> 31"
    using x y z assms(2,4) b1(2,3) by (simp_all add: cont_byte_def)
  have "x < 13 \<or> x = 13 \<or> 14 \<le> x" by arith
  then show ?thesis using bounds unfolding valid_rune_def x y z by (elim disjE) simp_all
qed

lemma decoded_quadruple:
  assumes "240 \<le> b0" "b0 \<le> 244" "second_ok b0 b1" "cont_byte b2" "cont_byte b3"
  shows "valid_rune ((b0 - 240) * 262144 + (b1 - 128) * 4096 + (b2 - 128) * 64 + (b3 - 128))"
proof -
  obtain x where x: "b0 = 240 + x" using assms(1) le_Suc_ex by blast
  obtain y where y: "b2 = 128 + y" using assms(4) le_Suc_ex unfolding cont_byte_def by blast
  obtain t where t: "b3 = 128 + t" using assms(5) le_Suc_ex unfolding cont_byte_def by blast
  have b1: "128 \<le> b1" "b1 \<le> 191" "b0 = 240 \<Longrightarrow> 144 \<le> b1" "b0 = 244 \<Longrightarrow> b1 \<le> 143"
    using assms(3) by (auto simp: second_ok_def cont_byte_def split: if_splits)
  then obtain z where z: "b1 = 128 + z" using le_Suc_ex by blast
  have bounds: "x \<le> 4" "y \<le> 63" "t \<le> 63" "z \<le> 63" "x = 0 \<Longrightarrow> 16 \<le> z" "x = 4 \<Longrightarrow> z \<le> 15"
    using x y z t assms(2,4,5) b1(2-4) by (simp_all add: cont_byte_def)
  have "x = 0 \<or> x = 4 \<or> (1 \<le> x \<and> x \<le> 3)" using bounds(1) by arith
  then show ?thesis using bounds unfolding valid_rune_def x y z t by (elim disjE conjE) simp_all
qed

lemma valid_RuneError: "valid_rune RuneError"
  by (simp add: valid_rune_def RuneError_def)

lemma decoded_valid: "valid_rune (fst (decodeRune s))"
proof (cases s)
  case (Cons c cs)
  have "valid_rune b0" if "b0 < 128" for b0 using that by (simp add: valid_rune_def)
  then show ?thesis unfolding Cons decodeRune.simps Let_def
    by (simp add: valid_RuneError decoded_pair decoded_triple decoded_quadruple split: list.split)
qed (simp add: valid_RuneError)

lemma runes_valid: "list_all valid_rune (runes s)"
  by (simp add: runes_def runeOf_def list_all_iff decoded_valid)

lemma runes_ne: "s \<noteq> [] \<Longrightarrow> runes s \<noteq> []"
  by (subst runes_def, subst segments.simps) simp

lemma encodeRunes_ne: "rs \<noteq> [] \<Longrightarrow> encodeRunes rs \<noteq> []"
  by (cases rs) (simp_all add: encodeRunes_def)

lemma encodeRunes_append: "encodeRunes (xs @ ys) = encodeRunes xs @ encodeRunes ys"
  by (simp add: encodeRunes_def)

lemma encodeRunes_Cons: "encodeRunes (r # rs) = encodeRune r @ encodeRunes rs"
  by (simp add: encodeRunes_def)

lemma ToLower_encoded: "list_all valid_rune rs \<Longrightarrow> ToLower u (encodeRunes rs) = encodeRunes (map (toLowerRune u) rs)"
  by (simp add: ToLower_def runes_encodeRunes)

section \<open>Properties\<close>

subsection \<open>Spans\<close>

lemma spanOffsets_inside: "spanOffsets contents span = Some (start, endOffset) \<Longrightarrow> start \<le> endOffset \<and> endOffset \<le> length contents"
  by (auto simp: spanOffsets_def Let_def nat_le_iff split: if_splits)

subsection \<open>Comments\<close>

lemma lastIndex_Some: "lastIndex s sub = Some b \<longleftrightarrow> b \<le> length s \<and> prefix sub (drop b s)
    \<and> (\<forall>i. b < i \<and> i \<le> length s \<longrightarrow> \<not> prefix sub (drop i s))"
proof -
  have "find P (rev [0..<n + 1]) = Some b \<longleftrightarrow> b \<le> n \<and> P b \<and> (\<forall>i. b < i \<and> i \<le> n \<longrightarrow> \<not> P i)" for P n
  proof (induction n)
    case (Suc n)
    have "rev [0..<Suc n + 1] = Suc n # rev [0..<n + 1]" by simp
    then show ?case using Suc by (auto simp: le_Suc_eq)
  qed auto
  then show ?thesis by (simp only: lastIndex_def)
qed

lemma suffix_nth: "suffix t s \<longleftrightarrow> length t \<le> length s \<and> drop (length s - length t) s = t"
  by (auto simp: suffix_def) (metis append_take_drop_id)

lemma block_start:
  assumes "suffix ''*/'' s" "lastIndex s ''/*'' = Some b"
  shows "b + 2 > length s - 2 \<longleftrightarrow> suffix ''/*/'' s"
proof -
  obtain t where t: "s = t @ ''*/''" using assms(1) by (auto simp: suffix_def)
  have b: "b \<le> length s" "prefix ''/*'' (drop b s)" "\<forall>i. b < i \<and> i \<le> length s \<longrightarrow> \<not> prefix ''/*'' (drop i s)"
    using assms(2) unfolding lastIndex_Some by simp_all
  have lt: "b < length t"
  proof (rule ccontr)
    assume "\<not> b < length t"
    then have "drop b s = drop (b - length t) ''*/''" unfolding t by simp
    then show False using b(2) by (cases "b - length t"; cases "b - length t - 1") auto
  qed
  show ?thesis
  proof
    assume "b + 2 > length s - 2"
    then have "b = length t - 1" using lt t by simp
    then obtain t' c where "t = t' @ [c]" "b = length t'" using lt by (cases t rule: rev_cases) auto
    then show "suffix ''/*/'' s" using b(2) t by (auto simp: suffix_def)
  next
    assume "suffix ''/*/'' s"
    then obtain t' where t': "s = t' @ ''/*/''" by (auto simp: suffix_def)
    have "\<not> b < length t'"
    proof
      assume "b < length t'"
      moreover have "prefix ''/*'' (drop (length t') s)" "length t' \<le> length s" unfolding t' by simp_all
      ultimately show False using b(3) by blast
    qed
    then show "b + 2 > length s - 2" using t' by simp
  qed
qed

lemma block_found: "suffix ''/*/'' s \<Longrightarrow> lastIndex s ''/*'' \<noteq> None"
proof
  assume "suffix ''/*/'' s" "lastIndex s ''/*'' = None"
  then obtain t where "s = t @ ''/*/''" by (auto simp: suffix_def)
  then have "prefix ''/*'' (drop (length t) s)" "length t \<in> set (rev [0..<length s + 1])" by auto
  then show False using \<open>lastIndex s ''/*'' = None\<close> unfolding lastIndex_def find_None_iff by blast
qed

lemma leadingComments_panics: "leadingComments contents start = None \<longleftrightarrow> suffix ''/*/'' (trimRightSpace (take start contents))"
proof -
  let ?pre = "trimRightSpace (take start contents)"
  have "suffix ''/*/'' ?pre \<Longrightarrow> suffix ''*/'' ?pre" by (auto simp: suffix_def)
  then show ?thesis using block_start[of ?pre] block_found[of ?pre]
    by (auto simp: leadingComments_def Let_def hasSuffix_def split: option.splits)
qed

lemma catalogUnits_None: "catalogUnits u contents nodes = None \<longleftrightarrow> (\<exists>node\<in>set nodes. catalogUnit u contents node = None)"
  by (induction nodes) (auto split: option.splits)

text \<open>C28: Cutting the catalog units of a source panics exactly when the text before a declaration that becomes a unit ends, but for
  white space, in slash star slash; in every other case it returns.\<close>

theorem catalog_units_panic_exactly:
  "CatalogUnitsForSource u contents facts = None \<longleftrightarrow>
    (\<exists>node\<in>set (facts_Nodes facts). isCatalogKind (node_Kind node)
      \<and> (\<exists>start endOffset. spanOffsets contents (ev_Span (node_Evidence node)) = Some (start, endOffset)
          \<and> suffix ''/*/'' (trimRightSpace (take start contents))))"
  unfolding CatalogUnitsForSource_def catalogUnits_None
  by (intro bex_cong refl) (auto simp: catalogUnit_def Let_def leadingComments_panics[symmetric] split: option.splits)

subsection \<open>Names\<close>

lemma tokensFrom_letters:
  assumes "list_all valid_rune rs" "list_all valid_rune current"
  shows "concat (tokensFrom u prior rs current)
    = encodeRunes (map (toLowerRune u) (current @ filter (\<lambda>r. isLetter u r \<or> isDigit u r) rs)) \<and> '''' \<notin> set (tokensFrom u prior rs current)"
  using assms
proof (induction u prior rs current rule: tokensFrom.induct)
  case (1 u prior current)
  then show ?case by (simp add: tokenOf_def ToLower_encoded encodeRunes_def[of "[]"] encodeRunes_ne[symmetric])
next
  case (2 u prior v rest current)
  have token: "concat (tokenOf u current) = encodeRunes (map (toLowerRune u) current)" "'''' \<notin> set (tokenOf u current)"
    using "2.prems"(2) encodeRunes_ne[of "map (toLowerRune u) current"] by (auto simp: tokenOf_def ToLower_encoded encodeRunes_def[of "[]"])
  show ?case
  proof (cases "\<not> isLetter u v \<and> \<not> isDigit u v")
    case True
    then show ?thesis using 2 token by (simp add: encodeRunes_append)
  next
    case letter: False
    then show ?thesis
    proof (cases "current \<noteq> [] \<and> isUpper u v \<and> (isLower u prior \<or> (case rest of n # _ \<Rightarrow> isLower u n | [] \<Rightarrow> False))")
      case True
      have "concat (tokensFrom u v rest [v]) = encodeRunes (map (toLowerRune u) ([v] @ filter (\<lambda>r. isLetter u r \<or> isDigit u r) rest))
          \<and> '''' \<notin> set (tokensFrom u v rest [v])"
        by (rule "2.IH"(2)[OF letter True]) (use "2.prems" in simp_all)
      moreover have "tokensFrom u prior (v # rest) current = tokenOf u current @ tokensFrom u v rest [v]"
        unfolding tokensFrom.simps(2) if_not_P[OF letter] if_P[OF True] ..
      ultimately show ?thesis using letter token by (auto simp: encodeRunes_append encodeRunes_Cons simp del: tokensFrom.simps)
    next
      case False
      have "concat (tokensFrom u v rest (current @ [v]))
          = encodeRunes (map (toLowerRune u) ((current @ [v]) @ filter (\<lambda>r. isLetter u r \<or> isDigit u r) rest))
          \<and> '''' \<notin> set (tokensFrom u v rest (current @ [v]))"
        by (rule "2.IH"(3)[OF letter False]) (use "2.prems" in simp_all)
      moreover have "tokensFrom u prior (v # rest) current = tokensFrom u v rest (current @ [v])"
        unfolding tokensFrom.simps(2) if_not_P[OF letter] if_not_P[OF False] ..
      ultimately show ?thesis using letter by (auto simp del: tokensFrom.simps)
    qed
  qed
qed

text \<open>The identifier tokens of a name are nonempty and, put together, are its letters and digits in order and in lower case.\<close>

theorem identifier_tokens_keep_letters:
  "concat (unitTokens u name) = encodeRunes (map (toLowerRune u) (filter (\<lambda>r. isLetter u r \<or> isDigit u r) (runes name)))
   \<and> '''' \<notin> set (unitTokens u name)"
  using tokensFrom_letters[OF runes_valid[of name], of "[]" u 0] by (simp add: unitTokens_def)

subsection \<open>Units of a source\<close>

lemma catalogUnit_fields:
  assumes "catalogUnit u contents node = Some units" "unit \<in> set units"
  shows "cu_NodeID unit = node_ID node" "cu_Name unit = node_Label node" "cu_Kind unit = node_Kind node"
    "cu_Signature unit \<noteq> ''''" "cu_IdentifierTokens unit = unitTokens u (node_Label node)" "isCatalogKind (node_Kind node)"
  using assms by (auto simp: catalogUnit_def Let_def split: if_splits option.splits)

lemma catalogUnits_member:
  assumes "catalogUnits u contents nodes = Some units" "unit \<in> set units"
  shows "\<exists>node\<in>set nodes. \<exists>part. catalogUnit u contents node = Some part \<and> unit \<in> set part"
  using assms by (induction nodes arbitrary: units) (auto split: option.splits)

text \<open>C27: Every catalog unit cut out of a source is one that the construction of a contribution accepts, provided the nodes of
  catalogued kinds have identifiers and labels.\<close>

theorem catalog_units_are_accepted:
  assumes "CatalogUnitsForSource u contents facts = Some units"
    and "\<forall>node\<in>set (facts_Nodes facts). isCatalogKind (node_Kind node) \<longrightarrow> node_ID node \<noteq> '''' \<and> node_Label node \<noteq> ''''"
  shows "\<forall>unit\<in>set units. checkCatalogUnit (node_ID ` set (facts_Nodes facts)) unit = None"
proof
  fix unit assume "unit \<in> set units"
  then obtain node part where node: "node \<in> set (facts_Nodes facts)" "catalogUnit u contents node = Some part" "unit \<in> set part"
    using catalogUnits_member[OF assms(1)[unfolded CatalogUnitsForSource_def]] by blast
  note fields = catalogUnit_fields[OF node(2,3)]
  have "node_Kind node \<noteq> ''''" using fields(6) by (auto simp: isCatalogKind_def hasSuffix_def)
  then show "checkCatalogUnit (node_ID ` set (facts_Nodes facts)) unit = None"
    using node(1) fields assms(2) identifier_tokens_keep_letters[of u "node_Label node"] by (auto simp: checkUnit_None)
qed

text \<open>A deterministic synopsis has at most 300 runes.\<close>

theorem synopsis_is_bounded: "length (runes (DeterministicSynopsis unit)) \<le> 300"
proof -
  have "length (runes (truncateSynopsis v)) \<le> 300" for v
  proof (cases "length (runes v) \<le> maxDeterministicSynopsisLength")
    case False
    have "list_all valid_rune (take maxDeterministicSynopsisLength (runes v))"
      using runes_valid[of v] by (auto simp: list_all_iff dest: in_set_takeD)
    then show ?thesis using False by (simp add: truncateSynopsis_def runes_encodeRunes maxDeterministicSynopsisLength_def)
  qed (simp add: truncateSynopsis_def maxDeterministicSynopsisLength_def)
  then show ?thesis by (simp add: DeterministicSynopsis_def Let_def)
qed

subsection \<open>A concrete source\<close>

definition unitSpan :: SourceSpan where
  "unitSpan = \<lparr>span_Path = ''f.go'', span_StartLine = 1, span_StartColumn = 1, span_EndLine = 1, span_EndColumn = 12\<rparr>"

definition unitNode :: Node where
  "unitNode = \<lparr>node_ID = ''n'', node_Kind = ''go:function'', node_Label = ''runAll'', node_QualifiedName = ''runAll'',
     node_Evidence = \<lparr>ev_Span = unitSpan, ev_FileHash = '''', ev_Extractor = '''', ev_Provenance = '''', ev_Confidence = ''''\<rparr>\<rparr>"

definition unitFacts :: Facts where
  "unitFacts = \<lparr>facts_Nodes = [unitNode], facts_Edges = []\<rparr>"

definition unitSource :: string where
  "unitSource = ''func f() {}''"

lemma trimmed_nonempty:
  assumes "byte c < 128" "\<not> isSpace (byte c)"
  shows "TrimSpace (c # cs) \<noteq> []"
proof -
  have seg: "segments (c # cs) = [c] # segments cs" using assms(1) by (subst segments.simps) (simp add: Let_def)
  have c: "\<not> isSpace (runeOf [c])" using assms by (simp add: runeOf_def Let_def)
  have "trimSeg isSpace (rev (segments cs) @ [[c]]) = trimSeg isSpace (rev (segments cs)) @ [[c]]"
    unfolding trimSeg_def using c by (induction "rev (segments cs)" arbitrary: cs) (simp_all add: dropWhile_append dropWhile_eq_Nil_conv)
  then show ?thesis using c by (simp add: TrimSpace_def TrimFunc_def seg) (simp add: trimSeg_def)
qed

lemma sample_units: "\<exists>unit. CatalogUnitsForSource asciiTables unitSource unitFacts = Some [unit]"
proof -
  have starts: "lineStarts unitSource = [0]" by (simp add: lineStarts_def unitSource_def upt_rec)
  have span: "spanOffsets unitSource unitSpan = Some (0, 11)"
    using starts by (simp add: spanOffsets_def unitSpan_def Let_def) (simp add: unitSource_def)
  have "trimRightSpace [] = []" by (simp add: trimRightSpace_def trimSeg_def)
  then have comments: "leadingComments unitSource 0 = Some []"
    by (simp add: leadingComments_def hasSuffix_def suffix_def lineComments_def hasPrefix_def)
  have "declarationSignature (take 11 unitSource) \<noteq> []"
    using trimmed_nonempty[of "CHR ''f''"] by (simp add: declarationSignature_def unitSource_def byte_def isSpace_def)
  moreover have "isCatalogKind ''go:function''" by (simp add: isCatalogKind_def hasSuffix_def suffix_def)
  ultimately show ?thesis using span comments
    by (simp add: CatalogUnitsForSource_def unitFacts_def unitNode_def catalogUnit_def Let_def)
qed

theorem catalog_units_are_accepted_witness:
  "\<exists>unit. CatalogUnitsForSource asciiTables unitSource unitFacts = Some [unit] \<and> checkCatalogUnit {''n''} unit = None"
proof -
  obtain unit where units: "CatalogUnitsForSource asciiTables unitSource unitFacts = Some [unit]" using sample_units by blast
  have "\<forall>unit\<in>set [unit]. checkCatalogUnit (node_ID ` set (facts_Nodes unitFacts)) unit = None"
    by (rule catalog_units_are_accepted[OF units]) (simp add: unitFacts_def unitNode_def)
  then show ?thesis using units by (simp add: unitFacts_def unitNode_def)
qed

end
