(* ===== verification/Catalog.thy ===== *)
theory Catalog
  imports Versions Lexical Sha256 "HOL-Library.Product_Lexorder"
begin

text \<open>
  The catalog of storage/sqlite/sqlite.go: synopses of nodes by version, their full text index, their
  embeddings with one vector table per dimension, and the catalog task of a workspace.  The tables
  are lists of rows beside the Database of the graph; a vector table is keyed by its dimension, the
  only part of its name that varies.  Operations run in one transaction: an error leaves the state
  unchanged, so a result is an error or the new state.  A vec0 table holds rows by rowid: an INSERT of
  a rowid in use and a statement on a missing table fail.  What its INSERT OR REPLACE does is a
  parameter of the copy of a catalog.
  A 32-bit float is its bit pattern, a byte string a list of characters.
\<close>

subsection \<open>Data\<close>

record CatalogEntry =
  ce_NodeID :: string
  ce_Name :: string
  ce_InputFingerprint :: string
  ce_DeterministicSynopsis :: string
  ce_CopilotSynopsis :: string
  ce_OllamaSynopsis :: string
  ce_ClaudeSynopsis :: string

type_synonym CatalogTaskState = string

definition CatalogTaskQueued :: CatalogTaskState where "CatalogTaskQueued = ''queued''"
definition CatalogTaskRunning :: CatalogTaskState where "CatalogTaskRunning = ''running''"
definition CatalogTaskInterrupted :: CatalogTaskState where "CatalogTaskInterrupted = ''interrupted''"
definition CatalogTaskComplete :: CatalogTaskState where "CatalogTaskComplete = ''complete''"
definition CatalogTaskFailed :: CatalogTaskState where "CatalogTaskFailed = ''failed''"

text \<open>Times are instants in nanoseconds; None is Go's zero time.\<close>

record CatalogTask =
  ct_Workspace :: string
  ct_GraphVersion :: GraphVersion
  ct_State :: CatalogTaskState
  ct_ProcessID :: int
  ct_StartedAt :: "int option"
  ct_FinishedAt :: "int option"
  ct_CompletedUnits :: int
  ct_TotalUnits :: int
  ct_Stage :: string
  ct_ChangedPaths :: "string list"
  ct_Failure :: string

type_synonym float32 = "32 word"
type_synonym CatalogEmbeddingSource = string

definition CatalogEmbeddingDeterministic :: CatalogEmbeddingSource where "CatalogEmbeddingDeterministic = ''deterministic''"
definition CatalogEmbeddingCopilot :: CatalogEmbeddingSource where "CatalogEmbeddingCopilot = ''copilot''"
definition CatalogEmbeddingOllama :: CatalogEmbeddingSource where "CatalogEmbeddingOllama = ''ollama''"
definition CatalogEmbeddingClaude :: CatalogEmbeddingSource where "CatalogEmbeddingClaude = ''claude''"

definition catalogEmbeddingSources :: "CatalogEmbeddingSource list" where
  "catalogEmbeddingSources = [CatalogEmbeddingDeterministic, CatalogEmbeddingCopilot, CatalogEmbeddingOllama, CatalogEmbeddingClaude]"

record CatalogEmbedding =
  emb_NodeID :: string
  emb_Source :: CatalogEmbeddingSource
  emb_Text :: string
  emb_Vector :: "float32 list"

record CatalogSearchRequest =
  csr_Text :: string
  csr_Limit :: int

record CatalogVectorSearchRequest =
  cvr_Vector :: "float32 list"
  cvr_Limit :: int

record CatalogMatch =
  cm_Node :: Node
  cm_Entry :: CatalogEntry
  cm_Score :: float64

subsection \<open>Tables\<close>

record CatalogEntryRow =
  cr_workspace :: string
  cr_version :: GraphVersion
  cr_entry :: CatalogEntry

record CatalogSearchRow =
  cs_workspace :: string
  cs_version :: GraphVersion
  cs_node_id :: string
  cs_name :: string
  cs_deterministic :: string
  cs_copilot :: string
  cs_ollama :: string
  cs_claude :: string

record CatalogEmbeddingRow =
  er_id :: int
  er_workspace :: string
  er_version :: GraphVersion
  er_node_id :: string
  er_source :: CatalogEmbeddingSource
  er_text :: string
  er_dimensions :: nat
  er_vector :: string

record CatalogStore =
  cat_database :: Database
  cat_entries :: "CatalogEntryRow list"
  cat_search :: "CatalogSearchRow list"
  cat_embeddings :: "CatalogEmbeddingRow list"
  cat_vectors :: "nat \<Rightarrow> (int \<times> string) list option"
  cat_tasks :: "CatalogTask list"

definition verifyCatalogSnapshot :: "Database \<Rightarrow> Snapshot \<Rightarrow> StoreError error" where
  "verifyCatalogSnapshot db snapshot =
    (case findVersion db (snap_Workspace snapshot) (snap_Version snapshot) of
       None \<Rightarrow> Some ErrGraphVersionNotFound | Some _ \<Rightarrow> None)"

definition missingSnapshot :: "Snapshot \<Rightarrow> bool" where
  "missingSnapshot snapshot \<longleftrightarrow> snap_Workspace snapshot = '''' \<or> snap_Version snapshot = 0"

subsection \<open>Entries and their full text index\<close>

definition entryAt :: "Snapshot \<Rightarrow> string \<Rightarrow> CatalogEntryRow \<Rightarrow> bool" where
  "entryAt snapshot nodeID r \<longleftrightarrow>
     cr_workspace r = snap_Workspace snapshot \<and> cr_version r = snap_Version snapshot \<and> ce_NodeID (cr_entry r) = nodeID"

definition searchAt :: "Snapshot \<Rightarrow> string \<Rightarrow> CatalogSearchRow \<Rightarrow> bool" where
  "searchAt snapshot nodeID r \<longleftrightarrow>
     cs_workspace r = snap_Workspace snapshot \<and> cs_version r = snap_Version snapshot \<and> cs_node_id r = nodeID"

definition entryIn :: "Snapshot \<Rightarrow> CatalogEntryRow \<Rightarrow> bool" where
  "entryIn snapshot r \<longleftrightarrow> cr_workspace r = snap_Workspace snapshot \<and> cr_version r = snap_Version snapshot"

definition searchIn :: "Snapshot \<Rightarrow> CatalogSearchRow \<Rightarrow> bool" where
  "searchIn snapshot r \<longleftrightarrow> cs_workspace r = snap_Workspace snapshot \<and> cs_version r = snap_Version snapshot"

definition searchRow :: "CatalogEntryRow \<Rightarrow> CatalogSearchRow" where
  "searchRow r = \<lparr>cs_workspace = cr_workspace r, cs_version = cr_version r, cs_node_id = ce_NodeID (cr_entry r),
     cs_name = ce_Name (cr_entry r), cs_deterministic = ce_DeterministicSynopsis (cr_entry r),
     cs_copilot = ce_CopilotSynopsis (cr_entry r), cs_ollama = ce_OllamaSynopsis (cr_entry r),
     cs_claude = ce_ClaudeSynopsis (cr_entry r)\<rparr>"

definition entryRow :: "Snapshot \<Rightarrow> CatalogEntry \<Rightarrow> CatalogEntryRow" where
  "entryRow snapshot entry = \<lparr>cr_workspace = snap_Workspace snapshot, cr_version = snap_Version snapshot, cr_entry = entry\<rparr>"

definition upsertEntry :: "Snapshot \<Rightarrow> CatalogEntry \<Rightarrow> CatalogEntryRow list \<Rightarrow> CatalogEntryRow list" where
  "upsertEntry snapshot entry rows =
    (if list_ex (entryAt snapshot (ce_NodeID entry)) rows
     then map (\<lambda>r. if entryAt snapshot (ce_NodeID entry) r then r\<lparr>cr_entry := entry\<rparr> else r) rows
     else rows @ [entryRow snapshot entry])"

definition writeCatalogEntry :: "Snapshot \<Rightarrow> CatalogEntry \<Rightarrow> CatalogStore \<Rightarrow> StoreError + CatalogStore" where
  "writeCatalogEntry snapshot entry s =
    (if ce_NodeID entry = '''' \<or> ce_Name entry = '''' \<or> ce_DeterministicSynopsis entry = '''' then Inl ErrInvalidRequest
     else Inr (s\<lparr>cat_entries := upsertEntry snapshot entry (cat_entries s),
       cat_search := filter (\<lambda>r. \<not> searchAt snapshot (ce_NodeID entry) r) (cat_search s) @ [searchRow (entryRow snapshot entry)]\<rparr>))"

definition WriteCatalog :: "Snapshot \<Rightarrow> CatalogEntry list \<Rightarrow> CatalogStore \<Rightarrow> StoreError + CatalogStore" where
  "WriteCatalog snapshot entries s =
    (if missingSnapshot snapshot \<or> entries = [] then Inl ErrInvalidRequest
     else (case verifyCatalogSnapshot (cat_database s) snapshot of
       Some e \<Rightarrow> Inl e
     | None \<Rightarrow> fold_res (writeCatalogEntry snapshot) entries s))"

text \<open>A read binds the workspace, the version and every node identifier in one statement.\<close>

definition ReadCatalogEntries :: "nat \<Rightarrow> Snapshot \<Rightarrow> string list \<Rightarrow> CatalogStore \<Rightarrow> StoreError + CatalogEntry list" where
  "ReadCatalogEntries variableLimit snapshot nodeIDs s =
    (if missingSnapshot snapshot \<or> nodeIDs = [] \<or> '''' \<in> set nodeIDs then Inl ErrInvalidRequest
     else if length nodeIDs + 2 > variableLimit then Inl (ErrDatabase ''too many SQL variables'')
     else Inr (sort_key ce_NodeID (map cr_entry (filter (\<lambda>r. entryIn snapshot r \<and> ce_NodeID (cr_entry r) \<in> set nodeIDs) (cat_entries s)))))"

subsection \<open>The catalog task of a workspace\<close>

definition validCatalogTask :: "CatalogTask \<Rightarrow> bool" where
  "validCatalogTask task \<longleftrightarrow> \<not> (ct_Workspace task = '''' \<or> ct_GraphVersion task = 0 \<or> ct_State task = '''' \<or> ct_ProcessID task < 0
     \<or> ct_StartedAt task = None \<or> ct_CompletedUnits task < 0 \<or> ct_TotalUnits task < 0
     \<or> ct_CompletedUnits task > ct_TotalUnits task)"

definition WriteCatalogTask :: "CatalogTask \<Rightarrow> CatalogStore \<Rightarrow> StoreError + CatalogStore" where
  "WriteCatalogTask task s =
    (if \<not> validCatalogTask task then Inl ErrInvalidRequest
     else Inr (s\<lparr>cat_tasks :=
       (if list_ex (\<lambda>row. ct_Workspace row = ct_Workspace task) (cat_tasks s)
        then map (\<lambda>row. if ct_Workspace row = ct_Workspace task \<and> ct_GraphVersion task \<ge> ct_GraphVersion row then task else row) (cat_tasks s)
        else cat_tasks s @ [task])\<rparr>))"

definition ReadCatalogTask :: "string \<Rightarrow> CatalogStore \<Rightarrow> StoreError + CatalogTask option" where
  "ReadCatalogTask ws s =
    (if ws = '''' then Inl ErrInvalidRequest else Inr (find (\<lambda>row. ct_Workspace row = ws) (cat_tasks s)))"

subsection \<open>Embeddings\<close>

definition PutUint32 :: "float32 \<Rightarrow> string" where
  "PutUint32 bits = map (\<lambda>i. char_of (unat (drop_bit (8 * i) bits))) [0, 1, 2, 3]"

definition Uint32 :: "string \<Rightarrow> float32" where
  "Uint32 bytes = foldr (\<lambda>byte bits. word_of_nat (of_char byte) OR push_bit 8 bits) (take 4 bytes) 0"

definition serializeCatalogEmbedding :: "float32 list \<Rightarrow> string" where
  "serializeCatalogEmbedding vector = concat (map PutUint32 vector)"

definition deserializeCatalogEmbedding :: "string \<Rightarrow> StoreError + float32 list" where
  "deserializeCatalogEmbedding serialized =
    (if length serialized = 0 \<or> length serialized mod 4 \<noteq> 0 then Inl (ErrDatabase ''invalid vector encoding'')
     else Inr (map (\<lambda>index. Uint32 (drop (index * 4) serialized)) [0..<length serialized div 4]))"

definition ensureVectorTable :: "nat \<Rightarrow> CatalogStore \<Rightarrow> StoreError + CatalogStore" where
  "ensureVectorTable dimensions s =
    (if dimensions = 0 \<or> dimensions > 8192 then Inl ErrInvalidRequest
     else Inr (s\<lparr>cat_vectors := (cat_vectors s)(dimensions :=
       (case cat_vectors s dimensions of None \<Rightarrow> Some [] | Some rows \<Rightarrow> Some rows))\<rparr>))"

definition onVectors :: "nat \<Rightarrow> ((int \<times> string) list \<Rightarrow> StoreError + (int \<times> string) list) \<Rightarrow> CatalogStore \<Rightarrow> StoreError + CatalogStore" where
  "onVectors dimensions f s =
    (case cat_vectors s dimensions of
       None \<Rightarrow> Inl (ErrDatabase ''no such table'')
     | Some rows \<Rightarrow> res_map (\<lambda>rows'. s\<lparr>cat_vectors := (cat_vectors s)(dimensions \<mapsto> rows')\<rparr>) (f rows))"

definition deleteVector :: "int \<Rightarrow> (int \<times> string) list \<Rightarrow> StoreError + (int \<times> string) list" where
  "deleteVector rowid rows = Inr (filter (\<lambda>row. fst row \<noteq> rowid) rows)"

definition insertVector :: "int \<Rightarrow> string \<Rightarrow> (int \<times> string) list \<Rightarrow> StoreError + (int \<times> string) list" where
  "insertVector rowid embedding rows =
    (if rowid \<in> set (map fst rows) then Inl (ErrDatabase ''UNIQUE constraint failed'') else Inr (rows @ [(rowid, embedding)]))"

definition embeddingAt :: "Snapshot \<Rightarrow> string \<Rightarrow> CatalogEmbeddingSource \<Rightarrow> CatalogEmbeddingRow \<Rightarrow> bool" where
  "embeddingAt snapshot nodeID source r \<longleftrightarrow> er_workspace r = snap_Workspace snapshot \<and> er_version r = snap_Version snapshot
     \<and> er_node_id r = nodeID \<and> er_source r = source"

text \<open>The rowid SQLite gives an INTEGER PRIMARY KEY: one above the largest.\<close>

definition nextEmbeddingID :: "CatalogEmbeddingRow list \<Rightarrow> int" where
  "nextEmbeddingID rows = fold (\<lambda>r. max (er_id r)) rows 0 + 1"

definition validEmbedding :: "CatalogEmbedding \<Rightarrow> bool" where
  "validEmbedding embedding \<longleftrightarrow> emb_NodeID embedding \<noteq> '''' \<and> emb_Text embedding \<noteq> '''' \<and> emb_Vector embedding \<noteq> []
     \<and> emb_Source embedding \<in> set catalogEmbeddingSources"

definition writeCatalogEmbedding :: "Snapshot \<Rightarrow> CatalogEmbedding \<Rightarrow> CatalogStore \<Rightarrow> StoreError + CatalogStore" where
  "writeCatalogEmbedding snapshot embedding s =
    (if \<not> validEmbedding embedding then Inl ErrInvalidRequest
     else let dimensions = length (emb_Vector embedding) in
       res_bind (ensureVectorTable dimensions s) (\<lambda>s1.
       let serialized = serializeCatalogEmbedding (emb_Vector embedding) in
       res_bind (case find (embeddingAt snapshot (emb_NodeID embedding) (emb_Source embedding)) (cat_embeddings s1) of
           None \<Rightarrow> Inr s1
         | Some prior \<Rightarrow> res_map (\<lambda>s2. s2\<lparr>cat_embeddings := filter (\<lambda>r. er_id r \<noteq> er_id prior) (cat_embeddings s2)\<rparr>)
             (onVectors (er_dimensions prior) (deleteVector (er_id prior)) s1)) (\<lambda>s3.
       let embeddingID = nextEmbeddingID (cat_embeddings s3) in
       onVectors dimensions (insertVector embeddingID serialized) (s3\<lparr>cat_embeddings := cat_embeddings s3 @
         [\<lparr>er_id = embeddingID, er_workspace = snap_Workspace snapshot, er_version = snap_Version snapshot,
           er_node_id = emb_NodeID embedding, er_source = emb_Source embedding, er_text = emb_Text embedding,
           er_dimensions = dimensions, er_vector = serialized\<rparr>]\<rparr>))))"

definition WriteCatalogEmbeddings :: "Snapshot \<Rightarrow> CatalogEmbedding list \<Rightarrow> CatalogStore \<Rightarrow> StoreError + CatalogStore" where
  "WriteCatalogEmbeddings snapshot embeddings s =
    (if missingSnapshot snapshot \<or> embeddings = [] then Inl ErrInvalidRequest
     else (case verifyCatalogSnapshot (cat_database s) snapshot of
       Some e \<Rightarrow> Inl e
     | None \<Rightarrow> fold_res (writeCatalogEmbedding snapshot) embeddings s))"

text \<open>SQL leaves the order of embeddings other than the deterministic one open; here it is the table's.\<close>

definition ReadCatalogEmbeddings :: "nat \<Rightarrow> Snapshot \<Rightarrow> string list \<Rightarrow> CatalogStore \<Rightarrow> StoreError + CatalogEmbedding list" where
  "ReadCatalogEmbeddings variableLimit snapshot nodeIDs s =
    (if missingSnapshot snapshot \<or> nodeIDs = [] \<or> '''' \<in> set nodeIDs then Inl ErrInvalidRequest
     else if length nodeIDs + 2 > variableLimit then Inl (ErrDatabase ''too many SQL variables'')
     else mapRes (\<lambda>r. res_map (\<lambda>vector. \<lparr>emb_NodeID = er_node_id r, emb_Source = er_source r, emb_Text = er_text r,
           emb_Vector = vector\<rparr>) (deserializeCatalogEmbedding (er_vector r)))
       (sort_key (\<lambda>r. (er_node_id r, if er_source r = ''deterministic'' then 0 else (1::nat)))
         (filter (\<lambda>r. er_workspace r = snap_Workspace snapshot \<and> er_version r = snap_Version snapshot
           \<and> er_node_id r \<in> set nodeIDs) (cat_embeddings s))))"

subsection \<open>Deletion\<close>

definition deleteCatalogEmbeddingVectors :: "(CatalogEmbeddingRow \<Rightarrow> bool) \<Rightarrow> CatalogStore \<Rightarrow> StoreError + CatalogStore" where
  "deleteCatalogEmbeddingVectors condition s =
     fold_res (\<lambda>r. onVectors (er_dimensions r) (deleteVector (er_id r))) (filter condition (cat_embeddings s)) s"

definition deleteEmbeddingRows :: "(CatalogEmbeddingRow \<Rightarrow> bool) \<Rightarrow> CatalogStore \<Rightarrow> StoreError + CatalogStore" where
  "deleteEmbeddingRows condition s =
     res_map (\<lambda>s1. s1\<lparr>cat_embeddings := filter (\<lambda>r. \<not> condition r) (cat_embeddings s1)\<rparr>) (deleteCatalogEmbeddingVectors condition s)"

definition deleteCatalogEmbeddings :: "string \<Rightarrow> GraphVersion \<Rightarrow> string \<Rightarrow> CatalogStore \<Rightarrow> StoreError + CatalogStore" where
  "deleteCatalogEmbeddings ws version nodeID =
     deleteEmbeddingRows (\<lambda>r. er_workspace r = ws \<and> er_version r = version \<and> er_node_id r = nodeID)"

definition deleteCatalogEmbeddingsByVersion :: "string \<Rightarrow> (GraphVersion \<Rightarrow> bool) \<Rightarrow> CatalogStore \<Rightarrow> StoreError + CatalogStore" where
  "deleteCatalogEmbeddingsByVersion ws comparison = deleteEmbeddingRows (\<lambda>r. er_workspace r = ws \<and> comparison (er_version r))"

definition deleteCatalogEntry :: "Snapshot \<Rightarrow> string \<Rightarrow> CatalogStore \<Rightarrow> StoreError + CatalogStore" where
  "deleteCatalogEntry snapshot nodeID s =
    (if nodeID = '''' then Inl ErrInvalidRequest
     else res_map (\<lambda>s1. s1\<lparr>cat_entries := filter (\<lambda>r. \<not> entryAt snapshot nodeID r) (cat_entries s1),
         cat_search := filter (\<lambda>r. \<not> searchAt snapshot nodeID r) (cat_search s1)\<rparr>)
       (deleteCatalogEmbeddings (snap_Workspace snapshot) (snap_Version snapshot) nodeID s))"

definition DeleteCatalogEntries :: "Snapshot \<Rightarrow> string list \<Rightarrow> CatalogStore \<Rightarrow> StoreError + CatalogStore" where
  "DeleteCatalogEntries snapshot nodeIDs s =
    (if missingSnapshot snapshot \<or> nodeIDs = [] then Inl ErrInvalidRequest
     else (case verifyCatalogSnapshot (cat_database s) snapshot of
       Some e \<Rightarrow> Inl e
     | None \<Rightarrow> fold_res (deleteCatalogEntry snapshot) nodeIDs s))"

text \<open>
  Rollback and Prune with the statements they run on the catalog tables between those on the graph
  tables, which touch no catalog table.
\<close>

definition deleteCatalogVersions :: "string \<Rightarrow> (GraphVersion \<Rightarrow> bool) \<Rightarrow> CatalogStore \<Rightarrow> StoreError + CatalogStore" where
  "deleteCatalogVersions ws comparison s =
     deleteCatalogEmbeddingsByVersion ws comparison
       (s\<lparr>cat_entries := filter (\<lambda>r. \<not> (cr_workspace r = ws \<and> comparison (cr_version r))) (cat_entries s),
          cat_search := filter (\<lambda>r. \<not> (cs_workspace r = ws \<and> comparison (cs_version r))) (cat_search s)\<rparr>)"

definition RollbackCatalog :: "RollbackRequest \<Rightarrow> CatalogStore \<Rightarrow> StoreError + Snapshot \<times> CatalogStore" where
  "RollbackCatalog request s =
     res_bind (Rollback request (cat_database s)) (\<lambda>(snapshot, db).
     res_map (\<lambda>s1. (snapshot, s1\<lparr>cat_database := db\<rparr>))
       (deleteCatalogVersions (rb_Workspace request) (\<lambda>v. v > rb_Version request) s))"

definition PruneCatalog :: "PruneRequest \<Rightarrow> CatalogStore \<Rightarrow> StoreError + nat \<times> CatalogStore" where
  "PruneCatalog request s =
     res_bind (Prune request (cat_database s)) (\<lambda>(pruned, db).
     res_map (\<lambda>s1. (pruned, s1\<lparr>cat_database := db\<rparr>))
       (deleteCatalogVersions (prune_Workspace request) (\<lambda>v. v < prune_BeforeVersion request) s))"

subsection \<open>Copying a catalog to another version\<close>

definition visibleNodeIDs :: "Database \<Rightarrow> Snapshot \<Rightarrow> string list" where
  "visibleNodeIDs db snapshot = dedup (map node_ID (visibleNodes db (snap_Workspace snapshot) (snap_Version snapshot)))"

definition copiedEntries :: "Snapshot \<Rightarrow> Snapshot \<Rightarrow> CatalogStore \<Rightarrow> CatalogEntry list" where
  "copiedEntries source target s = map cr_entry (filter (\<lambda>r. cr_workspace r = snap_Workspace source \<and> cr_version r = snap_Version source
     \<and> ce_NodeID (cr_entry r) \<in> set (visibleNodeIDs (cat_database s) target)) (cat_entries s))"

definition copiedEmbeddings :: "Snapshot \<Rightarrow> Snapshot \<Rightarrow> CatalogStore \<Rightarrow> CatalogEmbeddingRow list" where
  "copiedEmbeddings source target s = filter (\<lambda>r. er_workspace r = snap_Workspace source \<and> er_version r = snap_Version source
     \<and> er_node_id r \<in> set (visibleNodeIDs (cat_database s) target)) (cat_embeddings s)"

definition upsertEmbedding :: "Snapshot \<Rightarrow> CatalogEmbeddingRow \<Rightarrow> CatalogEmbeddingRow list \<Rightarrow> CatalogEmbeddingRow list" where
  "upsertEmbedding target e rows =
    (if list_ex (embeddingAt target (er_node_id e) (er_source e)) rows
     then map (\<lambda>r. if embeddingAt target (er_node_id e) (er_source e) r
       then r\<lparr>er_text := er_text e, er_dimensions := er_dimensions e, er_vector := er_vector e\<rparr> else r) rows
     else rows @ [e\<lparr>er_id := nextEmbeddingID rows, er_workspace := snap_Workspace target, er_version := snap_Version target\<rparr>])"

definition atSnapshot :: "Snapshot \<Rightarrow> CatalogEmbeddingRow \<Rightarrow> bool" where
  "atSnapshot snapshot r \<longleftrightarrow> er_workspace r = snap_Workspace snapshot \<and> er_version r = snap_Version snapshot"

text \<open>What INSERT OR REPLACE makes of the rows of a vec0 table: an error, or its rows afterwards.\<close>

type_synonym VectorReplace = "(int \<times> string) list \<Rightarrow> (int \<times> string) list \<Rightarrow> StoreError + (int \<times> string) list"

definition copyVectors :: "VectorReplace \<Rightarrow> Snapshot \<Rightarrow> nat \<Rightarrow> CatalogStore \<Rightarrow> StoreError + CatalogStore" where
  "copyVectors replace snapshot dimensions s =
     res_bind (ensureVectorTable dimensions s) (\<lambda>s1.
       onVectors dimensions (replace (map (\<lambda>r. (er_id r, er_vector r))
         (filter (\<lambda>r. atSnapshot snapshot r \<and> er_dimensions r = dimensions) (cat_embeddings s1)))) s1)"

definition copyCatalogEmbeddingVectors :: "VectorReplace \<Rightarrow> Snapshot \<Rightarrow> CatalogStore \<Rightarrow> StoreError + CatalogStore" where
  "copyCatalogEmbeddingVectors replace snapshot s =
     fold_res (copyVectors replace snapshot) (dedup (map er_dimensions (filter (atSnapshot snapshot) (cat_embeddings s)))) s"

definition CopyCatalog :: "VectorReplace \<Rightarrow> Snapshot \<Rightarrow> Snapshot \<Rightarrow> CatalogStore \<Rightarrow> StoreError + CatalogStore" where
  "CopyCatalog replace source target s =
    (if missingSnapshot source \<or> missingSnapshot target \<or> snap_Workspace source \<noteq> snap_Workspace target then Inl ErrInvalidRequest
     else (case err_seq (verifyCatalogSnapshot (cat_database s) source) (verifyCatalogSnapshot (cat_database s) target) of
       Some e \<Rightarrow> Inl e
     | None \<Rightarrow>
         let s1 = s\<lparr>cat_entries := fold (upsertEntry target) (copiedEntries source target s) (cat_entries s)\<rparr>;
             s2 = s1\<lparr>cat_embeddings := fold (upsertEmbedding target) (copiedEmbeddings source target s1) (cat_embeddings s1)\<rparr>
         in res_map (\<lambda>s3. s3\<lparr>cat_search :=
             filter (\<lambda>r. \<not> searchIn target r) (cat_search s3) @ map searchRow (filter (entryIn target) (cat_entries s3))\<rparr>)
           (copyCatalogEmbeddingVectors replace target s2)))"

subsection \<open>Search\<close>

text \<open>
  bm25 of the full text table under the weights of the query (None: the row does not match) and the
  distance of two stored vectors are parameters.  visible_nodes is a UNION: every visible row once.
\<close>

definition SearchCatalog :: "UnicodeTables \<Rightarrow> (CatalogSearchRow list \<Rightarrow> string \<Rightarrow> CatalogSearchRow \<Rightarrow> float64 option)
    \<Rightarrow> Snapshot \<Rightarrow> CatalogSearchRequest \<Rightarrow> CatalogStore \<Rightarrow> StoreError + CatalogMatch list" where
  "SearchCatalog u bm25 snapshot request s =
    (if missingSnapshot snapshot \<or> csr_Limit request \<le> 0 then Inl ErrInvalidRequest
     else let expression = join '' OR '' (quotedLexicalTerms (lexicalTerms u (csr_Text request)) True) in
       if expression = '''' then Inl ErrInvalidRequest
       else let ws = snap_Workspace snapshot; v = snap_Version snapshot;
           rows = concat (map (\<lambda>r. case bm25 (cat_search s) expression r of None \<Rightarrow> []
             | Some score \<Rightarrow> map (\<lambda>n. (score, r, n)) (filter (\<lambda>n. node_ID n = cs_node_id r) (dedup (visibleNodes (cat_database s) ws v))))
             (filter (searchIn snapshot) (cat_search s)))
         in Inr (map (\<lambda>(score, r, n). \<lparr>cm_Node = n, cm_Entry = \<lparr>ce_NodeID = cs_node_id r, ce_Name = cs_name r, ce_InputFingerprint = '''',
               ce_DeterministicSynopsis = cs_deterministic r, ce_CopilotSynopsis = cs_copilot r, ce_OllamaSynopsis = cs_ollama r,
               ce_ClaudeSynopsis = cs_claude r\<rparr>, cm_Score = - score\<rparr>)
             (take (nat (csr_Limit request)) (sort_key (\<lambda>(score, r, n). (score, node_QualifiedName n, node_ID n)) rows))))"

definition rankedVectorNodes :: "Snapshot \<Rightarrow> (int \<times> float64) list \<Rightarrow> CatalogEmbeddingRow list \<Rightarrow> (string \<times> float64) list" where
  "rankedVectorNodes snapshot vectorMatches embeddings =
    (let rows = concat (map (\<lambda>m. map (\<lambda>r. (er_node_id r, snd m))
           (filter (\<lambda>r. er_id r = fst m \<and> atSnapshot snapshot r) embeddings)) vectorMatches);
         nodeIDs = dedup (map fst rows)
     in sort_key (\<lambda>(nodeID, d). (d, nodeID))
          (map (\<lambda>nodeID. (nodeID, Min (set (map snd (filter (\<lambda>row. fst row = nodeID) rows))))) nodeIDs))"

definition SearchCatalogVectors :: "(string \<Rightarrow> string \<Rightarrow> float64) \<Rightarrow> Snapshot \<Rightarrow> CatalogVectorSearchRequest \<Rightarrow> CatalogStore
    \<Rightarrow> StoreError + CatalogMatch list" where
  "SearchCatalogVectors distance snapshot request s =
    (if missingSnapshot snapshot \<or> cvr_Vector request = [] \<or> cvr_Limit request \<le> 0 then Inl ErrInvalidRequest
     else (case cat_vectors s (length (cvr_Vector request)) of
       None \<Rightarrow> Inr []
     | Some table \<Rightarrow>
         let ws = snap_Workspace snapshot; v = snap_Version snapshot;
             vectorMatches = take (nat (cvr_Limit request * 2)) (sort_key snd
               (map (\<lambda>row. (fst row, distance (snd row) (serializeCatalogEmbedding (cvr_Vector request)))) table));
             rankedNodes = take (nat (cvr_Limit request)) (rankedVectorNodes snapshot vectorMatches (cat_embeddings s));
             rows = concat (map (\<lambda>ranked. concat (map (\<lambda>r. map (\<lambda>n. (snd ranked, cr_entry r, n))
               (filter (\<lambda>n. node_ID n = ce_NodeID (cr_entry r)) (dedup (visibleNodes (cat_database s) ws v))))
               (filter (entryAt snapshot (fst ranked)) (cat_entries s)))) rankedNodes)
         in Inr (map (\<lambda>(d, entry, n). \<lparr>cm_Node = n, cm_Entry = entry\<lparr>ce_InputFingerprint := ''''\<rparr>, cm_Score = - d\<rparr>)
             (sort_key (\<lambda>(d, entry, n). (d, node_QualifiedName n, node_ID n)) rows))))"

section \<open>The indexes mirror the catalog\<close>

named_theorems catalog_simps \<open>fields a catalog operation leaves alone\<close>

definition entryKey :: "CatalogEntryRow \<Rightarrow> string \<times> GraphVersion \<times> string" where
  "entryKey r = (cr_workspace r, cr_version r, ce_NodeID (cr_entry r))"

definition searchKey :: "CatalogSearchRow \<Rightarrow> string \<times> GraphVersion \<times> string" where
  "searchKey r = (cs_workspace r, cs_version r, cs_node_id r)"

definition embeddingKey :: "CatalogEmbeddingRow \<Rightarrow> string \<times> GraphVersion \<times> string \<times> string" where
  "embeddingKey r = (er_workspace r, er_version r, er_node_id r, er_source r)"

definition vectorOf :: "CatalogEmbeddingRow \<Rightarrow> int \<times> string" where
  "vectorOf r = (er_id r, er_vector r)"

definition vectorRows :: "(nat \<Rightarrow> (int \<times> string) list option) \<Rightarrow> nat \<Rightarrow> (int \<times> string) list" where
  "vectorRows vectors d = (case vectors d of None \<Rightarrow> [] | Some rows \<Rightarrow> rows)"

definition search_mirrors :: "CatalogEntryRow list \<Rightarrow> CatalogSearchRow list \<Rightarrow> bool" where
  "search_mirrors entries search \<longleftrightarrow> distinct (map entryKey entries) \<and> distinct (map searchKey search)
     \<and> set search = searchRow ` set entries"

definition embedding_rows_ok :: "CatalogEmbeddingRow list \<Rightarrow> bool" where
  "embedding_rows_ok rows \<longleftrightarrow> distinct (map embeddingKey rows) \<and> distinct (map er_id rows)
     \<and> (\<forall>r\<in>set rows. 0 < er_dimensions r \<and> er_dimensions r \<le> 8192 \<and> length (er_vector r) = 4 * er_dimensions r)"

text \<open>
  Every stored vector is in the table of its dimension under its id.  A table may hold more: a stale
  vector belongs to no stored embedding of its dimension.
\<close>

definition vectors_cover :: "CatalogEmbeddingRow list \<Rightarrow> (nat \<Rightarrow> (int \<times> string) list option) \<Rightarrow> bool" where
  "vectors_cover rows vectors \<longleftrightarrow> (\<forall>r\<in>set rows. vectors (er_dimensions r) \<noteq> None)
     \<and> (\<forall>d. distinct (map fst (vectorRows vectors d))
        \<and> vectorOf ` {r \<in> set rows. er_dimensions r = d} \<subseteq> set (vectorRows vectors d))"

definition stale :: "CatalogEmbeddingRow list \<Rightarrow> (nat \<Rightarrow> (int \<times> string) list option) \<Rightarrow> nat \<Rightarrow> (int \<times> string) set" where
  "stale rows vectors d = set (vectorRows vectors d) - vectorOf ` {r \<in> set rows. er_dimensions r = d}"

definition staleVectors :: "CatalogStore \<Rightarrow> nat \<Rightarrow> (int \<times> string) set" where
  "staleVectors s = stale (cat_embeddings s) (cat_vectors s)"

definition catalog_ok :: "CatalogStore \<Rightarrow> bool" where
  "catalog_ok s \<longleftrightarrow> search_mirrors (cat_entries s) (cat_search s) \<and> embedding_rows_ok (cat_embeddings s)
     \<and> vectors_cover (cat_embeddings s) (cat_vectors s)"

subsection \<open>Entries\<close>

lemma entryAt_key: "entryAt sn n r \<longleftrightarrow> entryKey r = (snap_Workspace sn, snap_Version sn, n)"
  by (auto simp: entryAt_def entryKey_def)

lemma searchAt_key: "searchAt sn n r \<longleftrightarrow> searchKey r = (snap_Workspace sn, snap_Version sn, n)"
  by (auto simp: searchAt_def searchKey_def)

lemma searchKey_row [simp]: "searchKey (searchRow r) = entryKey r"
  by (simp add: searchKey_def searchRow_def entryKey_def)

lemma entryKey_row [simp]: "entryKey (entryRow sn e) = (snap_Workspace sn, snap_Version sn, ce_NodeID e)"
  by (simp add: entryKey_def entryRow_def)

lemma replaced_entry: "entryAt sn n r \<Longrightarrow> r\<lparr>cr_entry := e\<rparr> = entryRow sn e"
  by (cases r) (simp add: entryAt_def entryRow_def)

lemma upsertEntry_eq: "upsertEntry sn e rows =
    (if list_ex (entryAt sn (ce_NodeID e)) rows
     then map (\<lambda>r. if entryAt sn (ce_NodeID e) r then entryRow sn e else r) rows else rows @ [entryRow sn e])"
  unfolding upsertEntry_def by (simp add: replaced_entry cong: map_cong if_cong)

lemma set_upsertEntry:
  "set (upsertEntry sn e rows) = insert (entryRow sn e) {r \<in> set rows. \<not> entryAt sn (ce_NodeID e) r}"
  unfolding upsertEntry_eq by (auto simp: list_ex_iff image_iff)

lemma upsertEntry_keys:
  "distinct (map entryKey rows) \<Longrightarrow> distinct (map entryKey (upsertEntry sn e rows))"
proof (cases "list_ex (entryAt sn (ce_NodeID e)) rows")
  case True
  have "map entryKey (upsertEntry sn e rows) = map entryKey rows"
    using True by (simp add: upsertEntry_def entryAt_key replaced_entry)
  then show "distinct (map entryKey rows) \<Longrightarrow> ?thesis" by simp
next
  case False
  then show "distinct (map entryKey rows) \<Longrightarrow> ?thesis" by (auto simp: upsertEntry_def list_ex_iff entryAt_key)
qed

lemma search_mirrors_upsert:
  assumes "search_mirrors entries search"
  shows "search_mirrors (upsertEntry sn e entries)
    (filter (\<lambda>r. \<not> searchAt sn (ce_NodeID e) r) search @ [searchRow (entryRow sn e)])"
proof -
  have "distinct (map searchKey (filter (\<lambda>r. \<not> searchAt sn (ce_NodeID e) r) search))"
    using assms unfolding search_mirrors_def by (simp add: distinct_map_filter)
  then show ?thesis using assms upsertEntry_keys[of entries sn e]
    unfolding search_mirrors_def set_upsertEntry by (auto simp: searchAt_key entryAt_key)
qed

lemma search_mirrors_filter:
  assumes "search_mirrors entries search" "\<And>r. P r \<longleftrightarrow> Q (searchRow r)"
  shows "search_mirrors (filter P entries) (filter Q search)"
  using assms unfolding search_mirrors_def by (auto simp: distinct_map_filter)

lemma fold_upsertEntry_keys:
  "distinct (map entryKey rows) \<Longrightarrow> distinct (map entryKey (fold (upsertEntry sn) es rows))"
  by (induction es arbitrary: rows) (simp_all add: upsertEntry_keys)

lemma entryIn_row [simp]: "entryIn sn (entryRow sn e)"
  by (simp add: entryIn_def entryRow_def)

lemma entryAt_in: "entryAt sn n r \<Longrightarrow> entryIn sn r"
  by (simp add: entryAt_def entryIn_def)

lemma filter_map_replaced: "(\<And>x. Q x \<Longrightarrow> \<not> P x) \<Longrightarrow> \<not> P y \<Longrightarrow> filter P (map (\<lambda>x. if Q x then y else x) xs) = filter P xs"
  by (induction xs) auto

lemma upsertEntry_elsewhere:
  "filter (\<lambda>r. \<not> entryIn sn r) (upsertEntry sn e rows) = filter (\<lambda>r. \<not> entryIn sn r) rows"
  unfolding upsertEntry_eq by (simp add: filter_map_replaced entryAt_in)

lemma fold_upsertEntry_elsewhere:
  "filter (\<lambda>r. \<not> entryIn sn r) (fold (upsertEntry sn) es rows) = filter (\<lambda>r. \<not> entryIn sn r) rows"
  by (induction es arbitrary: rows) (simp_all add: upsertEntry_elsewhere)

lemma search_mirrors_rebuilt:
  assumes "search_mirrors entries search"
  shows "search_mirrors (fold (upsertEntry sn) es entries) (filter (\<lambda>r. \<not> searchIn sn r) search
     @ map searchRow (filter (entryIn sn) (fold (upsertEntry sn) es entries)))"
proof -
  let ?entries = "fold (upsertEntry sn) es entries"
  have keys: "distinct (map entryKey ?entries)" using assms fold_upsertEntry_keys by (simp add: search_mirrors_def)
  have "search_mirrors (filter (\<lambda>r. \<not> entryIn sn r) entries) (filter (\<lambda>r. \<not> searchIn sn r) search)"
    by (rule search_mirrors_filter[OF assms]) (simp add: searchRow_def entryIn_def searchIn_def)
  then have "search_mirrors (filter (\<lambda>r. \<not> entryIn sn r) ?entries) (filter (\<lambda>r. \<not> searchIn sn r) search)"
    by (simp only: fold_upsertEntry_elsewhere)
  then have old: "distinct (map searchKey (filter (\<lambda>r. \<not> searchIn sn r) search))"
    "set (filter (\<lambda>r. \<not> searchIn sn r) search) = searchRow ` set (filter (\<lambda>r. \<not> entryIn sn r) ?entries)"
    by (simp_all add: search_mirrors_def)
  have new: "map searchKey (map searchRow (filter (entryIn sn) ?entries)) = map entryKey (filter (entryIn sn) ?entries)" by simp
  have "distinct (map entryKey (filter (entryIn sn) ?entries))" using keys by (rule distinct_map_filter)
  moreover have "set (map searchKey (filter (\<lambda>r. \<not> searchIn sn r) search)) \<inter> set (map entryKey (filter (entryIn sn) ?entries)) = {}"
    by (auto simp: searchKey_def entryKey_def searchIn_def entryIn_def)
  moreover have "set (filter (\<lambda>r. \<not> searchIn sn r) search @ map searchRow (filter (entryIn sn) ?entries)) = searchRow ` set ?entries"
    unfolding set_append old(2) by auto
  ultimately show ?thesis unfolding search_mirrors_def map_append distinct_append new
    using keys old(1) by blast
qed

subsection \<open>Vector encoding\<close>

lemma length_PutUint32 [simp]: "length (PutUint32 w) = 4"
  by (simp add: PutUint32_def)

lemma byte_of_char: "(of_char (char_of (n :: nat)) :: nat) = n mod 256"
  by simp

lemma Uint32_PutUint32: "Uint32 (PutUint32 w @ rest) = w"
proof -
  have byte: "(word_of_nat (unat (drop_bit k w) mod 256) :: 32 word) = take_bit 8 (drop_bit k w)" for k
    by (simp add: unat_mod_distrib take_bit_eq_mod word_arith_nat_mod)
  have "Uint32 (PutUint32 w @ rest) = take_bit 8 (drop_bit 0 w) OR push_bit 8 (take_bit 8 (drop_bit 8 w)
     OR push_bit 8 (take_bit 8 (drop_bit 16 w) OR push_bit 8 (take_bit 8 (drop_bit 24 w) OR push_bit 8 0)))"
    by (simp add: Uint32_def PutUint32_def byte_of_char byte del: drop_bit_0)
  also have "\<dots> = w"
  proof (rule bit_word_eqI)
    fix n assume "n < LENGTH(32)"
    then show "bit (take_bit 8 (drop_bit 0 w) OR push_bit 8 (take_bit 8 (drop_bit 8 w)
     OR push_bit 8 (take_bit 8 (drop_bit 16 w) OR push_bit 8 (take_bit 8 (drop_bit 24 w) OR push_bit 8 0)))) n = bit w n"
      by (cases "n < 16"; cases "n < 24") (auto simp: bit_simps)
  qed
  finally show ?thesis .
qed

lemma length_serialize [simp]: "length (serializeCatalogEmbedding vector) = 4 * length vector"
  by (induction vector) (simp_all add: serializeCatalogEmbedding_def)

lemma drop_serialize: "index < length vector \<Longrightarrow>
   drop (index * 4) (serializeCatalogEmbedding vector) = PutUint32 (vector ! index) @ serializeCatalogEmbedding (drop (Suc index) vector)"
proof (induction vector arbitrary: index)
  case (Cons x vector)
  then show ?case by (cases index) (simp_all add: serializeCatalogEmbedding_def)
qed simp

lemma deserialize_serialize:
  assumes "vector \<noteq> []"
  shows "deserializeCatalogEmbedding (serializeCatalogEmbedding vector) = Inr vector"
proof -
  have "map (\<lambda>index. Uint32 (drop (index * 4) (serializeCatalogEmbedding vector))) [0..<length vector]
      = map ((!) vector) [0..<length vector]"
    by (rule map_cong[OF refl]) (simp add: drop_serialize Uint32_PutUint32)
  then show ?thesis using assms unfolding deserializeCatalogEmbedding_def length_serialize by (simp add: map_nth)
qed

lemma deserialize_ok:
  assumes "0 < n" "length bytes = 4 * n"
  shows "\<exists>vector. deserializeCatalogEmbedding bytes = Inr vector"
  unfolding deserializeCatalogEmbedding_def using assms by simp

subsection \<open>Embeddings and their vectors\<close>

lemma fold_max_id: "fold (\<lambda>r. max (er_id r)) rows m \<ge> m \<and> (\<forall>r\<in>set rows. er_id r \<le> fold (\<lambda>r. max (er_id r)) rows m)"
proof (induction rows arbitrary: m)
  case (Cons r rows)
  from Cons[of "max (er_id r) m"] show ?case by auto
qed simp

lemma nextEmbeddingID_fresh: "r \<in> set rows \<Longrightarrow> er_id r < nextEmbeddingID rows"
  using fold_max_id[of 0 rows] by (force simp: nextEmbeddingID_def)

lemma nextEmbeddingID_new: "nextEmbeddingID rows \<notin> er_id ` set rows"
  using nextEmbeddingID_fresh by force

lemma embeddingAt_key: "embeddingAt sn n source r \<longleftrightarrow> embeddingKey r = (snap_Workspace sn, snap_Version sn, n, source)"
  by (auto simp: embeddingAt_def embeddingKey_def)

lemma vectorRows_ensured [simp]:
  "vectorRows (v(d := (case v d of None \<Rightarrow> Some [] | Some rows \<Rightarrow> Some rows))) = vectorRows v"
  by (auto simp: vectorRows_def fun_eq_iff split: option.splits)

lemma vectors_cover_ensured:
  "vectors_cover rows v \<Longrightarrow> vectors_cover rows (v(d := (case v d of None \<Rightarrow> Some [] | Some rows \<Rightarrow> Some rows)))"
  unfolding vectors_cover_def by (simp split: option.splits)

lemma stale_ensured [simp]: "stale rows (v(d := (case v d of None \<Rightarrow> Some [] | Some rows \<Rightarrow> Some rows))) = stale rows v"
  by (simp add: stale_def fun_eq_iff)

lemma fst_vectorOf [simp]: "fst (vectorOf r) = er_id r"
  by (simp add: vectorOf_def)

lemma vectors_coverD:
  assumes "vectors_cover rows v"
  shows "r \<in> set rows \<Longrightarrow> v (er_dimensions r) \<noteq> None" and "distinct (map fst (vectorRows v d))"
    and "r \<in> set rows \<Longrightarrow> vectorOf r \<in> set (vectorRows v (er_dimensions r))"
  using assms by (auto simp: vectors_cover_def)

text \<open>The row of a stored embedding is the only one under its id.\<close>

lemma covered_row:
  assumes "vectors_cover rows v" "r \<in> set rows" "row \<in> set (vectorRows v (er_dimensions r))" "fst row = er_id r"
  shows "row = vectorOf r"
proof -
  have "inj_on fst (set (vectorRows v (er_dimensions r)))" using vectors_coverD(2)[OF assms(1)] by (simp add: distinct_map)
  then show ?thesis by (rule inj_onD) (use assms vectors_coverD(3)[OF assms(1)] in simp_all)
qed

lemma same_id: "embedding_rows_ok rows \<Longrightarrow> r \<in> set rows \<Longrightarrow> r' \<in> set rows \<Longrightarrow> er_id r = er_id r' \<Longrightarrow> r = r'"
  by (auto simp: embedding_rows_ok_def distinct_map inj_on_def)

lemma same_embedding_key:
  "embedding_rows_ok rows \<Longrightarrow> r \<in> set rows \<Longrightarrow> r' \<in> set rows \<Longrightarrow> embeddingKey r = embeddingKey r' \<Longrightarrow> r = r'"
  by (auto simp: embedding_rows_ok_def distinct_map inj_on_def)

lemma embedding_rows_ok_filter: "embedding_rows_ok rows \<Longrightarrow> embedding_rows_ok (filter P rows)"
  by (simp add: embedding_rows_ok_def distinct_map_filter)

lemma vectors_delete:
  assumes "embedding_rows_ok rows" "vectors_cover rows v"
    and "\<And>d. v' d = map_option (filter (\<lambda>row. fst row \<notin> er_id ` {r \<in> set rows. P r \<and> er_dimensions r = d})) (v d)"
  shows "vectors_cover (filter (\<lambda>r. \<not> P r) rows) v'" and "stale (filter (\<lambda>r. \<not> P r) rows) v' = stale rows v"
proof -
  let ?gone = "\<lambda>d. er_id ` {r \<in> set rows. P r \<and> er_dimensions r = d}"
  have rows': "vectorRows v' d = filter (\<lambda>row. fst row \<notin> ?gone d) (vectorRows v d)" for d
    using assms(3) by (simp add: vectorRows_def split: option.splits)
  have "vectorOf r \<in> set (vectorRows v' (er_dimensions r))" if "r \<in> set rows" "\<not> P r" for r
    using that vectors_coverD(3)[OF assms(2)] same_id[OF assms(1)] unfolding rows' by auto
  moreover have "distinct (map fst (vectorRows v' d))" for d
    unfolding rows' using vectors_coverD(2)[OF assms(2)] by (rule distinct_map_filter)
  moreover have "\<forall>r\<in>set (filter (\<lambda>r. \<not> P r) rows). v' (er_dimensions r) \<noteq> None"
    using vectors_coverD(1)[OF assms(2)] assms(3) by simp
  ultimately show "vectors_cover (filter (\<lambda>r. \<not> P r) rows) v'" by (auto simp: vectors_cover_def)
  have "stale (filter (\<lambda>r. \<not> P r) rows) v' d = stale rows v d" for d
  proof (rule set_eqI, rule iffI)
    fix row assume "row \<in> stale (filter (\<lambda>r. \<not> P r) rows) v' d"
    then show "row \<in> stale rows v d" by (auto simp: stale_def rows')
  next
    fix row assume row: "row \<in> stale rows v d"
    have "fst row \<notin> ?gone d"
    proof
      assume "fst row \<in> ?gone d"
      then obtain r where "r \<in> set rows" "er_dimensions r = d" "fst row = er_id r" by auto
      then show False using covered_row[OF assms(2), of r row] row by (auto simp: stale_def)
    qed
    then show "row \<in> stale (filter (\<lambda>r. \<not> P r) rows) v' d" using row by (auto simp: stale_def rows')
  qed
  then show "stale (filter (\<lambda>r. \<not> P r) rows) v' = stale rows v" by (simp add: fun_eq_iff)
qed

lemma vectors_insert:
  assumes "vectors_cover rows v" "v (er_dimensions r) = Some table" "er_id r \<notin> set (map fst table)"
  shows "vectors_cover (rows @ [r]) (v(er_dimensions r \<mapsto> table @ [vectorOf r]))"
    and "stale (rows @ [r]) (v(er_dimensions r \<mapsto> table @ [vectorOf r])) = stale rows v"
proof -
  have table: "vectorRows v (er_dimensions r) = table" using assms(2) by (simp add: vectorRows_def)
  have rows': "vectorRows (v(er_dimensions r \<mapsto> table @ [vectorOf r])) d
      = (if d = er_dimensions r then table @ [vectorOf r] else vectorRows v d)" for d by (simp add: vectorRows_def)
  have stored: "{x \<in> set (rows @ [r]). er_dimensions x = d}
      = {x \<in> set rows. er_dimensions x = d} \<union> (if d = er_dimensions r then {r} else {})" for d by auto
  have "distinct (map fst (vectorRows (v(er_dimensions r \<mapsto> table @ [vectorOf r])) d))" for d
    using assms(3) vectors_coverD(2)[OF assms(1), of d] unfolding rows' by (auto simp: table)
  moreover have "vectorOf ` {x \<in> set (rows @ [r]). er_dimensions x = d} \<subseteq> set (vectorRows (v(er_dimensions r \<mapsto> table @ [vectorOf r])) d)" for d
  proof -
    have "vectorOf ` {x \<in> set rows. er_dimensions x = d} \<subseteq> set (vectorRows v d)" using assms(1) by (simp add: vectors_cover_def)
    then show ?thesis unfolding rows' stored image_Un by (cases "d = er_dimensions r") (simp_all add: table subset_insertI2)
  qed
  moreover have "\<forall>x\<in>set (rows @ [r]). (v(er_dimensions r \<mapsto> table @ [vectorOf r])) (er_dimensions x) \<noteq> None"
    using vectors_coverD(1)[OF assms(1)] by simp
  ultimately show "vectors_cover (rows @ [r]) (v(er_dimensions r \<mapsto> table @ [vectorOf r]))" by (simp add: vectors_cover_def)
  have "vectorOf r \<notin> set table" using assms(3) by (metis fst_vectorOf image_eqI list.set_map)
  then show "stale (rows @ [r]) (v(er_dimensions r \<mapsto> table @ [vectorOf r])) = stale rows v"
    unfolding stale_def fun_eq_iff rows' stored by (auto simp: table)
qed

lemma map_option_keep: "map_option (filter (\<lambda>row. True)) rows = rows"
  by (cases rows) simp_all

lemma delete_vectors:
  assumes "\<forall>r\<in>set rs. cat_vectors s (er_dimensions r) \<noteq> None"
  shows "fold_res (\<lambda>r. onVectors (er_dimensions r) (deleteVector (er_id r))) rs s
    = Inr (s\<lparr>cat_vectors := \<lambda>d. map_option (filter (\<lambda>row. fst row \<notin> er_id ` {r \<in> set rs. er_dimensions r = d})) (cat_vectors s d)\<rparr>)"
  using assms
proof (induction rs arbitrary: s)
  case Nil
  show ?case by (simp add: option.map_ident)
next
  case (Cons r rs)
  obtain rows where rows: "cat_vectors s (er_dimensions r) = Some rows" using Cons.prems by auto
  let ?s = "s\<lparr>cat_vectors := (cat_vectors s)(er_dimensions r \<mapsto> filter (\<lambda>row. fst row \<noteq> er_id r) rows)\<rparr>"
  have "map_option (filter (\<lambda>row. fst row \<notin> er_id ` {r \<in> set rs. er_dimensions r = d})) (cat_vectors ?s d)
      = map_option (filter (\<lambda>row. fst row \<notin> er_id ` {r' \<in> set (r # rs). er_dimensions r' = d})) (cat_vectors s d)" for d
  proof (cases "d = er_dimensions r")
    case True
    have "{r' \<in> set (r # rs). er_dimensions r' = d} = insert r {r' \<in> set rs. er_dimensions r' = d}" using True by auto
    then show ?thesis using True rows by (simp add: conj_commute)
  next
    case False
    then have "{r' \<in> set (r # rs). er_dimensions r' = d} = {r' \<in> set rs. er_dimensions r' = d}" by auto
    then show ?thesis using False by simp
  qed
  moreover have "\<forall>r\<in>set rs. cat_vectors ?s (er_dimensions r) \<noteq> None" using Cons.prems by simp
  ultimately show ?case using Cons.IH[of ?s] by (simp add: onVectors_def rows deleteVector_def)
qed

lemma deleteEmbeddingRows_ok:
  assumes "embedding_rows_ok (cat_embeddings s)" "vectors_cover (cat_embeddings s) (cat_vectors s)"
  obtains v where "deleteEmbeddingRows P s = Inr (s\<lparr>cat_vectors := v, cat_embeddings := filter (\<lambda>r. \<not> P r) (cat_embeddings s)\<rparr>)"
    "vectors_cover (filter (\<lambda>r. \<not> P r) (cat_embeddings s)) v" "stale (filter (\<lambda>r. \<not> P r) (cat_embeddings s)) v = staleVectors s"
proof -
  define v where "v d = map_option (filter (\<lambda>row. fst row \<notin> er_id ` {r \<in> set (filter P (cat_embeddings s)). er_dimensions r = d})) (cat_vectors s d)" for d
  have "deleteCatalogEmbeddingVectors P s = Inr (s\<lparr>cat_vectors := v\<rparr>)"
    unfolding deleteCatalogEmbeddingVectors_def v_def
    by (rule delete_vectors) (use vectors_coverD(1)[OF assms(2)] in simp)
  then have "deleteEmbeddingRows P s = Inr (s\<lparr>cat_vectors := v, cat_embeddings := filter (\<lambda>r. \<not> P r) (cat_embeddings s)\<rparr>)"
    by (simp add: deleteEmbeddingRows_def)
  moreover have v: "v d = map_option (filter (\<lambda>row. fst row \<notin> er_id ` {r \<in> set (cat_embeddings s). P r \<and> er_dimensions r = d})) (cat_vectors s d)" for d
    by (simp add: v_def conj_assoc)
  ultimately show ?thesis using vectors_delete[of "cat_embeddings s" "cat_vectors s" v P, OF assms v]
    by (intro that[of v]) (simp_all only: staleVectors_def)
qed

definition embeddingRow :: "int \<Rightarrow> Snapshot \<Rightarrow> CatalogEmbedding \<Rightarrow> CatalogEmbeddingRow" where
  "embeddingRow rowid sn e = \<lparr>er_id = rowid, er_workspace = snap_Workspace sn, er_version = snap_Version sn,
     er_node_id = emb_NodeID e, er_source = emb_Source e, er_text = emb_Text e, er_dimensions = length (emb_Vector e),
     er_vector = serializeCatalogEmbedding (emb_Vector e)\<rparr>"

lemma embeddingKey_row [simp]:
  "embeddingKey (embeddingRow rowid sn e) = (snap_Workspace sn, snap_Version sn, emb_NodeID e, emb_Source e)"
  by (simp add: embeddingKey_def embeddingRow_def)

lemma prior_embedding:
  assumes "embedding_rows_ok rows" "find (embeddingAt sn n source) rows = Some prior"
  shows "prior \<in> set rows" and "filter (\<lambda>r. er_id r \<noteq> er_id prior) rows = filter (\<lambda>r. \<not> embeddingAt sn n source r) rows"
proof -
  have prior: "prior \<in> set rows" "embeddingAt sn n source prior" using assms(2) by (auto simp: find_Some_iff)
  then show "prior \<in> set rows" by simp
  have "er_id r = er_id prior \<longleftrightarrow> embeddingAt sn n source r" if r: "r \<in> set rows" for r
    using same_id[OF assms(1) r prior(1)] same_embedding_key[OF assms(1) r prior(1)] prior(2) unfolding embeddingAt_key by auto
  then show "filter (\<lambda>r. er_id r \<noteq> er_id prior) rows = filter (\<lambda>r. \<not> embeddingAt sn n source r) rows"
    by (auto intro: filter_cong)
qed

lemma embedding_rows_ok_write:
  assumes "embedding_rows_ok rows" "validEmbedding e" "length (emb_Vector e) \<le> 8192"
  shows "embedding_rows_ok (filter (\<lambda>r. \<not> embeddingAt sn (emb_NodeID e) (emb_Source e) r) rows
    @ [embeddingRow (nextEmbeddingID (filter (\<lambda>r. \<not> embeddingAt sn (emb_NodeID e) (emb_Source e) r) rows)) sn e])"
proof -
  let ?rows = "filter (\<lambda>r. \<not> embeddingAt sn (emb_NodeID e) (emb_Source e) r) rows"
  have "embedding_rows_ok ?rows" using assms(1) by (rule embedding_rows_ok_filter)
  moreover have "er_id (embeddingRow (nextEmbeddingID ?rows) sn e) \<notin> er_id ` set ?rows"
    using nextEmbeddingID_new[of ?rows] by (simp add: embeddingRow_def)
  moreover have "embeddingKey (embeddingRow (nextEmbeddingID ?rows) sn e) \<notin> embeddingKey ` set ?rows"
    by (auto simp: embeddingAt_key)
  moreover have "0 < length (emb_Vector e)" using assms(2) by (simp add: validEmbedding_def)
  ultimately show ?thesis using assms(3) unfolding embedding_rows_ok_def by (simp add: embeddingRow_def)
qed

text \<open>
  A write of an embedding of an allowed dimension succeeds and leaves no further vector behind, or it is
  refused because a stale vector occupies the new id.
\<close>

lemma writeCatalogEmbedding_cases:
  assumes "embedding_rows_ok (cat_embeddings s)" "vectors_cover (cat_embeddings s) (cat_vectors s)"
    and "validEmbedding e" "length (emb_Vector e) \<le> 8192"
    and "rows = filter (\<lambda>r. \<not> embeddingAt sn (emb_NodeID e) (emb_Source e) r) (cat_embeddings s)"
  obtains v where "writeCatalogEmbedding sn e s = Inr (s\<lparr>cat_vectors := v, cat_embeddings := rows @ [embeddingRow (nextEmbeddingID rows) sn e]\<rparr>)"
      "vectors_cover (rows @ [embeddingRow (nextEmbeddingID rows) sn e]) v"
      "stale (rows @ [embeddingRow (nextEmbeddingID rows) sn e]) v = staleVectors s"
    | d where "writeCatalogEmbedding sn e s = Inl (ErrDatabase ''UNIQUE constraint failed'')" "staleVectors s d \<noteq> {}"
proof -
  let ?d = "length (emb_Vector e)" and ?row = "embeddingRow (nextEmbeddingID rows) sn e"
  have d: "?d \<noteq> 0" using assms(3) by (simp add: validEmbedding_def)
  define v1 where "v1 = (cat_vectors s)(?d := (case cat_vectors s ?d of None \<Rightarrow> Some [] | Some rows \<Rightarrow> Some rows))"
  have ensured: "ensureVectorTable ?d s = Inr (s\<lparr>cat_vectors := v1\<rparr>)"
    using d assms(4) by (simp add: ensureVectorTable_def v1_def)
  have cover: "vectors_cover (cat_embeddings s) v1" unfolding v1_def using assms(2) by (rule vectors_cover_ensured)
  have stale: "stale (cat_embeddings s) v1 = staleVectors s" by (simp add: v1_def staleVectors_def)
  have v1: "v1 ?d \<noteq> None" by (simp add: v1_def split: option.splits)
  obtain v2 where cleared: "(case find (embeddingAt sn (emb_NodeID e) (emb_Source e)) (cat_embeddings s) of
           None \<Rightarrow> Inr (s\<lparr>cat_vectors := v1\<rparr>)
         | Some prior \<Rightarrow> res_map (\<lambda>s2. s2\<lparr>cat_embeddings := filter (\<lambda>r. er_id r \<noteq> er_id prior) (cat_embeddings s2)\<rparr>)
             (onVectors (er_dimensions prior) (deleteVector (er_id prior)) (s\<lparr>cat_vectors := v1\<rparr>)))
      = Inr (s\<lparr>cat_vectors := v2, cat_embeddings := rows\<rparr>)" "vectors_cover rows v2" "stale rows v2 = staleVectors s" "v2 ?d \<noteq> None"
  proof (cases "find (embeddingAt sn (emb_NodeID e) (emb_Source e)) (cat_embeddings s)")
    case None
    then have "rows = cat_embeddings s" unfolding assms(5) find_None_iff by (simp add: filter_id_conv)
    then show ?thesis using that[of v1] None cover stale v1 by simp
  next
    case (Some prior)
    note prior = prior_embedding[OF assms(1) Some, folded assms(5)]
    obtain table where table: "v1 (er_dimensions prior) = Some table" using vectors_coverD(1)[OF cover prior(1)] by auto
    let ?v = "v1(er_dimensions prior \<mapsto> filter (\<lambda>row. fst row \<noteq> er_id prior) table)"
    have v: "?v d = map_option (filter (\<lambda>row. fst row \<notin> er_id ` {r \<in> set (cat_embeddings s). er_id r = er_id prior \<and> er_dimensions r = d})) (v1 d)" for d
    proof -
      have "{r \<in> set (cat_embeddings s). er_id r = er_id prior \<and> er_dimensions r = d} = (if d = er_dimensions prior then {prior} else {})"
        using same_id[OF assms(1) _ prior(1)] prior(1) by auto
      then show ?thesis using table by (simp add: map_option_keep)
    qed
    note deleted = vectors_delete[of "cat_embeddings s" v1 ?v "\<lambda>r. er_id r = er_id prior", OF assms(1) cover v]
    moreover have "?v ?d \<noteq> None" using v1 by simp
    ultimately show ?thesis using that[of ?v] Some table prior(2) stale by (simp add: onVectors_def deleteVector_def)
  qed
  obtain table where table: "v2 ?d = Some table" using cleared(4) by auto
  have row: "er_dimensions ?row = ?d" "er_id ?row = nextEmbeddingID rows" "vectorOf ?row = (nextEmbeddingID rows, serializeCatalogEmbedding (emb_Vector e))"
    by (simp_all add: embeddingRow_def vectorOf_def)
  have result: "writeCatalogEmbedding sn e s = (if nextEmbeddingID rows \<in> set (map fst table) then Inl (ErrDatabase ''UNIQUE constraint failed'')
      else Inr (s\<lparr>cat_vectors := v2(?d \<mapsto> table @ [vectorOf ?row]), cat_embeddings := rows @ [?row]\<rparr>))"
    using assms(3) ensured cleared(1) table
    by (simp add: writeCatalogEmbedding_def Let_def onVectors_def insertVector_def row(3)) (simp add: embeddingRow_def)
  show ?thesis
  proof (cases "nextEmbeddingID rows \<in> set (map fst table)")
    case True
    then obtain x where x: "x \<in> set (vectorRows v2 ?d)" "fst x = nextEmbeddingID rows" using table by (auto simp: vectorRows_def)
    have "x \<notin> vectorOf ` {r \<in> set rows. er_dimensions r = ?d}"
    proof
      assume "x \<in> vectorOf ` {r \<in> set rows. er_dimensions r = ?d}"
      then have "nextEmbeddingID rows \<in> er_id ` set rows" using x(2) by (metis (no_types, lifting) fst_vectorOf imageE image_eqI mem_Collect_eq)
      then show False using nextEmbeddingID_new by simp
    qed
    then have "staleVectors s ?d \<noteq> {}" using x(1) unfolding cleared(3)[symmetric] by (auto simp: stale_def)
    then show ?thesis using True result by (intro that(2)) simp_all
  next
    case False
    note inserted = vectors_insert[OF cleared(2), of ?row table, unfolded row(1,2), OF table False]
    then show ?thesis using False result cleared(3) by (intro that(1)) simp_all
  qed
qed

subsection \<open>Copies\<close>

text \<open>
  A copy over an embedding keeps its row; no vector becomes stale when the embedding also keeps its
  dimension (b below).
\<close>

definition keeps_dimension :: "Snapshot \<Rightarrow> CatalogEmbeddingRow \<Rightarrow> CatalogEmbeddingRow list \<Rightarrow> bool" where
  "keeps_dimension target e rows \<longleftrightarrow>
     (\<forall>r\<in>set rows. embeddingAt target (er_node_id e) (er_source e) r \<longrightarrow> er_dimensions r = er_dimensions e)"

definition grown :: "bool \<Rightarrow> Snapshot \<Rightarrow> CatalogEmbeddingRow list \<Rightarrow> CatalogEmbeddingRow list \<Rightarrow> bool" where
  "grown b target rows rows' \<longleftrightarrow> embedding_rows_ok rows'
     \<and> filter (\<lambda>r. \<not> atSnapshot target r) rows' = filter (\<lambda>r. \<not> atSnapshot target r) rows
     \<and> (\<forall>r\<in>set rows. atSnapshot target r \<longrightarrow>
         (\<exists>r'\<in>set rows'. er_id r' = er_id r \<and> (b \<longrightarrow> er_dimensions r' = er_dimensions r) \<and> embeddingKey r' = embeddingKey r))"

lemma atSnapshot_key: "embeddingKey r = embeddingKey r' \<Longrightarrow> atSnapshot sn r = atSnapshot sn r'"
  by (simp add: embeddingKey_def atSnapshot_def)

lemma embeddingAt_in: "embeddingAt sn n source r \<Longrightarrow> atSnapshot sn r"
  by (simp add: embeddingAt_def atSnapshot_def)

lemma grown_refl: "embedding_rows_ok rows \<Longrightarrow> grown b target rows rows"
  by (auto simp: grown_def)

lemma grown_trans: "grown b target rows rows' \<Longrightarrow> grown b target rows' rows'' \<Longrightarrow> grown b target rows rows''"
  unfolding grown_def by (metis atSnapshot_key)

definition overwrite :: "Snapshot \<Rightarrow> CatalogEmbeddingRow \<Rightarrow> CatalogEmbeddingRow \<Rightarrow> CatalogEmbeddingRow" where
  "overwrite target e r = (if embeddingAt target (er_node_id e) (er_source e) r
     then r\<lparr>er_text := er_text e, er_dimensions := er_dimensions e, er_vector := er_vector e\<rparr> else r)"

lemma overwrite_sel [simp]: "embeddingKey (overwrite target e r) = embeddingKey r" "er_id (overwrite target e r) = er_id r"
  "atSnapshot target (overwrite target e r) = atSnapshot target r"
  by (simp_all add: overwrite_def embeddingKey_def atSnapshot_def)

definition copiedRow :: "int \<Rightarrow> Snapshot \<Rightarrow> CatalogEmbeddingRow \<Rightarrow> CatalogEmbeddingRow" where
  "copiedRow rowid target e = e\<lparr>er_id := rowid, er_workspace := snap_Workspace target, er_version := snap_Version target\<rparr>"

lemma copiedRow_sel [simp]: "embeddingKey (copiedRow rowid target e) = (snap_Workspace target, snap_Version target, er_node_id e, er_source e)"
  "er_id (copiedRow rowid target e) = rowid" "atSnapshot target (copiedRow rowid target e)"
  "er_dimensions (copiedRow rowid target e) = er_dimensions e" "er_vector (copiedRow rowid target e) = er_vector e"
  "er_text (copiedRow rowid target e) = er_text e" "er_node_id (copiedRow rowid target e) = er_node_id e"
  "er_source (copiedRow rowid target e) = er_source e"
  by (simp_all add: copiedRow_def embeddingKey_def atSnapshot_def)

lemma upsertEmbedding_eq: "upsertEmbedding target e rows =
    (if list_ex (embeddingAt target (er_node_id e) (er_source e)) rows then map (overwrite target e) rows
     else rows @ [copiedRow (nextEmbeddingID rows) target e])"
  unfolding upsertEmbedding_def overwrite_def copiedRow_def ..

definition valid_row :: "CatalogEmbeddingRow \<Rightarrow> bool" where
  "valid_row r \<longleftrightarrow> 0 < er_dimensions r \<and> er_dimensions r \<le> 8192 \<and> length (er_vector r) = 4 * er_dimensions r"

lemma embedding_rows_ok_valid:
  "embedding_rows_ok rows \<longleftrightarrow> distinct (map embeddingKey rows) \<and> distinct (map er_id rows) \<and> (\<forall>r\<in>set rows. valid_row r)"
  by (simp add: embedding_rows_ok_def valid_row_def)

lemma filter_map_same: "(\<And>x. \<not> P (f x) \<longleftrightarrow> \<not> P x) \<Longrightarrow> (\<And>x. P x \<Longrightarrow> f x = x) \<Longrightarrow> filter P (map f xs) = filter P xs"
  by (induction xs) auto

lemma upsertEmbedding_grown:
  assumes "embedding_rows_ok rows" "valid_row e" "b \<longrightarrow> keeps_dimension target e rows"
  shows "grown b target rows (upsertEmbedding target e rows)"
proof (cases "list_ex (embeddingAt target (er_node_id e) (er_source e)) rows")
  case True
  have keys: "map embeddingKey (map (overwrite target e) rows) = map embeddingKey rows"
    "map er_id (map (overwrite target e) rows) = map er_id rows" by simp_all
  have "filter (\<lambda>r. \<not> atSnapshot target r) (map (overwrite target e) rows) = filter (\<lambda>r. \<not> atSnapshot target r) rows"
    by (rule filter_map_same) (simp, metis overwrite_def embeddingAt_in)
  moreover have "valid_row (overwrite target e r)" if "r \<in> set rows" for r
    using that assms(1,2) by (simp add: embedding_rows_ok_valid overwrite_def valid_row_def)
  moreover have "er_dimensions (overwrite target e r) = er_dimensions r" if "b" "r \<in> set rows" for r
    using that assms(3) by (simp add: keeps_dimension_def overwrite_def)
  ultimately show ?thesis using assms(1) True unfolding grown_def upsertEmbedding_eq embedding_rows_ok_valid if_P[OF True] keys
    by force
next
  case False
  have "embeddingKey (copiedRow (nextEmbeddingID rows) target e) \<notin> embeddingKey ` set rows"
    using False by (auto simp: list_ex_iff embeddingAt_key)
  then have "embedding_rows_ok (rows @ [copiedRow (nextEmbeddingID rows) target e])"
    using assms(1,2) nextEmbeddingID_new[of rows] unfolding embedding_rows_ok_valid by (simp add: valid_row_def)
  then show ?thesis using False unfolding grown_def upsertEmbedding_eq by force
qed

lemma upsertEmbedding_other:
  assumes "r \<in> set (upsertEmbedding target e rows)" "\<not> embeddingAt target (er_node_id e) (er_source e) r"
  shows "r \<in> set rows"
proof -
  have same: "overwrite target e x = x" if "\<not> embeddingAt target (er_node_id e) (er_source e) (overwrite target e x)" for x
    using that by (simp add: embeddingAt_key) (simp add: overwrite_def embeddingAt_key)
  have new: "embeddingAt target (er_node_id e) (er_source e) (copiedRow rowid target e)" for rowid
    by (simp add: embeddingAt_key)
  show ?thesis
  proof (cases "list_ex (embeddingAt target (er_node_id e) (er_source e)) rows")
    case True
    then obtain x where "x \<in> set rows" "r = overwrite target e x" using assms(1) by (auto simp: upsertEmbedding_eq)
    then show ?thesis using same[of x] assms(2) by simp
  next
    case False
    then show ?thesis using assms new by (auto simp: upsertEmbedding_eq)
  qed
qed

lemma fold_upsertEmbedding_grown:
  assumes "embedding_rows_ok rows" "distinct (map (\<lambda>e. (er_node_id e, er_source e)) es)"
    and "\<forall>e\<in>set es. valid_row e \<and> (b \<longrightarrow> keeps_dimension target e rows)"
  shows "grown b target rows (fold (upsertEmbedding target) es rows)"
  using assms
proof (induction es arbitrary: rows)
  case Nil
  then show ?case by (simp add: grown_refl)
next
  case (Cons e es)
  have step: "grown b target rows (upsertEmbedding target e rows)" by (rule upsertEmbedding_grown) (use Cons.prems in simp_all)
  have "keeps_dimension target e' (upsertEmbedding target e rows)" if "e' \<in> set es" "b" for e'
  proof -
    have "(er_node_id e', er_source e') \<in> (\<lambda>e. (er_node_id e, er_source e)) ` set es" using that(1) by (rule imageI)
    then have "(er_node_id e', er_source e') \<noteq> (er_node_id e, er_source e)" using Cons.prems(2) by auto
    then show ?thesis using Cons.prems(3) that upsertEmbedding_other[of _ target e rows]
      unfolding keeps_dimension_def by (auto simp: embeddingAt_key)
  qed
  then have "grown b target (upsertEmbedding target e rows) (fold (upsertEmbedding target) es (upsertEmbedding target e rows))"
    using step Cons.prems by (intro Cons.IH) (simp_all add: grown_def)
  then show ?case using step grown_trans by fastforce
qed

definition freshVectors :: "Snapshot \<Rightarrow> CatalogEmbeddingRow list \<Rightarrow> nat \<Rightarrow> (int \<times> string) list" where
  "freshVectors target rows d = map vectorOf (filter (\<lambda>r. atSnapshot target r \<and> er_dimensions r = d) rows)"

text \<open>
  What the documentation promises of INSERT OR REPLACE: when it succeeds the fresh rows are in the
  table, in place of the rows with their ids.
\<close>

definition replaces_rows :: "VectorReplace \<Rightarrow> bool" where
  "replaces_rows replace \<longleftrightarrow> (\<forall>fresh rows rows'. distinct (map fst fresh) \<longrightarrow> distinct (map fst rows) \<longrightarrow> replace fresh rows = Inr rows' \<longrightarrow>
     distinct (map fst rows') \<and> set rows' = {row \<in> set rows. fst row \<notin> fst ` set fresh} \<union> set fresh)"

definition replaceVectors :: VectorReplace where
  "replaceVectors fresh rows = Inr (filter (\<lambda>row. fst row \<notin> set (map fst fresh)) rows @ fresh)"

lemma replaces_replaceVectors: "replaces_rows replaceVectors"
  by (auto simp: replaces_rows_def replaceVectors_def distinct_map_filter)

lemma copyVectors_shape:
  assumes "copyVectors replace target d s = Inr s'"
  shows "\<exists>t. s' = s\<lparr>cat_vectors := (cat_vectors s)(d \<mapsto> t)\<rparr>
    \<and> replace (freshVectors target (cat_embeddings s) d) (vectorRows (cat_vectors s) d) = Inr t"
proof -
  have vector: "(\<lambda>r. (er_id r, er_vector r)) = vectorOf" by (simp add: vectorOf_def fun_eq_iff)
  show ?thesis using assms unfolding copyVectors_def vector
    by (cases "cat_vectors s d")
       (auto simp: ensureVectorTable_def onVectors_def freshVectors_def vectorRows_def res_simps split: if_splits)
qed

lemma copy_vectors:
  assumes "fold_res (copyVectors replace target) ds s = Inr s'" "distinct ds"
  shows "\<exists>v. s' = s\<lparr>cat_vectors := v\<rparr> \<and> (\<forall>d. if d \<in> set ds
      then \<exists>t. v d = Some t \<and> replace (freshVectors target (cat_embeddings s) d) (vectorRows (cat_vectors s) d) = Inr t
      else v d = cat_vectors s d)"
  using assms
proof (induction ds arbitrary: s)
  case Nil
  then show ?case by (intro exI[of _ "cat_vectors s"]) simp
next
  case (Cons d ds)
  obtain s1 where s1: "copyVectors replace target d s = Inr s1" "fold_res (copyVectors replace target) ds s1 = Inr s'"
    using Cons.prems(1) by (auto split: sum.splits)
  obtain t where t: "s1 = s\<lparr>cat_vectors := (cat_vectors s)(d \<mapsto> t)\<rparr>"
    "replace (freshVectors target (cat_embeddings s) d) (vectorRows (cat_vectors s) d) = Inr t" using copyVectors_shape[OF s1(1)] by blast
  obtain v where v: "s' = s1\<lparr>cat_vectors := v\<rparr>" "\<forall>d. if d \<in> set ds
      then \<exists>t. v d = Some t \<and> replace (freshVectors target (cat_embeddings s1) d) (vectorRows (cat_vectors s1) d) = Inr t
      else v d = cat_vectors s1 d" using Cons.IH[OF s1(2)] Cons.prems(2) by auto
  have "if d' \<in> set (d # ds)
      then \<exists>t. v d' = Some t \<and> replace (freshVectors target (cat_embeddings s) d') (vectorRows (cat_vectors s) d') = Inr t
      else v d' = cat_vectors s d'" for d'
  proof (cases "d' = d")
    case True
    have "v d = cat_vectors s1 d" using spec[OF v(2), of d] Cons.prems(2) by simp
    then show ?thesis using True t by simp
  next
    case False
    then have same: "cat_vectors s1 d' = cat_vectors s d'" "cat_embeddings s1 = cat_embeddings s" using t(1) by simp_all
    then have rows: "vectorRows (cat_vectors s1) d' = vectorRows (cat_vectors s) d'" by (simp add: vectorRows_def)
    have "d' \<in> set (d # ds) \<longleftrightarrow> d' \<in> set ds" using False by simp
    then show ?thesis using spec[OF v(2), of d'] by (simp only: same rows)
  qed
  then show ?case using v(1) t(1) by (intro exI[of _ v]) simp
qed

lemma set_freshVectors: "set (freshVectors target rows d) = vectorOf ` {r \<in> set rows. atSnapshot target r \<and> er_dimensions r = d}"
  by (simp add: freshVectors_def)

lemma distinct_freshVectors: "embedding_rows_ok rows \<Longrightarrow> distinct (map fst (freshVectors target rows d))"
proof -
  have "map fst (freshVectors target rows d) = map er_id (filter (\<lambda>r. atSnapshot target r \<and> er_dimensions r = d) rows)"
    by (simp add: freshVectors_def)
  then show "embedding_rows_ok rows \<Longrightarrow> ?thesis" by (simp add: embedding_rows_ok_def distinct_map_filter)
qed

lemma grownD:
  assumes "grown b target rows rows'"
  shows "embedding_rows_ok rows'" and "\<not> atSnapshot target r \<Longrightarrow> r \<in> set rows' \<longleftrightarrow> r \<in> set rows"
    and "b \<Longrightarrow> r \<in> set rows \<Longrightarrow> atSnapshot target r \<Longrightarrow> \<exists>r'\<in>set rows'. er_id r' = er_id r \<and> er_dimensions r' = er_dimensions r \<and> atSnapshot target r'"
proof -
  show "embedding_rows_ok rows'" using assms by (simp add: grown_def)
  have "set (filter (\<lambda>r. \<not> atSnapshot target r) rows') = set (filter (\<lambda>r. \<not> atSnapshot target r) rows)"
    using assms by (simp only: grown_def)
  then show "r \<in> set rows' \<longleftrightarrow> r \<in> set rows" if "\<not> atSnapshot target r" using that by auto
  show "\<exists>r'\<in>set rows'. er_id r' = er_id r \<and> er_dimensions r' = er_dimensions r \<and> atSnapshot target r'" if "b" "r \<in> set rows" "atSnapshot target r"
    using assms that unfolding grown_def by (metis atSnapshot_key)
qed

text \<open>One table after its fresh rows were put in place.\<close>

lemma replaced_table:
  assumes "grown b target rows rows'" "vectors_cover rows v"
    and "set table = {row \<in> set (vectorRows v d). fst row \<notin> fst ` set (freshVectors target rows' d)} \<union> set (freshVectors target rows' d)"
  shows "vectorOf ` {r \<in> set rows'. er_dimensions r = d} \<subseteq> set table"
    and "b \<Longrightarrow> set table - vectorOf ` {r \<in> set rows'. er_dimensions r = d} \<subseteq> stale rows v d"
proof -
  have ids: "fst ` set (freshVectors target rows' d) = er_id ` {r \<in> set rows'. atSnapshot target r \<and> er_dimensions r = d}"
    by (simp add: set_freshVectors image_image)
  show "vectorOf ` {r \<in> set rows'. er_dimensions r = d} \<subseteq> set table"
  proof
    fix row assume "row \<in> vectorOf ` {r \<in> set rows'. er_dimensions r = d}"
    then obtain r where r: "r \<in> set rows'" "er_dimensions r = d" "row = vectorOf r" by auto
    show "row \<in> set table"
    proof (cases "atSnapshot target r")
      case True
      then show ?thesis using r unfolding assms(3) set_freshVectors by auto
    next
      case False
      then have "r \<in> set rows" using grownD(2)[OF assms(1)] r(1) by blast
      then have "row \<in> set (vectorRows v d)" using vectors_coverD(3)[OF assms(2)] r by auto
      moreover have "fst row \<notin> er_id ` {r \<in> set rows'. atSnapshot target r \<and> er_dimensions r = d}"
        using same_id[OF grownD(1)[OF assms(1)] r(1)] False r(3) by auto
      ultimately show ?thesis unfolding assms(3) ids by blast
    qed
  qed
  show "set table - vectorOf ` {r \<in> set rows'. er_dimensions r = d} \<subseteq> stale rows v d" if b
  proof
    fix row assume row: "row \<in> set table - vectorOf ` {r \<in> set rows'. er_dimensions r = d}"
    then have old: "row \<in> set (vectorRows v d)" "fst row \<notin> er_id ` {r \<in> set rows'. atSnapshot target r \<and> er_dimensions r = d}"
      unfolding assms(3) ids by (auto simp: set_freshVectors)
    have "row \<notin> vectorOf ` {r \<in> set rows. er_dimensions r = d}"
    proof
      assume "row \<in> vectorOf ` {r \<in> set rows. er_dimensions r = d}"
      then obtain r where r: "r \<in> set rows" "er_dimensions r = d" "row = vectorOf r" by auto
      show False
      proof (cases "atSnapshot target r")
        case True
        then obtain r' where "r' \<in> set rows'" "er_id r' = er_id r" "er_dimensions r' = d" "atSnapshot target r'"
          using grownD(3)[OF assms(1) \<open>b\<close> r(1)] r(2) by auto
        then show False using old(2) r(3) by (auto intro!: image_eqI[of _ _ r'])
      next
        case False
        then show False using grownD(2)[OF assms(1)] r row by auto
      qed
    qed
    then show "row \<in> stale rows v d" using old(1) by (simp add: stale_def)
  qed
qed

lemma vectors_grown:
  assumes "grown b target rows rows'" "vectors_cover rows v" "replaces_rows replace"
    and "\<forall>d. if d \<in> er_dimensions ` {r \<in> set rows'. atSnapshot target r}
      then \<exists>t. v' d = Some t \<and> replace (freshVectors target rows' d) (vectorRows v d) = Inr t else v' d = v d"
  shows "vectors_cover rows' v'" and "b \<Longrightarrow> stale rows' v' d \<subseteq> stale rows v d"
proof -
  have table: "distinct (map fst (vectorRows v' d)) \<and> vectorOf ` {r \<in> set rows'. er_dimensions r = d} \<subseteq> set (vectorRows v' d)
      \<and> (b \<longrightarrow> stale rows' v' d \<subseteq> stale rows v d)" for d
  proof (cases "d \<in> er_dimensions ` {r \<in> set rows'. atSnapshot target r}")
    case True
    then obtain t where t: "v' d = Some t" "replace (freshVectors target rows' d) (vectorRows v d) = Inr t" using spec[OF assms(4), of d] by auto
    then have "distinct (map fst t)" "set t = {row \<in> set (vectorRows v d). fst row \<notin> fst ` set (freshVectors target rows' d)} \<union> set (freshVectors target rows' d)"
      using assms(3) distinct_freshVectors[OF grownD(1)[OF assms(1)]] vectors_coverD(2)[OF assms(2), of d] unfolding replaces_rows_def by blast+
    then show ?thesis using replaced_table[OF assms(1,2)] t(1) unfolding stale_def[of rows' v'] by (simp add: vectorRows_def)
  next
    case False
    have here: "r \<in> set rows" if "r \<in> set rows'" "er_dimensions r = d" for r
      using that False grownD(2)[OF assms(1), of r] by auto
    have there: "r \<in> set rows'" if b: "b" and r: "r \<in> set rows" "er_dimensions r = d" for r
    proof (cases "atSnapshot target r")
      case True
      then obtain r' where "r' \<in> set rows'" "er_dimensions r' = d" "atSnapshot target r'"
        using grownD(3)[OF assms(1) b r(1)] r(2) by auto
      then show ?thesis using False by auto
    next
      case False
      then show ?thesis using grownD(2)[OF assms(1)] r(1) by blast
    qed
    have "vectorRows v' d = vectorRows v d" using spec[OF assms(4), of d] False by (simp add: vectorRows_def)
    moreover have "vectorOf ` {r \<in> set rows'. er_dimensions r = d} \<subseteq> set (vectorRows v d)"
      using here vectors_coverD(3)[OF assms(2)] by blast
    moreover have "b \<longrightarrow> stale rows' v' d \<subseteq> stale rows v d" unfolding stale_def \<open>vectorRows v' d = vectorRows v d\<close> using there by blast
    ultimately show ?thesis using vectors_coverD(2)[OF assms(2), of d] by simp
  qed
  have "v' (er_dimensions r) \<noteq> None" if "r \<in> set rows'" for r
    using that spec[OF assms(4), of "er_dimensions r"] vectors_coverD(1)[OF assms(2), of r] grownD(2)[OF assms(1), of r]
    by (cases "atSnapshot target r") (auto split: if_splits)
  then show "vectors_cover rows' v'" using table by (simp add: vectors_cover_def)
  show "b \<Longrightarrow> stale rows' v' d \<subseteq> stale rows v d" using table by blast
qed

subsection \<open>Every operation keeps the indexes\<close>

definition copy_keeps_dimensions :: "Snapshot \<Rightarrow> Snapshot \<Rightarrow> CatalogStore \<Rightarrow> bool" where
  "copy_keeps_dimensions source target s \<longleftrightarrow>
     (\<forall>e\<in>set (copiedEmbeddings source target s). keeps_dimension target e (cat_embeddings s))"

lemma catalog_okD:
  assumes "catalog_ok s"
  shows "search_mirrors (cat_entries s) (cat_search s)" "embedding_rows_ok (cat_embeddings s)"
    "vectors_cover (cat_embeddings s) (cat_vectors s)"
  using assms by (simp_all add: catalog_ok_def)

text \<open>No operation but a copy that changes a dimension makes a vector stale.\<close>

definition keeps_indexes :: "CatalogStore \<Rightarrow> CatalogStore \<Rightarrow> bool" where
  "keeps_indexes s s' \<longleftrightarrow> catalog_ok s' \<and> (\<forall>d. staleVectors s' d \<subseteq> staleVectors s d)"

lemma keeps_indexesI: "catalog_ok s' \<Longrightarrow> staleVectors s' = staleVectors s \<Longrightarrow> keeps_indexes s s'"
  by (simp add: keeps_indexes_def)

lemma keeps_indexes_ok: "keeps_indexes s s' \<Longrightarrow> catalog_ok s'"
  by (simp add: keeps_indexes_def)

lemma keeps_indexes_trans: "keeps_indexes s t \<Longrightarrow> keeps_indexes t u \<Longrightarrow> keeps_indexes s u"
  unfolding keeps_indexes_def by blast

lemma writeCatalogEntry_ok: "catalog_ok s \<Longrightarrow> writeCatalogEntry sn e s = Inr s' \<Longrightarrow> keeps_indexes s s'"
  by (rule keeps_indexesI) (auto simp: writeCatalogEntry_def catalog_ok_def staleVectors_def search_mirrors_upsert split: if_splits)

text \<open>The operations check their arguments and the snapshot, then loop.\<close>

lemma guarded_loop:
  assumes "(if refused then Inl e else case check of Some e' \<Rightarrow> Inl e' | None \<Rightarrow> fold_res f xs s) = Inr s'"
  shows "\<not> refused" and "check = None" and "fold_res f xs s = Inr s'"
  using assms by (simp_all split: if_splits option.splits)

lemma guarded_loop_ok:
  assumes "(if refused then Inl e else case check of Some e' \<Rightarrow> Inl e' | None \<Rightarrow> fold_res f xs s) = Inr s'"
    and "catalog_ok s" "\<And>x t t'. catalog_ok t \<Longrightarrow> f x t = Inr t' \<Longrightarrow> keeps_indexes t t'"
  shows "keeps_indexes s s'"
proof (rule fold_res_invariant[where I = "keeps_indexes s", OF guarded_loop(3)[OF assms(1)]])
  show "keeps_indexes s s" using assms(2) by (simp add: keeps_indexes_def)
  show "keeps_indexes s t'" if "keeps_indexes s t" "f x t = Inr t'" for x t t'
    using keeps_indexes_trans[OF that(1) assms(3)[OF keeps_indexes_ok[OF that(1)] that(2)]] .
qed

lemma WriteCatalog_ok: "catalog_ok s \<Longrightarrow> WriteCatalog sn es s = Inr s' \<Longrightarrow> keeps_indexes s s'"
  unfolding WriteCatalog_def by (rule guarded_loop_ok) (assumption+, rule writeCatalogEntry_ok)

definition withEmbedding :: "Snapshot \<Rightarrow> CatalogEmbedding \<Rightarrow> CatalogEmbeddingRow list \<Rightarrow> CatalogEmbeddingRow list" where
  "withEmbedding sn e rows = (let others = filter (\<lambda>r. \<not> embeddingAt sn (emb_NodeID e) (emb_Source e) r) rows
     in others @ [embeddingRow (nextEmbeddingID others) sn e])"

lemma writeEmbedding_shape:
  assumes "catalog_ok s" "validEmbedding e" "length (emb_Vector e) \<le> 8192"
  obtains v where "writeCatalogEmbedding sn e s = Inr (s\<lparr>cat_vectors := v, cat_embeddings := withEmbedding sn e (cat_embeddings s)\<rparr>)"
      "keeps_indexes s (s\<lparr>cat_vectors := v, cat_embeddings := withEmbedding sn e (cat_embeddings s)\<rparr>)"
    | d where "writeCatalogEmbedding sn e s = Inl (ErrDatabase ''UNIQUE constraint failed'')" "staleVectors s d \<noteq> {}"
proof (rule writeCatalogEmbedding_cases[OF catalog_okD(2,3)[OF assms(1)] assms(2,3) refl, of sn, folded withEmbedding_def[unfolded Let_def]])
  fix v
  assume v: "writeCatalogEmbedding sn e s = Inr (s\<lparr>cat_vectors := v, cat_embeddings := withEmbedding sn e (cat_embeddings s)\<rparr>)"
    "vectors_cover (withEmbedding sn e (cat_embeddings s)) v" "stale (withEmbedding sn e (cat_embeddings s)) v = staleVectors s"
  moreover have "embedding_rows_ok (withEmbedding sn e (cat_embeddings s))"
    unfolding withEmbedding_def Let_def by (rule embedding_rows_ok_write[OF catalog_okD(2)[OF assms(1)] assms(2,3)])
  ultimately show thesis using catalog_okD(1)[OF assms(1)]
    by (intro that(1)[OF v(1)] keeps_indexesI) (simp_all add: catalog_ok_def staleVectors_def)
qed (rule that(2))

lemma writeEmbedding_valid:
  "writeCatalogEmbedding sn e s = Inr s' \<Longrightarrow> validEmbedding e \<and> length (emb_Vector e) \<le> 8192"
  by (simp add: writeCatalogEmbedding_def Let_def ensureVectorTable_def split: if_splits)

lemma writeEmbedding_result:
  assumes "catalog_ok s" "writeCatalogEmbedding sn e s = Inr s'"
  obtains v where "s' = s\<lparr>cat_vectors := v, cat_embeddings := withEmbedding sn e (cat_embeddings s)\<rparr>" "keeps_indexes s s'"
proof -
  note valid = writeEmbedding_valid[OF assms(2)]
  show ?thesis
    by (rule writeEmbedding_shape[OF assms(1) conjunct1[OF valid] conjunct2[OF valid], of sn]) (use assms(2) that in simp_all)
qed

lemma WriteCatalogEmbeddings_ok: "catalog_ok s \<Longrightarrow> WriteCatalogEmbeddings sn es s = Inr s' \<Longrightarrow> keeps_indexes s s'"
  unfolding WriteCatalogEmbeddings_def by (rule guarded_loop_ok) (assumption+, rule writeEmbedding_result)

lemma deleted_ok:
  assumes "catalog_ok s"
  obtains v where "deleteEmbeddingRows P s = Inr (s\<lparr>cat_vectors := v, cat_embeddings := filter (\<lambda>r. \<not> P r) (cat_embeddings s)\<rparr>)"
    "keeps_indexes s (s\<lparr>cat_vectors := v, cat_embeddings := filter (\<lambda>r. \<not> P r) (cat_embeddings s)\<rparr>)"
proof -
  obtain v where v: "deleteEmbeddingRows P s = Inr (s\<lparr>cat_vectors := v, cat_embeddings := filter (\<lambda>r. \<not> P r) (cat_embeddings s)\<rparr>)"
    "vectors_cover (filter (\<lambda>r. \<not> P r) (cat_embeddings s)) v" "stale (filter (\<lambda>r. \<not> P r) (cat_embeddings s)) v = staleVectors s"
    by (rule deleteEmbeddingRows_ok[OF catalog_okD(2,3)[OF assms]])
  show ?thesis using v catalog_okD(1,2)[OF assms]
    by (intro that[OF v(1)] keeps_indexesI) (simp_all add: catalog_ok_def embedding_rows_ok_filter staleVectors_def)
qed

lemma searchAt_row [simp]: "searchAt sn n (searchRow r) = entryAt sn n r"
  by (simp add: searchAt_def searchRow_def entryAt_def)

lemma deleteCatalogEntry_ok:
  assumes "catalog_ok s" "deleteCatalogEntry sn n s = Inr s'"
  shows "keeps_indexes s s'"
proof -
  let ?P = "\<lambda>r. er_workspace r = snap_Workspace sn \<and> er_version r = snap_Version sn \<and> er_node_id r = n"
  obtain v where v: "deleteEmbeddingRows ?P s = Inr (s\<lparr>cat_vectors := v, cat_embeddings := filter (\<lambda>r. \<not> ?P r) (cat_embeddings s)\<rparr>)"
    "keeps_indexes s (s\<lparr>cat_vectors := v, cat_embeddings := filter (\<lambda>r. \<not> ?P r) (cat_embeddings s)\<rparr>)"
    by (rule deleted_ok[OF assms(1)])
  have "search_mirrors (filter (\<lambda>r. \<not> entryAt sn n r) (cat_entries s)) (filter (\<lambda>r. \<not> searchAt sn n r) (cat_search s))"
    by (rule search_mirrors_filter[OF catalog_okD(1)[OF assms(1)]]) simp
  moreover have "s' = s\<lparr>cat_vectors := v, cat_embeddings := filter (\<lambda>r. \<not> ?P r) (cat_embeddings s),
      cat_entries := filter (\<lambda>r. \<not> entryAt sn n r) (cat_entries s), cat_search := filter (\<lambda>r. \<not> searchAt sn n r) (cat_search s)\<rparr>"
    using assms(2) v(1) unfolding deleteCatalogEntry_def deleteCatalogEmbeddings_def by (simp split: if_splits)
  ultimately show ?thesis using v(2) by (simp add: catalog_ok_def keeps_indexes_def staleVectors_def)
qed

lemma DeleteCatalogEntries_ok: "catalog_ok s \<Longrightarrow> DeleteCatalogEntries sn ns s = Inr s' \<Longrightarrow> keeps_indexes s s'"
  unfolding DeleteCatalogEntries_def by (rule guarded_loop_ok) (assumption+, rule deleteCatalogEntry_ok)

lemma deleteCatalogVersions_ok:
  assumes "catalog_ok s"
  obtains s' where "deleteCatalogVersions ws c s = Inr s'" "keeps_indexes s s'" "cat_database s' = cat_database s"
    "cat_entries s' = filter (\<lambda>r. \<not> (cr_workspace r = ws \<and> c (cr_version r))) (cat_entries s)"
    "cat_search s' = filter (\<lambda>r. \<not> (cs_workspace r = ws \<and> c (cs_version r))) (cat_search s)"
    "cat_embeddings s' = filter (\<lambda>r. \<not> (er_workspace r = ws \<and> c (er_version r))) (cat_embeddings s)"
    "cat_tasks s' = cat_tasks s"
proof -
  let ?s = "s\<lparr>cat_entries := filter (\<lambda>r. \<not> (cr_workspace r = ws \<and> c (cr_version r))) (cat_entries s),
    cat_search := filter (\<lambda>r. \<not> (cs_workspace r = ws \<and> c (cs_version r))) (cat_search s)\<rparr>"
  have "search_mirrors (cat_entries ?s) (cat_search ?s)"
    using search_mirrors_filter[OF catalog_okD(1)[OF assms], of "\<lambda>r. \<not> (cr_workspace r = ws \<and> c (cr_version r))"
      "\<lambda>r. \<not> (cs_workspace r = ws \<and> c (cs_version r))"] by (simp add: searchRow_def)
  then have ok: "catalog_ok ?s" using catalog_okD(2,3)[OF assms] by (simp add: catalog_ok_def)
  then have kept: "keeps_indexes s ?s" by (rule keeps_indexesI) (simp add: staleVectors_def)
  from deleted_ok[OF ok, of "\<lambda>r. er_workspace r = ws \<and> c (er_version r)"] obtain v where v:
    "deleteCatalogVersions ws c s = Inr (?s\<lparr>cat_vectors := v, cat_embeddings := filter (\<lambda>r. \<not> (er_workspace r = ws \<and> c (er_version r))) (cat_embeddings ?s)\<rparr>)"
    "keeps_indexes ?s (?s\<lparr>cat_vectors := v, cat_embeddings := filter (\<lambda>r. \<not> (er_workspace r = ws \<and> c (er_version r))) (cat_embeddings ?s)\<rparr>)"
    unfolding deleteCatalogVersions_def deleteCatalogEmbeddingsByVersion_def by blast
  show ?thesis by (rule that[OF v(1) keeps_indexes_trans[OF kept v(2)]]) simp_all
qed

lemma catalog_ok_database [simp]: "catalog_ok (s\<lparr>cat_database := db\<rparr>) = catalog_ok s" "catalog_ok (s\<lparr>cat_tasks := ts\<rparr>) = catalog_ok s"
  by (simp_all add: catalog_ok_def)

lemma staleVectors_database [simp]: "staleVectors (s\<lparr>cat_database := db\<rparr>) = staleVectors s" "staleVectors (s\<lparr>cat_tasks := ts\<rparr>) = staleVectors s"
  by (simp_all add: staleVectors_def)

lemma keeps_indexes_database [simp]: "keeps_indexes s (s'\<lparr>cat_database := db\<rparr>) = keeps_indexes s s'"
  by (simp add: keeps_indexes_def)

lemma RollbackCatalog_ok:
  assumes "catalog_ok s" "RollbackCatalog request s = Inr (sn, s')"
  shows "keeps_indexes s s'"
proof -
  obtain s1 where "deleteCatalogVersions (rb_Workspace request) (\<lambda>v. v > rb_Version request) s = Inr s1" "keeps_indexes s s1"
    by (rule deleteCatalogVersions_ok[OF assms(1)])
  then show ?thesis using assms(2) by (auto simp: RollbackCatalog_def res_simps)
qed

lemma PruneCatalog_ok:
  assumes "catalog_ok s" "PruneCatalog request s = Inr (n, s')"
  shows "keeps_indexes s s'"
proof -
  obtain s1 where "deleteCatalogVersions (prune_Workspace request) (\<lambda>v. v < prune_BeforeVersion request) s = Inr s1" "keeps_indexes s s1"
    by (rule deleteCatalogVersions_ok[OF assms(1)])
  then show ?thesis using assms(2) by (auto simp: PruneCatalog_def res_simps)
qed

lemma WriteCatalogTask_ok: "catalog_ok s \<Longrightarrow> WriteCatalogTask task s = Inr s' \<Longrightarrow> keeps_indexes s s'"
  by (rule keeps_indexesI) (auto simp: WriteCatalogTask_def split: if_splits)

lemma copied_keys:
  assumes "embedding_rows_ok (cat_embeddings s)"
  shows "distinct (map (\<lambda>e. (er_node_id e, er_source e)) (copiedEmbeddings source target s))"
proof -
  have "distinct (map embeddingKey (copiedEmbeddings source target s))"
    using assms by (simp add: copiedEmbeddings_def embedding_rows_ok_def distinct_map_filter)
  moreover have "map embeddingKey (copiedEmbeddings source target s)
      = map (\<lambda>k. (snap_Workspace source, snap_Version source, k)) (map (\<lambda>e. (er_node_id e, er_source e)) (copiedEmbeddings source target s))"
    by (auto simp: copiedEmbeddings_def embeddingKey_def)
  ultimately show ?thesis by (simp only: distinct_map)
qed

lemma copiedEmbeddings_entries [simp]: "copiedEmbeddings source target (s\<lparr>cat_entries := x\<rparr>) = copiedEmbeddings source target s"
  by (simp add: copiedEmbeddings_def)

text \<open>The state a copy leaves, when the stored embeddings are well formed.\<close>

lemma CopyCatalog_shape:
  assumes "catalog_ok s" "replaces_rows replace" "CopyCatalog replace source target s = Inr s'"
  obtains v where "s' = s\<lparr>cat_entries := fold (upsertEntry target) (copiedEntries source target s) (cat_entries s),
      cat_embeddings := fold (upsertEmbedding target) (copiedEmbeddings source target s) (cat_embeddings s), cat_vectors := v,
      cat_search := filter (\<lambda>r. \<not> searchIn target r) (cat_search s) @ map searchRow (filter (entryIn target)
        (fold (upsertEntry target) (copiedEntries source target s) (cat_entries s)))\<rparr>"
    "catalog_ok s'" "copy_keeps_dimensions source target s \<Longrightarrow> keeps_indexes s s'"
    "\<forall>d. (\<exists>r\<in>set (cat_embeddings s'). atSnapshot target r \<and> er_dimensions r = d) \<or> v d = cat_vectors s d"
proof -
  let ?entries = "fold (upsertEntry target) (copiedEntries source target s) (cat_entries s)"
  let ?rows = "fold (upsertEmbedding target) (copiedEmbeddings source target s) (cat_embeddings s)"
  let ?b = "copy_keeps_dimensions source target s"
  note ok = catalog_okD[OF assms(1)]
  have grown: "grown ?b target (cat_embeddings s) ?rows"
  proof (rule fold_upsertEmbedding_grown[OF ok(2) copied_keys[OF ok(2)]])
    show "\<forall>e\<in>set (copiedEmbeddings source target s). valid_row e \<and> (?b \<longrightarrow> keeps_dimension target e (cat_embeddings s))"
      using ok(2) by (auto simp: copy_keeps_dimensions_def embedding_rows_ok_valid copiedEmbeddings_def)
  qed
  obtain s3 where s3: "copyCatalogEmbeddingVectors replace target (s\<lparr>cat_entries := ?entries, cat_embeddings := ?rows\<rparr>) = Inr s3"
    "s' = s3\<lparr>cat_search := filter (\<lambda>r. \<not> searchIn target r) (cat_search s3) @ map searchRow (filter (entryIn target) (cat_entries s3))\<rparr>"
    using assms(3) by (auto simp: CopyCatalog_def Let_def res_simps split: if_splits option.splits)
  let ?s = "s\<lparr>cat_entries := ?entries, cat_embeddings := ?rows\<rparr>"
  obtain v where v: "s3 = s\<lparr>cat_entries := ?entries, cat_embeddings := ?rows, cat_vectors := v\<rparr>"
    and copied: "\<forall>d. if d \<in> set (dedup (map er_dimensions (filter (atSnapshot target) (cat_embeddings ?s))))
      then \<exists>t. v d = Some t \<and> replace (freshVectors target (cat_embeddings ?s) d) (vectorRows (cat_vectors ?s) d) = Inr t
      else v d = cat_vectors ?s d"
    using copy_vectors[OF s3(1)[unfolded copyCatalogEmbeddingVectors_def] distinct_dedup] by (elim exE conjE)
  have fields: "cat_embeddings ?s = ?rows" "cat_vectors ?s = cat_vectors s" by simp_all
  have tables: "\<forall>d. if d \<in> er_dimensions ` {r \<in> set ?rows. atSnapshot target r}
      then \<exists>t. v d = Some t \<and> replace (freshVectors target ?rows d) (vectorRows (cat_vectors s) d) = Inr t else v d = cat_vectors s d"
    using copied by (simp only: fields set_dedup list.set_map set_filter)
  have s': "s' = s\<lparr>cat_entries := ?entries, cat_embeddings := ?rows, cat_vectors := v,
      cat_search := filter (\<lambda>r. \<not> searchIn target r) (cat_search s) @ map searchRow (filter (entryIn target) ?entries)\<rparr>"
    using s3(2) by (simp add: v)
  note vectors = vectors_grown[OF grown ok(3) assms(2) tables]
  have kept: "catalog_ok s'" using vectors(1) grownD(1)[OF grown] search_mirrors_rebuilt[OF ok(1)] by (simp add: s' catalog_ok_def)
  have "keeps_indexes s s'" if ?b using kept vectors(2)[OF that] by (simp add: keeps_indexes_def staleVectors_def s')
  moreover have "\<forall>d. (\<exists>r\<in>set (cat_embeddings s'). atSnapshot target r \<and> er_dimensions r = d) \<or> v d = cat_vectors s d"
  proof
    fix d
    show "(\<exists>r\<in>set (cat_embeddings s'). atSnapshot target r \<and> er_dimensions r = d) \<or> v d = cat_vectors s d"
      using spec[OF tables, of d] by (auto simp: s' split: if_splits)
  qed
  ultimately show ?thesis using kept by (intro that[OF s'])
qed

subsection \<open>Reachable catalogs\<close>

text \<open>
  Every call of the store that writes the catalog, and any change of the graph tables.  The flag of a
  step tells a copy that overwrites an embedding by one of another dimension.
\<close>

inductive catalog_step :: "bool \<Rightarrow> CatalogStore \<Rightarrow> CatalogStore \<Rightarrow> bool" where
  entries: "WriteCatalog sn es s = Inr s' \<Longrightarrow> catalog_step False s s'"
| embeddings: "WriteCatalogEmbeddings sn vs s = Inr s' \<Longrightarrow> catalog_step False s s'"
| deleted: "DeleteCatalogEntries sn ns s = Inr s' \<Longrightarrow> catalog_step False s s'"
| copied: "CopyCatalog replace source target s = Inr s' \<Longrightarrow> replaces_rows replace \<Longrightarrow>
    catalog_step (\<not> copy_keeps_dimensions source target s) s s'"
| rolledBack: "RollbackCatalog rollback s = Inr (sn, s') \<Longrightarrow> catalog_step False s s'"
| pruned: "PruneCatalog prune s = Inr (n, s') \<Longrightarrow> catalog_step False s s'"
| task: "WriteCatalogTask t s = Inr s' \<Longrightarrow> catalog_step False s s'"
| graph: "catalog_step False s (s\<lparr>cat_database := db\<rparr>)"

definition emptyCatalog :: CatalogStore where
  "emptyCatalog = \<lparr>cat_database = emptyDatabase, cat_entries = [], cat_search = [], cat_embeddings = [],
     cat_vectors = (\<lambda>_. None), cat_tasks = []\<rparr>"

text \<open>The catalogs of a store: resized tells whether some copy so far changed the dimension of an embedding.\<close>

inductive catalog_reach :: "bool \<Rightarrow> CatalogStore \<Rightarrow> bool" where
  start: "catalog_reach False emptyCatalog"
| step: "catalog_reach resized s \<Longrightarrow> catalog_step changed s s' \<Longrightarrow> catalog_reach (resized \<or> changed) s'"

lemma emptyCatalog_ok: "catalog_ok emptyCatalog" "staleVectors emptyCatalog d = {}"
  by (simp_all add: catalog_ok_def emptyCatalog_def search_mirrors_def embedding_rows_ok_def vectors_cover_def vectorRows_def
    staleVectors_def stale_def)

lemma unchanged_step: "keeps_indexes s s' \<Longrightarrow> catalog_ok s' \<and> (\<not> False \<longrightarrow> keeps_indexes s s')"
  by (simp add: keeps_indexes_def)

lemma catalog_step_kept:
  assumes "catalog_step changed s s'" "catalog_ok s"
  shows "catalog_ok s' \<and> (\<not> changed \<longrightarrow> keeps_indexes s s')"
proof -
  have "catalog_ok s \<Longrightarrow> catalog_ok s' \<and> (\<not> changed \<longrightarrow> keeps_indexes s s')" using assms(1)
  proof (induction rule: catalog_step.induct)
    case (copied replace source target s s')
    show ?case by (rule CopyCatalog_shape[OF copied(3,2,1)]) simp
  next
    case (graph s db)
    then show ?case by (simp add: keeps_indexesI)
  qed (rule unchanged_step, ((rule WriteCatalog_ok, assumption, assumption) | (rule WriteCatalogEmbeddings_ok, assumption, assumption)
      | (rule DeleteCatalogEntries_ok, assumption, assumption) | (rule RollbackCatalog_ok, assumption, assumption)
      | (rule PruneCatalog_ok, assumption, assumption) | (rule WriteCatalogTask_ok, assumption, assumption)))+
  then show ?thesis using assms(2) by blast
qed

lemma catalog_reach_kept: "catalog_reach resized s \<Longrightarrow> catalog_ok s \<and> (resized \<or> (\<forall>d. staleVectors s d = {}))"
proof (induction rule: catalog_reach.induct)
  case start
  then show ?case by (simp add: emptyCatalog_ok)
next
  case (step resized s changed s')
  then show ?case using catalog_step_kept[OF step(2)] by (auto simp: keeps_indexes_def)
qed

lemma catalog_reach_ok: "catalog_reach resized s \<Longrightarrow> catalog_ok s"
  using catalog_reach_kept by blast

subsection \<open>Writes that succeed\<close>

text \<open>A loop whose steps succeed exactly on good elements, or stop with u when Q holds.\<close>

lemma fold_res_cases:
  assumes "I s" "\<And>x t. I t \<Longrightarrow> P x \<Longrightarrow> (\<exists>t'. f x t = Inr t' \<and> I t') \<or> f x t = Inl u \<and> Q" "\<And>x t. \<not> P x \<Longrightarrow> f x t = Inl e"
  shows "case fold_res f xs s of Inr _ \<Rightarrow> \<forall>x\<in>set xs. P x | Inl e' \<Rightarrow> e' = e \<and> \<not> (\<forall>x\<in>set xs. P x) \<or> e' = u \<and> Q"
  using assms(1)
proof (induction xs arbitrary: s)
  case (Cons x xs)
  show ?case
  proof (cases "P x")
    case True
    then consider t' where "f x s = Inr t'" "I t'" | "f x s = Inl u" "Q" using assms(2) Cons.prems by blast
    then show ?thesis
    proof cases
      case 1
      then show ?thesis using True Cons.IH[of t'] by (simp split: sum.splits)
    qed simp
  qed (simp add: assms(3))
qed simp

definition storable :: "CatalogEmbedding \<Rightarrow> bool" where
  "storable e \<longleftrightarrow> validEmbedding e \<and> length (emb_Vector e) \<le> 8192"

lemma unstorable: "\<not> storable e \<Longrightarrow> writeCatalogEmbedding sn e s = Inl ErrInvalidRequest"
  by (auto simp: storable_def writeCatalogEmbedding_def ensureVectorTable_def)

lemma storable_written:
  assumes "catalog_ok s" "storable e"
  shows "(\<exists>s'. writeCatalogEmbedding sn e s = Inr s' \<and> keeps_indexes s s')
    \<or> writeCatalogEmbedding sn e s = Inl (ErrDatabase ''UNIQUE constraint failed'') \<and> (\<exists>d. staleVectors s d \<noteq> {})"
  by (rule writeEmbedding_shape[OF assms(1), of e sn]) (use assms(2) in \<open>auto simp: storable_def\<close>)

lemma verifyCatalogSnapshot_None: "verifyCatalogSnapshot db sn = None \<longleftrightarrow> recorded db (snap_Workspace sn) (snap_Version sn)"
  by (simp add: verifyCatalogSnapshot_def recorded_def split: option.splits)

lemma vectors_aligned:
  assumes "vectors_cover rows v" "stale rows v d = {}"
  shows "set (vectorRows v d) = vectorOf ` {r \<in> set rows. er_dimensions r = d}"
proof
  show "set (vectorRows v d) \<subseteq> vectorOf ` {r \<in> set rows. er_dimensions r = d}" using assms(2) by (simp add: stale_def)
  show "vectorOf ` {r \<in> set rows. er_dimensions r = d} \<subseteq> set (vectorRows v d)" using assms(1) by (simp add: vectors_cover_def)
qed

text \<open>C19: In a reachable catalog the full text index holds exactly the entries, one row each, and the vector table of
  every dimension holds every stored embedding of that dimension under its id, at most one vector to an id,
  and nothing else unless some copy of a catalog changed the dimension of an embedding.\<close>

theorem catalog_indexes_mirror:
  assumes "catalog_reach resized s"
  shows "set (cat_search s) = searchRow ` set (cat_entries s) \<and> length (cat_search s) = length (cat_entries s)
    \<and> (\<forall>d. {(er_id r, er_vector r) | r. r \<in> set (cat_embeddings s) \<and> er_dimensions r = d} \<subseteq> set (vectorRows (cat_vectors s) d)
        \<and> distinct (map fst (vectorRows (cat_vectors s) d))
        \<and> (resized \<or> set (vectorRows (cat_vectors s) d)
             = {(er_id r, er_vector r) | r. r \<in> set (cat_embeddings s) \<and> er_dimensions r = d}))"
proof -
  note kept = catalog_reach_kept[OF assms] and ok = catalog_okD[OF catalog_reach_ok[OF assms]]
  have keys: "distinct (map entryKey (cat_entries s))" "distinct (map searchKey (cat_search s))"
    "set (cat_search s) = searchRow ` set (cat_entries s)" using ok(1) by (simp_all add: search_mirrors_def)
  have "set (map searchKey (cat_search s)) = set (map entryKey (cat_entries s))" using keys(3) by (simp add: image_image)
  then have "length (map searchKey (cat_search s)) = length (map entryKey (cat_entries s))"
    using keys(1,2) by (metis distinct_card)
  moreover have stored: "vectorOf ` {r \<in> set (cat_embeddings s). er_dimensions r = d}
      = {(er_id r, er_vector r) | r. r \<in> set (cat_embeddings s) \<and> er_dimensions r = d}" for d by (auto simp: vectorOf_def)
  moreover have "vectorOf ` {r \<in> set (cat_embeddings s). er_dimensions r = d} \<subseteq> set (vectorRows (cat_vectors s) d)" for d
    using ok(3) by (simp add: vectors_cover_def)
  moreover have "resized \<or> set (vectorRows (cat_vectors s) d) = vectorOf ` {r \<in> set (cat_embeddings s). er_dimensions r = d}" for d
    using kept vectors_aligned[OF ok(3), of d] by (auto simp: staleVectors_def)
  ultimately show ?thesis using keys(3) vectors_coverD(2)[OF ok(3)] unfolding stored by simp
qed

text \<open>C22: In a reachable catalog a write of embeddings fails in the database, by a UNIQUE constraint, only when some copy
  changed the dimension of an embedding and left a stale vector; short of that it succeeds exactly when the
  snapshot is recorded and every embedding is complete and has at most 8192 dimensions, and fails with an
  invalid request or a missing version otherwise.\<close>

theorem embedding_writes_fail_exactly:
  assumes "catalog_reach resized s"
  shows "case WriteCatalogEmbeddings sn es s of
      Inr _ \<Rightarrow> \<not> missingSnapshot sn \<and> es \<noteq> [] \<and> recorded (cat_database s) (snap_Workspace sn) (snap_Version sn)
        \<and> (\<forall>e\<in>set es. validEmbedding e \<and> length (emb_Vector e) \<le> 8192)
    | Inl e \<Rightarrow>
        (e = ErrInvalidRequest \<and> (missingSnapshot sn \<or> es = [] \<or> \<not> (\<forall>e\<in>set es. validEmbedding e \<and> length (emb_Vector e) \<le> 8192)))
      \<or> (e = ErrGraphVersionNotFound \<and> \<not> recorded (cat_database s) (snap_Workspace sn) (snap_Version sn))
      \<or> (e = ErrDatabase ''UNIQUE constraint failed'' \<and> resized \<and> (\<exists>d. staleVectors s d \<noteq> {}))"
proof -
  note kept = catalog_reach_kept[OF assms]
  have loop: "case fold_res (writeCatalogEmbedding sn) es s of Inr _ \<Rightarrow> \<forall>x\<in>set es. storable x
    | Inl e' \<Rightarrow> e' = ErrInvalidRequest \<and> \<not> (\<forall>x\<in>set es. storable x)
        \<or> e' = ErrDatabase ''UNIQUE constraint failed'' \<and> (\<exists>d. staleVectors s d \<noteq> {})"
  proof (rule fold_res_cases[where I = "keeps_indexes s"])
    show "keeps_indexes s s" using kept by (simp add: keeps_indexes_def)
    show "(\<exists>t'. writeCatalogEmbedding sn x t = Inr t' \<and> keeps_indexes s t')
      \<or> writeCatalogEmbedding sn x t = Inl (ErrDatabase ''UNIQUE constraint failed'') \<and> (\<exists>d. staleVectors s d \<noteq> {})"
      if "keeps_indexes s t" "storable x" for x t
      using storable_written[OF keeps_indexes_ok[OF that(1)] that(2), of sn] keeps_indexes_trans[OF that(1)] that(1)
      unfolding keeps_indexes_def by blast
  qed (rule unstorable)
  show ?thesis
  proof (cases "missingSnapshot sn \<or> es = []")
    case False
    show ?thesis
    proof (cases "verifyCatalogSnapshot (cat_database s) sn")
      case None
      have "WriteCatalogEmbeddings sn es s = fold_res (writeCatalogEmbedding sn) es s"
        using False None by (simp add: WriteCatalogEmbeddings_def)
      moreover have "recorded (cat_database s) (snap_Workspace sn) (snap_Version sn)" using None unfolding verifyCatalogSnapshot_None .
      ultimately show ?thesis using False loop kept by (auto simp: storable_def split: sum.splits)
    next
      case (Some e)
      then have "WriteCatalogEmbeddings sn es s = Inl ErrGraphVersionNotFound" "\<not> recorded (cat_database s) (snap_Workspace sn) (snap_Version sn)"
        using False by (auto simp: WriteCatalogEmbeddings_def verifyCatalogSnapshot_def recorded_def split: option.splits)
      then show ?thesis by simp
    qed
  qed (auto simp: WriteCatalogEmbeddings_def)
qed

section \<open>What a read returns\<close>

definition entryOf :: "CatalogStore \<Rightarrow> Snapshot \<Rightarrow> string \<Rightarrow> CatalogEntry option" where
  "entryOf s sn n = map_option cr_entry (find (entryAt sn n) (cat_entries s))"

definition embeddingOf :: "CatalogStore \<Rightarrow> Snapshot \<Rightarrow> string \<Rightarrow> CatalogEmbeddingSource \<Rightarrow> (string \<times> nat \<times> string) option" where
  "embeddingOf s sn n source =
     map_option (\<lambda>r. (er_text r, er_dimensions r, er_vector r)) (find (embeddingAt sn n source) (cat_embeddings s))"

subsection \<open>Finding the one row of a key\<close>

lemma find_filter: "find P (filter Q xs) = find (\<lambda>x. Q x \<and> P x) xs"
  by (induction xs) auto

lemma find_map: "find P (map f xs) = map_option f (find (\<lambda>x. P (f x)) xs)"
  by (induction xs) auto

lemma find_append: "find P (xs @ ys) = (case find P xs of Some x \<Rightarrow> Some x | None \<Rightarrow> find P ys)"
  by (induction xs) auto

lemma find_cong_on: "(\<And>x. x \<in> set xs \<Longrightarrow> P x = Q x) \<Longrightarrow> find P xs = find Q xs"
  by (induction xs) auto

lemma find_holds: "find P xs = Some x \<Longrightarrow> P x"
  by (induction xs) (auto split: if_splits)

lemma find_by_key: "distinct (map f xs) \<Longrightarrow> find (\<lambda>x. f x = k) xs = Some x \<longleftrightarrow> x \<in> set xs \<and> f x = k"
  by (induction xs) auto

lemma find_rev_key:
  assumes "distinct (map f xs)"
  shows "find (\<lambda>x. f x = k) (rev xs) = find (\<lambda>x. f x = k) xs"
proof (rule option.expand)
  have "distinct (map f (rev xs))" using assms by (simp add: distinct_map)
  note keys = find_by_key[OF assms] find_by_key[OF this]
  have "\<And>x. find (\<lambda>x. f x = k) (rev xs) = Some x \<longleftrightarrow> find (\<lambda>x. f x = k) xs = Some x" unfolding keys by simp
  then show "(find (\<lambda>x. f x = k) (rev xs) = None) = (find (\<lambda>x. f x = k) xs = None)"
    "find (\<lambda>x. f x = k) (rev xs) \<noteq> None \<Longrightarrow> find (\<lambda>x. f x = k) xs \<noteq> None \<Longrightarrow> the (find (\<lambda>x. f x = k) (rev xs)) = the (find (\<lambda>x. f x = k) xs)"
    by (metis not_None_eq, metis option.collapse)
qed

definition sameSnapshot :: "Snapshot \<Rightarrow> Snapshot \<Rightarrow> bool" where
  "sameSnapshot sn sn' \<longleftrightarrow> snap_Workspace sn = snap_Workspace sn' \<and> snap_Version sn = snap_Version sn'"

subsection \<open>Entries after an upsert\<close>

lemma entryAt_row: "entryAt sn n (entryRow sn' e) \<longleftrightarrow> sameSnapshot sn sn' \<and> ce_NodeID e = n"
  by (auto simp: entryAt_def entryRow_def sameSnapshot_def)

lemma cr_entry_row [simp]: "cr_entry (entryRow sn e) = e"
  by (simp add: entryRow_def)

lemma entryAt_same: "sameSnapshot sn sn' \<Longrightarrow> entryAt sn n = entryAt sn' n"
  by (simp add: sameSnapshot_def entryAt_def fun_eq_iff)

lemma entryAt_other: "entryAt sn n r \<Longrightarrow> entryAt sn' n' r \<Longrightarrow> sameSnapshot sn sn' \<and> n = n'"
  by (auto simp: entryAt_def sameSnapshot_def)

lemma find_replaced: "P y \<Longrightarrow> find P (map (\<lambda>x. if P x then y else x) xs) = (if list_ex P xs then Some y else None)"
  by (induction xs) simp_all

lemma find_unreplaced: "\<not> P y \<Longrightarrow> (\<forall>x. Q x \<longrightarrow> \<not> P x) \<Longrightarrow> find P (map (\<lambda>x. if Q x then y else x) xs) = find P xs"
  by (induction xs) simp_all

lemma find_upsertEntry: "find (entryAt sn n) (upsertEntry target e rows)
   = (if sameSnapshot sn target \<and> n = ce_NodeID e then Some (entryRow target e) else find (entryAt sn n) rows)"
proof (cases "sameSnapshot sn target \<and> n = ce_NodeID e")
  case True
  then have new: "entryAt sn n (entryRow target e)" and same: "entryAt target (ce_NodeID e) = entryAt sn n"
    using entryAt_same[of sn target] by (simp_all add: entryAt_row sameSnapshot_def)
  have "\<not> list_ex (entryAt sn n) rows \<Longrightarrow> find (entryAt sn n) rows = None" by (simp add: find_None_iff list_ex_iff)
  then show ?thesis using True new unfolding upsertEntry_eq same
    by (simp add: find_append find_replaced del: list.map)
next
  case False
  then have new: "\<not> entryAt sn n (entryRow target e)" by (auto simp: entryAt_row)
  have other: "\<forall>r. entryAt target (ce_NodeID e) r \<longrightarrow> \<not> entryAt sn n r" using entryAt_other False by blast
  show ?thesis unfolding if_not_P[OF False] unfolding upsertEntry_eq using new
    by (simp add: find_append find_unreplaced[OF new other] split: option.splits)
qed

lemma find_fold_upsertEntry: "map_option cr_entry (find (entryAt sn n) (fold (upsertEntry target) es rows))
   = (case if sameSnapshot sn target then find (\<lambda>e. ce_NodeID e = n) (rev es) else None of
        Some e \<Rightarrow> Some e | None \<Rightarrow> map_option cr_entry (find (entryAt sn n) rows))"
proof (induction es arbitrary: rows)
  case (Cons e es)
  then show ?case by (auto simp: find_upsertEntry find_append split: option.splits)
qed simp

lemma find_copiedEntries:
  assumes "search_mirrors (cat_entries s) (cat_search s)"
  shows "find (\<lambda>e. ce_NodeID e = n) (rev (copiedEntries source target s))
    = (if n \<in> set (visibleNodeIDs (cat_database s) target) then entryOf s source n else None)"
proof -
  let ?rows = "filter (\<lambda>r. cr_workspace r = snap_Workspace source \<and> cr_version r = snap_Version source
     \<and> ce_NodeID (cr_entry r) \<in> set (visibleNodeIDs (cat_database s) target)) (cat_entries s)"
  have "distinct (map entryKey ?rows)" using assms by (simp add: search_mirrors_def distinct_map_filter)
  moreover have "map entryKey ?rows = map (\<lambda>n. (snap_Workspace source, snap_Version source, n)) (map ce_NodeID (copiedEntries source target s))"
    by (auto simp: copiedEntries_def entryKey_def)
  ultimately have "distinct (map ce_NodeID (copiedEntries source target s))" by (simp only: distinct_map)
  then have "find (\<lambda>e. ce_NodeID e = n) (rev (copiedEntries source target s)) = find (\<lambda>e. ce_NodeID e = n) (copiedEntries source target s)"
    by (rule find_rev_key)
  also have "\<dots> = map_option cr_entry (find (\<lambda>r. n \<in> set (visibleNodeIDs (cat_database s) target) \<and> entryAt source n r) (cat_entries s))"
    unfolding copiedEntries_def find_map find_filter by (intro arg_cong[of _ _ "map_option cr_entry"] find_cong_on) (auto simp: entryAt_def)
  also have "\<dots> = (if n \<in> set (visibleNodeIDs (cat_database s) target) then entryOf s source n else None)"
    by (simp add: entryOf_def find_None_iff)
  finally show ?thesis .
qed

subsection \<open>Embeddings after an upsert or a write\<close>

definition embeddingValue :: "CatalogEmbeddingRow \<Rightarrow> string \<times> nat \<times> string" where
  "embeddingValue r = (er_text r, er_dimensions r, er_vector r)"

lemma embeddingOf_eq: "embeddingOf s sn n source = map_option embeddingValue (find (embeddingAt sn n source) (cat_embeddings s))"
  unfolding embeddingOf_def by (rule arg_cong[of _ _ "\<lambda>f. map_option f _"]) (simp add: embeddingValue_def fun_eq_iff)

lemma embeddingAt_same: "sameSnapshot sn sn' \<Longrightarrow> embeddingAt sn n source = embeddingAt sn' n source"
  by (simp add: sameSnapshot_def embeddingAt_def fun_eq_iff)

lemma embeddingAt_other: "embeddingAt sn n source r \<Longrightarrow> embeddingAt sn' n' source' r \<Longrightarrow> sameSnapshot sn sn' \<and> n = n' \<and> source = source'"
  by (auto simp: embeddingAt_def sameSnapshot_def)

lemma find_map_same: "(\<And>x. P (f x) \<longleftrightarrow> P x) \<Longrightarrow> find P (map f xs) = map_option f (find P xs)"
  by (induction xs) simp_all

lemma find_upsertEmbedding: "map_option embeddingValue (find (embeddingAt sn n source) (upsertEmbedding target e rows))
   = (if sameSnapshot sn target \<and> n = er_node_id e \<and> source = er_source e then Some (embeddingValue e)
      else map_option embeddingValue (find (embeddingAt sn n source) rows))"
proof (cases "sameSnapshot sn target \<and> n = er_node_id e \<and> source = er_source e")
  case True
  then have same: "embeddingAt sn n source = embeddingAt target (er_node_id e) (er_source e)"
    using embeddingAt_same[of sn target] by simp
  have P: "embeddingAt target (er_node_id e) (er_source e) (overwrite target e r) = embeddingAt target (er_node_id e) (er_source e) r" for r
    by (simp add: embeddingAt_key)
  have over: "embeddingValue (overwrite target e r) = embeddingValue e" if "embeddingAt target (er_node_id e) (er_source e) r" for r
    using that by (simp add: overwrite_def embeddingValue_def)
  show ?thesis
  proof (cases "find (embeddingAt target (er_node_id e) (er_source e)) rows")
    case None
    then have "\<not> list_ex (embeddingAt target (er_node_id e) (er_source e)) rows" by (simp add: find_None_iff list_ex_iff)
    then show ?thesis using True None unfolding same upsertEmbedding_eq
      by (simp add: find_append embeddingAt_key embeddingValue_def)
  next
    case (Some r)
    then have "list_ex (embeddingAt target (er_node_id e) (er_source e)) rows" "embeddingAt target (er_node_id e) (er_source e) r"
      by (auto simp: find_Some_iff list_ex_iff)
    then show ?thesis using True Some over unfolding same upsertEmbedding_eq
      by (simp add: find_map_same[of "embeddingAt target (er_node_id e) (er_source e)" "overwrite target e", OF P])
  qed
next
  case False
  have P: "embeddingAt sn n source (overwrite target e r) = embeddingAt sn n source r" for r by (simp add: embeddingAt_key)
  have over: "overwrite target e r = r" if "embeddingAt sn n source r" for r
    using that False embeddingAt_other unfolding overwrite_def by metis
  have new: "\<not> embeddingAt sn n source (copiedRow rowid target e)" for rowid
    using False by (auto simp: embeddingAt_key sameSnapshot_def)
  have "map_option embeddingValue (find (embeddingAt sn n source) (map (overwrite target e) rows))
      = map_option embeddingValue (find (embeddingAt sn n source) rows)"
    unfolding find_map_same[of "embeddingAt sn n source" "overwrite target e", OF P]
    by (cases "find (embeddingAt sn n source) rows") (auto simp: over dest: find_holds)
  then show ?thesis unfolding if_not_P[OF False] unfolding upsertEmbedding_eq using new
    by (simp add: find_append split: option.splits)
qed

lemma find_fold_upsertEmbedding: "map_option embeddingValue (find (embeddingAt sn n source) (fold (upsertEmbedding target) es rows))
   = (case if sameSnapshot sn target then find (\<lambda>e. (er_node_id e, er_source e) = (n, source)) (rev es) else None of
        Some e \<Rightarrow> Some (embeddingValue e) | None \<Rightarrow> map_option embeddingValue (find (embeddingAt sn n source) rows))"
proof (induction es arbitrary: rows)
  case (Cons e es)
  then show ?case by (auto simp: find_upsertEmbedding find_append split: option.splits)
qed simp

lemma find_copiedEmbeddings:
  assumes "embedding_rows_ok (cat_embeddings s)"
  shows "map_option embeddingValue (find (\<lambda>e. (er_node_id e, er_source e) = (n, source')) (rev (copiedEmbeddings source target s)))
    = (if n \<in> set (visibleNodeIDs (cat_database s) target) then embeddingOf s source n source' else None)"
proof -
  have "find (\<lambda>e. (er_node_id e, er_source e) = (n, source')) (rev (copiedEmbeddings source target s))
      = find (\<lambda>e. (er_node_id e, er_source e) = (n, source')) (copiedEmbeddings source target s)"
    by (rule find_rev_key[OF copied_keys[OF assms]])
  also have "\<dots> = find (\<lambda>r. n \<in> set (visibleNodeIDs (cat_database s) target) \<and> embeddingAt source n source' r) (cat_embeddings s)"
    unfolding copiedEmbeddings_def find_filter by (rule find_cong_on) (auto simp: embeddingAt_def)
  finally show ?thesis by (simp add: embeddingOf_eq find_None_iff)
qed

text \<open>C20: A copied catalog has, at the target, the source's entry of every node visible there and keeps the target's own entry
  of the other nodes; the same holds of the embeddings by source; no other version changes.  Afterwards the vector
  table of every dimension holds the stored embeddings of that dimension, and the table of a dimension that no
  embedding of the target has is as it was, with the vectors the copy made stale.\<close>

theorem copied_catalog_is_exact:
  assumes "catalog_reach resized s" "replaces_rows replace" "CopyCatalog replace source target s = Inr s'"
  shows "(\<forall>sn n. entryOf s' sn n =
      (if sameSnapshot sn target \<and> n \<in> set (visibleNodeIDs (cat_database s) target) \<and> entryOf s source n \<noteq> None
       then entryOf s source n else entryOf s sn n))
    \<and> (\<forall>sn n source'. embeddingOf s' sn n source' =
      (if sameSnapshot sn target \<and> n \<in> set (visibleNodeIDs (cat_database s) target) \<and> embeddingOf s source n source' \<noteq> None
       then embeddingOf s source n source' else embeddingOf s sn n source'))
    \<and> cat_database s' = cat_database s \<and> cat_tasks s' = cat_tasks s
    \<and> (\<forall>d. {(er_id r, er_vector r) | r. r \<in> set (cat_embeddings s') \<and> er_dimensions r = d} \<subseteq> set (vectorRows (cat_vectors s') d))
    \<and> (\<forall>d. (\<exists>r\<in>set (cat_embeddings s'). atSnapshot target r \<and> er_dimensions r = d) \<or> cat_vectors s' d = cat_vectors s d)"
proof -
  note ok = catalog_reach_ok[OF assms(1)]
  obtain v where s': "s' = s\<lparr>cat_entries := fold (upsertEntry target) (copiedEntries source target s) (cat_entries s),
      cat_embeddings := fold (upsertEmbedding target) (copiedEmbeddings source target s) (cat_embeddings s), cat_vectors := v,
      cat_search := filter (\<lambda>r. \<not> searchIn target r) (cat_search s) @ map searchRow (filter (entryIn target)
        (fold (upsertEntry target) (copiedEntries source target s) (cat_entries s)))\<rparr>"
    and kept: "catalog_ok s'" and tables: "\<forall>d. (\<exists>r\<in>set (cat_embeddings s'). atSnapshot target r \<and> er_dimensions r = d) \<or> v d = cat_vectors s d"
    by (rule CopyCatalog_shape[OF ok assms(2,3)])
  have entries: "\<forall>sn n. entryOf s' sn n =
      (if sameSnapshot sn target \<and> n \<in> set (visibleNodeIDs (cat_database s) target) \<and> entryOf s source n \<noteq> None
       then entryOf s source n else entryOf s sn n)"
  proof (intro allI)
    fix sn n
    show "entryOf s' sn n =
      (if sameSnapshot sn target \<and> n \<in> set (visibleNodeIDs (cat_database s) target) \<and> entryOf s source n \<noteq> None
       then entryOf s source n else entryOf s sn n)"
    proof -
      have "entryOf s' sn n = (case if sameSnapshot sn target then find (\<lambda>e. ce_NodeID e = n) (rev (copiedEntries source target s)) else None of
          Some e \<Rightarrow> Some e | None \<Rightarrow> entryOf s sn n)"
        unfolding entryOf_def find_fold_upsertEntry[symmetric] s' by simp
      then show ?thesis unfolding find_copiedEntries[OF catalog_okD(1)[OF ok], of n source target]
        by (simp split: option.splits)
    qed
  qed
  have embeddings: "\<forall>sn n source'. embeddingOf s' sn n source' =
      (if sameSnapshot sn target \<and> n \<in> set (visibleNodeIDs (cat_database s) target) \<and> embeddingOf s source n source' \<noteq> None
       then embeddingOf s source n source' else embeddingOf s sn n source')"
  proof (intro allI)
    fix sn n source'
    show "embeddingOf s' sn n source' =
      (if sameSnapshot sn target \<and> n \<in> set (visibleNodeIDs (cat_database s) target) \<and> embeddingOf s source n source' \<noteq> None
       then embeddingOf s source n source' else embeddingOf s sn n source')"
    proof -
      have "embeddingOf s' sn n source' = (case if sameSnapshot sn target
          then map_option embeddingValue (find (\<lambda>e. (er_node_id e, er_source e) = (n, source')) (rev (copiedEmbeddings source target s))) else None of
          Some x \<Rightarrow> Some x | None \<Rightarrow> embeddingOf s sn n source')"
        unfolding embeddingOf_eq[of s' sn] embeddingOf_eq[of s sn] unfolding s' by (simp add: find_fold_upsertEmbedding split: option.splits)
      then show ?thesis unfolding find_copiedEmbeddings[OF catalog_okD(2)[OF ok], of n source' source target]
        by (simp split: option.splits)
    qed
  qed
  have stored: "{(er_id r, er_vector r) | r. r \<in> set (cat_embeddings s') \<and> er_dimensions r = d}
      = vectorOf ` {r \<in> set (cat_embeddings s'). er_dimensions r = d}" for d by (auto simp: vectorOf_def)
  have "\<forall>d. {(er_id r, er_vector r) | r. r \<in> set (cat_embeddings s') \<and> er_dimensions r = d} \<subseteq> set (vectorRows (cat_vectors s') d)"
    using catalog_okD(3)[OF kept] unfolding vectors_cover_def stored by blast
  moreover have "cat_vectors s' = v" by (simp add: s')
  note tables[folded this]
  moreover have "cat_database s' = cat_database s" "cat_tasks s' = cat_tasks s" by (simp_all add: s')
  ultimately show ?thesis using entries embeddings by blast
qed

subsection \<open>Reading back what was written\<close>

definition decoded :: "CatalogEmbeddingRow \<Rightarrow> CatalogEmbedding \<Rightarrow> bool" where
  "decoded r e \<longleftrightarrow> emb_NodeID e = er_node_id r \<and> emb_Source e = er_source r \<and> emb_Text e = er_text r
     \<and> deserializeCatalogEmbedding (er_vector r) = Inr (emb_Vector e)"

lemma mapRes_elements:
  assumes "\<forall>x\<in>set xs. \<exists>y. f x = Inr y"
  shows "\<exists>ys. mapRes f xs = Inr ys \<and> set ys = {y. \<exists>x\<in>set xs. f x = Inr y}"
  using assms by (induction xs) (auto simp: res_simps)

lemma find_row:
  assumes "embedding_rows_ok rows"
  shows "find (embeddingAt sn n source) rows = Some r \<longleftrightarrow> r \<in> set rows \<and> embeddingAt sn n source r"
  using find_by_key[of embeddingKey rows "(snap_Workspace sn, snap_Version sn, n, source)" r] assms
  by (simp add: embedding_rows_ok_def embeddingAt_key[abs_def])

lemma read_embeddings:
  assumes "catalog_ok s" "\<not> missingSnapshot sn" "ids \<noteq> []" "'''' \<notin> set ids" "length ids + 2 \<le> variableLimit"
  shows "\<exists>rs. ReadCatalogEmbeddings variableLimit sn ids s = Inr rs \<and> set rs = {e. emb_NodeID e \<in> set ids
    \<and> (\<exists>r. find (embeddingAt sn (emb_NodeID e) (emb_Source e)) (cat_embeddings s) = Some r \<and> decoded r e)}"
proof -
  let ?f = "\<lambda>r. res_map (\<lambda>vector. \<lparr>emb_NodeID = er_node_id r, emb_Source = er_source r, emb_Text = er_text r,
           emb_Vector = vector\<rparr>) (deserializeCatalogEmbedding (er_vector r))"
  let ?xs = "sort_key (\<lambda>r. (er_node_id r, if er_source r = ''deterministic'' then 0 else (1::nat)))
         (filter (\<lambda>r. er_workspace r = snap_Workspace sn \<and> er_version r = snap_Version sn \<and> er_node_id r \<in> set ids) (cat_embeddings s))"
  have decoded: "?f r = Inr e \<longleftrightarrow> decoded r e" for r e
    by (cases e) (auto simp: decoded_def res_simps)
  have "\<exists>vector. deserializeCatalogEmbedding (er_vector r) = Inr vector" if "r \<in> set (cat_embeddings s)" for r
    using that catalog_okD(2)[OF assms(1)] deserialize_ok by (auto simp: embedding_rows_ok_def)
  then have "\<forall>r\<in>set ?xs. \<exists>e. ?f r = Inr e" by (fastforce simp: res_simps)
  from mapRes_elements[OF this] obtain rs where rs: "mapRes ?f ?xs = Inr rs" "set rs = {e. \<exists>r\<in>set ?xs. decoded r e}"
    unfolding decoded by blast
  have "(\<exists>r\<in>set ?xs. decoded r e) \<longleftrightarrow> emb_NodeID e \<in> set ids
    \<and> (\<exists>r. find (embeddingAt sn (emb_NodeID e) (emb_Source e)) (cat_embeddings s) = Some r \<and> decoded r e)" for e
  proof -
    have "r \<in> set ?xs \<and> decoded r e \<longleftrightarrow> emb_NodeID e \<in> set ids \<and> (r \<in> set (cat_embeddings s)
        \<and> embeddingAt sn (emb_NodeID e) (emb_Source e) r) \<and> decoded r e" for r
      unfolding set_sort set_filter decoded_def embeddingAt_def mem_Collect_eq by metis
    then show ?thesis unfolding find_row[OF catalog_okD(2)[OF assms(1)]] by blast
  qed
  then have "set rs = {e. emb_NodeID e \<in> set ids
      \<and> (\<exists>r. find (embeddingAt sn (emb_NodeID e) (emb_Source e)) (cat_embeddings s) = Some r \<and> decoded r e)}"
    unfolding rs(2) by (intro Collect_cong)
  moreover have "ReadCatalogEmbeddings variableLimit sn ids s = Inr rs"
    using assms(2-5) rs(1) unfolding ReadCatalogEmbeddings_def by (simp only: not_less[symmetric] if_False simp_thms)
  ultimately show ?thesis by (intro exI conjI)
qed

lemma find_withEmbedding: "find (embeddingAt sn n source) (withEmbedding sn e rows)
   = (if n = emb_NodeID e \<and> source = emb_Source e
      then Some (embeddingRow (nextEmbeddingID (filter (\<lambda>r. \<not> embeddingAt sn (emb_NodeID e) (emb_Source e) r) rows)) sn e)
      else find (embeddingAt sn n source) rows)"
proof (cases "n = emb_NodeID e \<and> source = emb_Source e")
  case True
  have "find (embeddingAt sn n source) (filter (\<lambda>r. \<not> embeddingAt sn (emb_NodeID e) (emb_Source e) r) rows) = None"
    using True by (simp add: find_None_iff)
  then show ?thesis using True by (simp add: withEmbedding_def Let_def find_append embeddingAt_key)
next
  case False
  have "find (embeddingAt sn n source) (filter (\<lambda>r. \<not> embeddingAt sn (emb_NodeID e) (emb_Source e) r) rows) = find (embeddingAt sn n source) rows"
    unfolding find_filter using False embeddingAt_other by (intro find_cong_on) blast
  moreover have "\<not> embeddingAt sn n source (embeddingRow rowid sn e)" for rowid using False by (auto simp: embeddingAt_key)
  ultimately show ?thesis unfolding if_not_P[OF False]
    by (simp add: withEmbedding_def Let_def find_append split: option.splits)
qed

lemma decoded_row: "emb_Vector w \<noteq> [] \<Longrightarrow> decoded (embeddingRow rowid sn w) e \<longleftrightarrow> e = w"
  by (cases e; cases w) (auto simp: decoded_def embeddingRow_def deserialize_serialize)

definition storedAt :: "CatalogStore \<Rightarrow> Snapshot \<Rightarrow> CatalogEmbedding \<Rightarrow> bool" where
  "storedAt s sn e \<longleftrightarrow>
     (\<exists>r. find (embeddingAt sn (emb_NodeID e) (emb_Source e)) (cat_embeddings s) = Some r \<and> decoded r e)"

lemma storedAt_write:
  assumes "catalog_ok s" "writeCatalogEmbedding sn w s = Inr s'"
  shows "storedAt s' sn e \<longleftrightarrow> (if emb_NodeID w = emb_NodeID e \<and> emb_Source w = emb_Source e then e = w else storedAt s sn e)"
proof -
  obtain v where "s' = s\<lparr>cat_vectors := v, cat_embeddings := withEmbedding sn w (cat_embeddings s)\<rparr>"
    by (rule writeEmbedding_result[OF assms])
  moreover have "emb_Vector w \<noteq> []" using writeEmbedding_valid[OF assms(2)] by (simp add: validEmbedding_def)
  ultimately show ?thesis by (auto simp: storedAt_def find_withEmbedding decoded_row)
qed

lemma storedAt_writes:
  assumes "fold_res (writeCatalogEmbedding sn) ws s = Inr s'" "catalog_ok s"
  shows "storedAt s' sn e \<longleftrightarrow> (case find (\<lambda>w. emb_NodeID w = emb_NodeID e \<and> emb_Source w = emb_Source e) (rev ws) of
     Some w \<Rightarrow> e = w | None \<Rightarrow> storedAt s sn e)"
  using assms
proof (induction ws arbitrary: s)
  case (Cons w ws)
  obtain t where t: "writeCatalogEmbedding sn w s = Inr t" "fold_res (writeCatalogEmbedding sn) ws t = Inr s'"
    using Cons.prems(1) by (auto split: sum.splits)
  have "catalog_ok t" by (rule writeEmbedding_result[OF Cons.prems(2) t(1)]) (rule keeps_indexes_ok)
  then show ?case using Cons.IH[OF t(2)] storedAt_write[OF Cons.prems(2) t(1)] by (auto simp: find_append split: option.splits)
qed simp

text \<open>C21: After embeddings are written to a snapshot of a reachable catalog, reading nodes of it returns for every node and
  source the last vector written, bit for bit, and for the others what a read returned before - as many
  nodes as one statement of the database can bind with two other values.\<close>

theorem written_embeddings_are_read_back:
  assumes "catalog_reach resized s" "WriteCatalogEmbeddings sn ws s = Inr s'"
    and "ids \<noteq> []" "'''' \<notin> set ids" "length ids + 2 \<le> variableLimit"
  shows "\<exists>before after. ReadCatalogEmbeddings variableLimit sn ids s = Inr before \<and> ReadCatalogEmbeddings variableLimit sn ids s' = Inr after
    \<and> (\<forall>e. e \<in> set after \<longleftrightarrow> emb_NodeID e \<in> set ids
        \<and> (case find (\<lambda>w. emb_NodeID w = emb_NodeID e \<and> emb_Source w = emb_Source e) (rev ws) of
            Some w \<Rightarrow> e = w | None \<Rightarrow> e \<in> set before))"
proof -
  note ok = catalog_reach_ok[OF assms(1)]
  have loop: "\<not> missingSnapshot sn" "fold_res (writeCatalogEmbedding sn) ws s = Inr s'"
    using guarded_loop[OF assms(2)[unfolded WriteCatalogEmbeddings_def]] by simp_all
  obtain before where before: "ReadCatalogEmbeddings variableLimit sn ids s = Inr before"
    "set before = {e. emb_NodeID e \<in> set ids \<and> storedAt s sn e}"
    using read_embeddings[OF ok loop(1) assms(3,4,5)] unfolding storedAt_def by blast
  obtain after where after: "ReadCatalogEmbeddings variableLimit sn ids s' = Inr after"
    "set after = {e. emb_NodeID e \<in> set ids \<and> storedAt s' sn e}"
    using read_embeddings[OF keeps_indexes_ok[OF WriteCatalogEmbeddings_ok[OF ok assms(2)]] loop(1) assms(3,4,5)] unfolding storedAt_def by blast
  show ?thesis using before after storedAt_writes[OF loop(2) ok] by (auto split: option.splits)
qed

subsection \<open>Rollback follows the graph\<close>

text \<open>The catalog tables as Database keeps them: which rows belong to which version.\<close>

definition catalogVersions :: "CatalogStore \<Rightarrow> DerivedTable \<Rightarrow> (string \<times> GraphVersion) list" where
  "catalogVersions s t = (case t of
       catalog_entries \<Rightarrow> map (\<lambda>r. (cr_workspace r, cr_version r)) (cat_entries s)
     | catalog_search \<Rightarrow> map (\<lambda>r. (cs_workspace r, cs_version r)) (cat_search s)
     | catalog_embeddings \<Rightarrow> map (\<lambda>r. (er_workspace r, er_version r)) (cat_embeddings s)
     | node_search \<Rightarrow> [])"

definition rolledBackCatalog :: "RollbackRequest \<Rightarrow> CatalogStore \<Rightarrow> CatalogStore \<Rightarrow> bool" where
  "rolledBackCatalog request s s' \<longleftrightarrow> cat_tasks s' = cat_tasks s \<and> (\<forall>t. catalogVersions s' t
     = filter (\<lambda>(ws, v). \<not> (ws = rb_Workspace request \<and> v > rb_Version request)) (catalogVersions s t))"

text \<open>C23: Rolling back a workspace with a reachable catalog succeeds exactly when rolling back its graph does, leaves that
  graph, and removes from every catalog table exactly the rows of the versions removed; the catalog task stays.\<close>

theorem catalog_rollback_follows_graph:
  assumes "catalog_reach resized s"
  shows "(case Rollback request (cat_database s) of Inl e \<Rightarrow> RollbackCatalog request s = Inl e
    | Inr (sn, db) \<Rightarrow> (\<exists>s'. RollbackCatalog request s = Inr (sn, s') \<and> cat_database s' = db \<and> rolledBackCatalog request s s'))"
proof -
  obtain s1 where s1: "deleteCatalogVersions (rb_Workspace request) (\<lambda>v. v > rb_Version request) s = Inr s1"
    "cat_entries s1 = filter (\<lambda>r. \<not> (cr_workspace r = rb_Workspace request \<and> cr_version r > rb_Version request)) (cat_entries s)"
    "cat_search s1 = filter (\<lambda>r. \<not> (cs_workspace r = rb_Workspace request \<and> cs_version r > rb_Version request)) (cat_search s)"
    "cat_embeddings s1 = filter (\<lambda>r. \<not> (er_workspace r = rb_Workspace request \<and> er_version r > rb_Version request)) (cat_embeddings s)"
    "cat_tasks s1 = cat_tasks s"
    by (rule deleteCatalogVersions_ok[OF catalog_reach_ok[OF assms]])
  have "catalogVersions (s1\<lparr>cat_database := db\<rparr>) t
     = filter (\<lambda>(ws, v). \<not> (ws = rb_Workspace request \<and> v > rb_Version request)) (catalogVersions s t)" for db t
    by (cases t) (simp_all add: catalogVersions_def s1 filter_map comp_def)
  then show ?thesis using s1(1,5)
    by (cases "Rollback request (cat_database s)") (auto simp: RollbackCatalog_def rolledBackCatalog_def)
qed

subsection \<open>The task of a workspace that was rolled back\<close>

lemma find_map_kept: "find P xs = Some x \<Longrightarrow> f x = x \<Longrightarrow> (\<And>y. P (f y) \<longleftrightarrow> P y) \<Longrightarrow> find P (map f xs) = Some x"
  by (induction xs) (auto split: if_splits)

text \<open>A task recorded for a version survives a rollback to an older one, and from then on every valid task of an older
  version is accepted and dropped: a read still returns the task of the version that was removed.\<close>

theorem rolled_back_workspace_keeps_its_task:
  assumes "catalog_reach resized s" "ReadCatalogTask (rb_Workspace request) s = Inr (Some old)"
    and "RollbackCatalog request s = Inr (sn, s1)"
    and "validCatalogTask new" "ct_Workspace new = rb_Workspace request" "ct_GraphVersion new < ct_GraphVersion old"
  shows "\<exists>s2. WriteCatalogTask new s1 = Inr s2 \<and> ReadCatalogTask (rb_Workspace request) s2 = Inr (Some old)"
proof -
  obtain s0 where s0: "deleteCatalogVersions (rb_Workspace request) (\<lambda>v. v > rb_Version request) s = Inr s0" "cat_tasks s0 = cat_tasks s"
    by (rule deleteCatalogVersions_ok[OF catalog_reach_ok[OF assms(1)]])
  then have tasks: "cat_tasks s1 = cat_tasks s" using assms(3) by (auto simp: RollbackCatalog_def res_simps)
  have ws: "rb_Workspace request \<noteq> ''''" and old: "find (\<lambda>row. ct_Workspace row = rb_Workspace request) (cat_tasks s) = Some old"
    using assms(2) by (simp_all add: ReadCatalogTask_def split: if_splits)
  have "list_ex (\<lambda>row. ct_Workspace row = ct_Workspace new) (cat_tasks s1)"
    using old assms(5) by (auto simp: tasks list_ex_iff find_Some_iff)
  moreover have "find (\<lambda>row. ct_Workspace row = rb_Workspace request)
      (map (\<lambda>row. if ct_Workspace row = ct_Workspace new \<and> ct_GraphVersion new \<ge> ct_GraphVersion row then new else row) (cat_tasks s1)) = Some old"
    unfolding tasks by (rule find_map_kept[OF old]) (use assms(5,6) in simp_all)
  ultimately show ?thesis using assms(4) ws by (simp add: WriteCatalogTask_def ReadCatalogTask_def)
qed

section \<open>Concrete catalogs\<close>

definition catalogNode :: "string \<Rightarrow> Node" where
  "catalogNode n = \<lparr>node_ID = n, node_Kind = ''function'', node_Label = n, node_QualifiedName = n, node_Evidence = zero_Evidence\<rparr>"

text \<open>Versions 1 and 2 of a workspace, each with the nodes a and b.\<close>

definition catalogGraph :: Database where
  "catalogGraph = emptyDatabase\<lparr>db_graph_versions := [\<lparr>gv_workspace = ''w'', gv_version = 1, gv_publishedAt = 0\<rparr>,
       \<lparr>gv_workspace = ''w'', gv_version = 2, gv_publishedAt = 0\<rparr>],
     db_workspace_nodes := [\<lparr>wn_workspace = ''w'', wn_version = 1, wn_node = catalogNode ''a''\<rparr>,
       \<lparr>wn_workspace = ''w'', wn_version = 1, wn_node = catalogNode ''b''\<rparr>,
       \<lparr>wn_workspace = ''w'', wn_version = 2, wn_node = catalogNode ''a''\<rparr>,
       \<lparr>wn_workspace = ''w'', wn_version = 2, wn_node = catalogNode ''b''\<rparr>]\<rparr>"

definition graphCatalog :: CatalogStore where
  "graphCatalog = emptyCatalog\<lparr>cat_database := catalogGraph\<rparr>"

definition snapshotOf :: "GraphVersion \<Rightarrow> Snapshot" where
  "snapshotOf v = \<lparr>snap_Workspace = ''w'', snap_Version = v, snap_PublishedAt = 0\<rparr>"

definition entryFor :: "string \<Rightarrow> CatalogEntry" where
  "entryFor n = \<lparr>ce_NodeID = n, ce_Name = n, ce_InputFingerprint = '''', ce_DeterministicSynopsis = ''does '' @ n,
     ce_CopilotSynopsis = '''', ce_OllamaSynopsis = '''', ce_ClaudeSynopsis = ''''\<rparr>"

definition embeddingFor :: "string \<Rightarrow> float32 list \<Rightarrow> CatalogEmbedding" where
  "embeddingFor n vector = \<lparr>emb_NodeID = n, emb_Source = ''deterministic'', emb_Text = ''does '' @ n, emb_Vector = vector\<rparr>"

lemma graphCatalog_reach: "catalog_reach False graphCatalog"
  using catalog_reach.step[OF catalog_reach.start catalog_step.graph, of catalogGraph] by (simp add: graphCatalog_def)

lemma graph_recorded: "recorded catalogGraph ''w'' v \<longleftrightarrow> v = 1 \<or> v = 2"
  by (auto simp: recorded_def findVersion_def catalogGraph_def)

lemma sample_embedding: "storable (embeddingFor ''a'' [1, 2])"
  by (simp add: storable_def validEmbedding_def embeddingFor_def catalogEmbeddingSources_def CatalogEmbeddingDeterministic_def)

text \<open>The catalog of version 1 with an entry and an embedding of two numbers for the node a.\<close>

definition sampleEmbedding :: CatalogEmbeddingRow where
  "sampleEmbedding = \<lparr>er_id = 1, er_workspace = ''w'', er_version = 1, er_node_id = ''a'', er_source = ''deterministic'',
     er_text = ''does a'', er_dimensions = 2, er_vector = serializeCatalogEmbedding [1, 2]\<rparr>"

definition entryCatalog :: CatalogStore where
  "entryCatalog = graphCatalog\<lparr>cat_entries := [entryRow (snapshotOf 1) (entryFor ''a'')],
     cat_search := [searchRow (entryRow (snapshotOf 1) (entryFor ''a''))]\<rparr>"

definition sampleCatalog :: CatalogStore where
  "sampleCatalog = entryCatalog\<lparr>cat_embeddings := [sampleEmbedding], cat_vectors := [2 \<mapsto> [(1, serializeCatalogEmbedding [1, 2])]]\<rparr>"

lemma sample_verified: "verifyCatalogSnapshot catalogGraph (snapshotOf 1) = None" "verifyCatalogSnapshot catalogGraph (snapshotOf 2) = None"
  by (simp_all add: verifyCatalogSnapshot_None snapshotOf_def graph_recorded)

lemma entry_written: "WriteCatalog (snapshotOf 1) [entryFor ''a''] graphCatalog = Inr entryCatalog"
  using sample_verified by (simp add: WriteCatalog_def writeCatalogEntry_def entryFor_def missingSnapshot_def snapshotOf_def graphCatalog_def
      emptyCatalog_def upsertEntry_def entryCatalog_def)

lemma embedding_written: "WriteCatalogEmbeddings (snapshotOf 1) [embeddingFor ''a'' [1, 2]] entryCatalog = Inr sampleCatalog"
  using sample_verified by (simp add: WriteCatalogEmbeddings_def writeCatalogEmbedding_def validEmbedding_def embeddingFor_def catalogEmbeddingSources_def
      CatalogEmbeddingDeterministic_def missingSnapshot_def ensureVectorTable_def onVectors_def insertVector_def nextEmbeddingID_def snapshotOf_def
      graphCatalog_def emptyCatalog_def entryCatalog_def sampleCatalog_def sampleEmbedding_def Let_def numeral_2_eq_2)

lemma entryCatalog_reach: "catalog_reach False entryCatalog"
  using catalog_reach.step[OF graphCatalog_reach catalog_step.entries[OF entry_written]] by simp

lemma sampleCatalog_reach: "catalog_reach False sampleCatalog"
  using catalog_reach.step[OF entryCatalog_reach catalog_step.embeddings[OF embedding_written]] by simp

lemma sample_written: "is_ok (WriteCatalogEmbeddings (snapshotOf 1) [embeddingFor ''a'' [1, 2]] graphCatalog)"
  using sample_verified by (simp add: WriteCatalogEmbeddings_def writeCatalogEmbedding_def validEmbedding_def embeddingFor_def catalogEmbeddingSources_def
      CatalogEmbeddingDeterministic_def missingSnapshot_def ensureVectorTable_def onVectors_def insertVector_def snapshotOf_def
      graphCatalog_def emptyCatalog_def Let_def)

theorem catalog_indexes_mirror_witness:
  "set (cat_search sampleCatalog) = {searchRow (entryRow (snapshotOf 1) (entryFor ''a''))} \<and> length (cat_search sampleCatalog) = 1
    \<and> set (vectorRows (cat_vectors sampleCatalog) 2) = {(1, serializeCatalogEmbedding [1, 2])}"
proof -
  have "cat_entries sampleCatalog = [entryRow (snapshotOf 1) (entryFor ''a'')]" "cat_embeddings sampleCatalog = [sampleEmbedding]"
    by (simp_all add: sampleCatalog_def entryCatalog_def)
  moreover have "{(er_id r, er_vector r) | r. r \<in> set [sampleEmbedding] \<and> er_dimensions r = 2} = {(1, serializeCatalogEmbedding [1, 2])}"
    by (auto simp: sampleEmbedding_def)
  ultimately show ?thesis using catalog_indexes_mirror[OF sampleCatalog_reach] by simp
qed

theorem embedding_writes_fail_exactly_witness:
  "is_ok (WriteCatalogEmbeddings (snapshotOf 2) [embeddingFor ''a'' [1, 2]] sampleCatalog)
    \<and> \<not> is_ok (WriteCatalogEmbeddings (snapshotOf 2) [embeddingFor ''a'' [1, 2], embeddingFor ''b'' []] sampleCatalog)"
proof -
  have "\<forall>e\<in>set [embeddingFor ''a'' [1, 2]]. validEmbedding e \<and> length (emb_Vector e) \<le> 8192"
    using sample_embedding by (simp add: storable_def)
  moreover have "\<not> missingSnapshot (snapshotOf 2)" "recorded (cat_database sampleCatalog) (snap_Workspace (snapshotOf 2)) (snap_Version (snapshotOf 2))"
    by (simp_all add: missingSnapshot_def snapshotOf_def sampleCatalog_def entryCatalog_def graphCatalog_def graph_recorded)
  moreover have "\<not> validEmbedding (embeddingFor ''b'' [])" by (simp add: validEmbedding_def embeddingFor_def)
  ultimately show ?thesis
    using embedding_writes_fail_exactly[OF sampleCatalog_reach, of "snapshotOf 2" "[embeddingFor ''a'' [1, 2]]"]
      embedding_writes_fail_exactly[OF sampleCatalog_reach, of "snapshotOf 2" "[embeddingFor ''a'' [1, 2], embeddingFor ''b'' []]"]
    by (auto simp: is_ok_iff split: sum.splits)
qed

theorem written_embeddings_are_read_back_witness:
  "\<exists>s' after. WriteCatalogEmbeddings (snapshotOf 1) [embeddingFor ''a'' [1, 2]] graphCatalog = Inr s'
     \<and> ReadCatalogEmbeddings 32766 (snapshotOf 1) [''a''] s' = Inr after \<and> embeddingFor ''a'' [1, 2] \<in> set after"
proof -
  obtain s' where s': "WriteCatalogEmbeddings (snapshotOf 1) [embeddingFor ''a'' [1, 2]] graphCatalog = Inr s'"
    using sample_written unfolding is_ok_iff by blast
  obtain after where "ReadCatalogEmbeddings 32766 (snapshotOf 1) [''a''] s' = Inr after"
    "\<forall>e. emb_NodeID e = ''a'' \<and> e = embeddingFor ''a'' [1, 2] \<longrightarrow> e \<in> set after"
    using written_embeddings_are_read_back[OF graphCatalog_reach s', of "[''a'']" 32766]
    by (auto simp: embeddingFor_def)
  then show ?thesis using s' by (simp add: embeddingFor_def)
qed

lemma copyVectors_succeeds: "0 < d \<Longrightarrow> d \<le> 8192 \<Longrightarrow> \<exists>s'. copyVectors replaceVectors target d s = Inr s'"
  by (simp add: copyVectors_def ensureVectorTable_def onVectors_def replaceVectors_def split: option.splits)

lemma copy_loop_succeeds: "\<forall>d\<in>set ds. 0 < d \<and> d \<le> 8192 \<Longrightarrow> \<exists>s'. fold_res (copyVectors replaceVectors target) ds s = Inr s'"
proof (induction ds arbitrary: s)
  case (Cons d ds)
  then obtain s1 where "copyVectors replaceVectors target d s = Inr s1" using copyVectors_succeeds[of d target s] by auto
  then show ?case using Cons.IH[of s1] Cons.prems by simp
qed simp

text \<open>A copy succeeds when no vector table refuses a row.\<close>

lemma copy_succeeds:
  assumes "catalog_ok s" "\<not> missingSnapshot source" "\<not> missingSnapshot target" "snap_Workspace source = snap_Workspace target"
    and "verifyCatalogSnapshot (cat_database s) source = None" "verifyCatalogSnapshot (cat_database s) target = None"
  shows "\<exists>s'. CopyCatalog replaceVectors source target s = Inr s'"
proof -
  let ?rows = "fold (upsertEmbedding target) (copiedEmbeddings source target s) (cat_embeddings s)"
  have "\<forall>e\<in>set (copiedEmbeddings source target s). valid_row e \<and> (False \<longrightarrow> keeps_dimension target e (cat_embeddings s))"
    using catalog_okD(2)[OF assms(1)] by (auto simp: copiedEmbeddings_def embedding_rows_ok_valid)
  from grownD(1)[OF fold_upsertEmbedding_grown[OF catalog_okD(2)[OF assms(1)] copied_keys[OF catalog_okD(2)[OF assms(1)]] this]]
  have "embedding_rows_ok ?rows" .
  then have dims: "\<forall>d\<in>set (dedup (map er_dimensions (filter (atSnapshot target) ?rows))). 0 < d \<and> d \<le> 8192"
    by (auto simp: embedding_rows_ok_def)
  let ?s2 = "s\<lparr>cat_entries := fold (upsertEntry target) (copiedEntries source target s) (cat_entries s), cat_embeddings := ?rows\<rparr>"
  obtain s3 where "copyCatalogEmbeddingVectors replaceVectors target ?s2 = Inr s3"
    using copy_loop_succeeds[OF dims, of target ?s2] by (auto simp: copyCatalogEmbeddingVectors_def)
  then show ?thesis using assms(2-6) by (simp add: CopyCatalog_def Let_def)
qed

lemma sample_copy: "\<exists>s'. CopyCatalog replaceVectors (snapshotOf 1) (snapshotOf 2) sampleCatalog = Inr s'"
proof (rule copy_succeeds[OF catalog_reach_ok[OF sampleCatalog_reach]])
  show "verifyCatalogSnapshot (cat_database sampleCatalog) (snapshotOf 1) = None" "verifyCatalogSnapshot (cat_database sampleCatalog) (snapshotOf 2) = None"
    using sample_verified by (simp_all add: sampleCatalog_def entryCatalog_def graphCatalog_def)
qed (simp_all add: missingSnapshot_def snapshotOf_def)

theorem copied_catalog_is_exact_witness:
  "\<exists>s'. CopyCatalog replaceVectors (snapshotOf 1) (snapshotOf 2) sampleCatalog = Inr s' \<and> entryOf s' (snapshotOf 2) ''a'' = Some (entryFor ''a'')
     \<and> embeddingOf s' (snapshotOf 2) ''a'' ''deterministic'' = Some (''does a'', 2, serializeCatalogEmbedding [1, 2])"
proof -
  obtain s' where s': "CopyCatalog replaceVectors (snapshotOf 1) (snapshotOf 2) sampleCatalog = Inr s'" using sample_copy by blast
  have visible: "''a'' \<in> set (visibleNodeIDs (cat_database sampleCatalog) (snapshotOf 2))"
    by (simp add: sampleCatalog_def entryCatalog_def graphCatalog_def visibleNodeIDs_def visibleNodes_def catalogGraph_def snapshotOf_def catalogNode_def)
  have "entryOf sampleCatalog (snapshotOf 1) ''a'' = Some (entryFor ''a'')"
    by (simp add: sampleCatalog_def entryCatalog_def entryOf_def entryAt_row sameSnapshot_def entryFor_def)
  moreover have "embeddingOf sampleCatalog (snapshotOf 1) ''a'' ''deterministic'' = Some (''does a'', 2, serializeCatalogEmbedding [1, 2])"
    by (simp add: sampleCatalog_def embeddingOf_def embeddingAt_def snapshotOf_def sampleEmbedding_def)
  ultimately show ?thesis
    using copied_catalog_is_exact[OF sampleCatalog_reach replaces_replaceVectors s'] visible s' by (simp add: sameSnapshot_def del: split_paired_All)
qed

theorem catalog_rollback_follows_graph_witness:
  "RollbackCatalog \<lparr>rb_Workspace = ''w'', rb_Version = 7\<rparr> graphCatalog = Inl ErrGraphVersionNotFound
    \<and> (\<exists>sn s'. RollbackCatalog \<lparr>rb_Workspace = ''w'', rb_Version = 1\<rparr> sampleCatalog = Inr (sn, s')
        \<and> catalogVersions s' catalog_entries = [(''w'', 1)] \<and> catalogVersions s' catalog_embeddings = [(''w'', 1)])"
proof -
  have "Rollback \<lparr>rb_Workspace = ''w'', rb_Version = 7\<rparr> (cat_database graphCatalog) = Inl ErrGraphVersionNotFound"
    by (simp add: Rollback_def Let_def findVersion_def graphCatalog_def catalogGraph_def)
  then have missing: "RollbackCatalog \<lparr>rb_Workspace = ''w'', rb_Version = 7\<rparr> graphCatalog = Inl ErrGraphVersionNotFound"
    using catalog_rollback_follows_graph[OF graphCatalog_reach, of "\<lparr>rb_Workspace = ''w'', rb_Version = 7\<rparr>"] by simp
  have "\<exists>sn db. Rollback \<lparr>rb_Workspace = ''w'', rb_Version = 1\<rparr> (cat_database sampleCatalog) = Inr (sn, db)"
    by (simp add: Rollback_def Let_def findVersion_def sampleCatalog_def entryCatalog_def graphCatalog_def catalogGraph_def)
  then obtain sn s' where s': "RollbackCatalog \<lparr>rb_Workspace = ''w'', rb_Version = 1\<rparr> sampleCatalog = Inr (sn, s')"
    "rolledBackCatalog \<lparr>rb_Workspace = ''w'', rb_Version = 1\<rparr> sampleCatalog s'"
    using catalog_rollback_follows_graph[OF sampleCatalog_reach, of "\<lparr>rb_Workspace = ''w'', rb_Version = 1\<rparr>"] by auto
  moreover have "catalogVersions sampleCatalog catalog_entries = [(''w'', 1)]" "catalogVersions sampleCatalog catalog_embeddings = [(''w'', 1)]"
    by (simp_all add: catalogVersions_def sampleCatalog_def entryCatalog_def sampleEmbedding_def entryRow_def snapshotOf_def)
  ultimately show ?thesis using missing by (simp add: rolledBackCatalog_def)
qed

text \<open>A finished task of version 2, and a new one of version 1 after the rollback.\<close>

definition taskFor :: "GraphVersion \<Rightarrow> CatalogTask" where
  "taskFor v = \<lparr>ct_Workspace = ''w'', ct_GraphVersion = v, ct_State = CatalogTaskComplete, ct_ProcessID = 1, ct_StartedAt = Some 1,
     ct_FinishedAt = Some 2, ct_CompletedUnits = 1, ct_TotalUnits = 1, ct_Stage = '''', ct_ChangedPaths = [], ct_Failure = ''''\<rparr>"

lemma valid_task: "0 < v \<Longrightarrow> validCatalogTask (taskFor v)"
  by (simp add: validCatalogTask_def taskFor_def CatalogTaskComplete_def)

theorem rolled_back_workspace_keeps_its_task_witness:
  "\<exists>s sn s1 s2. WriteCatalogTask (taskFor 2) graphCatalog = Inr s \<and> RollbackCatalog \<lparr>rb_Workspace = ''w'', rb_Version = 1\<rparr> s = Inr (sn, s1)
     \<and> WriteCatalogTask (taskFor 1) s1 = Inr s2 \<and> ReadCatalogTask ''w'' s2 = Inr (Some (taskFor 2))"
proof -
  let ?request = "\<lparr>rb_Workspace = ''w'', rb_Version = 1\<rparr>"
  have s: "WriteCatalogTask (taskFor 2) graphCatalog = Inr (graphCatalog\<lparr>cat_tasks := [taskFor 2]\<rparr>)"
    by (simp add: WriteCatalogTask_def valid_task graphCatalog_def emptyCatalog_def)
  let ?s = "graphCatalog\<lparr>cat_tasks := [taskFor 2]\<rparr>"
  have reach: "catalog_reach False ?s" using catalog_reach.step[OF graphCatalog_reach catalog_step.task[OF s]] by simp
  obtain s0 where "deleteCatalogVersions ''w'' (\<lambda>v. v > 1) ?s = Inr s0" by (rule deleteCatalogVersions_ok[OF catalog_reach_ok[OF reach]])
  moreover have "\<exists>sn db. Rollback ?request (cat_database ?s) = Inr (sn, db)"
    by (simp add: Rollback_def Let_def findVersion_def graphCatalog_def catalogGraph_def)
  ultimately obtain sn s1 where rollback: "RollbackCatalog ?request ?s = Inr (sn, s1)" by (auto simp: RollbackCatalog_def)
  have "ReadCatalogTask ''w'' ?s = Inr (Some (taskFor 2))" by (simp add: ReadCatalogTask_def taskFor_def)
  then obtain s2 where "WriteCatalogTask (taskFor 1) s1 = Inr s2" "ReadCatalogTask ''w'' s2 = Inr (Some (taskFor 2))"
    using rolled_back_workspace_keeps_its_task[OF reach _ rollback valid_task[of 1]] by (auto simp: taskFor_def)
  then show ?thesis using s rollback by blast
qed

subsection \<open>Two limits of the vector tables\<close>

text \<open>When a copy overwrites an embedding of another dimension the old vector stays behind in its table, and the next
  write of an embedding may be refused: here version 1 has a vector of one number, version 2 one of two numbers for the
  same node, and once version 1 was copied over version 2 writing the two numbers to version 2 again fails.\<close>

theorem resized_copy_blocks_embeddings:
  "\<exists>s1 s2 s3. WriteCatalogEmbeddings (snapshotOf 1) [embeddingFor ''a'' [1]] graphCatalog = Inr s1
     \<and> WriteCatalogEmbeddings (snapshotOf 2) [embeddingFor ''a'' [1, 2]] s1 = Inr s2
     \<and> CopyCatalog replaceVectors (snapshotOf 1) (snapshotOf 2) s2 = Inr s3
     \<and> map fst (vectorRows (cat_vectors s3) 2) = [2]
     \<and> \<not> list_ex (\<lambda>r. er_dimensions r = 2) (cat_embeddings s3)
     \<and> WriteCatalogEmbeddings (snapshotOf 2) [embeddingFor ''a'' [1, 2]] s3 = Inl (ErrDatabase ''UNIQUE constraint failed'')"
proof -
  let ?row = "\<lambda>id v d vector. \<lparr>er_id = id, er_workspace = ''w'', er_version = v, er_node_id = ''a'', er_source = ''deterministic'',
     er_text = ''does a'', er_dimensions = d, er_vector = vector\<rparr>"
  let ?one = "serializeCatalogEmbedding [1]" and ?two = "serializeCatalogEmbedding [1, 2]"
  let ?s1 = "graphCatalog\<lparr>cat_embeddings := [?row 1 1 1 ?one], cat_vectors := [1 \<mapsto> [(1, ?one)]]\<rparr>"
  let ?s2 = "graphCatalog\<lparr>cat_embeddings := [?row 1 1 1 ?one, ?row 2 2 2 ?two], cat_vectors := [1 \<mapsto> [(1, ?one)], 2 \<mapsto> [(2, ?two)]]\<rparr>"
  let ?s3 = "graphCatalog\<lparr>cat_entries := [], cat_embeddings := [?row 1 1 1 ?one, ?row 2 2 1 ?one],
     cat_vectors := [2 \<mapsto> [(2, ?two)], 1 \<mapsto> [(1, ?one), (2, ?one)]], cat_search := []\<rparr>"
  have verified: "verifyCatalogSnapshot catalogGraph (snapshotOf 1) = None" "verifyCatalogSnapshot catalogGraph (snapshotOf 2) = None"
    by (simp_all add: verifyCatalogSnapshot_None snapshotOf_def graph_recorded)
  have graph: "cat_database graphCatalog = catalogGraph" "cat_embeddings graphCatalog = []" "cat_vectors graphCatalog = (\<lambda>_. None)"
    "cat_entries graphCatalog = []" "cat_search graphCatalog = []"
    by (simp_all add: graphCatalog_def emptyCatalog_def)
  note embed = numeral_2_eq_2 Let_def WriteCatalogEmbeddings_def writeCatalogEmbedding_def validEmbedding_def embeddingFor_def catalogEmbeddingSources_def
    CatalogEmbeddingDeterministic_def missingSnapshot_def ensureVectorTable_def onVectors_def insertVector_def deleteVector_def
    nextEmbeddingID_def embeddingAt_def
  have "WriteCatalogEmbeddings (snapshotOf 1) [embeddingFor ''a'' [1]] graphCatalog = Inr ?s1"
    using verified(1) graph by (simp add: embed snapshotOf_def)
  moreover have "WriteCatalogEmbeddings (snapshotOf 2) [embeddingFor ''a'' [1, 2]] ?s1 = Inr ?s2"
    using verified(2) graph by (simp add: embed snapshotOf_def)
  moreover have "''a'' \<in> set (visibleNodeIDs catalogGraph (snapshotOf 2))"
    by (simp add: visibleNodeIDs_def visibleNodes_def catalogGraph_def snapshotOf_def catalogNode_def)
  then have "CopyCatalog replaceVectors (snapshotOf 1) (snapshotOf 2) ?s2 = Inr ?s3"
    using verified graph by (simp add: CopyCatalog_def Let_def copiedEntries_def copiedEmbeddings_def copyCatalogEmbeddingVectors_def
      copyVectors_def replaceVectors_def atSnapshot_def upsertEmbedding_def embed snapshotOf_def)
  moreover have "WriteCatalogEmbeddings (snapshotOf 2) [embeddingFor ''a'' [1, 2]] ?s3 = Inl (ErrDatabase ''UNIQUE constraint failed'')"
    using verified(2) graph by (simp add: embed snapshotOf_def)
  moreover have "map fst (vectorRows (cat_vectors ?s3) 2) = [2]" "\<not> list_ex (\<lambda>r. er_dimensions r = 2) (cat_embeddings ?s3)"
    by (simp_all add: vectorRows_def)
  ultimately show ?thesis by (intro exI[of _ ?s1] exI[of _ ?s2] exI[of _ ?s3] conjI)
qed

definition sameVector :: "string \<Rightarrow> string \<Rightarrow> float64" where
  "sameVector x y = (if x = y then 0 else 1)"

lemma serialize_inj: "serializeCatalogEmbedding x = serializeCatalogEmbedding y \<longleftrightarrow> x = y" if "x \<noteq> []" "y \<noteq> []"
  using deserialize_serialize[OF that(1)] deserialize_serialize[OF that(2)] by (metis sum.inject(2))

text \<open>A vector search takes the nearest vectors of every version and workspace before it keeps those of its snapshot, twice
  as many as the limit: with two nearer vectors in version 1 a search of version 2 for one match returns nothing,
  although version 2 has an entry with an embedding, and a search for two matches returns it.\<close>

theorem vector_search_is_crowded_out:
  "\<exists>s1 s2 s3. WriteCatalog (snapshotOf 2) [entryFor ''a''] graphCatalog = Inr s1
     \<and> WriteCatalogEmbeddings (snapshotOf 1) [embeddingFor ''a'' [1], embeddingFor ''b'' [1]] s1 = Inr s2
     \<and> WriteCatalogEmbeddings (snapshotOf 2) [embeddingFor ''a'' [2]] s2 = Inr s3
     \<and> SearchCatalogVectors sameVector (snapshotOf 2) \<lparr>cvr_Vector = [1], cvr_Limit = 1\<rparr> s3 = Inr []
     \<and> SearchCatalogVectors sameVector (snapshotOf 2) \<lparr>cvr_Vector = [1], cvr_Limit = 2\<rparr> s3
        = Inr [\<lparr>cm_Node = catalogNode ''a'', cm_Entry = entryFor ''a'', cm_Score = - 1\<rparr>]"
proof -
  let ?row = "\<lambda>id v n vector. \<lparr>er_id = id, er_workspace = ''w'', er_version = v, er_node_id = n, er_source = ''deterministic'',
     er_text = ''does '' @ n, er_dimensions = 1, er_vector = vector\<rparr>"
  let ?one = "serializeCatalogEmbedding [1]" and ?two = "serializeCatalogEmbedding [2]"
  let ?s1 = "graphCatalog\<lparr>cat_entries := [entryRow (snapshotOf 2) (entryFor ''a'')], cat_search := [searchRow (entryRow (snapshotOf 2) (entryFor ''a''))]\<rparr>"
  let ?s2 = "?s1\<lparr>cat_embeddings := [?row 1 1 ''a'' ?one, ?row 2 1 ''b'' ?one], cat_vectors := [1 \<mapsto> [(1, ?one), (2, ?one)]]\<rparr>"
  let ?s3 = "?s1\<lparr>cat_embeddings := [?row 1 1 ''a'' ?one, ?row 2 1 ''b'' ?one, ?row 3 2 ''a'' ?two],
     cat_vectors := [1 \<mapsto> [(1, ?one), (2, ?one), (3, ?two)]]\<rparr>"
  have verified: "verifyCatalogSnapshot catalogGraph (snapshotOf 1) = None" "verifyCatalogSnapshot catalogGraph (snapshotOf 2) = None"
    by (simp_all add: verifyCatalogSnapshot_None snapshotOf_def graph_recorded)
  have graph: "cat_database graphCatalog = catalogGraph" "cat_embeddings graphCatalog = []" "cat_vectors graphCatalog = (\<lambda>_. None)"
    "cat_entries graphCatalog = []" "cat_search graphCatalog = []"
    by (simp_all add: graphCatalog_def emptyCatalog_def)
  note embed = Let_def WriteCatalogEmbeddings_def writeCatalogEmbedding_def validEmbedding_def embeddingFor_def catalogEmbeddingSources_def
    CatalogEmbeddingDeterministic_def missingSnapshot_def ensureVectorTable_def onVectors_def insertVector_def deleteVector_def
    nextEmbeddingID_def embeddingAt_def
  have "WriteCatalog (snapshotOf 2) [entryFor ''a''] graphCatalog = Inr ?s1"
    using verified(2) graph by (simp add: WriteCatalog_def writeCatalogEntry_def entryFor_def missingSnapshot_def snapshotOf_def upsertEntry_def)
  moreover have "WriteCatalogEmbeddings (snapshotOf 1) [embeddingFor ''a'' [1], embeddingFor ''b'' [1]] ?s1 = Inr ?s2"
    using verified(1) graph by (simp add: embed snapshotOf_def)
  moreover have "WriteCatalogEmbeddings (snapshotOf 2) [embeddingFor ''a'' [2]] ?s2 = Inr ?s3"
    using verified(2) graph by (simp add: embed snapshotOf_def)
  moreover have differ: "sameVector ?one ?one = 0" "sameVector ?two ?one = 1" by (simp_all add: sameVector_def serialize_inj)
  have visible: "dedup (visibleNodes catalogGraph ''w'' 2) = [catalogNode ''a'', catalogNode ''b'']"
    by (simp add: visibleNodes_def visibleRows_def catalogGraph_def emptyDatabase_def catalogNode_def)
  have entry: "entryAt (snapshotOf 2) ''a'' (entryRow (snapshotOf 2) (entryFor ''a''))" by (simp add: entryAt_row sameSnapshot_def entryFor_def)
  have "SearchCatalogVectors sameVector (snapshotOf 2) \<lparr>cvr_Vector = [1], cvr_Limit = 1\<rparr> ?s3 = Inr []"
    using differ by (simp add: SearchCatalogVectors_def Let_def rankedVectorNodes_def atSnapshot_def snapshotOf_def missingSnapshot_def numeral_2_eq_2)
  moreover have "SearchCatalogVectors sameVector (snapshotOf 2) \<lparr>cvr_Vector = [1], cvr_Limit = 2\<rparr> ?s3
        = Inr [\<lparr>cm_Node = catalogNode ''a'', cm_Entry = entryFor ''a'', cm_Score = - 1\<rparr>]"
  proof -
    have "rankedVectorNodes (snapshotOf 2) [(1, 0), (2, 0), (3, 1)] [?row 1 1 ''a'' ?one, ?row 2 1 ''b'' ?one, ?row 3 2 ''a'' ?two] = [(''a'', 1)]"
      by (simp add: rankedVectorNodes_def Let_def atSnapshot_def snapshotOf_def)
    moreover have "snap_Workspace (snapshotOf 2) = ''w''" "snap_Version (snapshotOf 2) = 2" "\<not> missingSnapshot (snapshotOf 2)"
      by (simp_all add: snapshotOf_def missingSnapshot_def)
    moreover have "entryFor ''a''\<lparr>ce_InputFingerprint := ''''\<rparr> = entryFor ''a''" "ce_NodeID (entryFor ''a'') = ''a''" by (simp_all add: entryFor_def)
    moreover have "node_ID (catalogNode ''a'') = ''a''" "node_ID (catalogNode ''b'') = ''b''" by (simp_all add: catalogNode_def)
    ultimately show ?thesis using differ visible entry graph by (simp add: SearchCatalogVectors_def Let_def)
  qed
  ultimately show ?thesis by (intro exI[of _ ?s1] exI[of _ ?s2] exI[of _ ?s3] conjI)
qed

end
