(* ===== verification/CatalogRank.thy ===== *)
theory CatalogRank
  imports Catalog
begin

text \<open>
  query/catalog.go: the matches of a catalog search, ranked again by the similarity of embeddings, or
  found by their vectors when no text matches.  The text search, the vector search, the reader of
  embeddings and the generator are what the caller passes in; a nil interface is None.  Similarities
  are rationals of the finite 32-bit floats; the machine's roundings and square root are a parameter
  (infinities and NaN are not modelled).
\<close>

subsection \<open>Similarity\<close>

definition float32_value :: "float32 \<Rightarrow> float64" where
  "float32_value w = (let b = unat w; e = b div 2 ^ 23 mod 2 ^ 8; m = b mod 2 ^ 23;
       magnitude = (if e = 0 then of_nat m / 2 ^ 149 else of_nat (2 ^ 23 + m) * 2 ^ e / 2 ^ 150)
     in if b < 2 ^ 31 then magnitude else - magnitude)"

text \<open>Go multiplies in 32 bits and adds, divides and takes the root in 64 bits, rounding each result.\<close>

record FloatArithmetic =
  round32 :: "float64 \<Rightarrow> float64"
  round64 :: "float64 \<Rightarrow> float64"
  sqrt64 :: "float64 \<Rightarrow> float64"

definition dotProduct :: "FloatArithmetic \<Rightarrow> float32 list \<Rightarrow> float32 list \<Rightarrow> float64" where
  "dotProduct arith left right =
     foldl (\<lambda>total product. round64 arith (total + round32 arith product)) 0 (map2 (\<lambda>x y. float32_value x * float32_value y) left right)"

definition cosineSimilarity :: "FloatArithmetic \<Rightarrow> float32 list \<Rightarrow> float32 list \<Rightarrow> float64 option" where
  "cosineSimilarity arith left right =
    (if length left = 0 \<or> length left \<noteq> length right then None
     else let leftMagnitude = dotProduct arith left left; rightMagnitude = dotProduct arith right right in
       if leftMagnitude = 0 \<or> rightMagnitude = 0 then None
       else Some (round64 arith (dotProduct arith left right / sqrt64 arith (round64 arith (leftMagnitude * rightMagnitude)))))"

subsection \<open>Options and results\<close>

definition catalogLexicalCandidateLimit :: int where "catalogLexicalCandidateLimit = 50"
definition catalogResultLimit :: nat where "catalogResultLimit = 10"

type_synonym CatalogSearcher = "Snapshot \<Rightarrow> CatalogSearchRequest \<Rightarrow> StoreError + CatalogMatch list"
type_synonym CatalogVectorSearcher = "Snapshot \<Rightarrow> CatalogVectorSearchRequest \<Rightarrow> StoreError + CatalogMatch list"
type_synonym CatalogEmbeddingReader = "Snapshot \<Rightarrow> string list \<Rightarrow> StoreError + CatalogEmbedding list"
type_synonym CatalogEmbeddingGenerator = "string \<Rightarrow> string + float32 list"

record CatalogRankingOptions =
  opt_EmbeddingGenerator :: "CatalogEmbeddingGenerator option"
  opt_EmbeddingReader :: "CatalogEmbeddingReader option"
  opt_VectorSearcher :: "CatalogVectorSearcher option"

datatype CatalogRetrievalMethod = CatalogRetrievalLexical | CatalogRetrievalLexicalAndEmbeddings | CatalogRetrievalEmbeddings

record CatalogRetrieval =
  ret_Method :: CatalogRetrievalMethod
  ret_EmbeddingSkipReason :: string

record CatalogResult =
  res_Matches :: "CatalogMatch list"
  res_Retrieval :: CatalogRetrieval
  res_Warnings :: "string list"

datatype CatalogRankError = CatalogSearchMissing | CatalogTextMissing | CatalogStoreFailed StoreError

text \<open>A searcher, with the vector search when its type has one.\<close>

type_synonym Searcher = "CatalogSearcher \<times> CatalogVectorSearcher option"

subsection \<open>Ranking\<close>

definition generated :: "CatalogEmbeddingGenerator \<Rightarrow> string \<Rightarrow> float32 list option" where
  "generated generator text = (case generator text of Inl _ \<Rightarrow> None | Inr vector \<Rightarrow> if vector = [] then None else Some vector)"

definition searchCatalogVectors :: "Searcher \<Rightarrow> Snapshot \<Rightarrow> string \<Rightarrow> CatalogRankingOptions \<Rightarrow> CatalogMatch list \<times> string" where
  "searchCatalogVectors searcher snapshot text options =
    (case opt_EmbeddingGenerator options of
       None \<Rightarrow> ([], ''optional embeddings are not configured'')
     | Some generator \<Rightarrow>
       (case (case opt_VectorSearcher options of Some v \<Rightarrow> Some v | None \<Rightarrow> snd searcher) of
          None \<Rightarrow> ([], ''optional vector search is unavailable'')
        | Some vectorSearcher \<Rightarrow>
          (case generated generator text of
             None \<Rightarrow> ([], ''optional embedding generation is unavailable'')
           | Some vector \<Rightarrow>
             (case vectorSearcher snapshot \<lparr>cvr_Vector = vector, cvr_Limit = catalogLexicalCandidateLimit\<rparr> of
                Inl _ \<Rightarrow> ([], ''optional vector search is unavailable'')
              | Inr matches \<Rightarrow> (matches, '''')))))"

definition addScore :: "FloatArithmetic \<Rightarrow> float32 list \<Rightarrow> CatalogEmbedding \<Rightarrow> (string \<rightharpoonup> float64) \<Rightarrow> (string \<rightharpoonup> float64)" where
  "addScore arith queryVector embedding scores =
    (case cosineSimilarity arith queryVector (emb_Vector embedding) of
       None \<Rightarrow> scores
     | Some score \<Rightarrow> (case scores (emb_NodeID embedding) of
           Some prior \<Rightarrow> if score > prior then scores(emb_NodeID embedding \<mapsto> score) else scores
         | None \<Rightarrow> scores(emb_NodeID embedding \<mapsto> score)))"

text \<open>The stable sort of the code: matches with a score first, by falling score, the others after them.\<close>

definition matchKey :: "(string \<rightharpoonup> float64) \<Rightarrow> CatalogMatch \<Rightarrow> nat \<times> float64" where
  "matchKey scores match = (case scores (node_ID (cm_Node match)) of Some score \<Rightarrow> (0, - score) | None \<Rightarrow> (1, 0))"

definition rerankCatalogMatches :: "FloatArithmetic \<Rightarrow> CatalogMatch list \<Rightarrow> Snapshot \<Rightarrow> string
    \<Rightarrow> CatalogEmbeddingGenerator \<Rightarrow> CatalogEmbeddingReader \<Rightarrow> CatalogMatch list \<times> bool \<times> string" where
  "rerankCatalogMatches arith matches snapshot text generator reader =
    (case generated generator text of
       None \<Rightarrow> (matches, False, ''optional embedding generation is unavailable'')
     | Some queryVector \<Rightarrow>
       (case reader snapshot (map (\<lambda>match. node_ID (cm_Node match)) matches) of
          Inl _ \<Rightarrow> (matches, False, ''optional embedding retrieval is unavailable'')
        | Inr embeddings \<Rightarrow>
            let scores = fold (addScore arith queryVector) embeddings Map.empty in
            if list_all (\<lambda>e. scores (emb_NodeID e) = None) embeddings then (matches, False, ''optional catalog embeddings are unavailable'')
            else (sort_key (matchKey scores) matches, True, '''')))"

definition RankCatalogSnapshot :: "FloatArithmetic \<Rightarrow> Searcher option \<Rightarrow> Snapshot \<Rightarrow> string \<Rightarrow> CatalogRankingOptions
    \<Rightarrow> CatalogRankError + CatalogResult" where
  "RankCatalogSnapshot arith searcher snapshot text options =
    (case searcher of
       None \<Rightarrow> Inl CatalogSearchMissing
     | Some s \<Rightarrow>
       if TrimSpace text = '''' then Inl CatalogTextMissing
       else (case fst s snapshot \<lparr>csr_Text = text, csr_Limit = catalogLexicalCandidateLimit\<rparr> of
         Inl e \<Rightarrow> Inl (CatalogStoreFailed e)
       | Inr matches \<Rightarrow>
         if matches = [] then
           (case searchCatalogVectors s snapshot text options of (vectorMatches, reason) \<Rightarrow>
              if vectorMatches \<noteq> [] then
                Inr \<lparr>res_Matches = take catalogResultLimit vectorMatches,
                  res_Retrieval = \<lparr>ret_Method = CatalogRetrievalEmbeddings, ret_EmbeddingSkipReason = ''''\<rparr>, res_Warnings = []\<rparr>
              else Inr \<lparr>res_Matches = [], res_Retrieval = \<lparr>ret_Method = CatalogRetrievalLexical,
                  ret_EmbeddingSkipReason = (if reason \<noteq> '''' then reason else ''no catalog embeddings match the query'')\<rparr>,
                  res_Warnings = [''no catalog units match the query'']\<rparr>)
         else
           (case (case (opt_EmbeddingGenerator options, opt_EmbeddingReader options) of
                (Some generator, Some reader) \<Rightarrow> rerankCatalogMatches arith matches snapshot text generator reader
              | _ \<Rightarrow> (matches, False, ''optional embeddings are not configured'')) of (ranked, reranked, reason) \<Rightarrow>
              Inr \<lparr>res_Matches = take catalogResultLimit ranked,
                res_Retrieval = \<lparr>ret_Method = (if reranked then CatalogRetrievalLexicalAndEmbeddings else CatalogRetrievalLexical),
                  ret_EmbeddingSkipReason = reason\<rparr>, res_Warnings = []\<rparr>)))"

section \<open>The best similarity of a node\<close>

definition similarities :: "FloatArithmetic \<Rightarrow> float32 list \<Rightarrow> CatalogEmbedding list \<Rightarrow> string \<Rightarrow> float64 set" where
  "similarities arith q es n =
     \<Union> (set (map (\<lambda>e. if emb_NodeID e = n then set_option (cosineSimilarity arith q (emb_Vector e)) else {}) es))"

definition bestSimilarity :: "FloatArithmetic \<Rightarrow> float32 list \<Rightarrow> CatalogEmbedding list \<Rightarrow> string \<Rightarrow> float64 option" where
  "bestSimilarity arith q es n =
     (if similarities arith q es n = {} then None else Some (Max (similarities arith q es n)))"

lemma finite_similarities [simp]: "finite (similarities arith q es n)"
  by (auto simp: similarities_def)

lemma similarities_snoc: "similarities arith q (es @ [e]) n = similarities arith q es n
   \<union> (if emb_NodeID e = n then set_option (cosineSimilarity arith q (emb_Vector e)) else {})"
  by (auto simp: similarities_def)

lemma addScore_best:
  assumes "scores = bestSimilarity arith q es"
  shows "addScore arith q e scores = bestSimilarity arith q (es @ [e])"
proof
  fix n
  show "addScore arith q e scores n = bestSimilarity arith q (es @ [e]) n"
  proof (cases "cosineSimilarity arith q (emb_Vector e)")
    case None
    then show ?thesis by (simp add: addScore_def assms bestSimilarity_def similarities_snoc)
  next
    case (Some s)
    show ?thesis
    proof (cases "similarities arith q es (emb_NodeID e) = {}")
      case True
      then show ?thesis using Some by (simp add: addScore_def assms bestSimilarity_def similarities_snoc)
    next
      case False
      define M where "M = Max (similarities arith q es (emb_NodeID e))"
      have "Max (insert s (similarities arith q es (emb_NodeID e))) = max s M" using False by (simp add: M_def)
      then have new: "bestSimilarity arith q (es @ [e]) (emb_NodeID e) = Some (max s M)"
        using Some by (simp add: bestSimilarity_def similarities_snoc)
      have old: "bestSimilarity arith q es (emb_NodeID e) = Some M" using False by (simp add: bestSimilarity_def M_def)
      show ?thesis
      proof (cases "n = emb_NodeID e")
        case True
        then show ?thesis using Some old new by (simp add: addScore_def assms max_def)
      next
        case other: False
        then have "bestSimilarity arith q (es @ [e]) n = bestSimilarity arith q es n"
          by (simp add: bestSimilarity_def similarities_snoc)
        then show ?thesis using Some old other by (simp add: addScore_def assms)
      qed
    qed
  qed
qed

lemma scores_best: "fold (addScore arith q) es Map.empty = bestSimilarity arith q es"
proof (induction es rule: rev_induct)
  case Nil
  then show ?case by (simp add: bestSimilarity_def similarities_def fun_eq_iff)
next
  case (snoc e es)
  then show ?case by (simp add: addScore_best)
qed

lemma bestSimilarity_node: "bestSimilarity arith q es n \<noteq> None \<Longrightarrow> \<exists>e\<in>set es. emb_NodeID e = n"
  by (auto simp: bestSimilarity_def similarities_def split: if_splits)

text \<open>A match may come before another when it has the better similarity; without one it comes last.\<close>

definition mayPrecede :: "(string \<rightharpoonup> float64) \<Rightarrow> CatalogMatch \<Rightarrow> CatalogMatch \<Rightarrow> bool" where
  "mayPrecede scores a b = (case (scores (node_ID (cm_Node a)), scores (node_ID (cm_Node b))) of
     (Some x, Some y) \<Rightarrow> x \<ge> y | (None, Some _) \<Rightarrow> False | _ \<Rightarrow> True)"

lemma matchKey_le: "matchKey scores a \<le> matchKey scores b \<longleftrightarrow> mayPrecede scores a b"
  by (auto simp: matchKey_def mayPrecede_def split: option.splits)

lemma matchKey_eq: "matchKey scores a = matchKey scores b \<longleftrightarrow> scores (node_ID (cm_Node a)) = scores (node_ID (cm_Node b))"
  by (auto simp: matchKey_def split: option.splits)

lemma sorted_matches: "sorted_wrt (mayPrecede scores) (sort_key (matchKey scores) ms)"
proof -
  have "sorted_wrt (\<lambda>a b. matchKey scores a \<le> matchKey scores b) (sort_key (matchKey scores) ms)"
    using sorted_sort_key[of "matchKey scores" ms] by (simp add: sorted_map)
  then show ?thesis by (simp only: matchKey_le)
qed

lemma stable_matches: "filter (\<lambda>m. scores (node_ID (cm_Node m)) = v) (sort_key (matchKey scores) ms)
   = filter (\<lambda>m. scores (node_ID (cm_Node m)) = v) ms"
proof (cases "\<exists>m\<in>set ms. scores (node_ID (cm_Node m)) = v")
  case True
  then obtain m :: CatalogMatch where "scores (node_ID (cm_Node m)) = v" by blast
  then have "(\<lambda>m'. scores (node_ID (cm_Node m')) = v) = (\<lambda>m'. matchKey scores m' = matchKey scores m)" by (auto simp: matchKey_eq)
  then show ?thesis by (simp add: sort_key_stable)
next
  case False
  then show ?thesis by (simp add: filter_False)
qed

definition rankedBy :: "(string \<rightharpoonup> float64) \<Rightarrow> CatalogMatch list \<Rightarrow> CatalogMatch list \<Rightarrow> bool" where
  "rankedBy scores matches ranked \<longleftrightarrow> mset ranked = mset matches \<and> sorted_wrt (mayPrecede scores) ranked
     \<and> (\<forall>v. filter (\<lambda>m. scores (node_ID (cm_Node m)) = v) ranked = filter (\<lambda>m. scores (node_ID (cm_Node m)) = v) matches)"

lemma rerank_ranked:
  assumes "generator text = Inr q" "q \<noteq> []" "reader snapshot (map (\<lambda>m. node_ID (cm_Node m)) matches) = Inr es"
  shows "rankedBy (bestSimilarity arith q es) matches (fst (rerankCatalogMatches arith matches snapshot text generator reader))"
proof (cases "list_all (\<lambda>e. bestSimilarity arith q es (emb_NodeID e) = None) es")
  case True
  have none: "bestSimilarity arith q es n = None" for n
  proof (rule ccontr)
    assume "bestSimilarity arith q es n \<noteq> None"
    then obtain e where "e \<in> set es" "emb_NodeID e = n" using bestSimilarity_node by blast
    then show False using True \<open>bestSimilarity arith q es n \<noteq> None\<close> by (auto simp: list_all_iff)
  qed
  have "fst (rerankCatalogMatches arith matches snapshot text generator reader) = matches"
    using assms by (simp add: rerankCatalogMatches_def generated_def scores_best Let_def none list_all_iff)
  moreover have "sorted_wrt (mayPrecede (bestSimilarity arith q es)) matches"
    by (rule sorted_wrt_mono_rel[of _ "\<lambda>_ _. True"]) (simp_all add: mayPrecede_def none sorted_wrt_iff_nth_less)
  ultimately show ?thesis by (simp add: rankedBy_def)
next
  case False
  then have "fst (rerankCatalogMatches arith matches snapshot text generator reader) = sort_key (matchKey (bestSimilarity arith q es)) matches"
    using assms by (simp add: rerankCatalogMatches_def generated_def scores_best Let_def)
  then show ?thesis by (simp add: rankedBy_def sorted_matches stable_matches)
qed

text \<open>C25: When the text search finds candidates and their embeddings can be read, the answer is the first ten of the candidates in
  the order of their best similarity over all their embeddings; those without one come last, and equal ones stay in the
  order of the text search.\<close>

theorem catalog_ranking_is_exact:
  assumes "search snapshot \<lparr>csr_Text = words, csr_Limit = catalogLexicalCandidateLimit\<rparr> = Inr matches" "matches \<noteq> []"
    and "opt_EmbeddingGenerator options = Some generator" "generator words = Inr q" "q \<noteq> []"
    and "opt_EmbeddingReader options = Some reader" "reader snapshot (map (\<lambda>m. node_ID (cm_Node m)) matches) = Inr es"
    and "TrimSpace words \<noteq> ''''"
  shows "\<exists>result ranked. RankCatalogSnapshot arith (Some (search, vectors)) snapshot words options = Inr result
    \<and> res_Matches result = take 10 ranked \<and> rankedBy (bestSimilarity arith q es) matches ranked"
proof -
  note ranked = rerank_ranked[where generator = generator and reader = reader and arith = arith, OF assms(4,5,7)]
  obtain ms b reason where r: "rerankCatalogMatches arith matches snapshot words generator reader = (ms, b, reason)"
    by (cases "rerankCatalogMatches arith matches snapshot words generator reader") auto
  then have "\<exists>result. RankCatalogSnapshot arith (Some (search, vectors)) snapshot words options = Inr result
      \<and> res_Matches result = take 10 ms"
    using assms by (simp add: RankCatalogSnapshot_def catalogResultLimit_def)
  then show ?thesis using ranked r by auto
qed

text \<open>C26: A catalog search fails only when there is no searcher, the text is blank, or the text search fails; a missing or
  failing generator, reader or vector search never makes it fail.  It returns at most
  ten matches, and warns exactly when it returns none.\<close>

theorem catalog_ranking_fails_only_with_the_search:
  "(case RankCatalogSnapshot arith searcher snapshot text options of
     Inl e \<Rightarrow> searcher = None \<and> e = CatalogSearchMissing \<or> searcher \<noteq> None \<and> TrimSpace text = '''' \<and> e = CatalogTextMissing
       \<or> (\<exists>s e'. searcher = Some s \<and> TrimSpace text \<noteq> '''' \<and> e = CatalogStoreFailed e'
           \<and> fst s snapshot \<lparr>csr_Text = text, csr_Limit = catalogLexicalCandidateLimit\<rparr> = Inl e')
   | Inr result \<Rightarrow> length (res_Matches result) \<le> 10 \<and> res_Warnings result = (if res_Matches result = [] then [''no catalog units match the query''] else [])
       \<and> (\<exists>s ms. searcher = Some s \<and> fst s snapshot \<lparr>csr_Text = text, csr_Limit = catalogLexicalCandidateLimit\<rparr> = Inr ms))"
proof -
  have kept: "fst (rerankCatalogMatches arith ms snapshot text g rd) = [] \<longleftrightarrow> ms = []" for ms g rd
    by (auto simp: rerankCatalogMatches_def Let_def split: option.splits sum.splits dest: arg_cong[of _ _ length])
  show ?thesis
  proof (cases searcher)
    case None
    then show ?thesis by (simp add: RankCatalogSnapshot_def)
  next
    case (Some s)
    show ?thesis
    proof (cases "fst s snapshot \<lparr>csr_Text = text, csr_Limit = catalogLexicalCandidateLimit\<rparr>")
      case (Inl e)
      then show ?thesis using Some by (simp add: RankCatalogSnapshot_def)
    next
      case (Inr ms)
      obtain vs why where v: "searchCatalogVectors s snapshot text options = (vs, why)" by fastforce
      obtain rs b reason where r: "(case (opt_EmbeddingGenerator options, opt_EmbeddingReader options) of
                (Some generator, Some reader) \<Rightarrow> rerankCatalogMatches arith ms snapshot text generator reader
              | _ \<Rightarrow> (ms, False, ''optional embeddings are not configured'')) = (rs, b, reason)" by (rule prod_cases3)
      have "rs = [] \<longleftrightarrow> ms = []"
        using kept[of ms] r by (auto split: option.splits) (metis fst_conv)+
      then show ?thesis using Some Inr v r by (simp add: RankCatalogSnapshot_def catalogResultLimit_def)
    qed
  qed
qed

section \<open>Answers of the store\<close>

lemma set_rerank: "set (fst (rerankCatalogMatches arith ms sn text generator reader)) = set ms"
  by (simp add: rerankCatalogMatches_def Let_def split: option.split sum.split)

text \<open>The candidates before the limit, with the two other results of the ranking.\<close>

definition rankedCandidates :: "FloatArithmetic \<Rightarrow> CatalogMatch list \<Rightarrow> Snapshot \<Rightarrow> string \<Rightarrow> CatalogRankingOptions
    \<Rightarrow> CatalogMatch list \<times> bool \<times> string" where
  "rankedCandidates arith matches snapshot text options =
    (case (opt_EmbeddingGenerator options, opt_EmbeddingReader options) of
       (Some generator, Some reader) \<Rightarrow> rerankCatalogMatches arith matches snapshot text generator reader
     | _ \<Rightarrow> (matches, False, ''optional embeddings are not configured''))"

lemma set_rankedCandidates: "set (fst (rankedCandidates arith ms sn text options)) = set ms"
  by (simp add: rankedCandidates_def set_rerank split: option.split)

text \<open>
  What the ranking relies on in a source of matches: in a good state both searches return only matches
  that are stored.
\<close>

locale catalog_source =
  fixes good :: "'s \<Rightarrow> bool"
    and search :: "'s \<Rightarrow> CatalogSearcher"
    and vectors :: "'s \<Rightarrow> CatalogVectorSearcher"
    and stored :: "'s \<Rightarrow> Snapshot \<Rightarrow> CatalogMatch \<Rightarrow> bool"
  assumes search_stored: "good s \<Longrightarrow> search s sn request = Inr ms \<Longrightarrow> m \<in> set ms \<Longrightarrow> stored s sn m"
    and vectors_stored: "good s \<Longrightarrow> vectors s sn vrequest = Inr ms \<Longrightarrow> m \<in> set ms \<Longrightarrow> stored s sn m"
begin

lemma vector_matches_stored:
  assumes "good s" "opt_VectorSearcher options = None" "m \<in> set (fst (searchCatalogVectors (search s, Some (vectors s)) sn text options))"
  shows "stored s sn m"
  using assms vectors_stored by (auto simp: searchCatalogVectors_def split: option.splits sum.splits)

lemma ranked_stored:
  assumes "good s" "opt_VectorSearcher options = None"
    and "RankCatalogSnapshot arith (Some (search s, Some (vectors s))) sn text options = Inr result"
    and "m \<in> set (res_Matches result)"
  shows "stored s sn m"
proof -
  obtain ms where ms: "search s sn \<lparr>csr_Text = text, csr_Limit = catalogLexicalCandidateLimit\<rparr> = Inr ms"
    using assms(3) by (auto simp: RankCatalogSnapshot_def split: if_splits sum.splits)
  show ?thesis
  proof (cases "ms = []")
    case True
    then have "m \<in> set (fst (searchCatalogVectors (search s, Some (vectors s)) sn text options))"
      using assms(3,4) ms by (auto simp: RankCatalogSnapshot_def split: if_splits prod.splits dest: in_set_takeD)
    then show ?thesis using vector_matches_stored assms(1,2) by blast
  next
    case False
    then have "m \<in> set (take catalogResultLimit (fst (rankedCandidates arith ms sn text options)))"
      using assms(3,4) ms unfolding RankCatalogSnapshot_def rankedCandidates_def[symmetric]
      by (auto split: if_splits prod.splits)
    then have "m \<in> set ms" using set_rankedCandidates in_set_takeD by metis
    then show ?thesis using search_stored[OF assms(1) ms] by blast
  qed
qed

end

text \<open>A match of the store: a visible node with the entry its catalog has for it (a search does not read fingerprints).\<close>

definition catalogued :: "CatalogStore \<Rightarrow> Snapshot \<Rightarrow> CatalogMatch \<Rightarrow> bool" where
  "catalogued s sn m \<longleftrightarrow> cm_Node m \<in> set (visibleNodes (cat_database s) (snap_Workspace sn) (snap_Version sn))
     \<and> (\<exists>e. entryOf s sn (node_ID (cm_Node m)) = Some e \<and> cm_Entry m = e\<lparr>ce_InputFingerprint := ''''\<rparr>)"

lemma entryOf_row:
  assumes "catalog_ok s" "r \<in> set (cat_entries s)" "entryAt sn n r"
  shows "entryOf s sn n = Some (cr_entry r)"
proof -
  have keys: "distinct (map entryKey (cat_entries s))" using catalog_okD(1)[OF assms(1)] by (simp add: search_mirrors_def)
  have "find (\<lambda>r. entryKey r = (snap_Workspace sn, snap_Version sn, n)) (cat_entries s) = Some r"
    unfolding find_by_key[OF keys] using assms(2,3) by (simp add: entryAt_key)
  then show ?thesis by (simp add: entryOf_def entryAt_key[abs_def])
qed

lemma SearchCatalog_catalogued:
  assumes "catalog_ok s" "SearchCatalog u bm25 sn request s = Inr ms" "m \<in> set ms"
  shows "catalogued s sn m"
proof -
  obtain score r n where m: "r \<in> set (cat_search s)" "searchIn sn r"
      "n \<in> set (visibleNodes (cat_database s) (snap_Workspace sn) (snap_Version sn))" "node_ID n = cs_node_id r"
      "m = \<lparr>cm_Node = n, cm_Entry = \<lparr>ce_NodeID = cs_node_id r, ce_Name = cs_name r, ce_InputFingerprint = '''',
         ce_DeterministicSynopsis = cs_deterministic r, ce_CopilotSynopsis = cs_copilot r, ce_OllamaSynopsis = cs_ollama r,
         ce_ClaudeSynopsis = cs_claude r\<rparr>, cm_Score = score\<rparr>"
    using assms(2,3) by (auto simp: SearchCatalog_def Let_def split: if_splits option.splits dest!: in_set_takeD)
  obtain row where row: "row \<in> set (cat_entries s)" "r = searchRow row"
    using m(1) catalog_okD(1)[OF assms(1)] by (auto simp: search_mirrors_def)
  have "entryAt sn (node_ID n) row" using m(2,4) by (simp add: row(2) searchIn_def searchRow_def entryAt_def)
  from entryOf_row[OF assms(1) row(1) this] m(3) show ?thesis by (simp add: catalogued_def m(5) row(2) searchRow_def)
qed

lemma SearchCatalogVectors_catalogued:
  assumes "catalog_ok s" "SearchCatalogVectors distance sn request s = Inr ms" "m \<in> set ms"
  shows "catalogued s sn m"
proof -
  obtain score r n where m: "r \<in> set (cat_entries s)" "entryAt sn (node_ID n) r"
      "n \<in> set (visibleNodes (cat_database s) (snap_Workspace sn) (snap_Version sn))"
      "m = \<lparr>cm_Node = n, cm_Entry = (cr_entry r)\<lparr>ce_InputFingerprint := ''''\<rparr>, cm_Score = score\<rparr>"
    using assms(2,3) by (auto simp: SearchCatalogVectors_def Let_def entryAt_def split: if_splits option.splits)
  from entryOf_row[OF assms(1) m(1,2)] m(3) show ?thesis by (simp add: catalogued_def m(4))
qed

interpretation store_catalog: catalog_source catalog_ok "\<lambda>s sn request. SearchCatalog u bm25 sn request s"
    "\<lambda>s sn request. SearchCatalogVectors distance sn request s" catalogued for u bm25 distance
  by unfold_locales (rule SearchCatalog_catalogued, assumption+, rule SearchCatalogVectors_catalogued)

text \<open>C24: Every match a catalog search of a reachable store answers with is a node visible in the snapshot together with the
  entry the snapshot's catalog has for it, however it was found and ranked.\<close>

theorem catalog_answers_are_catalogued:
  assumes "catalog_reach resized s" "opt_VectorSearcher options = None"
    and "RankCatalogSnapshot arith (Some (\<lambda>sn request. SearchCatalog u bm25 sn request s,
      Some (\<lambda>sn request. SearchCatalogVectors distance sn request s))) sn text options = Inr result"
  shows "\<forall>m\<in>set (res_Matches result). catalogued s sn m"
  using store_catalog.ranked_stored[OF catalog_reach_ok[OF assms(1)] assms(2,3)] by blast

subsection \<open>Concrete searches\<close>

definition exactArithmetic :: FloatArithmetic where
  "exactArithmetic = \<lparr>round32 = id, round64 = id, sqrt64 = id\<rparr>"

definition rankOptions :: CatalogRankingOptions where
  "rankOptions = \<lparr>opt_EmbeddingGenerator = Some (\<lambda>_. Inr [1]), opt_EmbeddingReader = Some (\<lambda>_ _. Inr [embeddingFor ''b'' [1]]),
     opt_VectorSearcher = None\<rparr>"

definition matchFor :: "string \<Rightarrow> CatalogMatch" where
  "matchFor n = \<lparr>cm_Node = catalogNode n, cm_Entry = entryFor n, cm_Score = 0\<rparr>"

lemma plain_text: "TrimSpace ''x'' \<noteq> ''''"
  by code_simp

lemma sample_similarity:
  "bestSimilarity exactArithmetic [1] [embeddingFor ''b'' [1]] ''a'' = None"
  "bestSimilarity exactArithmetic [1] [embeddingFor ''b'' [1]] ''b'' \<noteq> None"
proof -
  have "float32_value 1 \<noteq> 0" by (simp add: float32_value_def)
  then show "bestSimilarity exactArithmetic [1] [embeddingFor ''b'' [1]] ''a'' = None"
    "bestSimilarity exactArithmetic [1] [embeddingFor ''b'' [1]] ''b'' \<noteq> None"
    by (simp_all add: bestSimilarity_def similarities_def embeddingFor_def cosineSimilarity_def dotProduct_def exactArithmetic_def Let_def)
qed

theorem catalog_ranking_is_exact_witness:
  "\<exists>result. RankCatalogSnapshot exactArithmetic (Some (\<lambda>_ _. Inr [matchFor ''a'', matchFor ''b''], None)) (snapshotOf 1) ''x'' rankOptions = Inr result
     \<and> res_Matches result = [matchFor ''b'', matchFor ''a'']"
proof -
  let ?found = "[matchFor ''a'', matchFor ''b'']"
  let ?best = "bestSimilarity exactArithmetic [1] [embeddingFor ''b'' [1]]"
  have "\<exists>result ranked. RankCatalogSnapshot exactArithmetic (Some (\<lambda>_ _. Inr ?found, None)) (snapshotOf 1) ''x'' rankOptions = Inr result
      \<and> res_Matches result = take 10 ranked \<and> rankedBy ?best ?found ranked"
    by (rule catalog_ranking_is_exact[where generator = "\<lambda>_. Inr [1]" and reader = "\<lambda>_ _. Inr [embeddingFor ''b'' [1]]"])
      (simp_all add: rankOptions_def plain_text)
  then obtain result ranked where r: "RankCatalogSnapshot exactArithmetic (Some (\<lambda>_ _. Inr ?found, None)) (snapshotOf 1) ''x'' rankOptions = Inr result"
    "res_Matches result = take 10 ranked" "rankedBy ?best ?found ranked" by blast
  have two: "length ranked = 2" using arg_cong[of _ _ size, OF conjunct1[OF r(3)[unfolded rankedBy_def]]] by simp
  then obtain p q where ranked: "ranked = [p, q]" by (auto simp: numeral_2_eq_2 length_Suc_conv)
  have "{#p, q#} = {#matchFor ''a'', matchFor ''b''#}" using r(3) by (simp add: rankedBy_def ranked)
  then have "p = matchFor ''a'' \<and> q = matchFor ''b'' \<or> p = matchFor ''b'' \<and> q = matchFor ''a''"
    by (auto simp: add_eq_conv_ex)
  moreover have "mayPrecede ?best p q" using r(3) by (simp add: rankedBy_def ranked)
  moreover have "\<not> mayPrecede ?best (matchFor ''a'') (matchFor ''b'')"
    using sample_similarity by (auto simp: mayPrecede_def matchFor_def catalogNode_def)
  ultimately have "ranked = [matchFor ''b'', matchFor ''a'']" unfolding ranked by auto
  then show ?thesis using r(1,2) by auto
qed

definition lexicalOptions :: CatalogRankingOptions where
  "lexicalOptions = \<lparr>opt_EmbeddingGenerator = None, opt_EmbeddingReader = None, opt_VectorSearcher = None\<rparr>"

text \<open>A search that scores every row alike, in a catalog with an entry for the node a.\<close>

lemma sample_search:
  "\<exists>ms. SearchCatalog asciiTables (\<lambda>_ _ _. Some 0) (snapshotOf 1) \<lparr>csr_Text = ''x'', csr_Limit = 50\<rparr> sampleCatalog = Inr ms \<and> ms \<noteq> []"
proof -
  let ?s = sampleCatalog
  have expression: "join '' OR '' (quotedLexicalTerms (lexicalTerms asciiTables ''x'') True) \<noteq> ''''" by code_simp
  have visible: "dedup (visibleNodes catalogGraph ''w'' 1) = [catalogNode ''a'', catalogNode ''b'']"
    by (simp add: visibleNodes_def visibleRows_def catalogGraph_def emptyDatabase_def catalogNode_def)
  have search: "cat_search ?s = [searchRow (entryRow (snapshotOf 1) (entryFor ''a''))]" "cat_database ?s = catalogGraph"
    by (simp_all add: sampleCatalog_def entryCatalog_def graphCatalog_def)
  have row: "filter (searchIn (snapshotOf 1)) (cat_search ?s) = cat_search ?s" "cs_node_id (searchRow (entryRow (snapshotOf 1) (entryFor ''a''))) = ''a''"
    by (simp_all add: search searchIn_def searchRow_def entryRow_def snapshotOf_def entryFor_def)
  show ?thesis
    unfolding SearchCatalog_def row(1) unfolding search using expression visible row(2)
    by (simp add: Let_def missingSnapshot_def snapshotOf_def catalogNode_def)
qed

theorem catalog_answers_are_catalogued_witness:
  "\<exists>result. RankCatalogSnapshot exactArithmetic (Some (\<lambda>sn request. SearchCatalog asciiTables (\<lambda>_ _ _. Some 0) sn request sampleCatalog,
      Some (\<lambda>sn request. SearchCatalogVectors sameVector sn request sampleCatalog))) (snapshotOf 1) ''x'' lexicalOptions = Inr result
     \<and> res_Matches result \<noteq> [] \<and> (\<forall>m\<in>set (res_Matches result). catalogued sampleCatalog (snapshotOf 1) m)"
proof -
  let ?s = sampleCatalog
  obtain ms where s: "SearchCatalog asciiTables (\<lambda>_ _ _. Some 0) (snapshotOf 1) \<lparr>csr_Text = ''x'', csr_Limit = 50\<rparr> ?s = Inr ms" "ms \<noteq> []"
    using sample_search by blast
  then have "\<exists>result. RankCatalogSnapshot exactArithmetic (Some (\<lambda>sn request. SearchCatalog asciiTables (\<lambda>_ _ _. Some 0) sn request ?s,
      Some (\<lambda>sn request. SearchCatalogVectors sameVector sn request ?s))) (snapshotOf 1) ''x'' lexicalOptions = Inr result
      \<and> res_Matches result \<noteq> []"
    using plain_text by (simp add: RankCatalogSnapshot_def lexicalOptions_def catalogLexicalCandidateLimit_def catalogResultLimit_def)
  then obtain result where result: "RankCatalogSnapshot exactArithmetic (Some (\<lambda>sn request. SearchCatalog asciiTables (\<lambda>_ _ _. Some 0) sn request ?s,
      Some (\<lambda>sn request. SearchCatalogVectors sameVector sn request ?s))) (snapshotOf 1) ''x'' lexicalOptions = Inr result"
      "res_Matches result \<noteq> []" by blast
  have "\<forall>m\<in>set (res_Matches result). catalogued ?s (snapshotOf 1) m"
    by (rule catalog_answers_are_catalogued[OF sampleCatalog_reach _ result(1)]) (simp add: lexicalOptions_def)
  then show ?thesis using result by blast
qed

end
