(* ===== verification/Spec2Isabelle.thy ===== *)
theory Spec2Isabelle
  imports Indexer GoResolver Migrations Query Spending CatalogUnits CatalogRank
begin

text \<open>
  A verification development for agent-wayfinder, a Go program that keeps a versioned graph of the
  symbols of a source workspace in a SQLite file and answers bounded questions about it.

  The program.  Extractors turn one source file into a contribution: nodes, edges, references,
  dependencies, diagnostics (src/graph, src/extractor).  The store (src/storage/sqlite) writes the
  contributions of changed sources and the facts of the workspace as one new graph version, in one
  transaction; every row carries the interval of versions it is visible in, so older versions stay
  readable until they are pruned and can be restored by a rollback.  Queries (src/query) look up
  seed nodes, traverse a snapshot under node and depth limits, find paths and explain nodes.
  The indexer (src/indexer) collects file events, publishes batches of them after a quiet period,
  retries failures and drains on stop.  Resolvers read projections of a snapshot back.

  The theories, with the sources they model.
    Prelude        errors as sums, loops with early return, de-duplication, sorting; no source.
    GoStrings      what the code uses of Go's strings, unicode, utf8 and path packages.
    Sha256         the digest behind node identities.
    GraphFacts     graph/facts.go: nodes, edges, evidence, identities, vocabulary validation.
    Contribution   extractor/contracts.go, vocabulary.go, page_resolver_index.go.
    Storage        storage/storage.go: requests, results, errors.
    Lexical        sqlite.go: identifier tokens and full text expressions.
    Tables         sqlite.go: the tables as lists of rows, the row statements, project scopes.
    PathFinding    query/path.go: endpoints, bounded traversal with fallback, shortest paths.
    Traversal      sqlite.go: Traverse and Explain over one snapshot.
    Publication    sqlite.go and batch.go: contributions into rows, batches, chunked INSERTs.
    Versions       sqlite.go: OpenSnapshot, Rollback, Prune, well-formed version intervals.
    Publishing     sqlite.go: publish, with parallel preparation, retention, budget, lexical index.
    Session        sqlite.go: contribution sessions from staging to commit.
    Lifecycle      the databases any sequence of those operations reaches.
    Resolution     sqlite.go: resolver projections, their cache, affected sources.
    Pages          sqlite.go: pages of projections, targets and packages, of the store, of a
                   session and of a staged publication.
    GoResolver     extractors/go/resolver.go: modules and packages, import, call, implements and
                   embeds edges of a page or of a whole project.
    Spending       sqlite.go and internal/spending: reservations under daily, weekly, monthly limits.
    Catalog        sqlite.go: catalog entries, embeddings, vector tables, tasks, copies, searches.
    CatalogRank    query/catalog.go: catalog searches ranked by embeddings.
    CatalogUnits   extractor/catalog.go: the catalog units and synopses of a source.
    Migrations     sqlite.go: opening a store, its schema, the steps from schema 10 to 24.
    Ranking        query/rank.go: seed candidates, score fusion, diversity.
    Questions      query/question.go: the question grammar, slots, plans, planner responses.
    Evidence       query/query.go: relations, scores, evidence groups, impact.
    Query          query/query.go: QuerySnapshot, path and intersection plans, warnings.
    Indexer        indexer/lifecycle.go and queue.go: workers, events, timers, retries, stop.

  State.  A Database (Tables) has one field per table of the SQLite file, each a list of rows; the
  twelve contribution tables are one list tagged with the table.  A transaction is a function
  from the database to an error or a new database, so a failure leaves the old one.  A Session
  carries its uncommitted database.  The indexer's System is its workers with their queues,
  timers and publications in flight; each step holds the manager's mutex in the code.  A
  SchemaFile (Migrations) is the same SQLite file seen as tables with columns.

  A question becomes a plan (AnalyzeQuestion, or a planner response), a plan becomes seeds (Ranking),
  seeds and plan become one or two bounded traversals, and their facts become evidence (Query).

  What the lemmas show.
    Validation and construction accept exactly what they should: vocabularies, facts,
    contributions, event paths, snapshots.
    The tables refine an abstract store, a map from versions to what is visible in them: a
    publication or a session commit adds one version, a rollback restores one, a prune forgets the
    oldest and changes none of the others; all of them fail exactly in the stated cases (a
    publication also when it replaces more owners than one statement can bind); every
    reachable database has well-formed, disjoint intervals.
    Batching, chunking and the delivery order of concurrent preparation are invisible.
    Traverse computes bounded reachability, Explain the neighbourhood, shortestPath a minimal
    walk; all return for every input.
    Every plan a question or a planner response gives can be executed; a query of it fails only
    with the store, does not traverse when it says so, and its paths, common evidence, impact and
    evidence groups are exactly those of the traversed facts.
    The projection cache and the memoising resolver index are transparent.
    Reading projections or a package page by page visits what one read would give, and ends; the Go
    resolver ends on every page, with exactly the import and implements edges of its packages.
    The full text index mirrors the catalog, and the vector tables hold its embeddings - and nothing
    else until a copy changes the dimension of one, which leaves a stale vector that can make later
    writes fail.  Copies, reads and rollbacks of a catalog are exact in its rows; where a search misses
    its matches is characterised.
    Catalog searches return, in the stated order, entries of the snapshot's catalog; they fail only with
    the text search.  The units of a source are what a contribution accepts; where cutting them
    panics is characterised.
    Counted spending stays within the largest limit in force, up to the rounding of sums and
    differences; what is not counted is characterised.
    The indexer loses no accepted event but those still queued when Stop deletes their worker, and a
    queued path has a timer or a publication unless a call on its worker failed half-way.
    The migration steps lead from schema 10 to the tables of a new file in two opens.

  Interfaces.  What a client relies on is a locale, interpreted on the model of the provider:
  graph_reader (what Traverse asks of row reads, provided by the tables), traverser_contract (what
  path search asks of a traverser, provided by Store.Traverse), insert_statement (what chunked
  inserts ask of one INSERT, provided by the three statements of the store), paged_reads (what a
  client of pages relies on, provided by the projection and package pages of the store),
  package_index (what the Go resolver asks of an index, provided by the package pages) and
  catalog_source (what the ranking of a catalog asks of its searches, provided by the catalog).

  Bounds and fuel.  Traversal recurses on MaxDepth; the scope, affected-source and breadth-first
  loops terminate by the finite set of identifiers not yet seen; only the walk back of
  shortestPath and the loop over pages are partial functions, and that they return is a property.
  No definition has fuel.  Go's int is a natural number or an integer where the code cannot overflow it in a
  store of feasible size; the digest uses 32-bit words.

  Parameters.  The Unicode tables beyond ASCII, case folding of runes, the quoting of strconv,
  the decoding of a planner's JSON, the lookup and traversal interfaces of the query layer, SQLite's page counts and variable limit, the contents the publisher, reconciler and lock
  file of the indexer produce, the parser of go.mod and go.work, the decoding of configuration
  files, bm25 scores, the distance of vectors, what INSERT OR REPLACE makes of a vec0 table (when it
  succeeds, the fresh rows replace those with their ids), the rounding of sums and differences of
  amounts of money and of similarities, square roots.

  Not modelled.  Contexts and cancellation, I/O errors of SQLite beyond primary key conflicts and
  failing schema statements, FTS5 scoring (a parameter), wall-clock times and goroutine
  scheduling other than the order of deliveries, the rounding of the scores of seeds and evidence.  The
  metric tables are modelled in their schema only.
  Extractors call tree-sitter and go/parser; the resolvers of TypeScript and JavaScript, command line, model clients, HTTP control, file locks and benchmarks are input and output.
\<close>

end
